(* ===== verification/GoPrelude.thy ===== *)
theory GoPrelude
  imports Main "HOL-Library.Word" "HOL-Library.Signed_Division" "HOL-Library.Monad_Syntax"
begin

text \<open>
  The shared base of the development: Go's 64-bit integers, Go's clock values, slices
  indexed with a run-time check, and the lemmas about them that the component theories use.

  A Go \<open>int64\<close> (and \<open>int\<close>, 64 bits on the supported platforms) is an HOL integer; an
  operation that can overflow is written with \<open>wrap64\<close>, which is two's complement
  reduction (\<open>wrap64_sint\<close> relates it to 64-bit words). Division is Go's, which truncates
  towards zero. An index out of range panics in Go: \<open>at\<close> and \<open>put\<close> return
  \<open>None\<close> there, and a function that may panic has an option result.
\<close>

named_theorems go_bounds \<open>facts that bound the values a component keeps\<close>
named_theorems go_wf \<open>well-formedness preservation facts\<close>

section \<open>Machine integers\<close>

definition max_i64 :: int where
  "max_i64 = 9223372036854775807"

definition min_i64 :: int where
  "min_i64 = -9223372036854775808"

definition max_u64 :: int where
  "max_u64 = 18446744073709551615"

definition in_i64 :: "int \<Rightarrow> bool" where
  "in_i64 x \<longleftrightarrow> min_i64 \<le> x \<and> x \<le> max_i64"

definition wrap64 :: "int \<Rightarrow> int" where
  "wrap64 x = (x + 9223372036854775808) mod 18446744073709551616 - 9223372036854775808"

abbreviation add64 :: "int \<Rightarrow> int \<Rightarrow> int" where
  "add64 a b \<equiv> wrap64 (a + b)"

abbreviation sub64 :: "int \<Rightarrow> int \<Rightarrow> int" where
  "sub64 a b \<equiv> wrap64 (a - b)"

abbreviation mul64 :: "int \<Rightarrow> int \<Rightarrow> int" where
  "mul64 a b \<equiv> wrap64 (a * b)"

abbreviation quot64 :: "int \<Rightarrow> int \<Rightarrow> int" where
  "quot64 a b \<equiv> wrap64 (a sdiv b)"

lemma wrap64_id [simp]: "in_i64 x \<Longrightarrow> wrap64 x = x"
  by (simp add: wrap64_def in_i64_def min_i64_def max_i64_def mod_pos_pos_trivial)

lemma in_i64_wrap64 [simp]: "in_i64 (wrap64 x)"
proof -
  have "0 \<le> (x + 9223372036854775808) mod 18446744073709551616"
    "(x + 9223372036854775808) mod 18446744073709551616 < 18446744073709551616"
    by simp_all
  then show ?thesis
    unfolding in_i64_def wrap64_def min_i64_def max_i64_def by linarith
qed

lemma wrap64_sint: "wrap64 x = sint (word_of_int x :: 64 word)"
proof -
  have "sint (word_of_int x :: 64 word) = signed_take_bit 63 x"
    by (simp add: sint_sbintrunc')
  also have "\<dots> = (x + 2 ^ 63) mod 2 ^ 64 - 2 ^ 63"
    by (simp add: signed_take_bit_eq_take_bit_shift take_bit_eq_mod)
  finally show ?thesis
    by (simp add: wrap64_def)
qed

lemma in_i64_between: "in_i64 a \<Longrightarrow> in_i64 b \<Longrightarrow> a \<le> x \<Longrightarrow> x \<le> b \<Longrightarrow> in_i64 x"
  by (simp add: in_i64_def)

lemma in_i64_nonneg [simp]: "0 \<le> x \<Longrightarrow> in_i64 x \<longleftrightarrow> x \<le> max_i64"
  by (simp add: in_i64_def min_i64_def)

lemma wrap64_nonneg: "0 \<le> x \<Longrightarrow> x \<le> max_i64 \<Longrightarrow> wrap64 x = x"
  by simp

lemma sdiv_nonneg [simp]: "0 \<le> a \<Longrightarrow> 0 \<le> b \<Longrightarrow> (a::int) sdiv b = a div b"
  by (cases "a = 0"; cases "b = 0") (simp_all add: signed_divide_int_def sgn_if)

lemma in_i64_div [simp]: "0 \<le> a \<Longrightarrow> a \<le> max_i64 \<Longrightarrow> 0 < b \<Longrightarrow> in_i64 (a div b)"
proof -
  assume a: "0 \<le> a" "a \<le> max_i64" "0 < b"
  have "0 \<le> a div b" using a by (simp add: pos_imp_zdiv_nonneg_iff)
  moreover have "a div b \<le> a" using a zdiv_mono2[of a 1 b] by simp
  ultimately show ?thesis using a by simp
qed

lemma in_i64_diff: "0 \<le> x \<Longrightarrow> x \<le> max_i64 \<Longrightarrow> 0 \<le> y \<Longrightarrow> y \<le> max_i64 \<Longrightarrow> in_i64 (x - y)"
  by (simp add: in_i64_def min_i64_def max_i64_def)

lemma sub64_nonneg:
  "0 \<le> x \<Longrightarrow> x \<le> max_i64 \<Longrightarrow> 0 \<le> y \<Longrightarrow> y \<le> max_i64 \<Longrightarrow> sub64 x y = x - y"
  by (simp add: in_i64_diff)

section \<open>Clock values\<close>

text \<open>
  A \<open>time.Time\<close> is its nanosecond count since the Unix epoch; Go's zero time is year 1.
  \<open>Time.Sub\<close> saturates at the bounds of \<open>time.Duration\<close>.
\<close>

definition zero_time :: int where
  "zero_time = -62135596800000000000"

definition second :: int where
  "second = 1000000000"

definition time_sub :: "int \<Rightarrow> int \<Rightarrow> int" where
  "time_sub t u = max min_i64 (min max_i64 (t - u))"

lemma in_i64_time_sub [simp]: "in_i64 (time_sub t u)"
  by (simp add: time_sub_def in_i64_def min_i64_def max_i64_def)

section \<open>Slices with checked indices\<close>

definition at :: "'a list \<Rightarrow> int \<Rightarrow> 'a option" where
  "at xs i = (if 0 \<le> i \<and> i < int (length xs) then Some (xs ! nat i) else None)"

definition put :: "'a list \<Rightarrow> int \<Rightarrow> 'a \<Rightarrow> 'a list option" where
  "put xs i v = (if 0 \<le> i \<and> i < int (length xs) then Some (xs[nat i := v]) else None)"

lemma at_Some_iff: "at xs i = Some v \<longleftrightarrow> 0 \<le> i \<and> i < int (length xs) \<and> v = xs ! nat i"
  by (auto simp: at_def)

lemma put_Some_iff:
  "put xs i v = Some ys \<longleftrightarrow> 0 \<le> i \<and> i < int (length xs) \<and> ys = xs[nat i := v]"
  by (auto simp: put_def)

lemma at_in_range [simp]: "0 \<le> i \<Longrightarrow> i < int (length xs) \<Longrightarrow> at xs i = Some (xs ! nat i)"
  by (simp add: at_def)

lemma put_in_range [simp]:
  "0 \<le> i \<Longrightarrow> i < int (length xs) \<Longrightarrow> put xs i v = Some (xs[nat i := v])"
  by (simp add: put_def)

lemma sum_list_update_int:
  "n < length xs \<Longrightarrow> sum_list (xs[n := (v::int)]) = sum_list xs + v - xs ! n"
  by (induction xs arbitrary: n) (auto split: nat.splits)

section \<open>Loops over a list that may stop\<close>

text \<open>A Go \<open>for\<close> loop over a fixed list whose body may panic or return early.\<close>

fun foreach :: "('a \<Rightarrow> 's \<Rightarrow> 's option) \<Rightarrow> 'a list \<Rightarrow> 's \<Rightarrow> 's option" where
  "foreach f [] s = Some s"
| "foreach f (x # xs) s = (case f x s of None \<Rightarrow> None | Some s' \<Rightarrow> foreach f xs s')"

lemma foreach_append:
  "foreach f (xs @ ys) s =
     (case foreach f xs s of None \<Rightarrow> None | Some s' \<Rightarrow> foreach f ys s')"
  by (induction xs arbitrary: s) (auto split: option.splits)

lemma foreach_inv:
  assumes "\<And>x s. x \<in> set xs \<Longrightarrow> I s \<Longrightarrow> \<exists>s'. f x s = Some s' \<and> I s'"
    and "I s"
  shows "\<exists>s'. foreach f xs s = Some s' \<and> I s'"
  using assms
proof (induction xs arbitrary: s)
  case Nil
  then show ?case by simp
next
  case (Cons x xs)
  from Cons.prems(1)[of x s] Cons.prems(2) obtain s' where s': "f x s = Some s'" "I s'"
    by auto
  have "\<exists>s''. foreach f xs s' = Some s'' \<and> I s''"
    by (rule Cons.IH) (use Cons.prems(1) s'(2) in auto)
  with s'(1) show ?case by simp
qed

lemma foreach_rel:
  assumes "\<And>x s. x \<in> set xs \<Longrightarrow> I s \<Longrightarrow> \<exists>s'. f x s = Some s' \<and> I s' \<and> h s' = h s + d x"
    and "I s"
  shows "\<exists>s'. foreach f xs s = Some s' \<and> I s' \<and> h s' = h s + (\<Sum>x\<leftarrow>xs. d x :: int)"
  using assms
proof (induction xs arbitrary: s)
  case Nil
  then show ?case by simp
next
  case (Cons x xs)
  from Cons.prems(1)[of x s] Cons.prems(2)
  obtain s' where s': "f x s = Some s'" "I s'" "h s' = h s + d x" by auto
  have "\<exists>s''. foreach f xs s' = Some s'' \<and> I s'' \<and> h s'' = h s' + (\<Sum>x\<leftarrow>xs. d x)"
    by (rule Cons.IH) (use Cons.prems(1) s'(2) in auto)
  with s' show ?case by (auto simp: algebra_simps)
qed

text \<open>
  The common loop shape: one pass over an index range that rewrites entry \<open>i\<close> of a list
  and accumulates the change of its weight. \<open>mk\<close> rebuilds the loop state from the list and
  the accumulator.
\<close>

lemma foreach_pointwise:
  fixes w :: "'x \<Rightarrow> int"
  assumes step: "\<And>i xs tot. a \<le> i \<Longrightarrow> i \<le> b \<Longrightarrow> length xs = n \<Longrightarrow> P xs tot \<Longrightarrow>
      f i (mk xs tot) = Some (mk (xs[nat i := g i (xs ! nat i)])
        (tot + (w (g i (xs ! nat i)) - w (xs ! nat i)))) \<and>
      P (xs[nat i := g i (xs ! nat i)]) (tot + (w (g i (xs ! nat i)) - w (xs ! nat i)))"
    and "0 \<le> a" and "b < int n" and "length xs = n" and "P xs tot"
  shows "\<exists>ys. foreach f [a..b] (mk xs tot)
        = Some (mk ys (tot + ((\<Sum>y\<leftarrow>ys. w y) - (\<Sum>x\<leftarrow>xs. w x)))) \<and>
      P ys (tot + ((\<Sum>y\<leftarrow>ys. w y) - (\<Sum>x\<leftarrow>xs. w x))) \<and> length ys = n \<and>
      (\<forall>j < n. ys ! j = (if a \<le> int j \<and> int j \<le> b then g (int j) (xs ! j) else xs ! j))"
  using assms
proof (induction "nat (b - a + 1)" arbitrary: a xs tot)
  case 0
  then have "[a..b] = []" by simp
  then show ?case using 0 by (auto intro!: exI[of _ xs])
next
  case (Suc m)
  from Suc.hyps(2) have ab: "a \<le> b" by simp
  define x where "x = xs ! nat a"
  define xs' where "xs' = xs[nat a := g a x]"
  define tot' where "tot' = tot + (w (g a x) - w x)"
  have na: "nat a < length xs" using Suc.prems ab by simp
  have st: "f a (mk xs tot) = Some (mk xs' tot')" "P xs' tot'"
    using Suc.prems(1)[of a xs tot] ab Suc.prems(4,5) by (simp_all add: x_def xs'_def tot'_def)
  have "\<exists>ys. foreach f [a + 1..b] (mk xs' tot')
        = Some (mk ys (tot' + ((\<Sum>y\<leftarrow>ys. w y) - (\<Sum>x\<leftarrow>xs'. w x)))) \<and>
      P ys (tot' + ((\<Sum>y\<leftarrow>ys. w y) - (\<Sum>x\<leftarrow>xs'. w x))) \<and> length ys = n \<and>
      (\<forall>j < n. ys ! j = (if a + 1 \<le> int j \<and> int j \<le> b then g (int j) (xs' ! j) else xs' ! j))"
    by (rule Suc.hyps(1)) (use Suc.hyps(2) Suc.prems st(2) in \<open>auto simp: xs'_def\<close>)
  then obtain ys where
    ys: "foreach f [a + 1..b] (mk xs' tot')
        = Some (mk ys (tot' + ((\<Sum>y\<leftarrow>ys. w y) - (\<Sum>x\<leftarrow>xs'. w x))))"
      "P ys (tot' + ((\<Sum>y\<leftarrow>ys. w y) - (\<Sum>x\<leftarrow>xs'. w x)))" "length ys = n"
      "\<forall>j < n. ys ! j = (if a + 1 \<le> int j \<and> int j \<le> b then g (int j) (xs' ! j) else xs' ! j)"
    by blast
  have "(\<Sum>x\<leftarrow>xs'. w x) = (\<Sum>x\<leftarrow>xs. w x) + w (g a x) - w x"
    using na by (simp add: xs'_def x_def map_update sum_list_update_int)
  then have tot: "tot' + ((\<Sum>y\<leftarrow>ys. w y) - (\<Sum>x\<leftarrow>xs'. w x))
      = tot + ((\<Sum>y\<leftarrow>ys. w y) - (\<Sum>x\<leftarrow>xs. w x))"
    by (simp add: tot'_def)
  have "foreach f [a..b] (mk xs tot)
      = Some (mk ys (tot + ((\<Sum>y\<leftarrow>ys. w y) - (\<Sum>x\<leftarrow>xs. w x))))"
    using ab st ys(1) tot by (simp add: upto_rec1)
  moreover have "ys ! j = (if a \<le> int j \<and> int j \<le> b then g (int j) (xs ! j) else xs ! j)"
    if "j < n" for j
  proof (cases "int j = a")
    case True
    with that ys(4) na ab show ?thesis by (auto simp: xs'_def x_def)
  next
    case False
    then have "xs' ! j = xs ! j" using Suc.prems(2) by (auto simp: xs'_def nth_list_update)
    with that ys(4) False show ?thesis by auto
  qed
  ultimately show ?case using ys(2,3) tot by metis
qed

end
