(* ===== verification/DownloadTask.thy ===== *)
theory DownloadTask
  imports GoPrelude
begin

text \<open>
  The byte range a downloader works on (\<open>types.Task\<close> of internal/surge/types/models.go), its
  16-byte encoding inside the persisted record, and the size constants of
  internal/surge/types/config.go.

  \<open>SharedMaxOffset\<close> is a pointer to an atomic counter shared by racing workers; only its
  identity and the counter's value matter, so a task holds the address of the counter and the
  components that read it carry a map from addresses to values.
\<close>

section \<open>Sizes\<close>

definition MiB :: int where
  "MiB = 1048576"

definition MinChunk :: int where
  "MinChunk = 2097152"

definition AlignSize :: int where
  "AlignSize = 4096"

definition MinChunkDynamicFloor :: int where
  "MinChunkDynamicFloor = 524288"

definition MaxHedgeChunk :: int where
  "MaxHedgeChunk = 4194304"

definition EndGameMaxRemaining :: int where
  "EndGameMaxRemaining = 16777216"

lemmas size_defs = MiB_def MinChunk_def AlignSize_def MinChunkDynamicFloor_def
  MaxHedgeChunk_def EndGameMaxRemaining_def

section \<open>The task\<close>

record task =
  Offset :: int
  Length :: int
  SharedMaxOffset :: "nat option"

abbreviation mk_task :: "int \<Rightarrow> int \<Rightarrow> task" where
  "mk_task off len \<equiv> \<lparr>Offset = off, Length = len, SharedMaxOffset = None\<rparr>"

definition task_end :: "task \<Rightarrow> int" where
  "task_end t = Offset t + Length t"

text \<open>The bytes of the file that a task covers.\<close>

definition task_bytes :: "task \<Rightarrow> int set" where
  "task_bytes t = {Offset t ..< task_end t}"

definition tasks_bytes :: "task list \<Rightarrow> int set" where
  "tasks_bytes ts = (\<Union>t \<in> set ts. task_bytes t)"

definition tasks_length :: "task list \<Rightarrow> int" where
  "tasks_length ts = (\<Sum>t\<leftarrow>ts. Length t)"

lemma tasks_bytes_simps [simp]:
  "tasks_bytes [] = {}"
  "tasks_bytes (t # ts) = task_bytes t \<union> tasks_bytes ts"
  "tasks_bytes (ts @ us) = tasks_bytes ts \<union> tasks_bytes us"
  by (auto simp: tasks_bytes_def)

lemma tasks_length_simps [simp]:
  "tasks_length [] = 0"
  "tasks_length (t # ts) = Length t + tasks_length ts"
  "tasks_length (ts @ us) = tasks_length ts + tasks_length us"
  by (simp_all add: tasks_length_def)

section \<open>The persisted encoding\<close>

text \<open>\<open>binary.LittleEndian\<close> of the standard library, on the unsigned reading of an int64.\<close>

definition put_u64 :: "int \<Rightarrow> 8 word list" where
  "put_u64 v = map (\<lambda>i. word_of_int ((v mod 2 ^ 64) div 256 ^ i)) [0..<8]"

fun le_value :: "8 word list \<Rightarrow> int" where
  "le_value [] = 0"
| "le_value (b # bs) = uint b + 256 * le_value bs"

definition get_i64 :: "8 word list \<Rightarrow> int" where
  "get_i64 bs = wrap64 (le_value bs)"

definition GobEncode :: "task \<Rightarrow> 8 word list" where
  "GobEncode t = put_u64 (Offset t) @ put_u64 (Length t)"

datatype gob_error = CorruptTaskData nat

text \<open>Decoding writes into an existing task; empty data leaves it as it is.\<close>

definition GobDecode :: "task \<Rightarrow> 8 word list \<Rightarrow> gob_error + task" where
  "GobDecode t data =
     (if data = [] then Inr t
      else if length data < 16 then Inl (CorruptTaskData (length data))
      else Inr (t\<lparr>Offset := get_i64 (take 8 data),
                  Length := get_i64 (take 8 (drop 8 data))\<rparr>))"

lemma length_put_u64 [simp]: "length (put_u64 v) = 8"
  by (simp add: put_u64_def)

lemma put_u64_not_Nil [simp]: "put_u64 v \<noteq> []"
  by (simp add: put_u64_def)

lemma le_value_digits:
  "le_value (map (\<lambda>i. word_of_int (u div 256 ^ i)) [k..<k + n]) = (u div 256 ^ k) mod 256 ^ n"
proof (induction n arbitrary: k)
  case 0
  then show ?case by simp
next
  case (Suc n)
  have "[k..<k + Suc n] = k # [Suc k..<Suc k + n]"
    by (simp add: upt_conv_Cons)
  then have "le_value (map (\<lambda>i. word_of_int (u div 256 ^ i)) [k..<k + Suc n])
      = (u div 256 ^ k) mod 256 + 256 * ((u div 256 ^ Suc k) mod 256 ^ n)"
    using Suc.IH[of "Suc k"] by (simp add: uint_word_of_int)
  also have "(u div 256 ^ Suc k) = (u div 256 ^ k) div 256"
    by (simp only: power_Suc2) (simp add: zdiv_zmult2_eq)
  also have "(u div 256 ^ k) mod 256 + 256 * ((u div 256 ^ k) div 256 mod 256 ^ n)
      = (u div 256 ^ k) mod 256 ^ Suc n"
    by (simp add: zmod_zmult2_eq)
  finally show ?case .
qed

lemma get_put_i64: "in_i64 v \<Longrightarrow> get_i64 (put_u64 v) = v"
proof -
  assume v: "in_i64 v"
  have "le_value (put_u64 v) = v mod 2 ^ 64"
    using le_value_digits[of "v mod 2 ^ 64" 0 8] by (simp add: put_u64_def)
  then have "get_i64 (put_u64 v) = wrap64 (v mod 2 ^ 64)"
    by (simp add: get_i64_def)
  also have "\<dots> = wrap64 v"
    by (simp add: wrap64_def mod_simps)
  finally show ?thesis using v by simp
qed

lemma GobDecode_GobEncode:
  assumes "in_i64 (Offset t)" and "in_i64 (Length t)"
  shows "GobDecode u (GobEncode t @ rest)
    = Inr (u\<lparr>Offset := Offset t, Length := Length t\<rparr>)"
  using assms by (simp add: GobDecode_def GobEncode_def get_put_i64)

lemma GobDecode_short: "data \<noteq> [] \<Longrightarrow> length data < 16 \<Longrightarrow>
    GobDecode t data = Inl (CorruptTaskData (length data))"
  by (simp add: GobDecode_def)

section \<open>Properties\<close>

text \<open>Decoding the 16-byte encoding of a task gives back its offset and length; whatever
  follows the 16 bytes is ignored and the shared counter of the target is left alone.\<close>

theorem gob_roundtrip:
  assumes "in_i64 (Offset t)" and "in_i64 (Length t)"
  shows "GobDecode u (GobEncode t @ rest) = Inr (u\<lparr>Offset := Offset t, Length := Length t\<rparr>)"
  by (rule GobDecode_GobEncode[OF assms])

theorem gob_roundtrip_witness:
  "GobDecode (mk_task 0 0) (GobEncode (mk_task (-1) 4096) @ [7]) = Inr (mk_task (-1) 4096)"
  using gob_roundtrip[of "mk_task (-1) 4096" "mk_task 0 0" "[7]"]
  by (simp add: in_i64_def min_i64_def max_i64_def)

end
