(* ===== verification/TaskQueue.thy ===== *)
theory TaskQueue
  imports DownloadTask
begin

text \<open>
  The work queue of the concurrent downloader
  (internal/surge/strategy/concurrent/task_queue.go): a slice with a head index, the cached
  size, the counters of idle and waiting workers, the closed flag and the one-slot
  notification channel to the balancer.

  Every method of the Go type runs under the queue's mutex, so one call is one step here. A
  \<open>Pop\<close> that finds the queue empty blocks on the condition variable; the two halves of its
  loop are \<open>Pop_enter\<close> (first test, or the registration as a waiter) and \<open>Pop_wake\<close> (the
  woken worker leaves the waiter counters and tests again). The locale \<open>fifo\<close> states what a
  work queue promises its clients.
\<close>

section \<open>The interface\<close>

datatype 'a fifo_op = Put "'a list" | Take | Drain

locale fifo =
  fixes enq :: "'a list \<Rightarrow> 'q \<Rightarrow> 'q"
    and deq :: "'q \<Rightarrow> ('a \<times> 'q) option"
    and drain :: "'q \<Rightarrow> 'a list \<times> 'q"
    and view :: "'q \<Rightarrow> 'a list"
    and inv :: "'q \<Rightarrow> bool"
  assumes view_enq: "inv q \<Longrightarrow> view (enq xs q) = view q @ xs"
    and inv_enq: "inv q \<Longrightarrow> inv (enq xs q)"
    and deq_None: "inv q \<Longrightarrow> deq q = None \<longleftrightarrow> view q = []"
    and deq_Some: "inv q \<Longrightarrow> deq q = Some (x, q') \<Longrightarrow> view q = x # view q' \<and> inv q'"
    and drain_view: "inv q \<Longrightarrow> drain q = (xs, q') \<Longrightarrow> xs = view q \<and> view q' = [] \<and> inv q'"
begin

fun run :: "'a fifo_op list \<Rightarrow> 'q \<Rightarrow> 'a list \<times> 'q" where
  "run [] q = ([], q)"
| "run (Put xs # ops) q = run ops (enq xs q)"
| "run (Take # ops) q =
     (case deq q of
        None \<Rightarrow> run ops q
      | Some (x, q') \<Rightarrow> (let (out, r) = run ops q' in (x # out, r)))"
| "run (Drain # ops) q =
     (let (xs, q') = drain q; (out, r) = run ops q' in (xs @ out, r))"

fun pushed :: "'a fifo_op list \<Rightarrow> 'a list" where
  "pushed [] = []"
| "pushed (Put xs # ops) = xs @ pushed ops"
| "pushed (Take # ops) = pushed ops"
| "pushed (Drain # ops) = pushed ops"

text \<open>Nothing is lost, duplicated or reordered, whatever the sequence of operations.\<close>

lemma run_conserves:
  "inv q \<Longrightarrow> run ops q = (out, r) \<Longrightarrow> inv r \<and> out @ view r = view q @ pushed ops"
proof (induction ops q arbitrary: out rule: run.induct)
  case (3 ops q)
  show ?case
  proof (cases "deq q")
    case None
    with 3 show ?thesis by simp
  next
    case (Some p)
    then obtain x q' where p: "deq q = Some (x, q')" by (cases p) auto
    obtain out' where r: "run ops q' = (out', r)" "out = x # out'"
      using "3.prems"(2) p by (auto split: prod.splits)
    from deq_Some[OF "3.prems"(1) p] "3.IH"(2)[OF p refl _ r(1)] r(2) show ?thesis by simp
  qed
next
  case (4 ops q)
  obtain xs q' where d: "drain q = (xs, q')" by fastforce
  obtain out' where r: "run ops q' = (out', r)" "out = xs @ out'"
    using "4.prems"(2) d by (auto split: prod.splits)
  from drain_view[OF "4.prems"(1) d] "4.IH"[OF d[symmetric] refl _ r(1)] r(2)
  show ?case by simp
qed (simp_all add: view_enq inv_enq)

end

section \<open>The queue\<close>

record task_queue =
  q_tasks :: "task list"
  q_head :: nat
  q_done :: bool
  q_idle :: int
  q_waiting :: int
  q_size :: int
  q_idle_signal :: bool

definition NewTaskQueue :: task_queue where
  "NewTaskQueue = \<lparr>q_tasks = [], q_head = 0, q_done = False, q_idle = 0, q_waiting = 0,
     q_size = 0, q_idle_signal = False\<rparr>"

text \<open>The number of waiters that a push wakes up.\<close>

definition signalWaitingWorkersLocked :: "task_queue \<Rightarrow> int \<Rightarrow> int" where
  "signalWaitingWorkersLocked q maxSignals =
     (if maxSignals \<le> 0 then 0
      else if q_waiting q \<le> 0 then 0
      else if maxSignals > q_waiting q then q_waiting q
      else maxSignals)"

definition Push :: "task \<Rightarrow> task_queue \<Rightarrow> task_queue \<times> int" where
  "Push t q =
     (let q' = q\<lparr>q_tasks := q_tasks q @ [t], q_size := q_size q + 1\<rparr>
      in (q', signalWaitingWorkersLocked q' 1))"

definition PushMultiple :: "task list \<Rightarrow> task_queue \<Rightarrow> task_queue \<times> int" where
  "PushMultiple ts q =
     (if ts = [] then (q, 0)
      else let q' = q\<lparr>q_tasks := q_tasks q @ ts, q_size := q_size q + int (length ts)\<rparr>
           in (q', signalWaitingWorkersLocked q' (int (length ts))))"

datatype pop_result = Blocked | Closed | Popped task

text \<open>The part of \<open>Pop\<close> after its waiting loop.\<close>

definition Pop_take :: "task_queue \<Rightarrow> pop_result \<times> task_queue" where
  "Pop_take q =
     (if length (q_tasks q) = q_head q then (Closed, q)
      else let t = q_tasks q ! q_head q;
               q1 = q\<lparr>q_head := q_head q + 1, q_size := q_size q - 1\<rparr>;
               q2 = (if q_head q1 > length (q_tasks q1) div 2
                     then q1\<lparr>q_tasks := drop (q_head q1) (q_tasks q1), q_head := 0\<rparr>
                     else q1)
           in (Popped t, q2))"

definition Pop_enter :: "task_queue \<Rightarrow> pop_result \<times> task_queue" where
  "Pop_enter q =
     (if length (q_tasks q) = q_head q \<and> \<not> q_done q
      then (Blocked, q\<lparr>q_idle := q_idle q + 1, q_waiting := q_waiting q + 1,
                       q_idle_signal := True\<rparr>)
      else Pop_take q)"

definition Pop_wake :: "task_queue \<Rightarrow> pop_result \<times> task_queue" where
  "Pop_wake q = Pop_enter (q\<lparr>q_waiting := q_waiting q - 1, q_idle := q_idle q - 1\<rparr>)"

definition Close :: "task_queue \<Rightarrow> task_queue" where
  "Close q = q\<lparr>q_done := True\<rparr>"

definition Len :: "task_queue \<Rightarrow> int" where
  "Len q = q_size q"

definition IdleWorkers :: "task_queue \<Rightarrow> int" where
  "IdleWorkers q = q_idle q"

definition DrainRemaining :: "task_queue \<Rightarrow> task list \<times> task_queue" where
  "DrainRemaining q =
     (if q_head q \<ge> length (q_tasks q) then ([], q)
      else (drop (q_head q) (q_tasks q), q\<lparr>q_tasks := [], q_head := 0, q_size := 0\<rparr>))"

section \<open>What the queue holds\<close>

definition q_view :: "task_queue \<Rightarrow> task list" where
  "q_view q = drop (q_head q) (q_tasks q)"

definition q_inv :: "task_queue \<Rightarrow> bool" where
  "q_inv q \<longleftrightarrow> q_head q \<le> length (q_tasks q) \<and> q_size q = int (length (q_view q))"

lemma q_inv_New: "q_inv NewTaskQueue"
  by (simp add: q_inv_def q_view_def NewTaskQueue_def)

lemma q_view_New [simp]: "q_view NewTaskQueue = []"
  by (simp add: q_view_def NewTaskQueue_def)

lemma PushMultiple_view:
  "q_inv q \<Longrightarrow> q_view (fst (PushMultiple ts q)) = q_view q @ ts \<and> q_inv (fst (PushMultiple ts q))"
  by (auto simp: PushMultiple_def q_view_def q_inv_def Let_def)

lemma Push_view:
  "q_inv q \<Longrightarrow> q_view (fst (Push t q)) = q_view q @ [t] \<and> q_inv (fst (Push t q))"
  by (auto simp: Push_def q_view_def q_inv_def Let_def)

lemma Pop_take_view:
  assumes "q_inv q"
  shows "case Pop_take q of
      (Popped t, q') \<Rightarrow> q_view q = t # q_view q' \<and> q_inv q'
    | (Closed, q') \<Rightarrow> q_view q = [] \<and> q' = q
    | (Blocked, q') \<Rightarrow> False"
proof (cases "length (q_tasks q) = q_head q")
  case True
  then show ?thesis by (simp add: Pop_take_def q_view_def)
next
  case False
  with assms have h: "q_head q < length (q_tasks q)" by (simp add: q_inv_def)
  then have "drop (q_head q) (q_tasks q)
      = q_tasks q ! q_head q # drop (Suc (q_head q)) (q_tasks q)"
    by (simp add: Cons_nth_drop_Suc)
  with assms h show ?thesis
    by (auto simp: Pop_take_def q_view_def q_inv_def Let_def)
qed

text \<open>The value-level operations, as the interface names them.\<close>

definition tq_enq :: "task list \<Rightarrow> task_queue \<Rightarrow> task_queue" where
  "tq_enq ts q = fst (PushMultiple ts q)"

definition tq_deq :: "task_queue \<Rightarrow> (task \<times> task_queue) option" where
  "tq_deq q = (case Pop_enter q of (Popped t, q') \<Rightarrow> Some (t, q') | _ \<Rightarrow> None)"

lemma tq_deq_cases:
  assumes "q_inv q"
  shows "(tq_deq q = None \<and> q_view q = []) \<or>
    (\<exists>t q'. tq_deq q = Some (t, q') \<and> q_view q = t # q_view q' \<and> q_inv q')"
  using Pop_take_view[OF assms] assms
  by (auto simp: tq_deq_def Pop_enter_def q_view_def split: prod.splits pop_result.splits)

interpretation tq: fifo tq_enq tq_deq DrainRemaining q_view q_inv
proof (unfold_locales, goal_cases)
  case (1 q xs)
  then show ?case using PushMultiple_view by (simp add: tq_enq_def)
next
  case (2 q xs)
  then show ?case using PushMultiple_view by (simp add: tq_enq_def)
next
  case (3 q)
  then show ?case using tq_deq_cases[of q] by auto
next
  case (4 q x q')
  then show ?case using tq_deq_cases[of q] by auto
next
  case (5 q xs q')
  then show ?case
    by (auto simp: DrainRemaining_def q_view_def q_inv_def split: if_splits)
qed

section \<open>Blocking and waking\<close>

lemma Pop_enter_Blocked_iff:
  "fst (Pop_enter q) = Blocked \<longleftrightarrow> length (q_tasks q) = q_head q \<and> \<not> q_done q"
  by (auto simp: Pop_enter_def Pop_take_def Let_def)

lemma Pop_enter_closed:
  "q_done q \<Longrightarrow> q_view q = [] \<Longrightarrow> q_inv q \<Longrightarrow> Pop_enter q = (Closed, q)"
  by (auto simp: Pop_enter_def Pop_take_def q_view_def q_inv_def)

text \<open>A worker that blocks and is woken leaves the waiter counters as it found them.\<close>

lemma Pop_wake_counters:
  assumes "Pop_enter q = (Blocked, q1)"
  shows "q_waiting (snd (Pop_wake q1)) - q_waiting q
      = (if fst (Pop_wake q1) = Blocked then 1 else 0)"
    and "q_idle (snd (Pop_wake q1)) - q_idle q
      = (if fst (Pop_wake q1) = Blocked then 1 else 0)"
  using assms
  by (auto simp: Pop_wake_def Pop_enter_def Pop_take_def Let_def split: if_splits)

lemma signals_bounds:
  "0 \<le> q_waiting q \<Longrightarrow> 0 \<le> n \<Longrightarrow>
   signalWaitingWorkersLocked q n = min n (q_waiting q)"
  by (auto simp: signalWaitingWorkersLocked_def)

section \<open>Properties\<close>

lemma Push_PushMultiple: "Push t q = PushMultiple [t] q"
  by (simp add: Push_def PushMultiple_def Let_def)

lemma queue_run:
  "q_inv (snd (tq.run ops NewTaskQueue)) \<and>
   fst (tq.run ops NewTaskQueue) @ q_view (snd (tq.run ops NewTaskQueue)) = tq.pushed ops"
  using tq.run_conserves[OF q_inv_New, of ops] by (cases "tq.run ops NewTaskQueue") simp

text \<open>C4: over every sequence of pushes, pops and drains of a new queue, the tasks handed out
  followed by the tasks still queued are the tasks pushed, in order: none is lost, duplicated
  or reordered by the compaction of the slice. The cached size is the number of queued tasks,
  and a single push is the push of a one-element list.\<close>

theorem queue_conserves:
  "fst (tq.run ops NewTaskQueue) @ q_view (snd (tq.run ops NewTaskQueue)) = tq.pushed ops \<and>
   Len (snd (tq.run ops NewTaskQueue)) = int (length (q_view (snd (tq.run ops NewTaskQueue)))) \<and>
   Push t q = PushMultiple [t] q"
  using queue_run[of ops] Push_PushMultiple by (simp add: Len_def q_inv_def)

text \<open>A worker that blocks in \<open>Pop\<close> and is woken is counted as idle and as waiting exactly
  while it stays blocked, and a push wakes no more workers than are waiting.\<close>

theorem pop_wake_balanced:
  assumes "Pop_enter q = (Blocked, q1)" and "0 \<le> q_waiting q" and "0 \<le> n"
  shows "q_waiting (snd (Pop_wake q1)) = q_waiting q + (if fst (Pop_wake q1) = Blocked then 1 else 0) \<and>
    q_idle (snd (Pop_wake q1)) = q_idle q + (if fst (Pop_wake q1) = Blocked then 1 else 0) \<and>
    signalWaitingWorkersLocked q1 n = min n (q_waiting q + 1)"
  using Pop_wake_counters[OF assms(1)] signals_bounds[of q1 n] assms
  by (auto simp: Pop_enter_def Pop_take_def Let_def split: if_splits)

theorem pop_wake_balanced_witness:
  "signalWaitingWorkersLocked (snd (Pop_enter NewTaskQueue)) 3 = 1"
  using pop_wake_balanced[of NewTaskQueue "snd (Pop_enter NewTaskQueue)" 3]
  by (simp add: Pop_enter_def NewTaskQueue_def)

end
