(* ===== verification/ChunkPlan.thy ===== *)
theory ChunkPlan
  imports DownloadTask "HOL-Library.Multiset"
begin

text \<open>
  How the concurrent downloader cuts a file into byte ranges and puts ranges back together:
  the runtime knobs (internal/surge/types/config.go), the chunk size and the initial tasks,
  and the merge of overlapping remaining ranges
  (internal/surge/strategy/concurrent/downloader.go).
\<close>

section \<open>Runtime configuration\<close>

record runtime_config =
  MaxConnectionsPerDownload :: int
  Workers :: int
  SequentialDownload :: bool
  MinChunkSize :: int

text \<open>A nil \<open>*RuntimeConfig\<close> is \<open>None\<close>; the getters are nil-safe.\<close>

definition PerDownloadMax :: int where
  "PerDownloadMax = 32"

definition GetMaxConnectionsPerDownload :: "runtime_config option \<Rightarrow> int" where
  "GetMaxConnectionsPerDownload r =
     (case r of None \<Rightarrow> PerDownloadMax
      | Some c \<Rightarrow> if MaxConnectionsPerDownload c \<le> 0 then PerDownloadMax
                  else MaxConnectionsPerDownload c)"

definition GetWorkers :: "runtime_config option \<Rightarrow> int" where
  "GetWorkers r =
     (case r of None \<Rightarrow> 0 | Some c \<Rightarrow> if Workers c \<le> 0 then 0 else Workers c)"

definition GetMinChunkSize :: "runtime_config option \<Rightarrow> int" where
  "GetMinChunkSize r =
     (case r of None \<Rightarrow> MinChunk
      | Some c \<Rightarrow> if MinChunkSize c \<le> 0 then MinChunk else MinChunkSize c)"

definition DefaultRuntimeConfig :: runtime_config where
  "DefaultRuntimeConfig = \<lparr>MaxConnectionsPerDownload = PerDownloadMax, Workers = 0,
     SequentialDownload = False, MinChunkSize = MinChunk\<rparr>"

lemma GetMaxConnections_pos [go_bounds]: "1 \<le> GetMaxConnectionsPerDownload r"
  by (auto simp: GetMaxConnectionsPerDownload_def PerDownloadMax_def split: option.splits)

lemma GetMinChunkSize_pos [go_bounds]: "1 \<le> GetMinChunkSize r"
  by (auto simp: GetMinChunkSize_def MinChunk_def split: option.splits)

section \<open>Connections and chunk size\<close>

text \<open>
  The square-root heuristic is floating point; its rounded value is the argument
  \<open>idealWorkers\<close> (\<open>int(math.Round(math.Sqrt(sizeMB)))\<close> in the source).
\<close>

definition getInitialConnections :: "runtime_config option \<Rightarrow> int \<Rightarrow> int \<Rightarrow> int" where
  "getInitialConnections r idealWorkers fileSize =
     (let maxConns = GetMaxConnectionsPerDownload r;
          minChunkSize = GetMinChunkSize r
      in if fileSize \<le> 0 then 1
         else if GetWorkers r > 0 then
           (let workers = (if GetWorkers r > maxConns then maxConns else GetWorkers r)
            in if minChunkSize > 0
               then (let maxPossibleChunks = max (quot64 fileSize minChunkSize) 1
                     in if workers > maxPossibleChunks then maxPossibleChunks else workers)
               else workers)
         else
           (let calculated =
              (if minChunkSize > 0
               then (let maxPossibleChunks = max (quot64 fileSize minChunkSize) 1
                     in if idealWorkers > maxPossibleChunks then maxPossibleChunks
                        else idealWorkers)
               else idealWorkers)
            in if calculated < 1 then 1
               else if calculated > maxConns then maxConns
               else calculated))"

lemma getInitialConnections_bounds:
  "1 \<le> getInitialConnections r w fileSize \<and>
   getInitialConnections r w fileSize \<le> GetMaxConnectionsPerDownload r"
  using GetMaxConnections_pos[of r]
  by (auto simp: getInitialConnections_def Let_def max_def)

definition align_down :: "int \<Rightarrow> int" where
  "align_down n =
     (let c = mul64 (quot64 n AlignSize) AlignSize in if c = 0 then AlignSize else c)"

definition calculateChunkSize :: "runtime_config option \<Rightarrow> int \<Rightarrow> int \<Rightarrow> int" where
  "calculateChunkSize r fileSize numConns =
     (if numConns \<le> 0 then GetMinChunkSize r
      else let chunkSize = quot64 fileSize numConns;
               minChunk = GetMinChunkSize r
           in align_down (if chunkSize < minChunk then minChunk else chunkSize))"

text \<open>The downloader always has a \<open>Runtime\<close>: the constructor installs the default.\<close>

definition determineChunkSize :: "runtime_config \<Rightarrow> int \<Rightarrow> int \<Rightarrow> int" where
  "determineChunkSize r fileSize numConns =
     (if SequentialDownload r
      then (let c = GetMinChunkSize (Some r)
            in align_down (if c \<le> 0 then 2 * MiB else c))
      else calculateChunkSize (Some r) fileSize numConns)"

lemma align_down_eq:
  assumes "0 \<le> n" and "n \<le> max_i64"
  shows "align_down n = (if n < AlignSize then AlignSize else (n div AlignSize) * AlignSize)"
proof -
  have le: "(n div AlignSize) * AlignSize \<le> n"
    by (simp add: AlignSize_def)
  have nn: "0 \<le> (n div AlignSize) * AlignSize"
    using assms by (simp add: AlignSize_def)
  have z: "(n div AlignSize) * AlignSize = 0 \<longleftrightarrow> n < AlignSize"
    using assms by (auto simp: AlignSize_def)
  have "quot64 n AlignSize = n div AlignSize"
    using assms by (simp add: AlignSize_def)
  then show ?thesis
    using le nn z assms by (simp add: align_down_def Let_def)
qed

lemma align_down_props:
  assumes "0 \<le> n" and "n \<le> max_i64"
  shows "AlignSize dvd align_down n" and "AlignSize \<le> align_down n"
    and "align_down n \<le> max n AlignSize"
proof -
  show "AlignSize dvd align_down n"
    using assms by (simp add: align_down_eq)
  have "n \<ge> AlignSize \<Longrightarrow> 1 \<le> n div AlignSize"
    by (simp add: AlignSize_def)
  then show "AlignSize \<le> align_down n"
    using assms by (auto simp: align_down_eq AlignSize_def)
  show "align_down n \<le> max n AlignSize"
    using assms by (auto simp: align_down_eq AlignSize_def)
qed

lemma calculateChunkSize_aligned:
  assumes "0 < numConns" and "0 \<le> fileSize" and "fileSize \<le> max_i64"
    and "GetMinChunkSize r \<le> max_i64"
  shows "AlignSize dvd calculateChunkSize r fileSize numConns
    \<and> AlignSize \<le> calculateChunkSize r fileSize numConns"
proof -
  define c where "c = (if quot64 fileSize numConns < GetMinChunkSize r
    then GetMinChunkSize r else quot64 fileSize numConns)"
  have q: "quot64 fileSize numConns = fileSize div numConns"
    using assms by simp
  have "fileSize div numConns \<le> max_i64"
    using assms in_i64_div[of fileSize numConns] by (simp add: in_i64_def)
  then have "0 \<le> c" "c \<le> max_i64"
    using assms GetMinChunkSize_pos[of r] q by (auto simp: c_def pos_imp_zdiv_nonneg_iff)
  from align_down_props[OF this] assms(1) show ?thesis
    by (simp add: calculateChunkSize_def c_def Let_def)
qed

section \<open>Initial tasks\<close>

text \<open>
  The loop of \<open>createTasks\<close> steps with wrapping addition, so on a file near the int64 bound
  it need not stop; \<open>None\<close> is not returning (or the panic of \<open>make\<close> on a negative
  capacity).
\<close>

partial_function (option) createTasks_loop ::
  "int \<Rightarrow> int \<Rightarrow> int \<Rightarrow> task list \<Rightarrow> task list option" where
  "createTasks_loop fileSize chunkSize offset ts =
     (if offset < fileSize
      then createTasks_loop fileSize chunkSize (add64 offset chunkSize)
             (ts @ [mk_task offset (if add64 offset chunkSize > fileSize
                                    then sub64 fileSize offset else chunkSize)])
      else Some ts)"

definition createTasks :: "int \<Rightarrow> int \<Rightarrow> task list option" where
  "createTasks fileSize chunkSize =
     (if chunkSize \<le> 0 then Some []
      else let count = quot64 (sub64 (add64 fileSize chunkSize) 1) chunkSize
           in if count < 0 then None else createTasks_loop fileSize chunkSize 0 [])"

definition createInitialTasks :: "int \<Rightarrow> int \<Rightarrow> int \<Rightarrow> task list option" where
  "createInitialTasks fileSize chunkSize maxTasks =
     (case createTasks fileSize chunkSize of
        None \<Rightarrow> None
      | Some ts \<Rightarrow>
          if maxTasks \<le> 0 \<or> int (length ts) \<le> maxTasks then Some ts
          else let k = nat (maxTasks - 1); lst = ts ! k
               in Some (take (nat maxTasks)
                    (ts[k := lst\<lparr>Length := sub64 fileSize (Offset lst)\<rparr>])))"

text \<open>A list of tasks that covers \<open>[a, b)\<close> from left to right without gap or overlap.\<close>

fun tiles :: "int \<Rightarrow> task list \<Rightarrow> int \<Rightarrow> bool" where
  "tiles a [] b \<longleftrightarrow> a = b"
| "tiles a (t # ts) b \<longleftrightarrow> Offset t = a \<and> 0 < Length t \<and> tiles (task_end t) ts b"

lemma tiles_append: "tiles a (xs @ ys) c \<longleftrightarrow> (\<exists>b. tiles a xs b \<and> tiles b ys c)"
  by (induction xs arbitrary: a) auto

lemma tiles_le: "tiles a ts b \<Longrightarrow> a \<le> b"
  by (induction ts arbitrary: a) (fastforce simp: task_end_def)+

lemma tiles_bytes: "tiles a ts b \<Longrightarrow> tasks_bytes ts = {a..<b}"
proof (induction ts arbitrary: a)
  case Nil
  then show ?case by simp
next
  case (Cons t ts)
  then have "tiles (task_end t) ts b" "a \<le> task_end t" by (auto simp: task_end_def)
  with Cons show ?case
    using tiles_le[of "task_end t" ts b] by (auto simp: task_bytes_def)
qed

lemma tiles_length: "tiles a ts b \<Longrightarrow> tasks_length ts = b - a"
  by (induction ts arbitrary: a) (auto simp: task_end_def)

lemma createTasks_loop_tiles:
  assumes "0 < chunkSize" and "0 \<le> offset" and "fileSize + chunkSize \<le> max_i64"
    and "tiles 0 ts offset" and "\<forall>t \<in> set ts. Length t \<le> chunkSize"
    and "offset \<le> fileSize"
  shows "\<exists>us. createTasks_loop fileSize chunkSize offset ts = Some us \<and>
    tiles 0 us fileSize \<and> (\<forall>t \<in> set us. Length t \<le> chunkSize)"
  using assms(2,4,5,6)
proof (induction "nat (fileSize - offset)" arbitrary: offset ts rule: less_induct)
  case less
  show ?case
  proof (cases "offset < fileSize")
    case False
    with less.prems have "offset = fileSize" by simp
    with less.prems show ?thesis
      by (subst createTasks_loop.simps) simp
  next
    case True
    have w1: "add64 offset chunkSize = offset + chunkSize"
      using assms(1,3) less.prems True by simp
    have w2: "sub64 fileSize offset = fileSize - offset"
      using assms(1,3) less.prems True by simp
    define len where "len = (if offset + chunkSize > fileSize then fileSize - offset else chunkSize)"
    have len: "0 < len" "len \<le> chunkSize" "offset + len \<le> fileSize"
      using True assms(1) by (auto simp: len_def)
    have t: "tiles 0 (ts @ [mk_task offset len]) (offset + len)"
      using less.prems len by (auto simp: tiles_append task_end_def)
    have step: "createTasks_loop fileSize chunkSize offset ts
        = createTasks_loop fileSize chunkSize (offset + chunkSize) (ts @ [mk_task offset len])"
      using True w1 w2 by (subst createTasks_loop.simps) (simp add: len_def)
    show ?thesis
    proof (cases "offset + chunkSize < fileSize")
      case True': True
      have "len = chunkSize" using True' by (simp add: len_def)
      moreover have "nat (fileSize - (offset + chunkSize)) < nat (fileSize - offset)"
        using assms(1) True by simp
      ultimately show ?thesis
        using less.hyps[of "offset + chunkSize" "ts @ [mk_task offset len]"] t len
          less.prems True' assms(1) step by auto
    next
      case False
      have "offset + len = fileSize" using False True by (auto simp: len_def)
      moreover have "createTasks_loop fileSize chunkSize (offset + chunkSize) us = Some us" for us
        using False by (subst createTasks_loop.simps) simp
      ultimately show ?thesis
        using t len less.prems step by auto
    qed
  qed
qed

lemma createTasks_tiles:
  assumes "0 < chunkSize" and "0 \<le> fileSize" and "fileSize + chunkSize \<le> max_i64"
  shows "\<exists>ts. createTasks fileSize chunkSize = Some ts \<and> tiles 0 ts fileSize \<and>
    (\<forall>t \<in> set ts. Length t \<le> chunkSize)"
proof -
  have "quot64 (sub64 (add64 fileSize chunkSize) 1) chunkSize = (fileSize + chunkSize - 1) div chunkSize"
    using assms by simp
  moreover have "0 \<le> (fileSize + chunkSize - 1) div chunkSize"
    using assms by (simp add: pos_imp_zdiv_nonneg_iff)
  ultimately show ?thesis
    using createTasks_loop_tiles[of chunkSize 0 fileSize "[]"] assms
    by (simp add: createTasks_def)
qed

lemma tiles_take_last:
  assumes "tiles a ts b" and "k < length ts"
  shows "tiles a (take k ts @ [(ts ! k)\<lparr>Length := b - Offset (ts ! k)\<rparr>]) b"
  using assms
proof (induction ts arbitrary: a k)
  case Nil
  then show ?case by simp
next
  case (Cons t ts)
  show ?case
  proof (cases k)
    case 0
    have "task_end t \<le> b" using Cons.prems tiles_le by auto
    with Cons.prems 0 show ?thesis by (auto simp: task_end_def)
  next
    case (Suc j)
    with Cons show ?thesis by auto
  qed
qed

lemma createInitialTasks_tiles:
  assumes "0 < chunkSize" and "0 \<le> fileSize" and "fileSize + chunkSize \<le> max_i64"
  shows "\<exists>ts. createInitialTasks fileSize chunkSize maxTasks = Some ts \<and>
    tiles 0 ts fileSize \<and> (0 < maxTasks \<longrightarrow> int (length ts) \<le> maxTasks)"
proof -
  from createTasks_tiles[OF assms] obtain ts where
    ts: "createTasks fileSize chunkSize = Some ts" "tiles 0 ts fileSize" by blast
  show ?thesis
  proof (cases "maxTasks \<le> 0 \<or> int (length ts) \<le> maxTasks")
    case True
    with ts show ?thesis by (auto simp: createInitialTasks_def)
  next
    case False
    define k where "k = nat (maxTasks - 1)"
    have k: "k < length ts" "nat maxTasks = Suc k" using False by (auto simp: k_def)
    have mem: "ts ! k \<in> set ts" using k(1) by simp
    have "0 \<le> Offset t \<and> Offset t < fileSize" if "t \<in> set ts" for t
    proof -
      have "tasks_bytes ts = {0..<fileSize}" using ts(2) by (rule tiles_bytes)
      moreover from that obtain xs ys where "ts = xs @ t # ys" by (meson split_list)
      with ts(2) have "0 < Length t" by (auto simp: tiles_append)
      then have "Offset t \<in> task_bytes t" by (simp add: task_bytes_def task_end_def)
      ultimately show ?thesis using that by (auto simp: tasks_bytes_def)
    qed
    from this[OF mem] have "sub64 fileSize (Offset (ts ! k)) = fileSize - Offset (ts ! k)"
      using assms by simp
    then have "createInitialTasks fileSize chunkSize maxTasks
        = Some (take (Suc k) (ts[k := (ts ! k)\<lparr>Length := fileSize - Offset (ts ! k)\<rparr>]))"
      using False ts(1) k by (simp add: createInitialTasks_def k_def Let_def)
    also have "take (Suc k) (ts[k := (ts ! k)\<lparr>Length := fileSize - Offset (ts ! k)\<rparr>])
        = take k ts @ [(ts ! k)\<lparr>Length := fileSize - Offset (ts ! k)\<rparr>]"
      using k(1) by (simp add: take_Suc_conv_app_nth)
    finally show ?thesis
      using tiles_take_last[OF ts(2) k(1)] k False by auto
  qed
qed

section \<open>Properties\<close>

text \<open>C7: the initial tasks of a download terminate, start at byte 0, follow one another without
  gap or overlap up to the file size, each of positive length, and respect the limit on their
  number; hence their lengths add up to the file size.\<close>

theorem initial_tasks_tile:
  assumes "0 < chunkSize" and "0 \<le> fileSize" and "fileSize + chunkSize \<le> max_i64"
  shows "\<exists>ts. createInitialTasks fileSize chunkSize maxTasks = Some ts \<and>
    tiles 0 ts fileSize \<and> tasks_bytes ts = {0..<fileSize} \<and> tasks_length ts = fileSize \<and>
    (0 < maxTasks \<longrightarrow> int (length ts) \<le> maxTasks)"
  using createInitialTasks_tiles[OF assms, of maxTasks] tiles_bytes tiles_length by fastforce

theorem initial_tasks_tile_witness:
  "\<exists>ts. createInitialTasks 10 4 2 = Some ts \<and> tiles 0 ts 10 \<and> tasks_bytes ts = {0..<10} \<and>
    tasks_length ts = 10 \<and> (0 < (2::int) \<longrightarrow> int (length ts) \<le> 2)"
  by (rule initial_tasks_tile) (simp_all add: max_i64_def)

lemma determineChunkSize_aligned:
  assumes "0 < numConns" and "0 \<le> fileSize" and "fileSize \<le> max_i64"
    and "GetMinChunkSize (Some r) \<le> max_i64"
  shows "AlignSize dvd determineChunkSize r fileSize numConns
    \<and> AlignSize \<le> determineChunkSize r fileSize numConns"
proof (cases "SequentialDownload r")
  case True
  then show ?thesis
    using align_down_props[of "GetMinChunkSize (Some r)"] GetMinChunkSize_pos[of "Some r"] assms(4)
    by (simp add: determineChunkSize_def Let_def)
next
  case False
  then show ?thesis using calculateChunkSize_aligned[OF assms] by (simp add: determineChunkSize_def)
qed

text \<open>The number of connections lies between 1 and the configured maximum, and the chunk size
  the downloader works with is a positive multiple of the 4 KiB alignment, in the sequential
  mode as in the parallel one.\<close>

theorem plan_bounds:
  assumes "0 < numConns" and "0 \<le> fileSize" and "fileSize \<le> max_i64"
    and "GetMinChunkSize (Some r) \<le> max_i64"
  shows "1 \<le> getInitialConnections (Some r) idealWorkers fileSize \<and>
    getInitialConnections (Some r) idealWorkers fileSize \<le> GetMaxConnectionsPerDownload (Some r) \<and>
    AlignSize dvd determineChunkSize r fileSize numConns \<and>
    AlignSize \<le> determineChunkSize r fileSize numConns"
  using getInitialConnections_bounds determineChunkSize_aligned[OF assms] by blast

theorem plan_bounds_witness:
  "AlignSize dvd determineChunkSize DefaultRuntimeConfig 100000000 8"
  using plan_bounds[of 8 100000000 DefaultRuntimeConfig 4]
  by (simp add: DefaultRuntimeConfig_def GetMinChunkSize_def MinChunk_def max_i64_def)

end
