(* ===== verification/RangeMerge.thy ===== *)
theory RangeMerge
  imports DownloadTask "HOL-Library.Multiset"
begin

text \<open>
  Deduplication of the remaining ranges at a pause
  (internal/surge/strategy/concurrent/downloader.go): among racing copies that share a counter
  the most advanced one is kept, then overlapping and adjacent ranges are merged by union.
\<close>

section \<open>One task per shared counter\<close>

definition better_copy :: "task \<Rightarrow> task \<Rightarrow> bool" where
  "better_copy t prev \<longleftrightarrow>
     Offset t > Offset prev \<or> (Offset t = Offset prev \<and> Length t < Length prev)"

definition prefer_step ::
  "task list \<times> (nat \<rightharpoonup> nat) \<Rightarrow> task \<Rightarrow> task list \<times> (nat \<rightharpoonup> nat)" where
  "prefer_step s t =
     (case s of (out, pos) \<Rightarrow>
        (case SharedMaxOffset t of
           None \<Rightarrow> (out @ [t], pos)
         | Some p \<Rightarrow>
             (case pos p of
                Some i \<Rightarrow> (if better_copy t (out ! i) then (out[i := t], pos) else (out, pos))
              | None \<Rightarrow> (out @ [t], pos(p \<mapsto> length out)))))"

definition preferMaxOffsetSameSharedMaxOffset :: "task list \<Rightarrow> task list" where
  "preferMaxOffsetSameSharedMaxOffset ts =
     (if length ts \<le> 1 then ts else fst (foldl prefer_step ([], Map.empty) ts))"

lemma prefer_step_simps:
  "SharedMaxOffset t = None \<Longrightarrow> prefer_step (out, pos) t = (out @ [t], pos)"
  "SharedMaxOffset t = Some p \<Longrightarrow> pos p = None \<Longrightarrow>
     prefer_step (out, pos) t = (out @ [t], pos(p \<mapsto> length out))"
  "SharedMaxOffset t = Some p \<Longrightarrow> pos p = Some i \<Longrightarrow> better_copy t (out ! i) \<Longrightarrow>
     prefer_step (out, pos) t = (out[i := t], pos)"
  "SharedMaxOffset t = Some p \<Longrightarrow> pos p = Some i \<Longrightarrow> \<not> better_copy t (out ! i) \<Longrightarrow>
     prefer_step (out, pos) t = (out, pos)"
  by (simp_all add: prefer_step_def)

text \<open>What the loop has achieved after the tasks \<open>ts\<close>.\<close>

definition pos_ok :: "task list \<Rightarrow> (nat \<rightharpoonup> nat) \<Rightarrow> bool" where
  "pos_ok out pos \<longleftrightarrow>
     (\<forall>p i. pos p = Some i \<longleftrightarrow> i < length out \<and> SharedMaxOffset (out ! i) = Some p)"

definition kept_from :: "task list \<Rightarrow> task list \<Rightarrow> bool" where
  "kept_from ts out \<longleftrightarrow>
     set out \<subseteq> set ts \<and>
     (\<forall>t \<in> set ts. SharedMaxOffset t = None \<longrightarrow> t \<in> set out) \<and>
     (\<forall>t \<in> set ts. \<forall>p. SharedMaxOffset t = Some p \<longrightarrow>
        (\<exists>u \<in> set out. SharedMaxOffset u = Some p \<and> \<not> better_copy t u))"

lemma better_copy_trans_neg:
  "\<not> better_copy t a \<Longrightarrow> better_copy b a \<Longrightarrow> \<not> better_copy t b"
  by (auto simp: better_copy_def)

lemma better_copy_irrefl [simp]: "\<not> better_copy t t"
  by (simp add: better_copy_def)

lemma pos_ok_append_None: "pos_ok out pos \<Longrightarrow> SharedMaxOffset t = None \<Longrightarrow> pos_ok (out @ [t]) pos"
  by (simp add: pos_ok_def nth_append less_Suc_eq)

lemma pos_ok_append_Some:
  assumes "pos_ok out pos" and "SharedMaxOffset t = Some p" and "pos p = None"
  shows "pos_ok (out @ [t]) (pos(p \<mapsto> length out))"
  unfolding pos_ok_def
proof (intro allI)
  fix q i
  have none: "\<forall>i < length out. SharedMaxOffset (out ! i) \<noteq> Some p"
    using assms(1,3) unfolding pos_ok_def by (metis option.distinct(1))
  show "(pos(p \<mapsto> length out)) q = Some i \<longleftrightarrow>
      i < length (out @ [t]) \<and> SharedMaxOffset ((out @ [t]) ! i) = Some q"
    using assms none by (cases "q = p"; cases "i < length out")
      (auto simp: pos_ok_def nth_append less_Suc_eq)
qed

lemma pos_ok_update:
  assumes "pos_ok out pos" and "SharedMaxOffset t = Some p" and "pos p = Some i"
  shows "pos_ok (out[i := t]) pos"
  unfolding pos_ok_def
proof (intro allI)
  fix q j
  have "i < length out" "SharedMaxOffset (out ! i) = Some p"
    using assms by (auto simp: pos_ok_def)
  then show "pos q = Some j \<longleftrightarrow>
      j < length (out[i := t]) \<and> SharedMaxOffset (out[i := t] ! j) = Some q"
    using assms by (cases "j = i") (auto simp: pos_ok_def)
qed

lemma set_list_update_other: "u \<in> set xs \<Longrightarrow> u \<noteq> xs ! i \<Longrightarrow> u \<in> set (xs[i := t])"
  by (metis in_set_conv_nth length_list_update nth_list_update_neq)

lemma kept_from_append: "kept_from ts out \<Longrightarrow> kept_from (ts @ [t]) (out @ [t])"
  unfolding kept_from_def
  by (intro conjI ballI allI impI) (auto dest: bspec)

lemma kept_from_skip:
  assumes "kept_from ts out" and "SharedMaxOffset t = Some p" and "u \<in> set out"
    and "SharedMaxOffset u = Some p" and "\<not> better_copy t u"
  shows "kept_from (ts @ [t]) out"
  using assms unfolding kept_from_def by auto

lemma kept_from_replace:
  assumes kept: "kept_from ts out" and pos: "pos_ok out pos" and t: "SharedMaxOffset t = Some p"
    and p: "pos p = Some i" and better: "better_copy t (out ! i)"
  shows "kept_from (ts @ [t]) (out[i := t])"
proof -
  have i: "i < length out" "SharedMaxOffset (out ! i) = Some p"
    using pos p by (auto simp: pos_ok_def)
  have in_new: "t \<in> set (out[i := t])" using i(1) by (rule set_update_memI)
  have sub: "set (out[i := t]) \<subseteq> set (ts @ [t])"
    using kept set_update_subset_insert[of out i t] by (auto simp: kept_from_def)
  have none: "u \<in> set (out[i := t])" if "u \<in> set (ts @ [t])" "SharedMaxOffset u = None" for u
  proof -
    have "u \<in> set out" "u \<noteq> out ! i" using that kept t i(2) by (auto simp: kept_from_def)
    then show ?thesis by (rule set_list_update_other)
  qed
  have best: "\<exists>w \<in> set (out[i := t]). SharedMaxOffset w = Some q \<and> \<not> better_copy u w"
    if "u \<in> set (ts @ [t])" "SharedMaxOffset u = Some q" for u q
  proof (cases "u \<in> set ts")
    case False
    then have "u = t" using that by simp
    then show ?thesis using in_new that by (auto intro!: bexI[of _ t])
  next
    case True
    with kept that(2) have "\<exists>w \<in> set out. SharedMaxOffset w = Some q \<and> \<not> better_copy u w"
      by (simp add: kept_from_def)
    then obtain w where
      w: "w \<in> set out" "SharedMaxOffset w = Some q" "\<not> better_copy u w"
      by blast
    show ?thesis
    proof (cases "w = out ! i")
      case False
      then have "w \<in> set (out[i := t])" by (rule set_list_update_other[OF w(1)])
      with w(2,3) show ?thesis by (intro bexI[of _ w]) simp_all
    next
      case wi: True
      then have "SharedMaxOffset t = Some q" using w(2) i(2) t by simp
      moreover have "\<not> better_copy u t" using w(3) better wi better_copy_trans_neg by blast
      ultimately show ?thesis using in_new by (intro bexI[of _ t]) simp_all
    qed
  qed
  show ?thesis
    unfolding kept_from_def
  proof (intro conjI ballI allI impI, goal_cases)
    case 1
    show ?case by (rule sub)
  next
    case (2 u)
    then show ?case by (rule none)
  next
    case (3 u q)
    then show ?case by (rule best)
  qed
qed

lemma prefer_fold:
  "pos_ok (fst (foldl prefer_step ([], Map.empty) ts)) (snd (foldl prefer_step ([], Map.empty) ts)) \<and>
   kept_from ts (fst (foldl prefer_step ([], Map.empty) ts))"
proof (induction ts rule: rev_induct)
  case Nil
  then show ?case by (simp add: pos_ok_def kept_from_def)
next
  case (snoc t ts)
  obtain out pos where s: "foldl prefer_step ([], Map.empty) ts = (out, pos)" by fastforce
  with snoc have inv: "pos_ok out pos" "kept_from ts out" by simp_all
  show ?case
  proof (cases "SharedMaxOffset t")
    case None
    with inv s show ?thesis
      by (simp add: prefer_step_simps pos_ok_append_None kept_from_append)
  next
    case p: (Some p)
    show ?thesis
    proof (cases "pos p")
      case None
      then show ?thesis
        using inv s p pos_ok_append_Some[OF inv(1) p None]
        by (simp add: prefer_step_simps kept_from_append fun_upd_def)
    next
      case i: (Some i)
      with inv have mem: "out ! i \<in> set out" "SharedMaxOffset (out ! i) = Some p"
        by (auto simp: pos_ok_def)
      show ?thesis
      proof (cases "better_copy t (out ! i)")
        case True
        with inv s p i show ?thesis
          by (simp add: prefer_step_simps pos_ok_update kept_from_replace)
      next
        case False
        with inv s p i show ?thesis
          using kept_from_skip[OF inv(2) p mem False] by (simp add: prefer_step_simps)
      qed
    qed
  qed
qed

lemma kept_from_self: "length ts \<le> 1 \<Longrightarrow> kept_from ts ts"
  by (auto simp: kept_from_def)

text \<open>Unshared ranges are all kept, and each counter keeps its most advanced copy.\<close>

lemma prefer_kept: "kept_from ts (preferMaxOffsetSameSharedMaxOffset ts)"
  using prefer_fold[of ts] kept_from_self[of ts]
  by (simp add: preferMaxOffsetSameSharedMaxOffset_def)

lemma prefer_keeps_copy:
  assumes "t \<in> set ts" and "SharedMaxOffset t = Some p"
  obtains u where "u \<in> set (preferMaxOffsetSameSharedMaxOffset ts)"
    and "SharedMaxOffset u = Some p" and "Offset t \<le> Offset u"
proof -
  from prefer_kept[of ts] assms obtain u where
    "u \<in> set (preferMaxOffsetSameSharedMaxOffset ts)" "SharedMaxOffset u = Some p" "\<not> better_copy t u"
    unfolding kept_from_def by blast
  with that show thesis by (auto simp: better_copy_def)
qed

lemma prefer_one_per_counter:
  assumes "i < length (preferMaxOffsetSameSharedMaxOffset ts)"
    and "j < length (preferMaxOffsetSameSharedMaxOffset ts)"
    and "SharedMaxOffset (preferMaxOffsetSameSharedMaxOffset ts ! i) = Some p"
    and "SharedMaxOffset (preferMaxOffsetSameSharedMaxOffset ts ! j) = Some p"
  shows "i = j"
proof (cases "length ts \<le> 1")
  case True
  with assms show ?thesis by (simp add: preferMaxOffsetSameSharedMaxOffset_def)
next
  case False
  then have "pos_ok (preferMaxOffsetSameSharedMaxOffset ts)
      (snd (foldl prefer_step ([], Map.empty) ts))"
    using prefer_fold[of ts] by (simp add: preferMaxOffsetSameSharedMaxOffset_def)
  with assms show ?thesis unfolding pos_ok_def by (metis option.inject)
qed

section \<open>Merging by union\<close>

fun merge_loop :: "task \<Rightarrow> task list \<Rightarrow> task list" where
  "merge_loop cur [] = [cur]"
| "merge_loop cur (next # rest) =
     (let curEnd = add64 (Offset cur) (Length cur);
          nextEnd = add64 (Offset next) (Length next)
      in if curEnd \<ge> Offset next
         then (let c1 = (if nextEnd > curEnd
                         then cur\<lparr>Length := sub64 nextEnd (Offset cur)\<rparr> else cur);
                   c2 = (if SharedMaxOffset c1 = None \<and> SharedMaxOffset next \<noteq> None
                         then c1\<lparr>SharedMaxOffset := SharedMaxOffset next\<rparr> else c1)
               in merge_loop c2 rest)
         else cur # merge_loop next rest)"

text \<open>
  \<open>sort.Slice\<close> by offset is not stable, so the order of equal offsets is open: the sort is an
  argument, of which only the documented behaviour is used.
\<close>

definition offset_sort :: "(task list \<Rightarrow> task list) \<Rightarrow> bool" where
  "offset_sort srt \<longleftrightarrow> (\<forall>ts. mset (srt ts) = mset ts \<and> sorted (map Offset (srt ts)))"

lemma offset_sort_stable: "offset_sort (sort_key Offset)"
  by (simp add: offset_sort_def)

definition mergeOverlappingTasks :: "(task list \<Rightarrow> task list) \<Rightarrow> task list \<Rightarrow> task list" where
  "mergeOverlappingTasks srt ts =
     (if length ts \<le> 1 then ts
      else case srt ts of [] \<Rightarrow> [] | t # rest \<Rightarrow> merge_loop t rest)"

definition task_ok :: "task \<Rightarrow> bool" where
  "task_ok t \<longleftrightarrow> 0 \<le> Offset t \<and> 0 \<le> Length t \<and> Offset t + Length t \<le> max_i64"

fun separated :: "task list \<Rightarrow> bool" where
  "separated (a # b # rest) \<longleftrightarrow> task_end a < Offset b \<and> separated (b # rest)"
| "separated _ \<longleftrightarrow> True"

lemma merge_step_bytes:
  assumes "task_ok cur" and "task_ok next" and "Offset cur \<le> Offset next"
    and "add64 (Offset cur) (Length cur) \<ge> Offset next"
  defines "c1 \<equiv> (if add64 (Offset next) (Length next) > add64 (Offset cur) (Length cur)
       then cur\<lparr>Length := sub64 (add64 (Offset next) (Length next)) (Offset cur)\<rparr> else cur)"
  defines "c2 \<equiv> (if SharedMaxOffset c1 = None \<and> SharedMaxOffset next \<noteq> None
       then c1\<lparr>SharedMaxOffset := SharedMaxOffset next\<rparr> else c1)"
  shows "task_bytes c2 = task_bytes cur \<union> task_bytes next" and "task_ok c2"
    and "Offset c2 = Offset cur"
proof -
  have 1: "add64 (Offset cur) (Length cur) = Offset cur + Length cur"
    "add64 (Offset next) (Length next) = Offset next + Length next"
    using assms(1,2) by (simp_all add: task_ok_def)
  have 2: "sub64 (Offset next + Length next) (Offset cur) = Offset next + Length next - Offset cur"
    if "Offset next + Length next > Offset cur + Length cur"
    using assms(1,2) that by (intro wrap64_id) (simp add: task_ok_def)
  show "task_bytes c2 = task_bytes cur \<union> task_bytes next"
    and "task_ok c2" and "Offset c2 = Offset cur"
    using assms(1-4) 1 2 by (auto simp: c1_def c2_def task_bytes_def task_end_def task_ok_def)
qed

lemma merge_loop_props:
  assumes "task_ok cur" and "\<forall>t \<in> set ts. task_ok t"
    and "sorted (map Offset (cur # ts))"
  shows "tasks_bytes (merge_loop cur ts) = task_bytes cur \<union> tasks_bytes ts \<and>
    separated (merge_loop cur ts) \<and> (\<forall>t \<in> set (merge_loop cur ts). task_ok t) \<and>
    Offset (hd (merge_loop cur ts)) = Offset cur \<and> merge_loop cur ts \<noteq> []"
  using assms
proof (induction cur ts rule: merge_loop.induct)
  case (1 cur)
  then show ?case by simp
next
  case (2 cur nxt rest)
  show ?case
  proof (cases "add64 (Offset cur) (Length cur) \<ge> Offset nxt")
    case True
    define c1 where "c1 = (if add64 (Offset nxt) (Length nxt) > add64 (Offset cur) (Length cur)
       then cur\<lparr>Length := sub64 (add64 (Offset nxt) (Length nxt)) (Offset cur)\<rparr> else cur)"
    define c2 where "c2 = (if SharedMaxOffset c1 = None \<and> SharedMaxOffset nxt \<noteq> None
       then c1\<lparr>SharedMaxOffset := SharedMaxOffset nxt\<rparr> else c1)"
    have ok: "task_ok nxt" "Offset cur \<le> Offset nxt" using "2.prems" by auto
    note c2 = merge_step_bytes[OF "2.prems"(1) ok True, folded c1_def, folded c2_def]
    have eq: "merge_loop cur (nxt # rest) = merge_loop c2 rest"
      using True by (simp add: c1_def c2_def Let_def)
    have "sorted (map Offset (c2 # rest))" using "2.prems"(3) c2(3) by auto
    with "2.IH"(1)[OF refl refl True c1_def c2_def c2(2)] "2.prems"(2) c2 show ?thesis
      unfolding eq by auto
  next
    case False
    have eq: "merge_loop cur (nxt # rest) = cur # merge_loop nxt rest"
      using False by (simp add: Let_def)
    have w: "task_end cur < Offset nxt"
      using False "2.prems"(1) by (simp add: task_end_def task_ok_def)
    have IH: "tasks_bytes (merge_loop nxt rest) = task_bytes nxt \<union> tasks_bytes rest \<and>
      separated (merge_loop nxt rest) \<and> (\<forall>t \<in> set (merge_loop nxt rest). task_ok t) \<and>
      Offset (hd (merge_loop nxt rest)) = Offset nxt \<and> merge_loop nxt rest \<noteq> []"
      using "2.IH"(2)[OF refl refl False] "2.prems" by auto
    then obtain h tl where htl: "merge_loop nxt rest = h # tl" by (cases "merge_loop nxt rest") auto
    show ?thesis unfolding eq using IH w "2.prems"(1) htl by auto
  qed
qed

lemma separated_after:
  "separated (a # ts) \<Longrightarrow> \<forall>t \<in> set (a # ts). task_ok t \<Longrightarrow> t \<in> set ts \<Longrightarrow> task_end a < Offset t"
proof (induction ts arbitrary: a)
  case Nil
  then show ?case by simp
next
  case (Cons b ts)
  have ab: "task_end a < Offset b" "separated (b # ts)" using Cons.prems(1) by auto
  show ?case
  proof (cases "t = b")
    case False
    then have "task_end b < Offset t" using Cons.IH[OF ab(2)] Cons.prems(2,3) by auto
    then show ?thesis using ab Cons.prems(2) by (auto simp: task_end_def task_ok_def)
  qed (use ab in simp)
qed

lemma separated_card:
  "separated ts \<Longrightarrow> \<forall>t \<in> set ts. task_ok t \<Longrightarrow>
   finite (tasks_bytes ts) \<and> int (card (tasks_bytes ts)) = tasks_length ts"
proof (induction ts)
  case Nil
  then show ?case by simp
next
  case (Cons a ts)
  have sep: "separated ts" using Cons.prems(1) by (cases ts) auto
  have "task_bytes a \<inter> tasks_bytes ts = {}"
    using separated_after[OF Cons.prems] by (fastforce simp: tasks_bytes_def task_bytes_def)
  moreover have "int (card (task_bytes a)) = Length a" "finite (task_bytes a)"
    using Cons.prems(2) by (simp_all add: task_bytes_def task_end_def task_ok_def)
  ultimately show ?case
    using Cons.IH[OF sep] Cons.prems(2) by (simp add: card_Un_disjoint)
qed

lemma mergeOverlappingTasks_props:
  assumes "\<forall>t \<in> set ts. task_ok t" and srt: "offset_sort srt"
  shows "tasks_bytes (mergeOverlappingTasks srt ts) = tasks_bytes ts"
    and "separated (mergeOverlappingTasks srt ts)"
    and "\<forall>t \<in> set (mergeOverlappingTasks srt ts). task_ok t"
proof -
  have "tasks_bytes (mergeOverlappingTasks srt ts) = tasks_bytes ts \<and>
    separated (mergeOverlappingTasks srt ts) \<and> (\<forall>t \<in> set (mergeOverlappingTasks srt ts). task_ok t)"
  proof (cases "length ts \<le> 1")
    case True
    then have "separated ts" by (cases ts rule: separated.cases) auto
    with True assms show ?thesis by (simp add: mergeOverlappingTasks_def)
  next
    case False
    then obtain t rest where s: "srt ts = t # rest"
      using srt by (cases "srt ts") (auto simp: offset_sort_def dest!: spec[of _ ts])
    have set: "set (t # rest) = set ts" using s srt by (metis offset_sort_def set_mset_mset)
    have srt: "sorted (map Offset (t # rest))" using s srt by (metis offset_sort_def)
    have bytes: "tasks_bytes (t # rest) = tasks_bytes ts"
      unfolding tasks_bytes_def set ..
    have "merge_loop t rest = mergeOverlappingTasks srt ts"
      using False s by (simp add: mergeOverlappingTasks_def)
    with merge_loop_props[of t rest] assms set srt bytes show ?thesis by auto
  qed
  then show "tasks_bytes (mergeOverlappingTasks srt ts) = tasks_bytes ts"
    and "separated (mergeOverlappingTasks srt ts)"
    and "\<forall>t \<in> set (mergeOverlappingTasks srt ts). task_ok t" by blast+
qed

section \<open>Properties\<close>

text \<open>
  The ranges written at a pause (\<open>saveStateSnapshot\<close> composes the two passes in this order):
  racing copies are reduced to the most advanced one, then merged.
\<close>

definition remainingRanges :: "(task list \<Rightarrow> task list) \<Rightarrow> task list \<Rightarrow> task list" where
  "remainingRanges srt ts = mergeOverlappingTasks srt (preferMaxOffsetSameSharedMaxOffset ts)"

lemma remainingRanges_facts:
  assumes "\<forall>t \<in> set ts. task_ok t" and "offset_sort srt"
  shows "tasks_bytes (remainingRanges srt ts) = tasks_bytes (preferMaxOffsetSameSharedMaxOffset ts)"
    and "separated (remainingRanges srt ts)"
    and "int (card (tasks_bytes (remainingRanges srt ts))) = tasks_length (remainingRanges srt ts)"
proof -
  have "\<forall>t \<in> set (preferMaxOffsetSameSharedMaxOffset ts). task_ok t"
    using assms prefer_kept[of ts] by (auto simp: kept_from_def)
  note m = mergeOverlappingTasks_props[OF this assms(2)]
  show "tasks_bytes (remainingRanges srt ts) = tasks_bytes (preferMaxOffsetSameSharedMaxOffset ts)"
    "separated (remainingRanges srt ts)"
    using m by (simp_all add: remainingRanges_def)
  show "int (card (tasks_bytes (remainingRanges srt ts))) = tasks_length (remainingRanges srt ts)"
    using separated_card[OF m(2,3)] by (simp add: remainingRanges_def)
qed

text \<open>C3: the ranges persisted at a pause are sorted and pairwise separated, so that the sum of
  their lengths is exactly the number of bytes they cover (the remaining bytes are never counted
  twice); they cover every collected task that has no shared counter, and for each shared counter
  the most advanced of its copies. This holds for any sort by offset.\<close>

theorem pause_ranges:
  assumes "\<forall>t \<in> set ts. task_ok t" and "offset_sort srt"
  shows "separated (remainingRanges srt ts) \<and>
    int (card (tasks_bytes (remainingRanges srt ts))) = tasks_length (remainingRanges srt ts) \<and>
    tasks_bytes (remainingRanges srt ts) \<subseteq> tasks_bytes ts \<and>
    (\<forall>t \<in> set ts. SharedMaxOffset t = None \<longrightarrow> task_bytes t \<subseteq> tasks_bytes (remainingRanges srt ts)) \<and>
    (\<forall>t \<in> set ts. \<forall>p. SharedMaxOffset t = Some p \<longrightarrow>
       (\<exists>u \<in> set ts. SharedMaxOffset u = Some p \<and> \<not> better_copy t u \<and>
          task_bytes u \<subseteq> tasks_bytes (remainingRanges srt ts)))"
proof -
  note f = remainingRanges_facts[OF assms] and k = prefer_kept[of ts]
  have sub: "task_bytes u \<subseteq> tasks_bytes (remainingRanges srt ts)"
    if "u \<in> set (preferMaxOffsetSameSharedMaxOffset ts)" for u
    using that f(1) by (auto simp: tasks_bytes_def)
  have "tasks_bytes (remainingRanges srt ts) \<subseteq> tasks_bytes ts"
    using k f(1) by (auto simp: kept_from_def tasks_bytes_def)
  moreover have "\<exists>u \<in> set ts. SharedMaxOffset u = Some p \<and> \<not> better_copy t u \<and>
      task_bytes u \<subseteq> tasks_bytes (remainingRanges srt ts)"
    if tp: "t \<in> set ts" "SharedMaxOffset t = Some p" for t p
  proof -
    obtain u where "u \<in> set (preferMaxOffsetSameSharedMaxOffset ts)" "SharedMaxOffset u = Some p"
      "\<not> better_copy t u" using k tp unfolding kept_from_def by blast
    then show ?thesis using sub k unfolding kept_from_def by blast
  qed
  ultimately show ?thesis using f(2,3) sub k unfolding kept_from_def by blast
qed

theorem pause_ranges_witness:
  "separated (remainingRanges (sort_key Offset) [mk_task 0 5, mk_task 3 4,
     \<lparr>Offset = 9, Length = 2, SharedMaxOffset = Some 1\<rparr>])"
  using pause_ranges[OF _ offset_sort_stable, of "[mk_task 0 5, mk_task 3 4, \<lparr>Offset = 9, Length = 2, SharedMaxOffset = Some 1\<rparr>]"]
  by (simp add: task_ok_def max_i64_def)

end
