(* ===== verification/BitmapTracker.thy ===== *)
theory BitmapTracker
  imports DownloadTask
begin

unbundle bit_operations_syntax

text \<open>
  The chunk map of a download (internal/surge/progress/bitmap.go): one status and one byte
  counter per chunk, packed two bits per chunk when it is persisted.

  The Go methods hold the tracker's lock; the compare-and-swap loop of \<open>UpdateChunkStatus\<close>
  retries until its read is current, so one chunk's update is one atomic step here. A slice
  access out of range panics, which is \<open>None\<close>.
\<close>

section \<open>State and layout\<close>

record bitmap =
  chunkStatus :: "int list"
  chunkProgress :: "int list"
  actualChunkSize :: int
  width :: int

definition ChunkPending :: int where "ChunkPending = 0"

definition ChunkDownloading :: int where "ChunkDownloading = 1"

definition ChunkCompleted :: int where "ChunkCompleted = 2"

lemmas chunk_status_defs = ChunkPending_def ChunkDownloading_def ChunkCompleted_def

definition empty_bitmap :: bitmap where
  "empty_bitmap = \<lparr>chunkStatus = [], chunkProgress = [], actualChunkSize = 0, width = 0\<rparr>"

definition bitmapLayout :: "int \<Rightarrow> int \<Rightarrow> int \<times> int \<times> bool" where
  "bitmapLayout totalSize chunkSize =
     (if totalSize \<le> 0 \<or> chunkSize \<le> 0 then (0, 0, False)
      else let numChunks = quot64 (sub64 (add64 totalSize chunkSize) 1) chunkSize
           in if numChunks \<le> 0 then (0, 0, False)
              else (numChunks, quot64 (add64 numChunks 3) 4, True))"

definition Reset :: "bitmap \<Rightarrow> bitmap" where
  "Reset b = b\<lparr>chunkStatus := [], chunkProgress := [], width := 0, actualChunkSize := 0\<rparr>"

definition InitBitmap :: "int \<Rightarrow> int \<Rightarrow> bitmap \<Rightarrow> bitmap" where
  "InitBitmap totalSize chunkSize b =
     (if chunkStatus b \<noteq> [] \<and> actualChunkSize b = chunkSize then b
      else if chunkSize \<le> 0 then b
      else case bitmapLayout totalSize chunkSize of (numChunks, _, ok) \<Rightarrow>
        if \<not> ok then b
        else b\<lparr>actualChunkSize := chunkSize, width := numChunks,
               chunkStatus := replicate (nat numChunks) 0,
               chunkProgress := replicate (nat numChunks) 0\<rparr>)"

text \<open>The two status bits of chunk \<open>i\<close> in the packed form; missing bytes read as pending.\<close>

definition unpack_status :: "8 word list \<Rightarrow> nat \<Rightarrow> int" where
  "unpack_status bytes i =
     (if i div 4 < length bytes
      then uint (drop_bit ((i mod 4) * 2) (bytes ! (i div 4)) AND 3)
      else 0)"

definition RestoreBitmap :: "int \<Rightarrow> 8 word list \<Rightarrow> int \<Rightarrow> bitmap \<Rightarrow> bitmap" where
  "RestoreBitmap totalSize bytes chunkSize b =
     (if bytes = [] \<or> chunkSize \<le> 0 \<or> totalSize \<le> 0 then b
      else case bitmapLayout totalSize chunkSize of (numChunks, _, ok) \<Rightarrow>
        if \<not> ok then b
        else b\<lparr>actualChunkSize := chunkSize, width := numChunks,
               chunkStatus := map (unpack_status bytes) [0..<nat numChunks],
               chunkProgress :=
                 (if int (length (chunkProgress b)) \<noteq> numChunks
                  then replicate (nat numChunks) 0 else chunkProgress b)\<rparr>)"

definition SetChunkProgress :: "int list \<Rightarrow> bitmap \<Rightarrow> bitmap" where
  "SetChunkProgress progress b =
     (if progress = [] then b else b\<lparr>chunkProgress := progress\<rparr>)"

definition SetChunkState :: "int \<Rightarrow> int \<Rightarrow> bitmap \<Rightarrow> bitmap option" where
  "SetChunkState index status b =
     (if index < 0 \<or> index \<ge> width b then Some b
      else do { st \<leftarrow> put (chunkStatus b) index status; Some (b\<lparr>chunkStatus := st\<rparr>) })"

definition GetChunkState :: "int \<Rightarrow> bitmap \<Rightarrow> int option" where
  "GetChunkState index b =
     (if index < 0 \<or> index \<ge> width b then Some ChunkPending else at (chunkStatus b) index)"

section \<open>Recording bytes\<close>

definition chunkStart :: "bitmap \<Rightarrow> int \<Rightarrow> int" where
  "chunkStart b i = mul64 i (actualChunkSize b)"

definition chunkEnd :: "bitmap \<Rightarrow> int \<Rightarrow> int \<Rightarrow> int" where
  "chunkEnd b totalSize i = min (add64 (chunkStart b i) (actualChunkSize b)) totalSize"

text \<open>\<open>CompareAndSwap(Pending, Downloading)\<close> on the status of chunk \<open>i\<close>.\<close>

definition cas_downloading :: "int \<Rightarrow> bitmap \<Rightarrow> bitmap option" where
  "cas_downloading i b = do {
     s \<leftarrow> at (chunkStatus b) i;
     st \<leftarrow> put (chunkStatus b) i (if s = ChunkPending then ChunkDownloading else s);
     Some (b\<lparr>chunkStatus := st\<rparr>) }"

definition update_chunk ::
  "int \<Rightarrow> int \<Rightarrow> int \<Rightarrow> int \<Rightarrow> int \<Rightarrow> bitmap \<times> int \<Rightarrow> (bitmap \<times> int) option" where
  "update_chunk totalSize offset len status i s =
     (case s of (b, totalIncrement) \<Rightarrow>
        let cs = chunkStart b i; ce = chunkEnd b totalSize i;
            updateStart = max offset cs;
            updateEnd = min (add64 offset len) ce;
            overlap = max (sub64 updateEnd updateStart) 0
        in if status = ChunkCompleted then do {
             currentProg \<leftarrow> at (chunkProgress b) i;
             let inc = min overlap (sub64 (sub64 ce cs) currentProg);
             if inc \<le> 0 then
               (if currentProg \<ge> sub64 ce cs then do {
                  st \<leftarrow> put (chunkStatus b) i ChunkCompleted;
                  Some (b\<lparr>chunkStatus := st\<rparr>, totalIncrement) }
                else Some (b, totalIncrement))
             else do {
               pr \<leftarrow> put (chunkProgress b) i (add64 currentProg inc);
               let b1 = b\<lparr>chunkProgress := pr\<rparr>;
               b2 \<leftarrow> (if add64 currentProg inc \<ge> sub64 ce cs then do {
                         st \<leftarrow> put (chunkStatus b1) i ChunkCompleted;
                         Some (b1\<lparr>chunkStatus := st\<rparr>) }
                       else cas_downloading i b1);
               Some (b2, add64 totalIncrement inc) } }
           else if status = ChunkDownloading then do {
             b1 \<leftarrow> cas_downloading i b;
             Some (b1, totalIncrement) }
           else Some (b, totalIncrement))"

definition chunk_span :: "bitmap \<Rightarrow> int \<Rightarrow> int \<Rightarrow> int list" where
  "chunk_span b offset len =
     (let startIdx = quot64 offset (actualChunkSize b);
          endIdx = quot64 (sub64 (add64 offset len) 1) (actualChunkSize b)
      in [(if startIdx < 0 then 0 else startIdx)
          ..(if endIdx \<ge> width b then width b - 1 else endIdx)])"

definition UpdateChunkStatus ::
  "int \<Rightarrow> int \<Rightarrow> int \<Rightarrow> int \<Rightarrow> bitmap \<Rightarrow> (bitmap \<times> int) option" where
  "UpdateChunkStatus totalSize offset len status b =
     (if actualChunkSize b = 0 \<or> chunkStatus b = [] then Some (b, 0)
      else foreach (update_chunk totalSize offset len status) (chunk_span b offset len) (b, 0))"

section \<open>Rebuilding the counters\<close>

definition full_chunk :: "int \<Rightarrow> int \<Rightarrow> bitmap \<times> int \<Rightarrow> (bitmap \<times> int) option" where
  "full_chunk totalSize i s =
     (case s of (b, acc) \<Rightarrow>
        let prog = sub64 (chunkEnd b totalSize i) (chunkStart b i)
        in do { pr \<leftarrow> put (chunkProgress b) i prog;
                Some (b\<lparr>chunkProgress := pr\<rparr>, add64 acc prog) })"

definition subtract_chunk ::
  "int \<Rightarrow> task \<Rightarrow> int \<Rightarrow> bitmap \<times> int \<Rightarrow> (bitmap \<times> int) option" where
  "subtract_chunk totalSize t i s =
     (case s of (b, acc) \<Rightarrow>
        let taskStart = max (Offset t) (chunkStart b i);
            taskEnd = min (add64 (Offset t) (Length t)) (chunkEnd b totalSize i);
            overlap = sub64 taskEnd taskStart
        in if overlap > 0 then do {
             prog \<leftarrow> at (chunkProgress b) i;
             let newProg = sub64 prog overlap;
             let total1 = sub64 acc overlap;
             pr \<leftarrow> put (chunkProgress b) i (if newProg < 0 then 0 else newProg);
             Some (b\<lparr>chunkProgress := pr\<rparr>,
                   if newProg < 0 then add64 total1 (wrap64 (- newProg)) else total1) }
           else Some (b, acc))"

definition subtract_task :: "int \<Rightarrow> task \<Rightarrow> bitmap \<times> int \<Rightarrow> (bitmap \<times> int) option" where
  "subtract_task totalSize t s =
     foreach (subtract_chunk totalSize t) (chunk_span (fst s) (Offset t) (Length t)) s"

definition trust_chunk :: "int \<Rightarrow> int \<Rightarrow> bitmap \<times> int \<Rightarrow> (bitmap \<times> int) option" where
  "trust_chunk totalSize i s =
     (case s of (b, acc) \<Rightarrow> do {
        st \<leftarrow> at (chunkStatus b) i;
        if st = ChunkCompleted then do {
          let size = sub64 (chunkEnd b totalSize i) (chunkStart b i);
          current \<leftarrow> at (chunkProgress b) i;
          if current < size then do {
            pr \<leftarrow> put (chunkProgress b) i size;
            Some (b\<lparr>chunkProgress := pr\<rparr>, add64 acc (sub64 size current)) }
          else Some (b, acc) }
        else Some (b, acc) })"

definition settle_chunk :: "int \<Rightarrow> int \<Rightarrow> bitmap \<times> int \<Rightarrow> (bitmap \<times> int) option" where
  "settle_chunk totalSize i s =
     (case s of (b, acc) \<Rightarrow> do {
        let size = sub64 (chunkEnd b totalSize i) (chunkStart b i);
        prog \<leftarrow> at (chunkProgress b) i;
        pr \<leftarrow> put (chunkProgress b) i
                (if prog \<ge> size then size else if prog > 0 then prog else 0);
        st \<leftarrow> put (chunkStatus b) i
                (if prog \<ge> size then ChunkCompleted
                 else if prog > 0 then ChunkDownloading else ChunkPending);
        Some (b\<lparr>chunkProgress := pr, chunkStatus := st\<rparr>, acc) })"

definition RecalculateProgress :: "int \<Rightarrow> task list \<Rightarrow> bitmap \<Rightarrow> (bitmap \<times> int) option" where
  "RecalculateProgress totalSize remainingTasks b =
     (if actualChunkSize b = 0 \<or> width b = 0 then Some (b, 0)
      else do {
        let idx = [0..width b - 1];
        let b0 = b\<lparr>chunkProgress := replicate (nat (width b)) 0\<rparr>;
        s1 \<leftarrow> foreach (full_chunk totalSize) idx (b0, 0);
        s2 \<leftarrow> foreach (subtract_task totalSize) remainingTasks s1;
        s3 \<leftarrow> foreach (trust_chunk totalSize) idx s2;
        foreach (settle_chunk totalSize) idx s3 })"

section \<open>Packing\<close>

definition pack_chunk :: "bitmap \<Rightarrow> int \<Rightarrow> 8 word list \<Rightarrow> 8 word list option" where
  "pack_chunk b i bytes = do {
     status \<leftarrow> at (chunkStatus b) i;
     let byteIndex = i sdiv 4;
     old \<leftarrow> at bytes byteIndex;
     put bytes byteIndex (old OR push_bit (nat ((i smod 4) * 2)) (word_of_int status)) }"

record bitmap_snapshot =
  snap_bytes :: "8 word list"
  snap_width :: int
  snap_total :: int
  snap_chunkSize :: int
  snap_progress :: "int list"

definition GetBitmapSnapshot :: "int \<Rightarrow> bool \<Rightarrow> bitmap \<Rightarrow> bitmap_snapshot option" where
  "GetBitmapSnapshot totalSize includeProgress b =
     (if chunkStatus b = []
      then Some \<lparr>snap_bytes = [], snap_width = 0, snap_total = 0, snap_chunkSize = 0,
                 snap_progress = []\<rparr>
      else case bitmapLayout totalSize (actualChunkSize b) of (_, bytesNeeded, _) \<Rightarrow> do {
        bytes \<leftarrow> foreach (pack_chunk b) [0..width b - 1] (replicate (nat bytesNeeded) 0);
        Some \<lparr>snap_bytes = bytes, snap_width = width b, snap_total = totalSize,
              snap_chunkSize = actualChunkSize b,
              snap_progress = (if includeProgress then chunkProgress b else [])\<rparr> })"

section \<open>Unverified ranges\<close>

text \<open>
  \<open>unverifiedTasksFromBitmap\<close> of internal/surge/strategy/concurrent/downloader.go: the maximal
  runs of chunks that are not marked completed. \<open>start\<close> is -1 outside a run.
\<close>

definition scan_chunk ::
  "8 word list \<Rightarrow> int \<Rightarrow> task list \<times> int \<Rightarrow> nat \<Rightarrow> task list \<times> int" where
  "scan_chunk bytes chunkSize s i =
     (case s of (ts, start) \<Rightarrow>
        if unpack_status bytes i \<noteq> ChunkCompleted
        then (if start < 0 then (ts, mul64 (int i) chunkSize) else (ts, start))
        else if start \<ge> 0
             then (ts @ [mk_task start (sub64 (mul64 (int i) chunkSize) start)], -1)
             else (ts, start))"

definition unverifiedTasksFromBitmap :: "8 word list \<Rightarrow> int \<Rightarrow> int \<Rightarrow> task list" where
  "unverifiedTasksFromBitmap bytes fileSize chunkSize =
     (if fileSize \<le> 0 \<or> chunkSize \<le> 0 then []
      else let numChunks = quot64 (sub64 (add64 fileSize chunkSize) 1) chunkSize
           in case foldl (scan_chunk bytes chunkSize) ([], -1) [0..<nat numChunks] of
                (ts, start) \<Rightarrow>
                  if start \<ge> 0 then ts @ [mk_task start (sub64 fileSize start)] else ts)"

end
