(* ===== verification/BitmapFacts.thy ===== *)
theory BitmapFacts
  imports BitmapTracker
begin

text \<open>
  What the chunk map promises. \<open>bm_ok\<close> is its invariant: the layout fits the file, every
  counter lies between 0 and its chunk's size and a completed chunk is full. The three loops of
  the tracker are instances of one pass over cells (\<open>cells_loop\<close>), so that every change is
  accounted: the value returned is the change of the sum of the counters.
\<close>

definition chunk_len :: "int \<Rightarrow> int \<Rightarrow> int \<Rightarrow> int" where
  "chunk_len T cs i = min ((i + 1) * cs) T - i * cs"

definition bm_layout :: "int \<Rightarrow> bitmap \<Rightarrow> bool" where
  "bm_layout T b \<longleftrightarrow>
     0 < T \<and> 0 < actualChunkSize b \<and> T + actualChunkSize b \<le> max_i64 \<and>
     width b = (T + actualChunkSize b - 1) div actualChunkSize b \<and>
     int (length (chunkStatus b)) = width b"

lemma width_bounds:
  assumes "0 < cs" and "0 < (T::int)" and w: "w = (T + cs - 1) div cs"
  shows "0 < w" and "(w - 1) * cs < T" and "T \<le> w * cs"
proof -
  define m where "m = (T + cs - 1) mod cs"
  have m: "0 \<le> m" "m < cs" using assms by (simp_all add: m_def)
  have eq: "w * cs + m = T + cs - 1" unfolding w m_def by (simp add: mult.commute)
  show "T \<le> w * cs" using eq m by simp
  show "(w - 1) * cs < T" using eq m by (simp add: algebra_simps)
  show "0 < w"
  proof (rule ccontr)
    assume "\<not> 0 < w"
    then have "w * cs \<le> 0" using assms(1) by (simp add: mult_le_0_iff)
    with \<open>T \<le> w * cs\<close> assms(2) show False by simp
  qed
qed

lemma chunk_index_bounds:
  assumes L: "bm_layout T b" and i: "0 \<le> i" "i < width b"
  shows "0 \<le> i * actualChunkSize b" and "i * actualChunkSize b < T"
    and "chunkStart b i = i * actualChunkSize b"
    and "chunkEnd b T i = min ((i + 1) * actualChunkSize b) T"
    and "0 < chunk_len T (actualChunkSize b) i"
    and "chunk_len T (actualChunkSize b) i \<le> T"
    and "sub64 (chunkEnd b T i) (chunkStart b i) = chunk_len T (actualChunkSize b) i"
proof -
  define cs where "cs = actualChunkSize b"
  have c: "0 < cs" "0 < T" "T + cs \<le> max_i64" using L by (auto simp: bm_layout_def cs_def)
  have w: "(width b - 1) * cs < T" using width_bounds[of cs T "width b"] L c
    by (simp add: bm_layout_def cs_def)
  have "i * cs \<le> (width b - 1) * cs" using i c by (intro mult_right_mono) auto
  then have lt: "i * cs < T" using w by simp
  have ge: "0 \<le> i * cs" using i c by simp
  show "0 \<le> i * actualChunkSize b" "i * actualChunkSize b < T"
    using lt ge by (simp_all add: cs_def)
  show s: "chunkStart b i = i * actualChunkSize b"
    unfolding chunkStart_def using lt ge c by (simp add: cs_def)
  have "add64 (i * cs) cs = (i + 1) * cs"
    using lt ge c by (simp add: algebra_simps)
  then show e: "chunkEnd b T i = min ((i + 1) * actualChunkSize b) T"
    unfolding chunkEnd_def s by (simp add: cs_def)
  show "0 < chunk_len T (actualChunkSize b) i" "chunk_len T (actualChunkSize b) i \<le> T"
    using lt ge c by (auto simp: chunk_len_def cs_def[symmetric] algebra_simps)
  then show "sub64 (chunkEnd b T i) (chunkStart b i) = chunk_len T (actualChunkSize b) i"
    unfolding s e using c by (simp add: chunk_len_def)
qed

lemma sum_chunk_len:
  assumes "0 < cs" and "0 < T" and "w = (T + cs - 1) div cs"
  shows "(\<Sum>j < nat w. chunk_len T cs (int j)) = T"
proof -
  have "int k \<le> w \<Longrightarrow> (\<Sum>j < k. chunk_len T cs (int j)) = min (int k * cs) T" for k
  proof (induction k)
    case 0
    then show ?case using assms by simp
  next
    case (Suc k)
    then have "int k * cs \<le> (w - 1) * cs" using assms(1) by (intro mult_right_mono) auto
    then have "int k * cs < T" using width_bounds[OF assms] by simp
    with Suc show ?case by (simp add: chunk_len_def algebra_simps)
  qed
  from this[of "nat w"] width_bounds[OF assms] show ?thesis by simp
qed

definition cell_ok :: "int \<Rightarrow> int \<times> int \<Rightarrow> bool" where
  "cell_ok sz c \<longleftrightarrow> 0 \<le> snd c \<and> snd c \<le> sz \<and> fst c \<in> {0..2} \<and>
     (fst c = ChunkCompleted \<longrightarrow> snd c = sz)"

definition bm_ok :: "int \<Rightarrow> bitmap \<Rightarrow> bool" where
  "bm_ok T b \<longleftrightarrow> bm_layout T b \<and> length (chunkProgress b) = length (chunkStatus b) \<and>
     (\<forall>j < length (chunkStatus b).
        cell_ok (chunk_len T (actualChunkSize b) (int j)) (chunkStatus b ! j, chunkProgress b ! j))"

lemma bm_layout_nonempty: "bm_layout T b \<Longrightarrow> chunkStatus b \<noteq> [] \<and> 0 < width b"
  using width_bounds(1)[of "actualChunkSize b" T "width b"] by (auto simp: bm_layout_def)

definition verified :: "bitmap \<Rightarrow> int" where
  "verified b = sum_list (chunkProgress b)"

lemma sum_list_bounds_nth:
  assumes "length xs = n" and "\<And>j. j < n \<Longrightarrow> 0 \<le> (xs ! j :: int) \<and> xs ! j \<le> h j"
  shows "0 \<le> sum_list xs" and "sum_list xs \<le> (\<Sum>j < n. h j)"
  using assms by (auto simp: sum_list_sum_nth atLeast0LessThan intro!: sum_nonneg sum_mono)

lemma bm_layout_sum:
  assumes "bm_layout T b"
  shows "(\<Sum>j < length (chunkStatus b). chunk_len T (actualChunkSize b) (int j)) = T"
proof -
  have "length (chunkStatus b) = nat (width b)"
    using assms unfolding bm_layout_def by (metis nat_int)
  moreover have "(\<Sum>j < nat (width b). chunk_len T (actualChunkSize b) (int j)) = T"
    using assms unfolding bm_layout_def by (intro sum_chunk_len) auto
  ultimately show ?thesis by simp
qed

lemma bm_ok_verified: "bm_ok T b \<Longrightarrow> 0 \<le> verified b \<and> verified b \<le> T"
  using sum_list_bounds_nth[of "chunkProgress b" "length (chunkStatus b)"
      "\<lambda>j. chunk_len T (actualChunkSize b) (int j)"] bm_layout_sum[of T b]
  by (auto simp: bm_ok_def verified_def cell_ok_def)

section \<open>One update\<close>

definition overlap :: "int \<Rightarrow> bitmap \<Rightarrow> int \<Rightarrow> int \<Rightarrow> int \<Rightarrow> int" where
  "overlap T b offset len i =
     max 0 (min (offset + len) (min ((i + 1) * actualChunkSize b) T)
            - max offset (i * actualChunkSize b))"

text \<open>
  What one pass does to the status and the counter of a chunk of \<open>size\<close> bytes of which the
  update covers \<open>ov\<close>.
\<close>

definition upd_cell :: "int \<Rightarrow> int \<Rightarrow> int \<Rightarrow> int \<times> int \<Rightarrow> int \<times> int" where
  "upd_cell sz ov status c =
     (if status = ChunkCompleted then
        (let pr = min sz (snd c + ov) in
           (if pr \<ge> sz then ChunkCompleted
            else if pr > snd c \<and> fst c = ChunkPending then ChunkDownloading else fst c, pr))
      else if status = ChunkDownloading then
        (if fst c = ChunkPending then ChunkDownloading else fst c, snd c)
      else c)"

lemma upd_cell_ok: "cell_ok sz c \<Longrightarrow> 0 \<le> ov \<Longrightarrow> cell_ok sz (upd_cell sz ov status c)"
  by (cases c) (auto simp add: cell_ok_def upd_cell_def Let_def chunk_status_defs min_def)

definition mkb :: "bitmap \<Rightarrow> (int \<times> int) list \<Rightarrow> int \<Rightarrow> bitmap \<times> int" where
  "mkb b zs acc = (b\<lparr>chunkStatus := map fst zs, chunkProgress := map snd zs\<rparr>, acc)"

lemma overlap_step:
  assumes L: "bm_layout T b" and i: "0 \<le> i" "i < width b"
    and o: "0 \<le> offset" "0 \<le> len" "offset + len \<le> max_i64"
  shows "max (sub64 (min (add64 offset len) (chunkEnd b T i)) (max offset (chunkStart b i))) 0
      = overlap T b offset len i"
proof -
  note c = chunk_index_bounds[OF L i]
  define s where "s = i * actualChunkSize b"
  define e where "e = min ((i + 1) * actualChunkSize b) T"
  have se: "0 \<le> s" "s < e" "e \<le> T" "s \<le> max_i64" "e \<le> max_i64"
    using c(1,2,5) L unfolding bm_layout_def by (auto simp: chunk_len_def s_def e_def)
  have "in_i64 (min (offset + len) e - max offset s)"
    by (rule in_i64_diff) (use se o in auto)
  moreover have "add64 offset len = offset + len" using o by simp
  ultimately show ?thesis
    unfolding c(3,4) overlap_def by (simp add: max.commute s_def e_def)
qed

definition cells_hold ::
  "(int \<Rightarrow> int \<times> int \<Rightarrow> bool) \<Rightarrow> int \<Rightarrow> bitmap \<Rightarrow> (int \<times> int) list \<Rightarrow> bool" where
  "cells_hold Q T b zs \<longleftrightarrow> length zs = length (chunkStatus b) \<and>
     (\<forall>j < length zs. Q (chunk_len T (actualChunkSize b) (int j)) (zs ! j))"

definition cell_in :: "int \<Rightarrow> int \<times> int \<Rightarrow> bool" where
  "cell_in sz c \<longleftrightarrow> 0 \<le> snd c \<and> snd c \<le> sz"

abbreviation cells_ok :: "int \<Rightarrow> bitmap \<Rightarrow> (int \<times> int) list \<Rightarrow> bool" where
  "cells_ok \<equiv> cells_hold cell_ok"

lemma cells_holdD:
  "cells_hold Q T b zs \<Longrightarrow> 0 \<le> i \<Longrightarrow> nat i < length zs \<Longrightarrow>
    Q (chunk_len T (actualChunkSize b) i) (zs ! nat i)"
  by (metis cells_hold_def nat_0_le)

lemma cells_hold_update:
  assumes "cells_hold Q T b zs" and "0 \<le> i" and "Q (chunk_len T (actualChunkSize b) i) v"
  shows "cells_hold Q T b (zs[nat i := v])"
  unfolding cells_hold_def
proof (intro conjI allI impI)
  fix j assume "j < length (zs[nat i := v])"
  then show "Q (chunk_len T (actualChunkSize b) (int j)) (zs[nat i := v] ! j)"
    using assms by (cases "j = nat i") (auto simp: cells_hold_def)
qed (use assms in \<open>simp add: cells_hold_def\<close>)

lemma cell_ok_in: "cell_ok sz c \<Longrightarrow> cell_in sz c"
  by (simp add: cell_ok_def cell_in_def)

lemma cells_sum:
  assumes "bm_layout T b" and "cells_hold Q T b zs"
    and "\<And>sz c. Q sz c \<Longrightarrow> cell_in sz c"
  shows "0 \<le> (\<Sum>z\<leftarrow>zs. snd z)" and "(\<Sum>z\<leftarrow>zs. snd z) \<le> T"
proof -
  have c: "0 \<le> map snd zs ! j \<and> map snd zs ! j \<le> chunk_len T (actualChunkSize b) (int j)"
    if "j < length (chunkStatus b)" for j
    using that assms(2) assms(3)[of "chunk_len T (actualChunkSize b) (int j)" "zs ! j"]
    by (simp add: cells_hold_def cell_in_def)
  have n: "length (map snd zs) = length (chunkStatus b)" using assms(2) by (simp add: cells_hold_def)
  show "0 \<le> (\<Sum>z\<leftarrow>zs. snd z)" "(\<Sum>z\<leftarrow>zs. snd z) \<le> T"
    using sum_list_bounds_nth[OF n c] bm_layout_sum[OF assms(1)] by simp_all
qed

lemma cells_of_bitmap:
  assumes "bm_ok T b"
  defines "zs \<equiv> zip (chunkStatus b) (chunkProgress b)"
  shows "cells_ok T b zs" and "mkb b zs acc = (b, acc)" and "(\<Sum>z\<leftarrow>zs. snd z) = verified b"
  using assms by (auto simp: bm_ok_def cells_hold_def mkb_def verified_def)

lemma mkb_ok: "bm_layout T b \<Longrightarrow> cells_ok T b zs \<Longrightarrow> bm_ok T (fst (mkb b zs acc))"
  by (auto simp: bm_ok_def cells_hold_def mkb_def bm_layout_def)

lemma mkb_layout: "bm_layout T b \<Longrightarrow> length zs = length (chunkStatus b) \<Longrightarrow>
    bm_layout T (fst (mkb b zs acc))"
  by (simp add: bm_layout_def mkb_def)

lemma update_chunk_cell:
  fixes status :: int
  assumes L: "bm_layout T b" and i: "0 \<le> i" "i < width b"
    and o: "0 \<le> offset" "0 \<le> len" "offset + len \<le> max_i64"
    and zs: "cells_ok T b zs"
    and acc: "acc = (\<Sum>z\<leftarrow>zs. snd z) - V" "0 \<le> V" "V \<le> T"
  defines "c \<equiv> upd_cell (chunk_len T (actualChunkSize b) i) (overlap T b offset len i) status (zs ! nat i)"
  shows "update_chunk T offset len status i (mkb b zs acc)
      = Some (mkb b (zs[nat i := c]) (acc + (snd c - snd (zs ! nat i))))"
    and "cells_ok T b (zs[nat i := c])"
proof -
  define size where "size = chunk_len T (actualChunkSize b) i"
  define ov where "ov = overlap T b offset len i"
  obtain st pr where z: "zs ! nat i = (st, pr)" by fastforce
  have n: "nat i < length zs" "int (length (chunkStatus b)) = width b"
    using L i zs by (auto simp: bm_layout_def cells_hold_def)
  have T: "0 < T" "T \<le> max_i64" using L by (auto simp: bm_layout_def)
  have cell: "cell_ok size (st, pr)"
    using cells_holdD[OF zs i(1)] n z by (simp add: size_def)
  then have pr: "0 \<le> pr" "pr \<le> size" "st = ChunkCompleted \<longrightarrow> pr = size"
    by (simp_all add: cell_ok_def)
  have "0 \<le> ov" by (simp add: ov_def overlap_def)
  have size: "0 < size" "size \<le> T" using chunk_index_bounds[OF L i] by (simp_all add: size_def)
  define b1 where "b1 = fst (mkb b zs acc)"
  have b1: "mkb b zs acc = (b1, acc)" "actualChunkSize b1 = actualChunkSize b"
      "chunkStatus b1 = map fst zs" "chunkProgress b1 = map snd zs"
    by (simp_all add: b1_def mkb_def)
  have L1: "bm_layout T b1" "i < width b1"
    using mkb_layout[OF L] zs i by (simp_all add: cells_hold_def b1_def mkb_def)
  have st1: "max (sub64 (min (add64 offset len) (chunkEnd b1 T i)) (max offset (chunkStart b1 i))) 0 = ov"
    "sub64 (chunkEnd b1 T i) (chunkStart b1 i) = size"
    using overlap_step[OF L1(1) i(1) L1(2) o] chunk_index_bounds(7)[OF L1(1) i(1) L1(2)]
    by (simp_all add: ov_def overlap_def b1(2) size_def)
  have c: "c = upd_cell size ov status (st, pr)" by (simp add: c_def size_def ov_def z)
  have upd: "cell_ok size v \<Longrightarrow> cells_ok T b (zs[nat i := v])" for v
    using cells_hold_update[OF zs i(1)] by (simp add: size_def)
  show "cells_ok T b (zs[nat i := c])"
    unfolding c by (intro upd upd_cell_ok cell \<open>0 \<le> ov\<close>)
  have sums: "0 \<le> (\<Sum>z\<leftarrow>zs. snd z)" "(\<Sum>z\<leftarrow>zs. snd z) \<le> T"
    using cells_sum[OF L zs cell_ok_in] by simp_all
  have w1: "sub64 size pr = size - pr" "in_i64 (size - pr)" using pr size T by simp_all
  have w2: "0 \<le> inc \<Longrightarrow> inc \<le> size - pr \<Longrightarrow> add64 pr inc = pr + inc" for inc
    using pr size T by simp
  have "cells_ok T b (zs[nat i := (ChunkCompleted, size)])"
    using size by (intro upd) (simp add: cell_ok_def chunk_status_defs)
  from cells_sum(2)[OF L this cell_ok_in] have room: "(\<Sum>z\<leftarrow>zs. snd z) + (size - pr) \<le> T"
    using n z by (simp add: map_update sum_list_update_int)
  have w3: "0 \<le> inc \<Longrightarrow> inc \<le> size - pr \<Longrightarrow> add64 acc inc = acc + inc" for inc
    by (rule wrap64_id) (use room sums acc T in \<open>simp add: in_i64_def min_i64_def max_i64_def\<close>)
  have at1: "at (map fst zs) i = Some st" "at (map snd zs) i = Some pr"
    using n i z by simp_all
  have put1: "put (map fst zs) i v = Some ((map fst zs)[nat i := v])"
    "put (map snd zs) i v = Some ((map snd zs)[nat i := v])" for v
    using n i by simp_all
  have z2: "(map fst zs)[nat i := st] = map fst zs" "(map snd zs)[nat i := pr] = map snd zs"
    using n z by (simp_all add: list_update_same_conv)
  have mk: "mkb b (zs[nat i := (st', pr')]) acc' =
      (b1\<lparr>chunkStatus := (map fst zs)[nat i := st'], chunkProgress := (map snd zs)[nat i := pr']\<rparr>, acc')"
    for st' pr' acc' by (simp add: mkb_def b1_def map_update)
  have b1_same: "b1\<lparr>chunkStatus := map fst zs\<rparr> = b1" "b1\<lparr>chunkProgress := map snd zs\<rparr> = b1"
    using b1(3,4) by (metis bitmap.surjective bitmap.update_convs(1,2) b1_def mkb_def fst_conv)+
  note step = update_chunk_def Let_def prod.case cas_downloading_def at1 put1 bind.bind_lunit
    b1 w1 st1 c upd_cell_def fst_conv snd_conv mk z2 b1_same z
  show "update_chunk T offset len status i (mkb b zs acc)
      = Some (mkb b (zs[nat i := c]) (acc + (snd c - snd (zs ! nat i))))"
  proof -
    consider (dl) "status = ChunkDownloading" | (oth) "status \<noteq> ChunkDownloading" "status \<noteq> ChunkCompleted"
      | (comp) "status = ChunkCompleted" by blast
    then show ?thesis
    proof cases
      case dl
      then show ?thesis by (simp add: step chunk_status_defs)
    next
      case oth
      then show ?thesis by (simp add: step)
    next
      case comp
      define inc where "inc = min ov (size - pr)"
      have inc: "0 \<le> inc" "inc \<le> size - pr" using pr \<open>0 \<le> ov\<close> by (simp_all add: inc_def)
      have pr': "min size (pr + ov) = pr + inc" by (simp add: inc_def)
      show ?thesis
      proof (cases "inc \<le> 0")
        case True
        then show ?thesis using comp inc
          by (simp add: step pr' inc_def[symmetric])
      next
        case False
        then show ?thesis using comp inc
          by (simp add: step pr' inc_def[symmetric] w2 w3)
      qed
    qed
  qed
qed

text \<open>One loop of the tracker over a span of chunks, for any body that acts cell by cell.\<close>

lemma cells_loop:
  assumes L: "bm_layout T b" and zs: "cells_hold Q T b zs" and V: "0 \<le> V" "V \<le> T"
    and span: "0 \<le> lo" "hi < width b"
    and step: "\<And>i zs acc. lo \<le> i \<Longrightarrow> i \<le> hi \<Longrightarrow> cells_hold Q T b zs \<Longrightarrow>
        acc = (\<Sum>z\<leftarrow>zs. snd z) - V \<Longrightarrow>
        f i (mkb b zs acc) = Some (mkb b (zs[nat i := g i (zs ! nat i)])
            (acc + (snd (g i (zs ! nat i)) - snd (zs ! nat i)))) \<and>
        cells_hold Q T b (zs[nat i := g i (zs ! nat i)])"
  shows "\<exists>ys. foreach f [lo..hi] (mkb b zs ((\<Sum>z\<leftarrow>zs. snd z) - V))
        = Some (mkb b ys ((\<Sum>y\<leftarrow>ys. snd y) - V)) \<and> cells_hold Q T b ys \<and>
      (\<forall>j < length (chunkStatus b).
         ys ! j = (if lo \<le> int j \<and> int j \<le> hi then g (int j) (zs ! j) else zs ! j))"
proof -
  let ?n = "length (chunkStatus b)"
  have n: "int ?n = width b" using L by (simp add: bm_layout_def)
  have "\<exists>ys. foreach f [lo..hi] (mkb b zs ((\<Sum>z\<leftarrow>zs. snd z) - V))
        = Some (mkb b ys (((\<Sum>z\<leftarrow>zs. snd z) - V) + ((\<Sum>y\<leftarrow>ys. snd y) - (\<Sum>x\<leftarrow>zs. snd x)))) \<and>
      (cells_hold Q T b ys \<and>
        ((\<Sum>z\<leftarrow>zs. snd z) - V) + ((\<Sum>y\<leftarrow>ys. snd y) - (\<Sum>x\<leftarrow>zs. snd x)) = (\<Sum>y\<leftarrow>ys. snd y) - V) \<and>
      length ys = ?n \<and>
      (\<forall>j < ?n. ys ! j = (if lo \<le> int j \<and> int j \<le> hi then g (int j) (zs ! j) else zs ! j))"
  proof (rule foreach_pointwise[where P = "\<lambda>zs acc. cells_hold Q T b zs \<and> acc = (\<Sum>z\<leftarrow>zs. snd z) - V"])
    fix i xs tot
    assume i: "lo \<le> i" "i \<le> hi" and P: "cells_hold Q T b xs \<and> tot = (\<Sum>z\<leftarrow>xs. snd z) - V"
    have "nat i < length xs" using i span n P by (simp add: cells_hold_def)
    with step[OF i, of xs tot] P
    show "f i (mkb b xs tot) = Some (mkb b (xs[nat i := g i (xs ! nat i)])
          (tot + (snd (g i (xs ! nat i)) - snd (xs ! nat i)))) \<and>
        cells_hold Q T b (xs[nat i := g i (xs ! nat i)]) \<and>
        tot + (snd (g i (xs ! nat i)) - snd (xs ! nat i)) =
        (\<Sum>z\<leftarrow>xs[nat i := g i (xs ! nat i)]. snd z) - V"
      by (simp add: map_update sum_list_update_int)
  qed (use span n zs in \<open>auto simp: cells_hold_def\<close>)
  then show ?thesis by auto
qed

lemma chunk_span_eq:
  assumes L: "bm_layout T b" and o: "0 \<le> offset" "0 < len" "offset + len \<le> max_i64"
  shows "\<exists>lo hi. chunk_span b offset len = [lo..hi] \<and> 0 \<le> lo \<and> hi < width b \<and>
    (\<forall>j. 0 \<le> j \<and> j < width b \<and> \<not> (lo \<le> j \<and> j \<le> hi) \<longrightarrow> overlap T b offset len j = 0)"
proof -
  define cs where "cs = actualChunkSize b"
  have cs: "0 < cs" using L by (simp add: bm_layout_def cs_def)
  define lo where "lo = offset div cs"
  define hi' where "hi' = (offset + len - 1) div cs"
  define hi where "hi = (if hi' \<ge> width b then width b - 1 else hi')"
  have nn: "0 \<le> lo" "0 \<le> hi'" using cs o by (simp_all add: lo_def hi'_def pos_imp_zdiv_nonneg_iff)
  have "add64 offset len = offset + len" "sub64 (offset + len) 1 = offset + len - 1"
    using o by simp_all
  moreover have "quot64 offset cs = lo" "quot64 (offset + len - 1) cs = hi'"
    using cs o in_i64_div[of offset cs] in_i64_div[of "offset + len - 1" cs]
    by (simp_all add: lo_def hi'_def)
  ultimately have "chunk_span b offset len = [lo..hi]"
    using nn unfolding chunk_span_def Let_def by (simp add: hi_def cs_def[symmetric])
  moreover have "overlap T b offset len j = 0"
    if j: "0 \<le> j" "j < width b" "\<not> (lo \<le> j \<and> j \<le> hi)" for j
  proof -
    have "j < lo \<or> hi' < j" using j by (auto simp: hi_def split: if_splits)
    then have "(j + 1) * cs \<le> offset \<or> offset + len \<le> j * cs"
    proof
      assume "j < lo"
      then have "(j + 1) * cs \<le> lo * cs" using cs by (intro mult_right_mono) auto
      also have "lo * cs \<le> offset"
        using cs unfolding lo_def by (metis div_mult_mod_eq le_add_same_cancel1 pos_mod_sign)
      finally show ?thesis by simp
    next
      assume "hi' < j"
      then have "(hi' + 1) * cs \<le> j * cs" using cs by (intro mult_right_mono) auto
      moreover have "offset + len - 1 = hi' * cs + (offset + len - 1) mod cs"
        by (simp add: hi'_def)
      moreover have "(offset + len - 1) mod cs < cs" using cs by simp
      ultimately show ?thesis by (simp add: algebra_simps)
    qed
    then show ?thesis by (auto simp: overlap_def cs_def[symmetric])
  qed
  moreover have "hi < width b" by (simp add: hi_def)
  ultimately show ?thesis using nn by blast
qed

lemma UpdateChunkStatus_ok:
  assumes ok: "bm_ok T b" and o: "0 \<le> offset" "0 < len" "offset + len \<le> max_i64"
  shows "\<exists>b' inc. UpdateChunkStatus T offset len status b = Some (b', inc) \<and> bm_ok T b' \<and>
    actualChunkSize b' = actualChunkSize b \<and> width b' = width b \<and>
    inc = verified b' - verified b \<and> 0 \<le> inc \<and>
    (\<forall>j < length (chunkStatus b).
       chunkProgress b' ! j =
         (if status = ChunkCompleted
          then min (chunk_len T (actualChunkSize b) (int j))
                   (chunkProgress b ! j + overlap T b offset len (int j))
          else chunkProgress b ! j))"
proof -
  have L: "bm_layout T b" using ok by (simp add: bm_ok_def)
  define zs where "zs = zip (chunkStatus b) (chunkProgress b)"
  note z = cells_of_bitmap[OF ok, folded zs_def]
  have V: "0 \<le> verified b" "verified b \<le> T" using bm_ok_verified[OF ok] by simp_all
  obtain lo hi where span: "chunk_span b offset len = [lo..hi]" "0 \<le> lo" "hi < width b"
    "\<And>j. 0 \<le> j \<Longrightarrow> j < width b \<Longrightarrow> \<not> (lo \<le> j \<and> j \<le> hi) \<Longrightarrow> overlap T b offset len j = 0"
    using chunk_span_eq[OF L o] by blast
  define g where "g i c = upd_cell (chunk_len T (actualChunkSize b) i) (overlap T b offset len i) status c"
    for i c
  have "\<exists>ys. foreach (update_chunk T offset len status) [lo..hi] (mkb b zs ((\<Sum>z\<leftarrow>zs. snd z) - verified b))
        = Some (mkb b ys ((\<Sum>y\<leftarrow>ys. snd y) - verified b)) \<and> cells_ok T b ys \<and>
      (\<forall>j < length (chunkStatus b).
         ys ! j = (if lo \<le> int j \<and> int j \<le> hi then g (int j) (zs ! j) else zs ! j))"
  proof (rule cells_loop[OF L z(1) V span(2,3)])
    fix i xs acc
    assume "lo \<le> i" "i \<le> hi" "cells_ok T b xs" "acc = (\<Sum>z\<leftarrow>xs. snd z) - verified b"
    then show "update_chunk T offset len status i (mkb b xs acc) = Some (mkb b (xs[nat i := g i (xs ! nat i)])
            (acc + (snd (g i (xs ! nat i)) - snd (xs ! nat i)))) \<and>
        cells_ok T b (xs[nat i := g i (xs ! nat i)])"
      using update_chunk_cell[OF L, of i offset len xs acc "verified b" status] span(2,3) o V
      by (simp add: g_def)
  qed
  then obtain ys where ys: "foreach (update_chunk T offset len status) [lo..hi] (b, 0)
        = Some (mkb b ys ((\<Sum>y\<leftarrow>ys. snd y) - verified b))" "cells_ok T b ys"
      "\<And>j. j < length (chunkStatus b) \<Longrightarrow>
         ys ! j = (if lo \<le> int j \<and> int j \<le> hi then g (int j) (zs ! j) else zs ! j)"
    by (auto simp: z(2,3))
  define b' where "b' = fst (mkb b ys ((\<Sum>y\<leftarrow>ys. snd y) - verified b))"
  have b': "bm_ok T b'" "actualChunkSize b' = actualChunkSize b" "width b' = width b"
    "verified b' = (\<Sum>y\<leftarrow>ys. snd y)" "chunkProgress b' = map snd ys"
    using mkb_ok[OF L ys(2)] by (simp_all add: b'_def mkb_def verified_def)
  have n: "length ys = length (chunkStatus b)" "length zs = length (chunkStatus b)"
    "length (chunkProgress b) = length (chunkStatus b)" "int (length (chunkStatus b)) = width b"
    using ys(2) z(1) ok by (auto simp: cells_hold_def bm_ok_def bm_layout_def)
  have prog: "chunkProgress b' ! j = (if status = ChunkCompleted
          then min (chunk_len T (actualChunkSize b) (int j))
                   (chunkProgress b ! j + overlap T b offset len (int j))
          else chunkProgress b ! j)" if j: "j < length (chunkStatus b)" for j
  proof -
    have zj: "zs ! j = (chunkStatus b ! j, chunkProgress b ! j)" using j n by (simp add: zs_def)
    have "chunkProgress b ! j \<le> chunk_len T (actualChunkSize b) (int j)"
      using ok j by (auto simp: bm_ok_def cell_ok_def)
    moreover have "\<not> (lo \<le> int j \<and> int j \<le> hi) \<Longrightarrow> overlap T b offset len (int j) = 0"
      using span(4)[of "int j"] j n by simp
    moreover have "snd (g (int j) (zs ! j)) = (if status = ChunkCompleted
          then min (chunk_len T (actualChunkSize b) (int j))
                   (chunkProgress b ! j + overlap T b offset len (int j))
          else chunkProgress b ! j)"
      by (simp add: g_def zj upd_cell_def Let_def)
    ultimately show ?thesis
      using ys(3)[OF j] n j zj by (simp add: b'(5))
  qed
  have "0 \<le> overlap T b offset len i" for i by (simp add: overlap_def)
  then have "chunkProgress b ! j \<le> chunkProgress b' ! j" if "j < length (chunkStatus b)" for j
    using prog[OF that] ok that by (auto simp: bm_ok_def cell_ok_def)
  then have "verified b \<le> verified b'"
    unfolding verified_def sum_list_sum_nth b'(5) using n
    by (auto simp: b'(5) intro!: sum_mono)
  moreover have "UpdateChunkStatus T offset len status b = Some (b', verified b' - verified b)"
    using bm_layout_nonempty[OF L] L ys(1) span(1)
    by (simp add: UpdateChunkStatus_def b'_def mkb_def verified_def bm_layout_def)
  ultimately show ?thesis using b'(1-3) prog
    by (intro exI[of _ b'] exI[of _ "verified b' - verified b"]) simp
qed

section \<open>Rebuilding\<close>

abbreviation cells_in :: "int \<Rightarrow> bitmap \<Rightarrow> (int \<times> int) list \<Rightarrow> bool" where
  "cells_in \<equiv> cells_hold cell_in"

lemma mkb_simps [simp]:
  "chunkStatus (fst (mkb b zs acc)) = map fst zs"
  "chunkProgress (fst (mkb b zs acc)) = map snd zs"
  "actualChunkSize (fst (mkb b zs acc)) = actualChunkSize b"
  "width (fst (mkb b zs acc)) = width b"
  "snd (mkb b zs acc) = acc"
  by (simp_all add: mkb_def)

lemma mkb_update:
  "mkb b zs acc = (b1, acc1) \<Longrightarrow> mkb b (zs[n := (st, pr)]) acc' =
      (b1\<lparr>chunkProgress := (map snd zs)[n := pr], chunkStatus := (map fst zs)[n := st]\<rparr>, acc')"
  "mkb b zs acc = (b1, acc1) \<Longrightarrow> n < length zs \<Longrightarrow> fst (zs ! n) = st \<Longrightarrow>
     mkb b (zs[n := (st, pr)]) acc' = (b1\<lparr>chunkProgress := (map snd zs)[n := pr]\<rparr>, acc')"
  "mkb b zs acc = (b1, acc1) \<Longrightarrow> n < length zs \<Longrightarrow> zs ! n = c \<Longrightarrow> mkb b (zs[n := c]) acc = (b1, acc)"
  by (auto simp: mkb_def map_update list_update_same_conv)

definition pass_at ::
  "int \<Rightarrow> bitmap \<Rightarrow> int \<Rightarrow> (int \<times> int) list \<Rightarrow> int \<Rightarrow> bitmap \<Rightarrow> int \<Rightarrow> int \<Rightarrow> int \<Rightarrow> bool" where
  "pass_at T b i zs acc b1 st pr sz \<longleftrightarrow> bm_layout T b \<and> 0 \<le> i \<and> i < width b \<and>
     cells_in T b zs \<and> acc = (\<Sum>z\<leftarrow>zs. snd z) \<and> mkb b zs acc = (b1, acc) \<and>
     zs ! nat i = (st, pr) \<and> sz = chunk_len T (actualChunkSize b) i"

lemma pass_atD:
  assumes "pass_at T b i zs acc b1 st pr sz"
  shows "bm_layout T b" "0 \<le> i" "i < width b" "cells_in T b zs" "acc = (\<Sum>z\<leftarrow>zs. snd z)"
    "mkb b zs acc = (b1, acc)" "zs ! nat i = (st, pr)" "sz = chunk_len T (actualChunkSize b) i"
  using assms unfolding pass_at_def by blast+

lemma pass_at_facts:
  assumes P: "pass_at T b i zs acc b1 st pr sz"
  shows "nat i < length zs" "int (length zs) = width b" "0 < T" "T \<le> max_i64"
    "0 \<le> pr" "pr \<le> sz" "0 < sz" "sz \<le> T"
    "chunkStatus b1 = map fst zs" "chunkProgress b1 = map snd zs"
    "actualChunkSize b1 = actualChunkSize b" "width b1 = width b"
    "bm_layout T b1" "i < width b1" "sub64 (chunkEnd b1 T i) (chunkStart b1 i) = sz"
proof -
  note D = pass_atD[OF P]
  show n: "nat i < length zs" "int (length zs) = width b"
    using D(1-4) by (auto simp: cells_hold_def bm_layout_def)
  show "0 < T" "T \<le> max_i64" using D(1) by (auto simp: bm_layout_def)
  show "0 \<le> pr" "pr \<le> sz" "0 < sz" "sz \<le> T"
    using cells_holdD[OF D(4,2) n(1)] D(7,8) chunk_index_bounds[OF D(1-3)]
    by (simp_all add: cell_in_def)
  show sel: "chunkStatus b1 = map fst zs" "chunkProgress b1 = map snd zs"
    "actualChunkSize b1 = actualChunkSize b" "width b1 = width b"
    using mkb_simps[of b zs acc] D(6) by simp_all
  show L1: "bm_layout T b1" "i < width b1"
    using mkb_layout[OF D(1), of zs acc] D(3,4,6) sel by (simp_all add: cells_hold_def)
  show "sub64 (chunkEnd b1 T i) (chunkStart b1 i) = sz"
    using chunk_index_bounds(7)[OF L1(1) D(2) L1(2)] sel D(8) by simp
qed

lemma pass_at_update:
  assumes P: "pass_at T b i zs acc b1 st pr sz" and "0 \<le> p" "p \<le> sz"
  shows "cells_in T b (zs[nat i := (s, p)])"
  using cells_hold_update[of cell_in] pass_atD[OF P] assms(2,3) by (simp add: cell_in_def)

lemma pass_at_room:
  assumes P: "pass_at T b i zs acc b1 st pr sz"
  shows "acc + (sz - pr) \<le> T" "0 \<le> acc - pr"
    "0 \<le> p \<Longrightarrow> p \<le> sz \<Longrightarrow> add64 acc (p - pr) = acc + (p - pr)"
proof -
  note D = pass_atD[OF P] and F = pass_at_facts[OF P]
  have "cells_in T b (zs[nat i := (0, sz)])" "cells_in T b (zs[nat i := (0, 0)])"
    by (rule pass_at_update[OF P]; use F in simp)+
  then have "(\<Sum>z\<leftarrow>zs[nat i := (0, sz)]. snd z) \<le> T" "0 \<le> (\<Sum>z\<leftarrow>zs[nat i := (0, 0)]. snd z)"
    using cells_sum[OF D(1), where Q = cell_in] by blast+
  then show room: "acc + (sz - pr) \<le> T" "0 \<le> acc - pr"
    using F(1) D(5,7) by (simp_all add: map_update sum_list_update_int)
  show "0 \<le> p \<Longrightarrow> p \<le> sz \<Longrightarrow> add64 acc (p - pr) = acc + (p - pr)"
    by (rule wrap64_id) (use room F in \<open>simp add: in_i64_def min_i64_def max_i64_def\<close>)
qed

lemma pass_at_access:
  assumes P: "pass_at T b i zs acc b1 st pr sz"
  shows "at (map fst zs) i = Some st" "at (map snd zs) i = Some pr"
    "put (map fst zs) i s = Some ((map fst zs)[nat i := s])"
    "put (map snd zs) i s = Some ((map snd zs)[nat i := s])"
  using pass_atD[OF P] pass_at_facts(1)[OF P] by simp_all

lemma trust_chunk_cell:
  assumes P: "pass_at T b i zs acc b1 st pr sz"
  defines "c \<equiv> (st, if st = ChunkCompleted then sz else pr)"
  shows "trust_chunk T i (mkb b zs acc) = Some (mkb b (zs[nat i := c]) (acc + (snd c - pr)))"
    and "cells_in T b (zs[nat i := c])"
proof -
  note D = pass_atD[OF P] and F = pass_at_facts[OF P]
  note body = trust_chunk_def D(6) F(9-12,15) pass_at_access[OF P] Let_def prod.case bind.bind_lunit
  show "trust_chunk T i (mkb b zs acc) = Some (mkb b (zs[nat i := c]) (acc + (snd c - pr)))"
  proof (cases "st = ChunkCompleted \<and> pr < sz")
    case True
    have "sub64 sz pr = sz - pr" using F by simp
    then have "trust_chunk T i (mkb b zs acc)
        = Some (b1\<lparr>chunkProgress := (map snd zs)[nat i := sz]\<rparr>, add64 acc (sz - pr))"
      using True by (simp only: body) simp
    moreover have "mkb b (zs[nat i := c]) (acc + (snd c - pr))
        = (b1\<lparr>chunkProgress := (map snd zs)[nat i := sz]\<rparr>, acc + (sz - pr))"
      using True mkb_update(2)[OF D(6) F(1)] D(7) by (simp add: c_def)
    ultimately show ?thesis using pass_at_room(3)[OF P, of sz] F by simp
  next
    case False
    then have "c = (st, pr)" using F by (auto simp: c_def)
    moreover have "trust_chunk T i (mkb b zs acc) = Some (b1, acc)"
      using False F by (simp only: body) auto
    ultimately show ?thesis using mkb_update(3)[OF D(6) F(1) D(7)] by simp
  qed
  show "cells_in T b (zs[nat i := c])"
    unfolding c_def by (rule pass_at_update[OF P]) (use F in auto)
qed

lemma settle_chunk_cell:
  assumes P: "pass_at T b i zs acc b1 st pr sz"
  defines "c \<equiv> (if pr \<ge> sz then ChunkCompleted else if pr > 0 then ChunkDownloading else ChunkPending, pr)"
  shows "settle_chunk T i (mkb b zs acc) = Some (mkb b (zs[nat i := c]) (acc + (snd c - pr)))"
    and "cells_in T b (zs[nat i := c])"
proof -
  note D = pass_atD[OF P] and F = pass_at_facts[OF P]
  have p: "(if pr \<ge> sz then sz else if pr > 0 then pr else 0) = pr" using F by auto
  show "settle_chunk T i (mkb b zs acc) = Some (mkb b (zs[nat i := c]) (acc + (snd c - pr)))"
    by (simp only: settle_chunk_def D(6) F(9-12,15) pass_at_access[OF P] p c_def snd_conv
        mkb_update(1)[OF D(6)] Let_def prod.case bind.bind_lunit bitmap.simps) simp
  show "cells_in T b (zs[nat i := c])"
    unfolding c_def by (rule pass_at_update[OF P]) (use F in auto)
qed

lemma subtract_chunk_cell:
  assumes P: "pass_at T b i zs acc b1 st pr sz"
    and o: "0 \<le> Offset t" "0 < Length t" "Offset t + Length t \<le> max_i64"
  defines "c \<equiv> (st, max 0 (pr - overlap T b (Offset t) (Length t) i))"
  shows "subtract_chunk T t i (mkb b zs acc) = Some (mkb b (zs[nat i := c]) (acc + (snd c - pr)))"
    and "cells_in T b (zs[nat i := c])"
proof -
  note D = pass_atD[OF P] and F = pass_at_facts[OF P] and R = pass_at_room[OF P]
  define ov where "ov = overlap T b (Offset t) (Length t) i"
  define d where "d = sub64 (min (add64 (Offset t) (Length t)) (chunkEnd b1 T i))
      (max (Offset t) (chunkStart b1 i))"
  have "max d 0 = ov"
    using overlap_step[OF F(13) D(2) F(14) o(1) _ o(3)] o(2)
    by (simp add: d_def ov_def overlap_def F(11))
  then have d: "d > 0 \<longleftrightarrow> ov > 0" "d > 0 \<Longrightarrow> d = ov" by auto
  have ov: "0 \<le> ov" "ov \<le> sz"
    using D(8) chunk_index_bounds[OF D(1-3)] by (auto simp: ov_def overlap_def chunk_len_def)
  have w: "sub64 pr ov = pr - ov" "sub64 acc ov = acc - ov"
    "pr < ov \<Longrightarrow> wrap64 (ov - pr) = ov - pr"
    using ov F R(1,2) by (simp_all add: wrap64_id in_i64_def min_i64_def max_i64_def)
  note body = subtract_chunk_def D(6) F(9-12) pass_at_access[OF P] Let_def prod.case
    bind.bind_lunit d_def[symmetric]
  show "subtract_chunk T t i (mkb b zs acc) = Some (mkb b (zs[nat i := c]) (acc + (snd c - pr)))"
  proof (cases "d > 0")
    case True
    define p where "p = max 0 (pr - ov)"
    have p: "0 \<le> p" "p \<le> sz" using F ov by (auto simp: p_def)
    have "(if pr - ov < 0 then 0 else pr - ov) = p" by (simp add: p_def)
    moreover have "(if pr - ov < 0 then add64 (acc - ov) (wrap64 (- (pr - ov))) else acc - ov)
        = acc + (p - pr)"
    proof (cases "pr - ov < 0")
      case True
      then have "add64 (acc - ov) (ov - pr) = acc + (p - pr)" using R(3)[OF p] by (simp add: p_def)
      then show ?thesis using True w(3) by simp
    qed (simp add: p_def)
    ultimately have "subtract_chunk T t i (mkb b zs acc)
        = Some (b1\<lparr>chunkProgress := (map snd zs)[nat i := p]\<rparr>, acc + (p - pr))"
      using True d(2) w by (simp only: body) simp
    moreover have "mkb b (zs[nat i := c]) (acc + (snd c - pr))
        = (b1\<lparr>chunkProgress := (map snd zs)[nat i := p]\<rparr>, acc + (p - pr))"
      using mkb_update(2)[OF D(6) F(1)] D(7) by (simp add: c_def p_def ov_def)
    ultimately show ?thesis by simp
  next
    case False
    then have "ov = 0" using d(1) ov by simp
    then have "c = (st, pr)" using F by (simp add: c_def ov_def)
    moreover have "subtract_chunk T t i (mkb b zs acc) = Some (b1, acc)"
      using False by (simp only: body) simp
    ultimately show ?thesis using mkb_update(3)[OF D(6) F(1) D(7)] by simp
  qed
  show "cells_in T b (zs[nat i := c])"
    unfolding c_def by (rule pass_at_update[OF P]) (use F ov in \<open>auto simp: ov_def\<close>)
qed
section \<open>Recalculation\<close>


definition uncovered :: "int \<Rightarrow> bitmap \<Rightarrow> task list \<Rightarrow> int \<Rightarrow> int" where
  "uncovered T b ts i = (\<Sum>t\<leftarrow>ts. overlap T b (Offset t) (Length t) i)"

lemma uncovered_nonneg: "0 \<le> uncovered T b ts i"
  unfolding uncovered_def by (rule sum_list_nonneg) (auto simp: overlap_def)

definition full_cells :: "int \<Rightarrow> bitmap \<Rightarrow> (int \<times> int) list" where
  "full_cells T b = map (\<lambda>j. (chunkStatus b ! j, chunk_len T (actualChunkSize b) (int j)))
     [0..<length (chunkStatus b)]"

lemma full_cells_in: "bm_layout T b \<Longrightarrow> cells_in T b (full_cells T b)"
  using chunk_index_bounds(5)[of T b]
  by (auto simp: cells_hold_def full_cells_def cell_in_def bm_layout_def intro: less_imp_le)

lemma sum_full_cells: "(\<Sum>z\<leftarrow>full_cells T b. snd z)
    = (\<Sum>j < length (chunkStatus b). chunk_len T (actualChunkSize b) (int j))"
  by (simp add: full_cells_def sum_list_sum_nth atLeast0LessThan)

lemma full_pass:
  assumes L: "bm_layout T b" and b0: "b0 = b\<lparr>chunkProgress := replicate (nat (width b)) 0\<rparr>"
  shows "foreach (full_chunk T) [0..width b - 1] (b0, 0) = Some (mkb b (full_cells T b) T)"
proof -
  let ?len = "\<lambda>j. chunk_len T (actualChunkSize b) (int j)"
  define n where "n = length (chunkStatus b)"
  have n: "int n = width b" using L by (simp add: bm_layout_def n_def)
  have L0: "bm_layout T b0" "width b0 = width b" using L by (simp_all add: bm_layout_def b0)
  define st where "st k = b0\<lparr>chunkProgress := map ?len [0..<k] @ replicate (n - k) 0\<rparr>" for k
  have "k \<le> n \<Longrightarrow> foreach (full_chunk T) [0..int k - 1] (b0, 0) = Some (st k, \<Sum>j < k. ?len j)" for k
  proof (induction k)
    case 0
    have "nat (width b) = n" using n by linarith
    then show ?case by (simp add: st_def b0)
  next
    case (Suc k)
    have k: "0 \<le> int k" "int k < width b" using Suc.prems n by auto
    have Lk: "bm_layout T (st k)" "int k < width (st k)" using L0 k by (simp_all add: st_def bm_layout_def)
    have sz: "sub64 (chunkEnd (st k) T (int k)) (chunkStart (st k) (int k)) = ?len k"
      using chunk_index_bounds(7)[OF Lk(1) k(1) Lk(2)] by (simp add: st_def b0)
    have len: "length (map ?len [0..<k] @ replicate (n - k) 0) = n" using Suc.prems by simp
    have rep: "(replicate (n - k) (0::int))[0 := v] = v # replicate (n - Suc k) 0" for v
      using Suc.prems by (cases "n - k") (auto simp: Suc_diff_Suc)
    have "put (chunkProgress (st k)) (int k) (?len k) = Some (map ?len [0..<Suc k] @ replicate (n - Suc k) 0)"
      using len Suc.prems by (simp add: st_def put_def list_update_append rep)
    moreover have "add64 (\<Sum>j < k. ?len j) (?len k) = (\<Sum>j < Suc k. ?len j)"
    proof -
      have nn: "0 \<le> ?len j" if "j < n" for j
        using chunk_index_bounds(5)[OF L, of "int j"] that n by simp
      have "(\<Sum>j < Suc k. ?len j) \<le> (\<Sum>j < n. ?len j)"
        using Suc.prems nn by (intro sum_mono2) auto
      also have "\<dots> \<le> max_i64" using bm_layout_sum[OF L] L by (simp add: n_def bm_layout_def)
      finally have "(\<Sum>j < Suc k. ?len j) \<le> max_i64" .
      moreover have "0 \<le> (\<Sum>j < Suc k. ?len j)" using Suc.prems nn by (intro sum_nonneg) auto
      ultimately show ?thesis by simp
    qed
    moreover have "[0..int (Suc k) - 1] = [0..int k - 1] @ [int k]" by (simp add: upto_rec2)
    ultimately show ?case using Suc sz
      by (simp add: foreach_append full_chunk_def st_def del: upt_Suc)
  qed
  from this[of n] bm_layout_sum[OF L] show ?thesis
    by (simp add: n n_def[symmetric] st_def b0 mkb_def full_cells_def map_nth comp_def)
      (simp add: n_def map_nth)
qed

lemma subtract_pass:
  assumes L: "bm_layout T b" and zs: "cells_in T b zs"
    and t: "0 \<le> Offset t" "0 < Length t" "Offset t + Length t \<le> max_i64"
  shows "\<exists>ys. subtract_task T t (mkb b zs (\<Sum>z\<leftarrow>zs. snd z)) = Some (mkb b ys (\<Sum>y\<leftarrow>ys. snd y)) \<and>
    cells_in T b ys \<and>
    (\<forall>j < length (chunkStatus b). ys ! j =
       (fst (zs ! j), max 0 (snd (zs ! j) - overlap T b (Offset t) (Length t) (int j))))"
proof -
  obtain lo hi where span: "chunk_span b (Offset t) (Length t) = [lo..hi]" "0 \<le> lo" "hi < width b"
    "\<And>j. 0 \<le> j \<Longrightarrow> j < width b \<Longrightarrow> \<not> (lo \<le> j \<and> j \<le> hi) \<Longrightarrow> overlap T b (Offset t) (Length t) j = 0"
    using chunk_span_eq[OF L t] by blast
  define g where "g i c = (fst c, max 0 (snd c - overlap T b (Offset t) (Length t) i))"
    for i and c :: "int \<times> int"
  have "\<exists>ys. foreach (subtract_chunk T t) [lo..hi] (mkb b zs ((\<Sum>z\<leftarrow>zs. snd z) - 0))
        = Some (mkb b ys ((\<Sum>y\<leftarrow>ys. snd y) - 0)) \<and> cells_in T b ys \<and>
      (\<forall>j < length (chunkStatus b).
         ys ! j = (if lo \<le> int j \<and> int j \<le> hi then g (int j) (zs ! j) else zs ! j))"
  proof (rule cells_loop[OF L zs _ _ span(2,3)])
    fix i xs acc
    assume i: "lo \<le> i" "i \<le> hi" "cells_in T b xs" "acc = (\<Sum>z\<leftarrow>xs. snd z) - 0"
    obtain st pr where c: "xs ! nat i = (st, pr)" by fastforce
    have P: "pass_at T b i xs acc (fst (mkb b xs acc)) st pr (chunk_len T (actualChunkSize b) i)"
      using i span(2,3) L c by (simp add: pass_at_def mkb_def)
    from subtract_chunk_cell[OF P t] show "subtract_chunk T t i (mkb b xs acc) = Some (mkb b (xs[nat i := g i (xs ! nat i)])
            (acc + (snd (g i (xs ! nat i)) - snd (xs ! nat i)))) \<and>
        cells_in T b (xs[nat i := g i (xs ! nat i)])"
      by (simp add: g_def c)
  qed (use L in \<open>auto simp: bm_layout_def\<close>)
  then obtain ys where ys: "foreach (subtract_chunk T t) [lo..hi] (mkb b zs (\<Sum>z\<leftarrow>zs. snd z))
        = Some (mkb b ys (\<Sum>y\<leftarrow>ys. snd y))" "cells_in T b ys"
      "\<And>j. j < length (chunkStatus b) \<Longrightarrow>
         ys ! j = (if lo \<le> int j \<and> int j \<le> hi then g (int j) (zs ! j) else zs ! j)"
    by auto
  have "chunk_span (fst (mkb b zs (\<Sum>z\<leftarrow>zs. snd z))) (Offset t) (Length t) = [lo..hi]"
    using span(1) by (simp only: chunk_span_def mkb_simps)
  moreover have "ys ! j = g (int j) (zs ! j)" if j: "j < length (chunkStatus b)" for j
  proof -
    have "0 \<le> snd (zs ! j)" using zs j by (simp add: cells_hold_def cell_in_def)
    moreover have "int (length (chunkStatus b)) = width b" using L by (simp add: bm_layout_def)
    ultimately show ?thesis
      using ys(3)[OF j] span(4)[of "int j"] j by (auto simp: g_def prod_eq_iff)
  qed
  ultimately show ?thesis using ys(1,2) by (auto simp: subtract_task_def g_def)
qed

lemma subtract_all:
  assumes L: "bm_layout T b"
  shows "cells_in T b zs \<Longrightarrow>
    \<forall>t\<in>set ts. 0 \<le> Offset t \<and> 0 < Length t \<and> Offset t + Length t \<le> max_i64 \<Longrightarrow>
    \<exists>ys. foreach (subtract_task T) ts (mkb b zs (\<Sum>z\<leftarrow>zs. snd z)) = Some (mkb b ys (\<Sum>y\<leftarrow>ys. snd y)) \<and>
    cells_in T b ys \<and>
    (\<forall>j < length (chunkStatus b). ys ! j =
       (fst (zs ! j), max 0 (snd (zs ! j) - uncovered T b ts (int j))))"
proof (induction ts arbitrary: zs)
  case Nil
  then show ?case
    by (intro exI[of _ zs]) (auto simp: uncovered_def cells_hold_def cell_in_def prod_eq_iff)
next
  case (Cons t ts)
  obtain ys where ys: "subtract_task T t (mkb b zs (\<Sum>z\<leftarrow>zs. snd z)) = Some (mkb b ys (\<Sum>y\<leftarrow>ys. snd y))"
    "cells_in T b ys"
    "\<And>j. j < length (chunkStatus b) \<Longrightarrow> ys ! j =
       (fst (zs ! j), max 0 (snd (zs ! j) - overlap T b (Offset t) (Length t) (int j)))"
    using subtract_pass[OF L Cons.prems(1), of t] Cons.prems(2) by auto
  obtain us where us: "foreach (subtract_task T) ts (mkb b ys (\<Sum>y\<leftarrow>ys. snd y)) = Some (mkb b us (\<Sum>y\<leftarrow>us. snd y))"
    "cells_in T b us"
    "\<And>j. j < length (chunkStatus b) \<Longrightarrow> us ! j =
       (fst (ys ! j), max 0 (snd (ys ! j) - uncovered T b ts (int j)))"
    using Cons.IH[OF ys(2)] Cons.prems(2) by auto
  have "us ! j = (fst (zs ! j), max 0 (snd (zs ! j) - uncovered T b (t # ts) (int j)))"
    if "j < length (chunkStatus b)" for j
    using us(3)[OF that] ys(3)[OF that] uncovered_nonneg[of T b ts "int j"]
    by (auto simp: uncovered_def)
  with ys(1) us(1,2) show ?case by (intro exI[of _ us]) auto
qed

lemma settle_all:
  assumes L: "bm_layout T b" and zs: "cells_in T b zs"
  shows "\<exists>ys. foreach (trust_chunk T) [0..width b - 1] (mkb b zs (\<Sum>z\<leftarrow>zs. snd z))
        = Some (mkb b ys (\<Sum>y\<leftarrow>ys. snd y)) \<and> cells_in T b ys \<and>
      (\<forall>j < length (chunkStatus b). ys ! j =
         (fst (zs ! j), if fst (zs ! j) = ChunkCompleted
                        then chunk_len T (actualChunkSize b) (int j) else snd (zs ! j)))" (is ?A)
    and "\<exists>ys. foreach (settle_chunk T) [0..width b - 1] (mkb b zs (\<Sum>z\<leftarrow>zs. snd z))
        = Some (mkb b ys (\<Sum>y\<leftarrow>ys. snd y)) \<and> cells_in T b ys \<and>
      (\<forall>j < length (chunkStatus b). ys ! j =
         (if snd (zs ! j) \<ge> chunk_len T (actualChunkSize b) (int j) then ChunkCompleted
          else if snd (zs ! j) > 0 then ChunkDownloading else ChunkPending, snd (zs ! j)))" (is ?B)
proof -
  have n: "\<And>j. j < length (chunkStatus b) \<Longrightarrow> 0 \<le> int j \<and> int j \<le> width b - 1"
    using L by (auto simp: bm_layout_def)
  have P: "pass_at T b i xs acc (fst (mkb b xs acc)) (fst (xs ! nat i)) (snd (xs ! nat i))
      (chunk_len T (actualChunkSize b) i)"
    if "0 \<le> i" "i \<le> width b - 1" "cells_in T b xs" "acc = (\<Sum>z\<leftarrow>xs. snd z) - 0" for i xs acc
    using that L by (simp add: pass_at_def mkb_def)
  define g where "g i c = (fst c, if fst c = ChunkCompleted
      then chunk_len T (actualChunkSize b) i else snd c)" for i and c :: "int \<times> int"
  have "\<exists>ys. foreach (trust_chunk T) [0..width b - 1] (mkb b zs ((\<Sum>z\<leftarrow>zs. snd z) - 0))
        = Some (mkb b ys ((\<Sum>y\<leftarrow>ys. snd y) - 0)) \<and> cells_in T b ys \<and>
      (\<forall>j < length (chunkStatus b).
         ys ! j = (if 0 \<le> int j \<and> int j \<le> width b - 1 then g (int j) (zs ! j) else zs ! j))"
    by (rule cells_loop[OF L zs], goal_cases)
      (use L trust_chunk_cell[OF P] in \<open>auto simp: bm_layout_def g_def\<close>)
  then show ?A using n by (simp add: g_def)
  define h where "h i c = (if snd c \<ge> chunk_len T (actualChunkSize b) i then ChunkCompleted
      else if snd c > 0 then ChunkDownloading else ChunkPending, snd c)" for i and c :: "int \<times> int"
  have "\<exists>ys. foreach (settle_chunk T) [0..width b - 1] (mkb b zs ((\<Sum>z\<leftarrow>zs. snd z) - 0))
        = Some (mkb b ys ((\<Sum>y\<leftarrow>ys. snd y) - 0)) \<and> cells_in T b ys \<and>
      (\<forall>j < length (chunkStatus b).
         ys ! j = (if 0 \<le> int j \<and> int j \<le> width b - 1 then h (int j) (zs ! j) else zs ! j))"
    by (rule cells_loop[OF L zs], goal_cases)
      (use L settle_chunk_cell[OF P] in \<open>auto simp: bm_layout_def h_def\<close>)
  then show ?B using n by (simp add: h_def)
qed

lemma RecalculateProgress_ok:
  assumes L: "bm_layout T b"
    and ts: "\<forall>t\<in>set ts. 0 \<le> Offset t \<and> 0 < Length t \<and> Offset t + Length t \<le> max_i64"
  shows "\<exists>b'. RecalculateProgress T ts b = Some (b', verified b') \<and> bm_ok T b' \<and>
    actualChunkSize b' = actualChunkSize b \<and> width b' = width b \<and>
    (\<forall>j < length (chunkStatus b). chunkProgress b' ! j =
       (let size = chunk_len T (actualChunkSize b) (int j)
        in if chunkStatus b ! j = ChunkCompleted then size
           else max 0 (size - uncovered T b ts (int j))))"
proof -
  let ?n = "length (chunkStatus b)" and ?len = "\<lambda>j. chunk_len T (actualChunkSize b) (int j)"
  note full = full_pass[OF L refl]
  have sum: "(\<Sum>z\<leftarrow>full_cells T b. snd z) = T" using sum_full_cells bm_layout_sum[OF L] by simp
  have fc: "j < ?n \<Longrightarrow> full_cells T b ! j = (chunkStatus b ! j, ?len j)" for j
    by (simp add: full_cells_def)
  obtain s2 where s2: "foreach (subtract_task T) ts (mkb b (full_cells T b) T)
      = Some (mkb b s2 (\<Sum>y\<leftarrow>s2. snd y))" "cells_in T b s2"
    "\<And>j. j < ?n \<Longrightarrow> s2 ! j = (chunkStatus b ! j, max 0 (?len j - uncovered T b ts (int j)))"
    using subtract_all[OF L full_cells_in[OF L] ts] by (auto simp: sum fc)
  obtain s3 where s3: "foreach (trust_chunk T) [0..width b - 1] (mkb b s2 (\<Sum>y\<leftarrow>s2. snd y))
      = Some (mkb b s3 (\<Sum>y\<leftarrow>s3. snd y))" "cells_in T b s3"
    "\<And>j. j < ?n \<Longrightarrow> s3 ! j = (fst (s2 ! j), if fst (s2 ! j) = ChunkCompleted
        then ?len j else snd (s2 ! j))"
    using settle_all(1)[OF L s2(2)] by auto
  obtain s4 where s4: "foreach (settle_chunk T) [0..width b - 1] (mkb b s3 (\<Sum>y\<leftarrow>s3. snd y))
      = Some (mkb b s4 (\<Sum>y\<leftarrow>s4. snd y))" "cells_in T b s4"
    "\<And>j. j < ?n \<Longrightarrow> s4 ! j = (if snd (s3 ! j) \<ge> ?len j then ChunkCompleted
          else if snd (s3 ! j) > 0 then ChunkDownloading else ChunkPending, snd (s3 ! j))"
    using settle_all(2)[OF L s3(2)] by auto
  define b' where "b' = fst (mkb b s4 (\<Sum>y\<leftarrow>s4. snd y))"
  have "cells_ok T b s4"
    using s3(2) s4(2,3) by (auto simp: cells_hold_def cell_ok_def cell_in_def chunk_status_defs)
  then have "bm_ok T b'" unfolding b'_def by (rule mkb_ok[OF L])
  moreover have "RecalculateProgress T ts b = Some (b', verified b')"
    using bm_layout_nonempty[OF L] L full s2(1) s3(1) s4(1)
    by (simp add: RecalculateProgress_def bm_layout_def Let_def b'_def verified_def)
      (simp add: mkb_def)
  moreover have "chunkProgress b' ! j = (if chunkStatus b ! j = ChunkCompleted then ?len j
           else max 0 (?len j - uncovered T b ts (int j)))" if j: "j < ?n" for j
  proof -
    have "j < length s4" using j s4(2) by (simp add: cells_hold_def)
    then show ?thesis using s4(3)[OF j] s3(3)[OF j] s2(3)[OF j] by (simp add: b'_def)
  qed
  ultimately show ?thesis by (intro exI[of _ b']) (simp add: Let_def b'_def)
qed

section \<open>Properties\<close>

text \<open>C1: recording a byte range in the chunk map never panics, keeps the map well-formed, credits
  each chunk with exactly the bytes of the range that fall into it (capped at the chunk's size)
  and returns the number of newly credited bytes; so replaying an overlapping range never counts
  a chunk beyond its size, and the verified total never exceeds the file size.\<close>

theorem chunk_update_accounts:
  assumes "bm_ok T b" and "0 \<le> offset" and "0 < len" and "offset + len \<le> max_i64"
  shows "\<exists>b' inc. UpdateChunkStatus T offset len status b = Some (b', inc) \<and> bm_ok T b' \<and>
    actualChunkSize b' = actualChunkSize b \<and> width b' = width b \<and>
    inc = verified b' - verified b \<and> 0 \<le> inc \<and> verified b' \<le> T \<and>
    (\<forall>j < length (chunkStatus b).
       chunkProgress b' ! j =
         (if status = ChunkCompleted
          then min (chunk_len T (actualChunkSize b) (int j))
                   (chunkProgress b ! j + overlap T b offset len (int j))
          else chunkProgress b ! j))"
  using UpdateChunkStatus_ok[OF assms, of status] bm_ok_verified by blast

theorem chunk_update_accounts_witness:
  "\<exists>b' inc. UpdateChunkStatus 10 3 4 ChunkCompleted
      \<lparr>chunkStatus = [0, 0, 0], chunkProgress = [0, 0, 0], actualChunkSize = 4, width = 3\<rparr>
    = Some (b', inc) \<and> bm_ok 10 b'"
  using chunk_update_accounts[of 10
      "\<lparr>chunkStatus = [0, 0, 0], chunkProgress = [0, 0, 0], actualChunkSize = 4, width = 3\<rparr>"
      3 4 ChunkCompleted]
  by (force simp: bm_ok_def bm_layout_def cell_ok_def chunk_len_def chunk_status_defs max_i64_def
      less_Suc_eq numeral_eq_Suc)

text \<open>C2: recomputing the counters from the remaining tasks returns the verified total of the
  rebuilt map, which is well-formed. A chunk that was marked completed stays full, whatever the tasks say; any other chunk
  counts its size minus the bytes the remaining tasks cover in it, summed task by task (tasks that overlap subtract the
  shared bytes once each) and floored at zero.\<close>

theorem recalculate_accounts:
  assumes "bm_layout T b"
    and "\<forall>t\<in>set ts. 0 \<le> Offset t \<and> 0 < Length t \<and> Offset t + Length t \<le> max_i64"
  shows "\<exists>b'. RecalculateProgress T ts b = Some (b', verified b') \<and> bm_ok T b' \<and>
    actualChunkSize b' = actualChunkSize b \<and> width b' = width b \<and>
    (\<forall>j < length (chunkStatus b). chunkProgress b' ! j =
       (let size = chunk_len T (actualChunkSize b) (int j)
        in if chunkStatus b ! j = ChunkCompleted then size
           else max 0 (size - uncovered T b ts (int j))))"
  by (rule RecalculateProgress_ok[OF assms])

theorem recalculate_accounts_witness:
  "\<exists>b'. RecalculateProgress 10 [mk_task 3 4]
      \<lparr>chunkStatus = [0, 2, 0], chunkProgress = [], actualChunkSize = 4, width = 3\<rparr>
    = Some (b', verified b') \<and> bm_ok 10 b'"
  using recalculate_accounts[of 10
      "\<lparr>chunkStatus = [0, 2, 0], chunkProgress = [], actualChunkSize = 4, width = 3\<rparr>" "[mk_task 3 4]"]
  by (force simp: bm_layout_def max_i64_def)

end
