(* ===== verification/BitmapPacking.thy ===== *)
theory BitmapPacking
  imports BitmapFacts RangeMerge
begin

text \<open>
  The packed form of the chunk map: packing and unpacking are inverse, a snapshot restores the
  map it was taken from, and the tasks rebuilt from a packed map cover exactly the bytes of the
  chunks that are not completed.
\<close>

unbundle bit_operations_syntax

section \<open>The packed form\<close>

lemma two_bits:
  fixes old w :: "8 word"
  assumes r: "r < 4" "r' < 4" and w: "\<And>n. bit w n \<Longrightarrow> n < 2"
  shows "drop_bit (r' * 2) (old OR push_bit (r * 2) w) AND 3 =
    (if r' = r then (drop_bit (r' * 2) old AND 3) OR w else drop_bit (r' * 2) old AND 3)"
proof (rule bit_word_eqI)
  fix n assume "n < LENGTH(8)"
  have three: "bit (3 :: 8 word) n \<longleftrightarrow> n < 2"
    by (simp add: bit_numeral_rec(2)) (use \<open>n < LENGTH(8)\<close> in \<open>cases n; cases "n - 1"; simp add: bit_numeral_rec\<close>)
  show "bit (drop_bit (r' * 2) (old OR push_bit (r * 2) w) AND 3) n \<longleftrightarrow>
    bit (if r' = r then (drop_bit (r' * 2) old AND 3) OR w else drop_bit (r' * 2) old AND 3) n"
    using r w[of "r' * 2 + n - r * 2"] w[of n] three
    by (auto simp: bit_simps)
qed

lemma status_word_bit: "s \<in> {0..2} \<Longrightarrow> bit (word_of_int s :: 8 word) n \<Longrightarrow> n < 2"
proof -
  assume s: "s \<in> {0..2}" and b: "bit (word_of_int s :: 8 word) n"
  then have "s = 0 \<or> s = 1 \<or> s = 2" by auto
  then show "n < 2" using b by (auto simp: bit_1_iff bit_numeral_rec split: nat.splits)
qed

lemma unpack_update:
  assumes k: "k < 4 * length bytes" and j: "j < 4 * length bytes" and s: "s \<in> {0..2}"
    and z: "unpack_status bytes k = 0"
  shows "unpack_status (bytes[k div 4 := (bytes ! (k div 4)) OR push_bit (k mod 4 * 2) (word_of_int s)]) j
    = (if j = k then s else unpack_status bytes j)"
proof -
  have d: "k div 4 < length bytes" "j div 4 < length bytes" using k j by auto
  show ?thesis
  proof (cases "j div 4 = k div 4")
    case True
    then have jk: "j mod 4 = k mod 4 \<longleftrightarrow> j = k" by (metis mult_div_mod_eq)
    have "drop_bit (k mod 4 * 2) (bytes ! (k div 4)) AND 3 = 0"
      using z d by (simp add: unpack_status_def uint_0_iff)
    then show ?thesis
      using True d jk s two_bits[of "k mod 4" "j mod 4" "word_of_int s" "bytes ! (k div 4)"]
        status_word_bit[OF s]
      by (auto simp: unpack_status_def uint_word_of_int)
  next
    case False
    then show ?thesis using d by (auto simp: unpack_status_def)
  qed
qed

lemma pack_loop:
  assumes n: "n = length (chunkStatus b)" and nb: "n \<le> 4 * nb"
    and st: "\<forall>s \<in> set (chunkStatus b). s \<in> {0..2}"
  shows "k \<le> n \<Longrightarrow> \<exists>bytes. foreach (pack_chunk b) [0..int k - 1] (replicate nb 0) = Some bytes \<and>
    length bytes = nb \<and>
    (\<forall>j < 4 * nb. unpack_status bytes j = (if j < k then chunkStatus b ! j else 0))"
proof (induction k)
  case 0
  then show ?case by (simp add: unpack_status_def)
next
  case (Suc k)
  then obtain bytes where bs: "foreach (pack_chunk b) [0..int k - 1] (replicate nb 0) = Some bytes"
    "length bytes = nb" "\<And>j. j < 4 * nb \<Longrightarrow> unpack_status bytes j = (if j < k then chunkStatus b ! j else 0)"
    by auto
  define bytes' where "bytes' = bytes[k div 4 := (bytes ! (k div 4)) OR
      push_bit (k mod 4 * 2) (word_of_int (chunkStatus b ! k))]"
  have k: "k < n" "k < 4 * nb" "k div 4 < nb" using Suc.prems nb by auto
  have s: "chunkStatus b ! k \<in> {0..2}" using st k n by auto
  have "nat (int k sdiv 4) = k div 4" "int k sdiv 4 = int (k div 4)"
    by (simp_all add: zdiv_int nat_div_distrib)
  moreover have "nat (int k smod 4 * 2) = k mod 4 * 2"
    by (simp add: signed_modulo_int_def minus_div_mult_eq_mod zmod_int[symmetric])
       (simp add: nat_mult_distrib nat_mod_distrib)
  ultimately have "pack_chunk b (int k) bytes = Some bytes'"
    using k n bs(2) by (simp add: pack_chunk_def bytes'_def)
  moreover have "[0..int (Suc k) - 1] = [0..int k - 1] @ [int k]" by (simp add: upto_rec2)
  moreover have "unpack_status bytes' j = (if j < Suc k then chunkStatus b ! j else 0)"
    if "j < 4 * nb" for j
    using unpack_update[of k bytes j "chunkStatus b ! k"] that k s bs(2,3)
    by (auto simp: bytes'_def less_Suc_eq)
  ultimately show ?case using bs(1,2) by (auto simp: foreach_append bytes'_def)
qed

lemma bitmapLayout_eq:
  assumes "0 < T" "0 < cs" "T + cs \<le> max_i64" "T + 3 \<le> max_i64"
  shows "bitmapLayout T cs = ((T + cs - 1) div cs, ((T + cs - 1) div cs + 3) div 4, True)"
proof -
  define q where "q = (T + cs - 1) div cs"
  have "1 \<le> T + cs - 1 \<and> T + cs - 1 \<le> max_i64" using assms by simp
  moreover have "q \<le> T"
  proof -
    have "(q - 1) * cs < T" "0 < q" using width_bounds[of cs T q] assms by (simp_all add: q_def)
    moreover have "q - 1 \<le> (q - 1) * cs" using assms \<open>0 < q\<close> by (simp add: mult_le_cancel_left1)
    ultimately show ?thesis by simp
  qed
  moreover have "0 < q" using width_bounds(1)[of cs T q] assms by (simp add: q_def)
  moreover have "quot64 (sub64 (add64 T cs) 1) cs = q"
    using assms in_i64_div[of "T + cs - 1" cs] by (simp add: q_def)
  moreover have "quot64 (add64 q 3) 4 = (q + 3) div 4"
    using assms \<open>q \<le> T\<close> \<open>0 < q\<close> in_i64_div[of "q + 3" 4] by simp
  ultimately show ?thesis
    using assms by (simp add: bitmapLayout_def Let_def q_def[symmetric])
qed

lemma GetBitmapSnapshot_ok:
  assumes L: "bm_layout T b" and T3: "T + 3 \<le> max_i64" and st: "\<forall>s \<in> set (chunkStatus b). s \<in> {0..2}"
  shows "\<exists>bytes. GetBitmapSnapshot T incl b = Some \<lparr>snap_bytes = bytes, snap_width = width b,
      snap_total = T, snap_chunkSize = actualChunkSize b,
      snap_progress = (if incl then chunkProgress b else [])\<rparr> \<and>
    int (length bytes) = (width b + 3) div 4 \<and>
    (\<forall>j < length (chunkStatus b). unpack_status bytes j = chunkStatus b ! j)"
proof -
  define n where "n = length (chunkStatus b)"
  define nb where "nb = nat ((width b + 3) div 4)"
  have n: "int n = width b" "0 < width b" using L bm_layout_nonempty[OF L]
    by (auto simp: bm_layout_def n_def)
  then have "n \<le> 4 * nb" by (simp add: nb_def)
  from pack_loop[OF n_def this st, of n] n obtain bytes where
    b: "foreach (pack_chunk b) [0..width b - 1] (replicate nb 0) = Some bytes" "length bytes = nb"
      "\<forall>j < n. unpack_status bytes j = chunkStatus b ! j"
    using \<open>n \<le> 4 * nb\<close> by fastforce
  have lay: "bitmapLayout T (actualChunkSize b) = (width b, (width b + 3) div 4, True)"
    using bitmapLayout_eq[of T "actualChunkSize b"] L T3 by (simp add: bm_layout_def)
  have "chunkStatus b \<noteq> []" using n n_def by auto
  then show ?thesis using b n by (simp add: GetBitmapSnapshot_def lay nb_def n_def)
qed

lemma snapshot_restores:
  assumes ok: "bm_ok T b" and T3: "T + 3 \<le> max_i64"
  shows "\<exists>s. GetBitmapSnapshot T True b = Some s \<and>
    SetChunkProgress (snap_progress s)
      (RestoreBitmap (snap_total s) (snap_bytes s) (snap_chunkSize s) b0) = b"
proof -
  have L: "bm_layout T b" using ok by (simp add: bm_ok_def)
  have st: "\<forall>s \<in> set (chunkStatus b). s \<in> {0..2}"
    using ok by (auto simp: bm_ok_def cell_ok_def in_set_conv_nth)
  from GetBitmapSnapshot_ok[OF L T3 st, of True] obtain bytes where
    s: "GetBitmapSnapshot T True b = Some \<lparr>snap_bytes = bytes, snap_width = width b,
      snap_total = T, snap_chunkSize = actualChunkSize b, snap_progress = chunkProgress b\<rparr>"
    "int (length bytes) = (width b + 3) div 4"
    "\<forall>j < length (chunkStatus b). unpack_status bytes j = chunkStatus b ! j" by auto
  have w: "0 < width b" "int (length (chunkStatus b)) = width b"
    using L bm_layout_nonempty[OF L] by (auto simp: bm_layout_def)
  have lay: "bitmapLayout T (actualChunkSize b) = (width b, (width b + 3) div 4, True)"
    using bitmapLayout_eq[of T "actualChunkSize b"] L T3 by (simp add: bm_layout_def)
  have "map (unpack_status bytes) [0..<nat (width b)] = chunkStatus b"
    using s(3) w by (intro nth_equalityI) auto
  moreover have "bytes \<noteq> []" using s(2) w by auto
  moreover have "chunkProgress b \<noteq> []" using ok w by (auto simp: bm_ok_def)
  ultimately show ?thesis
    using s(1) L by (simp add: RestoreBitmap_def SetChunkProgress_def lay bm_layout_def)
qed

section \<open>Unverified ranges\<close>

definition pending_bytes :: "8 word list \<Rightarrow> int \<Rightarrow> int set" where
  "pending_bytes bytes cs = {x. 0 \<le> x \<and> unpack_status bytes (nat (x div cs)) \<noteq> ChunkCompleted}"

definition scan_inv :: "8 word list \<Rightarrow> int \<Rightarrow> int \<Rightarrow> task list \<times> int \<Rightarrow> bool" where
  "scan_inv bytes cs m s \<longleftrightarrow> (case s of (ts, start) \<Rightarrow>
     separated ts \<and> (\<forall>t\<in>set ts. 0 \<le> Offset t \<and> 0 < Length t \<and> task_end t \<le> m - cs \<and>
        (start \<ge> 0 \<longrightarrow> task_end t < start)) \<and>
     -1 \<le> start \<and> (start \<ge> 0 \<longrightarrow> start \<le> m - cs) \<and>
     tasks_bytes ts \<union> (if start \<ge> 0 then {start..<m} else {}) = pending_bytes bytes cs \<inter> {0..<m})"

lemma chunk_bytes:
  assumes cs: "0 < cs" and x: "int k * cs \<le> x" "x < int (Suc k) * cs"
  shows "nat (x div cs) = k"
proof -
  have "x = int k * cs + (x - int k * cs)" by simp
  moreover have "0 \<le> x - int k * cs" "x - int k * cs < cs" using x by (auto simp: algebra_simps)
  ultimately have "x div cs = int k"
    by (metis div_pos_pos_trivial div_mult_self3 add.commute add_0 cs less_irrefl)
  then show ?thesis by simp
qed

lemma pending_chunk:
  assumes cs: "0 < cs"
  shows "pending_bytes bytes cs \<inter> {0..<int (Suc k) * cs} =
    pending_bytes bytes cs \<inter> {0..<int k * cs} \<union>
      (if unpack_status bytes k \<noteq> ChunkCompleted then {int k * cs..<int (Suc k) * cs} else {})"
proof -
  have "int k * cs \<le> int (Suc k) * cs" "0 \<le> int k * cs" using cs by auto
  then have "{0..<int (Suc k) * cs} = {0..<int k * cs} \<union> {int k * cs..<int (Suc k) * cs}" by auto
  moreover have "pending_bytes bytes cs \<inter> {int k * cs..<int (Suc k) * cs} =
      (if unpack_status bytes k \<noteq> ChunkCompleted then {int k * cs..<int (Suc k) * cs} else {})"
    using chunk_bytes[OF cs, of k] \<open>0 \<le> int k * cs\<close> by (auto simp: pending_bytes_def)
  ultimately show ?thesis by (simp add: Int_Un_distrib)
qed

lemma separated_snoc:
  "separated (ts @ [t]) \<longleftrightarrow> separated ts \<and> (ts \<noteq> [] \<longrightarrow> task_end (last ts) < Offset t)"
  by (induction ts rule: separated.induct) auto

lemma scan_step:
  assumes cs: "0 < cs" and k: "int k * cs \<le> max_i64" and inv: "scan_inv bytes cs (int k * cs) (ts, start)"
  shows "scan_inv bytes cs (int (Suc k) * cs) (scan_chunk bytes cs (ts, start) k)"
proof -
  define m where "m = int k * cs"
  define m' where "m' = int (Suc k) * cs"
  have m: "0 \<le> m" "m < m'" "m' = m + cs" using cs by (auto simp: m_def m'_def algebra_simps)
  have w: "mul64 (int k) cs = m" using m k by (simp add: m_def)
  have I: "separated ts" "-1 \<le> start" "start \<ge> 0 \<Longrightarrow> start \<le> m - cs"
    "\<And>t. t \<in> set ts \<Longrightarrow> 0 \<le> Offset t \<and> 0 < Length t \<and> task_end t \<le> m - cs \<and> (start \<ge> 0 \<longrightarrow> task_end t < start)"
    "tasks_bytes ts \<union> (if start \<ge> 0 then {start..<m} else {}) = pending_bytes bytes cs \<inter> {0..<m}"
    using inv by (simp_all add: scan_inv_def m_def split: if_splits)
  note pc = pending_chunk[OF cs, of bytes k, folded m_def m'_def]
  have "scan_inv bytes cs m' (scan_chunk bytes cs (ts, start) k)" (is ?G)
  proof (cases "unpack_status bytes k \<noteq> ChunkCompleted")
    case True
    then have "scan_chunk bytes cs (ts, start) k = (ts, if start < 0 then m else start)"
      by (simp add: scan_chunk_def w)
    moreover have "pending_bytes bytes cs \<inter> {0..<m'} = tasks_bytes ts \<union> {(if start < 0 then m else start)..<m'}"
      using pc True I(5)[symmetric] I(3) m cs by (auto simp: Un_assoc ivl_disj_un)
    moreover have "\<forall>t\<in>set ts. 0 \<le> Offset t \<and> 0 < Length t \<and> task_end t \<le> m' - cs \<and>
        task_end t < (if start < 0 then m else start)"
      using I(4) m cs by fastforce
    ultimately show ?G
      using I(1-3) m cs by (auto simp: scan_inv_def)
  next
    case False
    show ?G
    proof (cases "start \<ge> 0")
      case True
      then have s: "start < m" using I(3) cs by simp
      have "sub64 m start = m - start" using s True m k by (simp add: m_def)
      then have sc: "scan_chunk bytes cs (ts, start) k = (ts @ [mk_task start (m - start)], -1)"
        using False True by (simp add: scan_chunk_def w)
      have "separated (ts @ [mk_task start (m - start)])"
        using I(1) I(4)[of "last ts"] True by (auto simp: separated_snoc)
      moreover have "tasks_bytes (ts @ [mk_task start (m - start)]) = pending_bytes bytes cs \<inter> {0..<m'}"
        using pc False I(5) True by (simp add: task_bytes_def task_end_def)
      ultimately show ?G
        using I(4) m s True cs by (fastforce simp: scan_inv_def sc task_end_def)
    next
      case neg: False
      then have sc: "scan_chunk bytes cs (ts, start) k = (ts, start)"
        using False by (simp add: scan_chunk_def)
      have "\<forall>t\<in>set ts. 0 \<le> Offset t \<and> 0 < Length t \<and> task_end t \<le> m' - cs"
        using I(4) m cs by fastforce
      then show ?G using I(1-3,5) m pc False neg cs by (simp add: scan_inv_def sc)
    qed
  qed
  then show "scan_inv bytes cs (int (Suc k) * cs) (scan_chunk bytes cs (ts, start) k)"
    by (simp only: m'_def)
qed

lemma unverifiedTasks_cover:
  assumes T: "0 < T" and cs: "0 < cs" and fit: "T + cs \<le> max_i64"
  shows "tasks_bytes (unverifiedTasksFromBitmap bytes T cs) = pending_bytes bytes cs \<inter> {0..<T}"
    and "separated (unverifiedTasksFromBitmap bytes T cs)"
    and "\<forall>t \<in> set (unverifiedTasksFromBitmap bytes T cs). 0 \<le> Offset t \<and> 0 < Length t \<and> task_end t \<le> T"
proof -
  define w where "w = (T + cs - 1) div cs"
  note wb = width_bounds[OF cs T w_def]
  define n where "n = nat w"
  have n: "int n = w" "0 < n" using wb(1) by (simp_all add: n_def)
  have fits: "int k * cs \<le> max_i64" if "k < n" for k
  proof -
    have "int k * cs \<le> (w - 1) * cs" using that n cs by (intro mult_right_mono) auto
    then show ?thesis using wb(2) fit cs by linarith
  qed
  have inv: "k \<le> n \<Longrightarrow> scan_inv bytes cs (int k * cs) (foldl (scan_chunk bytes cs) ([], -1) [0..<k])" for k
  proof (induction k)
    case 0
    show ?case by (simp add: scan_inv_def)
  next
    case (Suc k)
    then show ?case
      using scan_step[OF cs fits[of k]] by (cases "foldl (scan_chunk bytes cs) ([], -1) [0..<k]") auto
  qed
  obtain ts start where f: "foldl (scan_chunk bytes cs) ([], -1) [0..<n] = (ts, start)" by fastforce
  have last: "w * cs - cs < T" using wb(2) by (simp add: left_diff_distrib)
  have "scan_inv bytes cs (w * cs) (ts, start)" using inv[of n] f n(1) by simp
  then have I0: "separated ts" "start \<ge> 0 \<longrightarrow> start \<le> w * cs - cs"
    "\<And>t. t \<in> set ts \<Longrightarrow> 0 \<le> Offset t \<and> 0 < Length t \<and> task_end t \<le> w * cs - cs \<and> (start \<ge> 0 \<longrightarrow> task_end t < start)"
    "tasks_bytes ts \<union> (if start \<ge> 0 then {start..<w * cs} else {}) = pending_bytes bytes cs \<inter> {0..<w * cs}"
    unfolding scan_inv_def by blast+
  have I: "separated ts" "start \<ge> 0 \<Longrightarrow> start < T"
    "\<And>t. t \<in> set ts \<Longrightarrow> 0 \<le> Offset t \<and> 0 < Length t \<and> task_end t < T \<and> (start \<ge> 0 \<longrightarrow> task_end t < start)"
    "tasks_bytes ts \<union> (if start \<ge> 0 then {start..<w * cs} else {}) = pending_bytes bytes cs \<inter> {0..<w * cs}"
    using I0(1,4) I0(2,3) last by (simp_all) (meson le_less_trans)+
  have q: "quot64 (sub64 (add64 T cs) 1) cs = w"
    using T cs fit in_i64_div[of "T + cs - 1" cs] by (simp add: w_def)
  have d: "0 \<le> start \<Longrightarrow> sub64 T start = T - start"
    using T fit cs I(2) by (intro wrap64_id in_i64_diff) auto
  have "\<not> (T \<le> 0 \<or> cs \<le> 0)" using T cs by simp
  then have u: "unverifiedTasksFromBitmap bytes T cs = (if start \<ge> 0 then ts @ [mk_task start (T - start)] else ts)"
    using d by (simp only: unverifiedTasksFromBitmap_def Let_def q n_def[symmetric] f prod.case
        if_False split: if_splits) simp
  have tsT: "tasks_bytes ts \<subseteq> {0..<T}"
    using I(3) by (fastforce simp: tasks_bytes_def task_bytes_def)
  have "pending_bytes bytes cs \<inter> {0..<T} = (pending_bytes bytes cs \<inter> {0..<w * cs}) \<inter> {0..<T}"
    using wb(3) by auto
  also have "\<dots> = tasks_bytes ts \<union> (if start \<ge> 0 then {start..<T} else {})"
    unfolding I(4)[symmetric] using tsT wb(3) by auto
  finally show "tasks_bytes (unverifiedTasksFromBitmap bytes T cs) = pending_bytes bytes cs \<inter> {0..<T}"
    by (simp add: u task_bytes_def task_end_def)
  show "separated (unverifiedTasksFromBitmap bytes T cs)"
    using I(1) I(3)[of "last ts"] by (auto simp: u separated_snoc)
  show "\<forall>t \<in> set (unverifiedTasksFromBitmap bytes T cs). 0 \<le> Offset t \<and> 0 < Length t \<and> task_end t \<le> T"
  proof
    fix t assume "t \<in> set (unverifiedTasksFromBitmap bytes T cs)"
    then have "t \<in> set ts \<or> 0 \<le> start \<and> t = mk_task start (T - start)"
      by (auto simp: u split: if_splits)
    then show "0 \<le> Offset t \<and> 0 < Length t \<and> task_end t \<le> T"
      using I(2) I(3)[of t] by (auto simp: task_end_def)
  qed
qed
section \<open>Properties\<close>

text \<open>A snapshot of a well-formed chunk map restores exactly that map, whatever map it is
  restored into: the two-bit packing loses nothing.\<close>

theorem snapshot_roundtrip:
  assumes "bm_ok T b" and "T + 3 \<le> max_i64"
  shows "\<exists>s. GetBitmapSnapshot T True b = Some s \<and>
    SetChunkProgress (snap_progress s)
      (RestoreBitmap (snap_total s) (snap_bytes s) (snap_chunkSize s) b0) = b"
  by (rule snapshot_restores[OF assms])

theorem snapshot_roundtrip_witness:
  "\<exists>s. GetBitmapSnapshot 10 True
      \<lparr>chunkStatus = [2, 1, 0], chunkProgress = [4, 1, 0], actualChunkSize = 4, width = 3\<rparr> = Some s \<and>
    SetChunkProgress (snap_progress s)
      (RestoreBitmap (snap_total s) (snap_bytes s) (snap_chunkSize s) empty_bitmap) =
      \<lparr>chunkStatus = [2, 1, 0], chunkProgress = [4, 1, 0], actualChunkSize = 4, width = 3\<rparr>"
  by (rule snapshot_roundtrip)
    (auto simp: bm_ok_def bm_layout_def cell_ok_def chunk_len_def chunk_status_defs max_i64_def
      less_Suc_eq numeral_eq_Suc)

text \<open>C8: the tasks rebuilt from a packed chunk map are sorted, separated, inside the file and
  cover exactly the bytes whose chunk is not marked completed; a chunk missing from the map counts
  as not completed.\<close>

theorem unverified_tasks_cover:
  assumes "0 < T" and "0 < cs" and "T + cs \<le> max_i64"
  shows "tasks_bytes (unverifiedTasksFromBitmap bytes T cs) = pending_bytes bytes cs \<inter> {0..<T} \<and>
    separated (unverifiedTasksFromBitmap bytes T cs) \<and>
    (\<forall>t \<in> set (unverifiedTasksFromBitmap bytes T cs). 0 \<le> Offset t \<and> 0 < Length t \<and> task_end t \<le> T)"
  using unverifiedTasks_cover[OF assms] by blast

theorem unverified_tasks_cover_witness:
  "tasks_bytes (unverifiedTasksFromBitmap [2] 10 4) = pending_bytes [2] 4 \<inter> {0..<10}"
  using unverified_tasks_cover[of 10 4 "[2]"] by (simp add: max_i64_def)

end
