(* ===== verification/ActiveTasks.thy ===== *)
theory ActiveTasks
  imports TaskQueue ChunkPlan
begin

text \<open>
  The tasks the workers hold and the balancer that splits or races them: task.go,
  \<open>StealWork\<close>, \<open>HedgeWork\<close>, \<open>releaseActiveOnCancel\<close>, \<open>resumeOnRetryOffset\<close> and the write
  accounting of \<open>downloadTask\<close> in worker.go, \<open>isEndGame\<close>, \<open>HedgeAll\<close> and the hedge poison
  counter in downloader.go (internal/surge/strategy/concurrent).

  \<open>activeTasks\<close> is a Go map, so the list holds its entries in the order the iteration at hand
  happens to visit them. The shared counters are cells of a heap; a fresh one gets the next
  address. The methods hold \<open>activeMu\<close>, but the workers keep advancing \<open>CurrentOffset\<close> while
  they run: a second load is an argument of the definition, not the value of the state. The
  fields that only health monitoring reads (speed, windows, timestamps) are left out.
\<close>

section \<open>State\<close>

record active_task =
  at_task :: task
  CurrentOffset :: int
  StopAt :: int
  Hedged :: bool
  at_shared :: "nat option"

record downloader =
  activeTasks :: "(int \<times> active_task) list"
  counters :: "nat \<Rightarrow> int"
  nextCounter :: nat
  hedgeDisabled :: bool
  consecutiveHedgeErrors :: int
  abandonedRemaining :: "task list"
  ActiveWorkers :: int

definition currentOffset :: "(nat \<Rightarrow> int) \<Rightarrow> active_task \<Rightarrow> int" where
  "currentOffset h a =
     (case at_shared a of
        None \<Rightarrow> CurrentOffset a
      | Some p \<Rightarrow> if h p > CurrentOffset a then h p else CurrentOffset a)"

definition RemainingBytes :: "(nat \<Rightarrow> int) \<Rightarrow> active_task \<Rightarrow> int" where
  "RemainingBytes h a =
     (let current = currentOffset h a
      in if current \<ge> StopAt a then 0 else sub64 (StopAt a) current)"

definition RemainingTask :: "(nat \<Rightarrow> int) \<Rightarrow> active_task \<Rightarrow> task option" where
  "RemainingTask h a =
     (let current = currentOffset h a
      in if current \<ge> StopAt a then None
         else Some \<lparr>Offset = current, Length = sub64 (StopAt a) current,
                    SharedMaxOffset = at_shared a\<rparr>)"

definition alignedSplitSizeWithMin :: "int \<Rightarrow> int \<Rightarrow> int" where
  "alignedSplitSizeWithMin remaining minChunk =
     (let half = mul64 (quot64 (quot64 remaining 2) AlignSize) AlignSize
      in if half < minChunk then 0 else half)"

definition alignedSplitSize :: "int \<Rightarrow> int" where
  "alignedSplitSize remaining = alignedSplitSizeWithMin remaining MinChunk"

definition set_active :: "int \<Rightarrow> (active_task \<Rightarrow> active_task) \<Rightarrow> downloader \<Rightarrow> downloader" where
  "set_active i f d =
     d\<lparr>activeTasks := map (\<lambda>(k, a). (k, if k = i then f a else a)) (activeTasks d)\<rparr>"

definition delete_active :: "int \<Rightarrow> downloader \<Rightarrow> downloader" where
  "delete_active i d = d\<lparr>activeTasks := filter (\<lambda>(k, _). k \<noteq> i) (activeTasks d)\<rparr>"

section \<open>Leaving a task\<close>

text \<open>What is left of \<open>task\<close> when its worker gives it up, cut at the task's original end.\<close>

definition residual :: "(nat \<Rightarrow> int) \<Rightarrow> active_task \<Rightarrow> task \<Rightarrow> task option" where
  "residual h a t =
     (case RemainingTask h a of
        None \<Rightarrow> None
      | Some r \<Rightarrow>
          (let originalEnd = add64 (Offset t) (Length t);
               r1 = (if add64 (Offset r) (Length r) > originalEnd
                     then r\<lparr>Length := sub64 originalEnd (Offset r)\<rparr> else r)
           in if Length r1 > 0 then Some r1 else None))"

definition releaseActiveOnCancel ::
  "int \<Rightarrow> active_task \<Rightarrow> task \<Rightarrow> downloader \<times> task_queue \<Rightarrow> downloader \<times> task_queue" where
  "releaseActiveOnCancel i a t s =
     (case s of (d, q) \<Rightarrow>
        ((delete_active i d)\<lparr>ActiveWorkers := ActiveWorkers d - 1\<rparr>,
         case residual (counters d) a t of None \<Rightarrow> q | Some r \<Rightarrow> fst (Push r q)))"

text \<open>The disk-full exit of the worker loop: the range is set aside instead of being requeued.\<close>

definition stashAbandoned :: "int \<Rightarrow> active_task \<Rightarrow> task \<Rightarrow> downloader \<Rightarrow> downloader" where
  "stashAbandoned i a t d =
     (let d1 = (case residual (counters d) a t of
                  None \<Rightarrow> d
                | Some r \<Rightarrow> d\<lparr>abandonedRemaining := abandonedRemaining d @ [r]\<rparr>)
      in (delete_active i d1)\<lparr>ActiveWorkers := ActiveWorkers d1 - 1\<rparr>)"

definition resumeOnRetryOffset :: "task \<Rightarrow> active_task \<Rightarrow> task \<times> active_task" where
  "resumeOnRetryOffset t a =
     (let effectiveEnd = min (StopAt a) (add64 (Offset t) (Length t));
          t1 = \<lparr>Offset = CurrentOffset a,
                Length = max (sub64 effectiveEnd (CurrentOffset a)) 0,
                SharedMaxOffset = at_shared a\<rparr>
      in (t1, a\<lparr>at_task := t1\<rparr>))"

section \<open>Stealing\<close>

definition sumRemaining :: "downloader \<Rightarrow> int" where
  "sumRemaining d =
     foldl (\<lambda>acc (_, a). add64 acc (RemainingBytes (counters d) a)) 0 (activeTasks d)"

definition dynamicMinChunk :: "runtime_config option \<Rightarrow> downloader \<Rightarrow> task_queue \<Rightarrow> int" where
  "dynamicMinChunk r d q =
     (let defaultMinChunk = GetMinChunkSize r;
          activeWorkers = int (length (activeTasks d));
          totalRemaining = sumRemaining d
      in if activeWorkers > 0 \<and> totalRemaining < mul64 activeWorkers defaultMinChunk
         then (let totalWorkers = add64 activeWorkers (IdleWorkers q);
                   m = (if totalWorkers > 0
                        then quot64 (quot64 totalRemaining totalWorkers) 2
                        else defaultMinChunk)
               in if m < MinChunkDynamicFloor then MinChunkDynamicFloor else m)
         else defaultMinChunk)"

definition scanVictim ::
  "(nat \<Rightarrow> int) \<Rightarrow> int \<Rightarrow> (int \<times> active_task) option \<times> int \<Rightarrow> int \<times> active_task \<Rightarrow>
   (int \<times> active_task) option \<times> int" where
  "scanVictim h minChunk s e =
     (case s of (best, maxRemaining) \<Rightarrow> case e of (i, a) \<Rightarrow>
        if Hedged a then s
        else let remaining = RemainingBytes h a
             in if remaining > minChunk \<and> remaining > maxRemaining
                then (Some (i, a), remaining) else s)"

text \<open>
  \<open>cur1\<close> and \<open>cur2\<close> are the two loads of the victim's \<open>CurrentOffset\<close> around the store of its
  new \<open>StopAt\<close>.
\<close>

definition StealWork ::
  "runtime_config option \<Rightarrow> int \<Rightarrow> int \<Rightarrow> downloader \<times> task_queue \<Rightarrow>
   bool \<times> downloader \<times> task_queue" where
  "StealWork r cur1 cur2 s =
     (case s of (d, q) \<Rightarrow>
        let m = dynamicMinChunk r d q
        in case foldl (scanVictim (counters d) m) (None, 0) (activeTasks d) of
             (None, _) \<Rightarrow> (False, d, q)
           | (Some (bestID, active), remaining) \<Rightarrow>
               (let splitSize = alignedSplitSizeWithMin remaining m
                in if splitSize = 0 then (False, d, q)
                   else let newStopAt = add64 cur1 splitSize;
                            originalEnd = StopAt active;
                            d1 = set_active bestID (StopAt_update (\<lambda>_. newStopAt)) d;
                            stolenStart = max cur2 newStopAt
                        in if stolenStart \<ge> originalEnd
                           then (False, set_active bestID (StopAt_update (\<lambda>_. originalEnd)) d1, q)
                           else (True, d1,
                                 fst (Push (mk_task stolenStart (sub64 originalEnd stolenStart)) q))))"

section \<open>Hedging\<close>

definition scanTail ::
  "(nat \<Rightarrow> int) \<Rightarrow> (int \<times> active_task) option \<times> int \<Rightarrow> int \<times> active_task \<Rightarrow>
   (int \<times> active_task) option \<times> int" where
  "scanTail h s e =
     (case s of (best, maxRemaining) \<Rightarrow> case e of (i, a) \<Rightarrow>
        if Hedged a then s
        else let remaining = RemainingBytes h a
             in if remaining \<le> 0 \<or> remaining \<ge> MaxHedgeChunk then s
                else if remaining > maxRemaining then (Some (i, a), remaining) else s)"

text \<open>Marking a task as raced and giving it a shared counter that starts at \<open>current\<close>.\<close>

definition share_counter :: "int \<Rightarrow> active_task \<Rightarrow> int \<Rightarrow> downloader \<Rightarrow> nat \<times> downloader" where
  "share_counter i a current d =
     (case at_shared a of
        Some p \<Rightarrow> (p, set_active i (Hedged_update (\<lambda>_. True)) d)
      | None \<Rightarrow>
          (let p = nextCounter d
           in (p, (set_active i (\<lambda>b. b\<lparr>Hedged := True, at_shared := Some p\<rparr>) d)
                    \<lparr>counters := (counters d)(p := current), nextCounter := Suc p\<rparr>)))"

text \<open>\<open>current\<close> is the second read of the chosen task's offset, before the compare-and-swap.\<close>

definition HedgeWork ::
  "int \<Rightarrow> downloader \<times> task_queue \<Rightarrow> bool \<times> downloader \<times> task_queue" where
  "HedgeWork current s =
     (case s of (d, q) \<Rightarrow>
        if hedgeDisabled d then (False, d, q)
        else if activeTasks d = [] then (False, d, q)
        else case foldl (scanTail (counters d)) (None, 0) (activeTasks d) of
               (None, _) \<Rightarrow> (False, d, q)
             | (Some (i, a), _) \<Rightarrow>
                 (let remaining = sub64 (StopAt a) current
                  in if remaining \<le> 0 \<or> remaining \<ge> MaxHedgeChunk then (False, d, q)
                     else case share_counter i a current d of
                            (p, d1) \<Rightarrow>
                              (True, d1, fst (Push \<lparr>Offset = current, Length = remaining,
                                                    SharedMaxOffset = Some p\<rparr> q))))"

definition hedge_one ::
  "downloader \<times> task_queue \<times> int \<Rightarrow> int \<times> active_task \<Rightarrow> downloader \<times> task_queue \<times> int" where
  "hedge_one s e =
     (case s of (d, q, hedged) \<Rightarrow> case e of (i, a) \<Rightarrow>
        if Hedged a then s
        else let current = currentOffset (counters d) a;
                 remaining = sub64 (StopAt a) current
             in if remaining \<le> 0 \<or> remaining \<ge> MaxHedgeChunk then s
                else case share_counter i a current d of
                       (p, d1) \<Rightarrow>
                         (d1, fst (Push \<lparr>Offset = current, Length = remaining,
                                         SharedMaxOffset = Some p\<rparr> q), hedged + 1))"

definition HedgeAll :: "downloader \<times> task_queue \<Rightarrow> int \<times> downloader \<times> task_queue" where
  "HedgeAll s =
     (case s of (d, q) \<Rightarrow>
        if hedgeDisabled d then (0, d, q)
        else if activeTasks d = [] then (0, d, q)
        else case foldl hedge_one (d, q, 0) (activeTasks d) of (d', q', n) \<Rightarrow> (n, d', q'))"

definition isEndGame :: "runtime_config option \<Rightarrow> downloader \<Rightarrow> task_queue \<Rightarrow> bool" where
  "isEndGame r d q =
     (if Len q > 0 then False
      else if IdleWorkers q = 0 then False
      else let activeWorkers = int (length (activeTasks d));
               totalRemaining = sumRemaining d
           in activeWorkers > 0 \<and> totalRemaining > 0 \<and>
              totalRemaining < mul64 activeWorkers (GetMinChunkSize r) \<and>
              totalRemaining \<le> EndGameMaxRemaining)"

definition HedgeErrorThreshold :: int where
  "HedgeErrorThreshold = 3"

definition recordHedgeError :: "downloader \<Rightarrow> downloader" where
  "recordHedgeError d =
     (if hedgeDisabled d then d
      else let count = consecutiveHedgeErrors d + 1
           in d\<lparr>consecutiveHedgeErrors := count, hedgeDisabled := (count \<ge> HedgeErrorThreshold)\<rparr>)"

definition recordHedgeSuccess :: "downloader \<Rightarrow> downloader" where
  "recordHedgeSuccess d =
     (let v = consecutiveHedgeErrors d;
          d1 = (if v \<le> 0 then d else d\<lparr>consecutiveHedgeErrors := v - 1\<rparr>)
      in if hedgeDisabled d1 \<and> consecutiveHedgeErrors d1 = 0
         then d1\<lparr>hedgeDisabled := False\<rparr> else d1)"

section \<open>Counting written bytes\<close>

text \<open>
  After a write of \<open>n\<close> bytes at \<open>rangeStart\<close>: the share that no racing worker has reported, by
  the compare-and-swap on the shared counter (one atomic step: the loop retries until the value
  it read is current), and the clamp to the \<open>StopAt\<close> a thief may have lowered meanwhile.
\<close>

definition dedup_write :: "int \<Rightarrow> int \<Rightarrow> int option \<Rightarrow> int \<times> int option" where
  "dedup_write rangeStart n shared =
     (let offset = add64 rangeStart n
      in case shared of
           None \<Rightarrow> (n, None)
         | Some maxOff \<Rightarrow>
             (if offset \<le> maxOff then (0, Some maxOff)
              else if rangeStart \<ge> maxOff then (n, Some offset)
              else (sub64 offset maxOff, Some offset)))"

definition clamp_write :: "int \<Rightarrow> int \<Rightarrow> int \<Rightarrow> int \<times> int" where
  "clamp_write offset newlyWritten stopAt =
     (if offset > stopAt
      then let excess = sub64 offset stopAt
           in (stopAt, if newlyWritten > excess then sub64 newlyWritten excess else 0)
      else (offset, newlyWritten))"

text \<open>The range that is flushed to the chunk map, if any, and the counter afterwards.\<close>

definition report_write ::
  "int \<Rightarrow> int \<Rightarrow> int \<Rightarrow> int option \<Rightarrow> (int \<times> int) option \<times> int option" where
  "report_write rangeStart n stopAt shared =
     (case dedup_write rangeStart n shared of (newly, shared') \<Rightarrow>
        case clamp_write (add64 rangeStart n) newly stopAt of (offset, newly') \<Rightarrow>
          (if newly' > 0 then Some (sub64 offset newly', newly') else None, shared'))"

section \<open>Bounds\<close>

definition active_ok :: "downloader \<Rightarrow> active_task \<Rightarrow> bool" where
  "active_ok d a \<longleftrightarrow> 0 \<le> CurrentOffset a \<and> CurrentOffset a \<le> max_i64 div 2 \<and>
     0 \<le> StopAt a \<and> StopAt a \<le> max_i64 div 2 \<and>
     (\<forall>p. at_shared a = Some p \<longrightarrow> p < nextCounter d \<and> 0 \<le> counters d p \<and> counters d p \<le> max_i64 div 2)"

definition downloader_ok :: "downloader \<Rightarrow> bool" where
  "downloader_ok d \<longleftrightarrow> distinct (map fst (activeTasks d)) \<and>
     (\<forall>(i, a) \<in> set (activeTasks d). active_ok d a)"

lemma currentOffset_bounds:
  "active_ok d a \<Longrightarrow> 0 \<le> currentOffset (counters d) a \<and> currentOffset (counters d) a \<le> max_i64 div 2 \<and>
    CurrentOffset a \<le> currentOffset (counters d) a"
  by (auto simp: active_ok_def currentOffset_def split: option.splits)

lemma half_max [simp]: "max_i64 div 2 = 4611686018427387903"
  by (simp add: max_i64_def)

lemma sub_small: "0 \<le> x \<Longrightarrow> x \<le> max_i64 div 2 \<Longrightarrow> 0 \<le> y \<Longrightarrow> y \<le> max_i64 div 2 \<Longrightarrow> sub64 x y = x - y"
  by (rule wrap64_id) (simp add: in_i64_def min_i64_def max_i64_def)

lemma add_small: "0 \<le> x \<Longrightarrow> x \<le> max_i64 div 2 \<Longrightarrow> 0 \<le> y \<Longrightarrow> y \<le> max_i64 div 2 \<Longrightarrow> add64 x y = x + y"
  by (rule wrap64_id) (simp add: in_i64_def min_i64_def max_i64_def)

lemma RemainingBytes_eq:
  "active_ok d a \<Longrightarrow> RemainingBytes (counters d) a = max 0 (StopAt a - currentOffset (counters d) a)"
  using currentOffset_bounds[of d a] sub_small[of "StopAt a" "currentOffset (counters d) a"]
  by (auto simp: RemainingBytes_def active_ok_def Let_def)

lemma RemainingTask_eq:
  "active_ok d a \<Longrightarrow> RemainingTask (counters d) a =
    (if currentOffset (counters d) a \<ge> StopAt a then None
     else Some \<lparr>Offset = currentOffset (counters d) a,
                Length = StopAt a - currentOffset (counters d) a, SharedMaxOffset = at_shared a\<rparr>)"
  using currentOffset_bounds[of d a] sub_small[of "StopAt a" "currentOffset (counters d) a"]
  by (auto simp: RemainingTask_def active_ok_def Let_def)

section \<open>Residual work\<close>

lemma residual_bytes:
  assumes a: "active_ok d a" and t: "0 \<le> Offset t" "0 \<le> Length t" "Offset t + Length t \<le> max_i64 div 2"
  shows "(case residual (counters d) a t of None \<Rightarrow> {} | Some r \<Rightarrow> task_bytes r)
      = {currentOffset (counters d) a ..< min (StopAt a) (task_end t)}"
    and "residual (counters d) a t = Some r \<Longrightarrow> 0 < Length r \<and> SharedMaxOffset r = at_shared a"
proof -
  have e: "add64 (Offset t) (Length t) = task_end t" "task_end t \<le> max_i64 div 2" "0 \<le> task_end t"
    using t by (simp_all add: task_end_def max_i64_def)
  define c where "c = currentOffset (counters d) a"
  have c: "0 \<le> c" "c \<le> max_i64 div 2" using currentOffset_bounds[OF a] by (simp_all add: c_def)
  have s: "StopAt a \<le> max_i64 div 2" "0 \<le> StopAt a" using a by (auto simp: active_ok_def)
  have w: "wrap64 (StopAt a) = StopAt a" "sub64 (task_end t) c = task_end t - c"
    using s c e by (auto intro!: wrap64_id simp: in_i64_def min_i64_def max_i64_def)
  show "(case residual (counters d) a t of None \<Rightarrow> {} | Some r \<Rightarrow> task_bytes r)
      = {currentOffset (counters d) a ..< min (StopAt a) (task_end t)}"
    by (auto simp: residual_def RemainingTask_eq[OF a] Let_def c_def[symmetric] w e task_bytes_def
        task_end_def[of "_\<lparr>Length := _\<rparr>"] task_end_def[of "\<lparr>Offset = _, Length = _, SharedMaxOffset = _\<rparr>"])
  show "residual (counters d) a t = Some r \<Longrightarrow> 0 < Length r \<and> SharedMaxOffset r = at_shared a"
    by (auto simp: residual_def RemainingTask_def Let_def split: if_splits option.splits)
qed

section \<open>Choosing a victim\<close>

lemma scanVictim_fold:
  assumes "foldl (scanVictim h m) (best, mx) xs = (best', mx')"
  shows "(best' = best \<and> mx' = mx \<or> (\<exists>i a. best' = Some (i, a) \<and> (i, a) \<in> set xs \<and> \<not> Hedged a \<and>
       mx' = RemainingBytes h a \<and> m < mx' \<and> mx \<le> mx')) \<and>
    (\<forall>(i, a) \<in> set xs. \<not> Hedged a \<longrightarrow> RemainingBytes h a \<le> m \<or> RemainingBytes h a \<le> mx')"
  using assms
proof (induction xs arbitrary: best mx)
  case Nil
  then show ?case by simp
next
  case (Cons e xs)
  obtain i a where e: "e = (i, a)" by fastforce
  obtain b1 m1 where s: "scanVictim h m (best, mx) e = (b1, m1)" by fastforce
  have "b1 = best \<and> m1 = mx \<and> (Hedged a \<or> RemainingBytes h a \<le> m \<or> RemainingBytes h a \<le> mx) \<or>
      b1 = Some (i, a) \<and> m1 = RemainingBytes h a \<and> \<not> Hedged a \<and> m < m1 \<and> mx < m1"
    using s by (auto simp: scanVictim_def e Let_def split: if_splits)
  moreover have "foldl (scanVictim h m) (b1, m1) xs = (best', mx')" using Cons.prems s by simp
  note Cons.IH[OF this]
  ultimately show ?case by (fastforce simp: e)
qed

lemma dynamicMinChunk_pos: "1 \<le> dynamicMinChunk r d q"
  using GetMinChunkSize_pos[of r]
  by (auto simp: dynamicMinChunk_def Let_def MinChunkDynamicFloor_def)

lemma split_bounds:
  assumes "0 \<le> n" "n \<le> max_i64 div 2" "alignedSplitSizeWithMin n m = s" "s \<noteq> 0"
  shows "m \<le> s" and "2 * s \<le> n" and "AlignSize dvd s"
proof -
  have q: "quot64 n 2 = n div 2" "quot64 (n div 2) AlignSize = n div 2 div AlignSize"
    using assms(1,2) in_i64_div[of n 2] in_i64_div[of "n div 2" AlignSize]
    by (auto simp: AlignSize_def max_i64_def)
  have le: "n div 2 div AlignSize * AlignSize \<le> n div 2" by (simp add: AlignSize_def)
  have "0 \<le> n div 2 div AlignSize * AlignSize" using assms(1) by (simp add: AlignSize_def)
  then have "mul64 (n div 2 div AlignSize) AlignSize = n div 2 div AlignSize * AlignSize"
    using le assms(1,2) by (intro wrap64_id) (simp add: max_i64_def)
  then have "s = n div 2 div AlignSize * AlignSize" "m \<le> s"
    using assms(3,4) q by (auto simp: alignedSplitSizeWithMin_def Let_def split: if_splits)
  then show "m \<le> s" "2 * s \<le> n" "AlignSize dvd s" using le by simp_all
qed

lemma set_active_twice:
  assumes "distinct (map fst (activeTasks d))" and "(i, a) \<in> set (activeTasks d)"
  shows "set_active i (StopAt_update (\<lambda>_. StopAt a)) (set_active i (StopAt_update (\<lambda>_. x)) d) = d"
proof -
  have "map ((\<lambda>(k, b). (k, if k = i then b\<lparr>StopAt := StopAt a\<rparr> else b)) \<circ>
      (\<lambda>(k, b). (k, if k = i then b\<lparr>StopAt := x\<rparr> else b))) (activeTasks d) = activeTasks d"
  proof (rule map_idI)
    fix e assume e: "e \<in> set (activeTasks d)"
    obtain k b where kb: "e = (k, b)" by fastforce
    have "k = i \<Longrightarrow> b = a" using e kb assms by (metis eq_key_imp_eq_value)
    then show "((\<lambda>(k, b). (k, if k = i then b\<lparr>StopAt := StopAt a\<rparr> else b)) \<circ>
      (\<lambda>(k, b). (k, if k = i then b\<lparr>StopAt := x\<rparr> else b))) e = e" by (simp add: kb)
  qed
  then show ?thesis by (simp add: set_active_def)
qed

lemma set_active_lookup:
  "distinct (map fst (activeTasks d)) \<Longrightarrow> (i, a) \<in> set (activeTasks d) \<Longrightarrow>
    (i, f a) \<in> set (activeTasks (set_active i f d)) \<and>
    (\<forall>j b. j \<noteq> i \<longrightarrow> ((j, b) \<in> set (activeTasks (set_active i f d)) \<longleftrightarrow> (j, b) \<in> set (activeTasks d)))"
  by (force simp: set_active_def)

lemma StealWork_ok:
  assumes ok: "downloader_ok d" and q: "q_inv q"
    and cur: "0 \<le> cur1" "cur1 \<le> cur2" "cur2 \<le> max_i64 div 2"
    and st: "StealWork r cur1 cur2 (d, q) = (stolen, d', q')"
  shows "if \<not> stolen then d' = d \<and> q' = q else
    \<exists>i a newStopAt start. (i, a) \<in> set (activeTasks d) \<and> \<not> Hedged a \<and>
      (\<forall>(j, b) \<in> set (activeTasks d). \<not> Hedged b \<longrightarrow>
         RemainingBytes (counters d) b \<le> RemainingBytes (counters d) a \<or>
         RemainingBytes (counters d) b \<le> dynamicMinChunk r d q) \<and>
      d' = set_active i (StopAt_update (\<lambda>_. newStopAt)) d \<and>
      cur1 + dynamicMinChunk r d q \<le> newStopAt \<and> start = max cur2 newStopAt \<and> start < StopAt a \<and>
      q_view q' = q_view q @ [mk_task start (StopAt a - start)] \<and> q_inv q'"
proof -
  let ?m = "dynamicMinChunk r d q"
  obtain best rem where f: "foldl (scanVictim (counters d) ?m) (None, 0) (activeTasks d) = (best, rem)"
    by fastforce
  note sc = scanVictim_fold[OF f]
  show ?thesis
  proof (cases best)
    case None
    then show ?thesis using st f by (simp add: StealWork_def Let_def)
  next
    case (Some e)
    then obtain i a where e: "best = Some (i, a)" by (cases e) auto
    have c: "(i, a) \<in> set (activeTasks d)" "\<not> Hedged a" "rem = RemainingBytes (counters d) a" "?m < rem"
      "\<forall>(j, b) \<in> set (activeTasks d). \<not> Hedged b \<longrightarrow>
         RemainingBytes (counters d) b \<le> RemainingBytes (counters d) a \<or>
         RemainingBytes (counters d) b \<le> ?m"
      using sc e by fastforce+
    have a: "active_ok d a" using ok c(1) by (auto simp: downloader_ok_def)
    define s where "s = alignedSplitSizeWithMin rem ?m"
    have rem: "0 \<le> rem" "rem \<le> max_i64 div 2"
      using c(3) RemainingBytes_eq[OF a] currentOffset_bounds[OF a] a by (auto simp: active_ok_def)
    show ?thesis
    proof (cases "s = 0")
      case True
      then show ?thesis using st f e by (simp add: StealWork_def Let_def s_def)
    next
      case False
      note sb = split_bounds[OF rem s_def[symmetric] False]
      have n: "add64 cur1 s = cur1 + s" using cur sb rem dynamicMinChunk_pos[of r d q] by (intro add_small) auto
      have m1: "1 \<le> ?m" by (rule dynamicMinChunk_pos)
      have Sa: "0 \<le> StopAt a" "StopAt a \<le> max_i64 div 2" using a by (auto simp: active_ok_def)
      show ?thesis
      proof (cases "max cur2 (cur1 + s) \<ge> StopAt a")
        case True
        have "stolen = False \<and> d' = d \<and> q' = q"
          using st f e False True set_active_twice[OF _ c(1)] ok
          by (simp add: StealWork_def Let_def s_def[symmetric] n downloader_ok_def)
        then show ?thesis by simp
      next
        case lt: False
        then have lt2: "cur2 < StopAt a" "cur1 + s < StopAt a" by (simp_all add: not_le)
        have l: "sub64 (StopAt a) (max cur2 (cur1 + s)) = StopAt a - max cur2 (cur1 + s)"
          using lt Sa cur sb m1 by (intro sub_small) auto
        have "stolen" "d' = set_active i (StopAt_update (\<lambda>_. cur1 + s)) d"
          "q' = fst (Push (mk_task (max cur2 (cur1 + s)) (StopAt a - max cur2 (cur1 + s))) q)"
          using st f e False lt l
          by (simp_all add: StealWork_def Let_def s_def[symmetric] n del: max.bounded_iff)
        moreover from this have "\<exists>i a newStopAt start. (i, a) \<in> set (activeTasks d) \<and> \<not> Hedged a \<and>
            (\<forall>(j, b) \<in> set (activeTasks d). \<not> Hedged b \<longrightarrow>
               RemainingBytes (counters d) b \<le> RemainingBytes (counters d) a \<or>
               RemainingBytes (counters d) b \<le> ?m) \<and>
            d' = set_active i (StopAt_update (\<lambda>_. newStopAt)) d \<and>
            cur1 + ?m \<le> newStopAt \<and> start = max cur2 newStopAt \<and> start < StopAt a \<and>
            q_view q' = q_view q @ [mk_task start (StopAt a - start)] \<and> q_inv q'"
          using Push_view[OF q] c lt2 sb
          by - (rule exI[of _ i], rule exI[of _ a], rule exI[of _ "cur1 + s"],
            rule exI[of _ "max cur2 (cur1 + s)"], simp)
        ultimately show ?thesis by simp
      qed
    qed
  qed
qed

section \<open>Hedging\<close>

lemma scanTail_fold:
  assumes "foldl (scanTail h) (best, mx) xs = (best', mx')"
  shows "best' = best \<and> mx' = mx \<or> (\<exists>i a. best' = Some (i, a) \<and> (i, a) \<in> set xs \<and> \<not> Hedged a \<and>
       mx' = RemainingBytes h a \<and> 0 < mx' \<and> mx' < MaxHedgeChunk)"
  using assms
proof (induction xs arbitrary: best mx)
  case Nil
  then show ?case by simp
next
  case (Cons e xs)
  obtain i a where e: "e = (i, a)" by fastforce
  obtain b1 m1 where s: "scanTail h (best, mx) e = (b1, m1)" by fastforce
  have "b1 = best \<and> m1 = mx \<or> b1 = Some (i, a) \<and> m1 = RemainingBytes h a \<and> \<not> Hedged a \<and>
      0 < m1 \<and> m1 < MaxHedgeChunk"
    using s by (auto simp: scanTail_def e Let_def split: if_splits)
  moreover have "foldl (scanTail h) (b1, m1) xs = (best', mx')" using Cons.prems s by simp
  note Cons.IH[OF this]
  ultimately show ?case by (fastforce simp: e)
qed

lemma share_counter_props:
  assumes "share_counter i a cur d = (p, d1)" and "\<forall>p'. at_shared a = Some p' \<longrightarrow> p' < nextCounter d"
  shows "p < nextCounter d1" and "\<forall>x < nextCounter d. counters d1 x = counters d x"
    and "activeTasks d1 = map (\<lambda>(k, b). (k, if k = i then
          (case at_shared a of Some _ \<Rightarrow> b\<lparr>Hedged := True\<rparr> | None \<Rightarrow> b\<lparr>Hedged := True, at_shared := Some p\<rparr>)
          else b)) (activeTasks d)"
    and "nextCounter d \<le> nextCounter d1"
    and "case at_shared a of Some x \<Rightarrow> p = x \<and> counters d1 = counters d | None \<Rightarrow> counters d1 p = cur"
  using assms by (auto simp: share_counter_def set_active_def Let_def split: option.splits)

lemma HedgeWork_ok:
  assumes ok: "downloader_ok d" and q: "q_inv q" and cur: "0 \<le> cur" "cur \<le> max_i64 div 2"
    and st: "HedgeWork cur (d, q) = (hedged, d', q')"
  shows "if \<not> hedged then d' = d \<and> q' = q else
    \<not> hedgeDisabled d \<and> (\<exists>i a p. (i, a) \<in> set (activeTasks d) \<and> \<not> Hedged a \<and>
      (i, a\<lparr>Hedged := True, at_shared := Some p\<rparr>) \<in> set (activeTasks d') \<and>
      cur < StopAt a \<and> StopAt a - cur < MaxHedgeChunk \<and>
      q_view q' = q_view q @ [\<lparr>Offset = cur, Length = StopAt a - cur, SharedMaxOffset = Some p\<rparr>] \<and>
      (at_shared a = None \<longrightarrow> counters d' p = cur) \<and> (at_shared a \<noteq> None \<longrightarrow> at_shared a = Some p \<and> counters d' = counters d))"
proof -
  obtain best rem where f: "foldl (scanTail (counters d)) (None, 0) (activeTasks d) = (best, rem)"
    by fastforce
  note sc = scanTail_fold[OF f]
  show ?thesis
  proof (cases "hedgeDisabled d \<or> activeTasks d = [] \<or> best = None")
    case True
    then have "\<not> hedged \<and> d' = d \<and> q' = q" using st by (auto simp: HedgeWork_def f split: if_splits)
    then show ?thesis by simp
  next
    case False
    then obtain i a where e: "best = Some (i, a)" by (cases best) auto
    have c: "(i, a) \<in> set (activeTasks d)" "\<not> Hedged a" using sc e by auto
    have a: "active_ok d a" using ok c(1) by (auto simp: downloader_ok_def)
    have r: "sub64 (StopAt a) cur = StopAt a - cur"
      using a cur by (intro sub_small) (auto simp: active_ok_def)
    show ?thesis
    proof (cases "StopAt a - cur \<le> 0 \<or> StopAt a - cur \<ge> MaxHedgeChunk")
      case True
      then show ?thesis using st f e False r by (simp add: HedgeWork_def Let_def split: if_splits)
    next
      case False2: False
      obtain p d1 where sh: "share_counter i a cur d = (p, d1)" by fastforce
      have n: "\<forall>p'. at_shared a = Some p' \<longrightarrow> p' < nextCounter d" using a by (simp add: active_ok_def)
      have "hedged" "d' = d1" "q' = fst (Push \<lparr>Offset = cur, Length = StopAt a - cur, SharedMaxOffset = Some p\<rparr> q)"
        using st f e False False2 r sh by (simp_all add: HedgeWork_def Let_def)
      note sp = share_counter_props[OF sh n]
      have "(i, a\<lparr>Hedged := True, at_shared := Some p\<rparr>) \<in> set (activeTasks d1)"
      proof (cases "at_shared a")
        case None
        then show ?thesis unfolding sp(3) set_map by (intro image_eqI[OF _ c(1)]) simp
      next
        case (Some x)
        then have "a\<lparr>Hedged := True, at_shared := Some p\<rparr> = a\<lparr>Hedged := True\<rparr>"
          using sp(5) by (cases a) simp
        then show ?thesis unfolding sp(3) set_map using Some by (intro image_eqI[OF _ c(1)]) simp
      qed
      moreover have "\<not> hedgeDisabled d" using False by simp
      ultimately show ?thesis
        using \<open>hedged\<close> \<open>d' = d1\<close> \<open>q' = _\<close> c False2 Push_view[OF q] sp(5)
        by (simp, intro exI[of _ i] exI[of _ a] exI[of _ p]) (auto split: option.splits)
    qed
  qed
qed

text \<open>The end-game pass: every small un-raced tail gets exactly one racer.\<close>

definition small_tail :: "downloader \<Rightarrow> active_task \<Rightarrow> bool" where
  "small_tail d a \<longleftrightarrow> \<not> Hedged a \<and> 0 < StopAt a - currentOffset (counters d) a \<and>
     StopAt a - currentOffset (counters d) a < MaxHedgeChunk"

definition races :: "downloader \<Rightarrow> active_task \<Rightarrow> task \<Rightarrow> bool" where
  "races d a t \<longleftrightarrow> Offset t = currentOffset (counters d) a \<and> task_end t = StopAt a \<and>
     SharedMaxOffset t \<noteq> None \<and> (at_shared a \<noteq> None \<longrightarrow> SharedMaxOffset t = at_shared a)"

lemma hedge_one_eq:
  assumes a: "active_ok d0 a" and n: "nextCounter d0 \<le> nextCounter d"
    and h: "\<forall>x < nextCounter d0. counters d x = counters d0 x"
  shows "hedge_one (d, q, n) (i, a) = (if small_tail d0 a
      then case share_counter i a (currentOffset (counters d0) a) d of (p, d1) \<Rightarrow>
        (d1, fst (Push \<lparr>Offset = currentOffset (counters d0) a,
           Length = StopAt a - currentOffset (counters d0) a, SharedMaxOffset = Some p\<rparr> q), n + 1)
      else (d, q, n))"
proof -
  have c: "currentOffset (counters d) a = currentOffset (counters d0) a"
    using a h by (auto simp: active_ok_def currentOffset_def split: option.splits)
  have "sub64 (StopAt a) (currentOffset (counters d0) a) = StopAt a - currentOffset (counters d0) a"
    using a currentOffset_bounds[OF a] by (intro sub_small) (auto simp: active_ok_def)
  then show ?thesis by (auto simp: hedge_one_def Let_def c small_tail_def)
qed

lemma share_counter_hedged:
  assumes "share_counter i a cur d = (p, d1)"
  shows "map fst (activeTasks d1) = map fst (activeTasks d)"
    and "(i, b) \<in> set (activeTasks d1) \<Longrightarrow> Hedged b"
    and "\<forall>b. (j, b) \<in> set (activeTasks d) \<longrightarrow> Hedged b \<Longrightarrow> (j, b) \<in> set (activeTasks d1) \<Longrightarrow> Hedged b"
  using assms by (auto simp: share_counter_def set_active_def Let_def split: option.splits if_splits)

lemma hedge_one_cases:
  assumes "hedge_one (d, q, n) (i, a) = (d1, q1, n1)"
  shows "d1 = d \<or> (\<exists>p c. share_counter i a c d = (p, d1))"
proof (cases "Hedged a \<or> sub64 (StopAt a) (currentOffset (counters d) a) \<le> 0 \<or>
    sub64 (StopAt a) (currentOffset (counters d) a) \<ge> MaxHedgeChunk")
  case True
  then show ?thesis using assms by (auto simp: hedge_one_def Let_def split: if_splits)
next
  case False
  obtain p d2 where "share_counter i a (currentOffset (counters d) a) d = (p, d2)" by fastforce
  moreover from this have "d1 = d2" using assms False by (simp add: hedge_one_def Let_def)
  ultimately show ?thesis by blast
qed

lemma hedge_one_hedged:
  assumes "hedge_one (d, q, n) e = (d1, q1, n1)"
  shows "map fst (activeTasks d1) = map fst (activeTasks d)"
    and "\<forall>b. (j, b) \<in> set (activeTasks d) \<longrightarrow> Hedged b \<Longrightarrow> \<forall>b. (j, b) \<in> set (activeTasks d1) \<longrightarrow> Hedged b"
proof -
  obtain i a where e: "e = (i, a)" by fastforce
  note c = hedge_one_cases[OF assms[unfolded e]]
  show "map fst (activeTasks d1) = map fst (activeTasks d)"
    using c share_counter_hedged(1) by metis
  show "\<forall>b. (j, b) \<in> set (activeTasks d) \<longrightarrow> Hedged b \<Longrightarrow> \<forall>b. (j, b) \<in> set (activeTasks d1) \<longrightarrow> Hedged b"
    using c share_counter_hedged(3) by metis
qed

lemma hedge_fold_hedged:
  "foldl hedge_one (d, q, n) xs = (d', q', n') \<Longrightarrow>
    map fst (activeTasks d') = map fst (activeTasks d) \<and>
    ((\<forall>b. (j, b) \<in> set (activeTasks d) \<longrightarrow> Hedged b) \<longrightarrow> (\<forall>b. (j, b) \<in> set (activeTasks d') \<longrightarrow> Hedged b))"
proof (induction xs arbitrary: d q n)
  case Nil
  then show ?case by simp
next
  case (Cons e xs)
  obtain d1 q1 n1 where o: "hedge_one (d, q, n) e = (d1, q1, n1)" by (metis prod_cases3)
  with Cons.prems have "foldl hedge_one (d1, q1, n1) xs = (d', q', n')" by simp
  note ih = Cons.IH[OF this]
  show ?case
  proof (intro conjI impI)
    show "map fst (activeTasks d') = map fst (activeTasks d)"
      using ih hedge_one_hedged(1)[OF o] by simp
    assume "\<forall>b. (j, b) \<in> set (activeTasks d) \<longrightarrow> Hedged b"
    from hedge_one_hedged(2)[OF o this] ih
    show "\<forall>b. (j, b) \<in> set (activeTasks d') \<longrightarrow> Hedged b" by (rule_tac mp[OF conjunct2])
  qed
qed

lemma hedge_fold:
  assumes ok: "\<forall>(i, a) \<in> set xs. active_ok d0 a"
    and "nextCounter d0 \<le> nextCounter d" and "\<forall>x < nextCounter d0. counters d x = counters d0 x"
    and "q_inv q" and "foldl hedge_one (d, q, n) xs = (d', q', n')"
  shows "(\<exists>ts. q_view q' = q_view q @ ts \<and> q_inv q' \<and> n' = n + int (length ts) \<and>
       list_all2 (\<lambda>(i, a) t. races d0 a t) (filter (\<lambda>(i, a). small_tail d0 a) xs) ts) \<and>
    (\<forall>(i, a) \<in> set xs. small_tail d0 a \<longrightarrow> (\<forall>b. (i, b) \<in> set (activeTasks d') \<longrightarrow> Hedged b))"
  using assms
proof (induction xs arbitrary: d q n)
  case Nil
  then show ?case by simp
next
  case (Cons e xs)
  obtain i a where e: "e = (i, a)" by fastforce
  have a: "active_ok d0 a" using Cons.prems(1) e by simp
  note one = hedge_one_eq[OF a Cons.prems(2,3), of q n i]
  show ?case
  proof (cases "small_tail d0 a")
    case False
    then have "foldl hedge_one (d, q, n) xs = (d', q', n')" using Cons.prems(5) one by (simp add: e)
    from Cons.IH[OF _ Cons.prems(2-4) this] Cons.prems(1) False show ?thesis by (simp add: e)
  next
    case True
    define c where "c = currentOffset (counters d0) a"
    obtain p d1 where sh: "share_counter i a c d = (p, d1)" by fastforce
    define t where "t = \<lparr>Offset = c, Length = StopAt a - c, SharedMaxOffset = Some p\<rparr>"
    have f: "foldl hedge_one (d1, fst (Push t q), n + 1) xs = (d', q', n')"
      using Cons.prems(5) one True sh by (simp add: e c_def[symmetric] t_def)
    have nn: "\<forall>p'. at_shared a = Some p' \<longrightarrow> p' < nextCounter d"
      using a Cons.prems(2) by (auto simp: active_ok_def)
    note sp = share_counter_props[OF sh nn]
    have "(\<exists>ts. q_view q' = q_view (fst (Push t q)) @ ts \<and> q_inv q' \<and> n' = n + 1 + int (length ts) \<and>
        list_all2 (\<lambda>(i, a) t. races d0 a t) (filter (\<lambda>(i, a). small_tail d0 a) xs) ts) \<and>
      (\<forall>(i, a) \<in> set xs. small_tail d0 a \<longrightarrow> (\<forall>b. (i, b) \<in> set (activeTasks d') \<longrightarrow> Hedged b))"
      by (rule Cons.IH[OF _ _ _ _ f])
        (use Cons.prems(1-4) sp(2,4) Push_view[OF Cons.prems(4)] in auto)
    then obtain ts where ts: "q_view q' = q_view q @ t # ts" "q_inv q'" "n' = n + int (length (t # ts))"
      "list_all2 (\<lambda>(i, a) t. races d0 a t) (filter (\<lambda>(i, a). small_tail d0 a) xs) ts"
      and tl: "\<forall>(i, a) \<in> set xs. small_tail d0 a \<longrightarrow> (\<forall>b. (i, b) \<in> set (activeTasks d') \<longrightarrow> Hedged b)"
      using Push_view[OF Cons.prems(4)] by auto
    have "races d0 a t"
      using sp(5) by (auto simp: races_def t_def c_def task_end_def split: option.splits)
    then have "list_all2 (\<lambda>(i, a) t. races d0 a t) (filter (\<lambda>(i, a). small_tail d0 a) (e # xs)) (t # ts)"
      using ts(4) True by (simp add: e)
    moreover have "\<forall>b. (i, b) \<in> set (activeTasks d') \<longrightarrow> Hedged b"
      using hedge_fold_hedged[OF f, of i] share_counter_hedged(2)[OF sh] by blast
    ultimately show ?thesis
      using ts(1-3) tl by (intro conjI exI[of _ "t # ts"]) (auto simp: e)
  qed
qed

lemma HedgeAll_ok:
  assumes ok: "downloader_ok d" and q: "q_inv q" and en: "\<not> hedgeDisabled d"
    and st: "HedgeAll (d, q) = (n, d', q')"
  shows "\<exists>ts. q_view q' = q_view q @ ts \<and> n = int (length ts) \<and>
       list_all2 (\<lambda>(i, a) t. races d a t) (filter (\<lambda>(i, a). small_tail d a) (activeTasks d)) ts"
    and "(i, a) \<in> set (activeTasks d) \<Longrightarrow> small_tail d a \<Longrightarrow> (i, b) \<in> set (activeTasks d') \<Longrightarrow> Hedged b"
proof -
  have "(\<exists>ts. q_view q' = q_view q @ ts \<and> q_inv q' \<and> n = 0 + int (length ts) \<and>
       list_all2 (\<lambda>(i, a) t. races d a t) (filter (\<lambda>(i, a). small_tail d a) (activeTasks d)) ts) \<and>
    (\<forall>(i, a) \<in> set (activeTasks d). small_tail d a \<longrightarrow> (\<forall>b. (i, b) \<in> set (activeTasks d') \<longrightarrow> Hedged b))"
  proof (rule hedge_fold)
    show "foldl hedge_one (d, q, 0) (activeTasks d) = (d', q', n)"
      using st en by (auto simp: HedgeAll_def split: if_splits prod.splits)
  qed (use ok q in \<open>auto simp: downloader_ok_def\<close>)
  then show "\<exists>ts. q_view q' = q_view q @ ts \<and> n = int (length ts) \<and>
       list_all2 (\<lambda>(i, a) t. races d a t) (filter (\<lambda>(i, a). small_tail d a) (activeTasks d)) ts"
    and "(i, a) \<in> set (activeTasks d) \<Longrightarrow> small_tail d a \<Longrightarrow> (i, b) \<in> set (activeTasks d') \<Longrightarrow> Hedged b"
    by auto
qed

section \<open>Counting written bytes\<close>

lemma report_write_fresh:
  assumes "0 \<le> rangeStart" and "0 \<le> n" and "rangeStart + n \<le> max_i64" and "0 \<le> m"
    and "0 \<le> stopAt" and r: "report_write rangeStart n stopAt (Some m) = (rep, shared')"
  shows "\<exists>m'. shared' = Some m' \<and> m \<le> m' \<and> m' \<le> max m (rangeStart + n) \<and>
    (case rep of None \<Rightarrow> True
     | Some (off, len) \<Rightarrow> 0 < len \<and> m \<le> off \<and> off + len \<le> m' \<and> off + len \<le> stopAt \<and>
         rangeStart \<le> off \<and> off + len \<le> rangeStart + n)"
proof -
  define e where "e = rangeStart + n"
  have e: "0 \<le> e" "e \<le> max_i64" "rangeStart \<le> e" "rangeStart \<le> max_i64" "rangeStart + n = e" using assms by (auto simp: e_def)
  have w: "add64 rangeStart n = e" using e(1,2,5) by simp
  define newly where "newly = (if e \<le> m then 0 else min n (e - m))"
  have s1: "e > m \<Longrightarrow> sub64 e m = e - m" using e assms(4) by (intro sub64_nonneg) auto
  have d: "dedup_write rangeStart n (Some m) = (newly, Some (max m e))"
    using e s1 by (auto simp: dedup_write_def w Let_def newly_def)
  have nb: "0 \<le> newly" "newly \<le> max_i64" "newly \<le> n" "newly > 0 \<Longrightarrow> m \<le> e - newly"
    using e assms(1,2) by (auto simp: newly_def)
  have rs: "rangeStart \<le> e - newly" using nb(3) e(5) by linarith
  have s2: "e > stopAt \<Longrightarrow> sub64 e stopAt = e - stopAt" using e assms(5) by (intro sub64_nonneg) auto
  define off where "off = min e stopAt"
  define newly' where "newly' = (if e > stopAt then max 0 (newly - (e - stopAt)) else newly)"
  have "newly > e - stopAt \<Longrightarrow> e > stopAt \<Longrightarrow> sub64 newly (e - stopAt) = newly - (e - stopAt)"
    using nb e assms(5) by (intro sub64_nonneg) auto
  then have c: "clamp_write e newly stopAt = (off, newly')"
    using s2 by (auto simp: clamp_write_def off_def newly'_def Let_def)
  have "sub64 off newly' = off - newly'"
    using e nb assms(5) by (intro sub64_nonneg) (auto simp: off_def newly'_def)
  then have "rep = (if newly' > 0 then Some (off - newly', newly') else None)" "shared' = Some (max m e)"
    using r d c by (auto simp: report_write_def w)
  then show ?thesis
    using e nb rs assms(2,5) by (auto simp: off_def newly'_def e_def[symmetric] split: if_splits)
qed

text \<open>
  Racing workers: a run of writes against one shared counter, each with the start, the number of
  bytes written and the \<open>StopAt\<close> of its worker at that moment. The counter exists from the start: \<open>HedgeWork\<close>
  creates it before it hands out the second copy, and a worker loads it anew at each report.
\<close>

fun race_run :: "(int \<times> int \<times> int) list \<Rightarrow> int \<Rightarrow> (int \<times> int) list \<times> int" where
  "race_run [] m = ([], m)"
| "race_run ((rangeStart, n, stopAt) # ws) m =
     (case report_write rangeStart n stopAt (Some m) of (rep, m') \<Rightarrow>
        case race_run ws (case m' of Some x \<Rightarrow> x | None \<Rightarrow> m) of (reps, mf) \<Rightarrow>
          ((case rep of Some r \<Rightarrow> [r] | None \<Rightarrow> []) @ reps, mf))"

fun ascending :: "int \<Rightarrow> (int \<times> int) list \<Rightarrow> int \<Rightarrow> bool" where
  "ascending a [] b \<longleftrightarrow> a \<le> b"
| "ascending a ((off, len) # rs) b \<longleftrightarrow> a \<le> off \<and> 0 < len \<and> ascending (off + len) rs b"

lemma ascending_weaken: "ascending a rs b \<Longrightarrow> a' \<le> a \<Longrightarrow> ascending a' rs b"
  by (cases rs) auto

lemma ascending_sum: "ascending a rs b \<Longrightarrow> (\<Sum>r\<leftarrow>rs. snd r) \<le> b - a"
  by (induction rs arbitrary: a) force+

lemma race_run_ascending:
  assumes "\<forall>(s, n, stop) \<in> set ws. 0 \<le> s \<and> 0 \<le> n \<and> s + n \<le> max_i64 \<and> 0 \<le> stop" and "0 \<le> m"
    and "race_run ws m = (reps, mf)"
  shows "ascending m reps mf"
  using assms
proof (induction ws arbitrary: m reps)
  case Nil
  then show ?case by simp
next
  case (Cons w ws)
  obtain s n stop where w: "w = (s, n, stop)" by (metis prod_cases3)
  obtain rep sh where r: "report_write s n stop (Some m) = (rep, sh)" by fastforce
  obtain m' where m': "sh = Some m'" "m \<le> m'"
    "case rep of None \<Rightarrow> True | Some (off, len) \<Rightarrow> 0 < len \<and> m \<le> off \<and> off + len \<le> m'"
  proof -
    have c: "0 \<le> s" "0 \<le> n" "s + n \<le> max_i64" "0 \<le> stop" using Cons.prems(1) w by auto
    from report_write_fresh[OF c(1-3) Cons.prems(2) c(4) r] that show thesis
      by (cases rep) auto
  qed
  obtain reps' where r2: "race_run ws m' = (reps', mf)" "reps = (case rep of Some r \<Rightarrow> [r] | None \<Rightarrow> []) @ reps'"
    using Cons.prems(3) w r m'(1) by (auto split: prod.splits)
  have "ascending m' reps' mf" using Cons.IH[OF _ _ r2(1)] Cons.prems(1,2) m'(2) by simp
  then show ?case using r2(2) m'(2,3) ascending_weaken by (auto split: option.splits)
qed

section \<open>The hedge poison counter\<close>

definition poison_ok :: "downloader \<Rightarrow> bool" where
  "poison_ok d \<longleftrightarrow> 0 \<le> consecutiveHedgeErrors d \<and> consecutiveHedgeErrors d \<le> HedgeErrorThreshold \<and>
     (consecutiveHedgeErrors d = HedgeErrorThreshold \<longrightarrow> hedgeDisabled d) \<and>
     (hedgeDisabled d \<longrightarrow> 0 < consecutiveHedgeErrors d)"

lemma poison_step [go_wf]:
  "poison_ok d \<Longrightarrow> poison_ok (recordHedgeError d)"
  "poison_ok d \<Longrightarrow> poison_ok (recordHedgeSuccess d)"
  by (auto simp: poison_ok_def recordHedgeError_def recordHedgeSuccess_def HedgeErrorThreshold_def Let_def)

fun poison_run :: "bool list \<Rightarrow> downloader \<Rightarrow> downloader" where
  "poison_run [] d = d"
| "poison_run (ok # oks) d = poison_run oks (if ok then recordHedgeSuccess d else recordHedgeError d)"

lemma poison_run_ok: "poison_ok d \<Longrightarrow> poison_ok (poison_run oks d)"
  by (induction oks arbitrary: d) (auto intro: poison_step)

lemma poison_recovers:
  "poison_ok d \<Longrightarrow> nat (consecutiveHedgeErrors d) = k \<Longrightarrow>
    consecutiveHedgeErrors (poison_run (replicate k True) d) = 0 \<and>
    \<not> hedgeDisabled (poison_run (replicate k True) d)"
proof (induction k arbitrary: d)
  case 0
  then show ?case by (auto simp: poison_ok_def)
next
  case (Suc k)
  have "poison_ok (recordHedgeSuccess d)" using Suc.prems(1) by (rule poison_step)
  moreover have "nat (consecutiveHedgeErrors (recordHedgeSuccess d)) = k"
    using Suc.prems by (auto simp: recordHedgeSuccess_def Let_def)
  ultimately show ?case using Suc.IH by simp
qed

section \<open>Properties\<close>

text \<open>C6: a successful steal takes the end of the un-hedged range with the most work (unless it is
  below the dynamic minimum): the victim is stopped at least one minimum chunk ahead of where it
  is, and the stolen task, which has no shared counter, starts where the victim effectively stops
  and reaches the victim's old end, so that the two ranges cover the original one without
  overlap. A failed steal changes nothing: a \<open>StopAt\<close> that was lowered is restored.\<close>

theorem steal_partitions:
  assumes "downloader_ok d" and "q_inv q" and "0 \<le> cur1" and "cur1 \<le> cur2" and "cur2 \<le> max_i64 div 2"
    and "StealWork r cur1 cur2 (d, q) = (stolen, d', q')"
  shows "if \<not> stolen then d' = d \<and> q' = q else
    \<exists>i a newStopAt start. (i, a) \<in> set (activeTasks d) \<and> \<not> Hedged a \<and>
      (\<forall>(j, b) \<in> set (activeTasks d). \<not> Hedged b \<longrightarrow>
         RemainingBytes (counters d) b \<le> RemainingBytes (counters d) a \<or>
         RemainingBytes (counters d) b \<le> dynamicMinChunk r d q) \<and>
      d' = set_active i (StopAt_update (\<lambda>_. newStopAt)) d \<and>
      cur1 + dynamicMinChunk r d q \<le> newStopAt \<and> start = max cur2 newStopAt \<and> start < StopAt a \<and>
      q_view q' = q_view q @ [mk_task start (StopAt a - start)] \<and> q_inv q'"
  by (rule StealWork_ok[OF assms])

definition demo_active :: "int \<Rightarrow> int \<Rightarrow> active_task" where
  "demo_active cur stop = \<lparr>at_task = mk_task 0 stop, CurrentOffset = cur, StopAt = stop,
     Hedged = False, at_shared = None\<rparr>"

definition demo_downloader :: "(int \<times> active_task) list \<Rightarrow> downloader" where
  "demo_downloader as = \<lparr>activeTasks = as, counters = (\<lambda>_. 0), nextCounter = 0,
     hedgeDisabled = False, consecutiveHedgeErrors = 0, abandonedRemaining = [],
     ActiveWorkers = int (length as)\<rparr>"

lemmas demo_defs = demo_active_def demo_downloader_def downloader_ok_def active_ok_def
  NewTaskQueue_def

theorem steal_partitions_witness:
  "fst (StealWork None 0 4096 (demo_downloader [(0, demo_active 0 100000000)], NewTaskQueue))"
proof -
  obtain b d' q' where st: "StealWork None 0 4096 (demo_downloader [(0, demo_active 0 100000000)],
      NewTaskQueue) = (b, d', q')" by (metis prod_cases3)
  from steal_partitions[OF _ q_inv_New _ _ _ st]
  have "if \<not> b then d' = demo_downloader [(0, demo_active 0 100000000)] \<and> q' = NewTaskQueue
    else True" by (simp add: demo_defs)
  moreover have "fst (StealWork None 0 4096 (demo_downloader [(0, demo_active 0 100000000)], NewTaskQueue))"
    by (simp add: StealWork_def demo_defs scanVictim_def dynamicMinChunk_def sumRemaining_def
        RemainingBytes_def currentOffset_def alignedSplitSizeWithMin_def GetMinChunkSize_def
        IdleWorkers_def size_defs wrap64_def Let_def)
  ultimately show ?thesis by simp
qed

text \<open>The end-game pass queues, in the order of the active tasks, exactly one racing task for
  each un-raced tail below the hedge ceiling: it covers the tail's remaining range and shares its
  counter; afterwards every such task is marked as raced, so that none is raced twice, and the
  number returned is the number of tasks queued.\<close>

theorem hedge_all_races:
  assumes "downloader_ok d" and "q_inv q" and "\<not> hedgeDisabled d"
    and "HedgeAll (d, q) = (n, d', q')"
  shows "(\<exists>ts. q_view q' = q_view q @ ts \<and> n = int (length ts) \<and>
       list_all2 (\<lambda>(i, a) t. races d a t) (filter (\<lambda>(i, a). small_tail d a) (activeTasks d)) ts) \<and>
    (\<forall>i a b. (i, a) \<in> set (activeTasks d) \<longrightarrow> small_tail d a \<longrightarrow>
       (i, b) \<in> set (activeTasks d') \<longrightarrow> Hedged b)"
  using HedgeAll_ok[OF assms] by blast

theorem hedge_all_races_witness:
  "fst (HedgeAll (demo_downloader [(0, demo_active 0 4096), (1, demo_active 0 100000000)], NewTaskQueue)) = 1"
proof -
  let ?d = "demo_downloader [(0, demo_active 0 4096), (1, demo_active 0 100000000)]"
  obtain n d' q' where st: "HedgeAll (?d, NewTaskQueue) = (n, d', q')" by (metis prod_cases3)
  have "\<exists>ts. q_view q' = q_view NewTaskQueue @ ts \<and> n = int (length ts) \<and>
       list_all2 (\<lambda>(i, a) t. races ?d a t) (filter (\<lambda>(i, a). small_tail ?d a) (activeTasks ?d)) ts"
    using hedge_all_races[OF _ q_inv_New _ st] by (simp add: demo_defs)
  then show ?thesis
    using st by (auto simp: demo_defs small_tail_def currentOffset_def size_defs list_all2_Cons1)
qed

text \<open>A hedge of one tail marks it, gives both racers the same counter, which starts at the
  offset the racer starts from when it is new, and queues exactly the range from there to the
  tail's end; a refused hedge changes nothing.\<close>

theorem hedge_work_shares:
  assumes "downloader_ok d" and "q_inv q" and "0 \<le> cur" and "cur \<le> max_i64 div 2"
    and "HedgeWork cur (d, q) = (hedged, d', q')"
  shows "if \<not> hedged then d' = d \<and> q' = q else
    \<not> hedgeDisabled d \<and> (\<exists>i a p. (i, a) \<in> set (activeTasks d) \<and> \<not> Hedged a \<and>
      (i, a\<lparr>Hedged := True, at_shared := Some p\<rparr>) \<in> set (activeTasks d') \<and>
      cur < StopAt a \<and> StopAt a - cur < MaxHedgeChunk \<and>
      q_view q' = q_view q @ [\<lparr>Offset = cur, Length = StopAt a - cur, SharedMaxOffset = Some p\<rparr>] \<and>
      (at_shared a = None \<longrightarrow> counters d' p = cur) \<and>
      (at_shared a \<noteq> None \<longrightarrow> at_shared a = Some p \<and> counters d' = counters d))"
  by (rule HedgeWork_ok[OF assms])

theorem hedge_work_shares_witness:
  "q_view (snd (snd (HedgeWork 100 (demo_downloader [(0, demo_active 0 4096)], NewTaskQueue))))
    = [\<lparr>Offset = 100, Length = 3996, SharedMaxOffset = Some 0\<rparr>]"
proof -
  obtain b d' q' where st: "HedgeWork 100 (demo_downloader [(0, demo_active 0 4096)], NewTaskQueue) = (b, d', q')"
    by (metis prod_cases3)
  from hedge_work_shares[OF _ q_inv_New _ _ st] have "b \<or> q' = NewTaskQueue"
    by (simp add: demo_defs split: if_splits)
  moreover have "q_view (snd (snd (HedgeWork 100 (demo_downloader [(0, demo_active 0 4096)], NewTaskQueue))))
    = [\<lparr>Offset = 100, Length = 3996, SharedMaxOffset = Some 0\<rparr>]"
    by (simp add: HedgeWork_def demo_defs scanTail_def RemainingBytes_def currentOffset_def size_defs
        wrap64_def Let_def share_counter_def Push_def q_view_def)
  ultimately show ?thesis by simp
qed

text \<open>A worker that gives up its task requeues (or, when the disk is full, sets aside) exactly
  the bytes it has not reached, up to its stop point and the task's end, together with the shared
  counter; nothing is requeued when nothing is left, and the worker leaves the active set.\<close>

theorem residual_is_requeued:
  assumes "downloader_ok d" and "(i, a) \<in> set (activeTasks d)" and "q_inv q"
    and "0 \<le> Offset t" and "0 \<le> Length t" and "Offset t + Length t \<le> max_i64 div 2"
    and "releaseActiveOnCancel i a t (d, q) = (d', q')"
  shows "i \<notin> fst ` set (activeTasks d') \<and> ActiveWorkers d' = ActiveWorkers d - 1 \<and>
    (let rest = {currentOffset (counters d) a ..< min (StopAt a) (task_end t)} in
     (\<exists>ts. q_view q' = q_view q @ ts \<and> tasks_bytes ts = rest \<and>
        (\<forall>r \<in> set ts. SharedMaxOffset r = at_shared a) \<and> (rest = {} \<longrightarrow> ts = [])) \<and>
     (\<exists>ts. abandonedRemaining (stashAbandoned i a t d) = abandonedRemaining d @ ts \<and>
        tasks_bytes ts = rest))"
proof -
  have a: "active_ok d a" using assms(1,2) by (auto simp: downloader_ok_def)
  note r = residual_bytes[OF a assms(4-6)]
  have d': "d' = (delete_active i d)\<lparr>ActiveWorkers := ActiveWorkers d - 1\<rparr>"
    "q' = (case residual (counters d) a t of None \<Rightarrow> q | Some r \<Rightarrow> fst (Push r q))"
    using assms(7) by (simp_all add: releaseActiveOnCancel_def)
  show ?thesis
  proof (cases "residual (counters d) a t")
    case None
    then show ?thesis
      using r d' by (auto simp: delete_active_def stashAbandoned_def Let_def intro: exI[of _ "[]"])
  next
    case (Some x)
    have x: "task_bytes x = {currentOffset (counters d) a ..< min (StopAt a) (task_end t)}"
      "0 < Length x" "SharedMaxOffset x = at_shared a" using r Some by auto
    have "task_bytes x \<noteq> {}" using x(2) by (simp add: task_bytes_def task_end_def)
    then have ne: "currentOffset (counters d) a < min (StopAt a) (task_end t)"
      unfolding x(1) by simp
    show ?thesis
      unfolding Let_def
    proof (intro conjI)
      show "i \<notin> fst ` set (activeTasks d')" "ActiveWorkers d' = ActiveWorkers d - 1"
        using d' by (auto simp: delete_active_def)
      show "\<exists>ts. q_view q' = q_view q @ ts \<and>
          tasks_bytes ts = {currentOffset (counters d) a ..< min (StopAt a) (task_end t)} \<and>
          (\<forall>r \<in> set ts. SharedMaxOffset r = at_shared a) \<and>
          ({currentOffset (counters d) a ..< min (StopAt a) (task_end t)} = {} \<longrightarrow> ts = [])"
        using Some d' Push_view[OF assms(3), of x] x ne by (intro exI[of _ "[x]"]) simp
      show "\<exists>ts. abandonedRemaining (stashAbandoned i a t d) = abandonedRemaining d @ ts \<and>
          tasks_bytes ts = {currentOffset (counters d) a ..< min (StopAt a) (task_end t)}"
        using Some x by (intro exI[of _ "[x]"]) (simp add: stashAbandoned_def delete_active_def Let_def)
    qed
  qed
qed

theorem residual_is_requeued_witness:
  "q_view (snd (releaseActiveOnCancel 0 (demo_active 10 100) (mk_task 0 50)
     (demo_downloader [(0, demo_active 10 100)], NewTaskQueue))) = [mk_task 10 40]"
proof -
  let ?a = "demo_active 10 100" and ?d = "demo_downloader [(0, demo_active 10 100)]"
  obtain d' q' where st: "releaseActiveOnCancel 0 ?a (mk_task 0 50) (?d, NewTaskQueue) = (d', q')"
    by fastforce
  from residual_is_requeued[OF _ _ q_inv_New _ _ _ st]
  have "0 \<notin> fst ` set (activeTasks d')" by (simp add: demo_defs)
  then show ?thesis
    by (simp add: releaseActiveOnCancel_def residual_def RemainingTask_def demo_defs
        currentOffset_def wrap64_def Let_def Push_def q_view_def)
qed

text \<open>C5: however the writes of racing workers interleave, the ranges they report to the chunk map
  are disjoint and ascending between the initial and the final value of the shared counter, so no
  byte is counted twice and the total reported is at most the counter's advance.\<close>

theorem racing_writes_disjoint:
  assumes "\<forall>(s, n, stop) \<in> set ws. 0 \<le> s \<and> 0 \<le> n \<and> s + n \<le> max_i64 \<and> 0 \<le> stop" and "0 \<le> m"
    and "race_run ws m = (reps, mf)"
  shows "ascending m reps mf \<and> (\<Sum>r\<leftarrow>reps. snd r) \<le> mf - m"
  using race_run_ascending[OF assms] ascending_sum by blast

theorem racing_writes_disjoint_witness:
  "race_run [(0, 100, 400), (0, 250, 400), (100, 100, 400), (200, 100, 280)] 0
    = ([(0, 100), (100, 150), (250, 30)], 300) \<and> ascending 0 [(0, 100), (100, 150), (250, 30)] 300"
proof -
  have r: "race_run [(0, 100, 400), (0, 250, 400), (100, 100, 400), (200, 100, 280)] 0
    = ([(0, 100), (100, 150), (250, 30)], 300)"
    by (simp add: report_write_def dedup_write_def clamp_write_def wrap64_def Let_def)
  with racing_writes_disjoint[OF _ _ r] show ?thesis by (simp add: max_i64_def)
qed

text \<open>Over every sequence of good and bad responses the error counter stays between 0 and the
  threshold, hedging is off when the threshold is reached, and as many good responses as there are
  counted errors switch it on again.\<close>

theorem poison_counter:
  assumes "poison_ok d" and "d' = poison_run oks d"
  shows "poison_ok d' \<and>
    \<not> hedgeDisabled (poison_run (replicate (nat (consecutiveHedgeErrors d')) True) d')"
  using poison_run_ok[OF assms(1)] poison_recovers assms(2) by simp

theorem poison_counter_witness:
  "hedgeDisabled (poison_run [False, True, False, False, False] (demo_downloader [])) \<and>
   poison_ok (poison_run [False, True, False, False, False] (demo_downloader []))"
  using poison_counter[of "demo_downloader []", OF _ refl, of "[False, True, False, False, False]"]
  by (simp add: poison_ok_def demo_downloader_def HedgeErrorThreshold_def recordHedgeError_def
      recordHedgeSuccess_def Let_def)

end
