(* ===== verification/Limiters.thy ===== *)
theory Limiters
  imports GoPrelude
begin

text \<open>
  The two limiters of internal/surge/transport: the token bucket of rate_limiter.go with the
  composition of multi_limiter.go, and the per-host penalties of ratelimit.go.

  Times are nanoseconds. One iteration of the loop of \<open>WaitN\<close> runs under the mutex and is one
  step; the wait between two iterations, which a timer, a rate change or the context ends, is
  outside. \<open>bits.Mul64\<close> and \<open>bits.Div64\<close> work on the exact 128-bit product; \<open>bits.Div64\<close>
  panics when the quotient does not fit (\<open>None\<close>). The random jitter of a penalty and the clock
  that \<open>cleanupLocked\<close> reads are arguments.
\<close>

section \<open>The token bucket\<close>

record rate_limiter =
  rate :: int
  tokens :: int
  bucketSize :: int
  lastRefill :: int

definition two64 :: int where
  "two64 = 18446744073709551616"

definition NewRateLimiter :: "int \<Rightarrow> int \<Rightarrow> int \<Rightarrow> rate_limiter" where
  "NewRateLimiter r b now =
     (let b' = (if b < 0 then 0 else b)
      in \<lparr>rate = r, tokens = b', bucketSize = b', lastRefill = now\<rparr>)"

definition refill :: "int \<Rightarrow> int \<Rightarrow> rate_limiter \<Rightarrow> rate_limiter" where
  "refill bucketCap now r =
     (if lastRefill r = zero_time then r\<lparr>lastRefill := now\<rparr>
      else let elapsed = time_sub now (lastRefill r)
           in if elapsed > 0
              then let product = elapsed * rate r
                   in if product div two64 \<ge> second
                      then r\<lparr>tokens := bucketCap, lastRefill := now\<rparr>
                      else let add = product div second
                           in if add > 0
                              then r\<lparr>tokens := (let tk = (if add > max_i64 then max_i64
                                                          else add64 (tokens r) add)
                                                in if tk > bucketCap then bucketCap else tk),
                                     lastRefill := now\<rparr>
                              else r
              else r)"

datatype wait_result = Unlimited | Granted | WaitFor int

text \<open>One iteration of \<open>WaitN\<close> for \<open>n > 0\<close> bytes.\<close>

definition wait_iter ::
  "bool \<Rightarrow> int \<Rightarrow> int \<Rightarrow> rate_limiter \<Rightarrow> (wait_result \<times> rate_limiter) option" where
  "wait_iter firstLoop n now r =
     (if rate r \<le> 0 then Some (Unlimited, r)
      else let bucketCap = (if \<not> firstLoop \<and> bucketSize r < n then n else bucketSize r);
               r1 = refill bucketCap now r;
               r2 = (if tokens r1 > bucketCap then r1\<lparr>tokens := bucketCap\<rparr> else r1)
           in if tokens r2 \<ge> n then Some (Granted, r2\<lparr>tokens := sub64 (tokens r2) n\<rparr>)
              else let missing = sub64 n (tokens r2);
                       product = (missing mod two64) * second
                   in if product div two64 \<ge> rate r2 then None
                      else let w = product div rate r2;
                               w' = (if product mod rate r2 > 0 then w + 1 else w)
                           in Some (WaitFor (if w' > max_i64 then max_i64 else w'), r2))"

definition SetRate :: "int \<Rightarrow> int \<Rightarrow> int \<Rightarrow> rate_limiter \<Rightarrow> rate_limiter" where
  "SetRate newRate newBucket now r =
     (let b = (if newBucket < 0 then 0 else newBucket);
          elapsed = time_sub now (lastRefill r);
          product = elapsed * rate r;
          settled = (if lastRefill r \<noteq> zero_time \<and> rate r > 0 \<and> elapsed > 0
                     then if product div two64 \<ge> second then bucketSize r
                          else let add = product div second
                               in if add > 0
                                  then if add > max_i64 then max_i64 else add64 (tokens r) add
                                  else tokens r
                     else tokens r)
      in \<lparr>rate = newRate,
          tokens = (if newRate = 0 then 0 else if settled > b then b else settled),
          bucketSize = b, lastRefill = now\<rparr>)"

definition Refund :: "int \<Rightarrow> rate_limiter \<Rightarrow> rate_limiter" where
  "Refund n r =
     (if n \<le> 0 then r
      else if rate r \<le> 0 then r
      else let tk = add64 (tokens r) n
           in r\<lparr>tokens := (if tk > bucketSize r then bucketSize r else tk)\<rparr>)"

text \<open>
  \<open>MultiLimiter.WaitN\<close>: \<open>outcomes\<close> gives for every limiter the state in which its \<open>WaitN\<close>
  returned and whether it failed; the limiters before a failed one get their bytes back.
\<close>

fun multi_wait ::
  "int \<Rightarrow> (rate_limiter \<times> bool) list \<Rightarrow> rate_limiter list \<Rightarrow> rate_limiter list \<Rightarrow>
   bool \<times> rate_limiter list" where
  "multi_wait n ((r, failed) # os) done (l # ls) =
     (if failed then (False, map (Refund n) done @ r # ls)
      else multi_wait n os (done @ [r]) ls)"
| "multi_wait n _ done ls = (True, done @ ls)"

section \<open>Host penalties\<close>

record host_penalty =
  hp_until :: int
  hp_consecutive :: int
  hp_lastHit :: int

type_synonym host_limiter = "string \<rightharpoonup> host_penalty"

definition RateLimitBaseBackoff :: int where
  "RateLimitBaseBackoff = second"

definition RateLimitMaxBackoff :: int where
  "RateLimitMaxBackoff = 30 * second"

definition RateLimitMinBackoff :: int where
  "RateLimitMinBackoff = 500000000"

definition RateLimitPenaltyDecay :: int where
  "RateLimitPenaltyDecay = 60 * second"

lemmas backoff_defs = RateLimitBaseBackoff_def RateLimitMaxBackoff_def RateLimitMinBackoff_def
  RateLimitPenaltyDecay_def second_def

text \<open>Go's \<open>int64(1) << k\<close>.\<close>

definition shl64 :: "int \<Rightarrow> int" where
  "shl64 k = (if k < 64 then wrap64 (2 ^ nat k) else 0)"

definition clamp_backoff :: "int \<Rightarrow> int" where
  "clamp_backoff d =
     (let d1 = (if d < RateLimitMinBackoff then RateLimitMinBackoff else d)
      in if d1 > RateLimitMaxBackoff then RateLimitMaxBackoff else d1)"

definition nominal_backoff :: "int \<Rightarrow> bool \<Rightarrow> int \<Rightarrow> int" where
  "nominal_backoff retryAfter explicit consecutive =
     clamp_backoff (if explicit then retryAfter
                    else mul64 RateLimitBaseBackoff (shl64 (consecutive - 1)))"

definition cleanupLocked :: "int \<Rightarrow> host_limiter \<Rightarrow> host_limiter" where
  "cleanupLocked clock h =
     (\<lambda>host. case h host of
        None \<Rightarrow> None
      | Some p \<Rightarrow> if clock > hp_until p \<and> time_sub clock (hp_lastHit p) > RateLimitPenaltyDecay
                  then None else Some p)"

definition Penalize ::
  "string \<Rightarrow> int \<Rightarrow> bool \<Rightarrow> int \<Rightarrow> int \<Rightarrow> int \<Rightarrow> host_limiter \<Rightarrow> int \<times> host_limiter" where
  "Penalize host retryAfter explicit now jitter clock h =
     (let p = (case h host of
                 None \<Rightarrow> \<lparr>hp_until = zero_time, hp_consecutive = 0, hp_lastHit = zero_time\<rparr>
               | Some p \<Rightarrow> p);
          c0 = (if time_sub now (hp_lastHit p) > RateLimitPenaltyDecay then 0 else hp_consecutive p);
          c = add64 c0 1;
          d = clamp_backoff (nominal_backoff retryAfter explicit c + jitter);
          deadline = now + d;
          p' = \<lparr>hp_until = (if deadline > hp_until p then deadline else hp_until p),
                hp_consecutive = c, hp_lastHit = now\<rparr>
      in (hp_until p', cleanupLocked clock (h(host \<mapsto> p'))))"

definition BlockedUntil :: "string \<Rightarrow> int \<Rightarrow> host_limiter \<Rightarrow> int" where
  "BlockedUntil host now h =
     (case h host of
        None \<Rightarrow> zero_time
      | Some p \<Rightarrow> if now < hp_until p then hp_until p else zero_time)"

definition recordSuccess :: "string \<Rightarrow> int \<Rightarrow> host_limiter \<Rightarrow> host_limiter" where
  "recordSuccess host now h =
     (case h host of
        None \<Rightarrow> h(host := None)
      | Some p \<Rightarrow> if \<not> now < hp_until p then h(host := None) else h)"

text \<open>The scan of \<open>PickMirror\<close> over the rotated hosts: the first free one, or the earliest.\<close>

fun pick_scan ::
  "host_limiter \<Rightarrow> int \<Rightarrow> (nat \<times> string) list \<Rightarrow> (nat \<times> int) option \<Rightarrow> (nat \<times> int option)" where
  "pick_scan h now [] best =
     (case best of None \<Rightarrow> (0, Some zero_time) | Some (i, t) \<Rightarrow> (i, Some t))"
| "pick_scan h now ((i, host) # xs) best =
     (case h host of
        None \<Rightarrow> (i, None)
      | Some p \<Rightarrow>
          if now > hp_until p then (i, None)
          else pick_scan h now xs
                 (case best of
                    None \<Rightarrow> Some (i, hp_until p)
                  | Some (j, t) \<Rightarrow> if hp_until p < t then Some (i, hp_until p) else best))"

definition PickMirror :: "string list \<Rightarrow> nat \<Rightarrow> int \<Rightarrow> host_limiter \<Rightarrow> nat \<times> int" where
  "PickMirror hosts startIdx now h =
     (if hosts = [] then (0, 0)
      else let n = length hosts;
               order = map (\<lambda>i. ((startIdx + i) mod n, hosts ! ((startIdx + i) mod n))) [0..<n]
           in case pick_scan h now order None of
                (i, None) \<Rightarrow> (i, 0)
              | (i, Some t) \<Rightarrow> (i, max (time_sub t now) 0))"

section \<open>The bucket never grants more than it earns\<close>

definition rl_ok :: "rate_limiter \<Rightarrow> bool" where
  "rl_ok r \<longleftrightarrow> 0 < rate r \<and> rate r \<le> max_i64 \<and> in_i64 (tokens r) \<and>
     0 \<le> bucketSize r \<and> bucketSize r \<le> max_i64 \<and> zero_time \<le> lastRefill r"

lemma wrap64_le: "min_i64 \<le> x \<Longrightarrow> wrap64 x \<le> x"
proof -
  assume "min_i64 \<le> x"
  then have "0 \<le> x + 9223372036854775808" by (simp add: min_i64_def)
  then have "(x + 9223372036854775808) mod 18446744073709551616 \<le> x + 9223372036854775808"
    by (rule zmod_le_nonneg_dividend)
  then show ?thesis by (simp add: wrap64_def)
qed

lemma refill_budget:
  assumes ok: "rl_ok r" and cap: "0 \<le> cap" "cap \<le> max_i64" and now: "lastRefill r \<le> now"
  defines "r' \<equiv> refill cap now r"
  shows "rl_ok r'" and "rate r' = rate r" and "bucketSize r' = bucketSize r"
    and "lastRefill r \<le> lastRefill r'" and "lastRefill r' \<le> now"
    and "max 0 (tokens r') * second \<le> max 0 (tokens r) * second + rate r * (lastRefill r' - lastRefill r)"
proof -
  define el where "el = time_sub now (lastRefill r)"
  define pr where "pr = el * rate r"
  have el: "el \<le> now - lastRefill r" using now by (simp add: el_def time_sub_def min_i64_def)
  then have prle: "pr \<le> (now - lastRefill r) * rate r"
    unfolding pr_def using ok by (intro mult_right_mono) (auto simp: rl_ok_def)
  have tk: "min_i64 \<le> tokens r" "tokens r \<le> max_i64" using ok by (auto simp: rl_ok_def in_i64_def)
  show fields: "rate r' = rate r" "bucketSize r' = bucketSize r"
    by (simp_all add: r'_def refill_def Let_def)
  consider (idle) "r' = r" | (first) "r' = r\<lparr>lastRefill := now\<rparr>"
    | (sat) "r' = r\<lparr>tokens := cap, lastRefill := now\<rparr>" "pr div two64 \<ge> second"
    | (add) "r' = r\<lparr>tokens := min cap (if pr div second > max_i64 then max_i64
                 else add64 (tokens r) (pr div second)), lastRefill := now\<rparr>" "pr div second > 0"
  proof -
    note d = r'_def refill_def Let_def el_def[symmetric] pr_def[symmetric]
    show thesis
    proof (cases "lastRefill r = zero_time")
      case True
      then show thesis using first by (simp add: r'_def refill_def)
    next
      case z: False
      show thesis
      proof (cases "el > 0")
        case False
        with z show thesis using idle by (simp add: d)
      next
        case e: True
        show thesis
        proof (cases "pr div two64 \<ge> second")
          case True
          with z e show thesis using sat by (simp add: d)
        next
          case h: False
          show thesis
          proof (cases "pr div second > 0")
            case False
            with z e h show thesis using idle by (simp add: d)
          next
            case True
            define v where "v = (if pr div second > max_i64 then max_i64 else add64 (tokens r) (pr div second))"
            have "r' = r\<lparr>tokens := (if v > cap then cap else v), lastRefill := now\<rparr>"
              using z e h True by (simp add: d v_def)
            then have "r' = r\<lparr>tokens := min cap v, lastRefill := now\<rparr>" by (simp add: min_def not_le[symmetric])
            then show thesis using add True by (simp add: v_def)
          qed
        qed
      qed
    qed
  qed
  then have "rl_ok r' \<and> lastRefill r \<le> lastRefill r' \<and> lastRefill r' \<le> now \<and>
      max 0 (tokens r') * second \<le> max 0 (tokens r) * second + rate r * (lastRefill r' - lastRefill r)"
  proof cases
    case idle
    then show ?thesis using ok now by simp
  next
    case first
    have "0 \<le> rate r * (now - lastRefill r)" using ok now by (simp add: rl_ok_def)
    then show ?thesis using first ok now by (simp add: rl_ok_def)
  next
    case sat
    have "second * two64 \<le> pr" using sat(2) by (simp add: two64_def second_def)
    then have "second * two64 \<le> rate r * (now - lastRefill r)" using prle by (simp add: mult.commute)
    moreover have "cap * second \<le> two64 * second"
      using cap by (intro mult_right_mono) (auto simp: two64_def max_i64_def second_def)
    moreover have "0 \<le> max 0 (tokens r) * second" by (simp add: second_def)
    ultimately have "max 0 cap * second \<le> max 0 (tokens r) * second + rate r * (now - lastRefill r)"
      using cap(1) by (simp add: mult.commute)
    then show ?thesis using sat(1) ok cap now by (auto simp: rl_ok_def in_i64_def min_i64_def)
  next
    case add
    define a where "a = pr div second"
    define tk' where "tk' = (if a > max_i64 then max_i64 else add64 (tokens r) a)"
    have a0: "0 < a" using add by (simp add: a_def)
    have le: "tk' \<le> max 0 (tokens r) + a"
      using tk a0 wrap64_le[of "tokens r + a"] by (auto simp: tk'_def)
    have i: "in_i64 tk'"
    proof (cases "a > max_i64")
      case True
      then show ?thesis by (simp add: tk'_def in_i64_def min_i64_def max_i64_def)
    next
      case False
      then show ?thesis unfolding tk'_def by (simp only: if_False in_i64_wrap64)
    qed
    have "a * second \<le> pr" by (simp add: a_def second_def)
    moreover have "max 0 (min cap tk') * second \<le> (max 0 (tokens r) + a) * second"
      using le a0 by (intro mult_right_mono) (auto simp: second_def)
    ultimately have "max 0 (min cap tk') * second \<le> max 0 (tokens r) * second + rate r * (now - lastRefill r)"
      using prle distrib_right[of "max 0 (tokens r)" a second]
        mult.commute[of "now - lastRefill r" "rate r"] by linarith
    moreover have "in_i64 (min cap tk')" using i cap by (auto simp: in_i64_def min_i64_def)
    moreover have "r' = r\<lparr>tokens := min cap tk', lastRefill := now\<rparr>"
      using add(1) by (simp only: tk'_def a_def)
    ultimately show ?thesis using ok now by (simp add: rl_ok_def)
  qed
  then show "rl_ok r'" and "lastRefill r \<le> lastRefill r'" and "lastRefill r' \<le> now"
    and "max 0 (tokens r') * second \<le> max 0 (tokens r) * second + rate r * (lastRefill r' - lastRefill r)"
    by blast+
qed

text \<open>A run of iterations: whether each is a first one, the bytes it asks for and its time.\<close>

fun bucket_run :: "(bool \<times> int \<times> int) list \<Rightarrow> rate_limiter \<Rightarrow> (int \<times> rate_limiter) option" where
  "bucket_run [] r = Some (0, r)"
| "bucket_run ((firstLoop, n, now) # ops) r =
     (case wait_iter firstLoop n now r of
        None \<Rightarrow> None
      | Some (res, r1) \<Rightarrow>
          (case bucket_run ops r1 of
             None \<Rightarrow> None
           | Some (g, r2) \<Rightarrow> Some ((if res = Granted then n else 0) + g, r2)))"

fun times_from :: "int \<Rightarrow> (bool \<times> int \<times> int) list \<Rightarrow> bool" where
  "times_from t [] \<longleftrightarrow> True"
| "times_from t ((_, n, now) # ops) \<longleftrightarrow> t \<le> now \<and> 0 < n \<and> n \<le> max_i64 \<and> times_from now ops"

lemma times_from_mono: "times_from t ops \<Longrightarrow> t' \<le> t \<Longrightarrow> times_from t' ops"
  by (cases ops) auto

definition refilled :: "int \<Rightarrow> int \<Rightarrow> rate_limiter \<Rightarrow> rate_limiter" where
  "refilled cap now r =
     (let r1 = refill cap now r in if tokens r1 > cap then r1\<lparr>tokens := cap\<rparr> else r1)"

lemma wait_iter_eq:
  assumes "0 < rate r" and "cap = (if \<not> firstLoop \<and> bucketSize r < n then n else bucketSize r)"
    and "r2 = refilled cap now r" and "p = (sub64 n (tokens r2) mod two64) * second"
  shows "wait_iter firstLoop n now r =
    (if tokens r2 \<ge> n then Some (Granted, r2\<lparr>tokens := sub64 (tokens r2) n\<rparr>)
     else if p div two64 \<ge> rate r2 then None
     else Some (WaitFor (if (if p mod rate r2 > 0 then p div rate r2 + 1 else p div rate r2) > max_i64
                         then max_i64
                         else (if p mod rate r2 > 0 then p div rate r2 + 1 else p div rate r2)), r2))"
proof -
  have r0: "(rate r \<le> 0) = False" using assms(1) by simp
  show ?thesis
    unfolding wait_iter_def assms(4) assms(3) refilled_def assms(2) Let_def r0 if_False by (rule refl)
qed

lemma wait_iter_budget:
  assumes ok: "rl_ok r" and n: "0 < n" "n \<le> max_i64" and now: "lastRefill r \<le> now"
    and it: "wait_iter firstLoop n now r = Some (res, r')"
  shows "rl_ok r'" and "rate r' = rate r" and "lastRefill r \<le> lastRefill r'" and "lastRefill r' \<le> now"
    and "((if res = Granted then n else 0) + max 0 (tokens r')) * second
      \<le> max 0 (tokens r) * second + rate r * (lastRefill r' - lastRefill r)"
proof -
  define cap where "cap = (if \<not> firstLoop \<and> bucketSize r < n then n else bucketSize r)"
  have cap: "0 \<le> cap" "cap \<le> max_i64" using ok n by (auto simp: cap_def rl_ok_def)
  note rf = refill_budget[OF ok cap now]
  define r1 where "r1 = refill cap now r"
  define r2 where "r2 = refilled cap now r"
  have r2: "r2 = (if tokens r1 > cap then r1\<lparr>tokens := cap\<rparr> else r1)"
    by (simp add: r2_def refilled_def r1_def Let_def)
  have ok2: "rl_ok r2" using rf(1) cap by (auto simp: r2 r1_def rl_ok_def in_i64_def min_i64_def)
  have f2: "rate r2 = rate r" "lastRefill r2 = lastRefill r1" "max 0 (tokens r2) \<le> max 0 (tokens r1)"
    using rf(2) cap by (auto simp: r2 r1_def)
  have b2: "max 0 (tokens r2) * second \<le> max 0 (tokens r) * second + rate r * (lastRefill r1 - lastRefill r)"
    using f2(3) rf(6) by (simp add: r1_def second_def)
  have r0: "0 < rate r" using ok by (simp add: rl_ok_def)
  note eq = wait_iter_eq[OF r0 cap_def r2_def refl]
  have "res = Granted \<and> n \<le> tokens r2 \<and> r' = r2\<lparr>tokens := tokens r2 - n\<rparr> \<or> res \<noteq> Granted \<and> r' = r2"
  proof (cases "tokens r2 \<ge> n")
    case True
    then have "sub64 (tokens r2) n = tokens r2 - n"
      using n ok2 by (intro wrap64_id) (simp add: rl_ok_def in_i64_def min_i64_def)
    then show ?thesis using it True by (simp add: eq)
  next
    case False
    then show ?thesis using it by (auto simp: eq split: if_splits)
  qed
  then show "rl_ok r'" "rate r' = rate r" "lastRefill r \<le> lastRefill r'" "lastRefill r' \<le> now"
    "((if res = Granted then n else 0) + max 0 (tokens r')) * second
      \<le> max 0 (tokens r) * second + rate r * (lastRefill r' - lastRefill r)"
    using ok2 f2 b2 rf(4,5) n by (auto simp: rl_ok_def in_i64_def min_i64_def r1_def)
qed

lemma bucket_run_bound:
  "rl_ok r \<Longrightarrow> times_from (lastRefill r) ops \<Longrightarrow> bucket_run ops r = Some (g, r') \<Longrightarrow>
    rl_ok r' \<and> rate r' = rate r \<and> lastRefill r \<le> lastRefill r' \<and>
    (g + max 0 (tokens r')) * second \<le> max 0 (tokens r) * second + rate r * (lastRefill r' - lastRefill r)"
proof (induction ops arbitrary: r g)
  case Nil
  then show ?case by simp
next
  case (Cons op ops)
  obtain f n now where op: "op = (f, n, now)" by (metis prod_cases3)
  obtain res r1 where it: "wait_iter f n now r = Some (res, r1)"
    using Cons.prems(3) by (auto simp: op split: option.splits)
  obtain g1 where g1: "bucket_run ops r1 = Some (g1, r')" "g = (if res = Granted then n else 0) + g1"
    using Cons.prems(3) it by (auto simp: op split: option.splits)
  have n: "0 < n" "n \<le> max_i64" "lastRefill r \<le> now" "times_from now ops"
    using Cons.prems(2) by (auto simp: op)
  note w = wait_iter_budget[OF Cons.prems(1) n(1-3) it]
  have ih: "rl_ok r' \<and> rate r' = rate r1 \<and> lastRefill r1 \<le> lastRefill r' \<and>
    (g1 + max 0 (tokens r')) * second \<le> max 0 (tokens r1) * second + rate r1 * (lastRefill r' - lastRefill r1)"
    using Cons.IH[OF w(1) times_from_mono[OF n(4) w(4)] g1(1)] .
  have "rate r * (lastRefill r' - lastRefill r)
      = rate r * (lastRefill r' - lastRefill r1) + rate r * (lastRefill r1 - lastRefill r)"
    by (simp add: algebra_simps)
  then show ?case
    using ih w(2,3,5) g1(2) by (simp add: distrib_right)
qed

section \<open>A wait is long enough\<close>

lemma ceil_wait:
  assumes "0 < (r::int)" and "w = (if p mod r > 0 then p div r + 1 else p div r)"
  shows "p \<le> w * r"
proof -
  have eq: "p = p div r * r + p mod r" "p mod r < r" "0 \<le> p mod r" using assms(1) by simp_all
  show ?thesis
  proof (cases "p mod r > 0")
    case True
    then have "w * r = p div r * r + r" using assms(2) by (simp add: distrib_right)
    then show ?thesis using eq by linarith
  next
    case False
    then have "w * r = p div r * r" using assms(2) by simp
    then show ?thesis using eq False by linarith
  qed
qed

lemma wait_suffices:
  assumes ok: "rl_ok r" and tk: "0 \<le> tokens r" and n: "0 < n" "n \<le> max_i64 div 2"
    and caps: "bucketSize r \<le> max_i64 div 2" and pos: "zero_time < lastRefill r" "lastRefill r \<le> now"
    and it: "wait_iter firstLoop n now r = Some (WaitFor w, r1)" and w: "w < max_i64"
    and r1: "0 \<le> tokens r1"
    and now2: "now + w \<le> now2" "now2 - lastRefill r1 \<le> max_i64"
    and small: "rate r * (now2 - lastRefill r1) \<le> (max_i64 div 2) * second"
  shows "\<exists>r2. wait_iter False n now2 r1 = Some (Granted, r2)"
proof -
  define cap where "cap = (if \<not> firstLoop \<and> bucketSize r < n then n else bucketSize r)"
  define cap2 where "cap2 = (if bucketSize r < n then n else bucketSize r)"
  have cap: "0 \<le> cap" "cap \<le> max_i64" "cap \<le> cap2" "n \<le> cap2" "cap2 \<le> max_i64 div 2"
    using ok n caps by (auto simp: cap_def cap2_def rl_ok_def max_i64_def)
  note wb = wait_iter_budget[OF ok n(1) _ pos(2) it]
  have nm: "n \<le> max_i64" using n by (simp add: max_i64_def)
  have r0: "0 < rate r" using ok by (simp add: rl_ok_def)
  define q1 where "q1 = refill cap now r"
  define q2 where "q2 = refilled cap now r"
  have q2: "q2 = (if tokens q1 > cap then q1\<lparr>tokens := cap\<rparr> else q1)"
    by (simp add: q2_def refilled_def q1_def Let_def)
  have q: "r1 = q2" "tokens r1 < n"
    "w = (if ((sub64 n (tokens q2)) mod two64 * second) mod rate q2 > 0
          then ((sub64 n (tokens q2)) mod two64 * second) div rate q2 + 1
          else ((sub64 n (tokens q2)) mod two64 * second) div rate q2)"
    using it w unfolding wait_iter_eq[OF r0 cap_def q2_def refl] by (auto split: if_splits)
  have tcap: "tokens r1 \<le> cap" by (simp add: q(1) q2)
  have f: "rate q2 = rate r" "bucketSize q2 = bucketSize r" "lastRefill q2 = lastRefill q1"
    using refill_budget(2,3)[OF ok cap(1,2) pos(2)] by (auto simp: q2 q1_def)
  define m where "m = n - tokens r1"
  have m: "0 < m" "m \<le> max_i64 div 2" using q(2) r1 n by (auto simp: m_def)
  have "sub64 n (tokens q2) = m" using q(1) r1 n m by (simp add: m_def max_i64_def)
  moreover have "m mod two64 = m" using m by (simp add: two64_def max_i64_def)
  ultimately have "w = (if (m * second) mod rate r > 0 then (m * second) div rate r + 1 else (m * second) div rate r)"
    using q(3) f(1) by simp
  from ceil_wait[OF r0 this] have enough: "m * second \<le> w * rate r" .
  have lr: "lastRefill r1 \<le> now" "lastRefill r \<le> lastRefill r1" using wb(3,4) nm by auto
  define el where "el = now2 - lastRefill r1"
  have w0: "0 < w"
  proof (rule ccontr)
    assume "\<not> 0 < w"
    then have "w * rate r \<le> 0" using r0 by (simp add: mult_le_0_iff)
    then show False using enough m by (simp add: second_def)
  qed
  have el: "w \<le> el" "el \<le> max_i64" "time_sub now2 (lastRefill r1) = el"
    using now2 lr w0 by (auto simp: el_def time_sub_def min_i64_def)
  have prod: "m * second \<le> el * rate r"
    using enough mult_right_mono[OF el(1), of "rate r"] r0 by linarith
  have up: "el * rate r \<le> (max_i64 div 2) * second" using small by (simp add: el_def mult.commute)
  define a where "a = el * rate r div second"
  have a: "m \<le> a" "a \<le> max_i64 div 2"
    using zdiv_mono1[OF prod, of second] zdiv_mono1[OF up, of second] by (simp_all add: a_def second_def)
  have hi: "el * rate r div two64 < second"
  proof -
    have "el * rate r div two64 \<le> (max_i64 div 2) * second div two64"
      by (rule zdiv_mono1[OF up]) (simp add: two64_def)
    also have "\<dots> < second" by (simp add: max_i64_def two64_def second_def)
    finally show ?thesis .
  qed
  have sum: "add64 (tokens r1) a = tokens r1 + a"
    using a m r1 tcap cap by (intro wrap64_id) (simp add: max_i64_def)
  have nz: "lastRefill r1 \<noteq> zero_time" using pos lr by simp
  have rr: "rate r1 = rate r" using q(1) f(1) by simp
  define t2 where "t2 = min cap2 (tokens r1 + a)"
  have rf: "refill cap2 now2 r1 = r1\<lparr>tokens := t2, lastRefill := now2\<rparr>"
    using nz el w0 hi a m sum unfolding refill_def t2_def min_def
    by (simp add: Let_def rr a_def[symmetric] max_i64_def)
  have t2: "n \<le> t2" "t2 \<le> cap2" using cap(4) a m by (auto simp: t2_def m_def)
  have "cap2 = (if \<not> False \<and> bucketSize r1 < n then n else bucketSize r1)"
    using q(1) f(2) by (simp add: cap2_def)
  moreover define r2 where "r2 = r1\<lparr>tokens := t2, lastRefill := now2\<rparr>"
  moreover have "r2 = refilled cap2 now2 r1"
    using rf t2(2) by (simp add: refilled_def r2_def)
  moreover have "0 < rate r1" "n \<le> tokens r2" using r0 rr t2(1) by (simp_all add: r2_def)
  ultimately have "wait_iter False n now2 r1 = Some (Granted, r2\<lparr>tokens := sub64 (tokens r2) n\<rparr>)"
    using wait_iter_eq[of r1 cap2 False n r2 now2, OF _ _ _ refl] by simp
  then show ?thesis by blast
qed

section \<open>Host penalties\<close>

lemma clamp_backoff_bounds:
  "RateLimitMinBackoff \<le> clamp_backoff d \<and> clamp_backoff d \<le> RateLimitMaxBackoff"
  by (auto simp: clamp_backoff_def backoff_defs Let_def)

lemma Penalize_ok:
  assumes p: "Penalize host ra explicit now jitter clock h = (u, h')" and c: "clock \<le> now"
  shows "now + RateLimitMinBackoff \<le> u"
    and "u \<le> max (case h host of None \<Rightarrow> zero_time | Some q \<Rightarrow> hp_until q) (now + RateLimitMaxBackoff)"
    and "case h host of None \<Rightarrow> True | Some q \<Rightarrow> hp_until q \<le> u"
    and "\<exists>q. h' host = Some q \<and> hp_until q = u \<and> hp_lastHit q = now"
proof -
  define q where "q = (case h host of
      None \<Rightarrow> \<lparr>hp_until = zero_time, hp_consecutive = 0, hp_lastHit = zero_time\<rparr> | Some p \<Rightarrow> p)"
  define cc where "cc = add64 (if time_sub now (hp_lastHit q) > RateLimitPenaltyDecay then 0 else hp_consecutive q) 1"
  define d where "d = clamp_backoff (nominal_backoff ra explicit cc + jitter)"
  define q' where "q' = \<lparr>hp_until = (if now + d > hp_until q then now + d else hp_until q),
      hp_consecutive = cc, hp_lastHit = now\<rparr>"
  have r: "u = hp_until q'" "h' = cleanupLocked clock (h(host \<mapsto> q'))"
    using p unfolding Penalize_def Let_def q_def[symmetric] cc_def[symmetric] d_def[symmetric]
      q'_def[symmetric] by simp_all
  have d: "RateLimitMinBackoff \<le> d" "d \<le> RateLimitMaxBackoff"
    using clamp_backoff_bounds by (auto simp: d_def)
  have q: "hp_until q = (case h host of None \<Rightarrow> zero_time | Some q \<Rightarrow> hp_until q)"
    by (simp add: q_def split: option.splits)
  show "now + RateLimitMinBackoff \<le> u" using d by (simp add: r q'_def)
  show "u \<le> max (case h host of None \<Rightarrow> zero_time | Some q \<Rightarrow> hp_until q) (now + RateLimitMaxBackoff)"
    unfolding q[symmetric] using d by (simp add: r q'_def max_def)
  show "case h host of None \<Rightarrow> True | Some q \<Rightarrow> hp_until q \<le> u"
    using q by (auto simp: r q'_def split: option.splits)
  have "\<not> clock > hp_until q'" using c d by (simp add: q'_def backoff_defs)
  then show "\<exists>q. h' host = Some q \<and> hp_until q = u \<and> hp_lastHit q = now"
    by (simp add: r cleanupLocked_def) (simp add: q'_def)
qed

text \<open>What \<open>PickMirror\<close> promises: a mirror that is free, or the one that is free soonest.\<close>

definition host_free :: "host_limiter \<Rightarrow> int \<Rightarrow> string \<Rightarrow> bool" where
  "host_free h now host \<longleftrightarrow> (case h host of None \<Rightarrow> True | Some p \<Rightarrow> now > hp_until p)"

definition host_deadline :: "host_limiter \<Rightarrow> string \<Rightarrow> int" where
  "host_deadline h host = (case h host of None \<Rightarrow> zero_time | Some p \<Rightarrow> hp_until p)"

lemma pick_scan_ok:
  assumes "best = None \<or> (\<exists>j t. best = Some (j, t))" and "pick_scan h now xs best = (k, res)"
    and "xs \<noteq> [] \<or> best \<noteq> None"
  shows "case res of
      None \<Rightarrow> (\<exists>host. (k, host) \<in> set xs \<and> host_free h now host)
    | Some t \<Rightarrow> (\<forall>(i, host) \<in> set xs. \<not> host_free h now host \<and> t \<le> host_deadline h host) \<and>
        (case best of None \<Rightarrow> True | Some (j, t') \<Rightarrow> t \<le> t') \<and>
        (best = Some (k, t) \<or> (\<exists>host. (k, host) \<in> set xs \<and> t = host_deadline h host))"
  using assms
proof (induction xs arbitrary: best)
  case Nil
  then show ?case by auto
next
  case (Cons x xs)
  obtain i host where x: "x = (i, host)" by fastforce
  show ?case
  proof (cases "host_free h now host")
    case True
    then have "k = i" "res = None"
      using Cons.prems(2) by (auto simp: x host_free_def split: option.splits if_splits)
    then show ?thesis using True by (auto simp: x)
  next
    case False
    then obtain p where p: "h host = Some p" "\<not> now > hp_until p"
      by (auto simp: host_free_def split: option.splits)
    define b where "b = (case best of None \<Rightarrow> Some (i, hp_until p)
        | Some (j, t) \<Rightarrow> if hp_until p < t then Some (i, hp_until p) else best)"
    have s: "pick_scan h now xs b = (k, res)" using Cons.prems(2) p by (simp add: x b_def)
    have bn: "b \<noteq> None" "b = None \<or> (\<exists>j t. b = Some (j, t))" by (auto simp: b_def split: option.splits)
    note ih = Cons.IH[OF bn(2) s disjI2[OF bn(1)]]
    show ?thesis
    proof (cases res)
      case None
      then show ?thesis using ih by (auto simp: x)
    next
      case (Some t)
      then show ?thesis
        using ih False p Cons.prems(1)
        by (auto simp: x b_def host_deadline_def split: option.splits if_splits)
    qed
  qed
qed

lemma rotation_covers:
  assumes "hosts \<noteq> []"
  shows "set (map (\<lambda>i. ((s + i) mod length hosts, hosts ! ((s + i) mod length hosts))) [0..<length hosts])
    = {(i, hosts ! i) | i. i < length hosts}"
proof -
  let ?n = "length hosts"
  have n: "0 < ?n" using assms by simp
  have "\<exists>i < ?n. j = (s + i) mod ?n" if "j < ?n" for j
  proof -
    define i where "i = (j + ?n - s mod ?n) mod ?n"
    have "(s + i) mod ?n = (s mod ?n + (j + ?n - s mod ?n)) mod ?n"
      by (simp add: i_def mod_simps)
    also have "s mod ?n + (j + ?n - s mod ?n) = j + ?n" using n by (simp add: le_add_diff_inverse trans_le_add2 less_imp_le)
    finally have "(s + i) mod ?n = j" using that by simp
    moreover have "i < ?n" using n by (simp add: i_def)
    ultimately show ?thesis by metis
  qed
  then show ?thesis using n by (fastforce simp: image_def)
qed

lemma PickMirror_ok:
  assumes "hosts \<noteq> []" and "PickMirror hosts s now h = (k, wait)"
  shows "k < length hosts"
    and "(\<exists>x \<in> set hosts. host_free h now x) \<Longrightarrow> wait = 0 \<and> host_free h now (hosts ! k)"
    and "\<not> (\<exists>x \<in> set hosts. host_free h now x) \<Longrightarrow>
      (\<forall>x \<in> set hosts. host_deadline h (hosts ! k) \<le> host_deadline h x) \<and>
      wait = max (time_sub (host_deadline h (hosts ! k)) now) 0"
proof -
  let ?xs = "map (\<lambda>i. ((s + i) mod length hosts, hosts ! ((s + i) mod length hosts))) [0..<length hosts]"
  obtain k' res where ps: "pick_scan h now ?xs None = (k', res)" by fastforce
  have ne: "?xs \<noteq> [] \<or> (None :: (nat \<times> int) option) \<noteq> None" using assms(1) by simp
  note sc = pick_scan_ok[OF disjI1[OF refl] ps ne, unfolded rotation_covers[OF assms(1)]]
  have r: "k = k'" "wait = (case res of None \<Rightarrow> 0 | Some t \<Rightarrow> max (time_sub t now) 0)"
    using assms ps by (auto simp: PickMirror_def Let_def split: option.splits)
  show "k < length hosts" using sc r(1) by (cases res) auto
  show "(\<exists>x \<in> set hosts. host_free h now x) \<Longrightarrow> wait = 0 \<and> host_free h now (hosts ! k)"
    using sc r by (cases res) (auto simp: in_set_conv_nth)
  show "\<not> (\<exists>x \<in> set hosts. host_free h now x) \<Longrightarrow>
      (\<forall>x \<in> set hosts. host_deadline h (hosts ! k) \<le> host_deadline h x) \<and>
      wait = max (time_sub (host_deadline h (hosts ! k)) now) 0"
  proof (cases res)
    case None
    then have "host_free h now (hosts ! k)" "hosts ! k \<in> set hosts" using sc r(1) by auto
    moreover assume "\<not> (\<exists>x \<in> set hosts. host_free h now x)"
    ultimately show ?thesis by blast
  next
    case (Some t)
    then show ?thesis using sc r by (auto simp: in_set_conv_nth)
  qed
qed

section \<open>Properties\<close>

text \<open>C9: whatever calls arrive at whatever times, the bytes that a token bucket of fixed rate has
  granted never exceed what it held at the start plus its rate times the time that was credited;
  rounding, the burst extension to the requested size and the overflow guards only lose tokens.\<close>

theorem bucket_never_overspends:
  assumes "rl_ok r" and "times_from (lastRefill r) ops" and "bucket_run ops r = Some (g, r')"
  shows "(g + max 0 (tokens r')) * second
      \<le> max 0 (tokens r) * second + rate r * (lastRefill r' - lastRefill r) \<and>
    rate r' = rate r \<and> rl_ok r'"
  using bucket_run_bound[OF assms] by blast

theorem bucket_never_overspends_witness:
  "bucket_run [(True, 60, 0), (True, 60, 0), (False, 60, 2000000000)] (NewRateLimiter 10 100 0)
    = Some (120, \<lparr>rate = 10, tokens = 0, bucketSize = 100, lastRefill = 2000000000\<rparr>)"
proof -
  have r: "bucket_run [(True, 60, 0), (True, 60, 0), (False, 60, 2000000000)] (NewRateLimiter 10 100 0)
    = Some (120, \<lparr>rate = 10, tokens = 0, bucketSize = 100, lastRefill = 2000000000\<rparr>)"
    by (simp add: NewRateLimiter_def wait_iter_def refill_def time_sub_def zero_time_def second_def
        two64_def min_i64_def max_i64_def wrap64_def Let_def)
  from bucket_never_overspends[OF _ _ r] show ?thesis
    using r by (simp add: rl_ok_def NewRateLimiter_def zero_time_def in_i64_def min_i64_def max_i64_def)
qed

text \<open>The wait that \<open>WaitN\<close> computes is long enough: when nothing else touches the bucket, the
  iteration after it grants the request, so a caller does not wait twice.\<close>

theorem wait_is_sufficient:
  assumes "rl_ok r" and "0 \<le> tokens r" and "0 < n" and "n \<le> max_i64 div 2"
    and "bucketSize r \<le> max_i64 div 2" and "zero_time < lastRefill r" and "lastRefill r \<le> now"
    and "wait_iter firstLoop n now r = Some (WaitFor w, r1)" and "w < max_i64" and "0 \<le> tokens r1"
    and "now + w \<le> now2" and "now2 - lastRefill r1 \<le> max_i64"
    and "rate r * (now2 - lastRefill r1) \<le> (max_i64 div 2) * second"
  shows "\<exists>r2. wait_iter False n now2 r1 = Some (Granted, r2)"
  by (rule wait_suffices[OF assms])

theorem wait_is_sufficient_witness:
  "\<exists>r2. wait_iter False 60 2000000000 \<lparr>rate = 10, tokens = 40, bucketSize = 100, lastRefill = 0\<rparr>
    = Some (Granted, r2)"
proof (rule wait_is_sufficient)
  show "wait_iter True 60 0 \<lparr>rate = 10, tokens = 40, bucketSize = 100, lastRefill = 0\<rparr> =
      Some (WaitFor 2000000000, \<lparr>rate = 10, tokens = 40, bucketSize = 100, lastRefill = 0\<rparr>)"
    by (simp add: wait_iter_def refill_def time_sub_def zero_time_def second_def
        two64_def min_i64_def max_i64_def wrap64_def Let_def)
qed (simp_all add: rl_ok_def zero_time_def in_i64_def min_i64_def max_i64_def second_def)

text \<open>A penalty blocks its host for at least the minimum backoff and at most the maximum, never
  shortens a block that is already in force, and survives the cleanup that follows it.\<close>

theorem penalty_bounds:
  assumes "Penalize host ra explicit now jitter clock h = (u, h')" and "clock \<le> now"
  shows "now + RateLimitMinBackoff \<le> u \<and>
    u \<le> max (host_deadline h host) (now + RateLimitMaxBackoff) \<and>
    (h host \<noteq> None \<longrightarrow> host_deadline h host \<le> u) \<and>
    BlockedUntil host now h' = u"
proof -
  note p = Penalize_ok[OF assms]
  from p(4) obtain q where q: "h' host = Some q" "hp_until q = u" by auto
  have "now < u" using p(1) by (simp add: backoff_defs)
  then show ?thesis
    using p(1-3) q by (auto simp: BlockedUntil_def host_deadline_def split: option.splits)
qed

theorem penalty_bounds_witness:
  "BlockedUntil ''h'' 0 (snd (Penalize ''h'' 0 False 0 0 0 Map.empty)) = 1000000000"
proof -
  obtain u h' where p: "Penalize ''h'' 0 False 0 0 0 Map.empty = (u, h')" by fastforce
  have "BlockedUntil ''h'' 0 h' = u" using penalty_bounds[OF p] by simp
  moreover have "fst (Penalize ''h'' 0 False 0 0 0 Map.empty) = 1000000000"
  proof -
    have n: "nominal_backoff 0 False 1 = second"
      by (simp add: nominal_backoff_def clamp_backoff_def shl64_def backoff_defs wrap64_def Let_def)
    have t: "time_sub 0 zero_time > RateLimitPenaltyDecay"
      by (simp add: zero_time_def time_sub_def min_i64_def max_i64_def backoff_defs)
    have w: "wrap64 1 = 1" by (simp add: wrap64_def)
    have c: "clamp_backoff second = second" by (simp add: clamp_backoff_def backoff_defs Let_def)
    have z: "second > zero_time" "second = 1000000000" by (simp_all add: second_def zero_time_def)
    show ?thesis by (simp only: Penalize_def Let_def option.case map_upd_Some_unfold fst_conv
          host_penalty.simps t if_True add_0 w n add_0_right c z(1)) (simp add: z(2))
  qed
  ultimately show ?thesis using p by simp
qed

text \<open>\<open>PickMirror\<close> takes a mirror that is not blocked whenever there is one, without waiting;
  otherwise the mirror whose block ends first, with the time until then.\<close>

theorem pick_mirror_best:
  assumes "hosts \<noteq> []" and "PickMirror hosts s now h = (k, wait)"
  shows "k < length hosts \<and>
    ((\<exists>x \<in> set hosts. host_free h now x) \<longrightarrow> wait = 0 \<and> host_free h now (hosts ! k)) \<and>
    (\<not> (\<exists>x \<in> set hosts. host_free h now x) \<longrightarrow>
      (\<forall>x \<in> set hosts. host_deadline h (hosts ! k) \<le> host_deadline h x) \<and>
      wait = max (time_sub (host_deadline h (hosts ! k)) now) 0)"
  using PickMirror_ok[OF assms] by blast

theorem pick_mirror_best_witness:
  "PickMirror [''a'', ''b''] 1 5 [''b'' \<mapsto> \<lparr>hp_until = 9, hp_consecutive = 1, hp_lastHit = 0\<rparr>] = (0, 0)"
proof -
  let ?h = "[''b'' \<mapsto> \<lparr>hp_until = 9, hp_consecutive = 1, hp_lastHit = 0\<rparr>]"
  obtain k w where p: "PickMirror [''a'', ''b''] 1 5 ?h = (k, w)" by fastforce
  from pick_mirror_best[OF _ p] have "w = 0 \<and> host_free ?h 5 ([''a'', ''b''] ! k) \<and> k < 2"
    by (simp add: host_free_def)
  then have "w = 0" "k = 0" by (auto simp: host_free_def less_Suc_eq numeral_2_eq_2)
  then show ?thesis using p by simp
qed

definition backoff_table :: "nat \<Rightarrow> int" where
  "backoff_table n =
     (if n < 5 then 2 ^ n * second
      else if n < 34 \<or> n \<in> {37, 41, 42, 45, 47, 50, 51, 53} then RateLimitMaxBackoff
      else RateLimitMinBackoff)"

lemma backoff_low: "list_all (\<lambda>n. nominal_backoff 0 False (int n + 1) = backoff_table n) [0..<64]"
  by code_simp

lemma backoff_high: "64 \<le> n \<Longrightarrow> nominal_backoff 0 False (int n + 1) = backoff_table n"
  by (simp add: nominal_backoff_def shl64_def clamp_backoff_def backoff_defs backoff_table_def wrap64_def Let_def)

text \<open>C10: The implicit backoff of every consecutive penalty. It doubles from one second, and is the maximum of thirty
  seconds from the sixth to the 34th penalty. Then the product overflows: the 38th, 42nd, 43rd, 46th, 48th, 51st, 52nd and 54th
  wrap to a large positive number and still get the maximum, every other penalty from the 35th on wraps to a negative number or to zero and
  falls back to the minimum of half a second.\<close>

theorem implicit_backoff_values:
  "nominal_backoff 0 False (int n + 1) =
     (if n < 5 then 2 ^ n * second
      else if n < 34 \<or> n \<in> {37, 41, 42, 45, 47, 50, 51, 53} then RateLimitMaxBackoff
      else RateLimitMinBackoff)"
proof (cases "n < 64")
  case True
  then show ?thesis using backoff_low by (simp add: list_all_iff backoff_table_def)
next
  case False
  then show ?thesis using backoff_high[of n] by (simp only: not_less backoff_table_def)
qed
end
