(* ===== verification/ReorderWindow.thy ===== *)
theory ReorderWindow
  imports GoPrelude
begin

unbundle bit_operations_syntax

text \<open>
  The reorder window of the HLS strategy (internal/surge/strategy/hls/reorder.go) and its spill
  arena (spill.go): segments that arrive in any order become one ordered output file.

  Every method holds the window's mutex, so a call is one step. Files are byte lists. The answers
  of the file system are a list of outcomes in the state, consumed in order and taken to be
  successes when it is exhausted: a write may fail after any prefix of its bytes, the kernel copy
  may stop early or be unsupported, a truncate or an open may fail. \<open>writeFull\<close> and the portable
  copy loop over short writes, so their result is one outcome. Maps with integer keys are
  association lists with distinct keys, since the code counts and sorts their entries.
\<close>

section \<open>Packed bits\<close>

text \<open>What the window needs of its bitmap.\<close>

locale bitset =
  fixes get :: "'b \<Rightarrow> int \<Rightarrow> bool"
    and set1 :: "'b \<Rightarrow> int \<Rightarrow> 'b"
    and clear1 :: "'b \<Rightarrow> int \<Rightarrow> 'b"
    and cap :: "'b \<Rightarrow> int"
  assumes get_set: "0 \<le> i \<Longrightarrow> i < cap b \<Longrightarrow> 0 \<le> j \<Longrightarrow> j < cap b \<Longrightarrow> get (set1 b i) j = (i = j \<or> get b j)"
    and get_clear: "0 \<le> i \<Longrightarrow> i < cap b \<Longrightarrow> 0 \<le> j \<Longrightarrow> j < cap b \<Longrightarrow>
      get (clear1 b i) j = (i \<noteq> j \<and> get b j)"
    and cap_set: "cap (set1 b i) = cap b"
    and cap_clear: "cap (clear1 b i) = cap b"
begin

lemma get_clear_range:
  "\<forall>i \<in> set is. 0 \<le> i \<and> i < cap b \<Longrightarrow> 0 \<le> j \<Longrightarrow> j < cap b \<Longrightarrow>
    get (foldl clear1 b is) j = (j \<notin> set is \<and> get b j) \<and> cap (foldl clear1 b is) = cap b"
  by (induction "is" arbitrary: b) (auto simp: get_clear cap_clear)

lemma get_set_range:
  "\<forall>i \<in> set is. 0 \<le> i \<and> i < cap b \<Longrightarrow> 0 \<le> j \<Longrightarrow> j < cap b \<Longrightarrow>
    get (foldl set1 b is) j = (j \<in> set is \<or> get b j) \<and> cap (foldl set1 b is) = cap b"
  by (induction "is" arbitrary: b) (auto simp: get_set cap_set)

end

definition hasBit :: "8 word list \<Rightarrow> int \<Rightarrow> bool" where
  "hasBit bm i \<longleftrightarrow> nat i div 8 < length bm \<and> bit (bm ! (nat i div 8)) (nat i mod 8)"

definition setBit :: "8 word list \<Rightarrow> int \<Rightarrow> 8 word list" where
  "setBit bm i = bm[nat i div 8 := (bm ! (nat i div 8)) OR push_bit (nat i mod 8) 1]"

definition clearBit :: "8 word list \<Rightarrow> int \<Rightarrow> 8 word list" where
  "clearBit bm i = bm[nat i div 8 := (bm ! (nat i div 8)) AND NOT (push_bit (nat i mod 8) 1)]"

definition bit_capacity :: "8 word list \<Rightarrow> int" where
  "bit_capacity bm = 8 * int (length bm)"

lemma byte_bit:
  fixes w :: "8 word"
  assumes "m < 8" and "k < 8"
  shows "bit (w OR push_bit m 1) k = (k = m \<or> bit w k)"
    and "bit (w AND NOT (push_bit m 1)) k = (k \<noteq> m \<and> bit w k)"
  using assms by (auto simp: bit_simps)

lemma same_bit_index:
  "0 \<le> i \<Longrightarrow> 0 \<le> j \<Longrightarrow> nat i div 8 = nat j div 8 \<Longrightarrow> nat i mod 8 = nat j mod 8 \<longleftrightarrow> i = j"
proof -
  assume ij: "0 \<le> i" "0 \<le> j" and d: "nat i div 8 = nat j div 8"
  have "nat i mod 8 = nat j mod 8 \<longleftrightarrow> nat i = nat j"
    using d div_mult_mod_eq[of "nat i" 8] div_mult_mod_eq[of "nat j" 8] by auto
  then show ?thesis using ij by (simp add: eq_nat_nat_iff)
qed

lemma hasBit_update:
  assumes "0 \<le> i" "i < bit_capacity b" "0 \<le> j" "j < bit_capacity b"
  shows "hasBit (b[nat i div 8 := w]) j
    = (if nat i div 8 = nat j div 8 then bit w (nat j mod 8) else hasBit b j)"
  using assms
  by (cases "nat i div 8 = nat j div 8") (auto simp: hasBit_def bit_capacity_def nth_list_update)

lemma hasBit_setBit:
  assumes "0 \<le> i" "i < bit_capacity b" "0 \<le> j" "j < bit_capacity b"
  shows "hasBit (setBit b i) j = (i = j \<or> hasBit b j)"
    and "hasBit (clearBit b i) j = (i \<noteq> j \<and> hasBit b j)"
proof -
  have r: "nat j div 8 < length b" using assms by (simp add: bit_capacity_def)
  have m: "nat i mod 8 < 8" "nat j mod 8 < 8" by simp_all
  have h: "hasBit b j \<longleftrightarrow> bit (b ! (nat j div 8)) (nat j mod 8)" using r by (simp add: hasBit_def)
  consider (other) "nat i div 8 \<noteq> nat j div 8" "i \<noteq> j"
    | (eq) "nat i div 8 = nat j div 8" "nat j mod 8 = nat i mod 8" "i = j"
    | (ne) "nat i div 8 = nat j div 8" "nat j mod 8 \<noteq> nat i mod 8" "i \<noteq> j"
    using same_bit_index[OF assms(1,3)] by metis
  note cases3 = this
  show "hasBit (setBit b i) j = (i = j \<or> hasBit b j)"
    unfolding setBit_def hasBit_update[OF assms] byte_bit(1)[OF m]
    by (rule cases3) (simp_all only: if_True if_False simp_thms h)
  show "hasBit (clearBit b i) j = (i \<noteq> j \<and> hasBit b j)"
    unfolding clearBit_def hasBit_update[OF assms] byte_bit(2)[OF m]
    by (rule cases3) (simp_all only: if_True if_False simp_thms h)
qed

interpretation packed: bitset hasBit setBit clearBit bit_capacity
proof (unfold_locales, goal_cases)
  case (1 i b j)
  then show ?case by (rule hasBit_setBit(1))
next
  case (2 i b j)
  then show ?case by (rule hasBit_setBit(2))
qed (simp_all add: setBit_def clearBit_def bit_capacity_def)

section \<open>Files\<close>

type_synonym bytes = "8 word list"

datatype io = IoOk | IoFail nat | IoUnsupported nat | IoShort nat

text \<open>The file after writing \<open>p\<close> at \<open>off\<close>; a hole is filled with zeros.\<close>

definition splice :: "bytes \<Rightarrow> nat \<Rightarrow> bytes \<Rightarrow> bytes" where
  "splice f off p =
     (if p = [] then f
      else take off f @ replicate (off - length f) 0 @ p @ drop (off + length p) f)"

datatype window_error =
    WindowClosed | IndexOutOfRange int | EmptyPayload int | OffsetOverflow | StorageError string

record spill_entry =
  SegmentIndex :: int
  sp_Offset :: int
  sp_Length :: int

record ingest_result =
  Accepted :: bool
  Duplicate :: bool
  Direct :: bool
  Buffered :: bool
  Spilled :: bool

definition no_result :: ingest_result where
  "no_result = \<lparr>Accepted = False, Duplicate = False, Direct = False, Buffered = False, Spilled = False\<rparr>"

record window =
  w_out :: bytes
  w_total :: int
  mergedSegs :: int
  merged :: int
  verified_bytes :: int
  pending :: "(int \<times> bytes) list"
  pendingBytes :: int
  w_bitmap :: bytes
  w_closed :: bool
  storeErr :: "window_error option"
  a_open :: bool
  a_disk :: "bytes option"
  a_tail :: int
  a_entries :: "(int \<times> spill_entry) list"
  rangeCopyDown :: bool
  w_io :: "io list"

definition reorderPendingSegmentMax :: int where
  "reorderPendingSegmentMax = 16"

definition reorderPendingBytesMax :: int where
  "reorderPendingBytesMax = 33554432"

definition drop_key :: "int \<Rightarrow> (int \<times> 'v) list \<Rightarrow> (int \<times> 'v) list" where
  "drop_key k xs = filter (\<lambda>(j, _). j \<noteq> k) xs"

definition next_io :: "window \<Rightarrow> io \<times> window" where
  "next_io w = (case w_io w of [] \<Rightarrow> (IoOk, w) | i # is \<Rightarrow> (i, w\<lparr>w_io := is\<rparr>))"

section \<open>The spill arena\<close>

text \<open>Opening (\<open>O_EXCL\<close>: an existing file is refused), seeking to the tail, writing in full.\<close>

definition spill_open :: "window \<Rightarrow> window_error option \<times> window" where
  "spill_open w =
     (if a_open w then (None, w)
      else case next_io w of
        (IoFail _, w1) \<Rightarrow> (Some (StorageError ''spill create''), w1)
      | (_, w1) \<Rightarrow>
          (if a_disk w1 \<noteq> None then (Some (StorageError ''spill create''), w1)
           else (None, w1\<lparr>a_open := True, a_disk := Some []\<rparr>)))"

definition spill_write :: "int \<Rightarrow> bytes \<Rightarrow> window \<Rightarrow> (window_error + spill_entry) \<times> window" where
  "spill_write index payload w =
     (if int (length payload) > max_i64 - a_tail w then (Inl (StorageError ''spill append''), w)
      else case next_io w of
        (IoFail k, w1) \<Rightarrow>
          (Inl (StorageError ''spill append''),
           w1\<lparr>a_disk := map_option (\<lambda>d. splice d (nat (a_tail w)) (take k payload)) (a_disk w)\<rparr>)
      | (_, w1) \<Rightarrow>
          (let e = \<lparr>SegmentIndex = index, sp_Offset = a_tail w, sp_Length = int (length payload)\<rparr>
           in (Inr e,
               w1\<lparr>a_disk := map_option (\<lambda>d. splice d (nat (a_tail w)) payload) (a_disk w),
                  a_entries := (index, e) # drop_key index (a_entries w),
                  a_tail := a_tail w + sp_Length e\<rparr>)))"

definition spill_append :: "int \<Rightarrow> bytes \<Rightarrow> window \<Rightarrow> (window_error + spill_entry) \<times> window" where
  "spill_append index payload w =
     (case spill_open w of
        (Some e, w1) \<Rightarrow> (Inl e, w1)
      | (None, w1) \<Rightarrow> spill_write index payload w1)"

text \<open>\<open>replayEntry\<close>: the kernel copy first, the portable copy for what it left.\<close>

definition arena_slice :: "window \<Rightarrow> spill_entry \<Rightarrow> bytes" where
  "arena_slice w e =
     take (nat (sp_Length e)) (drop (nat (sp_Offset e)) (case a_disk w of Some d \<Rightarrow> d | None \<Rightarrow> []))"

definition replay_portable :: "int \<Rightarrow> spill_entry \<Rightarrow> nat \<Rightarrow> window \<Rightarrow> window_error option \<times> window" where
  "replay_portable dstOff e done w =
     (let rest = drop done (arena_slice w e) in
      case next_io w of
        (IoFail k, w1) \<Rightarrow>
          (Some (StorageError ''spill replay''),
           w1\<lparr>w_out := splice (w_out w1) (nat dstOff + done) (take k rest)\<rparr>)
      | (_, w1) \<Rightarrow>
          (if int done + int (length rest) = sp_Length e then None
           else Some (StorageError ''spill replay''),
           w1\<lparr>w_out := splice (w_out w1) (nat dstOff + done) rest\<rparr>))"

definition replayEntry :: "int \<Rightarrow> spill_entry \<Rightarrow> window \<Rightarrow> window_error option \<times> window" where
  "replayEntry dstOff e w =
     (if rangeCopyDown w then replay_portable dstOff e 0 w
      else case next_io w of (r, w1) \<Rightarrow>
        let src = arena_slice w1 e;
            n = (case r of IoOk \<Rightarrow> length src
                 | IoFail k \<Rightarrow> min k (length src)
                 | IoUnsupported k \<Rightarrow> min k (length src)
                 | IoShort k \<Rightarrow> min k (length src));
            w2 = w1\<lparr>w_out := splice (w_out w1) (nat dstOff) (take n src)\<rparr>
        in case r of
             IoFail _ \<Rightarrow> (Some (StorageError ''spill replay''), w2)
           | _ \<Rightarrow>
               (let w3 = (case r of IoUnsupported _ \<Rightarrow> w2\<lparr>rangeCopyDown := True\<rparr> | _ \<Rightarrow> w2)
                in if int n < sp_Length e then replay_portable dstOff e n w3 else (None, w3)))"

definition spill_truncate :: "window \<Rightarrow> window_error option \<times> window" where
  "spill_truncate w =
     (if \<not> a_open w then (None, w)
      else case next_io w of
        (IoFail _, w1) \<Rightarrow> (Some (StorageError ''spill truncate''), w1)
      | (_, w1) \<Rightarrow> (None, w1\<lparr>a_disk := map_option (\<lambda>_. []) (a_disk w1), a_tail := 0\<rparr>))"

definition sortedEntries :: "window \<Rightarrow> spill_entry list" where
  "sortedEntries w = sort_key SegmentIndex (map snd (a_entries w))"

section \<open>The window\<close>

definition writeOut :: "bytes \<Rightarrow> window \<Rightarrow> window_error option \<times> window" where
  "writeOut payload w =
     (case next_io w of
        (IoFail k, w1) \<Rightarrow>
          (Some (StorageError ''output write''),
           w1\<lparr>w_out := splice (w_out w1) (nat (merged w1)) (take k payload)\<rparr>)
      | (_, w1) \<Rightarrow> (None, w1\<lparr>w_out := splice (w_out w1) (nat (merged w1)) payload\<rparr>))"

text \<open>One turn of \<open>drainLocked\<close>: a pending payload, a spilled one, or nothing at the frontier.\<close>

datatype drain_step = DrainMore | DrainDone | DrainFail window_error

definition drain_pending :: "bytes \<Rightarrow> window \<Rightarrow> drain_step \<times> window" where
  "drain_pending payload w =
     (let l = int (length payload); k = mergedSegs w in
      if l > max_i64 - merged w \<or> l > max_i64 - verified_bytes w then (DrainFail OffsetOverflow, w)
      else case writeOut payload w of
        (Some e, w1) \<Rightarrow> (DrainFail e, w1)
      | (None, w1) \<Rightarrow>
          (DrainMore, w1\<lparr>w_bitmap := setBit (w_bitmap w1) k, mergedSegs := k + 1,
                         merged := merged w1 + l, verified_bytes := verified_bytes w1 + l,
                         pendingBytes := pendingBytes w1 - l,
                         pending := drop_key k (pending w1)\<rparr>))"

definition drain_spilled :: "spill_entry \<Rightarrow> window \<Rightarrow> drain_step \<times> window" where
  "drain_spilled e w =
     (if sp_Length e > max_i64 - merged w then (DrainFail OffsetOverflow, w)
      else case replayEntry (merged w) e w of
        (Some err, w1) \<Rightarrow> (DrainFail err, w1)
      | (None, w1) \<Rightarrow>
          (let w2 = w1\<lparr>merged := merged w1 + sp_Length e, mergedSegs := mergedSegs w1 + 1,
                       a_entries := drop_key (SegmentIndex e) (a_entries w1)\<rparr>
           in if a_entries w2 = []
              then case spill_truncate w2 of
                     (Some err, w3) \<Rightarrow> (DrainFail err, w3)
                   | (None, w3) \<Rightarrow> (DrainMore, w3)
              else (DrainMore, w2)))"

definition drain_once :: "window \<Rightarrow> drain_step \<times> window" where
  "drain_once w =
     (case map_of (pending w) (mergedSegs w) of
        Some payload \<Rightarrow> drain_pending payload w
      | None \<Rightarrow>
          (case map_of (a_entries w) (mergedSegs w) of
             Some e \<Rightarrow> drain_spilled e w
           | None \<Rightarrow> (DrainDone, w)))"

text \<open>
  Every turn that goes on removes a pending payload or the entry of the frontier, so as many
  turns as there are retained segments, and one to find nothing, are enough
  (\<open>drain_inv\<close>).
\<close>

fun drain :: "nat \<Rightarrow> window \<Rightarrow> (window_error option \<times> window) option" where
  "drain 0 w = None"
| "drain (Suc fuel) w =
     (case drain_once w of
        (DrainDone, w1) \<Rightarrow> Some (None, w1)
      | (DrainFail e, w1) \<Rightarrow> Some (Some e, w1)
      | (DrainMore, w1) \<Rightarrow> drain fuel w1)"

definition drainLocked :: "window \<Rightarrow> (window_error option \<times> window) option" where
  "drainLocked w = drain (Suc (length (pending w) + length (a_entries w))) w"

definition Ingest ::
  "int \<Rightarrow> bytes \<Rightarrow> window \<Rightarrow> ((ingest_result \<times> window_error option) \<times> window) option" where
  "Ingest index payload w =
     (let l = int (length payload) in
      if w_closed w then Some ((no_result, Some WindowClosed), w)
      else if storeErr w \<noteq> None then Some ((no_result, storeErr w), w)
      else if index < 0 \<or> index \<ge> w_total w then Some ((no_result, Some (IndexOutOfRange index)), w)
      else if payload = [] then Some ((no_result, Some (EmptyPayload index)), w)
      else if hasBit (w_bitmap w) index then Some ((no_result\<lparr>Duplicate := True\<rparr>, None), w)
      else if map_of (pending w) index \<noteq> None then Some ((no_result\<lparr>Duplicate := True\<rparr>, None), w)
      else if index = mergedSegs w then
        (if l > max_i64 - merged w \<or> l > max_i64 - verified_bytes w
         then Some ((no_result, Some OffsetOverflow), w)
         else case writeOut payload w of
           (Some e, w1) \<Rightarrow> Some ((no_result, Some e), w1\<lparr>storeErr := Some e\<rparr>)
         | (None, w1) \<Rightarrow>
             (let w2 = w1\<lparr>w_bitmap := setBit (w_bitmap w1) index, mergedSegs := mergedSegs w1 + 1,
                          merged := merged w1 + l, verified_bytes := verified_bytes w1 + l\<rparr>;
                  res = no_result\<lparr>Accepted := True, Direct := True\<rparr>
              in case drainLocked w2 of
                   None \<Rightarrow> None
                 | Some (None, w3) \<Rightarrow> Some ((res, None), w3)
                 | Some (Some e, w3) \<Rightarrow> Some ((res, Some e), w3\<lparr>storeErr := Some e\<rparr>)))
      else if l \<le> reorderPendingBytesMax - pendingBytes w \<and>
              int (length (pending w)) < reorderPendingSegmentMax then
        Some ((no_result\<lparr>Accepted := True, Buffered := True\<rparr>, None),
              w\<lparr>pending := (index, payload) # pending w, pendingBytes := pendingBytes w + l\<rparr>)
      else if l > max_i64 - verified_bytes w then Some ((no_result, Some OffsetOverflow), w)
      else case spill_append index payload w of
        (Inl e, w1) \<Rightarrow> Some ((no_result, Some e), w1\<lparr>storeErr := Some e\<rparr>)
      | (Inr e, w1) \<Rightarrow>
          Some ((no_result\<lparr>Accepted := True, Spilled := True\<rparr>, None),
                w1\<lparr>w_bitmap := setBit (w_bitmap w1) index,
                   verified_bytes := verified_bytes w1 + sp_Length e\<rparr>))"

text \<open>\<open>FlushPending\<close> walks the retained payloads in index order and stops at the first failure.\<close>

fun flush_loop :: "(int \<times> bytes) list \<Rightarrow> window \<Rightarrow> window_error option \<times> window" where
  "flush_loop [] w = (None, w)"
| "flush_loop ((idx, payload) # rest) w =
     (let l = int (length payload) in
      if l > max_i64 - verified_bytes w then (Some OffsetOverflow, w)
      else case spill_append idx payload w of
        (Inl e, w1) \<Rightarrow> (Some e, w1\<lparr>storeErr := Some e\<rparr>)
      | (Inr e, w1) \<Rightarrow>
          flush_loop rest (w1\<lparr>w_bitmap := setBit (w_bitmap w1) idx,
                              verified_bytes := verified_bytes w1 + sp_Length e,
                              pendingBytes := pendingBytes w1 - l,
                              pending := drop_key idx (pending w1)\<rparr>))"

definition FlushPending :: "window \<Rightarrow> window_error option \<times> window" where
  "FlushPending w =
     (if w_closed w then (Some WindowClosed, w)
      else if storeErr w \<noteq> None then (storeErr w, w)
      else flush_loop (sort_key fst (pending w)) w)"

definition window_Sync :: "window \<Rightarrow> window_error option \<times> window" where
  "window_Sync w =
     (if w_closed w then (Some WindowClosed, w)
      else case next_io w of (r1, w1) \<Rightarrow>
        let e1 = (case r1 of IoFail _ \<Rightarrow> Some (StorageError ''output sync'') | _ \<Rightarrow> None)
        in case (if a_open w1 then next_io w1 else (IoOk, w1)) of (r2, w2) \<Rightarrow>
          let e2 = (case r2 of IoFail _ \<Rightarrow> Some (StorageError ''spill sync'') | _ \<Rightarrow> None);
              e = (if e1 \<noteq> None then e1 else e2)
          in (e, if e \<noteq> None \<and> storeErr w2 = None then w2\<lparr>storeErr := e\<rparr> else w2))"

definition window_Close :: "window \<Rightarrow> window_error option \<times> window" where
  "window_Close w =
     (if w_closed w then (None, w)
      else let w1 = w\<lparr>w_closed := True, pending := [], pendingBytes := 0\<rparr>
           in if \<not> a_open w1 then (None, w1)
              else case next_io (w1\<lparr>a_open := False\<rparr>) of
                     (IoFail _, w2) \<Rightarrow> (Some (StorageError ''spill close''), w2)
                   | (_, w2) \<Rightarrow> (None, w2))"

end
