(* ===== verification/ReorderFacts.thy ===== *)
theory ReorderFacts
  imports ReorderWindow
begin

text \<open>
  What the reorder window promises. \<open>win_inv\<close> relates a window to the payloads it has accepted:
  the merged part of the output is their concatenation in index order, the rest is held once,
  in memory or behind an entry of the arena, and the bitmap and the counters agree with both.
  It survives every operation and every storage fault.
\<close>

section \<open>Files and association lists\<close>

lemma take_splice_below: "k \<le> off \<Longrightarrow> off \<le> length f \<Longrightarrow> take k (splice f off p) = take k f"
  by (simp add: splice_def)

lemma take_splice_exact:
  "off \<le> length f \<Longrightarrow> take (off + length p) (splice f off p) = take off f @ p"
  by (simp add: splice_def)

lemma length_splice: "length f \<le> length (splice f off p)"
  by (auto simp: splice_def min_def)

lemma length_splice_ge: "off \<le> length f \<Longrightarrow> p \<noteq> [] \<Longrightarrow> off + length p \<le> length (splice f off p)"
  by (simp add: splice_def)

lemma set_drop_key: "set (drop_key k xs) = {(j, v) \<in> set xs. j \<noteq> k}"
  by (auto simp: drop_key_def)

lemma keys_drop_key: "fst ` set (drop_key k xs) = fst ` set xs - {k}"
  by (force simp: set_drop_key)

lemma distinct_drop_key: "distinct (map fst xs) \<Longrightarrow> distinct (map fst (drop_key k xs))"
  by (induction xs) (auto simp: drop_key_def)

lemma drop_key_absent: "k \<notin> fst ` set xs \<Longrightarrow> drop_key k xs = xs"
  unfolding drop_key_def by (rule filter_True) force

lemma sum_drop_key:
  "distinct (map fst xs) \<Longrightarrow> map_of xs k = Some v \<Longrightarrow>
    (\<Sum>(j, u)\<leftarrow>drop_key k xs. h u) = (\<Sum>(j, u)\<leftarrow>xs. h u) - (h v :: int)"
proof (induction xs)
  case Nil
  then show ?case by simp
next
  case (Cons x xs)
  obtain j u where x: "x = (j, u)" by fastforce
  show ?case
  proof (cases "j = k")
    case True
    then have "k \<notin> fst ` set xs" using Cons.prems(1) by (simp add: x)
    then have "drop_key k (x # xs) = xs" using True drop_key_absent[of k xs] by (simp add: x drop_key_def)
    then show ?thesis using Cons.prems(2) True by (simp add: x)
  next
    case False
    then have "drop_key k (x # xs) = x # drop_key k xs" by (simp add: x drop_key_def)
    then show ?thesis using Cons False by (simp add: x)
  qed
qed

lemma length_drop_key:
  "map_of xs k = Some v \<Longrightarrow> length (drop_key k xs) < length xs"
proof -
  assume "map_of xs k = Some v"
  then have "(k, v) \<in> set xs" by (rule map_of_SomeD)
  then have "\<exists>x\<in>set xs. \<not> (case x of (j, _) \<Rightarrow> j \<noteq> k)" by force
  then show ?thesis unfolding drop_key_def by (blast intro: length_filter_less)
qed

section \<open>What the file operations may change\<close>

lemma next_io_eq: "next_io w = (r, w1) \<Longrightarrow> \<exists>is. w1 = w\<lparr>w_io := is\<rparr>"
proof (cases "w_io w")
  case Nil
  assume "next_io w = (r, w1)"
  then have "w1 = w\<lparr>w_io := w_io w\<rparr>" using Nil by (simp add: next_io_def)
  then show ?thesis by blast
qed (auto simp: next_io_def)

lemma writeOut_effect:
  assumes wo: "writeOut p w = (r, w1)" and m: "0 \<le> merged w" "merged w \<le> int (length (w_out w))"
  shows "\<exists>f is. w1 = w\<lparr>w_out := f, w_io := is\<rparr> \<and> take (nat (merged w)) f = take (nat (merged w)) (w_out w) \<and>
    length (w_out w) \<le> length f \<and>
    (r = None \<longrightarrow> take (nat (merged w) + length p) f = take (nat (merged w)) (w_out w) @ p)"
proof -
  obtain i w0 where n: "next_io w = (i, w0)" by fastforce
  then obtain "is" where w0: "w0 = w\<lparr>w_io := is\<rparr>" using next_io_eq by blast
  have l: "nat (merged w) \<le> length (w_out w)" using m by simp
  define q where "q = (case i of IoFail k \<Rightarrow> take k p | _ \<Rightarrow> p)"
  have "w1 = w\<lparr>w_out := splice (w_out w) (nat (merged w)) q, w_io := is\<rparr>" "r = None \<Longrightarrow> q = p"
    using wo by (auto simp: writeOut_def n w0 q_def split: io.splits)
  then show ?thesis
    using take_splice_below[OF order.refl l] take_splice_exact[OF l] length_splice by blast
qed

lemma arena_slice_out: "arena_slice (w\<lparr>w_out := f\<rparr>) e = arena_slice w e"
  "arena_slice (w\<lparr>w_io := is\<rparr>) e = arena_slice w e" "arena_slice (w\<lparr>rangeCopyDown := b\<rparr>) e = arena_slice w e"
  by (simp_all add: arena_slice_def)

lemma replay_portable_effect:
  assumes rp: "replay_portable off e n w = (r, w1)" and off: "0 \<le> off"
    and len: "int (length (arena_slice w e)) = sp_Length e" "n \<le> length (arena_slice w e)"
    and m: "nat off + n \<le> length (w_out w)"
  shows "\<exists>f is. w1 = w\<lparr>w_out := f, w_io := is\<rparr> \<and> take (nat off + n) f = take (nat off + n) (w_out w) \<and>
    length (w_out w) \<le> length f \<and>
    (r = None \<longrightarrow> take (nat off + length (arena_slice w e)) f = take (nat off + n) (w_out w) @ drop n (arena_slice w e))"
proof -
  obtain i w0 where nx: "next_io w = (i, w0)" by fastforce
  then obtain "is" where w0: "w0 = w\<lparr>w_io := is\<rparr>" using next_io_eq by blast
  define p where "p = drop n (arena_slice w e)"
  define q where "q = (case i of IoFail k \<Rightarrow> take k p | _ \<Rightarrow> p)"
  have "w1 = w\<lparr>w_out := splice (w_out w) (nat off + n) q, w_io := is\<rparr>" "r = None \<Longrightarrow> q = p"
    using rp by (auto simp: replay_portable_def Let_def nx w0 q_def p_def split: io.splits)
  moreover have "nat off + n + length p = nat off + length (arena_slice w e)" using len by (simp add: p_def)
  ultimately show ?thesis
    using take_splice_below[OF order.refl m] take_splice_exact[OF m, of p] length_splice
    by (metis p_def)
qed

lemma replayEntry_effect:
  assumes re: "replayEntry off e w = (r, w1)" and off: "0 \<le> off"
    and len: "int (length (arena_slice w e)) = sp_Length e" and m: "nat off \<le> length (w_out w)"
  shows "\<exists>f is b. w1 = w\<lparr>w_out := f, w_io := is, rangeCopyDown := b\<rparr> \<and>
    take (nat off) f = take (nat off) (w_out w) \<and> length (w_out w) \<le> length f \<and>
    (r = None \<longrightarrow> take (nat off + length (arena_slice w e)) f = take (nat off) (w_out w) @ arena_slice w e)"
proof (cases "rangeCopyDown w")
  case True
  then have "replay_portable off e 0 w = (r, w1)" using re by (simp add: replayEntry_def)
  from replay_portable_effect[OF this off len] m obtain f "is" where
    f: "w1 = w\<lparr>w_out := f, w_io := is\<rparr>" "take (nat off) f = take (nat off) (w_out w)"
      "length (w_out w) \<le> length f"
      "r = None \<longrightarrow> take (nat off + length (arena_slice w e)) f = take (nat off) (w_out w) @ arena_slice w e"
    by auto
  then have "w1 = w\<lparr>w_out := f, w_io := is, rangeCopyDown := rangeCopyDown w\<rparr>" by simp
  with f show ?thesis by blast
next
  case False
  obtain i w0 where nx: "next_io w = (i, w0)" by fastforce
  then obtain "is" where w0: "w0 = w\<lparr>w_io := is\<rparr>" using next_io_eq by blast
  define src where "src = arena_slice w e"
  define n where "n = (case i of IoOk \<Rightarrow> length src | IoFail k \<Rightarrow> min k (length src)
      | IoUnsupported k \<Rightarrow> min k (length src) | IoShort k \<Rightarrow> min k (length src))"
  define g where "g = splice (w_out w) (nat off) (take n src)"
  define w2 where "w2 = w\<lparr>w_io := is, w_out := g\<rparr>"
  define w3 where "w3 = (case i of IoUnsupported _ \<Rightarrow> w2\<lparr>rangeCopyDown := True\<rparr> | _ \<Rightarrow> w2)"
  have w2: "w2 = w\<lparr>w_out := g, w_io := is, rangeCopyDown := rangeCopyDown w\<rparr>" by (simp add: w2_def)
  define b where "b = (case i of IoUnsupported _ \<Rightarrow> True | _ \<Rightarrow> rangeCopyDown w)"
  have w3: "w3 = w\<lparr>w_out := g, w_io := is, rangeCopyDown := b\<rparr>"
    by (cases i) (simp_all add: w3_def w2_def b_def)
  have n: "n \<le> length src" by (auto simp: n_def split: io.splits)
  have eqs: "arena_slice w3 e = src" "w_out w3 = g"
    by (cases i; simp add: w3_def w2_def arena_slice_def src_def)+
  have g: "take (nat off) g = take (nat off) (w_out w)" "length (w_out w) \<le> length g"
    "take (nat off + n) g = take (nat off) (w_out w) @ take n src"
    using take_splice_below[OF order.refl m] length_splice take_splice_exact[OF m, of "take n src"] n
    by (simp_all add: g_def)
  have gl: "nat off + n \<le> length g"
    using length_splice_ge[OF m, of "take n src"] m n by (cases "take n src = []") (auto simp: g_def splice_def)
  have w0w: "w\<lparr>w_io := is, w_out := splice (w_out w) (nat off) (take n src)\<rparr> = w2"
    by (simp add: w2_def g_def)
  have "r \<noteq> None \<and> w1 = w2 \<or>
      (if int n < sp_Length e then replay_portable off e n w3 = (r, w1) else r = None \<and> w1 = w3)"
    using re False
    unfolding replayEntry_def nx w0 prod.case Let_def arena_slice_out src_def[symmetric]
      n_def[symmetric] if_False window.simps w0w w3_def[symmetric]
    by (cases i) (auto simp: w3_def w0w split: if_splits)
  then consider (fail) "r \<noteq> None" "w1 = w2"
    | (more) "int n < sp_Length e" "replay_portable off e n w3 = (r, w1)"
    | (full) "\<not> int n < sp_Length e" "r = None" "w1 = w3" by (auto split: if_splits)
  then show ?thesis
  proof cases
    case fail
    then show ?thesis using g w2 by blast
  next
    case more
    from replay_portable_effect[OF more(2) off, unfolded eqs, OF len[folded src_def] n gl] obtain f is2 where
      f: "w1 = w3\<lparr>w_out := f, w_io := is2\<rparr>" "take (nat off + n) f = take (nat off + n) g"
        "length g \<le> length f"
        "r = None \<longrightarrow> take (nat off + length src) f = take (nat off + n) g @ drop n src" by blast
    have "take (nat off) f = take (nat off) g"
      using f(2) by (metis le_add1 min.absorb1 take_take)
    moreover have "w1 = w\<lparr>w_out := f, w_io := is2, rangeCopyDown := b\<rparr>"
      unfolding f(1) w3 by simp
    moreover have "r = None \<longrightarrow> take (nat off + length src) f = take (nat off) (w_out w) @ src"
      using f(4) g(3) by simp
    moreover have "take (nat off) f = take (nat off) (w_out w)" using calculation(1) g(1) by simp
    moreover have "length (w_out w) \<le> length f" using f(3) g(2) by simp
    ultimately show ?thesis unfolding src_def by blast
  next
    case full
    then have "n = length src" using n len by (simp add: src_def)
    then show ?thesis using full(2,3) g w3 unfolding src_def by auto
  qed
qed

lemma slice_prefix:
  fixes D d :: bytes
  assumes "take t D = take t d" and "o1 + n \<le> t"
  shows "take n (drop o1 D) = take n (drop o1 d)"
proof -
  have eq: "take n (drop o1 x) = take n (drop o1 (take t x))" for x :: bytes
    using assms(2) by (simp add: drop_take min_def)
  show ?thesis using eq[of D] eq[of d] assms(1) by simp
qed

definition arena_wf :: "window \<Rightarrow> bool" where
  "arena_wf w \<longleftrightarrow> 0 \<le> a_tail w \<and>
     (a_open w \<longrightarrow> (\<exists>d. a_disk w = Some d \<and> a_tail w \<le> int (length d))) \<and>
     (\<not> a_open w \<longrightarrow> a_entries w = [] \<and> a_tail w = 0)"

lemma spill_open_effect:
  assumes "spill_open w = (r, w1)"
  shows "(r \<noteq> None \<and> \<not> a_open w \<and> (\<exists>is. w1 = w\<lparr>w_io := is\<rparr>)) \<or> (r = None \<and> a_open w \<and> w1 = w) \<or>
    (r = None \<and> \<not> a_open w \<and> (\<exists>is. w1 = w\<lparr>w_io := is, a_open := True, a_disk := Some []\<rparr>))"
proof (cases "a_open w")
  case True
  then show ?thesis using assms by (auto simp: spill_open_def)
next
  case False
  obtain i w0 where nx: "next_io w = (i, w0)" by fastforce
  then obtain "is" where w0: "w0 = w\<lparr>w_io := is\<rparr>" using next_io_eq by blast
  show ?thesis
    using assms False
    by (cases i; cases "a_disk w") (auto simp: spill_open_def nx w0)
qed

definition arena_bytes :: "window \<Rightarrow> bytes" where
  "arena_bytes w = (case a_disk w of Some d \<Rightarrow> d | None \<Rightarrow> [])"

text \<open>A failed append changes at most what lies behind the tail.\<close>

lemma spill_write_effect:
  assumes sw: "spill_write k p w = (r, w1)" and p: "p \<noteq> []"
    and d: "a_disk w = Some d" "a_tail w \<le> int (length d)" "0 \<le> a_tail w"
  shows "\<exists>is D. take (nat (a_tail w)) D = take (nat (a_tail w)) d \<and> length d \<le> length D \<and>
    (case r of
       Inl _ \<Rightarrow> w1 = w\<lparr>w_io := is, a_disk := Some D\<rparr>
     | Inr e \<Rightarrow> e = \<lparr>SegmentIndex = k, sp_Offset = a_tail w, sp_Length = int (length p)\<rparr> \<and>
         w1 = w\<lparr>w_io := is, a_disk := Some D, a_entries := (k, e) # drop_key k (a_entries w),
                a_tail := a_tail w + int (length p)\<rparr> \<and>
         a_tail w + int (length p) \<le> int (length D) \<and>
         take (length p) (drop (nat (a_tail w)) D) = p)"
proof -
  let ?t = "nat (a_tail w)"
  have t: "?t \<le> length d" using d by simp
  obtain i w0 where nx: "next_io w = (i, w0)" by fastforce
  then obtain "is" where w0: "w0 = w\<lparr>w_io := is\<rparr>" using next_io_eq by blast
  show ?thesis
  proof (cases "int (length p) > max_i64 - a_tail w")
    case True
    then have "r = Inl (StorageError ''spill append'')" "w1 = w\<lparr>w_io := w_io w, a_disk := Some d\<rparr>"
      using sw d(1) by (auto simp: spill_write_def)
    then show ?thesis by (intro exI[of _ "w_io w"] exI[of _ d]) simp
  next
    case False
    show ?thesis
    proof (cases "\<exists>k. i = IoFail k")
      case True
      then obtain m where m: "i = IoFail m" by blast
      then have "r = Inl (StorageError ''spill append'')"
        "w1 = w\<lparr>w_io := is, a_disk := Some (splice d ?t (take m p))\<rparr>"
        using sw d(1) False by (auto simp: spill_write_def nx w0)
      then show ?thesis
        using take_splice_below[OF order.refl t] length_splice
        by (intro exI[of _ "is"] exI[of _ "splice d ?t (take m p)"]) simp
    next
      case ok: False
      define e where "e = \<lparr>SegmentIndex = k, sp_Offset = a_tail w, sp_Length = int (length p)\<rparr>"
      have "spill_write k p w = (Inr e, w\<lparr>w_io := is, a_disk := Some (splice d ?t p),
          a_entries := (k, e) # drop_key k (a_entries w), a_tail := a_tail w + int (length p)\<rparr>)"
        using ok by (cases i) (simp_all add: spill_write_def nx w0 e_def False d(1) Let_def)
      then have "r = Inr e" "w1 = w\<lparr>w_io := is, a_disk := Some (splice d ?t p),
          a_entries := (k, e) # drop_key k (a_entries w), a_tail := a_tail w + int (length p)\<rparr>"
        unfolding sw by blast+
      moreover have "take (length p) (drop ?t (splice d ?t p)) = p"
        using p t by (simp add: splice_def)
      moreover have "a_tail w + int (length p) \<le> int (length (splice d ?t p))"
        using length_splice_ge[OF t p] d(3) by linarith
      ultimately have "case r of Inl _ \<Rightarrow> w1 = w\<lparr>w_io := is, a_disk := Some (splice d ?t p)\<rparr>
       | Inr e \<Rightarrow> e = \<lparr>SegmentIndex = k, sp_Offset = a_tail w, sp_Length = int (length p)\<rparr> \<and>
         w1 = w\<lparr>w_io := is, a_disk := Some (splice d ?t p), a_entries := (k, e) # drop_key k (a_entries w),
                a_tail := a_tail w + int (length p)\<rparr> \<and>
         a_tail w + int (length p) \<le> int (length (splice d ?t p)) \<and>
         take (length p) (drop ?t (splice d ?t p)) = p"
        unfolding \<open>r = Inr e\<close> sum.case by (intro conjI) (rule e_def, assumption+)
      then show ?thesis using take_splice_below[OF order.refl t] length_splice by blast
    qed
  qed
qed

lemma spill_append_effect:
  assumes sa: "spill_append k p w = (r, w1)" and wf: "arena_wf w" and p: "p \<noteq> []"
  shows "\<exists>is o1 D. take (nat (a_tail w)) (arena_bytes w1) = take (nat (a_tail w)) (arena_bytes w) \<and>
    arena_wf w1 \<and>
    (case r of
       Inl _ \<Rightarrow> w1 = w\<lparr>w_io := is, a_open := o1, a_disk := D\<rparr>
     | Inr e \<Rightarrow> e = \<lparr>SegmentIndex = k, sp_Offset = a_tail w, sp_Length = int (length p)\<rparr> \<and>
         w1 = w\<lparr>w_io := is, a_open := True, a_disk := D, a_entries := (k, e) # drop_key k (a_entries w),
                a_tail := a_tail w + int (length p)\<rparr> \<and> arena_slice w1 e = p)"
proof -
  obtain ro w2 where so: "spill_open w = (ro, w2)" by fastforce
  show ?thesis
  proof (cases ro)
    case (Some e)
    then obtain "is" where i: "w2 = w\<lparr>w_io := is\<rparr>" using spill_open_effect[OF so] by auto
    have i2: "w\<lparr>w_io := is\<rparr> = w\<lparr>w_io := is, a_open := a_open w, a_disk := a_disk w\<rparr>"
      by (cases w) simp
    have "(Inl e, w2) = (r, w1)" using sa unfolding spill_append_def so Some by simp
    then have "r = Inl e" "w1 = w\<lparr>w_io := is, a_open := a_open w, a_disk := a_disk w\<rparr>"
      unfolding trans[OF i i2] by blast+
    then show ?thesis using wf
      by (intro exI[of _ "is"] exI[of _ "a_open w"] exI[of _ "a_disk w"])
        (simp add: arena_wf_def arena_bytes_def)
  next
    case None
    then have sw: "spill_write k p w2 = (r, w1)" using sa so by (simp add: spill_append_def)
    obtain is0 d where w2: "w2 = w\<lparr>w_io := is0, a_open := True, a_disk := Some d\<rparr>"
      "a_tail w \<le> int (length d)" "take (nat (a_tail w)) d = take (nat (a_tail w)) (arena_bytes w)"
    proof (cases "a_open w")
      case True
      then have "w2 = w" using spill_open_effect[OF so] None by auto
      moreover obtain d where "a_disk w = Some d" "a_tail w \<le> int (length d)"
        using wf True by (auto simp: arena_wf_def)
      moreover from this True have "w = w\<lparr>w_io := w_io w, a_open := True, a_disk := Some d\<rparr>" by simp
      ultimately show thesis using that[of d "w_io w"] by (simp add: arena_bytes_def)
    next
      case False
      then obtain "is" where "w2 = w\<lparr>w_io := is, a_open := True, a_disk := Some []\<rparr>"
        using spill_open_effect[OF so] None by auto
      moreover have "a_tail w = 0" using wf False by (simp add: arena_wf_def)
      ultimately show thesis using that[of "[]" "is"] by simp
    qed
    have t0: "0 \<le> a_tail w" using wf by (simp add: arena_wf_def)
    have w2f: "a_disk w2 = Some d" "a_tail w2 \<le> int (length d)" "0 \<le> a_tail w2" "a_tail w2 = a_tail w"
      "a_entries w2 = a_entries w"
      using w2 t0 by simp_all
    obtain "is" D where
      D: "take (nat (a_tail w)) D = take (nat (a_tail w)) d" "length d \<le> length D"
      "case r of
         Inl _ \<Rightarrow> w1 = w2\<lparr>w_io := is, a_disk := Some D\<rparr>
       | Inr e \<Rightarrow> e = \<lparr>SegmentIndex = k, sp_Offset = a_tail w, sp_Length = int (length p)\<rparr> \<and>
           w1 = w2\<lparr>w_io := is, a_disk := Some D, a_entries := (k, e) # drop_key k (a_entries w),
                  a_tail := a_tail w + int (length p)\<rparr> \<and>
           a_tail w + int (length p) \<le> int (length D) \<and>
           take (length p) (drop (nat (a_tail w)) D) = p"
      using spill_write_effect[OF sw p w2f(1-3)] unfolding w2f(4,5) by blast
    show ?thesis
    proof (cases r)
      case (Inl e)
      then have "w1 = w\<lparr>w_io := is, a_open := True, a_disk := Some D\<rparr>" using D(3) w2(1) by simp
      then show ?thesis using Inl D(1,2) w2(2,3) t0
        by (intro exI[of _ "is"] exI[of _ True] exI[of _ "Some D"])
          (simp add: arena_wf_def arena_bytes_def)
    next
      case (Inr e)
      then have e: "e = \<lparr>SegmentIndex = k, sp_Offset = a_tail w, sp_Length = int (length p)\<rparr>"
        "w1 = w\<lparr>w_io := is, a_open := True, a_disk := Some D, a_entries := (k, e) # drop_key k (a_entries w),
            a_tail := a_tail w + int (length p)\<rparr>"
        "a_tail w + int (length p) \<le> int (length D)"
        "take (length p) (drop (nat (a_tail w)) D) = p" using D(3) w2(1) by simp_all
      then show ?thesis using Inr D(1,2) w2(2,3) t0
        by (intro exI[of _ "is"] exI[of _ True] exI[of _ "Some D"])
          (simp add: arena_wf_def arena_bytes_def arena_slice_def)
    qed
  qed
qed

end
