(* ===== verification/ReorderInvariant.thy ===== *)
theory ReorderInvariant
  imports ReorderFacts
begin

text \<open>
  The invariant of the reorder window, field by field, and its preservation: each turn of the drain,
  \<open>Ingest\<close> on every branch, \<open>FlushPending\<close> and \<open>Sync\<close>, with every answer of the file system.
\<close>

section \<open>The invariant, field by field\<close>

text \<open>
  \<open>P\<close> is the output the window started from, \<open>m0\<close> its first segment and \<open>acc\<close> the payloads
  accepted so far. The merged part of the output is the image of the accepted prefix.
\<close>

definition merged_image :: "bytes \<Rightarrow> int \<Rightarrow> (int \<Rightarrow> bytes option) \<Rightarrow> int \<Rightarrow> bytes" where
  "merged_image P m0 acc k = P @ concat (map (\<lambda>i. the (acc i)) [m0..k - 1])"

definition slice_of :: "bytes \<Rightarrow> spill_entry \<Rightarrow> bytes" where
  "slice_of d e = take (nat (sp_Length e)) (drop (nat (sp_Offset e)) d)"

definition inv_out where
  "inv_out P m0 acc out k m \<longleftrightarrow> m0 \<le> k \<and> m \<le> int (length out) \<and>
     int (length (merged_image P m0 acc k)) = m \<and> take (nat m) out = merged_image P m0 acc k \<and>
     (\<forall>i. m0 \<le> i \<and> i < k \<longrightarrow> acc i \<noteq> None)"

definition entry_ok :: "int \<Rightarrow> int \<Rightarrow> int \<Rightarrow> int \<Rightarrow> spill_entry \<Rightarrow> bool" where
  "entry_ok tot k tail j e \<longleftrightarrow> k \<le> j \<and> j < tot \<and> SegmentIndex e = j \<and> 0 \<le> sp_Offset e \<and>
     0 < sp_Length e \<and> sp_Offset e + sp_Length e \<le> tail"

definition regions_apart :: "(int \<times> spill_entry) list \<Rightarrow> bool" where
  "regions_apart ents \<longleftrightarrow> (\<forall>j e j' e'. (j, e) \<in> set ents \<and> (j', e') \<in> set ents \<and> j \<noteq> j' \<longrightarrow>
     sp_Offset e + sp_Length e \<le> sp_Offset e' \<or> sp_Offset e' + sp_Length e' \<le> sp_Offset e)"

lemma regions_apart_simps [simp]: "regions_apart []" "regions_apart ents \<Longrightarrow> regions_apart (drop_key k ents)"
  by (auto simp: regions_apart_def set_drop_key)

lemma regions_apart_Cons:
  "regions_apart ents \<Longrightarrow> \<forall>j' e'. (j', e') \<in> set ents \<longrightarrow> sp_Offset e' + sp_Length e' \<le> sp_Offset e \<Longrightarrow>
    regions_apart ((j, e) # ents)"
  by (fastforce simp: regions_apart_def)

definition inv_keys :: "int \<Rightarrow> int \<Rightarrow> int \<Rightarrow> (int \<times> bytes) list \<Rightarrow> (int \<times> spill_entry) list \<Rightarrow> bool" where
  "inv_keys tot k tail pend ents \<longleftrightarrow>
     distinct (map fst pend) \<and> distinct (map fst ents) \<and> fst ` set pend \<inter> fst ` set ents = {} \<and>
     (\<forall>j p. (j, p) \<in> set pend \<longrightarrow> k \<le> j \<and> j < tot \<and> p \<noteq> []) \<and>
     (\<forall>j e. (j, e) \<in> set ents \<longrightarrow> entry_ok tot k tail j e) \<and> regions_apart ents"

definition inv_bits :: "bytes \<Rightarrow> int \<Rightarrow> int \<Rightarrow> (int \<times> spill_entry) list \<Rightarrow> bool" where
  "inv_bits bm tot k ents \<longleftrightarrow> 0 \<le> k \<and> k \<le> tot \<and> int (length bm) = (tot + 7) div 8 \<and>
     (\<forall>i. 0 \<le> i \<and> i < bit_capacity bm \<longrightarrow> hasBit bm i = (i < k \<or> i \<in> fst ` set ents))"

lemma bitmap_covers: "int (length bm) = (tot + 7) div 8 \<Longrightarrow> tot \<le> bit_capacity bm"
  by (simp add: bit_capacity_def)

lemma inv_bits_capacity: "inv_bits bm tot k ents \<Longrightarrow> tot \<le> bit_capacity bm"
  by (rule bitmap_covers) (simp add: inv_bits_def)

definition held_in :: "(int \<times> bytes) list \<Rightarrow> (int \<times> spill_entry) list \<Rightarrow> bytes \<Rightarrow> int \<Rightarrow> bytes option" where
  "held_in pend ents d i =
     (case map_of pend i of Some p \<Rightarrow> Some p | None \<Rightarrow> map_option (slice_of d) (map_of ents i))"

definition inv_held where
  "inv_held acc k pend ents d \<longleftrightarrow> (\<forall>i. k \<le> i \<longrightarrow> acc i = held_in pend ents d i)"

definition inv_counts :: "int \<Rightarrow> int \<Rightarrow> int \<Rightarrow> (int \<times> bytes) list \<Rightarrow> (int \<times> spill_entry) list \<Rightarrow> bool" where
  "inv_counts m v pb pend ents \<longleftrightarrow> pb = (\<Sum>(j, p)\<leftarrow>pend. int (length p)) \<and>
     v = m + (\<Sum>(j, e)\<leftarrow>ents. sp_Length e) \<and> v \<le> max_i64 \<and>
     pb \<le> reorderPendingBytesMax \<and> int (length pend) \<le> reorderPendingSegmentMax"

definition win_inv :: "bytes \<Rightarrow> int \<Rightarrow> (int \<Rightarrow> bytes option) \<Rightarrow> window \<Rightarrow> bool" where
  "win_inv P m0 acc w \<longleftrightarrow>
     inv_out P m0 acc (w_out w) (mergedSegs w) (merged w) \<and>
     inv_keys (w_total w) (mergedSegs w) (a_tail w) (pending w) (a_entries w) \<and>
     inv_bits (w_bitmap w) (w_total w) (mergedSegs w) (a_entries w) \<and>
     inv_held acc (mergedSegs w) (pending w) (a_entries w) (arena_bytes w) \<and>
     inv_counts (merged w) (verified_bytes w) (pendingBytes w) (pending w) (a_entries w) \<and>
     arena_wf w"

definition frontier_free :: "window \<Rightarrow> bool" where
  "frontier_free w \<longleftrightarrow> map_of (pending w) (mergedSegs w) = None \<and> map_of (a_entries w) (mergedSegs w) = None"

lemma arena_slice_slice: "arena_slice w e = slice_of (arena_bytes w) e"
  by (simp add: arena_slice_def slice_of_def arena_bytes_def)

lemma merged_image_step: "m0 \<le> k \<Longrightarrow> merged_image P m0 acc (k + 1) = merged_image P m0 acc k @ the (acc k)"
  by (simp add: merged_image_def upto_rec2)

lemma merged_image_cong:
  "\<forall>i. m0 \<le> i \<and> i < k \<longrightarrow> acc i = acc' i \<Longrightarrow> merged_image P m0 acc k = merged_image P m0 acc' k"
  unfolding merged_image_def by (rule arg_cong[of _ _ "\<lambda>x. P @ concat x"], rule map_cong[OF refl]) simp

section \<open>One change at a time\<close>

lemma inv_out_file:
  "inv_out P m0 acc out k m \<Longrightarrow> take (nat m) f = take (nat m) out \<Longrightarrow> length out \<le> length f \<Longrightarrow>
    inv_out P m0 acc f k m"
  by (auto simp: inv_out_def)

lemma inv_out_advance:
  assumes "inv_out P m0 acc out k m" and "take (nat m + length p) f = take (nat m) out @ p"
    and "length out \<le> length f" and "acc' k = Some p" and "\<forall>i. m0 \<le> i \<and> i < k \<longrightarrow> acc' i = acc i"
  shows "inv_out P m0 acc' f (k + 1) (m + int (length p))"
proof -
  have im: "merged_image P m0 acc' (k + 1) = merged_image P m0 acc k @ p"
    using assms merged_image_step[of m0 k P acc'] merged_image_cong[of m0 k acc' acc P]
    by (simp add: inv_out_def)
  have m: "int (length (merged_image P m0 acc k)) = m" "take (nat m) out = merged_image P m0 acc k"
    using assms(1) by (simp_all add: inv_out_def)
  have t: "take (nat (m + int (length p))) f = merged_image P m0 acc' (k + 1)"
    using assms(2) m im by (simp add: nat_add_distrib)
  then have "length (take (nat (m + int (length p))) f) = nat (m + int (length p))"
    using m(1) im by simp
  then have "m + int (length p) \<le> int (length f)" using m(1) by simp
  moreover have "int (length (merged_image P m0 acc' (k + 1))) = m + int (length p)" using im m(1) by simp
  moreover have "acc' i \<noteq> None" if "m0 \<le> i" "i < k + 1" for i
    using that assms(1,4,5) by (cases "i = k") (simp_all add: inv_out_def)
  moreover have "m0 \<le> k + 1" using assms(1) by (simp add: inv_out_def)
  ultimately show ?thesis
    unfolding inv_out_def using t by blast
qed

lemma inv_out_accept:
  "inv_out P m0 acc out k m \<Longrightarrow> \<forall>i. m0 \<le> i \<and> i < k \<longrightarrow> acc' i = acc i \<Longrightarrow> inv_out P m0 acc' out k m"
  using merged_image_cong[of m0 k acc' acc P] by (simp add: inv_out_def)

lemma inv_keys_drop:
  assumes "inv_keys tot k tail pend ents" and "k < tot"
  shows "inv_keys tot (k + 1) tail (drop_key k pend) (drop_key k ents)"
proof -
  have "entry_ok tot (k + 1) tail j e" if "(j, e) \<in> set (drop_key k ents)" for j e
  proof -
    have "(j, e) \<in> set ents" "j \<noteq> k" using that by (auto simp: set_drop_key)
    then have "entry_ok tot k tail j e" "j \<noteq> k" using assms(1) by (auto simp: inv_keys_def)
    then show ?thesis by (simp add: entry_ok_def)
  qed
  moreover have "(j, p) \<in> set (drop_key k pend) \<Longrightarrow> k + 1 \<le> j \<and> j < tot \<and> p \<noteq> []" for j p
  proof -
    assume "(j, p) \<in> set (drop_key k pend)"
    then have "(j, p) \<in> set pend" "j \<noteq> k" by (auto simp: set_drop_key)
    then have "k \<le> j \<and> j < tot \<and> p \<noteq> []" "j \<noteq> k" using assms(1) by (auto simp: inv_keys_def)
    then show ?thesis by simp
  qed
  ultimately show ?thesis using assms(1)
    by (auto simp: inv_keys_def distinct_drop_key keys_drop_key)
qed

lemma map_of_keyD: "map_of xs i = Some v \<Longrightarrow> i \<in> fst ` set xs"
  by (drule map_of_SomeD) force

lemma inv_keys_absent:
  assumes "inv_keys tot k tail pend ents"
  shows "map_of pend i = Some p \<Longrightarrow> i \<notin> fst ` set ents" "map_of ents i = Some e \<Longrightarrow> i \<notin> fst ` set pend"
  using assms map_of_keyD[of pend i p] map_of_keyD[of ents i e] unfolding inv_keys_def by blast+

lemma inv_keys_tail: "inv_keys tot k tail pend ents \<Longrightarrow> tail \<le> tail' \<Longrightarrow> inv_keys tot k tail' pend ents"
  by (fastforce simp: inv_keys_def entry_ok_def)

lemma map_of_drop_key: "map_of (drop_key k xs) i = (if i = k then None else map_of xs i)"
  by (induction xs) (auto simp: drop_key_def)

lemma held_drop: "i \<noteq> k \<Longrightarrow> held_in (drop_key k pend) (drop_key k ents) d i = held_in pend ents d i"
  by (cases "map_of pend i") (simp_all add: held_in_def map_of_drop_key)

lemma entry_slice_length:
  "inv_keys tot k tail pend ents \<Longrightarrow> tail \<le> int (length d) \<Longrightarrow> map_of ents i = Some e \<Longrightarrow>
    int (length (slice_of d e)) = sp_Length e"
  using map_of_SomeD[of ents i e] by (fastforce simp: inv_keys_def entry_ok_def slice_of_def)

text \<open>Bytes behind the tail belong to no entry.\<close>

lemma inv_held_disk:
  assumes "inv_held acc k pend ents d" and k: "inv_keys tot k0 tail pend ents"
    and d: "take (nat tail) d' = take (nat tail) d"
  shows "inv_held acc k pend ents d'"
proof -
  have "slice_of d' e = slice_of d e" if "map_of ents i = Some e" for i e
  proof -
    have "(i, e) \<in> set ents" using that by (rule map_of_SomeD)
    then have "entry_ok tot k0 tail i e" using k by (simp add: inv_keys_def)
    then have "nat (sp_Offset e) + nat (sp_Length e) \<le> nat tail"
      by (auto simp: entry_ok_def nat_add_distrib[symmetric] intro: nat_mono)
    then show ?thesis unfolding slice_of_def by (rule slice_prefix[OF d])
  qed
  then have "held_in pend ents d' i = held_in pend ents d i" for i
    by (auto simp: held_in_def split: option.splits intro!: option.map_cong0)
  then show ?thesis using assms(1) by (simp add: inv_held_def)
qed

lemma inv_bits_advance:
  assumes "inv_bits bm tot k ents" and "k < tot"
  shows "inv_bits (setBit bm k) tot (k + 1) (drop_key k ents)"
proof -
  have c: "bit_capacity (setBit bm k) = bit_capacity bm" by (rule packed.cap_set)
  have "hasBit (setBit bm k) i = (i < k + 1 \<or> i \<in> fst ` set (drop_key k ents))" if i: "0 \<le> i" "i < bit_capacity bm" for i
  proof -
    have "hasBit (setBit bm k) i = (k = i \<or> hasBit bm i)"
      by (rule packed.get_set) (use assms i inv_bits_capacity[OF assms(1)] in \<open>auto simp: inv_bits_def\<close>)
    then show ?thesis using assms i by (auto simp: inv_bits_def keys_drop_key)
  qed
  then show ?thesis using assms c by (auto simp: inv_bits_def bit_capacity_def)
qed

lemma inv_bits_replayed:
  "inv_bits bm tot k ents \<Longrightarrow> k < tot \<Longrightarrow> map_of ents k = Some e \<Longrightarrow> inv_bits bm tot (k + 1) (drop_key k ents)"
  using map_of_keyD[of ents k e] by (auto simp: inv_bits_def keys_drop_key order.order_iff_strict)

lemma inv_bits_spilled:
  assumes "inv_bits bm tot k ents" and "k \<le> i" "i < tot"
  shows "inv_bits (setBit bm i) tot k ((i, e) # drop_key i ents)"
proof -
  have c: "bit_capacity (setBit bm i) = bit_capacity bm" by (rule packed.cap_set)
  have "hasBit (setBit bm i) j = (j < k \<or> j \<in> fst ` set ((i, e) # drop_key i ents))" if j: "0 \<le> j" "j < bit_capacity bm" for j
  proof -
    have "hasBit (setBit bm i) j = (i = j \<or> hasBit bm j)"
      by (rule packed.get_set) (use assms j inv_bits_capacity[OF assms(1)] in \<open>auto simp: inv_bits_def\<close>)
    then show ?thesis using assms j by (auto simp: inv_bits_def keys_drop_key)
  qed
  then show ?thesis using assms c by (auto simp: inv_bits_def bit_capacity_def)
qed


section \<open>The turns of the drain\<close>

definition same_frame :: "window \<Rightarrow> window \<Rightarrow> bool" where
  "same_frame w w1 \<longleftrightarrow> w_total w1 = w_total w \<and> w_closed w1 = w_closed w \<and> storeErr w1 = storeErr w"

lemma same_frame_trans: "same_frame a b \<Longrightarrow> same_frame b c \<Longrightarrow> same_frame a c"
  by (simp add: same_frame_def)

definition retained :: "window \<Rightarrow> nat" where
  "retained w = length (pending w) + length (a_entries w)"

lemma win_inv_out:
  assumes "win_inv P m0 acc w" and "take (nat (merged w)) f = take (nat (merged w)) (w_out w)"
    and "length (w_out w) \<le> length f"
  shows "win_inv P m0 acc (w\<lparr>w_out := f, w_io := is, rangeCopyDown := b\<rparr>)"
  using assms inv_out_file[of P m0 acc "w_out w" "mergedSegs w" "merged w" f]
  by (simp add: win_inv_def arena_wf_def arena_bytes_def)

lemma win_inv_out2:
  assumes "win_inv P m0 acc w" and "take (nat (merged w)) f = take (nat (merged w)) (w_out w)"
    and "length (w_out w) \<le> length f"
  shows "win_inv P m0 acc (w\<lparr>w_out := f, w_io := is\<rparr>)"
  using assms inv_out_file[of P m0 acc "w_out w" "mergedSegs w" "merged w" f]
  by (simp add: win_inv_def arena_wf_def arena_bytes_def)

lemma win_inv_basic:
  assumes "win_inv P m0 acc w"
  shows "0 \<le> merged w" "merged w \<le> int (length (w_out w))" "m0 \<le> mergedSegs w" "0 \<le> mergedSegs w"
    "mergedSegs w \<le> w_total w"
  using assms by (auto simp: win_inv_def inv_out_def inv_bits_def)

lemma win_inv_drain_pending:
  assumes i: "win_inv P m0 acc w" and p: "map_of (pending w) (mergedSegs w) = Some p"
    and f: "take (nat (merged w) + length p) f = take (nat (merged w)) (w_out w) @ p" "length (w_out w) \<le> length f"
    and ov: "int (length p) \<le> max_i64 - verified_bytes w"
  shows "win_inv P m0 acc (w\<lparr>w_out := f, w_io := is, w_bitmap := setBit (w_bitmap w) (mergedSegs w),
    mergedSegs := mergedSegs w + 1, merged := merged w + int (length p),
    verified_bytes := verified_bytes w + int (length p), pendingBytes := pendingBytes w - int (length p),
    pending := drop_key (mergedSegs w) (pending w)\<rparr>)" (is "win_inv P m0 acc ?w")
proof -
  let ?k = "mergedSegs w"
  have k: "inv_keys (w_total w) ?k (a_tail w) (pending w) (a_entries w)" using i by (simp add: win_inv_def)
  have kt: "?k < w_total w" using k map_of_SomeD[OF p] by (auto simp: inv_keys_def)
  have e: "drop_key ?k (a_entries w) = a_entries w"
    by (rule drop_key_absent) (rule inv_keys_absent(1)[OF k p])
  have accp: "acc ?k = Some p" using i p by (simp add: win_inv_def inv_held_def held_in_def)
  have dp: "distinct (map fst (pending w))" using k by (simp add: inv_keys_def)
  have 1: "inv_out P m0 acc (w_out ?w) (mergedSegs ?w) (merged ?w)"
    using inv_out_advance[of P m0 acc "w_out w" ?k "merged w" p f acc] i f accp by (simp add: win_inv_def)
  have 2: "inv_keys (w_total ?w) (mergedSegs ?w) (a_tail ?w) (pending ?w) (a_entries ?w)"
    using inv_keys_drop[OF k kt] e by simp
  have 3: "inv_bits (w_bitmap ?w) (w_total ?w) (mergedSegs ?w) (a_entries ?w)"
    using inv_bits_advance[of "w_bitmap w" "w_total w" ?k "a_entries w"] i kt e by (simp add: win_inv_def)
  have 4: "inv_held acc (mergedSegs ?w) (pending ?w) (a_entries ?w) (arena_bytes ?w)"
    using i held_drop[of _ ?k "pending w" "a_entries w" "arena_bytes w"] e
    by (simp add: win_inv_def inv_held_def arena_bytes_def)
  have 5: "inv_counts (merged ?w) (verified_bytes ?w) (pendingBytes ?w) (pending ?w) (a_entries ?w)"
    using i ov sum_drop_key[OF dp p, of "\<lambda>p. int (length p)"] length_drop_key[OF p]
    by (simp add: win_inv_def inv_counts_def)
  have 6: "arena_wf ?w" using i by (simp add: win_inv_def arena_wf_def)
  show ?thesis unfolding win_inv_def using 1 2 3 4 5 6 by blast
qed

lemma drain_pending_inv:
  assumes i: "win_inv P m0 acc w" and p: "map_of (pending w) (mergedSegs w) = Some p"
    and d: "drain_pending p w = (r, w1)"
  shows "win_inv P m0 acc w1 \<and> same_frame w w1 \<and> r \<noteq> DrainDone \<and> (r = DrainMore \<longrightarrow> retained w1 < retained w)"
proof (cases "int (length p) > max_i64 - merged w \<or> int (length p) > max_i64 - verified_bytes w")
  case True
  then have "r = DrainFail OffsetOverflow \<and> w1 = w" using d by (auto simp: drain_pending_def)
  then show ?thesis using i by (simp add: same_frame_def)
next
  case False
  note b = win_inv_basic[OF i]
  obtain ro w0 where wo: "writeOut p w = (ro, w0)" by fastforce
  from writeOut_effect[OF wo b(1,2)] obtain f "is" where w0: "w0 = w\<lparr>w_out := f, w_io := is\<rparr>"
    and f: "take (nat (merged w)) f = take (nat (merged w)) (w_out w)" "length (w_out w) \<le> length f"
      "ro = None \<longrightarrow> take (nat (merged w) + length p) f = take (nat (merged w)) (w_out w) @ p" by auto
  show ?thesis
  proof (cases ro)
    case (Some e)
    then have "r = DrainFail e \<and> w1 = w\<lparr>w_out := f, w_io := is\<rparr>"
      using d False wo by (auto simp: drain_pending_def w0)
    then show ?thesis using win_inv_out2[OF i f(1,2)] by (simp add: same_frame_def)
  next
    case None
    then have r: "r = DrainMore \<and> w1 = w\<lparr>w_out := f, w_io := is, w_bitmap := setBit (w_bitmap w) (mergedSegs w),
    mergedSegs := mergedSegs w + 1, merged := merged w + int (length p),
    verified_bytes := verified_bytes w + int (length p), pendingBytes := pendingBytes w - int (length p),
    pending := drop_key (mergedSegs w) (pending w)\<rparr>"
      using d False wo by (auto simp: drain_pending_def w0 Let_def)
    have "int (length p) \<le> max_i64 - verified_bytes w" using False by simp
    from win_inv_drain_pending[OF i p _ f(2) this] f(3) None r length_drop_key[OF p]
    show ?thesis by (simp add: same_frame_def retained_def)
  qed
qed

lemma win_inv_truncate:
  assumes i: "win_inv P m0 acc w" and e: "a_entries w = []" and t: "spill_truncate w = (r, w1)"
  shows "win_inv P m0 acc w1 \<and> same_frame w w1 \<and> retained w1 = retained w"
proof -
  obtain io w0 where nx: "next_io w = (io, w0)" by fastforce
  then obtain "is" where w0: "w0 = w\<lparr>w_io := is\<rparr>" using next_io_eq by blast
  have k: "inv_keys (w_total w) (mergedSegs w) 0 (pending w) []"
    using i e by (simp add: win_inv_def inv_keys_def)
  define wt where "wt = w\<lparr>w_io := is, a_disk := map_option (\<lambda>_. []) (a_disk w), a_tail := 0\<rparr>"
  have "w1 = w \<or> w1 = w\<lparr>w_io := is\<rparr> \<or> (a_open w \<and> w1 = wt)"
  proof (cases "a_open w")
    case True
    then have "spill_truncate w = (case io of IoFail _ \<Rightarrow> (Some (StorageError ''spill truncate''), w0) | _ \<Rightarrow> (None, wt))"
      by (cases io) (simp_all add: spill_truncate_def nx w0 wt_def)
    then have "snd (spill_truncate w) = w0 \<or> snd (spill_truncate w) = wt" by (cases io) simp_all
    then show ?thesis unfolding t w0 using True by simp
  next
    case False
    then have "spill_truncate w = (None, w)" by (simp add: spill_truncate_def)
    then show ?thesis unfolding t by simp
  qed
  then consider "w1 = w" | "w1 = w\<lparr>w_io := is\<rparr>" | "a_open w" "w1 = wt" by blast
  then show ?thesis
  proof cases
    case 1
    then show ?thesis using i by (simp add: same_frame_def)
  next
    case 2
    then show ?thesis using i by (simp add: same_frame_def retained_def win_inv_def arena_wf_def arena_bytes_def)
  next
    case 3
    have h: "held_in (pending w) [] d1 = held_in (pending w) [] d2" for d1 d2
      by (rule ext) (simp add: held_in_def split: option.splits)
    show ?thesis using 3 i e k h[of "arena_bytes w" "arena_bytes wt"] unfolding wt_def
      by (auto simp: same_frame_def retained_def win_inv_def arena_wf_def inv_held_def)
  qed
qed

lemma win_inv_drain_spilled:
  assumes i: "win_inv P m0 acc w" and p: "map_of (a_entries w) (mergedSegs w) = Some e"
    and f: "take (nat (merged w) + length (slice_of (arena_bytes w) e)) f = take (nat (merged w)) (w_out w) @ slice_of (arena_bytes w) e"
      "length (w_out w) \<le> length f"
    and l: "int (length (slice_of (arena_bytes w) e)) = sp_Length e"
  shows "win_inv P m0 acc (w\<lparr>w_out := f, w_io := is, rangeCopyDown := b,
    mergedSegs := mergedSegs w + 1, merged := merged w + sp_Length e,
    a_entries := drop_key (mergedSegs w) (a_entries w)\<rparr>)" (is "win_inv P m0 acc ?w")
proof -
  let ?k = "mergedSegs w" and ?p = "slice_of (arena_bytes w) e"
  have k: "inv_keys (w_total w) ?k (a_tail w) (pending w) (a_entries w)" using i by (simp add: win_inv_def)
  have kt: "?k < w_total w" using k map_of_SomeD[OF p] by (auto simp: inv_keys_def entry_ok_def)
  have nk: "?k \<notin> fst ` set (pending w)" by (rule inv_keys_absent(2)[OF k p])
  have e: "drop_key ?k (pending w) = pending w" by (rule drop_key_absent[OF nk])
  have np: "map_of (pending w) ?k = None" using nk by (simp add: map_of_eq_None_iff)
  have accp: "acc ?k = Some ?p" using i p np by (simp add: win_inv_def inv_held_def held_in_def)
  have dp: "distinct (map fst (a_entries w))" using k by (simp add: inv_keys_def)
  have 1: "inv_out P m0 acc (w_out ?w) (mergedSegs ?w) (merged ?w)"
    using inv_out_advance[of P m0 acc "w_out w" ?k "merged w" ?p f acc] i f accp l by (simp add: win_inv_def)
  have 2: "inv_keys (w_total ?w) (mergedSegs ?w) (a_tail ?w) (pending ?w) (a_entries ?w)"
    using inv_keys_drop[OF k kt] e by simp
  have 3: "inv_bits (w_bitmap ?w) (w_total ?w) (mergedSegs ?w) (a_entries ?w)"
    using inv_bits_replayed[of "w_bitmap w" "w_total w" ?k "a_entries w"] i kt p by (simp add: win_inv_def)
  have 4: "inv_held acc (mergedSegs ?w) (pending ?w) (a_entries ?w) (arena_bytes ?w)"
    using i held_drop[of _ ?k "pending w" "a_entries w" "arena_bytes w"] e
    by (simp add: win_inv_def inv_held_def arena_bytes_def)
  have 5: "inv_counts (merged ?w) (verified_bytes ?w) (pendingBytes ?w) (pending ?w) (a_entries ?w)"
    using i sum_drop_key[OF dp p, of sp_Length] by (simp add: win_inv_def inv_counts_def)
  have "a_entries w \<noteq> []" using p by auto
  then have 6: "arena_wf ?w" using i by (auto simp: win_inv_def arena_wf_def)
  show ?thesis unfolding win_inv_def using 1 2 3 4 5 6 by blast
qed

lemma drain_spilled_inv:
  assumes i: "win_inv P m0 acc w" and p: "map_of (a_entries w) (mergedSegs w) = Some e"
    and d: "drain_spilled e w = (r, w1)"
  shows "win_inv P m0 acc w1 \<and> same_frame w w1 \<and> r \<noteq> DrainDone \<and> (r = DrainMore \<longrightarrow> retained w1 < retained w)"
proof (cases "sp_Length e > max_i64 - merged w")
  case True
  then have "r = DrainFail OffsetOverflow \<and> w1 = w" using d by (auto simp: drain_spilled_def)
  then show ?thesis using i by (simp add: same_frame_def)
next
  case False
  note b = win_inv_basic[OF i]
  have k: "inv_keys (w_total w) (mergedSegs w) (a_tail w) (pending w) (a_entries w)" and wf: "arena_wf w"
    using i by (simp_all add: win_inv_def)
  have "a_entries w \<noteq> []" using p by auto
  then have tl: "a_tail w \<le> int (length (arena_bytes w))" using wf by (auto simp: arena_wf_def arena_bytes_def)
  have l: "int (length (slice_of (arena_bytes w) e)) = sp_Length e" by (rule entry_slice_length[OF k tl p])
  have si: "SegmentIndex e = mergedSegs w" using k map_of_SomeD[OF p] by (auto simp: inv_keys_def entry_ok_def)
  obtain ro w0 where re: "replayEntry (merged w) e w = (ro, w0)" by fastforce
  have m: "nat (merged w) \<le> length (w_out w)" using b by simp
  from replayEntry_effect[OF re b(1) l[folded arena_slice_slice] m, unfolded arena_slice_slice]
  obtain f "is" bb where w0: "w0 = w\<lparr>w_out := f, w_io := is, rangeCopyDown := bb\<rparr>"
    and f: "take (nat (merged w)) f = take (nat (merged w)) (w_out w)" "length (w_out w) \<le> length f"
      "ro = None \<longrightarrow> take (nat (merged w) + length (slice_of (arena_bytes w) e)) f
         = take (nat (merged w)) (w_out w) @ slice_of (arena_bytes w) e" by auto
  show ?thesis
  proof (cases ro)
    case (Some e)
    then have "r = DrainFail e \<and> w1 = w\<lparr>w_out := f, w_io := is, rangeCopyDown := bb\<rparr>"
      using d False re by (auto simp: drain_spilled_def w0)
    then show ?thesis using win_inv_out[OF i f(1,2)] by (simp add: same_frame_def)
  next
    case None
    define w2 where "w2 = w\<lparr>w_out := f, w_io := is, rangeCopyDown := bb,
      mergedSegs := mergedSegs w + 1, merged := merged w + sp_Length e,
      a_entries := drop_key (mergedSegs w) (a_entries w)\<rparr>"
    have w2: "win_inv P m0 acc w2" "same_frame w w2" "retained w2 < retained w"
      using win_inv_drain_spilled[OF i p _ f(2) l] f(3) None length_drop_key[OF p]
      by (simp_all add: w2_def same_frame_def retained_def)
    have w2': "w0\<lparr>merged := merged w0 + sp_Length e, mergedSegs := mergedSegs w0 + 1,
                       a_entries := drop_key (SegmentIndex e) (a_entries w0)\<rparr> = w2"
      by (simp add: w0 w2_def si)
    obtain rt w3 where t: "spill_truncate w2 = (rt, w3)" by fastforce
    have "(r, w1) = (if a_entries w2 = [] then (case rt of None \<Rightarrow> (DrainMore, w3) | Some err \<Rightarrow> (DrainFail err, w3))
      else (DrainMore, w2))"
      using d unfolding drain_spilled_def
      by (simp only: re None False if_False prod.case option.case w2' Let_def t split: option.splits)
    then have "(a_entries w2 = [] \<and> w1 = w3 \<and> (r = DrainMore \<or> (\<exists>e. r = DrainFail e))) \<or> (w1 = w2 \<and> r = DrainMore)"
      by (cases rt; cases "a_entries w2 = []") simp_all
    then show ?thesis
    proof
      assume a: "a_entries w2 = [] \<and> w1 = w3 \<and> (r = DrainMore \<or> (\<exists>e. r = DrainFail e))"
      then show ?thesis
        using win_inv_truncate[OF w2(1) _ t] w2 same_frame_trans[of w w2 w3] by auto
    next
      assume "w1 = w2 \<and> r = DrainMore"
      then show ?thesis using w2 by simp
    qed
  qed
qed

lemma drain_once_inv:
  assumes i: "win_inv P m0 acc w" and d: "drain_once w = (r, w1)"
  shows "win_inv P m0 acc w1 \<and> same_frame w w1 \<and> (r = DrainDone \<longrightarrow> frontier_free w1) \<and>
    (r = DrainMore \<longrightarrow> retained w1 < retained w)"
proof (cases "map_of (pending w) (mergedSegs w)")
  case (Some p)
  then show ?thesis using drain_pending_inv[OF i Some] d by (simp add: drain_once_def)
next
  case np: None
  show ?thesis
  proof (cases "map_of (a_entries w) (mergedSegs w)")
    case (Some e)
    then show ?thesis using drain_spilled_inv[OF i Some] d np by (simp add: drain_once_def)
  next
    case None
    then show ?thesis using i d np by (auto simp: drain_once_def frontier_free_def same_frame_def)
  qed
qed

lemma drain_inv:
  "win_inv P m0 acc w \<Longrightarrow> retained w < fuel \<Longrightarrow>
    \<exists>r w1. drain fuel w = Some (r, w1) \<and> win_inv P m0 acc w1 \<and> same_frame w w1 \<and> (r = None \<longrightarrow> frontier_free w1)"
proof (induction fuel arbitrary: w)
  case 0
  then show ?case by simp
next
  case (Suc fuel)
  obtain r w1 where d: "drain_once w = (r, w1)" by fastforce
  note s = drain_once_inv[OF Suc.prems(1) d]
  show ?case
  proof (cases r)
    case DrainMore
    then have "retained w1 < fuel" using s Suc.prems(2) by simp
    from Suc.IH[OF _ this] s obtain r2 w2 where
      "drain fuel w1 = Some (r2, w2)" "win_inv P m0 acc w2" "same_frame w1 w2" "r2 = None \<longrightarrow> frontier_free w2"
      by blast
    then show ?thesis using d DrainMore s same_frame_trans[of w w1 w2] by simp
  qed (use d s in simp_all)
qed

lemma drainLocked_inv:
  assumes "win_inv P m0 acc w"
  obtains r w1 where "drainLocked w = Some (r, w1)" "win_inv P m0 acc w1" "same_frame w w1"
    "r = None \<longrightarrow> frontier_free w1"
  using drain_inv[OF assms, of "Suc (retained w)"] that by (auto simp: drainLocked_def retained_def)

section \<open>Every operation keeps the invariant\<close>

definition win_ok :: "bytes \<Rightarrow> int \<Rightarrow> (int \<Rightarrow> bytes option) \<Rightarrow> window \<Rightarrow> bool" where
  "win_ok P m0 acc w \<longleftrightarrow> win_inv P m0 acc w \<and> (storeErr w = None \<longrightarrow> frontier_free w)"

lemma win_inv_latch: "win_inv P m0 acc (w\<lparr>storeErr := e\<rparr>) = win_inv P m0 acc w"
  by (simp add: win_inv_def arena_wf_def arena_bytes_def)

lemma win_inv_direct:
  assumes i: "win_inv P m0 acc w" and kt: "mergedSegs w < w_total w"
    and n: "frontier_free w"
    and f: "take (nat (merged w) + length p) f = take (nat (merged w)) (w_out w) @ p" "length (w_out w) \<le> length f"
    and ov: "int (length p) \<le> max_i64 - verified_bytes w"
  shows "win_inv P m0 (acc(mergedSegs w \<mapsto> p)) (w\<lparr>w_out := f, w_io := is, w_bitmap := setBit (w_bitmap w) (mergedSegs w),
    mergedSegs := mergedSegs w + 1, merged := merged w + int (length p),
    verified_bytes := verified_bytes w + int (length p)\<rparr>)" (is "win_inv P m0 ?acc ?w")
proof -
  let ?k = "mergedSegs w"
  have k: "inv_keys (w_total w) ?k (a_tail w) (pending w) (a_entries w)" using i by (simp add: win_inv_def)
  have e: "drop_key ?k (a_entries w) = a_entries w" "drop_key ?k (pending w) = pending w"
    by (rule drop_key_absent, use n in \<open>simp add: frontier_free_def map_of_eq_None_iff\<close>)+
  have 1: "inv_out P m0 ?acc (w_out ?w) (mergedSegs ?w) (merged ?w)"
    using inv_out_advance[of P m0 acc "w_out w" ?k "merged w" p f ?acc] i f by (simp add: win_inv_def)
  have 2: "inv_keys (w_total ?w) (mergedSegs ?w) (a_tail ?w) (pending ?w) (a_entries ?w)"
    using inv_keys_drop[OF k kt] e by simp
  have 3: "inv_bits (w_bitmap ?w) (w_total ?w) (mergedSegs ?w) (a_entries ?w)"
    using inv_bits_advance[of "w_bitmap w" "w_total w" ?k "a_entries w"] i kt e by (simp add: win_inv_def)
  have 4: "inv_held ?acc (mergedSegs ?w) (pending ?w) (a_entries ?w) (arena_bytes ?w)"
    using i by (simp add: win_inv_def inv_held_def arena_bytes_def)
  have 5: "inv_counts (merged ?w) (verified_bytes ?w) (pendingBytes ?w) (pending ?w) (a_entries ?w)"
    using i ov by (simp add: win_inv_def inv_counts_def)
  have 6: "arena_wf ?w" using i by (simp add: win_inv_def arena_wf_def)
  show ?thesis unfolding win_inv_def using 1 2 3 4 5 6 by blast
qed

lemma win_inv_buffer:
  assumes i: "win_inv P m0 acc w" and k: "mergedSegs w < j" "j < w_total w" and p: "p \<noteq> []"
    and n: "map_of (pending w) j = None" "map_of (a_entries w) j = None"
    and b: "int (length p) \<le> reorderPendingBytesMax - pendingBytes w"
      "int (length (pending w)) < reorderPendingSegmentMax"
  shows "win_inv P m0 (acc(j \<mapsto> p)) (w\<lparr>pending := (j, p) # pending w, pendingBytes := pendingBytes w + int (length p)\<rparr>)"
    (is "win_inv P m0 ?acc ?w")
proof -
  have nn: "j \<notin> fst ` set (pending w)" "j \<notin> fst ` set (a_entries w)"
    using n by (simp_all add: map_of_eq_None_iff)
  have 1: "inv_out P m0 ?acc (w_out ?w) (mergedSegs ?w) (merged ?w)"
    using inv_out_accept[of P m0 acc "w_out w" "mergedSegs w" "merged w" ?acc] i k by (simp add: win_inv_def)
  have 2: "inv_keys (w_total ?w) (mergedSegs ?w) (a_tail ?w) (pending ?w) (a_entries ?w)"
    using i nn k p by (auto simp: win_inv_def inv_keys_def)
  have 3: "inv_bits (w_bitmap ?w) (w_total ?w) (mergedSegs ?w) (a_entries ?w)"
    using i by (simp add: win_inv_def)
  have 4: "inv_held ?acc (mergedSegs ?w) (pending ?w) (a_entries ?w) (arena_bytes ?w)"
    using i by (simp add: win_inv_def inv_held_def held_in_def arena_bytes_def)
  have 5: "inv_counts (merged ?w) (verified_bytes ?w) (pendingBytes ?w) (pending ?w) (a_entries ?w)"
    using i b by (simp add: win_inv_def inv_counts_def)
  have 6: "arena_wf ?w" using i by (simp add: win_inv_def arena_wf_def)
  show ?thesis unfolding win_inv_def using 1 2 3 4 5 6 by blast
qed

text \<open>A payload enters the arena: a new one (\<open>pb = 0\<close>), or a pending one that is flushed.\<close>

lemma win_inv_spill:
  assumes i: "win_inv P m0 acc w" and j: "mergedSegs w \<le> j" "j < w_total w" and p: "p \<noteq> []"
    and n: "map_of (a_entries w) j = None"
    and acc: "acc' j = Some p" "\<forall>i. i \<noteq> j \<longrightarrow> acc' i = acc i"
    and pb: "pb = (case map_of (pending w) j of None \<Rightarrow> 0 | Some q \<Rightarrow> int (length q))"
    and e: "e = \<lparr>SegmentIndex = j, sp_Offset = a_tail w, sp_Length = int (length p)\<rparr>"
    and w1: "w1 = w\<lparr>w_io := is, a_open := True, a_disk := D, a_entries := (j, e) # drop_key j (a_entries w),
                a_tail := a_tail w + int (length p)\<rparr>"
    and sl: "arena_slice w1 e = p" and wf: "arena_wf w1"
    and tk: "take (nat (a_tail w)) (arena_bytes w1) = take (nat (a_tail w)) (arena_bytes w)"
    and ov: "int (length p) \<le> max_i64 - verified_bytes w"
  shows "win_inv P m0 acc' (w1\<lparr>w_bitmap := setBit (w_bitmap w) j, verified_bytes := verified_bytes w + int (length p),
      pendingBytes := pendingBytes w - pb, pending := drop_key j (pending w)\<rparr>)" (is "win_inv P m0 acc' ?w")
proof -
  let ?k = "mergedSegs w"
  have k: "inv_keys (w_total w) ?k (a_tail w) (pending w) (a_entries w)" using i by (simp add: win_inv_def)
  have nj: "j \<notin> fst ` set (a_entries w)" using n by (simp add: map_of_eq_None_iff)
  have de: "drop_key j (a_entries w) = a_entries w" by (rule drop_key_absent[OF nj])
  have tail: "0 \<le> a_tail w" using i by (simp add: win_inv_def arena_wf_def)
  have eo: "entry_ok (w_total w) ?k (a_tail w + int (length p)) j e"
    using j p tail by (simp add: e entry_ok_def)
  have "regions_apart (a_entries w)" using k by (simp add: inv_keys_def)
  then have ra: "regions_apart ((j, e) # a_entries w)"
  proof (rule regions_apart_Cons, intro allI impI)
    fix j' e' assume "(j', e') \<in> set (a_entries w)"
    then have "entry_ok (w_total w) ?k (a_tail w) j' e'" using k by (simp add: inv_keys_def)
    then show "sp_Offset e' + sp_Length e' \<le> sp_Offset e" by (simp add: entry_ok_def e)
  qed
  have k': "inv_keys (w_total w) ?k (a_tail w + int (length p)) (pending w) (a_entries w)"
    by (rule inv_keys_tail[OF k]) simp
  have ab: "arena_bytes ?w = arena_bytes w1" by (simp add: arena_bytes_def)
  have 1: "inv_out P m0 acc' (w_out ?w) (mergedSegs ?w) (merged ?w)"
    using inv_out_accept[of P m0 acc "w_out w" ?k "merged w" acc'] i j acc(2) by (simp add: win_inv_def w1)
  have 2: "inv_keys (w_total ?w) (mergedSegs ?w) (a_tail ?w) (pending ?w) (a_entries ?w)"
    using k' eo nj ra unfolding inv_keys_def
    by (auto simp: w1 de distinct_drop_key keys_drop_key set_drop_key)
  have 3: "inv_bits (w_bitmap ?w) (w_total ?w) (mergedSegs ?w) (a_entries ?w)"
    using inv_bits_spilled[of "w_bitmap w" "w_total w" ?k "a_entries w" j e] i j by (simp add: win_inv_def w1)
  have ih: "inv_held acc ?k (pending w) (a_entries w) (arena_bytes w1)"
    by (rule inv_held_disk[OF _ k tk]) (use i in \<open>simp add: win_inv_def\<close>)
  have sl': "slice_of (arena_bytes w1) e = p" using sl by (simp add: arena_slice_slice)
  have "acc' x = held_in (drop_key j (pending w)) ((j, e) # a_entries w) (arena_bytes w1) x" if "?k \<le> x" for x
  proof (cases "x = j")
    case True
    then show ?thesis by (simp add: held_in_def map_of_drop_key acc(1) sl')
  next
    case False
    then have "held_in (drop_key j (pending w)) ((j, e) # a_entries w) (arena_bytes w1) x
      = held_in (pending w) (a_entries w) (arena_bytes w1) x"
      by (simp add: held_in_def map_of_drop_key split: option.splits)
    then show ?thesis using ih that False acc(2) by (simp add: inv_held_def)
  qed
  then have 4: "inv_held acc' (mergedSegs ?w) (pending ?w) (a_entries ?w) (arena_bytes ?w)"
    unfolding ab by (simp add: w1 de inv_held_def)
  have dp: "distinct (map fst (pending w))" using k by (simp add: inv_keys_def)
  have "(\<Sum>(x, q)\<leftarrow>drop_key j (pending w). int (length q)) = (\<Sum>(x, q)\<leftarrow>pending w. int (length q)) - pb
      \<and> length (drop_key j (pending w)) \<le> length (pending w)"
  proof (cases "map_of (pending w) j")
    case None
    then have "drop_key j (pending w) = pending w" by (intro drop_key_absent) (simp add: map_of_eq_None_iff)
    then show ?thesis using None pb by simp
  next
    case (Some q)
    then show ?thesis using sum_drop_key[OF dp Some, of "\<lambda>q. int (length q)"] pb
      by (simp add: drop_key_def)
  qed
  moreover have "0 \<le> pb" using pb by (auto split: option.splits)
  ultimately have 5: "inv_counts (merged ?w) (verified_bytes ?w) (pendingBytes ?w) (pending ?w) (a_entries ?w)"
    using i ov by (simp add: win_inv_def inv_counts_def w1 de e)
  have 6: "arena_wf ?w" using wf by (simp add: arena_wf_def)
  show ?thesis unfolding win_inv_def using 1 2 3 4 5 6 by blast
qed

lemma win_inv_spill_failed:
  assumes i: "win_inv P m0 acc w" and w1: "w1 = w\<lparr>w_io := is, a_open := o1, a_disk := D\<rparr>"
    and tk: "take (nat (a_tail w)) (arena_bytes w1) = take (nat (a_tail w)) (arena_bytes w)" and wf: "arena_wf w1"
  shows "win_inv P m0 acc w1"
proof -
  have k: "inv_keys (w_total w) (mergedSegs w) (a_tail w) (pending w) (a_entries w)" using i by (simp add: win_inv_def)
  have "inv_held acc (mergedSegs w) (pending w) (a_entries w) (arena_bytes w1)"
    by (rule inv_held_disk[OF _ k tk]) (use i in \<open>simp add: win_inv_def\<close>)
  then have "inv_held acc (mergedSegs w1) (pending w1) (a_entries w1) (arena_bytes w1)" by (simp add: w1)
  moreover have "inv_out P m0 acc (w_out w1) (mergedSegs w1) (merged w1)"
    "inv_keys (w_total w1) (mergedSegs w1) (a_tail w1) (pending w1) (a_entries w1)"
    "inv_bits (w_bitmap w1) (w_total w1) (mergedSegs w1) (a_entries w1)"
    "inv_counts (merged w1) (verified_bytes w1) (pendingBytes w1) (pending w1) (a_entries w1)"
    using i by (simp_all add: win_inv_def w1)
  ultimately show ?thesis unfolding win_inv_def using wf by blast
qed

lemma win_inv_known:
  assumes i: "win_inv P m0 acc w" and j: "0 \<le> j" "j < w_total w"
  shows "hasBit (w_bitmap w) j = (j < mergedSegs w \<or> map_of (a_entries w) j \<noteq> None)"
    and "hasBit (w_bitmap w) j \<or> map_of (pending w) j \<noteq> None \<longleftrightarrow> j < m0 \<or> acc j \<noteq> None"
proof -
  have h: "hasBit (w_bitmap w) j = (j < mergedSegs w \<or> j \<in> fst ` set (a_entries w))"
    using i j inv_bits_capacity[of "w_bitmap w" "w_total w" "mergedSegs w" "a_entries w"]
    by (simp add: win_inv_def inv_bits_def)
  then show h': "hasBit (w_bitmap w) j = (j < mergedSegs w \<or> map_of (a_entries w) j \<noteq> None)"
    by (simp add: map_of_eq_None_iff)
  have p: "map_of (pending w) j \<noteq> None \<Longrightarrow> mergedSegs w \<le> j"
    using i map_of_SomeD[of "pending w" j] by (auto simp: win_inv_def inv_keys_def)
  have m: "m0 \<le> mergedSegs w" by (rule win_inv_basic(3)[OF i])
  show "hasBit (w_bitmap w) j \<or> map_of (pending w) j \<noteq> None \<longleftrightarrow> j < m0 \<or> acc j \<noteq> None"
  proof (cases "j < mergedSegs w")
    case True
    have "\<forall>i. m0 \<le> i \<and> i < mergedSegs w \<longrightarrow> acc i \<noteq> None" using i by (simp add: win_inv_def inv_out_def)
    then have "j < m0 \<or> acc j \<noteq> None" using True not_less by blast
    then show ?thesis using h True by simp
  next
    case False
    then have "acc j = held_in (pending w) (a_entries w) (arena_bytes w) j"
      using i by (simp add: win_inv_def inv_held_def)
    then show ?thesis using h' False m by (auto simp: held_in_def split: option.splits)
  qed
qed

text \<open>What a call of \<open>Ingest\<close> does to the accepted payloads.\<close>

definition accepted :: "ingest_result \<Rightarrow> int \<Rightarrow> bytes \<Rightarrow> (int \<Rightarrow> bytes option) \<Rightarrow> int \<Rightarrow> bytes option" where
  "accepted res j p acc = (if Accepted res then acc(j \<mapsto> p) else acc)"

definition ingest_post ::
  "bytes \<Rightarrow> int \<Rightarrow> (int \<Rightarrow> bytes option) \<Rightarrow> int \<Rightarrow> bytes \<Rightarrow> window \<Rightarrow>
    ((ingest_result \<times> window_error option) \<times> window) option \<Rightarrow> bool" where
  "ingest_post P m0 acc j p w out \<longleftrightarrow>
     (case out of None \<Rightarrow> False
      | Some ((res, err), w1) \<Rightarrow>
          win_ok P m0 (accepted res j p acc) w1 \<and> w_total w1 = w_total w \<and> w_closed w1 = w_closed w \<and>
          (Accepted res \<longrightarrow> m0 \<le> j \<and> j < w_total w \<and> acc j = None) \<and>
          (Duplicate res \<longrightarrow> \<not> Accepted res \<and> (j < m0 \<or> acc j \<noteq> None)) \<and>
          (\<not> Accepted res \<and> \<not> Duplicate res \<longrightarrow> err \<noteq> None))"

lemma ingest_direct:
  assumes ok: "win_ok P m0 acc w" and c: "\<not> w_closed w" "storeErr w = None"
    and j: "j = mergedSegs w" "j < w_total w" and p: "p \<noteq> []"
    and n: "\<not> hasBit (w_bitmap w) j" "map_of (pending w) j = None"
  shows "ingest_post P m0 acc j p w (Ingest j p w)"
proof -
  let ?l = "int (length p)"
  have i: "win_inv P m0 acc w" and fr: "frontier_free w" using ok c by (simp_all add: win_ok_def)
  note b = win_inv_basic[OF i]
  have an: "m0 \<le> j" "acc j = None" using win_inv_known(2)[OF i, of j] n j b by auto
  show ?thesis
  proof (cases "?l > max_i64 - merged w \<or> ?l > max_i64 - verified_bytes w")
    case True
    then have "Ingest j p w = Some ((no_result, Some OffsetOverflow), w)"
      using c j p n b(4) by (auto simp: Ingest_def Let_def)
    then show ?thesis using ok by (simp add: ingest_post_def no_result_def accepted_def)
  next
    case False
    obtain ro w0 where wo: "writeOut p w = (ro, w0)" by fastforce
    from writeOut_effect[OF wo b(1,2)] obtain f "is" where w0: "w0 = w\<lparr>w_out := f, w_io := is\<rparr>"
      and f: "take (nat (merged w)) f = take (nat (merged w)) (w_out w)" "length (w_out w) \<le> length f"
        "ro = None \<longrightarrow> take (nat (merged w) + length p) f = take (nat (merged w)) (w_out w) @ p" by auto
    show ?thesis
    proof (cases ro)
      case (Some e)
      then have I: "Ingest j p w = Some ((no_result, Some e), w0\<lparr>storeErr := Some e\<rparr>)"
        using c j p n b(4) False wo by (auto simp: Ingest_def Let_def)
      have "win_inv P m0 acc w0" unfolding w0 by (rule win_inv_out2[OF i f(1,2)])
      then show ?thesis unfolding I
        by (simp add: ingest_post_def no_result_def accepted_def win_ok_def win_inv_latch) (simp add: w0)
    next
      case None
      define w2 where "w2 = w\<lparr>w_out := f, w_io := is, w_bitmap := setBit (w_bitmap w) (mergedSegs w),
        mergedSegs := mergedSegs w + 1, merged := merged w + ?l, verified_bytes := verified_bytes w + ?l\<rparr>"
      have w2: "w0\<lparr>w_bitmap := setBit (w_bitmap w0) j, mergedSegs := mergedSegs w0 + 1,
                    merged := merged w0 + ?l, verified_bytes := verified_bytes w0 + ?l\<rparr> = w2"
        by (simp add: w0 w2_def j)
      have i2: "win_inv P m0 (acc(j \<mapsto> p)) w2"
        unfolding w2_def j(1)
        by (rule win_inv_direct[OF i _ fr _ f(2)]) (use f(3) None j False in simp_all)
      have s2: "same_frame w w2" by (simp add: same_frame_def w2_def)
      obtain rd w3 where d: "drainLocked w2 = Some (rd, w3)" "win_inv P m0 (acc(j \<mapsto> p)) w3" "same_frame w2 w3"
        "rd = None \<longrightarrow> frontier_free w3" by (rule drainLocked_inv[OF i2])
      have I: "Ingest j p w = Some ((no_result\<lparr>Accepted := True, Direct := True\<rparr>, rd),
        case rd of None \<Rightarrow> w3 | Some e \<Rightarrow> w3\<lparr>storeErr := Some e\<rparr>)"
        unfolding Ingest_def Let_def using c p n False j b(4)
        by (cases rd) (simp_all add: wo None w2[unfolded j(1)] d(1))
      have s3: "same_frame w w3" by (rule same_frame_trans[OF s2 d(3)])
      show ?thesis unfolding I
        using d(2,4) s3 an j
        by (cases rd) (simp_all add: ingest_post_def accepted_def no_result_def win_ok_def win_inv_latch same_frame_def)
    qed
  qed
qed

lemma frontier_free_spill:
  assumes "frontier_free w" and "mergedSegs w1 = mergedSegs w" and "j \<noteq> mergedSegs w"
    and "pending w1 = drop_key j (pending w)" and "a_entries w1 = (j, e) # drop_key j (a_entries w)"
  shows "frontier_free w1"
  using assms by (simp add: frontier_free_def map_of_drop_key)

text \<open>One payload goes to the arena: the step shared by \<open>Ingest\<close> and \<open>FlushPending\<close>.\<close>

lemma append_step:
  assumes i: "win_inv P m0 acc w" and j: "mergedSegs w < j" "j < w_total w" and p: "p \<noteq> []"
    and n: "map_of (a_entries w) j = None"
    and acc: "acc' j = Some p" "\<forall>i. i \<noteq> j \<longrightarrow> acc' i = acc i"
    and pb: "pb = (case map_of (pending w) j of None \<Rightarrow> 0 | Some q \<Rightarrow> int (length q))"
    and ov: "int (length p) \<le> max_i64 - verified_bytes w"
    and sa: "spill_append j p w = (r, w1)"
  shows "same_frame w w1 \<and>
    (case r of
       Inl _ \<Rightarrow> win_inv P m0 acc w1
     | Inr e \<Rightarrow> w_bitmap w1 = w_bitmap w \<and> verified_bytes w1 = verified_bytes w \<and> pendingBytes w1 = pendingBytes w \<and>
         pending w1 = pending w \<and> mergedSegs w1 = mergedSegs w \<and> sp_Length e = int (length p) \<and>
         a_entries w1 = (j, e) # drop_key j (a_entries w) \<and>
         win_inv P m0 acc' (w1\<lparr>w_bitmap := setBit (w_bitmap w1) j, verified_bytes := verified_bytes w1 + sp_Length e,
           pendingBytes := pendingBytes w1 - pb, pending := drop_key j (pending w1)\<rparr>))"
proof -
  have wf: "arena_wf w" using i by (simp add: win_inv_def)
  from spill_append_effect[OF sa wf p] obtain "is" o1 D where
    tk: "take (nat (a_tail w)) (arena_bytes w1) = take (nat (a_tail w)) (arena_bytes w)" and wf1: "arena_wf w1" and
    c: "case r of
       Inl _ \<Rightarrow> w1 = w\<lparr>w_io := is, a_open := o1, a_disk := D\<rparr>
     | Inr e \<Rightarrow> e = \<lparr>SegmentIndex = j, sp_Offset = a_tail w, sp_Length = int (length p)\<rparr> \<and>
         w1 = w\<lparr>w_io := is, a_open := True, a_disk := D, a_entries := (j, e) # drop_key j (a_entries w),
                a_tail := a_tail w + int (length p)\<rparr> \<and> arena_slice w1 e = p" by blast
  show ?thesis
  proof (cases r)
    case (Inl e)
    then have w1: "w1 = w\<lparr>w_io := is, a_open := o1, a_disk := D\<rparr>" using c by simp
    show ?thesis using win_inv_spill_failed[OF i w1 tk wf1] Inl by (simp add: same_frame_def w1)
  next
    case (Inr e)
    then have e: "e = \<lparr>SegmentIndex = j, sp_Offset = a_tail w, sp_Length = int (length p)\<rparr>"
      and w1: "w1 = w\<lparr>w_io := is, a_open := True, a_disk := D, a_entries := (j, e) # drop_key j (a_entries w),
                a_tail := a_tail w + int (length p)\<rparr>" and sl: "arena_slice w1 e = p"
      using c unfolding Inr sum.case by blast+
    have fields: "w_bitmap w1 = w_bitmap w" "verified_bytes w1 = verified_bytes w" "pendingBytes w1 = pendingBytes w"
      "pending w1 = pending w" "mergedSegs w1 = mergedSegs w" "a_entries w1 = (j, e) # drop_key j (a_entries w)"
      "same_frame w w1"
      by (simp_all add: w1 same_frame_def)
    have l: "sp_Length e = int (length p)" by (simp add: e)
    show ?thesis
      using win_inv_spill[OF i order.strict_implies_order[OF j(1)] j(2) p n acc pb e w1 sl wf1 tk ov] Inr
      unfolding l fields(1-5) by (simp add: fields l)
  qed
qed

lemma ingest_later:
  assumes ok: "win_ok P m0 acc w" and c: "\<not> w_closed w" "storeErr w = None"
    and j: "mergedSegs w < j" "j < w_total w" and p: "p \<noteq> []"
    and n: "\<not> hasBit (w_bitmap w) j" "map_of (pending w) j = None"
  shows "ingest_post P m0 acc j p w (Ingest j p w)"
proof -
  let ?l = "int (length p)"
  have i: "win_inv P m0 acc w" and fr: "frontier_free w" using ok c by (simp_all add: win_ok_def)
  note b = win_inv_basic[OF i]
  have an: "m0 \<le> j" "acc j = None" using win_inv_known(2)[OF i, of j] n j b by auto
  have ne: "map_of (a_entries w) j = None" using win_inv_known(1)[OF i, of j] n j b by auto
  have ju: "\<not> j < 0" "\<not> w_total w \<le> j" "j \<noteq> mergedSegs w" using j b(4) by simp_all
  note I = Ingest_def[of j p w] Let_def
  show ?thesis
  proof (cases "?l \<le> reorderPendingBytesMax - pendingBytes w \<and> int (length (pending w)) < reorderPendingSegmentMax")
    case True
    define w1 where "w1 = w\<lparr>pending := (j, p) # pending w, pendingBytes := pendingBytes w + ?l\<rparr>"
    have "Ingest j p w = Some ((no_result\<lparr>Accepted := True, Buffered := True\<rparr>, None), w1)"
      using c p n ju True by (simp add: I w1_def)
    moreover have "win_inv P m0 (acc(j \<mapsto> p)) w1"
      unfolding w1_def by (rule win_inv_buffer[OF i j p n(2) ne]) (use True in simp_all)
    moreover have "frontier_free w1" using fr ju(3) by (simp add: frontier_free_def w1_def)
    ultimately show ?thesis using an j
      by (simp add: ingest_post_def accepted_def no_result_def win_ok_def) (simp add: w1_def)
  next
    case nb: False
    show ?thesis
    proof (cases "?l > max_i64 - verified_bytes w")
      case True
      then have "Ingest j p w = Some ((no_result, Some OffsetOverflow), w)"
        using c p n ju by (simp add: I nb)
      then show ?thesis using ok by (simp add: ingest_post_def no_result_def accepted_def)
    next
      case False
      obtain r w1 where sa: "spill_append j p w = (r, w1)" by fastforce
      have s: "same_frame w w1 \<and> (case r of
           Inl _ \<Rightarrow> win_inv P m0 acc w1
         | Inr e \<Rightarrow> w_bitmap w1 = w_bitmap w \<and> verified_bytes w1 = verified_bytes w \<and> pendingBytes w1 = pendingBytes w \<and>
             pending w1 = pending w \<and> mergedSegs w1 = mergedSegs w \<and> sp_Length e = ?l \<and>
             a_entries w1 = (j, e) # drop_key j (a_entries w) \<and>
             win_inv P m0 (acc(j \<mapsto> p)) (w1\<lparr>w_bitmap := setBit (w_bitmap w1) j,
               verified_bytes := verified_bytes w1 + sp_Length e,
               pendingBytes := pendingBytes w1 - 0, pending := drop_key j (pending w1)\<rparr>))"
        by (rule append_step[OF i j p ne _ _ _ _ sa]) (use n False in simp_all)
      show ?thesis
      proof (cases r)
        case (Inl e)
        have "Ingest j p w = Some ((no_result, Some e), w1\<lparr>storeErr := Some e\<rparr>)"
          using c p n ju False by (simp add: I nb sa Inl)
        then show ?thesis using s Inl
          by (simp add: ingest_post_def accepted_def no_result_def win_ok_def win_inv_latch same_frame_def)
      next
        case (Inr e)
        define w2 where "w2 = w1\<lparr>w_bitmap := setBit (w_bitmap w1) j, verified_bytes := verified_bytes w1 + sp_Length e\<rparr>"
        have If: "Ingest j p w = Some ((no_result\<lparr>Accepted := True, Spilled := True\<rparr>, None), w2)"
          using c p n ju False by (simp add: I nb sa Inr w2_def)
        have dp: "drop_key j (pending w) = pending w"
          by (rule drop_key_absent) (use n in \<open>simp add: map_of_eq_None_iff\<close>)
        have s1: "pending w1 = pending w" "mergedSegs w1 = mergedSegs w" "a_entries w1 = (j, e) # drop_key j (a_entries w)"
          "win_inv P m0 (acc(j \<mapsto> p)) (w1\<lparr>w_bitmap := setBit (w_bitmap w1) j, verified_bytes := verified_bytes w1 + sp_Length e,
             pendingBytes := pendingBytes w1 - 0, pending := drop_key j (pending w1)\<rparr>)" "same_frame w w1"
          using s unfolding Inr sum.case by blast+
        have "w1\<lparr>w_bitmap := setBit (w_bitmap w1) j, verified_bytes := verified_bytes w1 + sp_Length e,
             pendingBytes := pendingBytes w1 - 0, pending := drop_key j (pending w1)\<rparr> = w2"
          unfolding s1(1) dp by (simp add: w2_def s1(1)[symmetric])
        then have i2: "win_inv P m0 (acc(j \<mapsto> p)) w2" using s1(4) by simp
        have "frontier_free w2"
          by (rule frontier_free_spill[OF fr _ ju(3)]) (simp_all add: w2_def s1 dp)
        then show ?thesis unfolding If using i2 s1(5) an j
          by (simp add: ingest_post_def accepted_def no_result_def win_ok_def same_frame_def w2_def)
      qed
    qed
  qed
qed

lemma Ingest_ok:
  assumes ok: "win_ok P m0 acc w"
  shows "ingest_post P m0 acc j p w (Ingest j p w)"
proof -
  have r: "ingest_post P m0 acc j p w (Some ((no_result, Some e), w))" for e
    using ok by (simp add: ingest_post_def no_result_def accepted_def)
  have d: "j < m0 \<or> acc j \<noteq> None \<Longrightarrow> ingest_post P m0 acc j p w (Some ((no_result\<lparr>Duplicate := True\<rparr>, None), w))"
    using ok by (simp add: ingest_post_def no_result_def accepted_def)
  consider "w_closed w" | "\<not> w_closed w" "storeErr w \<noteq> None"
    | "\<not> w_closed w" "storeErr w = None" "j < 0 \<or> w_total w \<le> j"
    | "\<not> w_closed w" "storeErr w = None" "0 \<le> j" "j < w_total w" "p = []"
    | "\<not> w_closed w" "storeErr w = None" "0 \<le> j" "j < w_total w" "p \<noteq> []"
    by fastforce
  then show ?thesis
  proof cases
    case 1
    then have "Ingest j p w = Some ((no_result, Some WindowClosed), w)" by (simp add: Ingest_def)
    then show ?thesis by (simp only: r)
  next
    case 2
    then obtain e where "storeErr w = Some e" by blast
    then have "Ingest j p w = Some ((no_result, Some e), w)" using 2 by (simp add: Ingest_def)
    then show ?thesis by (simp only: r)
  next
    case 3
    then have "Ingest j p w = Some ((no_result, Some (IndexOutOfRange j)), w)" by (simp add: Ingest_def)
    then show ?thesis by (simp only: r)
  next
    case 4
    then have "Ingest j p w = Some ((no_result, Some (EmptyPayload j)), w)" by (simp add: Ingest_def)
    then show ?thesis by (simp only: r)
  next
    case 5
    have i: "win_inv P m0 acc w" using ok by (simp add: win_ok_def)
    show ?thesis
    proof (cases "hasBit (w_bitmap w) j \<or> map_of (pending w) j \<noteq> None")
      case True
      then have "Ingest j p w = Some ((no_result\<lparr>Duplicate := True\<rparr>, None), w)"
        using 5 by (auto simp: Ingest_def Let_def)
      then show ?thesis using d win_inv_known(2)[OF i 5(3,4)] True by simp
    next
      case False
      then have n: "\<not> hasBit (w_bitmap w) j" "map_of (pending w) j = None" by simp_all
      have "mergedSegs w \<le> j" using win_inv_known(1)[OF i 5(3,4)] n by simp
      then consider "j = mergedSegs w" | "mergedSegs w < j" by linarith
      then show ?thesis
        using ingest_direct[OF ok 5(1,2) _ 5(4,5) n] ingest_later[OF ok 5(1,2) _ 5(4,5) n] by cases simp_all
    qed
  qed
qed

section \<open>Flushing and synchronising\<close>

definition flush_post where
  "flush_post P m0 acc w r w1 \<longleftrightarrow> win_inv P m0 acc w1 \<and> frontier_free w1 \<and> w_total w1 = w_total w \<and>
     w_closed w1 = w_closed w \<and> mergedSegs w1 = mergedSegs w \<and> merged w1 = merged w \<and> (r = None \<longrightarrow> pending w1 = [])"

lemma flush_loop_inv:
  "win_inv P m0 acc w \<Longrightarrow> frontier_free w \<Longrightarrow> distinct (map fst xs) \<Longrightarrow>
    (\<forall>j p. (j, p) \<in> set xs \<longleftrightarrow> (j, p) \<in> set (pending w)) \<Longrightarrow> flush_loop xs w = (r, w1) \<Longrightarrow>
    flush_post P m0 acc w r w1"
proof (induction xs arbitrary: w)
  case Nil
  then have "pending w = []" by (cases "pending w") auto
  then show ?case using Nil by (simp add: flush_post_def)
next
  case (Cons x xs)
  obtain j p where x: "x = (j, p)" by fastforce
  have i: "win_inv P m0 acc w" and fr: "frontier_free w" by (fact Cons.prems)+
  have k: "inv_keys (w_total w) (mergedSegs w) (a_tail w) (pending w) (a_entries w)" using i by (simp add: win_inv_def)
  have jp: "(j, p) \<in> set (pending w)" using Cons.prems(4)[rule_format, of j p] x by simp
  have dp: "distinct (map fst (pending w))" using k by (simp add: inv_keys_def)
  have mp: "map_of (pending w) j = Some p" using jp dp by (simp add: map_of_eq_Some_iff)
  have jr: "mergedSegs w \<le> j" "j < w_total w" "p \<noteq> []" using k jp by (auto simp: inv_keys_def)
  have "j \<noteq> mergedSegs w" using fr mp by (auto simp: frontier_free_def)
  then have jl: "mergedSegs w < j" using jr by simp
  have ne: "map_of (a_entries w) j = None"
    using inv_keys_absent(1)[OF k mp] by (simp add: map_of_eq_None_iff)
  have ac: "acc j = Some p" using i jr mp by (simp add: win_inv_def inv_held_def held_in_def)
  show ?case
  proof (cases "int (length p) > max_i64 - verified_bytes w")
    case True
    then have "r = Some OffsetOverflow \<and> w1 = w" using Cons.prems(5) by (simp add: x Let_def)
    then show ?thesis using i fr by (simp add: flush_post_def)
  next
    case False
    obtain ra wa where sa: "spill_append j p w = (ra, wa)" by fastforce
    have ov: "int (length p) \<le> max_i64 - verified_bytes w" using False by simp
    have ac2: "\<forall>i. i \<noteq> j \<longrightarrow> acc i = acc i" by simp
    note s = append_step[OF i jl jr(2,3) ne ac ac2 refl ov sa, unfolded mp option.case]
    show ?thesis
    proof (cases ra)
      case (Inl e)
      then have rw: "r = Some e" "w1 = wa\<lparr>storeErr := Some e\<rparr>" using Cons.prems(5) False by (auto simp: x Let_def sa)
      obtain "is" o1 D where wa: "wa = w\<lparr>w_io := is, a_open := o1, a_disk := D\<rparr>"
        using spill_append_effect[OF sa _ jr(3)] i Inl by (auto simp: win_inv_def)
      show ?thesis using s Inl fr unfolding rw
        by (simp add: flush_post_def win_inv_latch) (simp add: wa frontier_free_def)
    next
      case (Inr e)
      define w2 where "w2 = wa\<lparr>w_bitmap := setBit (w_bitmap wa) j, verified_bytes := verified_bytes wa + sp_Length e,
           pendingBytes := pendingBytes wa - int (length p), pending := drop_key j (pending wa)\<rparr>"
      have s1: "pending wa = pending w" "mergedSegs wa = mergedSegs w" "a_entries wa = (j, e) # drop_key j (a_entries w)"
        "win_inv P m0 acc w2" "same_frame w wa"
        using s unfolding Inr sum.case w2_def by blast+
      obtain "is" o1 D ee tl where wa: "wa = w\<lparr>w_io := is, a_open := o1, a_disk := D, a_entries := ee, a_tail := tl\<rparr>"
        using spill_append_effect[OF sa _ jr(3)] i unfolding Inr sum.case win_inv_def by blast
      have fl: "flush_loop xs w2 = (r, w1)"
        using Cons.prems(5) False by (simp add: x Let_def sa Inr w2_def)
      have fr2: "frontier_free w2"
        by (rule frontier_free_spill[OF fr]) (use s1 jl in \<open>simp_all add: w2_def\<close>)
      have "flush_post P m0 acc w2 r w1"
      proof (rule Cons.IH[OF s1(4) fr2 _ _ fl])
        show "distinct (map fst xs)" using Cons.prems(3) by simp
        have "j \<notin> fst ` set xs" using Cons.prems(3) by (simp add: x)
        then have "(i, q) \<in> set xs \<longleftrightarrow> (i, q) \<in> set (pending w) \<and> i \<noteq> j" for i q
          using Cons.prems(4) dp jp x by (force dest: eq_key_imp_eq_value)
        then show "\<forall>i q. (i, q) \<in> set xs \<longleftrightarrow> (i, q) \<in> set (pending w2)"
          by (simp add: w2_def s1(1) set_drop_key)
      qed
      then show ?thesis using s1(2,5) wa by (simp add: flush_post_def same_frame_def w2_def)
    qed
  qed
qed

lemma FlushPending_ok:
  assumes ok: "win_ok P m0 acc w" and f: "FlushPending w = (r, w1)"
  shows "win_ok P m0 acc w1 \<and> w_total w1 = w_total w \<and> w_closed w1 = w_closed w \<and>
    (r = None \<longrightarrow> pending w1 = [] \<and> mergedSegs w1 = mergedSegs w \<and> merged w1 = merged w)"
proof (cases "w_closed w \<or> storeErr w \<noteq> None")
  case True
  then have "w1 = w \<and> r \<noteq> None" using f by (auto simp: FlushPending_def split: if_splits)
  then show ?thesis using ok by auto
next
  case False
  then have fl: "flush_loop (sort_key fst (pending w)) w = (r, w1)" using f by (simp add: FlushPending_def)
  have i: "win_inv P m0 acc w" "frontier_free w" using ok False by (simp_all add: win_ok_def)
  have "distinct (map fst (pending w))" using i by (simp add: win_inv_def inv_keys_def)
  then have d: "distinct (map fst (sort_key fst (pending w)))" by (simp add: distinct_map inj_on_def)
  have "flush_post P m0 acc w r w1" by (rule flush_loop_inv[OF i d _ fl]) simp
  then show ?thesis by (simp add: flush_post_def win_ok_def)
qed

lemma window_Sync_ok:
  assumes ok: "win_ok P m0 acc w" and s: "window_Sync w = (r, w1)"
  shows "win_ok P m0 acc w1 \<and> w_total w1 = w_total w \<and> w_closed w1 = w_closed w"
proof (cases "w_closed w")
  case True
  then show ?thesis using ok s by (simp add: window_Sync_def)
next
  case False
  obtain r1 wa where n1: "next_io w = (r1, wa)" by fastforce
  then obtain is1 where wa: "wa = w\<lparr>w_io := is1\<rparr>" using next_io_eq by blast
  obtain r2 wb where n2: "(if a_open wa then next_io wa else (IoOk, wa)) = (r2, wb)" by fastforce
  have "\<exists>is. wb = wa\<lparr>w_io := is\<rparr>"
  proof (cases "a_open wa")
    case True
    then show ?thesis using n2 next_io_eq by simp
  next
    case False
    then have "wb = wa\<lparr>w_io := w_io wa\<rparr>" using n2 by simp
    then show ?thesis by blast
  qed
  then obtain is2 where wb: "wb = w\<lparr>w_io := is2\<rparr>" using wa by auto
  have "w1 = wb \<or> (storeErr w = None \<and> (\<exists>e. w1 = wb\<lparr>storeErr := Some e\<rparr>))"
    using s False unfolding window_Sync_def n1 Let_def
    by (auto simp: n2 wb split: if_splits)
  moreover have "win_ok P m0 acc wb"
    using ok by (simp add: wb win_ok_def win_inv_def arena_wf_def arena_bytes_def frontier_free_def)
  ultimately show ?thesis
    by (auto simp: win_ok_def win_inv_latch wb)
qed

end
