(* ===== verification/ReorderRuns.thy ===== *)
theory ReorderRuns
  imports ReorderInvariant
begin

text \<open>
  Runs of the reorder window: any sequence of calls on a window over a prepared prefix, and what
  the output, the counters and the results of the calls satisfy then.
\<close>

section \<open>Runs\<close>

text \<open>
  A run calls the window in any order, and keeps what its results said to be accepted.
\<close>

datatype window_op = DoIngest int bytes | DoFlush | DoSync

fun window_step :: "window_op \<Rightarrow> (int \<Rightarrow> bytes option) \<times> window \<Rightarrow> ((int \<Rightarrow> bytes option) \<times> window) option" where
  "window_step (DoIngest j p) (acc, w) =
     (case Ingest j p w of None \<Rightarrow> None | Some ((res, _), w1) \<Rightarrow> Some (accepted res j p acc, w1))"
| "window_step DoFlush (acc, w) = Some (acc, snd (FlushPending w))"
| "window_step DoSync (acc, w) = Some (acc, snd (window_Sync w))"

fun window_run :: "window_op list \<Rightarrow> (int \<Rightarrow> bytes option) \<times> window \<Rightarrow> ((int \<Rightarrow> bytes option) \<times> window) option" where
  "window_run [] s = Some s"
| "window_run (op # ops) s = (case window_step op s of None \<Rightarrow> None | Some s1 \<Rightarrow> window_run ops s1)"

lemma window_step_ok:
  assumes "win_ok P m0 acc w"
  shows "\<exists>acc1 w1. window_step op (acc, w) = Some (acc1, w1) \<and> win_ok P m0 acc1 w1 \<and> w_total w1 = w_total w"
proof (cases op)
  case (DoIngest j p)
  then show ?thesis using Ingest_ok[OF assms, of j p]
    by (auto simp: ingest_post_def split: option.splits)
next
  case DoFlush
  then show ?thesis using FlushPending_ok[OF assms, of "fst (FlushPending w)" "snd (FlushPending w)"] by simp
next
  case DoSync
  then show ?thesis using window_Sync_ok[OF assms, of "fst (window_Sync w)" "snd (window_Sync w)"] by simp
qed

lemma window_run_ok:
  "win_ok P m0 acc w \<Longrightarrow>
    \<exists>acc1 w1. window_run ops (acc, w) = Some (acc1, w1) \<and> win_ok P m0 acc1 w1 \<and> w_total w1 = w_total w"
proof (induction ops arbitrary: acc w)
  case Nil
  then show ?case by simp
next
  case (Cons op ops)
  obtain acc1 w1 where s: "window_step op (acc, w) = Some (acc1, w1)" "win_ok P m0 acc1 w1" "w_total w1 = w_total w"
    using window_step_ok[OF Cons.prems] by blast
  show ?case using Cons.IH[OF s(2)] s by auto
qed

text \<open>A window over a prepared prefix that has accepted nothing yet.\<close>

definition fresh_window :: "window \<Rightarrow> bool" where
  "fresh_window w \<longleftrightarrow> pending w = [] \<and> a_entries w = [] \<and> pendingBytes w = 0 \<and> \<not> a_open w \<and> a_tail w = 0 \<and>
     \<not> w_closed w \<and> storeErr w = None \<and> 0 \<le> mergedSegs w \<and> mergedSegs w \<le> w_total w \<and>
     int (length (w_bitmap w)) = (w_total w + 7) div 8 \<and> merged w = int (length (w_out w)) \<and> verified_bytes w = merged w \<and>
     merged w \<le> max_i64 \<and> (\<forall>i \<in> set [0..bit_capacity (w_bitmap w) - 1]. hasBit (w_bitmap w) i = (i < mergedSegs w))"

lemma fresh_window_ok: "fresh_window w \<Longrightarrow> win_ok (w_out w) (mergedSegs w) Map.empty w"
  by (auto simp: fresh_window_def win_ok_def win_inv_def inv_out_def merged_image_def inv_keys_def inv_bits_def
      inv_held_def held_in_def inv_counts_def arena_wf_def frontier_free_def reorderPendingBytesMax_def
      reorderPendingSegmentMax_def)

lemma win_inv_complete:
  assumes ok: "win_ok P m0 acc w" and e: "storeErr w = None"
    and all: "\<forall>i \<in> set [m0..w_total w - 1]. acc i \<noteq> None"
  shows "mergedSegs w = w_total w \<and> pending w = [] \<and> a_entries w = [] \<and> verified_bytes w = merged w"
proof -
  have i: "win_inv P m0 acc w" and fr: "frontier_free w" using ok e by (simp_all add: win_ok_def)
  note b = win_inv_basic[OF i]
  have n: "acc (mergedSegs w) = None"
    using i fr by (simp add: win_inv_def inv_held_def held_in_def frontier_free_def)
  have m: "mergedSegs w = w_total w"
  proof (rule ccontr)
    assume "mergedSegs w \<noteq> w_total w"
    then have "mergedSegs w \<in> set [m0..w_total w - 1]" using b by simp
    then show False using all n by blast
  qed
  have k: "inv_keys (w_total w) (mergedSegs w) (a_tail w) (pending w) (a_entries w)" using i by (simp add: win_inv_def)
  have "(j, p) \<notin> set (pending w)" for j p
  proof
    assume "(j, p) \<in> set (pending w)"
    then have "mergedSegs w \<le> j \<and> j < w_total w" using k unfolding inv_keys_def by blast
    then show False using m by linarith
  qed
  then have "pending w = []" by (cases "pending w") auto
  moreover have "(j, e) \<notin> set (a_entries w)" for j e
  proof
    assume "(j, e) \<in> set (a_entries w)"
    then have "entry_ok (w_total w) (mergedSegs w) (a_tail w) j e" using k unfolding inv_keys_def by blast
    then show False using m by (auto simp: entry_ok_def)
  qed
  then have "a_entries w = []" by (cases "a_entries w") auto
  ultimately show ?thesis using m i by (simp add: win_inv_def inv_counts_def)
qed


section \<open>Properties\<close>

text \<open>C11: The window never releases bytes out of order: after any sequence of calls, and whatever the
  file system answers to each, every call has returned and the merged part of the output is the
  prepared prefix followed by the accepted payloads in index order.\<close>

theorem output_in_order:
  assumes "fresh_window w"
  shows "\<exists>acc w1. window_run ops (Map.empty, w) = Some (acc, w1) \<and>
    mergedSegs w \<le> mergedSegs w1 \<and> mergedSegs w1 \<le> w_total w \<and>
    (\<forall>i. mergedSegs w \<le> i \<and> i < mergedSegs w1 \<longrightarrow> acc i \<noteq> None) \<and>
    take (nat (merged w1)) (w_out w1) =
      w_out w @ concat (map (\<lambda>i. the (acc i)) [mergedSegs w..mergedSegs w1 - 1])"
proof -
  obtain acc w1 where r: "window_run ops (Map.empty, w) = Some (acc, w1)"
    "win_ok (w_out w) (mergedSegs w) acc w1" "w_total w1 = w_total w"
    using window_run_ok[OF fresh_window_ok[OF assms]] by blast
  have i: "win_inv (w_out w) (mergedSegs w) acc w1" using r(2) by (simp add: win_ok_def)
  then have "inv_out (w_out w) (mergedSegs w) acc (w_out w1) (mergedSegs w1) (merged w1)" by (simp add: win_inv_def)
  then show ?thesis using r(1,3) win_inv_basic(5)[OF i]
    by (intro exI[of _ acc] exI[of _ w1]) (simp add: inv_out_def merged_image_def)
qed

text \<open>C12: When every segment has been accepted and no storage fault is latched, the file is complete.\<close>

theorem output_completes:
  assumes "fresh_window w" and "window_run ops (Map.empty, w) = Some (acc, w1)" and "storeErr w1 = None"
    and "\<forall>i \<in> set [mergedSegs w..w_total w - 1]. acc i \<noteq> None"
  shows "mergedSegs w1 = w_total w \<and> pending w1 = [] \<and> a_entries w1 = [] \<and> verified_bytes w1 = merged w1 \<and>
    take (nat (merged w1)) (w_out w1) = w_out w @ concat (map (\<lambda>i. the (acc i)) [mergedSegs w..w_total w - 1])"
proof -
  have ok: "win_ok (w_out w) (mergedSegs w) acc w1" "w_total w1 = w_total w"
    using window_run_ok[OF fresh_window_ok[OF assms(1)], of ops] assms(2) by auto
  have c: "mergedSegs w1 = w_total w1 \<and> pending w1 = [] \<and> a_entries w1 = [] \<and> verified_bytes w1 = merged w1"
    by (rule win_inv_complete[OF ok(1) assms(3)]) (use assms(4) ok(2) in simp)
  have "inv_out (w_out w) (mergedSegs w) acc (w_out w1) (mergedSegs w1) (merged w1)"
    using ok(1) by (simp add: win_ok_def win_inv_def)
  then show ?thesis using c ok(2) by (simp add: inv_out_def merged_image_def)
qed

text \<open>The memory the window retains is bounded, and its counters are exact.\<close>

theorem retention_bounds:
  assumes "fresh_window w" and "window_run ops (Map.empty, w) = Some (acc, w1)"
  shows "length (pending w1) \<le> 16 \<and> (\<Sum>(i, p)\<leftarrow>pending w1. int (length p)) = pendingBytes w1 \<and>
    pendingBytes w1 \<le> 32 * 1024 * 1024 \<and>
    verified_bytes w1 = merged w1 + (\<Sum>(i, e)\<leftarrow>a_entries w1. sp_Length e) \<and> verified_bytes w1 \<le> max_i64"
proof -
  have "win_ok (w_out w) (mergedSegs w) acc w1"
    using window_run_ok[OF fresh_window_ok[OF assms(1)], of ops] assms(2) by auto
  then show ?thesis
    by (simp add: win_ok_def win_inv_def inv_counts_def reorderPendingBytesMax_def reorderPendingSegmentMax_def)
qed

text \<open>At any point of a run, \<open>Ingest\<close> accepts a segment only if it was never accepted before, calls it a
  duplicate only if its bytes are held, and otherwise reports an error.\<close>

theorem ingest_results:
  assumes "fresh_window w" and "window_run ops (Map.empty, w) = Some (acc, w1)"
  shows "\<exists>res err w2. Ingest j p w1 = Some ((res, err), w2) \<and>
    (Accepted res \<longrightarrow> mergedSegs w \<le> j \<and> j < w_total w \<and> acc j = None) \<and>
    (Duplicate res \<longrightarrow> \<not> Accepted res \<and> (j < mergedSegs w \<or> acc j \<noteq> None)) \<and>
    (\<not> Accepted res \<and> \<not> Duplicate res \<longrightarrow> err \<noteq> None)"
proof -
  have ok: "win_ok (w_out w) (mergedSegs w) acc w1" "w_total w1 = w_total w"
    using window_run_ok[OF fresh_window_ok[OF assms(1)], of ops] assms(2) by auto
  show ?thesis using Ingest_ok[OF ok(1), of j p] ok(2)
    by (auto simp: ingest_post_def split: option.splits)
qed

definition demo_window :: window where
  "demo_window = \<lparr>w_out = [7], w_total = 3, mergedSegs = 0, merged = 1, verified_bytes = 1, pending = [],
     pendingBytes = 0, w_bitmap = [0], w_closed = False, storeErr = None, a_open = False, a_disk = None,
     a_tail = 0, a_entries = [], rangeCopyDown = False, w_io = []\<rparr>"

definition demo_ops :: "window_op list" where
  "demo_ops = [DoIngest 2 [30, 31], DoFlush, DoIngest 1 [20], DoIngest 0 [10]]"

lemma demo_fresh: "fresh_window demo_window"
  by (simp add: fresh_window_def demo_window_def bit_capacity_def hasBit_def max_i64_def upto.simps)

section \<open>A concrete run\<close>

definition demo_done :: "((int \<Rightarrow> bytes option) \<times> window) option \<Rightarrow> bool" where
  "demo_done r = (case r of None \<Rightarrow> False | Some (acc, w1) \<Rightarrow> storeErr w1 = None \<and>
    acc 0 = Some [10] \<and> acc 1 = Some [20] \<and> acc 2 = Some [30, 31] \<and> w_out w1 = [7, 10, 20, 30, 31])"

lemma demo_runs: "demo_done (window_run demo_ops (Map.empty, demo_window))"
  by code_simp

lemma demo_result:
  obtains acc w1 where "window_run demo_ops (Map.empty, demo_window) = Some (acc, w1)" "storeErr w1 = None"
    "acc 0 = Some [10]" "acc 1 = Some [20]" "acc 2 = Some [30, 31]" "w_out w1 = [7, 10, 20, 30, 31]"
  using demo_runs by (auto simp: demo_done_def split: option.splits)

lemma demo_seed: "mergedSegs demo_window = 0" "w_total demo_window = 3" "w_out demo_window = [7]"
  by (simp_all add: demo_window_def)

theorem output_in_order_witness:
  "\<exists>acc w1. window_run demo_ops (Map.empty, demo_window) = Some (acc, w1) \<and>
    take (nat (merged w1)) (w_out w1) = [7] @ concat (map (\<lambda>i. the (acc i)) [0..mergedSegs w1 - 1])"
  using output_in_order[OF demo_fresh, of demo_ops] unfolding demo_seed by blast

theorem output_completes_witness:
  "\<exists>acc w1. window_run demo_ops (Map.empty, demo_window) = Some (acc, w1) \<and>
    mergedSegs w1 = 3 \<and> take (nat (merged w1)) (w_out w1) = [7, 10, 20, 30, 31]"
proof (rule demo_result)
  fix acc w1
  assume r: "window_run demo_ops (Map.empty, demo_window) = Some (acc, w1)" "storeErr w1 = None"
    "acc 0 = Some [10]" "acc 1 = Some [20]" "acc 2 = Some [30, 31]"
  have u: "[0..3 - 1] = [0, 1, 2::int]" by (simp add: upto.simps)
  have "\<forall>i \<in> set [0..3 - 1]. acc i \<noteq> None" unfolding u by (simp add: r)
  then show ?thesis
    using output_completes[OF demo_fresh r(1,2), unfolded demo_seed u] r by (simp add: u)
qed

theorem retention_bounds_witness:
  "\<exists>acc w1. window_run demo_ops (Map.empty, demo_window) = Some (acc, w1) \<and> pendingBytes w1 \<le> 32 * 1024 * 1024"
proof (rule demo_result)
  fix acc w1
  assume r: "window_run demo_ops (Map.empty, demo_window) = Some (acc, w1)"
  show ?thesis using retention_bounds[OF demo_fresh r] r by blast
qed

theorem ingest_results_witness:
  "\<exists>acc w1. window_run demo_ops (Map.empty, demo_window) = Some (acc, w1) \<and>
    (\<exists>res err w2. Ingest 1 [9] w1 = Some ((res, err), w2) \<and> \<not> Accepted res)"
proof (rule demo_result)
  fix acc w1
  assume r: "window_run demo_ops (Map.empty, demo_window) = Some (acc, w1)" "acc 1 = Some [20]"
  show ?thesis using ingest_results[OF demo_fresh r(1), of 1 "[9]"] r by auto
qed

end
