(* ===== verification/ReorderSeed.thy ===== *)
theory ReorderSeed
  imports ReorderRuns
begin

text \<open>
  Checkpoints of the HLS strategy: the resume state (internal/surge/types/models.go), its validation,
  the opening of a reorder window on it (reorder.go, spill.go) and the mount that prepares the files
  first (mount.go, init_segment.go). The error messages keep the leading words of the code's.
\<close>

section \<open>The resume state\<close>

record hls_segment =
  Index :: int
  Sequence :: int
  URI :: string
  DurationMicros :: int
  ByteOffset :: int
  ByteLength :: int
  KeyIndex :: int
  IVHex :: string

record hls_key =
  key_Method :: string
  key_URI :: string
  key_IVHex :: string

record resume_state =
  ManifestURL :: string
  MediaPlaylistURL :: string
  SegmentRefURL :: string
  ManifestFingerprint :: string
  ContainerFormat :: string
  EstimatedBytes :: int
  RecordEligible :: bool
  InitSegmentURI :: string
  InitByteOffset :: int
  InitByteLength :: int
  InitKeyIndex :: int
  InitIVHex :: string
  InitCompleted :: bool
  InitBytes :: int
  TotalSegments :: int
  CompletedBitmap :: bytes
  MergedSegments :: int
  MergedBytes :: int
  VerifiedBytes :: int
  SpillPath :: string
  SpillFileSize :: int
  SpillEntries :: "spill_entry list"
  Keys :: "hls_key list"
  Segments :: "hls_segment list"

datatype mount_error =
    DirtySeed string | MountStorage window_error | BadSpillID string | ContractError string | NoOutput string
  | FetchError string

section \<open>Validation\<close>

text \<open>\<open>for i := m; i >= 0 && i < total && i>>3 < len(bitmap)\<close> clears the bits from the frontier on.\<close>

definition clear_from :: "bytes \<Rightarrow> int \<Rightarrow> int \<Rightarrow> bytes" where
  "clear_from bm m tot = (if m < 0 then bm else foldl clearBit bm [m..min tot (bit_capacity bm) - 1])"

definition demoteSpill :: "resume_state \<Rightarrow> resume_state" where
  "demoteSpill s = s\<lparr>CompletedBitmap := clear_from (CompletedBitmap s) (MergedSegments s) (TotalSegments s),
     SpillPath := [], SpillFileSize := 0, SpillEntries := [], VerifiedBytes := MergedBytes s\<rparr>"

text \<open>The source range of the merged segments, when all of them declare one.\<close>

fun known_upper :: "hls_segment list \<Rightarrow> int \<Rightarrow> string + int option" where
  "known_upper [] upper = Inr (Some upper)"
| "known_upper (g # gs) upper =
     (if ByteLength g \<le> 0 then Inr None
      else if ByteLength g > max_i64 - upper then Inl ''segment length sum overflow''
      else known_upper gs (upper + ByteLength g))"

definition tail_bits :: "bytes \<Rightarrow> int \<Rightarrow> 8 word" where
  "tail_bits bm tot = drop_bit (nat (tot mod 8)) (last bm)"

fun indexed :: "int \<Rightarrow> hls_segment list \<Rightarrow> bool" where
  "indexed i [] = True"
| "indexed i (g # gs) = (Index g = i \<and> indexed (i + 1) gs)"

definition validate_table :: "resume_state \<Rightarrow> string option" where
  "validate_table s =
     (if TotalSegments s \<le> 0 then Some ''total segments''
      else if int (length (Segments s)) \<noteq> TotalSegments s then Some ''segment rows''
      else if \<not> indexed 0 (Segments s) then Some ''segment index''
      else if MergedSegments s < 0 \<or> MergedSegments s > TotalSegments s then Some ''merged segments''
      else if int (length (CompletedBitmap s)) \<noteq> (TotalSegments s + 7) div 8 then Some ''bitmap bytes''
      else if \<not> list_all (\<lambda>i. hasBit (CompletedBitmap s) i = (i < MergedSegments s)) [0..TotalSegments s - 1]
           then Some ''bitmap bit outside merged prefix''
      else if TotalSegments s mod 8 \<noteq> 0 \<and> tail_bits (CompletedBitmap s) (TotalSegments s) \<noteq> 0
           then Some ''bitmap tail bits set''
      else None)"

definition validate_bytes :: "resume_state \<Rightarrow> string option" where
  "validate_bytes s =
     (if InitSegmentURI s = [] \<and> (InitCompleted s \<or> InitBytes s \<noteq> 0) then Some ''init counters without init segment''
      else if InitSegmentURI s \<noteq> [] \<and> (\<not> InitCompleted s \<or> InitBytes s \<le> 0) then Some ''init declared but not written''
      else if InitBytes s < 0 \<or> MergedBytes s < 0 then Some ''negative byte counter''
      else if MergedBytes s < InitBytes s then Some ''merged below init''
      else if MergedSegments s = 0 \<and> MergedBytes s \<noteq> InitBytes s then Some ''merged != init at zero merged segments''
      else if MergedSegments s \<noteq> 0 \<and> MergedBytes s \<le> InitBytes s then Some ''merged not past init''
      else case (if MergedSegments s = 0 then Inr None else known_upper (take (nat (MergedSegments s)) (Segments s)) 0) of
          Inl e \<Rightarrow> Some e
        | Inr (Some upper) \<Rightarrow>
            (if MergedBytes s > add64 (InitBytes s) upper then Some ''merged exceeds source range'' else None)
        | Inr None \<Rightarrow> None)"

definition validate_clean :: "resume_state \<Rightarrow> string option" where
  "validate_clean s =
     (if VerifiedBytes s \<noteq> MergedBytes s then Some ''verified != merged''
      else if SpillPath s \<noteq> [] \<or> SpillFileSize s \<noteq> 0 \<or> SpillEntries s \<noteq> [] then Some ''residual spill bookkeeping''
      else None)"

definition validateSeed :: "resume_state option \<Rightarrow> string option" where
  "validateSeed seed =
     (case seed of None \<Rightarrow> Some ''nil state''
      | Some s \<Rightarrow>
          (case validate_table s of Some e \<Rightarrow> Some e
           | None \<Rightarrow> (case validate_bytes s of Some e \<Rightarrow> Some e | None \<Rightarrow> validate_clean s)))"

text \<open>The spill ledger: entries in index order, each with its bit and inside the file.\<close>

fun check_entries :: "resume_state \<Rightarrow> int option \<Rightarrow> int \<Rightarrow> spill_entry list \<Rightarrow> string + int" where
  "check_entries s prev total_len [] = Inr total_len"
| "check_entries s prev total_len (e # es) =
     (if SegmentIndex e < MergedSegments s \<or> SegmentIndex e \<ge> TotalSegments s then Inl ''spill entry index''
      else if (case prev of None \<Rightarrow> False | Some k \<Rightarrow> SegmentIndex e \<le> k) then Inl ''spill entries out of order''
      else if \<not> hasBit (CompletedBitmap s) (SegmentIndex e) then Inl ''spill entry lacks its bitmap bit''
      else if sp_Offset e < 0 \<or> sp_Length e \<le> 0 \<or> sp_Length e > SpillFileSize s \<or>
              sp_Offset e > SpillFileSize s - sp_Length e then Inl ''spill entry exceeds file size''
      else if sp_Length e > max_i64 - total_len then Inl ''spill length sum overflow''
      else check_entries s (Some (SegmentIndex e)) (total_len + sp_Length e) es)"

fun overlap_free :: "spill_entry list \<Rightarrow> bool" where
  "overlap_free (x # y # zs) = (\<not> sp_Offset y < sp_Offset x + sp_Length x \<and> overlap_free (y # zs))"
| "overlap_free _ = True"

definition count_bits :: "bytes \<Rightarrow> int \<Rightarrow> int \<Rightarrow> int" where
  "count_bits bm m tot = int (length (filter (hasBit bm) [m..tot - 1]))"

definition ValidateCheckpointSeed :: "resume_state option \<Rightarrow> string option" where
  "ValidateCheckpointSeed seed =
     (case seed of None \<Rightarrow> Some ''nil state''
      | Some s \<Rightarrow>
        (case validateSeed (Some (demoteSpill s)) of Some e \<Rightarrow> Some e
         | None \<Rightarrow>
           if SpillEntries s = [] then
             (if VerifiedBytes s \<noteq> MergedBytes s \<or> SpillPath s \<noteq> [] \<or> SpillFileSize s \<noteq> 0
              then Some ''residual spill bookkeeping''
              else if list_ex (hasBit (CompletedBitmap s)) [MergedSegments s..TotalSegments s - 1]
              then Some ''bitmap bit without spill entry'' else None)
           else if SpillPath s = [] \<or> SpillFileSize s \<le> 0 then Some ''spill entries without a backing file claim''
           else case check_entries s None 0 (SpillEntries s) of
               Inl e \<Rightarrow> Some e
             | Inr spillSum \<Rightarrow>
                 (if count_bits (CompletedBitmap s) (MergedSegments s) (TotalSegments s) \<noteq> int (length (SpillEntries s))
                  then Some ''spill bitmap bits''
                  else if \<not> overlap_free (sort_key sp_Offset (SpillEntries s)) then Some ''spill entries overlap physically''
                  else if spillSum > max_i64 - MergedBytes s \<or> VerifiedBytes s \<noteq> MergedBytes s + spillSum
                  then Some ''verified != merged + spill'' else None)))"

text \<open>Download identifiers that may name the arena file.\<close>

definition illegal_chars :: "char list" where
  "illegal_chars = [CHR ''/'', CHR 0x5C, CHR '':'', CHR ''?'', CHR 0x22, CHR ''<'', CHR ''>'', CHR ''|'', CHR ''*'']"

fun has_dotdot :: "string \<Rightarrow> bool" where
  "has_dotdot (a # b # cs) = ((a = CHR ''.'' \<and> b = CHR ''.'') \<or> has_dotdot (b # cs))"
| "has_dotdot _ = False"

definition validateSpillID :: "string \<Rightarrow> string option" where
  "validateSpillID i =
     (if i = [] then Some ''empty download id''
      else if length i > 200 then Some ''too long''
      else if has_dotdot i then Some ''contains traversal''
      else if list_ex (\<lambda>c. of_char c < (0x20 :: nat) \<or> of_char c = (0x7F :: nat) \<or> c \<in> set illegal_chars) i
           then Some ''illegal filename character''
      else if last i = CHR ''.'' \<or> last i = CHR '' '' \<or> hd i = CHR '' '' then Some ''trailing/leading dot-space form''
      else None)"

section \<open>Opening a window\<close>

record mounted =
  m_window :: window
  m_seed :: resume_state
  m_spillPath :: string

definition close_arena :: "window \<Rightarrow> window" where
  "close_arena w = (if a_open w then snd (next_io (w\<lparr>a_open := False\<rparr>)) else w)"

text \<open>A path that is not a regular file is one of the failures of the stat, which the code handles alike.\<close>

definition adopt :: "int \<Rightarrow> spill_entry list \<Rightarrow> window \<Rightarrow> (window_error + bool) \<times> window" where
  "adopt declared entries w =
     (case next_io w of
        (IoFail _, w1) \<Rightarrow> (Inl (StorageError ''spill adopt open''), w1)
      | (_, w1) \<Rightarrow>
        (case a_disk w1 of
           None \<Rightarrow> (Inr False, w1)
         | Some d \<Rightarrow>
           (case next_io w1 of
              (IoFail _, w2) \<Rightarrow> (Inl (StorageError ''spill adopt stat''), w2)
            | (_, w2) \<Rightarrow>
              if int (length d) < declared then
                (case next_io w2 of
                   (IoFail _, w3) \<Rightarrow> (Inl (StorageError ''spill adopt close''), w3)
                 | (_, w3) \<Rightarrow>
                   (case next_io w3 of
                      (IoFail _, w4) \<Rightarrow> (Inl (StorageError ''spill remove''), w4)
                    | (_, w4) \<Rightarrow> (Inr False, w4\<lparr>a_disk := None\<rparr>)))
              else
                (case (if int (length d) > declared then next_io w2 else (IoOk, w2)) of
                   (IoFail _, w3) \<Rightarrow> (Inl (StorageError ''spill adopt truncate''), w3)
                 | (_, w3) \<Rightarrow>
                     (Inr True, w3\<lparr>a_open := True, a_disk := Some (take (nat declared) d), a_tail := declared,
                       a_entries := foldl (\<lambda>es e. (SegmentIndex e, e) # drop_key (SegmentIndex e) es) [] entries\<rparr>)))))"

definition window_over :: "bytes \<Rightarrow> bytes option \<Rightarrow> io list \<Rightarrow> resume_state \<Rightarrow> window" where
  "window_over out dsk ios s = \<lparr>w_out = out, w_total = TotalSegments s, mergedSegs = MergedSegments s,
     merged = MergedBytes s, verified_bytes = VerifiedBytes s, pending = [], pendingBytes = 0,
     w_bitmap = CompletedBitmap s, w_closed = False, storeErr = None, a_open = False, a_disk = dsk,
     a_tail = 0, a_entries = [], rangeCopyDown = False, w_io = ios\<rparr>"

text \<open>
  What the constructor does with the window's state once the seed is accepted: without spill
  entries it is done; otherwise it adopts the arena, falls back to the merged prefix when the
  file no longer backs it, and replays the entries at the frontier before it returns.
\<close>

definition open_spill :: "window \<Rightarrow> resume_state \<Rightarrow> ((window_error option \<times> window) \<times> resume_state) option" where
  "open_spill w s =
     (if SpillEntries s = [] then Some ((None, w), s)
      else case adopt (SpillFileSize s) (SpillEntries s) w of
        (Inl e, w1) \<Rightarrow> Some ((Some e, w1), s)
      | (Inr False, w1) \<Rightarrow>
          Some ((None, w1\<lparr>w_bitmap := foldl clearBit (w_bitmap w1) [mergedSegs w1..w_total w1 - 1],
                          verified_bytes := merged w1\<rparr>), demoteSpill s)
      | (Inr True, w1) \<Rightarrow>
          (if map_of (a_entries w1) (mergedSegs w1) = None then Some ((None, w1), s)
           else case drainLocked w1 of
             None \<Rightarrow> None
           | Some (Some e, w2) \<Rightarrow> Some ((Some e, close_arena w2), s)
           | Some (None, w2) \<Rightarrow>
               (case window_Sync w2 of
                  (Some e, w3) \<Rightarrow> Some ((Some e, close_arena w3), s)
                | (None, w3) \<Rightarrow> Some ((None, w3), s))))"

text \<open>A refusal also returns the answers of the file system that are still to come.\<close>

definition newReorderWindow ::
  "bytes \<Rightarrow> string \<Rightarrow> string \<Rightarrow> resume_state option \<Rightarrow> bytes option \<Rightarrow> io list \<Rightarrow> string \<Rightarrow>
    (mount_error \<times> io list + mounted) option" where
  "newReorderWindow out destPath downloadID seed dsk ios spillPath =
     (if destPath = [] then Some (Inl (NoOutput ''empty destination path'', ios))
      else case validateSpillID downloadID of Some e \<Rightarrow> Some (Inl (BadSpillID e, ios))
      | None \<Rightarrow>
        (case ValidateCheckpointSeed seed of Some e \<Rightarrow> Some (Inl (DirtySeed e, ios))
         | None \<Rightarrow>
           (case seed of None \<Rightarrow> Some (Inl (DirtySeed ''nil state'', ios))
            | Some s \<Rightarrow>
              (case next_io (window_over out dsk ios s) of
                 (IoFail _, w) \<Rightarrow> Some (Inl (MountStorage (StorageError ''output stat''), w_io w))
               | (_, w) \<Rightarrow>
                 if int (length out) \<noteq> MergedBytes s then Some (Inl (DirtySeed ''output size'', w_io w))
                 else case open_spill w s of
                   None \<Rightarrow> None
                 | Some ((Some e, w1), _) \<Rightarrow> Some (Inl (MountStorage e, w_io w1))
                 | Some ((None, w1), s1) \<Rightarrow>
                     Some (Inr \<lparr>m_window = w1, m_seed = s1, m_spillPath = spillPath\<rparr>)))))"

section \<open>Reading the window out\<close>

definition Snapshot :: "mounted \<Rightarrow> resume_state" where
  "Snapshot m = (let w = m_window m in
     (m_seed m)\<lparr>MergedSegments := mergedSegs w, MergedBytes := merged w, VerifiedBytes := verified_bytes w,
       CompletedBitmap := w_bitmap w,
       SpillPath := (if a_tail w > 0 then m_spillPath m else []),
       SpillFileSize := (if a_tail w > 0 then a_tail w else 0),
       SpillEntries := sortedEntries w\<rparr>)"

definition SnapshotMergedPrefix :: "mounted \<Rightarrow> resume_state" where
  "SnapshotMergedPrefix m = (let w = m_window m in
     (m_seed m)\<lparr>MergedSegments := mergedSegs w, MergedBytes := merged w, VerifiedBytes := merged w,
       SpillPath := [], SpillFileSize := 0, SpillEntries := [],
       CompletedBitmap := foldl clearBit (w_bitmap w) [mergedSegs w..w_total w - 1]\<rparr>)"

section \<open>Mounting\<close>

definition progressCountersSane :: "resume_state \<Rightarrow> bool" where
  "progressCountersSane s \<longleftrightarrow>
     (let want = (TotalSegments s + 7) div 8 in
      if TotalSegments s < 0 \<or> MergedSegments s < 0 \<or> MergedSegments s > TotalSegments s then False
      else if int (length (CompletedBitmap s)) \<noteq> want then False
      else if TotalSegments s mod 8 \<noteq> 0 \<and> tail_bits (CompletedBitmap s) (TotalSegments s) \<noteq> 0 then False
      else if \<not> list_all (hasBit (CompletedBitmap s)) [0..MergedSegments s - 1] then False
      else if MergedBytes s < 0 \<or> VerifiedBytes s < MergedBytes s then False
      else if InitByteOffset s < 0 \<or> InitByteLength s < 0 then False
      else if (if InitSegmentURI s = [] then InitCompleted s \<or> InitBytes s \<noteq> 0
               else InitBytes s < 0 \<or> InitBytes s > MergedBytes s \<or> (InitCompleted s \<and> InitBytes s \<le> 0) \<or>
                    (MergedSegments s > 0 \<and> \<not> InitCompleted s)) then False
      else if \<not> InitCompleted s \<and> InitBytes s \<noteq> 0 then False
      else if MergedSegments s = 0 \<and> MergedBytes s \<noteq> InitBytes s then False
      else if MergedSegments s > 0 \<and> MergedBytes s \<le> InitBytes s then False
      else True)"

definition resetProgress :: "resume_state \<Rightarrow> resume_state" where
  "resetProgress s = s\<lparr>CompletedBitmap := replicate (nat ((TotalSegments s + 7) div 8)) 0, MergedSegments := 0,
     MergedBytes := 0, VerifiedBytes := 0, SpillPath := [], SpillFileSize := 0, SpillEntries := [],
     InitCompleted := False, InitBytes := 0\<rparr>"

text \<open>
  The bits that are cleared lie in the bitmap, whose length was validated before; where the code's slice access would panic,
  \<open>clearBit\<close> changes nothing.
\<close>

definition clearMediaPrefix :: "resume_state \<Rightarrow> resume_state" where
  "clearMediaPrefix s = s\<lparr>CompletedBitmap := foldl clearBit (CompletedBitmap s) [0..TotalSegments s - 1],
     MergedSegments := 0, SpillPath := [], SpillFileSize := 0, SpillEntries := []\<rparr>"

text \<open>
  The state of a mount: the .surge file, the prepared seed, the arena file, the answers of the
  file system still to come and the number of init requests made. The init fetch is an argument:
  the answer to the k-th request, a plaintext or an error.
\<close>

record mount_state =
  mt_out :: bytes
  mt_seed :: resume_state
  mt_disk :: "bytes option"
  mt_io :: "io list"
  mt_fetches :: nat

type_synonym init_fetch = "nat \<Rightarrow> resume_state \<Rightarrow> string + bytes"

definition mt_next :: "mount_state \<Rightarrow> io \<times> mount_state" where
  "mt_next t = (case mt_io t of [] \<Rightarrow> (IoOk, t) | i # is \<Rightarrow> (i, t\<lparr>mt_io := is\<rparr>))"

definition storage_fault :: "string \<Rightarrow> mount_error" where
  "storage_fault op = MountStorage (StorageError op)"

text \<open>\<open>prepareInitSegment\<close> from the claim that is stripped on.\<close>

definition strip_init :: "resume_state \<Rightarrow> resume_state" where
  "strip_init s =
     (if InitBytes s > 0 then
        let m = (if MergedBytes s - InitBytes s < 0 then 0 else MergedBytes s - InitBytes s)
        in s\<lparr>MergedBytes := m, VerifiedBytes := m, InitBytes := 0\<rparr>
      else s)"

definition write_init :: "int \<Rightarrow> bytes \<Rightarrow> mount_state \<Rightarrow> mount_error option \<times> mount_state" where
  "write_init prevInit plain t =
     (let s = mt_seed t;
          s1 = (if MergedSegments s > 0 \<and> int (length plain) \<noteq> prevInit
                then (clearMediaPrefix s)\<lparr>MergedBytes := 0, VerifiedBytes := 0\<rparr> else s)
      in case mt_next t of
        (IoFail k, t1) \<Rightarrow>
          (Some (storage_fault ''init write''), t1\<lparr>mt_out := splice (mt_out t1) 0 (take k plain), mt_seed := s1\<rparr>)
      | (_, t1) \<Rightarrow>
          (let mb = add64 (MergedBytes s1) (int (length plain)) in
           (None, t1\<lparr>mt_out := splice (mt_out t1) 0 plain,
                     mt_seed := s1\<lparr>InitBytes := int (length plain), MergedBytes := mb, VerifiedBytes := mb,
                                   InitCompleted := True\<rparr>\<rparr>)))"

definition refetch_init :: "init_fetch \<Rightarrow> int \<Rightarrow> mount_state \<Rightarrow> mount_error option \<times> mount_state" where
  "refetch_init fetch prevInit t =
     (let t1 = t\<lparr>mt_seed := strip_init (mt_seed t), mt_fetches := Suc (mt_fetches t)\<rparr> in
      case fetch (mt_fetches t) (mt_seed t1) of
        Inl e \<Rightarrow> (Some (FetchError e), t1)
      | Inr plain \<Rightarrow>
          (if plain = [] then (Some (FetchError ''init body is empty''), t1) else write_init prevInit plain t1))"

definition prepareInitSegment :: "init_fetch \<Rightarrow> mount_state \<Rightarrow> mount_error option \<times> mount_state" where
  "prepareInitSegment fetch t =
     (let s = mt_seed t in
      if InitSegmentURI s = [] then (None, t)
      else if InitCompleted s \<and> InitBytes s > 0 then
        (case mt_next t of
           (IoFail _, t1) \<Rightarrow> (Some (storage_fault ''stat''), t1)
         | (_, t1) \<Rightarrow>
             (if int (length (mt_out t1)) \<ge> InitBytes s then (None, t1)
              else refetch_init fetch (InitBytes s) (t1\<lparr>mt_seed := s\<lparr>InitCompleted := False\<rparr>\<rparr>)))
      else refetch_init fetch (InitBytes s) t)"

text \<open>Aligning the file with the claimed prefix: the switch after \<open>Stat\<close>.\<close>

definition truncate_out :: "int \<Rightarrow> mount_state \<Rightarrow> mount_error option \<times> mount_state" where
  "truncate_out n t =
     (case mt_next t of
        (IoFail _, t1) \<Rightarrow> (Some (storage_fault ''truncate''), t1)
      | (_, t1) \<Rightarrow> (None, t1\<lparr>mt_out := take (nat n) (mt_out t1)\<rparr>))"

definition align_out :: "mount_state \<Rightarrow> mount_error option \<times> mount_state" where
  "align_out t =
     (let s = mt_seed t in
      if MergedBytes s \<le> 0 then (if mt_out t = [] then (None, t) else truncate_out 0 t)
      else if int (length (mt_out t)) < MergedBytes s then truncate_out 0 (t\<lparr>mt_seed := resetProgress s\<rparr>)
      else truncate_out (MergedBytes s) t)"

definition remove_spill :: "mount_state \<Rightarrow> mount_error option \<times> mount_state" where
  "remove_spill t =
     (case mt_next t of
        (IoFail _, t1) \<Rightarrow> (Some (storage_fault ''spill remove''), t1)
      | (_, t1) \<Rightarrow> (None, t1\<lparr>mt_disk := None\<rparr>))"

definition settle_spill :: "mount_state \<Rightarrow> mount_error option \<times> mount_state" where
  "settle_spill t =
     (if SpillEntries (mt_seed t) = [] \<or> ValidateCheckpointSeed (Some (mt_seed t)) \<noteq> None
      then remove_spill (t\<lparr>mt_seed := demoteSpill (mt_seed t)\<rparr>)
      else (None, t))"

text \<open>A step after which an error ends the mount.\<close>

definition and_then ::
  "mount_error option \<times> mount_state \<Rightarrow> (mount_state \<Rightarrow> mount_error option \<times> mount_state) \<Rightarrow>
    mount_error option \<times> mount_state" where
  "and_then r f = (case r of (Some e, t) \<Rightarrow> (Some e, t) | (None, t) \<Rightarrow> f t)"

definition try_open ::
  "string \<Rightarrow> string \<Rightarrow> string \<Rightarrow> mount_state \<Rightarrow> (mount_error \<times> io list + mounted) option" where
  "try_open surgePath ID spillPath t =
     newReorderWindow (mt_out t) surgePath ID (Some (mt_seed t)) (mt_disk t) (mt_io t) spillPath"

definition IncompleteSuffix :: string where
  "IncompleteSuffix = ''.surge''"

text \<open>The one fallback: everything from byte zero again.\<close>

definition remount :: "init_fetch \<Rightarrow> mount_state \<Rightarrow> mount_error option \<times> mount_state" where
  "remount fetch t =
     and_then (and_then (truncate_out 0 (t\<lparr>mt_seed := resetProgress (mt_seed t)\<rparr>)) remove_spill)
       (prepareInitSegment fetch)"

text \<open>The seed read back from the window and the baseline that suppresses the first-byte signal.\<close>

definition mount_finish :: "int \<Rightarrow> mounted \<Rightarrow> mounted \<times> resume_state \<times> int" where
  "mount_finish fetchedInit m = (let s = Snapshot m in (m, s, VerifiedBytes s - fetchedInit))"

text \<open>The window is opened once, and a second time from byte zero when the seed is refused.\<close>

definition mount_open ::
  "string \<Rightarrow> string \<Rightarrow> string \<Rightarrow> init_fetch \<Rightarrow> int \<Rightarrow> mount_state \<Rightarrow>
    (mount_error + mounted \<times> resume_state \<times> int) option" where
  "mount_open surgePath ID spillPath fetch fetchedInit t =
     (case try_open surgePath ID spillPath t of
        None \<Rightarrow> None
      | Some (Inr m) \<Rightarrow> Some (Inr (mount_finish fetchedInit m))
      | Some (Inl (DirtySeed _, ios)) \<Rightarrow>
        (case remount fetch (t\<lparr>mt_io := ios\<rparr>) of
           (Some e, _) \<Rightarrow> Some (Inl e)
         | (None, t1) \<Rightarrow>
           let fetched2 = (if InitSegmentURI (mt_seed t1) \<noteq> [] then InitBytes (mt_seed t1) else 0)
           in case try_open surgePath ID spillPath t1 of
             None \<Rightarrow> None
           | Some (Inr m) \<Rightarrow> Some (Inr (mount_finish fetched2 m))
           | Some (Inl (e, _)) \<Rightarrow> Some (Inl e))
      | Some (Inl (e, _)) \<Rightarrow> Some (Inl e))"

definition mount_prepare :: "init_fetch \<Rightarrow> mount_state \<Rightarrow> mount_error option \<times> mount_state \<times> int" where
  "mount_prepare fetch t =
     (case align_out t of
        (Some e, t1) \<Rightarrow> (Some e, t1, 0)
      | (None, t1) \<Rightarrow>
        let needInit = (InitSegmentURI (mt_seed t1) \<noteq> [] \<and>
              (\<not> InitCompleted (mt_seed t1) \<or> InitBytes (mt_seed t1) = 0))
        in case prepareInitSegment fetch t1 of
          (Some e, t2) \<Rightarrow> (Some e, t2, 0)
        | (None, t2) \<Rightarrow>
          (case settle_spill t2 of (r, t3) \<Rightarrow> (r, t3, if needInit then InitBytes (mt_seed t2) else 0)))"

definition mount ::
  "string \<Rightarrow> string \<Rightarrow> resume_state option \<Rightarrow> init_fetch \<Rightarrow> bytes \<Rightarrow> bytes option \<Rightarrow> io list \<Rightarrow> string \<Rightarrow>
    (mount_error + mounted \<times> resume_state \<times> int) option" where
  "mount ID destPath seed fetch out dsk ios spillPath =
     (case validateSpillID ID of Some e \<Rightarrow> Some (Inl (BadSpillID e))
      | None \<Rightarrow>
       (case seed of None \<Rightarrow> Some (Inl (ContractError ''seed missing a complete media table''))
        | Some s \<Rightarrow>
          if TotalSegments s \<le> 0 \<or> int (length (Segments s)) \<noteq> TotalSegments s
          then Some (Inl (ContractError ''seed missing a complete media table''))
          else if \<not> indexed 0 (Segments s) then Some (Inl (ContractError ''segment table out of order''))
          else
            let prepared = (if progressCountersSane s then s else resetProgress s);
                t0 = \<lparr>mt_out = out, mt_seed = prepared, mt_disk = dsk, mt_io = ios, mt_fetches = 0\<rparr>
            in case mt_next t0 of
              (IoFail _, _) \<Rightarrow> Some (Inl (storage_fault ''open''))
            | (_, t1) \<Rightarrow>
              (case mt_next t1 of
                 (IoFail _, _) \<Rightarrow> Some (Inl (storage_fault ''stat''))
               | (_, t2) \<Rightarrow>
                 (case mount_prepare fetch t2 of
                    (Some e, _) \<Rightarrow> Some (Inl e)
                  | (None, t3, fetchedInit) \<Rightarrow>
                      mount_open (destPath @ IncompleteSuffix) ID spillPath fetch fetchedInit t3))))"

end
