(* ===== verification/ReorderMount.thy ===== *)
theory ReorderMount
  imports ReorderSeed
begin

text \<open>
  What an accepted checkpoint guarantees, why a window opened on it is consistent whatever the file
  system answers, that a mount never gives up on a bad checkpoint, and that a snapshot restores the
  window it was taken from.
\<close>

section \<open>What an accepted checkpoint guarantees\<close>

lemma indexed_iff: "indexed k gs \<longleftrightarrow> (\<forall>i < length gs. Index (gs ! i) = k + int i)"
proof (induction gs arbitrary: k)
  case Nil
  then show ?case by simp
next
  case (Cons g gs)
  show ?case
    by (simp add: Cons.IH All_less_Suc2 algebra_simps)
qed

lemma clear_range:
  assumes "0 \<le> m" and "m \<le> tot" and "tot \<le> bit_capacity bm" and "0 \<le> i" and "i < bit_capacity bm"
  shows "hasBit (foldl clearBit bm [m..tot - 1]) i = (\<not> (m \<le> i \<and> i < tot) \<and> hasBit bm i)"
    and "bit_capacity (foldl clearBit bm [m..tot - 1]) = bit_capacity bm"
proof -
  have "\<forall>i \<in> set [m..tot - 1]. 0 \<le> i \<and> i < bit_capacity bm" using assms by auto
  from packed.get_clear_range[OF this assms(4,5)] show
    "hasBit (foldl clearBit bm [m..tot - 1]) i = (\<not> (m \<le> i \<and> i < tot) \<and> hasBit bm i)"
    "bit_capacity (foldl clearBit bm [m..tot - 1]) = bit_capacity bm" by auto
qed

lemma length_clear [simp]: "length (foldl clearBit bm is) = length bm"
  by (induction "is" arbitrary: bm) (simp_all add: clearBit_def)

lemma clear_from_eq:
  "0 \<le> m \<Longrightarrow> tot \<le> bit_capacity bm \<Longrightarrow> clear_from bm m tot = foldl clearBit bm [m..tot - 1]"
  by (simp add: clear_from_def min_def)

lemma octet:
  fixes i u :: int
  assumes "8 * u \<le> i" and "i < 8 * u + 8"
  shows "i div 8 = u" "i mod 8 = i - 8 * u"
  using assms int_div_pos_eq[of i 8 u "i - 8 * u"] int_mod_pos_eq[of i 8 u "i - 8 * u"] by simp_all

lemma tail_arith:
  fixes tot i :: int
  assumes "tot \<le> i" and "i < 8 * ((tot + 7) div 8)"
  shows "tot mod 8 \<noteq> 0" "i div 8 = (tot + 7) div 8 - 1" "tot mod 8 \<le> i mod 8"
proof -
  define u where "u = (tot + 7) div 8 - 1"
  have u: "8 * u + 8 \<le> tot + 7" "tot + 7 < 8 * u + 16" by (simp_all add: u_def)
  have t: "8 * u < tot" "tot < 8 * u + 8" "i < 8 * u + 8" using u assms by (simp_all add: u_def)
  then have "tot mod 8 = tot - 8 * u" "i div 8 = u" "i mod 8 = i - 8 * u"
    using octet[of u tot] octet[of u i] assms(1) by simp_all
  then show "tot mod 8 \<noteq> 0" "i div 8 = (tot + 7) div 8 - 1" "tot mod 8 \<le> i mod 8"
    using t assms(1) by (simp_all add: u_def)
qed

lemma tail_clear:
  assumes l: "int (length bm) = (tot + 7) div 8" and t: "tot mod 8 \<noteq> 0 \<longrightarrow> tail_bits bm tot = 0" and p: "0 < tot"
    and i: "tot \<le> i" "i < bit_capacity bm"
  shows "\<not> hasBit bm i"
proof -
  have c: "i < 8 * ((tot + 7) div 8)" using i l by (simp add: bit_capacity_def)
  note m = tail_arith(1)[OF i(1) c] and d = tail_arith(2,3)[OF i(1) c]
  have ne: "bm \<noteq> []" using l p by auto
  have nd: "nat i div 8 = length bm - 1" "nat i mod 8 = nat (i mod 8)"
  proof -
    have "int (nat i div 8) = i div 8" using i p by (simp add: zdiv_int)
    moreover have "i div 8 = int (length bm) - 1" using d(1) l by simp
    ultimately show "nat i div 8 = length bm - 1" by linarith
    show "nat i mod 8 = nat (i mod 8)" using i p by (simp add: nat_mod_distrib)
  qed
  have "bit (drop_bit (nat (tot mod 8)) (last bm)) (nat (i mod 8) - nat (tot mod 8)) = bit (last bm) (nat (i mod 8))"
    using d(2) p by (simp add: bit_drop_bit_eq nat_mono)
  then have "\<not> bit (last bm) (nat (i mod 8))" using t m by (simp add: tail_bits_def)
  then show ?thesis using nd ne by (simp add: hasBit_def last_conv_nth)
qed

lemma check_entries_ok:
  "check_entries s prev t es = Inr u \<Longrightarrow>
    (\<forall>e \<in> set es. MergedSegments s \<le> SegmentIndex e \<and> SegmentIndex e < TotalSegments s \<and>
       hasBit (CompletedBitmap s) (SegmentIndex e) \<and> 0 \<le> sp_Offset e \<and> 0 < sp_Length e \<and>
       sp_Offset e + sp_Length e \<le> SpillFileSize s) \<and>
    sorted_wrt (<) (map SegmentIndex es) \<and> (\<forall>k. prev = Some k \<longrightarrow> (\<forall>e \<in> set es. k < SegmentIndex e)) \<and>
    u = t + (\<Sum>e\<leftarrow>es. sp_Length e) \<and> (0 \<le> t \<longrightarrow> t \<le> max_i64 \<longrightarrow> u \<le> max_i64)"
proof (induction es arbitrary: prev t)
  case Nil
  then show ?case by simp
next
  case (Cons e es)
  have a: "MergedSegments s \<le> SegmentIndex e" "SegmentIndex e < TotalSegments s"
    "\<not> (case prev of None \<Rightarrow> False | Some k \<Rightarrow> SegmentIndex e \<le> k)" "hasBit (CompletedBitmap s) (SegmentIndex e)"
    "0 \<le> sp_Offset e" "0 < sp_Length e" "sp_Offset e \<le> SpillFileSize s - sp_Length e"
    "sp_Length e \<le> max_i64 - t"
    and c: "check_entries s (Some (SegmentIndex e)) (t + sp_Length e) es = Inr u"
    using Cons.prems by (auto split: if_splits)
  note ih = Cons.IH[OF c]
  have "k < SegmentIndex e" if "prev = Some k" for k using a(3) that by simp
  then show ?case using a ih by (cases prev) force+
qed

definition apart :: "spill_entry \<Rightarrow> spill_entry \<Rightarrow> bool" where
  "apart x y \<longleftrightarrow> sp_Offset x + sp_Length x \<le> sp_Offset y"

lemma overlap_free_apart:
  "overlap_free xs \<Longrightarrow> \<forall>x \<in> set xs. 0 < sp_Length x \<Longrightarrow> sorted_wrt apart xs"
proof (induction xs rule: overlap_free.induct)
  case (1 x y zs)
  have ih: "sorted_wrt apart (y # zs)" by (rule 1(1)) (use 1 in simp_all)
  have xy: "apart x y" using 1(2) by (simp add: apart_def not_less)
  have "apart x z" if "z \<in> set zs" for z
  proof -
    have "apart y z" using ih that by simp
    then show ?thesis using xy 1(3) by (simp add: apart_def)
  qed
  then show ?case using ih xy by simp
qed simp_all

lemma sorted_wrt_two:
  "sorted_wrt R xs \<Longrightarrow> x \<in> set xs \<Longrightarrow> y \<in> set xs \<Longrightarrow> x \<noteq> y \<Longrightarrow> R x y \<or> R y x"
  by (induction xs) auto

lemma entries_apart:
  assumes "overlap_free (sort_key sp_Offset es)" and "\<forall>e \<in> set es. 0 < sp_Length e"
  shows "regions_apart (map (\<lambda>e. (SegmentIndex e, e)) es)"
proof -
  have "sorted_wrt apart (sort_key sp_Offset es)" using overlap_free_apart[OF assms(1)] assms(2) by simp
  from sorted_wrt_two[OF this] show ?thesis
    by (fastforce simp: regions_apart_def apart_def)
qed

text \<open>The claims of an accepted checkpoint, in the form the window needs them.\<close>

definition ledger :: "resume_state \<Rightarrow> (int \<times> spill_entry) list" where
  "ledger s = map (\<lambda>e. (SegmentIndex e, e)) (SpillEntries s)"

definition checkpoint_ok :: "resume_state \<Rightarrow> bool" where
  "checkpoint_ok s \<longleftrightarrow> 0 < TotalSegments s \<and> 0 \<le> MergedBytes s \<and>
     inv_keys (TotalSegments s) (MergedSegments s) (SpillFileSize s) [] (ledger s) \<and>
     inv_bits (CompletedBitmap s) (TotalSegments s) (MergedSegments s) (ledger s) \<and>
     VerifiedBytes s = MergedBytes s + (\<Sum>e\<leftarrow>SpillEntries s. sp_Length e) \<and>
     (MergedBytes s \<le> max_i64 \<longrightarrow> VerifiedBytes s \<le> max_i64) \<and> 0 \<le> SpillFileSize s"

lemma validate_table_ok:
  assumes "validate_table s = None"
  shows "0 < TotalSegments s" "0 \<le> MergedSegments s" "MergedSegments s \<le> TotalSegments s"
    "int (length (CompletedBitmap s)) = (TotalSegments s + 7) div 8"
    "\<forall>i. 0 \<le> i \<and> i < TotalSegments s \<longrightarrow> hasBit (CompletedBitmap s) i = (i < MergedSegments s)"
    "TotalSegments s mod 8 \<noteq> 0 \<longrightarrow> tail_bits (CompletedBitmap s) (TotalSegments s) = 0"
  using assms by (auto simp: validate_table_def list_all_iff split: if_splits)

lemma validateSeed_None:
  "validateSeed (Some s) = None \<longleftrightarrow> validate_table s = None \<and> validate_bytes s = None \<and> validate_clean s = None"
  by (auto simp: validateSeed_def split: option.splits)

lemma validate_bytes_nonneg: "validate_bytes s = None \<Longrightarrow> 0 \<le> MergedBytes s"
  by (auto simp: validate_bytes_def split: if_splits)

lemma count_all_bits:
  assumes sub: "set is \<subseteq> {i. m \<le> i \<and> i < tot \<and> hasBit bm i}" and d: "distinct is"
    and c: "count_bits bm m tot = int (length is)" and i: "m \<le> i" "i < tot" "hasBit bm i"
  shows "i \<in> set is"
proof -
  let ?f = "filter (hasBit bm) [m..tot - 1]"
  have "set is \<subseteq> set ?f" using sub by auto
  moreover have "card (set is) = card (set ?f)"
    using c distinct_card[OF d] distinct_card[of ?f] by (simp add: count_bits_def del: set_filter)
  ultimately have "set is = set ?f" by (rule card_subset_eq[OF finite_set])
  then show ?thesis using i by simp
qed

lemma demoted_bits:
  assumes v: "validate_table (demoteSpill s) = None"
  defines "bm \<equiv> CompletedBitmap s" and "m \<equiv> MergedSegments s" and "tot \<equiv> TotalSegments s"
  shows "0 < tot" "0 \<le> m" "m \<le> tot" "int (length bm) = (tot + 7) div 8"
    and "0 \<le> i \<Longrightarrow> i < bit_capacity bm \<Longrightarrow> hasBit bm i = (i < m \<or> (m \<le> i \<and> i < tot \<and> hasBit bm i))"
proof -
  define bm' where "bm' = clear_from bm m tot"
  have d: "CompletedBitmap (demoteSpill s) = bm'" "MergedSegments (demoteSpill s) = m" "TotalSegments (demoteSpill s) = tot"
    by (simp_all add: demoteSpill_def bm'_def bm_def m_def tot_def)
  note t = validate_table_ok[OF v, unfolded d]
  show g: "0 < tot" "0 \<le> m" "m \<le> tot" by (fact t(1-3))+
  have "length bm' = length bm" using g by (simp add: bm'_def clear_from_def)
  then show l: "int (length bm) = (tot + 7) div 8" using t(4) by simp
  have c: "tot \<le> bit_capacity bm" by (rule bitmap_covers[OF l])
  have bm': "bm' = foldl clearBit bm [m..tot - 1]" unfolding bm'_def by (rule clear_from_eq[OF g(2) c])
  note cr = clear_range[OF g(2,3) c]
  assume i: "0 \<le> i" "i < bit_capacity bm"
  have h: "hasBit bm' i = (\<not> (m \<le> i \<and> i < tot) \<and> hasBit bm i)" unfolding bm' by (rule cr(1)[OF i])
  have cap: "bit_capacity bm' = bit_capacity bm" unfolding bm' by (rule cr(2)[OF i])
  consider "i < m" | "m \<le> i" "i < tot" | "tot \<le> i" using g by linarith
  then show "hasBit bm i = (i < m \<or> (m \<le> i \<and> i < tot \<and> hasBit bm i))"
  proof cases
    case 1
    then have "hasBit bm' i" using t(5) i g by simp
    then show ?thesis using h 1 by simp
  next
    case 3
    have "\<not> hasBit bm' i"
      by (rule tail_clear[of bm' tot]) (use t(4,6) g 3 i cap in simp_all)
    then show ?thesis using h 3 g by simp
  qed simp
qed

lemma ledger_keys: "fst ` set (ledger s) = SegmentIndex ` set (SpillEntries s)" "set (map fst (ledger s)) = SegmentIndex ` set (SpillEntries s)"
  "map fst (ledger s) = map SegmentIndex (SpillEntries s)"
  by (auto simp: ledger_def image_image comp_def)

lemma ValidateCheckpointSeed_ok:
  assumes v: "ValidateCheckpointSeed (Some s) = None"
  shows "checkpoint_ok s"
proof -
  let ?bm = "CompletedBitmap s" and ?m = "MergedSegments s" and ?tot = "TotalSegments s"
  have vs: "validateSeed (Some (demoteSpill s)) = None"
    using v by (simp add: ValidateCheckpointSeed_def split: option.splits)
  then have vt: "validate_table (demoteSpill s) = None" and vb: "validate_bytes (demoteSpill s) = None"
    by (simp_all add: validateSeed_None)
  note b = demoted_bits[OF vt]
  have mb: "0 \<le> MergedBytes s" using validate_bytes_nonneg[OF vb] by (simp add: demoteSpill_def)
  show ?thesis
  proof (cases "SpillEntries s = []")
    case True
    then have e: "VerifiedBytes s = MergedBytes s" "SpillFileSize s = 0"
      "\<not> list_ex (hasBit ?bm) [?m..?tot - 1]"
      using v vs by (simp_all add: ValidateCheckpointSeed_def split: if_splits)
    have "hasBit ?bm i = (i < ?m)" if "0 \<le> i" "i < bit_capacity ?bm" for i
      using b(5)[OF that] e(3) by (auto simp: list_ex_iff)
    then show ?thesis using True b(1-4) e mb
      by (simp add: checkpoint_ok_def ledger_def inv_keys_def inv_bits_def)
  next
    case False
    obtain u where u: "check_entries s None 0 (SpillEntries s) = Inr u"
      using v vs False by (auto simp: ValidateCheckpointSeed_def split: if_splits sum.splits)
    have e: "0 < SpillFileSize s" "count_bits ?bm ?m ?tot = int (length (SpillEntries s))"
      "overlap_free (sort_key sp_Offset (SpillEntries s))" "u \<le> max_i64 - MergedBytes s"
      "VerifiedBytes s = MergedBytes s + u"
      using v vs False u by (auto simp: ValidateCheckpointSeed_def split: if_splits)
    note ce = check_entries_ok[OF u]
    have d: "distinct (map SegmentIndex (SpillEntries s))" using ce strict_sorted_iff by blast
    have ko: "entry_ok ?tot ?m (SpillFileSize s) j e" if "(j, e) \<in> set (ledger s)" for j e
      using that ce by (auto simp: ledger_def entry_ok_def)
    have k: "inv_keys ?tot ?m (SpillFileSize s) [] (ledger s)"
      unfolding inv_keys_def
      using d ko entries_apart[OF e(3)] ce by (simp add: ledger_keys(3)) (simp add: ledger_def)
    have "i \<in> SegmentIndex ` set (SpillEntries s)" if "?m \<le> i" "i < ?tot" "hasBit ?bm i" for i
    proof -
      have "i \<in> set (map SegmentIndex (SpillEntries s))"
        by (rule count_all_bits[OF _ d _ that]) (use ce e(2) in auto)
      then show ?thesis by simp
    qed
    then have "hasBit ?bm i = (i < ?m \<or> i \<in> SegmentIndex ` set (SpillEntries s))"
      if "0 \<le> i" "i < bit_capacity ?bm" for i
      using b(5)[OF that] ce by auto
    then have "inv_bits ?bm ?tot ?m (ledger s)" using b(2-4) by (simp add: inv_bits_def ledger_keys(1))
    then show ?thesis using b(1) mb k e ce by (simp add: checkpoint_ok_def)
  qed
qed

section \<open>A window opened on an accepted checkpoint is consistent\<close>

lemma adopt_fold:
  "distinct (map fst xs @ map SegmentIndex es) \<Longrightarrow>
    foldl (\<lambda>es e. (SegmentIndex e, e) # drop_key (SegmentIndex e) es) xs es =
      rev (map (\<lambda>e. (SegmentIndex e, e)) es) @ xs"
proof (induction es arbitrary: xs)
  case Nil
  then show ?case by simp
next
  case (Cons e es)
  have "SegmentIndex e \<notin> fst ` set xs" using Cons.prems by auto
  then have "drop_key (SegmentIndex e) xs = xs" by (rule drop_key_absent)
  then show ?case using Cons by simp
qed

lemma adopt_effect:
  assumes a: "adopt declared es w = (r, w1)" and d: "distinct (map SegmentIndex es)"
  shows "\<exists>is dk. (\<forall>b. r \<noteq> Inr b) \<or> (r = Inr False \<and> w1 = w\<lparr>w_io := is, a_disk := None\<rparr>) \<or>
    (r = Inr True \<and> a_disk w = Some dk \<and> declared \<le> int (length dk) \<and>
     w1 = w\<lparr>w_io := is, a_open := True, a_disk := Some (take (nat declared) dk), a_tail := declared,
            a_entries := rev (map (\<lambda>e. (SegmentIndex e, e)) es)\<rparr>)"
proof (cases "\<exists>e. r = Inl e")
  case True
  then show ?thesis by auto
next
  case False
  note fe = adopt_fold[of "[]" es, simplified, OF d]
  obtain i1 wa where n1: "next_io w = (i1, wa)" by fastforce
  then obtain is1 where wa: "wa = w\<lparr>w_io := is1\<rparr>" using next_io_eq by blast
  obtain i2 wb where n2: "next_io wa = (i2, wb)" by fastforce
  then obtain is2 where wb: "wb = w\<lparr>w_io := is2\<rparr>" using next_io_eq wa by fastforce
  obtain i3 wc where n3: "next_io wb = (i3, wc)" by fastforce
  then obtain is3 where wc: "wc = w\<lparr>w_io := is3\<rparr>" using next_io_eq wb by fastforce
  obtain i4 wd where n4: "next_io wc = (i4, wd)" by fastforce
  then obtain is4 where wd: "wd = w\<lparr>w_io := is4\<rparr>" using next_io_eq wc by fastforce
  show ?thesis
  proof (cases "a_disk w")
    case None
    have dn: "a_disk wa = None" by (simp add: wa None)
    have "(\<exists>e x. adopt declared es w = (Inl e, x)) \<or> adopt declared es w = (Inr False, wa)"
      by (cases i1) (simp_all add: adopt_def n1 dn)
    then have "r = Inr False \<and> w1 = wa" using a False by auto
    then have "r = Inr False \<and> w1 = w\<lparr>w_io := is1, a_disk := None\<rparr>" using None by (simp add: wa)
    then show ?thesis by blast
  next
    case (Some dk)
    have wd': "a_disk wa = Some dk" by (simp add: wa Some)
    show ?thesis
    proof (cases "int (length dk) < declared")
      case True
      have "(\<exists>e x. adopt declared es w = (Inl e, x)) \<or> adopt declared es w = (Inr False, wd\<lparr>a_disk := None\<rparr>)"
        by (cases i1; cases i2; cases i3; cases i4) (simp_all add: adopt_def n1 wd' n2 n3 n4 True)
      then have "r = Inr False \<and> w1 = wd\<lparr>a_disk := None\<rparr>" using a False by auto
      moreover have "wd\<lparr>a_disk := None\<rparr> = w\<lparr>w_io := is4, a_disk := None\<rparr>" by (simp add: wd)
      ultimately have "r = Inr False \<and> w1 = w\<lparr>w_io := is4, a_disk := None\<rparr>" by simp
      then show ?thesis by blast
    next
      case ge: False
      define fin :: "window \<Rightarrow> window" where "fin w0 = w0\<lparr>a_open := True, a_disk := Some (take (nat declared) dk), a_tail := declared,
            a_entries := rev (map (\<lambda>e. (SegmentIndex e, e)) es)\<rparr>" for w0
      have "(\<exists>e x. adopt declared es w = (Inl e, x)) \<or> adopt declared es w = (Inr True, fin wb) \<or>
        adopt declared es w = (Inr True, fin wc)"
        by (cases i1; cases i2; cases i3; cases "int (length dk) > declared")
          (simp_all add: adopt_def n1 wd' n2 n3 fe fin_def ge)
      then have "r = Inr True \<and> (w1 = fin wb \<or> w1 = fin wc)" using a False by auto
      moreover have "\<exists>is. fin wb = w\<lparr>w_io := is, a_open := True, a_disk := Some (take (nat declared) dk), a_tail := declared,
            a_entries := rev (map (\<lambda>e. (SegmentIndex e, e)) es)\<rparr>"
        by (rule exI[of _ is2]) (simp add: fin_def wb)
      moreover have "\<exists>is. fin wc = w\<lparr>w_io := is, a_open := True, a_disk := Some (take (nat declared) dk), a_tail := declared,
            a_entries := rev (map (\<lambda>e. (SegmentIndex e, e)) es)\<rparr>"
        by (rule exI[of _ is3]) (simp add: fin_def wc)
      ultimately have r: "r = Inr True" and
        "\<exists>is. w1 = w\<lparr>w_io := is, a_open := True, a_disk := Some (take (nat declared) dk), a_tail := declared,
            a_entries := rev (map (\<lambda>e. (SegmentIndex e, e)) es)\<rparr>" by blast+
      then obtain "is" where "w1 = w\<lparr>w_io := is, a_open := True, a_disk := Some (take (nat declared) dk), a_tail := declared,
            a_entries := rev (map (\<lambda>e. (SegmentIndex e, e)) es)\<rparr>" by blast
      then show ?thesis
        by (intro exI[of _ "is"] exI[of _ dk] disjI2 conjI) (use r Some ge in simp_all)
    qed
  qed
qed

text \<open>The payloads an opened window holds: those of the ledger, read from the adopted arena.\<close>

definition ledger_payloads :: "resume_state \<Rightarrow> bytes \<Rightarrow> int \<Rightarrow> bytes option" where
  "ledger_payloads s d i = map_option (slice_of (take (nat (SpillFileSize s)) d)) (map_of (ledger s) i)"

definition adopted_payloads :: "resume_state \<Rightarrow> bytes option \<Rightarrow> (int \<Rightarrow> bytes option) \<Rightarrow> bool" where
  "adopted_payloads s dsk acc \<longleftrightarrow> acc = Map.empty \<or>
     (SpillEntries s \<noteq> [] \<and> (\<exists>dk. dsk = Some dk \<and> acc = ledger_payloads s dk))"

lemma adopted_none: "adopted_payloads s dsk Map.empty" by (simp add: adopted_payloads_def)

lemma window_over_ok:
  assumes c: "checkpoint_ok s" and l: "int (length out) = MergedBytes s" "MergedBytes s \<le> max_i64"
    and bits: "inv_bits bm (TotalSegments s) (MergedSegments s) []"
    and w: "w = (window_over out dsk ios s)\<lparr>w_io := is, a_disk := dk, w_bitmap := bm, verified_bytes := MergedBytes s\<rparr>"
  shows "win_ok out (MergedSegments s) Map.empty w"
  using assms
  by (auto simp: window_over_def checkpoint_ok_def win_ok_def win_inv_def inv_out_def merged_image_def
      inv_keys_def inv_held_def held_in_def inv_counts_def arena_wf_def frontier_free_def
      reorderPendingBytesMax_def reorderPendingSegmentMax_def)

lemma inv_keys_rev: "inv_keys tot k t p (rev es) = inv_keys tot k t p es"
  by (auto simp: inv_keys_def regions_apart_def rev_map[symmetric])

lemma sum_ledger: "(\<Sum>(j, e)\<leftarrow>rev (ledger s). sp_Length e) = (\<Sum>e\<leftarrow>SpillEntries s. sp_Length e)"
proof -
  have "(\<Sum>(j, e)\<leftarrow>rev xs. sp_Length e) = (\<Sum>(j, e)\<leftarrow>xs. sp_Length e)" for xs :: "(int \<times> spill_entry) list"
    by (induction xs) auto
  then show ?thesis by (simp add: ledger_def comp_def)
qed

lemma map_of_rev_distinct: "distinct (map fst xs) \<Longrightarrow> map_of (rev xs) = map_of xs"
  by (subst map_of_inject_set) (simp_all add: rev_map[symmetric])

lemma adopted_inv:
  assumes c: "checkpoint_ok s" and l: "int (length out) = MergedBytes s" "MergedBytes s \<le> max_i64"
    and d: "SpillFileSize s \<le> int (length dk)"
    and w: "w = (window_over out dsk ios s)\<lparr>w_io := is, a_open := True,
      a_disk := Some (take (nat (SpillFileSize s)) dk), a_tail := SpillFileSize s, a_entries := rev (ledger s)\<rparr>"
  shows "win_inv out (MergedSegments s) (ledger_payloads s dk) w"
proof -
  have k: "inv_keys (TotalSegments s) (MergedSegments s) (SpillFileSize s) [] (rev (ledger s))"
    and b: "inv_bits (CompletedBitmap s) (TotalSegments s) (MergedSegments s) (rev (ledger s))"
    and v: "VerifiedBytes s = MergedBytes s + (\<Sum>(j, e)\<leftarrow>rev (ledger s). sp_Length e)" "VerifiedBytes s \<le> max_i64"
    and z: "0 \<le> SpillFileSize s" "0 \<le> MergedBytes s"
    using c l(2) by (simp_all add: checkpoint_ok_def inv_keys_rev inv_bits_def sum_ledger)
  have di: "distinct (map fst (ledger s))" using c by (simp add: checkpoint_ok_def inv_keys_def)
  have h: "inv_held (ledger_payloads s dk) (MergedSegments s) [] (rev (ledger s)) (take (nat (SpillFileSize s)) dk)"
    by (simp add: inv_held_def held_in_def ledger_payloads_def map_of_rev_distinct[OF di])
  have o: "inv_out out (MergedSegments s) (ledger_payloads s dk) out (MergedSegments s) (MergedBytes s)"
    using l z by (auto simp: inv_out_def merged_image_def)
  show ?thesis
    using k b v z h o d unfolding w
    by (simp add: win_inv_def window_over_def arena_bytes_def arena_wf_def inv_counts_def
        reorderPendingBytesMax_def reorderPendingSegmentMax_def)
qed

lemma close_arena_total: "w_total (close_arena w) = w_total w"
proof (cases "a_open w")
  case True
  obtain i w0 where n: "next_io (w\<lparr>a_open := False\<rparr>) = (i, w0)" by fastforce
  then obtain "is" where "w0 = w\<lparr>a_open := False, w_io := is\<rparr>" using next_io_eq by blast
  then show ?thesis using n True by (simp add: close_arena_def)
qed (simp add: close_arena_def)

lemma open_spill_ok:
  assumes c: "checkpoint_ok s" and l: "int (length out) = MergedBytes s" "MergedBytes s \<le> max_i64"
    and w: "w = (window_over out dsk ios s)\<lparr>w_io := is\<rparr>"
  shows "\<exists>r w1 s1. open_spill w s = Some ((r, w1), s1) \<and>
    (r = None \<longrightarrow> w_total w1 = TotalSegments s \<and> \<not> w_closed w1 \<and> storeErr w1 = None \<and> TotalSegments s1 = TotalSegments s \<and>
      (\<exists>acc. adopted_payloads s dsk acc \<and> win_ok out (MergedSegments s) acc w1))"
proof (cases "SpillEntries s = []")
  case True
  then have "open_spill w s = Some ((None, w), s)" by (simp add: open_spill_def)
  moreover have "inv_bits (CompletedBitmap s) (TotalSegments s) (MergedSegments s) []"
    using c True by (simp add: checkpoint_ok_def ledger_def)
  moreover have "VerifiedBytes s = MergedBytes s" using c True by (simp add: checkpoint_ok_def)
  then have "w = (window_over out dsk ios s)\<lparr>w_io := is, a_disk := dsk, w_bitmap := CompletedBitmap s, verified_bytes := MergedBytes s\<rparr>"
    by (simp add: w window_over_def)
  ultimately show ?thesis using window_over_ok[OF c l] adopted_none by (force simp: w window_over_def)
next
  case False
  have d: "distinct (map SegmentIndex (SpillEntries s))"
    using c by (simp add: checkpoint_ok_def inv_keys_def ledger_keys)
  obtain ra wa where a: "adopt (SpillFileSize s) (SpillEntries s) w = (ra, wa)" by fastforce
  from adopt_effect[OF a d] obtain is1 dk where
    dsk: "(\<forall>b. ra \<noteq> Inr b) \<or> (ra = Inr False \<and> wa = w\<lparr>w_io := is1, a_disk := None\<rparr>) \<or>
    (ra = Inr True \<and> a_disk w = Some dk \<and> SpillFileSize s \<le> int (length dk) \<and>
     wa = w\<lparr>w_io := is1, a_open := True, a_disk := Some (take (nat (SpillFileSize s)) dk), a_tail := SpillFileSize s,
            a_entries := rev (ledger s)\<rparr>)" unfolding ledger_def by blast
  have dw: "a_disk w = dsk" by (simp add: w window_over_def)
  consider e where "ra = Inl e"
    | "ra = Inr False" "wa = w\<lparr>w_io := is1, a_disk := None\<rparr>"
    | "ra = Inr True" "SpillFileSize s \<le> int (length dk)"
      "wa = w\<lparr>w_io := is1, a_open := True, a_disk := Some (take (nat (SpillFileSize s)) dk), a_tail := SpillFileSize s,
            a_entries := rev (ledger s)\<rparr>" "dsk = Some dk" using dsk dw by (cases ra) auto
  then show ?thesis
  proof cases
    case 1
    then show ?thesis using a False by (simp add: open_spill_def)
  next
    case 2
    define bm where "bm = foldl clearBit (CompletedBitmap s) [MergedSegments s..TotalSegments s - 1]"
    define w1 where "w1 = (window_over out dsk ios s)\<lparr>w_io := is1, a_disk := None, w_bitmap := bm, verified_bytes := MergedBytes s\<rparr>"
    have eq: "wa\<lparr>w_bitmap := foldl clearBit (w_bitmap wa) [mergedSegs wa..w_total wa - 1], verified_bytes := merged wa\<rparr> = w1"
      by (simp add: 2 w w1_def window_over_def bm_def)
    have o: "open_spill w s = Some ((None, w1), demoteSpill s)"
      using a False 2(1) eq by (simp add: open_spill_def)
    have ib: "inv_bits (CompletedBitmap s) (TotalSegments s) (MergedSegments s) (ledger s)" using c by (simp add: checkpoint_ok_def)
    have "inv_bits bm (TotalSegments s) (MergedSegments s) []"
    proof -
      have k: "0 \<le> MergedSegments s" "MergedSegments s \<le> TotalSegments s" using ib by (simp_all add: inv_bits_def)
      note cr = clear_range[OF k inv_bits_capacity[OF ib]]
      have ll: "length bm = length (CompletedBitmap s)" by (simp add: bm_def)
      have "hasBit bm i = (i < MergedSegments s)" if i: "0 \<le> i" "i < bit_capacity bm" for i
      proof -
        have i2: "i < bit_capacity (CompletedBitmap s)" using i(2) ll by (simp add: bit_capacity_def)
        have lk: "j < TotalSegments s" if "j \<in> fst ` set (ledger s)" for j
          using c that by (auto simp: checkpoint_ok_def inv_keys_def entry_ok_def)
        show ?thesis using cr(1)[OF i(1) i2] ib i(1) i2 lk[of i] k
          by (auto simp: bm_def inv_bits_def)
      qed
      then show ?thesis using ib ll by (simp add: inv_bits_def)
    qed
    then have "win_ok out (MergedSegments s) Map.empty w1" by (rule window_over_ok[OF c l _ w1_def])
    then show ?thesis using o adopted_none by (force simp: w1_def window_over_def demoteSpill_def)
  next
    case 3
    have ap: "adopted_payloads s dsk (ledger_payloads s dk)" using 3(4) False by (auto simp: adopted_payloads_def)
    have wa: "wa = (window_over out dsk ios s)\<lparr>w_io := is1, a_open := True, a_disk := Some (take (nat (SpillFileSize s)) dk), a_tail := SpillFileSize s,
            a_entries := rev (ledger s)\<rparr>" using 3(3) by (simp add: w)
    have i: "win_inv out (MergedSegments s) (ledger_payloads s dk) wa" by (rule adopted_inv[OF c l 3(2) wa])
    have f: "w_total wa = TotalSegments s" "\<not> w_closed wa" "storeErr wa = None" "pending wa = []"
      by (simp_all add: wa window_over_def)
    show ?thesis
    proof (cases "map_of (a_entries wa) (mergedSegs wa)")
      case None
      then have "open_spill w s = Some ((None, wa), s)" using a False 3(1) by (simp add: open_spill_def)
      moreover have "win_ok out (MergedSegments s) (ledger_payloads s dk) wa"
        using i None f by (simp add: win_ok_def frontier_free_def)
      ultimately show ?thesis using f ap by blast
    next
      case (Some e)
      obtain rd wd where dr: "drainLocked wa = Some (rd, wd)" "win_inv out (MergedSegments s) (ledger_payloads s dk) wd"
        "same_frame wa wd" "rd = None \<longrightarrow> frontier_free wd" by (rule drainLocked_inv[OF i])
      show ?thesis
      proof (cases rd)
        case (Some e2)
        then show ?thesis using a False 3(1) \<open>map_of (a_entries wa) (mergedSegs wa) = Some e\<close> dr(1)
          by (simp add: open_spill_def)
      next
        case None
        have okd: "win_ok out (MergedSegments s) (ledger_payloads s dk) wd" using dr None by (simp add: win_ok_def)
        obtain rs ws where sy: "window_Sync wd = (rs, ws)" by fastforce
        note so = window_Sync_ok[OF okd sy]
        have o: "open_spill w s = Some ((rs, if rs = None then ws else close_arena ws), s)"
          using a False 3(1) Some dr(1) None sy by (cases rs) (simp_all add: open_spill_def)
        have "storeErr ws = None" if "rs = None"
          using sy that dr(3) f unfolding window_Sync_def same_frame_def
          by (auto simp: Let_def dest!: next_io_eq split: prod.splits if_splits)
        then show ?thesis using o so f dr(3) ap by (auto simp: same_frame_def)
      qed
    qed
  qed
qed

section \<open>The constructor and the mount\<close>

lemma newReorderWindow_ok:
  assumes m: "MergedBytes s \<le> max_i64"
  shows "\<exists>r. newReorderWindow out dp ID (Some s) dsk ios sp = Some r \<and>
    (\<forall>mw. r = Inr mw \<longrightarrow> int (length out) = MergedBytes s \<and> w_total (m_window mw) = TotalSegments s \<and>
       \<not> w_closed (m_window mw) \<and> storeErr (m_window mw) = None \<and> (\<exists>acc. adopted_payloads s dsk acc \<and> win_ok out (MergedSegments s) acc (m_window mw)))"
proof (cases "dp = [] \<or> validateSpillID ID \<noteq> None \<or> ValidateCheckpointSeed (Some s) \<noteq> None")
  case True
  then show ?thesis by (auto simp: newReorderWindow_def split: option.splits)
next
  case False
  then have c: "checkpoint_ok s" using ValidateCheckpointSeed_ok by blast
  obtain i w where n: "next_io (window_over out dsk ios s) = (i, w)" by fastforce
  then obtain "is" where w: "w = (window_over out dsk ios s)\<lparr>w_io := is\<rparr>" using next_io_eq by blast
  show ?thesis
  proof (cases "(\<exists>k. i = IoFail k) \<or> int (length out) \<noteq> MergedBytes s")
    case True
    then show ?thesis using False by (cases i) (auto simp: newReorderWindow_def n)
  next
    case ok: False
    then have l: "int (length out) = MergedBytes s" by simp
    from open_spill_ok[OF c l m w] obtain r w1 s1 where
      o: "open_spill w s = Some ((r, w1), s1)" and
      g: "r = None \<longrightarrow> w_total w1 = TotalSegments s \<and> \<not> w_closed w1 \<and> storeErr w1 = None \<and>
        TotalSegments s1 = TotalSegments s \<and> (\<exists>acc. adopted_payloads s dsk acc \<and> win_ok out (MergedSegments s) acc w1)" by blast
    have "newReorderWindow out dp ID (Some s) dsk ios sp =
      Some (case r of Some e \<Rightarrow> Inl (MountStorage e, w_io w1)
        | None \<Rightarrow> Inr \<lparr>m_window = w1, m_seed = s1, m_spillPath = sp\<rparr>)"
      using False ok o l by (cases i; cases r) (auto simp: newReorderWindow_def n)
    then show ?thesis using g l by (cases r) auto
  qed
qed

lemma next_io_nil [simp]: "w_io w = [] \<Longrightarrow> next_io w = (IoOk, w)"
  by (simp add: next_io_def)

lemma mt_next_nil [simp]: "mt_io t = [] \<Longrightarrow> mt_next t = (IoOk, t)"
  by (simp add: mt_next_def)

lemma replayEntry_nil:
  "w_io w = [] \<Longrightarrow> int (length (arena_slice w e)) = sp_Length e \<Longrightarrow> \<exists>f. replayEntry off e w = (None, w\<lparr>w_out := f\<rparr>)"
  by (cases "rangeCopyDown w") (auto simp: replayEntry_def replay_portable_def Let_def)

lemma drain_spilled_nil:
  assumes i: "win_inv P m0 acc w" and p: "map_of (a_entries w) (mergedSegs w) = Some e" and io: "w_io w = []"
    and pe: "pending w = []"
  shows "\<exists>w1. drain_spilled e w = (DrainMore, w1) \<and> w_io w1 = [] \<and> pending w1 = []"
proof -
  have k: "inv_keys (w_total w) (mergedSegs w) (a_tail w) (pending w) (a_entries w)" and wf: "arena_wf w"
    and cn: "verified_bytes w = merged w + (\<Sum>(j, e)\<leftarrow>a_entries w. sp_Length e)" "verified_bytes w \<le> max_i64"
    using i by (simp_all add: win_inv_def inv_counts_def)
  have "a_entries w \<noteq> []" using p by auto
  then have tl: "a_tail w \<le> int (length (arena_bytes w))" using wf by (auto simp: arena_wf_def arena_bytes_def)
  have l: "int (length (arena_slice w e)) = sp_Length e"
    unfolding arena_slice_slice by (rule entry_slice_length[OF k tl p])
  have "sp_Length e \<le> (\<Sum>(j, e)\<leftarrow>a_entries w. sp_Length e)"
  proof -
    have d: "distinct (map fst (a_entries w))" using k by (simp add: inv_keys_def)
    have "0 \<le> (\<Sum>(j, e)\<leftarrow>drop_key (mergedSegs w) (a_entries w). sp_Length e)"
    proof (rule sum_list_nonneg)
      fix x assume "x \<in> set (map (\<lambda>(j, e). sp_Length e) (drop_key (mergedSegs w) (a_entries w)))"
      then obtain j e where "(j, e) \<in> set (a_entries w)" "x = sp_Length e" by (auto simp: set_drop_key)
      then have "entry_ok (w_total w) (mergedSegs w) (a_tail w) j e" using k by (simp add: inv_keys_def)
      then show "0 \<le> x" using \<open>x = sp_Length e\<close> by (simp add: entry_ok_def)
    qed
    then show ?thesis using sum_drop_key[OF d p, of sp_Length] by simp
  qed
  then have ov: "\<not> sp_Length e > max_i64 - merged w" using cn by simp
  obtain f where re: "replayEntry (merged w) e w = (None, w\<lparr>w_out := f\<rparr>)" using replayEntry_nil[OF io l] by blast
  show ?thesis using ov re io pe by (simp add: drain_spilled_def Let_def spill_truncate_def)
qed

lemma drain_nil:
  "win_inv P m0 acc w \<Longrightarrow> w_io w = [] \<Longrightarrow> pending w = [] \<Longrightarrow> retained w < fuel \<Longrightarrow>
    \<exists>w1. drain fuel w = Some (None, w1) \<and> w_io w1 = []"
proof (induction fuel arbitrary: w)
  case 0
  then show ?case by simp
next
  case (Suc fuel)
  show ?case
  proof (cases "map_of (a_entries w) (mergedSegs w)")
    case None
    then show ?thesis using Suc.prems by (simp add: drain_once_def)
  next
    case (Some e)
    obtain w1 where d: "drain_spilled e w = (DrainMore, w1)" "w_io w1 = []" "pending w1 = []"
      using drain_spilled_nil[OF Suc.prems(1) Some Suc.prems(2,3)] by blast
    note s = drain_spilled_inv[OF Suc.prems(1) Some d(1)]
    have "retained w1 < fuel" using s Suc.prems(4) by simp
    then show ?thesis using Suc.IH[of w1] s d Some Suc.prems(3) by (simp add: drain_once_def)
  qed
qed

lemma window_Sync_nil: "w_io w = [] \<Longrightarrow> \<not> w_closed w \<Longrightarrow> window_Sync w = (None, w)"
  by (simp add: window_Sync_def Let_def)

lemma adopt_nil:
  assumes "w_io w = []"
  shows "\<exists>b w1. adopt declared es w = (Inr b, w1) \<and> w_io w1 = []"
  using assms by (cases "a_disk w") (auto simp: adopt_def)

lemma open_spill_nil:
  assumes c: "checkpoint_ok s" and l: "int (length out) = MergedBytes s" "MergedBytes s \<le> max_i64"
    and w: "w = (window_over out dsk [] s)\<lparr>w_io := []\<rparr>"
  shows "\<exists>w1 s1. open_spill w s = Some ((None, w1), s1)"
proof (cases "SpillEntries s = []")
  case True
  then show ?thesis by (simp add: open_spill_def)
next
  case False
  have io: "w_io w = []" by (simp add: w)
  obtain b wa where a: "adopt (SpillFileSize s) (SpillEntries s) w = (Inr b, wa)" "w_io wa = []"
    using adopt_nil[OF io] by blast
  show ?thesis
  proof (cases b)
    case False
    then show ?thesis using a \<open>SpillEntries s \<noteq> []\<close> by (simp add: open_spill_def)
  next
    case True
    have d: "distinct (map SegmentIndex (SpillEntries s))"
      using c by (simp add: checkpoint_ok_def inv_keys_def ledger_keys)
    from adopt_effect[OF a(1) d] True obtain is1 dk where dk: "SpillFileSize s \<le> int (length dk)"
      "wa = w\<lparr>w_io := is1, a_open := True, a_disk := Some (take (nat (SpillFileSize s)) dk), a_tail := SpillFileSize s,
            a_entries := rev (map (\<lambda>e. (SegmentIndex e, e)) (SpillEntries s))\<rparr>" by auto
    have wa: "wa = (window_over out dsk [] s)\<lparr>w_io := is1, a_open := True, a_disk := Some (take (nat (SpillFileSize s)) dk),
      a_tail := SpillFileSize s, a_entries := rev (ledger s)\<rparr>" using dk(2) by (simp add: w ledger_def)
    have i: "win_inv out (MergedSegments s) (ledger_payloads s dk) wa" by (rule adopted_inv[OF c l dk(1) wa])
    have f: "\<not> w_closed wa" "pending wa = []" by (simp_all add: wa window_over_def)
    obtain w1 where dr: "drainLocked wa = Some (None, w1)" "w_io w1 = []"
      using drain_nil[OF i a(2) f(2), of "Suc (retained wa)"] by (auto simp: drainLocked_def retained_def)
    have "\<not> w_closed w1" using drainLocked_inv[OF i] dr(1) f(1) by (metis option.inject prod.inject same_frame_def)
    then show ?thesis using a(1) True \<open>SpillEntries s \<noteq> []\<close> dr window_Sync_nil[OF dr(2)]
      by (cases "map_of (a_entries wa) (mergedSegs wa)") (simp_all add: open_spill_def)
  qed
qed

lemma newReorderWindow_nil:
  assumes "dp \<noteq> []" and "validateSpillID ID = None" and "MergedBytes s \<le> max_i64"
  shows "(\<exists>e. newReorderWindow out dp ID (Some s) dsk [] sp = Some (Inl (DirtySeed e, []))) \<or>
    (\<exists>mw. newReorderWindow out dp ID (Some s) dsk [] sp = Some (Inr mw))"
    and "ValidateCheckpointSeed (Some s) = None \<Longrightarrow> int (length out) = MergedBytes s \<Longrightarrow>
      \<exists>mw. newReorderWindow out dp ID (Some s) dsk [] sp = Some (Inr mw)"
proof -
  have n: "next_io (window_over out dsk [] s) = (IoOk, window_over out dsk [] s)" by (simp add: window_over_def)
  have w: "window_over out dsk [] s = (window_over out dsk [] s)\<lparr>w_io := []\<rparr>" by (simp add: window_over_def)
  have v: "\<exists>mw. newReorderWindow out dp ID (Some s) dsk [] sp = Some (Inr mw)"
    if "ValidateCheckpointSeed (Some s) = None" "int (length out) = MergedBytes s"
    using open_spill_nil[OF ValidateCheckpointSeed_ok[OF that(1)] that(2) assms(3) w] that assms
    by (auto simp: newReorderWindow_def n)
  then show "ValidateCheckpointSeed (Some s) = None \<Longrightarrow> int (length out) = MergedBytes s \<Longrightarrow>
      \<exists>mw. newReorderWindow out dp ID (Some s) dsk [] sp = Some (Inr mw)" by blast
  show "(\<exists>e. newReorderWindow out dp ID (Some s) dsk [] sp = Some (Inl (DirtySeed e, []))) \<or>
    (\<exists>mw. newReorderWindow out dp ID (Some s) dsk [] sp = Some (Inr mw))"
  proof (cases "ValidateCheckpointSeed (Some s)")
    case (Some e)
    then show ?thesis using assms by (simp add: newReorderWindow_def)
  next
    case None
    have "w_io (window_over out dsk [] s) = []" by (simp add: window_over_def)
    then show ?thesis using None v assms by (cases "int (length out) = MergedBytes s") (simp_all add: newReorderWindow_def n)
  qed
qed

lemma mt_next_eq: "mt_next t = (i, t1) \<Longrightarrow> \<exists>is. t1 = t\<lparr>mt_io := is\<rparr>"
proof (cases "mt_io t")
  case Nil
  assume "mt_next t = (i, t1)"
  then have "t1 = t\<lparr>mt_io := mt_io t\<rparr>" using Nil by (simp add: mt_next_def)
  then show ?thesis by blast
qed (auto simp: mt_next_def)

text \<open>
  What a mounted window may rest on: the media bytes the checkpoint claims, read from the file that was
  found, or nothing merged yet over an init segment that was fetched (over nothing, when the media has
  no init segment).
\<close>

definition mount_base :: "init_fetch \<Rightarrow> resume_state \<Rightarrow> bytes \<Rightarrow> bytes \<Rightarrow> int \<Rightarrow> bool" where
  "mount_base fetch s out P m0 \<longleftrightarrow>
     (m0 = MergedSegments s \<and> MergedBytes s \<le> int (length out) \<and> P = take (nat (MergedBytes s)) out) \<or>
     (m0 = 0 \<and> (if InitSegmentURI s = [] then P = [] else \<exists>k x. fetch k x = Inr P))"

text \<open>What holds of the file and the seed once the file is aligned, and after the later steps of a mount.\<close>

definition aligned :: "resume_state \<Rightarrow> bytes \<Rightarrow> bytes option \<Rightarrow> mount_state \<Rightarrow> bool" where
  "aligned s out dsk t \<longleftrightarrow> mt_disk t = dsk \<and>
     (mt_seed t = s \<and> progressCountersSane s \<and> MergedBytes s \<le> int (length out) \<and> mt_out t = take (nat (MergedBytes s)) out \<or>
      mt_seed t = resetProgress s \<and> mt_out t = [])"

definition prep_ok :: "init_fetch \<Rightarrow> resume_state \<Rightarrow> bytes \<Rightarrow> bytes option \<Rightarrow> mount_state \<Rightarrow> bool" where
  "prep_ok fetch s out dsk t \<longleftrightarrow>
     TotalSegments (mt_seed t) = TotalSegments s \<and> InitSegmentURI (mt_seed t) = InitSegmentURI s \<and>
     MergedBytes (mt_seed t) \<le> max_i64 \<and>
     (SpillEntries (mt_seed t) = [] \<or>
      SpillEntries (mt_seed t) = SpillEntries s \<and> SpillFileSize (mt_seed t) = SpillFileSize s \<and> mt_disk t = dsk) \<and>
     mount_base fetch s out (mt_out t) (MergedSegments (mt_seed t))"

lemma truncate_out_effect:
  "truncate_out n t = (None, t1) \<Longrightarrow>
    mt_out t1 = take (nat n) (mt_out t) \<and> mt_seed t1 = mt_seed t \<and> mt_disk t1 = mt_disk t"
  by (cases "mt_next t"; cases "fst (mt_next t)") (auto simp: truncate_out_def dest!: mt_next_eq)

lemma align_out_ok:
  assumes s: "mt_seed t = (if progressCountersSane s then s else resetProgress s)" and a: "align_out t = (None, t1)"
  shows "aligned s (mt_out t) (mt_disk t) t1"
proof -
  let ?s = "mt_seed t"
  have "MergedBytes ?s \<le> 0 \<and> mt_seed t1 = ?s \<and> mt_out t1 = [] \<and> mt_disk t1 = mt_disk t \<or>
    mt_seed t1 = resetProgress ?s \<and> mt_out t1 = [] \<and> mt_disk t1 = mt_disk t \<or>
    MergedBytes ?s \<le> int (length (mt_out t)) \<and> mt_seed t1 = ?s \<and> mt_disk t1 = mt_disk t \<and>
      mt_out t1 = take (nat (MergedBytes ?s)) (mt_out t) \<and> 0 < MergedBytes ?s"
    using a truncate_out_effect[of _ t t1] truncate_out_effect[of 0 "t\<lparr>mt_seed := resetProgress ?s\<rparr>" t1]
    by (auto simp: align_out_def Let_def split: if_splits)
  then show ?thesis using s by (auto simp: aligned_def resetProgress_def split: if_splits)
qed

lemma add64_le: "add64 a b \<le> max_i64"
  using in_i64_wrap64[of "a + b"] by (simp add: in_i64_def)

text \<open>An init segment fetched into an empty file is the whole file.\<close>

definition init_written :: "init_fetch \<Rightarrow> mount_state \<Rightarrow> mount_state \<Rightarrow> bool" where
  "init_written fetch t t1 \<longleftrightarrow> (\<exists>k x. fetch k x = Inr (mt_out t1)) \<and> MergedSegments (mt_seed t1) = 0 \<and>
     MergedBytes (mt_seed t1) \<le> max_i64 \<and> SpillEntries (mt_seed t1) = SpillEntries (mt_seed t) \<and>
     SpillFileSize (mt_seed t1) = SpillFileSize (mt_seed t) \<and> TotalSegments (mt_seed t1) = TotalSegments (mt_seed t) \<and>
     InitSegmentURI (mt_seed t1) = InitSegmentURI (mt_seed t) \<and> mt_disk t1 = mt_disk t"

lemma refetch_init_ok:
  assumes z: "MergedSegments (mt_seed t) = 0" "InitBytes (mt_seed t) = 0" "mt_out t = []"
    and r: "refetch_init fetch p t = (None, t1)"
  shows "init_written fetch t t1"
proof -
  define t' where "t' = t\<lparr>mt_fetches := Suc (mt_fetches t)\<rparr>"
  have st: "t\<lparr>mt_seed := strip_init (mt_seed t), mt_fetches := Suc (mt_fetches t)\<rparr> = t'"
    using z by (simp add: strip_init_def t'_def)
  obtain plain where f: "fetch (mt_fetches t) (mt_seed t') = Inr plain" "plain \<noteq> []" and w: "write_init p plain t' = (None, t1)"
    using r by (auto simp: refetch_init_def Let_def st split: sum.splits if_splits)
  obtain i t2 where n: "mt_next t' = (i, t2)" by fastforce
  then obtain "is" where t2: "t2 = t'\<lparr>mt_io := is\<rparr>" using mt_next_eq by blast
  have sd: "mt_seed t' = mt_seed t" by (simp add: t'_def)
  have "\<And>k. i \<noteq> IoFail k" using w by (auto simp: write_init_def n Let_def)
  then have t1: "t1 = t2\<lparr>mt_out := splice (mt_out t2) 0 plain, mt_seed := (mt_seed t')\<lparr>InitBytes := int (length plain),
      MergedBytes := add64 (MergedBytes (mt_seed t')) (int (length plain)),
      VerifiedBytes := add64 (MergedBytes (mt_seed t')) (int (length plain)), InitCompleted := True\<rparr>\<rparr>"
    using w z sd by (cases i) (simp_all add: write_init_def n Let_def)
  have "mt_out t1 = plain" using z f by (simp add: t1 t2 t'_def splice_def)
  then show ?thesis using f z by (auto simp: init_written_def t1 t2 t'_def add64_le)
qed

lemma sane_facts:
  assumes "progressCountersSane s"
  shows "0 \<le> InitBytes s" "InitBytes s \<le> MergedBytes s \<or> InitSegmentURI s = []" "InitCompleted s \<longrightarrow> InitSegmentURI s = [] \<or> 0 < InitBytes s"
    "\<not> InitCompleted s \<longrightarrow> InitBytes s = 0 \<and> (InitSegmentURI s \<noteq> [] \<longrightarrow> MergedSegments s = 0 \<and> MergedBytes s = 0)"
  using assms by (auto simp: progressCountersSane_def Let_def split: if_splits)

lemma prepareInitSegment_ok:
  assumes m: "MergedBytes s \<le> max_i64" and al: "aligned s out dsk t" and a: "prepareInitSegment fetch t = (None, t1)"
  shows "prep_ok fetch s out dsk t1"
proof (cases "InitSegmentURI s = []")
  case True
  then have "t1 = t" using a al by (auto simp: prepareInitSegment_def aligned_def resetProgress_def)
  then show ?thesis using al m True by (auto simp: prep_ok_def aligned_def mount_base_def resetProgress_def max_i64_def)
next
  case uri: False
  have ut: "InitSegmentURI (mt_seed t) \<noteq> []" using al uri by (auto simp: aligned_def resetProgress_def)
  have fresh: "prep_ok fetch s out dsk t1"
    if "MergedSegments (mt_seed t) = 0" "InitBytes (mt_seed t) = 0" "mt_out t = []" "refetch_init fetch p t = (None, t1)" for p
  proof -
    have e: "SpillEntries (mt_seed t) = [] \<or> SpillEntries (mt_seed t) = SpillEntries s \<and> SpillFileSize (mt_seed t) = SpillFileSize s"
      "mt_disk t = dsk" "TotalSegments (mt_seed t) = TotalSegments s" "InitSegmentURI (mt_seed t) = InitSegmentURI s"
      using al by (auto simp: aligned_def resetProgress_def)
    have i: "init_written fetch t t1" by (rule refetch_init_ok[OF that])
    have "mount_base fetch s out (mt_out t1) (MergedSegments (mt_seed t1))"
      using i uri unfolding mount_base_def init_written_def by simp
    then show ?thesis using i e unfolding init_written_def prep_ok_def by simp
  qed
  consider (kept) "mt_seed t = s" "progressCountersSane s" "InitCompleted s" "MergedBytes s \<le> int (length out)"
      "mt_out t = take (nat (MergedBytes s)) out"
    | (new) "\<not> InitCompleted (mt_seed t)" "MergedSegments (mt_seed t) = 0" "InitBytes (mt_seed t) = 0" "mt_out t = []"
  proof -
    from al consider "mt_seed t = s" "progressCountersSane s" "MergedBytes s \<le> int (length out)"
        "mt_out t = take (nat (MergedBytes s)) out"
      | "mt_seed t = resetProgress s" "mt_out t = []" unfolding aligned_def by blast
    then show thesis
    proof cases
      case 1
      note f = sane_facts[OF 1(2)]
      show thesis
      proof (cases "InitCompleted s")
        case True
        then show thesis using kept 1 by blast
      next
        case False
        then show thesis using new f 1 uri by simp
      qed
    next
      case 2
      then show thesis using new by (simp add: resetProgress_def)
    qed
  qed
  then show ?thesis
  proof cases
    case kept
    note f = sane_facts[OF kept(2)]
    obtain i t2 where n: "mt_next t = (i, t2)" by fastforce
    then obtain "is" where t2: "t2 = t\<lparr>mt_io := is\<rparr>" using mt_next_eq by blast
    have "InitBytes s \<le> int (length (mt_out t2))" using f(2) uri kept by (simp add: t2)
    then have "t1 = t2" using a uri kept f n by (cases i) (auto simp: prepareInitSegment_def Let_def)
    moreover have "mt_disk t = dsk" using al by (simp add: aligned_def)
    ultimately show ?thesis using kept m by (simp add: prep_ok_def mount_base_def t2)
  next
    case new
    then have "refetch_init fetch (InitBytes (mt_seed t)) t = (None, t1)"
      using a ut by (simp add: prepareInitSegment_def Let_def)
    then show ?thesis using fresh new by blast
  qed
qed

lemma remove_spill_effect:
  "remove_spill t = (None, t1) \<Longrightarrow> mt_out t1 = mt_out t \<and> mt_seed t1 = mt_seed t \<and> mt_disk t1 = None"
  by (cases "mt_next t"; cases "fst (mt_next t)") (auto simp: remove_spill_def dest!: mt_next_eq)

lemma settle_spill_ok:
  assumes "prep_ok fetch s out dsk t" and "settle_spill t = (None, t1)"
  shows "prep_ok fetch s out dsk t1"
proof (cases "SpillEntries (mt_seed t) = [] \<or> ValidateCheckpointSeed (Some (mt_seed t)) \<noteq> None")
  case True
  then have "remove_spill (t\<lparr>mt_seed := demoteSpill (mt_seed t)\<rparr>) = (None, t1)"
    using assms(2) unfolding settle_spill_def by (simp only: if_True)
  from remove_spill_effect[OF this] have "mt_out t1 = mt_out t" "mt_seed t1 = demoteSpill (mt_seed t)" by simp_all
  then show ?thesis using assms(1) by (simp add: prep_ok_def demoteSpill_def)
next
  case False
  then have "t1 = t" using assms(2) unfolding settle_spill_def by (simp only: if_False) simp
  then show ?thesis using assms(1) by simp
qed

lemma mount_prepare_ok:
  assumes "MergedBytes s \<le> max_i64" and "mt_seed t = (if progressCountersSane s then s else resetProgress s)"
    and "mount_prepare fetch t = (None, t3, f)"
  shows "prep_ok fetch s (mt_out t) (mt_disk t) t3"
proof -
  obtain t1 t2 where t: "align_out t = (None, t1)" "prepareInitSegment fetch t1 = (None, t2)" "settle_spill t2 = (None, t3)"
    using assms(3) by (auto simp: mount_prepare_def Let_def split: prod.splits option.splits)
  from prepareInitSegment_ok[OF assms(1) align_out_ok[OF assms(2) t(1)] t(2)] show ?thesis
    by (rule settle_spill_ok[OF _ t(3)])
qed

lemma remount_ok:
  assumes p: "prep_ok fetch s out dsk t" and r: "remount fetch (t\<lparr>mt_io := ios\<rparr>) = (None, t1)"
  shows "prep_ok fetch s out dsk t1"
proof -
  obtain ta tb where t: "truncate_out 0 (t\<lparr>mt_io := ios, mt_seed := resetProgress (mt_seed t)\<rparr>) = (None, ta)"
    "remove_spill ta = (None, tb)" "prepareInitSegment fetch tb = (None, t1)"
    using r by (auto simp: remount_def and_then_def split: prod.splits option.splits)
  have s: "mt_seed tb = resetProgress (mt_seed t)" "mt_out tb = []"
    using truncate_out_effect[OF t(1)] remove_spill_effect[OF t(2)] by simp_all
  show ?thesis
  proof (cases "InitSegmentURI s = []")
    case True
    then have "t1 = tb" using t(3) p s by (simp add: prepareInitSegment_def prep_ok_def resetProgress_def)
    then show ?thesis using True p s by (simp add: prep_ok_def mount_base_def resetProgress_def max_i64_def)
  next
    case False
    then have "refetch_init fetch 0 tb = (None, t1)"
      using t(3) p s by (simp add: prepareInitSegment_def prep_ok_def resetProgress_def Let_def)
    from refetch_init_ok[OF _ _ s(2) this] have "init_written fetch tb t1" by (simp add: s resetProgress_def)
    then show ?thesis using False p s by (auto simp: init_written_def prep_ok_def mount_base_def resetProgress_def)
  qed
qed

definition mounted_on :: "init_fetch \<Rightarrow> resume_state \<Rightarrow> bytes \<Rightarrow> bytes option \<Rightarrow> mounted \<Rightarrow> bool" where
  "mounted_on fetch s out dsk mw \<longleftrightarrow> \<not> w_closed (m_window mw) \<and> storeErr (m_window mw) = None \<and>
     w_total (m_window mw) = TotalSegments s \<and>
     (\<exists>P m0 acc. win_ok P m0 acc (m_window mw) \<and> mount_base fetch s out P m0 \<and> adopted_payloads s dsk acc)"

lemma try_open_ok:
  assumes p: "prep_ok fetch s out dsk t"
  shows "\<exists>r. try_open sp ID arena t = Some r \<and> (\<forall>mw. r = Inr mw \<longrightarrow> mounted_on fetch s out dsk mw)"
proof -
  have m: "MergedBytes (mt_seed t) \<le> max_i64" using p by (simp add: prep_ok_def)
  obtain r where r: "try_open sp ID arena t = Some r"
    "\<forall>mw. r = Inr mw \<longrightarrow> w_total (m_window mw) = TotalSegments (mt_seed t) \<and>
       \<not> w_closed (m_window mw) \<and> storeErr (m_window mw) = None \<and>
       (\<exists>acc. adopted_payloads (mt_seed t) (mt_disk t) acc \<and> win_ok (mt_out t) (MergedSegments (mt_seed t)) acc (m_window mw))"
    using newReorderWindow_ok[OF m, of "mt_out t" sp ID "mt_disk t" "mt_io t" arena] by (auto simp: try_open_def)
  have "adopted_payloads (mt_seed t) (mt_disk t) acc \<Longrightarrow> adopted_payloads s dsk acc" for acc
    using p by (auto simp: prep_ok_def adopted_payloads_def ledger_payloads_def ledger_def fun_eq_iff)
  moreover have "mount_base fetch s out (mt_out t) (MergedSegments (mt_seed t))" "TotalSegments (mt_seed t) = TotalSegments s"
    using p by (simp_all add: prep_ok_def)
  ultimately show ?thesis using r unfolding mounted_on_def by metis
qed

lemma mount_open_ok:
  assumes p: "prep_ok fetch s out dsk t"
  shows "\<exists>r. mount_open sp ID arena fetch f t = Some r \<and> (\<forall>mw s1 b. r = Inr (mw, s1, b) \<longrightarrow> mounted_on fetch s out dsk mw)"
proof -
  obtain r where r: "try_open sp ID arena t = Some r" "\<forall>mw. r = Inr mw \<longrightarrow> mounted_on fetch s out dsk mw"
    using try_open_ok[OF p] by blast
  show ?thesis
  proof (cases r)
    case (Inr mw)
    then show ?thesis using r by (simp add: mount_open_def mount_finish_def Let_def)
  next
    case (Inl x)
    obtain e ios where x: "x = (e, ios)" by fastforce
    show ?thesis
    proof (cases "\<exists>d. e = DirtySeed d")
      case False
      then show ?thesis using r(1) Inl x by (cases e) (simp_all add: mount_open_def)
    next
      case True
      then obtain d where d: "e = DirtySeed d" by blast
      obtain re t1 where rm: "remount fetch (t\<lparr>mt_io := ios\<rparr>) = (re, t1)" by fastforce
      show ?thesis
      proof (cases re)
        case (Some e2)
        then show ?thesis using r(1) Inl x d rm by (simp add: mount_open_def)
      next
        case None
        obtain r2 where r2: "try_open sp ID arena t1 = Some r2" "\<forall>mw. r2 = Inr mw \<longrightarrow> mounted_on fetch s out dsk mw"
          using try_open_ok[OF remount_ok[OF p]] rm None by blast
        show ?thesis
          using r(1) Inl x d rm None r2
          by (cases r2) (auto simp: mount_open_def mount_finish_def Let_def)
      qed
    qed
  qed
qed

text \<open>C14: Whatever checkpoint, files, download identifier, init response and file system answers a
  mount meets, it returns, and a window it hands out is open, without a latched fault, and satisfies the
  window invariant over a determined base: either the media bytes the checkpoint claims, which the file
  then holds and which are kept byte for byte, with the claimed count of merged segments; or no merged
  segment at all, over exactly the init segment that was fetched (over an empty file when the media has
  none). The payloads it holds beyond that are none, or those the checkpoint's spill entries describe,
  read from the arena that was found.\<close>

theorem mount_is_consistent:
  assumes "MergedBytes s \<le> max_i64"
  shows "\<exists>r. mount ID dest (Some s) fetch out dsk ios arena = Some r \<and>
    (\<forall>mw s1 b. r = Inr (mw, s1, b) \<longrightarrow>
       \<not> w_closed (m_window mw) \<and> storeErr (m_window mw) = None \<and> w_total (m_window mw) = TotalSegments s \<and>
       (\<exists>P m0 acc. win_ok P m0 acc (m_window mw) \<and> mount_base fetch s out P m0 \<and> adopted_payloads s dsk acc))"
proof -
  define s0 where "s0 = (if progressCountersSane s then s else resetProgress s)"
  define t0 where "t0 = \<lparr>mt_out = out, mt_seed = s0, mt_disk = dsk, mt_io = ios, mt_fetches = 0\<rparr>"
  obtain i1 ta where n1: "mt_next t0 = (i1, ta)" by fastforce
  obtain i2 tb where n2: "mt_next ta = (i2, tb)" by fastforce
  obtain is1 is2 where ta: "ta = t0\<lparr>mt_io := is1\<rparr>" and tb: "tb = ta\<lparr>mt_io := is2\<rparr>"
    using mt_next_eq[OF n1] mt_next_eq[OF n2] by blast
  obtain re t3 f where mp: "mount_prepare fetch tb = (re, t3, f)" by (cases "mount_prepare fetch tb") auto
  have st: "mt_seed tb = s0" "mt_out tb = out" "mt_disk tb = dsk" by (simp_all add: tb ta t0_def)
  define refused where "refused \<longleftrightarrow> validateSpillID ID \<noteq> None \<or> TotalSegments s \<le> 0 \<or>
    int (length (Segments s)) \<noteq> TotalSegments s \<or> \<not> indexed 0 (Segments s) \<or>
    (\<exists>k. i1 = IoFail k) \<or> (\<exists>k. i2 = IoFail k) \<or> re \<noteq> None"
  have "\<exists>r. mount ID dest (Some s) fetch out dsk ios arena = Some r \<and>
    (\<forall>mw s1 b. r = Inr (mw, s1, b) \<longrightarrow> mounted_on fetch s out dsk mw)"
  proof (cases refused)
    case True
    then show ?thesis
      by (cases i1; cases i2; cases re)
        (auto simp: refused_def mount_def Let_def n1[unfolded t0_def s0_def] n2 mp split: option.splits)
  next
    case False
    then have p: "prep_ok fetch s out dsk t3"
      using mount_prepare_ok[OF assms, of tb fetch t3 f] mp by (simp add: refused_def st s0_def)
    have "mount ID dest (Some s) fetch out dsk ios arena
      = mount_open (dest @ IncompleteSuffix) ID arena fetch f t3"
      using False
      by (cases i1; cases i2) (auto simp: refused_def mount_def Let_def n1[unfolded t0_def s0_def] n2 mp split: option.splits)
    then show ?thesis using mount_open_ok[OF p] by simp
  qed
  then show ?thesis unfolding mounted_on_def by blast
qed

section \<open>A mount without faults succeeds\<close>

definition good_fetch :: "init_fetch \<Rightarrow> bool" where
  "good_fetch fetch \<longleftrightarrow> (\<forall>k s. \<exists>p. fetch k s = Inr p \<and> p \<noteq> [] \<and> int (length p) \<le> max_i64)"

definition quiet_step :: "mount_state \<Rightarrow> mount_error option \<times> mount_state \<Rightarrow> bool" where
  "quiet_step t r \<longleftrightarrow> fst r = None \<and> mt_io (snd r) = [] \<and>
     TotalSegments (mt_seed (snd r)) = TotalSegments (mt_seed t) \<and> Segments (mt_seed (snd r)) = Segments (mt_seed t)"

lemma truncate_out_nil: "mt_io t = [] \<Longrightarrow> truncate_out n t = (None, t\<lparr>mt_out := take (nat n) (mt_out t)\<rparr>)"
  by (simp add: truncate_out_def)

lemma remove_spill_nil: "mt_io t = [] \<Longrightarrow> remove_spill t = (None, t\<lparr>mt_disk := None\<rparr>)"
  by (simp add: remove_spill_def)

lemma align_out_quiet: "mt_io t = [] \<Longrightarrow> quiet_step t (align_out t)"
  by (simp add: align_out_def truncate_out_nil quiet_step_def resetProgress_def Let_def)

lemma write_init_quiet: "mt_io t = [] \<Longrightarrow> quiet_step t (write_init p plain t)"
  by (simp add: write_init_def quiet_step_def clearMediaPrefix_def Let_def)

lemma refetch_init_quiet:
  assumes "mt_io t = []" and g: "good_fetch fetch"
  shows "quiet_step t (refetch_init fetch p t)"
proof -
  define t1 where "t1 = t\<lparr>mt_seed := strip_init (mt_seed t), mt_fetches := Suc (mt_fetches t)\<rparr>"
  obtain plain where f: "fetch (mt_fetches t) (mt_seed t1) = Inr plain" "plain \<noteq> []"
    using g unfolding good_fetch_def by blast
  have "refetch_init fetch p t = write_init p plain t1"
    using f by (simp add: refetch_init_def t1_def Let_def)
  moreover have "quiet_step t1 (write_init p plain t1)" by (rule write_init_quiet) (simp add: t1_def assms)
  ultimately show ?thesis by (simp add: quiet_step_def t1_def strip_init_def Let_def split: if_splits)
qed

lemma prepareInitSegment_quiet:
  assumes i: "mt_io t = []" and g: "good_fetch fetch"
  shows "quiet_step t (prepareInitSegment fetch t)"
proof -
  define t2 where "t2 = t\<lparr>mt_seed := (mt_seed t)\<lparr>InitCompleted := False\<rparr>\<rparr>"
  have "quiet_step t2 (refetch_init fetch p t2)" for p
    by (rule refetch_init_quiet[OF _ g]) (simp add: t2_def i)
  then have "quiet_step t (refetch_init fetch p t2)" for p by (simp add: quiet_step_def t2_def)
  then show ?thesis using i refetch_init_quiet[OF i g]
    by (simp add: prepareInitSegment_def Let_def t2_def quiet_step_def)
qed

lemma settle_spill_quiet: "mt_io t = [] \<Longrightarrow> quiet_step t (settle_spill t)"
  by (simp add: settle_spill_def remove_spill_nil quiet_step_def demoteSpill_def)

lemma mount_prepare_quiet:
  assumes i: "mt_io t = []" and g: "good_fetch fetch"
  shows "\<exists>t3 f. mount_prepare fetch t = (None, t3, f) \<and> mt_io t3 = [] \<and>
    TotalSegments (mt_seed t3) = TotalSegments (mt_seed t) \<and> Segments (mt_seed t3) = Segments (mt_seed t)"
proof -
  obtain t1 where a: "align_out t = (None, t1)" "mt_io t1 = []"
    "TotalSegments (mt_seed t1) = TotalSegments (mt_seed t)" "Segments (mt_seed t1) = Segments (mt_seed t)"
    using align_out_quiet[OF i] by (cases "align_out t") (simp add: quiet_step_def)
  obtain t2 where b: "prepareInitSegment fetch t1 = (None, t2)" "mt_io t2 = []"
    "TotalSegments (mt_seed t2) = TotalSegments (mt_seed t)" "Segments (mt_seed t2) = Segments (mt_seed t)"
    using prepareInitSegment_quiet[OF a(2) g] a(3,4)
    by (cases "prepareInitSegment fetch t1") (simp add: quiet_step_def)
  obtain t3 where c: "settle_spill t2 = (None, t3)" "mt_io t3 = []"
    "TotalSegments (mt_seed t3) = TotalSegments (mt_seed t)" "Segments (mt_seed t3) = Segments (mt_seed t)"
    using settle_spill_quiet[OF b(2)] b(3,4) by (cases "settle_spill t2") (simp add: quiet_step_def)
  show ?thesis using a(1) b(1) c by (simp add: mount_prepare_def Let_def)
qed

lemma zero_bits [simp]: "\<not> hasBit (replicate n 0) i"
  by (simp add: hasBit_def)

lemma clear_zero [simp]: "foldl clearBit (replicate n 0) is = replicate n 0"
proof (induction "is")
  case (Cons i "is")
  have "clearBit (replicate n 0) i = replicate n 0"
    by (cases "nat i div 8 < n") (simp_all add: clearBit_def list_update_same_conv list_update_beyond)
  then show ?case using Cons by simp
qed simp

lemma restarted_seed_valid:
  assumes t: "0 < TotalSegments s" "int (length (Segments s)) = TotalSegments s" "indexed 0 (Segments s)"
    and n: "if InitSegmentURI s = [] then n = 0 \<and> \<not> c else 0 < n \<and> c"
  shows "ValidateCheckpointSeed (Some ((resetProgress s)\<lparr>InitBytes := n, MergedBytes := n, VerifiedBytes := n, InitCompleted := c\<rparr>)) = None"
    (is "ValidateCheckpointSeed (Some ?s) = None")
proof -
  have l: "nat ((TotalSegments s + 7) div 8) \<noteq> 0" using t(1) by simp
  have d: "demoteSpill ?s = ?s"
    by (simp add: demoteSpill_def resetProgress_def clear_from_def)
  have "last (replicate (nat ((TotalSegments s + 7) div 8)) 0) = (0 :: 8 word)" using l by (simp add: last_replicate)
  then have "validate_table ?s = None" using t
    by (simp add: validate_table_def resetProgress_def tail_bits_def list_all_iff)
  moreover have "validate_bytes ?s = None" using n
    by (auto simp: validate_bytes_def resetProgress_def split: if_splits)
  moreover have "validate_clean ?s = None" by (simp add: validate_clean_def resetProgress_def)
  ultimately have "validateSeed (Some (demoteSpill ?s)) = None" unfolding d validateSeed_None by blast
  then show ?thesis
    by (simp add: ValidateCheckpointSeed_def) (simp add: resetProgress_def list_ex_iff)
qed

lemma remount_quiet:
  assumes i: "mt_io t = []" and g: "good_fetch fetch"
    and t: "0 < TotalSegments (mt_seed t)" "int (length (Segments (mt_seed t))) = TotalSegments (mt_seed t)"
      "indexed 0 (Segments (mt_seed t))"
  shows "\<exists>t1. remount fetch t = (None, t1) \<and> mt_io t1 = [] \<and> ValidateCheckpointSeed (Some (mt_seed t1)) = None \<and>
    int (length (mt_out t1)) = MergedBytes (mt_seed t1) \<and> MergedBytes (mt_seed t1) \<le> max_i64"
proof -
  define tb where "tb = t\<lparr>mt_seed := resetProgress (mt_seed t), mt_out := [], mt_disk := None\<rparr>"
  have r: "remount fetch t = prepareInitSegment fetch tb"
    using i by (simp add: remount_def and_then_def truncate_out_nil remove_spill_nil tb_def)
  have ib: "mt_io tb = []" "mt_out tb = []" "mt_seed tb = resetProgress (mt_seed t)" by (simp_all add: tb_def i)
  note v = restarted_seed_valid[OF t]
  show ?thesis
  proof (cases "InitSegmentURI (mt_seed t) = []")
    case True
    then have "remount fetch t = (None, tb)"
      unfolding r by (simp add: prepareInitSegment_def ib) (simp add: resetProgress_def)
    moreover have "ValidateCheckpointSeed (Some (resetProgress (mt_seed t))) = None"
    proof -
      have "(resetProgress (mt_seed t))\<lparr>InitBytes := 0, MergedBytes := 0, VerifiedBytes := 0, InitCompleted := False\<rparr>
        = resetProgress (mt_seed t)" by (cases "mt_seed t") (simp add: resetProgress_def)
      then show ?thesis using v[of 0 False] True by simp
    qed
    ultimately show ?thesis by (simp add: ib) (simp add: resetProgress_def max_i64_def)
  next
    case False
    define t1 where "t1 = tb\<lparr>mt_fetches := Suc (mt_fetches tb)\<rparr>"
    have sb: "strip_init (mt_seed tb) = mt_seed tb" by (simp add: ib strip_init_def resetProgress_def)
    obtain plain where f: "fetch (mt_fetches tb) (mt_seed tb) = Inr plain" "plain \<noteq> []" "int (length plain) \<le> max_i64"
      using g unfolding good_fetch_def by blast
    have "prepareInitSegment fetch tb = refetch_init fetch 0 tb"
      using False by (simp add: prepareInitSegment_def ib Let_def) (simp add: resetProgress_def)
    also have "\<dots> = write_init 0 plain t1"
      using f by (simp add: refetch_init_def Let_def sb t1_def)
    also have "\<dots> = (None, t1\<lparr>mt_out := plain, mt_seed := (resetProgress (mt_seed t))\<lparr>InitBytes := int (length plain),
        MergedBytes := int (length plain), VerifiedBytes := int (length plain), InitCompleted := True\<rparr>\<rparr>)"
      using ib f(2,3) by (simp add: write_init_def t1_def splice_def wrap64_nonneg) (simp add: resetProgress_def wrap64_nonneg Let_def)
    finally show ?thesis using v[of "int (length plain)" True] False f ib
      unfolding r by (simp add: t1_def)
  qed
qed

lemma mount_returns:
  assumes "validateSpillID ID = None" and "0 < TotalSegments s" and "int (length (Segments s)) = TotalSegments s"
    and "indexed 0 (Segments s)" and "MergedBytes s \<le> max_i64" and "good_fetch fetch"
  shows "\<exists>mw s1 b. mount ID dest (Some s) fetch out dsk [] arena = Some (Inr (mw, s1, b))"
proof -
  define s0 where "s0 = (if progressCountersSane s then s else resetProgress s)"
  define t0 where "t0 = \<lparr>mt_out = out, mt_seed = s0, mt_disk = dsk, mt_io = [], mt_fetches = 0\<rparr>"
  have tb: "TotalSegments s0 = TotalSegments s" "Segments s0 = Segments s" by (simp_all add: s0_def resetProgress_def)
  have i0: "mt_io t0 = []" "mt_seed t0 = s0" "mt_out t0 = out" by (simp_all add: t0_def)
  have n0: "mt_next t0 = (IoOk, t0)" by (simp add: i0)
  obtain t3 f where m: "mount_prepare fetch t0 = (None, t3, f)" "mt_io t3 = []"
    "TotalSegments (mt_seed t3) = TotalSegments s" "Segments (mt_seed t3) = Segments s"
    using mount_prepare_quiet[OF i0(1) assms(6)] by (auto simp: i0 tb)
  define sp where "sp = dest @ IncompleteSuffix"
  have sp: "sp \<noteq> []" by (simp add: sp_def IncompleteSuffix_def)
  have e: "mount ID dest (Some s) fetch out dsk [] arena = mount_open sp ID arena fetch f t3"
    using assms(1-4) by (simp add: mount_def Let_def n0[unfolded t0_def s0_def] m(1)[unfolded t0_def s0_def] sp_def)
  have "mt_seed t0 = (if progressCountersSane s then s else resetProgress s)" by (simp add: i0 s0_def)
  from mount_prepare_ok[OF assms(5) this m(1)] have "MergedBytes (mt_seed t3) \<le> max_i64" by (simp add: prep_ok_def)
  from newReorderWindow_nil(1)[OF sp assms(1) this, of "mt_out t3" "mt_disk t3" arena]
  consider d where "try_open sp ID arena t3 = Some (Inl (DirtySeed d, []))"
    | mw where "try_open sp ID arena t3 = Some (Inr mw)" by (auto simp: try_open_def m(2))
  then show ?thesis
  proof cases
    case 1
    obtain t1 where r: "remount fetch (t3\<lparr>mt_io := []\<rparr>) = (None, t1)" "mt_io t1 = []"
      "ValidateCheckpointSeed (Some (mt_seed t1)) = None" "int (length (mt_out t1)) = MergedBytes (mt_seed t1)"
      "MergedBytes (mt_seed t1) \<le> max_i64"
      using remount_quiet[of "t3\<lparr>mt_io := []\<rparr>" fetch] assms(2-4,6) m(3,4) by auto
    obtain mw where "try_open sp ID arena t1 = Some (Inr mw)"
      using newReorderWindow_nil(2)[OF sp assms(1) r(5,3,4), of "mt_disk t1" arena] r(2) by (auto simp: try_open_def)
    then show ?thesis unfolding e using 1 r(1) by (simp add: mount_open_def mount_finish_def Let_def)
  next
    case 2
    then show ?thesis unfolding e by (simp add: mount_open_def mount_finish_def Let_def)
  qed
qed


text \<open>C13: No checkpoint aborts a mount. When the segment table is complete, the identifier is legal, the
  file system reports no fault and the init segment can be fetched, a window is mounted however
  inconsistent the claims of the checkpoint and the files behind them are.\<close>

theorem mount_never_aborts:
  assumes "validateSpillID ID = None" and "0 < TotalSegments s" and "int (length (Segments s)) = TotalSegments s"
    and "indexed 0 (Segments s)" and "MergedBytes s \<le> max_i64" and "good_fetch fetch"
  shows "\<exists>mw s1 b. mount ID dest (Some s) fetch out dsk [] arena = Some (Inr (mw, s1, b))"
  using assms by (rule mount_returns)

section \<open>A checkpoint restores the window it was taken from\<close>

lemma tail_bits_zero:
  assumes l: "int (length bm) = (tot + 7) div 8" and p: "0 < tot" and m: "tot mod 8 \<noteq> 0"
    and c: "\<forall>i. tot \<le> i \<and> i < bit_capacity bm \<longrightarrow> \<not> hasBit bm i"
  shows "tail_bits bm tot = 0"
proof (rule bit_eqI)
  fix n assume "possible_bit TYPE(8 word) n"
  then have n: "n < 8" by simp
  have ne: "bm \<noteq> []" using l p by auto
  define u where "u = int (length bm) - 1"
  have lu: "tot mod 8 = tot - 8 * u"
  proof -
    have "8 * u \<le> tot" "tot < 8 * u + 8" using l m p unfolding u_def by presburger+
    then show ?thesis by (rule octet(2))
  qed
  show "bit (tail_bits bm tot) n = bit (0 :: 8 word) n"
  proof (cases "int n + tot mod 8 < 8")
    case True
    define i where "i = int n + tot"
    have i: "8 * u \<le> i" "i < 8 * u + 8" using True lu p pos_mod_sign[of 8 tot] by (simp_all add: i_def)
    have "i div 8 = u" "i mod 8 = int n + tot mod 8" using octet[OF i] lu by (simp_all add: i_def)
    moreover have "int (nat i div 8) = i div 8" "int (nat i mod 8) = i mod 8" using p by (simp_all add: i_def zdiv_int zmod_int)
    ultimately have "nat i div 8 = nat u" "nat i mod 8 = nat (int n + tot mod 8)" by (metis nat_int)+
    then have d: "nat i div 8 = length bm - 1" "nat i mod 8 = nat (tot mod 8) + n"
      by (simp_all add: u_def nat_add_distrib nat_diff_distrib')
    have "\<not> hasBit bm i" using c i by (simp add: i_def bit_capacity_def u_def)
    then show ?thesis using d ne by (simp add: hasBit_def tail_bits_def last_conv_nth bit_drop_bit_eq)
  next
    case False
    then have "8 \<le> nat (tot mod 8) + n" by linarith
    then have "\<not> bit (last bm) (nat (tot mod 8) + n)" using bit_imp_le_length[of "last bm"] by force
    then show ?thesis by (simp add: tail_bits_def bit_drop_bit_eq)
  qed
qed

lemma check_entries_intro:
  "\<forall>e \<in> set es. MergedSegments s \<le> SegmentIndex e \<and> SegmentIndex e < TotalSegments s \<and>
       hasBit (CompletedBitmap s) (SegmentIndex e) \<and> 0 \<le> sp_Offset e \<and> 0 < sp_Length e \<and>
       sp_Offset e + sp_Length e \<le> SpillFileSize s \<Longrightarrow>
    sorted_wrt (<) (map SegmentIndex es) \<Longrightarrow> (\<forall>k. prev = Some k \<longrightarrow> (\<forall>e \<in> set es. k < SegmentIndex e)) \<Longrightarrow>
    t + (\<Sum>e\<leftarrow>es. sp_Length e) \<le> max_i64 \<Longrightarrow>
    check_entries s prev t es = Inr (t + (\<Sum>e\<leftarrow>es. sp_Length e))"
proof (induction es arbitrary: prev t)
  case Nil
  then show ?case by simp
next
  case (Cons e es)
  have "0 \<le> (\<Sum>e\<leftarrow>es. sp_Length e)" by (rule sum_list_nonneg) (use Cons.prems(1) in auto)
  then have "sp_Length e \<le> max_i64 - t" using Cons.prems(4) by simp
  moreover have "\<not> (case prev of None \<Rightarrow> False | Some k \<Rightarrow> SegmentIndex e \<le> k)"
    using Cons.prems(3) by (cases prev) auto
  moreover have "check_entries s (Some (SegmentIndex e)) (t + sp_Length e) es = Inr (t + sp_Length e + (\<Sum>e\<leftarrow>es. sp_Length e))"
    by (rule Cons.IH) (use Cons.prems in simp_all)
  ultimately show ?case using Cons.prems(1) by (simp add: add.assoc)
qed

lemma overlap_free_intro:
  "sorted (map sp_Offset xs) \<Longrightarrow> distinct xs \<Longrightarrow>
    \<forall>x \<in> set xs. \<forall>y \<in> set xs. x \<noteq> y \<longrightarrow> apart x y \<or> apart y x \<Longrightarrow> \<forall>x \<in> set xs. 0 < sp_Length x \<Longrightarrow> overlap_free xs"
proof (induction xs rule: overlap_free.induct)
  case (1 x y zs)
  have "apart x y \<or> apart y x" "sp_Offset x \<le> sp_Offset y" "0 < sp_Length y" using 1(2-) by auto
  then have "\<not> sp_Offset y < sp_Offset x + sp_Length x" by (auto simp: apart_def)
  moreover have "overlap_free (y # zs)" by (rule 1(1)) (use 1(2-) in auto)
  ultimately show ?case by simp
qed simp_all

text \<open>
  What the checkpoint still needs beside the invariant: a complete table, an init segment that is
  written or not declared, and payloads no longer than the source ranges the manifest declares.
\<close>

definition table_complete :: "mounted \<Rightarrow> bool" where
  "table_complete m \<longleftrightarrow> (let s = m_seed m; w = m_window m in
     0 < w_total w \<and> TotalSegments s = w_total w \<and> int (length (Segments s)) = w_total w \<and> indexed 0 (Segments s))"

definition bytes_plausible :: "bytes \<Rightarrow> int \<Rightarrow> mounted \<Rightarrow> bool" where
  "bytes_plausible P m0 m \<longleftrightarrow> (let s = m_seed m; w = m_window m in
     (if InitSegmentURI s = [] then \<not> InitCompleted s \<and> InitBytes s = 0 else InitCompleted s \<and> 0 < InitBytes s) \<and>
     0 \<le> m0 \<and> (if m0 = 0 then int (length P) = InitBytes s else InitBytes s < int (length P)) \<and>
     (case known_upper (take (nat (mergedSegs w)) (Segments s)) 0 of
        Inl _ \<Rightarrow> False | Inr None \<Rightarrow> True | Inr (Some u) \<Rightarrow> merged w \<le> add64 (InitBytes s) u))"

lemma merged_past_init:
  assumes i: "win_inv P m0 acc w" and a: "\<forall>i p. acc i = Some p \<longrightarrow> p \<noteq> []" and m: "m0 < mergedSegs w"
  shows "int (length P) < merged w"
proof -
  have o: "merged w = int (length (merged_image P m0 acc (mergedSegs w)))"
    "\<forall>i. m0 \<le> i \<and> i < mergedSegs w \<longrightarrow> acc i \<noteq> None" using i by (simp_all add: win_inv_def inv_out_def)
  have "acc m0 \<noteq> None" using o(2) m by simp
  then have "the (acc m0) \<noteq> []" using a by auto
  then have l: "0 < length (the (acc m0))" by simp
  have "[m0..mergedSegs w - 1] = m0 # [m0 + 1..mergedSegs w - 1]" using m by (simp add: upto_rec1)
  then show ?thesis using o(1) l by (simp add: merged_image_def del: length_greater_0_conv)
qed


lemma sum_insort: "(\<Sum>e\<leftarrow>insort_key g x xs. h e) = h x + (\<Sum>e\<leftarrow>xs. h e :: int)"
  by (induction xs) auto

lemma sum_sort: "(\<Sum>e\<leftarrow>sort_key g xs. h e) = (\<Sum>e\<leftarrow>xs. h e :: int)"
  by (induction xs) (simp_all add: sum_insort)

lemma ledger_set:
  assumes k: "inv_keys tot k tail pend ents" and es: "es = sort_key SegmentIndex (map snd ents)"
  shows "set (map (\<lambda>e. (SegmentIndex e, e)) es) = set ents" "sorted_wrt (<) (map SegmentIndex es)" "distinct es"
    "(\<Sum>e\<leftarrow>es. sp_Length e) = (\<Sum>(j, e)\<leftarrow>ents. sp_Length e)" "length es = length ents"
proof -
  have eo: "entry_ok tot k tail j e" if "(j, e) \<in> set ents" for j e using k that by (simp add: inv_keys_def)
  have si: "map SegmentIndex (map snd ents) = map fst ents"
    by (auto simp: comp_def) (use eo in \<open>auto simp: entry_ok_def\<close>)
  show s: "set (map (\<lambda>e. (SegmentIndex e, e)) es) = set ents"
    using eo by (force simp: es entry_ok_def image_iff)
  have "distinct (map SegmentIndex (map snd ents))" unfolding si using k by (simp add: inv_keys_def)
  then have d: "distinct (map SegmentIndex es)"
    unfolding es by (metis distinct_map distinct_sort set_sort)
  then show "sorted_wrt (<) (map SegmentIndex es)" unfolding strict_sorted_iff by (simp add: es)
  show "distinct es" using d by (simp add: distinct_map)
  have "(\<Sum>e\<leftarrow>es. sp_Length e) = (\<Sum>e\<leftarrow>map snd ents. sp_Length e)" by (simp only: es sum_sort)
  then show "(\<Sum>e\<leftarrow>es. sp_Length e) = (\<Sum>(j, e)\<leftarrow>ents. sp_Length e)"
    by (simp add: comp_def case_prod_beta')
  show "length es = length ents" by (simp add: es)
qed

lemma count_bits_entries:
  assumes k: "inv_keys tot k tail pend ents" and b: "inv_bits bm tot k ents"
  shows "count_bits bm k tot = int (length ents)"
proof -
  have c: "tot \<le> bit_capacity bm" by (rule inv_bits_capacity[OF b])
  have r: "k \<le> j \<and> j < tot" if "j \<in> fst ` set ents" for j
    using k that by (auto simp: inv_keys_def entry_ok_def)
  have "set (filter (hasBit bm) [k..tot - 1]) = fst ` set ents"
  proof (rule set_eqI)
    fix x
    have k0: "0 \<le> k" using b by (simp add: inv_bits_def)
    have "hasBit bm x = (x \<in> fst ` set ents)" if "k \<le> x" "x < tot"
      using b that c k0 by (simp add: inv_bits_def)
    then show "x \<in> set (filter (hasBit bm) [k..tot - 1]) \<longleftrightarrow> x \<in> fst ` set ents" using r[of x] by auto
  qed
  moreover have "card (set (filter (hasBit bm) [k..tot - 1])) = length (filter (hasBit bm) [k..tot - 1])"
    by (rule distinct_card) simp
  moreover have "card (fst ` set ents) = length ents"
    using k distinct_card[of "map fst ents"] by (simp add: inv_keys_def)
  ultimately show ?thesis by (simp add: count_bits_def)
qed

lemma snapshot_table:
  assumes i: "win_inv P m0 acc w" and t: "table_complete m" and w: "w = m_window m"
  shows "validate_table (demoteSpill (Snapshot m)) = None"
proof -
  let ?k = "mergedSegs w" and ?tot = "w_total w" and ?bm = "w_bitmap w"
  have b: "inv_bits ?bm ?tot ?k (a_entries w)" using i by (simp add: win_inv_def)
  have r: "j < ?tot" if "j \<in> fst ` set (a_entries w)" for j
    using i that by (auto simp: win_inv_def inv_keys_def entry_ok_def)
  have kt: "0 \<le> ?k" "?k \<le> ?tot" "0 < ?tot" using b t by (simp_all add: inv_bits_def table_complete_def Let_def w)
  have c: "?tot \<le> bit_capacity ?bm" by (rule inv_bits_capacity[OF b])
  define bm where "bm = foldl clearBit ?bm [?k..?tot - 1]"
  have s: "CompletedBitmap (demoteSpill (Snapshot m)) = bm" "TotalSegments (demoteSpill (Snapshot m)) = ?tot"
    "MergedSegments (demoteSpill (Snapshot m)) = ?k" "Segments (demoteSpill (Snapshot m)) = Segments (m_seed m)"
    using clear_from_eq[OF kt(1) c] t
    by (simp_all add: demoteSpill_def Snapshot_def Let_def table_complete_def bm_def w)
  have l: "int (length bm) = (?tot + 7) div 8" using b by (simp add: bm_def inv_bits_def)
  have cap: "bit_capacity bm = bit_capacity ?bm" by (simp add: bit_capacity_def bm_def)
  have h: "hasBit bm i = (i < ?k)" if "0 \<le> i" "i < bit_capacity bm" for i
    using clear_range(1)[OF kt(1,2) c that(1)] that b r[of i] kt cap by (auto simp: bm_def inv_bits_def)
  have "?tot mod 8 \<noteq> 0 \<longrightarrow> tail_bits bm ?tot = 0"
    using tail_bits_zero[OF l kt(3)] h kt by auto
  then show ?thesis using t kt l h c
    by (auto simp: validate_table_def s cap table_complete_def Let_def w list_all_iff)
qed

lemma snapshot_bytes:
  assumes i: "win_inv P m0 acc w" and b: "bytes_plausible P m0 m" and w: "w = m_window m"
    and a: "\<forall>i p. acc i = Some p \<longrightarrow> p \<noteq> []"
  shows "validate_bytes (demoteSpill (Snapshot m)) = None"
proof -
  have mi: "int (length P) \<le> merged w" using i by (auto simp: win_inv_def inv_out_def merged_image_def)
  have k: "0 \<le> mergedSegs w" "m0 \<le> mergedSegs w" using win_inv_basic[OF i] by simp_all
  have same: "mergedSegs w = m0 \<Longrightarrow> merged w = int (length P)"
    using i by (simp add: win_inv_def inv_out_def merged_image_def)
  have past: "m0 < mergedSegs w \<Longrightarrow> int (length P) < merged w" by (rule merged_past_init[OF i a])
  have s: "InitSegmentURI (demoteSpill (Snapshot m)) = InitSegmentURI (m_seed m)"
    "InitCompleted (demoteSpill (Snapshot m)) = InitCompleted (m_seed m)"
    "InitBytes (demoteSpill (Snapshot m)) = InitBytes (m_seed m)" "MergedBytes (demoteSpill (Snapshot m)) = merged w"
    "MergedSegments (demoteSpill (Snapshot m)) = mergedSegs w" "Segments (demoteSpill (Snapshot m)) = Segments (m_seed m)"
    by (simp_all add: demoteSpill_def Snapshot_def Let_def w)
  have bp: "if InitSegmentURI (m_seed m) = [] then \<not> InitCompleted (m_seed m) \<and> InitBytes (m_seed m) = 0
      else InitCompleted (m_seed m) \<and> 0 < InitBytes (m_seed m)"
    "0 \<le> m0" "if m0 = 0 then int (length P) = InitBytes (m_seed m) else InitBytes (m_seed m) < int (length P)"
    "case known_upper (take (nat (mergedSegs w)) (Segments (m_seed m))) 0 of
        Inl _ \<Rightarrow> False | Inr None \<Rightarrow> True | Inr (Some u) \<Rightarrow> merged w \<le> add64 (InitBytes (m_seed m)) u"
    using b unfolding bytes_plausible_def Let_def w by blast+
  have n: "0 \<le> InitBytes (m_seed m)" using bp(1) by (auto split: if_splits)
  have m: "InitBytes (m_seed m) \<le> merged w" "mergedSegs w = 0 \<longrightarrow> merged w = InitBytes (m_seed m)"
    "mergedSegs w \<noteq> 0 \<longrightarrow> InitBytes (m_seed m) < merged w"
    using mi same past bp(2,3) k by (auto split: if_splits)
  show ?thesis
    using bp(1,4) n m unfolding validate_bytes_def s
    by (auto split: if_splits sum.splits option.splits)
qed

lemma snapshot_valid:
  assumes i: "win_inv P m0 acc w" and t: "table_complete m" and b: "bytes_plausible P m0 m" and w: "w = m_window m"
    and a: "\<forall>i p. acc i = Some p \<longrightarrow> p \<noteq> []" and sp: "m_spillPath m \<noteq> []"
    and z: "a_entries w = [] \<longrightarrow> a_tail w = 0"
  shows "ValidateCheckpointSeed (Some (Snapshot m)) = None"
proof -
  let ?s = "Snapshot m" and ?es = "sortedEntries w"
  have k: "inv_keys (w_total w) (mergedSegs w) (a_tail w) (pending w) (a_entries w)"
    and bi: "inv_bits (w_bitmap w) (w_total w) (mergedSegs w) (a_entries w)"
    and cn: "verified_bytes w = merged w + (\<Sum>(j, e)\<leftarrow>a_entries w. sp_Length e)" "verified_bytes w \<le> max_i64"
    using i by (simp_all add: win_inv_def inv_counts_def)
  note ls = ledger_set[OF k sortedEntries_def]
  have s: "CompletedBitmap ?s = w_bitmap w" "TotalSegments ?s = w_total w" "MergedSegments ?s = mergedSegs w"
    "SpillEntries ?s = ?es" "MergedBytes ?s = merged w" "VerifiedBytes ?s = verified_bytes w"
    "SpillPath ?s = (if a_tail w > 0 then m_spillPath m else [])" "SpillFileSize ?s = (if a_tail w > 0 then a_tail w else 0)"
    using t by (simp_all add: Snapshot_def Let_def table_complete_def w)
  have vs: "validateSeed (Some (demoteSpill ?s)) = None"
    unfolding validateSeed_None
    using snapshot_table[OF i t w] snapshot_bytes[OF i b w a]
    by (simp add: validate_clean_def) (simp add: demoteSpill_def)
  show ?thesis
  proof (cases "a_entries w = []")
    case True
    have "\<not> hasBit (w_bitmap w) x" if "mergedSegs w \<le> x" "x < w_total w" for x
      using bi that True inv_bits_capacity[OF bi] by (simp add: inv_bits_def)
    then have "\<not> list_ex (hasBit (w_bitmap w)) [mergedSegs w..w_total w - 1]" by (auto simp: list_ex_iff)
    then show ?thesis using vs True z cn
      by (simp add: ValidateCheckpointSeed_def s sortedEntries_def)
  next
    case False
    obtain j0 e0 where "(j0, e0) \<in> set (a_entries w)" using False by (cases "a_entries w") auto
    then have "entry_ok (w_total w) (mergedSegs w) (a_tail w) j0 e0" using k by (simp add: inv_keys_def)
    then have tp: "0 < a_tail w" by (simp add: entry_ok_def)
    have ne: "?es \<noteq> []" using ls(5) False by auto
    have eo: "entry_ok (w_total w) (mergedSegs w) (a_tail w) (SegmentIndex e) e \<and> SegmentIndex e \<in> fst ` set (a_entries w)"
      if "e \<in> set ?es" for e
    proof -
      have "(SegmentIndex e, e) \<in> set (a_entries w)" using ls(1) that by auto
      then have "entry_ok (w_total w) (mergedSegs w) (a_tail w) (SegmentIndex e) e" "SegmentIndex e \<in> fst ` set (a_entries w)"
        using k by (simp_all add: inv_keys_def image_eqI[of _ fst "(SegmentIndex e, e)"])
      then show ?thesis by simp
    qed
    have hb: "hasBit (w_bitmap w) (SegmentIndex e)" if "e \<in> set ?es" for e
    proof -
      have "0 \<le> SegmentIndex e" "SegmentIndex e < bit_capacity (w_bitmap w)"
        using eo[OF that] bi inv_bits_capacity[OF bi] by (simp_all add: entry_ok_def inv_bits_def)
      then show ?thesis using bi eo[OF that] by (simp add: inv_bits_def)
    qed
    have "check_entries ?s None 0 ?es = Inr (0 + (\<Sum>e\<leftarrow>?es. sp_Length e))"
    proof (rule check_entries_intro)
      show "\<forall>e \<in> set ?es. MergedSegments ?s \<le> SegmentIndex e \<and> SegmentIndex e < TotalSegments ?s \<and>
         hasBit (CompletedBitmap ?s) (SegmentIndex e) \<and> 0 \<le> sp_Offset e \<and> 0 < sp_Length e \<and>
         sp_Offset e + sp_Length e \<le> SpillFileSize ?s"
        unfolding s using eo hb tp by (auto simp: entry_ok_def)
      show "sorted_wrt (<) (map SegmentIndex ?es)" by (rule ls(2))
      show "0 + (\<Sum>e\<leftarrow>?es. sp_Length e) \<le> max_i64"
        using cn ls(4) win_inv_basic(1)[OF i] by simp
    qed simp
    then have ce: "check_entries ?s None 0 ?es = Inr (\<Sum>(j, e)\<leftarrow>a_entries w. sp_Length e)" using ls(4) by simp
    have cb: "count_bits (w_bitmap w) (mergedSegs w) (w_total w) = int (length ?es)"
      using count_bits_entries[OF k bi] ls(5) by simp
    have "overlap_free (sort_key sp_Offset ?es)"
    proof (rule overlap_free_intro)
      show "\<forall>x \<in> set (sort_key sp_Offset ?es). \<forall>y \<in> set (sort_key sp_Offset ?es). x \<noteq> y \<longrightarrow> apart x y \<or> apart y x"
      proof (intro ballI impI)
        fix x y assume xy: "x \<in> set (sort_key sp_Offset ?es)" "y \<in> set (sort_key sp_Offset ?es)" "x \<noteq> y"
        have m: "(SegmentIndex x, x) \<in> set (a_entries w)" "(SegmentIndex y, y) \<in> set (a_entries w)"
          using xy ls(1) by auto
        have n: "SegmentIndex x \<noteq> SegmentIndex y"
        proof
          assume "SegmentIndex x = SegmentIndex y"
          then show False using m xy(3) k eq_key_imp_eq_value[of "a_entries w" "SegmentIndex x" x y]
            by (simp add: inv_keys_def)
        qed
        then show "apart x y \<or> apart y x"
          using m n k unfolding inv_keys_def regions_apart_def apart_def by blast
      qed
      show "\<forall>x \<in> set (sort_key sp_Offset ?es). 0 < sp_Length x" using eo by (auto simp: entry_ok_def)
    qed (use ls(3) in \<open>simp_all add: distinct_sort\<close>)
    then show ?thesis using vs ne tp sp cn cb ce
      by (simp add: ValidateCheckpointSeed_def s)
  qed
qed

lemma win_inv_same_entries:
  assumes i: "win_inv P m0 acc w" and pe: "pending w = []"
    and ents: "set ents = set (a_entries w)" "distinct (map fst ents)"
    and sum: "(\<Sum>(j, e)\<leftarrow>ents. sp_Length e) = (\<Sum>(j, e)\<leftarrow>a_entries w. sp_Length e)"
    and w1: "w_out w1 = w_out w" "w_total w1 = w_total w" "mergedSegs w1 = mergedSegs w" "merged w1 = merged w"
      "verified_bytes w1 = verified_bytes w" "pending w1 = []" "pendingBytes w1 = 0" "w_bitmap w1 = w_bitmap w"
      "a_tail w1 = a_tail w" "a_entries w1 = ents" "arena_wf w1"
      "take (nat (a_tail w)) (arena_bytes w1) = take (nat (a_tail w)) (arena_bytes w)"
  shows "win_inv P m0 acc w1"
proof -
  have k: "inv_keys (w_total w) (mergedSegs w) (a_tail w) [] (a_entries w)"
    and b: "inv_bits (w_bitmap w) (w_total w) (mergedSegs w) (a_entries w)"
    and h: "inv_held acc (mergedSegs w) [] (a_entries w) (arena_bytes w)"
    and c: "inv_counts (merged w) (verified_bytes w) (pendingBytes w) [] (a_entries w)"
    and o: "inv_out P m0 acc (w_out w) (mergedSegs w) (merged w)"
    using i pe by (simp_all add: win_inv_def)
  have "map_of ents = map_of (a_entries w)"
    by (subst map_of_inject_set) (use ents k in \<open>simp_all add: inv_keys_def\<close>)
  then have "inv_held acc (mergedSegs w) [] ents (arena_bytes w)" using h by (simp add: inv_held_def held_in_def)
  moreover have k1: "inv_keys (w_total w) (mergedSegs w) (a_tail w) [] ents"
    using k ents by (simp add: inv_keys_def regions_apart_def)
  ultimately have "inv_held acc (mergedSegs w) [] ents (arena_bytes w1)"
    using inv_held_disk[OF _ k1 w1(12)] by blast
  moreover have "inv_bits (w_bitmap w) (w_total w) (mergedSegs w) ents" using b ents by (simp add: inv_bits_def)
  moreover have "inv_counts (merged w) (verified_bytes w) 0 [] ents" using c sum by (simp add: inv_counts_def)
  ultimately show ?thesis using k1 o w1 by (simp add: win_inv_def)
qed

text \<open>C15: A checkpoint loses nothing. When the pending payloads have been flushed and no fault is latched,
  the snapshot of a window is an accepted checkpoint, and opening a window on it, on the files the
  window left behind, gives a window that holds exactly the same accepted payloads behind the same
  merged prefix.\<close>

theorem checkpoint_roundtrip:
  assumes ok: "win_ok P m0 acc (m_window m)" and err: "storeErr (m_window m) = None"
    and pe: "pending (m_window m) = []" and out: "int (length (w_out (m_window m))) = merged (m_window m)"
    and t: "table_complete m" and b: "bytes_plausible P m0 m" and a: "\<forall>i p. acc i = Some p \<longrightarrow> p \<noteq> []"
    and z: "a_entries (m_window m) = [] \<longrightarrow> a_tail (m_window m) = 0"
    and ids: "validateSpillID ID = None" "dest \<noteq> []" "m_spillPath m \<noteq> []"
  shows "ValidateCheckpointSeed (Some (Snapshot m)) = None \<and>
    (\<exists>m1. newReorderWindow (w_out (m_window m)) dest ID (Some (Snapshot m)) (a_disk (m_window m)) [] arena = Some (Inr m1) \<and>
       win_ok P m0 acc (m_window m1) \<and> mergedSegs (m_window m1) = mergedSegs (m_window m) \<and>
       w_total (m_window m1) = w_total (m_window m))"
proof -
  define w where "w = m_window m"
  define s where "s = Snapshot m"
  have i: "win_inv P m0 acc w" and fr: "frontier_free w" using ok err by (simp_all add: win_ok_def w_def)
  have v: "ValidateCheckpointSeed (Some s) = None"
    unfolding s_def by (rule snapshot_valid[OF i t b w_def a ids(3)]) (use z in \<open>simp add: w_def\<close>)
  have k: "inv_keys (w_total w) (mergedSegs w) (a_tail w) (pending w) (a_entries w)" and wf: "arena_wf w"
    and cn: "verified_bytes w = merged w + (\<Sum>(j, e)\<leftarrow>a_entries w. sp_Length e)" "pendingBytes w = 0"
    using i pe by (simp_all add: win_inv_def inv_counts_def w_def)
  note ls = ledger_set[OF k sortedEntries_def]
  have f: "CompletedBitmap s = w_bitmap w" "TotalSegments s = w_total w" "MergedSegments s = mergedSegs w"
    "SpillEntries s = sortedEntries w" "MergedBytes s = merged w" "VerifiedBytes s = verified_bytes w"
    "SpillFileSize s = (if a_tail w > 0 then a_tail w else 0)"
    using t by (simp_all add: Snapshot_def Let_def table_complete_def w_def s_def)
  have tl: "SpillFileSize s = a_tail w" using f(7) wf by (simp add: arena_wf_def)
  define w0 where "w0 = window_over (w_out w) (a_disk w) [] s"
  have n: "next_io w0 = (IoOk, w0)" "w_io w0 = []" by (simp_all add: w0_def window_over_def)
  have nw: "newReorderWindow (w_out w) dest ID (Some s) (a_disk w) [] arena =
      (case open_spill w0 s of None \<Rightarrow> None
       | Some ((Some e, w1), _) \<Rightarrow> Some (Inl (MountStorage e, w_io w1))
       | Some ((None, w1), s1) \<Rightarrow> Some (Inr \<lparr>m_window = w1, m_seed = s1, m_spillPath = arena\<rparr>))"
    using ids v out n(1) f(5) by (simp add: newReorderWindow_def w0_def w_def)
  define w1 where "w1 = (if a_entries w = [] then w0
    else w0\<lparr>a_open := True, a_disk := Some (take (nat (a_tail w)) (arena_bytes w)), a_tail := a_tail w, a_entries := rev (ledger s)\<rparr>)"
  have le: "set (rev (ledger s)) = set (a_entries w)" "distinct (map fst (rev (ledger s)))"
    "(\<Sum>(j, e)\<leftarrow>rev (ledger s). sp_Length e) = (\<Sum>(j, e)\<leftarrow>a_entries w. sp_Length e)"
    using ls(1,2,4) f(4) sum_ledger[of s]
    by (simp_all add: ledger_def rev_map[symmetric] strict_sorted_iff comp_def)
  have inv1: "win_inv P m0 acc w1"
  proof (cases "a_entries w = []")
    case True
    show ?thesis
      by (rule win_inv_same_entries[OF i _ _ _ _ _ _ _ _ _ _ _ _ _ _ _ _, of "[]"])
        (use True z pe cn f in \<open>simp_all add: w1_def w0_def window_over_def w_def arena_wf_def\<close>)
  next
    case False
    have o: "a_open w" using wf False by (auto simp: arena_wf_def)
    then obtain d where d: "a_disk w = Some d" "a_tail w \<le> int (length d)" using wf by (auto simp: arena_wf_def)
    show ?thesis
      by (rule win_inv_same_entries[OF i _ le])
        (use False pe cn f d wf in \<open>simp_all add: w1_def w0_def window_over_def w_def arena_wf_def arena_bytes_def\<close>)
  qed
  have op: "open_spill w0 s = Some ((None, w1), s)"
  proof (cases "a_entries w = []")
    case True
    then show ?thesis using ls(5) f(4) by (simp add: open_spill_def w1_def)
  next
    case False
    have o: "a_open w" using wf False by (auto simp: arena_wf_def)
    then obtain d where d: "a_disk w = Some d" "a_tail w \<le> int (length d)" using wf by (auto simp: arena_wf_def)
    have ne: "SpillEntries s \<noteq> []" using ls(5) f(4) False by auto
    have dist: "distinct (map SegmentIndex (SpillEntries s))" using ls(2) f(4) by (simp add: strict_sorted_iff)
    have d0: "a_disk w0 = Some d" by (simp add: w0_def window_over_def d(1))
    have w1: "w1 = w0\<lparr>a_open := True, a_disk := Some (take (nat (a_tail w)) d), a_tail := a_tail w, a_entries := rev (ledger s)\<rparr>"
      using False d(1) by (simp add: w1_def arena_bytes_def)
    have "adopt (SpillFileSize s) (SpillEntries s) w0 = (Inr True, w1)"
      using n d0 d(2) adopt_fold[of "[]" "SpillEntries s"] dist unfolding tl w1 ledger_def
      by (simp add: adopt_def)
    moreover have "map_of (rev (ledger s)) (mergedSegs w) = None"
    proof -
      have "mergedSegs w \<notin> fst ` set (a_entries w)" using fr by (simp add: frontier_free_def map_of_eq_None_iff)
      then show ?thesis using le(1) by (simp add: map_of_eq_None_iff)
    qed
    moreover have "a_entries w1 = rev (ledger s)" "mergedSegs w1 = mergedSegs w"
      by (simp_all add: w1 w0_def window_over_def f)
    ultimately show ?thesis using ne by (simp add: open_spill_def)
  qed
  have fr1: "frontier_free w1"
  proof -
    have "a_entries w1 = (if a_entries w = [] then [] else rev (ledger s))" "pending w1 = []" "mergedSegs w1 = mergedSegs w"
      by (simp_all add: w1_def w0_def window_over_def f)
    then show ?thesis using fr le(1) by (auto simp: frontier_free_def map_of_eq_None_iff)
  qed
  have x: "mergedSegs w1 = mergedSegs w" "w_total w1 = w_total w" by (simp_all add: w1_def w0_def window_over_def f)
  have "newReorderWindow (w_out w) dest ID (Some s) (a_disk w) [] arena
      = Some (Inr \<lparr>m_window = w1, m_seed = s, m_spillPath = arena\<rparr>)" unfolding nw op by simp
  then show ?thesis using v inv1 fr1 x unfolding w_def[symmetric] s_def[symmetric] by (simp add: win_ok_def)
qed

section \<open>Concrete checkpoints\<close>

definition demo_segment :: "int \<Rightarrow> hls_segment" where
  "demo_segment i = \<lparr>Index = i, Sequence = i, URI = ''s'', DurationMicros = 1, ByteOffset = 0, ByteLength = 0,
     KeyIndex = 0, IVHex = []\<rparr>"

definition demo_state :: resume_state where
  "demo_state = \<lparr>ManifestURL = ''m'', MediaPlaylistURL = ''m'', SegmentRefURL = [], ManifestFingerprint = [],
     ContainerFormat = ''fmp4'', EstimatedBytes = 0, RecordEligible = True, InitSegmentURI = ''i'', InitByteOffset = 0,
     InitByteLength = 0, InitKeyIndex = 0, InitIVHex = [], InitCompleted = True, InitBytes = 1, TotalSegments = 3,
     CompletedBitmap = [0], MergedSegments = 0, MergedBytes = 1, VerifiedBytes = 1, SpillPath = [], SpillFileSize = 0,
     SpillEntries = [], Keys = [], Segments = [demo_segment 0, demo_segment 1, demo_segment 2]\<rparr>"

definition demo_fetch :: init_fetch where
  "demo_fetch k s = Inr [7]"

lemma demo_fetch_good: "good_fetch demo_fetch"
  by (simp add: good_fetch_def demo_fetch_def max_i64_def)

text \<open>One merged segment over an init segment, and one retained payload; no init segment can be fetched.\<close>

definition kept_state :: resume_state where
  "kept_state = demo_state\<lparr>CompletedBitmap := [5], MergedSegments := 1, MergedBytes := 2, VerifiedBytes := 4,
     SpillPath := ''a'', SpillFileSize := 2, SpillEntries := [\<lparr>SegmentIndex = 2, sp_Offset = 0, sp_Length = 2\<rparr>]\<rparr>"

definition no_fetch :: init_fetch where
  "no_fetch k s = Inl ''offline''"

lemma kept_state_mounts:
  "(case mount ''d'' ''f'' (Some kept_state) no_fetch [7, 9, 4] (Some [30, 31]) [] ''a'' of
      Some (Inr x) \<Rightarrow> True | _ \<Rightarrow> False)"
  by code_simp

theorem mount_is_consistent_witness:
  "\<exists>mw s1 b acc. mount ''d'' ''f'' (Some kept_state) no_fetch [7, 9, 4] (Some [30, 31]) [] ''a'' = Some (Inr (mw, s1, b)) \<and>
     win_ok [7, 9] 1 acc (m_window mw) \<and> adopted_payloads kept_state (Some [30, 31]) acc"
proof -
  obtain mw s1 b where r: "mount ''d'' ''f'' (Some kept_state) no_fetch [7, 9, 4] (Some [30, 31]) [] ''a'' = Some (Inr (mw, s1, b))"
    using kept_state_mounts by (auto split: option.splits sum.splits)
  have m: "MergedBytes kept_state \<le> max_i64" by (simp add: kept_state_def demo_state_def max_i64_def)
  have f: "InitSegmentURI kept_state \<noteq> []" "MergedSegments kept_state = 1" "MergedBytes kept_state = 2"
    by (simp_all add: kept_state_def demo_state_def)
  have b: "mount_base no_fetch kept_state [7, 9, 4] P m0 \<Longrightarrow> P = [7, 9] \<and> m0 = 1" for P m0
    by (simp add: mount_base_def no_fetch_def f numeral_2_eq_2)
  obtain P m0 acc where c: "win_ok P m0 acc (m_window mw)" "mount_base no_fetch kept_state [7, 9, 4] P m0"
    "adopted_payloads kept_state (Some [30, 31]) acc"
    using mount_is_consistent[OF m, of "''d''" "''f''" no_fetch "[7, 9, 4]" "Some [30, 31]" "[]" "''a''"] r by auto
  have "win_ok [7, 9] 1 acc (m_window mw)" using c(1) b[OF c(2)] by simp
  then show ?thesis using r c(3) by blast
qed

text \<open>A checkpoint whose every claim is wrong is mounted all the same.\<close>

definition broken_state :: resume_state where
  "broken_state = demo_state\<lparr>MergedSegments := 2, MergedBytes := 50, VerifiedBytes := 80, CompletedBitmap := [255],
     SpillPath := ''x'', SpillFileSize := 5, SpillEntries := [\<lparr>SegmentIndex = 9, sp_Offset = 3, sp_Length = 40\<rparr>]\<rparr>"

theorem mount_never_aborts_witness:
  "\<exists>mw s1 b. mount ''d'' ''f'' (Some broken_state) demo_fetch [7, 9] (Some [1, 2]) [] ''a'' = Some (Inr (mw, s1, b))"
proof (rule mount_never_aborts[OF _ _ _ _ _ demo_fetch_good])
  show "validateSpillID ''d'' = None" by code_simp
qed (simp_all add: broken_state_def demo_state_def demo_segment_def max_i64_def)

definition demo_spilled :: window where
  "demo_spilled = demo_window\<lparr>verified_bytes := 3, w_bitmap := [4], a_open := True, a_disk := Some [30, 31],
     a_tail := 2, a_entries := [(2, \<lparr>SegmentIndex = 2, sp_Offset = 0, sp_Length = 2\<rparr>)]\<rparr>"

definition demo_pending :: window where
  "demo_pending = demo_window\<lparr>pending := [(2, [30, 31])], pendingBytes := 2\<rparr>"

lemma demo_ingest: "Ingest 2 [30, 31] demo_window = Some ((no_result\<lparr>Accepted := True, Buffered := True\<rparr>, None), demo_pending)"
  by (simp add: Ingest_def demo_window_def demo_pending_def Let_def hasBit_def reorderPendingBytesMax_def
      reorderPendingSegmentMax_def)

lemma demo_flush: "FlushPending demo_pending = (None, demo_spilled)"
  by (simp add: FlushPending_def demo_pending_def demo_spilled_def demo_window_def Let_def max_i64_def
      spill_append_def spill_open_def spill_write_def drop_key_def splice_def setBit_def)

lemma demo_spilled_ok: "win_ok [7] 0 [2 \<mapsto> [30, 31]] demo_spilled"
proof -
  have "window_run [DoIngest 2 [30, 31], DoFlush] (Map.empty, demo_window) = Some ([2 \<mapsto> [30, 31]], demo_spilled)"
    by (simp add: demo_ingest demo_flush accepted_def no_result_def)
  then show ?thesis
    using window_run_ok[OF fresh_window_ok[OF demo_fresh], of "[DoIngest 2 [30, 31], DoFlush]"] demo_seed by auto
qed

definition demo_mounted :: mounted where
  "demo_mounted = \<lparr>m_window = demo_spilled, m_seed = demo_state, m_spillPath = ''a''\<rparr>"

theorem checkpoint_roundtrip_witness:
  "ValidateCheckpointSeed (Some (Snapshot demo_mounted)) = None \<and>
    (\<exists>m1. newReorderWindow [7] ''f'' ''d'' (Some (Snapshot demo_mounted)) (Some [30, 31]) [] ''a'' = Some (Inr m1) \<and>
       win_ok [7] 0 [2 \<mapsto> [30, 31]] (m_window m1))"
proof -
  have w: "m_window demo_mounted = demo_spilled" by (simp add: demo_mounted_def)
  have f: "storeErr demo_spilled = None" "pending demo_spilled = []" "w_out demo_spilled = [7]" "merged demo_spilled = 1"
    "a_disk demo_spilled = Some [30, 31]" "a_entries demo_spilled \<noteq> []"
    by (simp_all add: demo_spilled_def demo_window_def)
  have "table_complete demo_mounted" "bytes_plausible [7] 0 demo_mounted"
    by (simp_all add: table_complete_def bytes_plausible_def demo_mounted_def demo_spilled_def demo_window_def demo_state_def
        demo_segment_def wrap64_nonneg max_i64_def)
  moreover have "validateSpillID ''d'' = None" by code_simp
  moreover have "\<forall>i p. [2 \<mapsto> [30, 31 :: 8 word]] i = Some p \<longrightarrow> p \<noteq> []" by simp
  ultimately show ?thesis
    using checkpoint_roundtrip[of "[7]" 0 "[2 \<mapsto> [30, 31]]" demo_mounted "''d''" "''f''" "''a''"] demo_spilled_ok f
    unfolding w by (auto simp: demo_mounted_def)
qed

end
