(* ===== verification/HlsQueue.thy ===== *)
theory HlsQueue
  imports ReorderMount
begin

text \<open>
  The segment queue of an HLS run (strategy/hls/segment_queue.go): tasks shared by pointer and leased
  to one worker at a time, the accounting that ends a run, and the wake-ups of a blocked pop.
\<close>

section \<open>The queue\<close>

text \<open>
  A task is shared by pointer and known by its index, so the operations take the index. The
  notification channel, closed and replaced at every change a waiter must see, is a generation
  number: a waiter that holds an older one has been woken.
\<close>

record segment_task =
  t_seg :: hls_segment
  retries :: int
  notFoundRetries :: int
  genericAttempt :: int
  refreshRequired :: bool
  lastSeenRefreshGen :: int

datatype lease_state = SegReady | SegLeased | SegDone

record segment_queue =
  sq_notify :: nat
  sq_ready :: "int list"
  sq_tasks :: "(int \<times> segment_task) list"
  sq_states :: "(int \<times> lease_state) list"
  sq_pending :: int
  sq_closed :: bool

definition assign :: "int \<Rightarrow> 'v \<Rightarrow> (int \<times> 'v) list \<Rightarrow> (int \<times> 'v) list" where
  "assign k v xs = (k, v) # drop_key k xs"

text \<open>Reading an index the map does not hold gives the zero value, \<open>segReady\<close>.\<close>

definition lease_of :: "segment_queue \<Rightarrow> int \<Rightarrow> lease_state" where
  "lease_of q i = (case map_of (sq_states q) i of Some s \<Rightarrow> s | None \<Rightarrow> SegReady)"

definition new_task :: "hls_segment \<Rightarrow> segment_task" where
  "new_task g = \<lparr>t_seg = g, retries = 0, notFoundRetries = 0, genericAttempt = 0, refreshRequired = False,
     lastSeenRefreshGen = 0\<rparr>"

definition index_segment :: "(int \<Rightarrow> bool) option \<Rightarrow> segment_queue \<Rightarrow> hls_segment \<Rightarrow> segment_queue" where
  "index_segment completed q g =
     (let q1 = q\<lparr>sq_tasks := assign (Index g) (new_task g) (sq_tasks q)\<rparr> in
      if (case completed of None \<Rightarrow> False | Some c \<Rightarrow> c (Index g))
      then q1\<lparr>sq_states := assign (Index g) SegDone (sq_states q1)\<rparr>
      else q1\<lparr>sq_states := assign (Index g) SegReady (sq_states q1), sq_ready := sq_ready q1 @ [Index g],
              sq_pending := sq_pending q1 + 1\<rparr>)"

definition newSegmentQueue :: "hls_segment list \<Rightarrow> (int \<Rightarrow> bool) option \<Rightarrow> segment_queue" where
  "newSegmentQueue segs completed =
     foldl (index_segment completed)
       \<lparr>sq_notify = 0, sq_ready = [], sq_tasks = [], sq_states = [], sq_pending = 0, sq_closed = False\<rparr> segs"

definition wakeLocked :: "segment_queue \<Rightarrow> segment_queue" where
  "wakeLocked q = q\<lparr>sq_notify := Suc (sq_notify q)\<rparr>"

text \<open>One turn of \<open>pop\<close>: closed, the leased index, or the generation to wait on.\<close>

datatype pop_turn = PopClosed | PopLease int | PopWait nat

definition sq_pop :: "segment_queue \<Rightarrow> pop_turn \<times> segment_queue" where
  "sq_pop q =
     (if sq_closed q then (PopClosed, q)
      else case sq_ready q of
        i # is \<Rightarrow> (PopLease i, q\<lparr>sq_ready := is, sq_states := assign i SegLeased (sq_states q)\<rparr>)
      | [] \<Rightarrow> (PopWait (sq_notify q), q))"

definition requeue :: "int option \<Rightarrow> segment_queue \<Rightarrow> segment_queue" where
  "requeue t q =
     (case t of None \<Rightarrow> q
      | Some i \<Rightarrow>
          if lease_of q i \<noteq> SegLeased then q
          else let q1 = q\<lparr>sq_states := assign i SegReady (sq_states q)\<rparr>
               in if sq_closed q1 then q1 else wakeLocked (q1\<lparr>sq_ready := i # sq_ready q1\<rparr>))"

definition sq_finish :: "int option \<Rightarrow> segment_queue \<Rightarrow> segment_queue" where
  "sq_finish t q =
     (case t of None \<Rightarrow> q
      | Some i \<Rightarrow>
          if lease_of q i = SegLeased
          then q\<lparr>sq_states := assign i SegDone (sq_states q), sq_pending := sq_pending q - 1\<rparr> else q)"

definition sq_push :: "hls_segment \<Rightarrow> segment_queue \<Rightarrow> bool \<times> segment_queue" where
  "sq_push g q =
     (if sq_closed q then (False, q)
      else if map_of (sq_tasks q) (Index g) \<noteq> None then (False, q)
      else (True, wakeLocked (q\<lparr>sq_tasks := assign (Index g) (new_task g) (sq_tasks q),
                               sq_states := assign (Index g) SegReady (sq_states q),
                               sq_ready := sq_ready q @ [Index g], sq_pending := sq_pending q + 1\<rparr>)))"

definition remaining :: "segment_queue \<Rightarrow> int" where
  "remaining q = sq_pending q"

definition readyCount :: "segment_queue \<Rightarrow> int" where
  "readyCount q = int (length (sq_ready q))"

definition doneCount :: "segment_queue \<Rightarrow> int" where
  "doneCount q = int (length (sq_tasks q)) - sq_pending q"

definition sq_state :: "int \<Rightarrow> segment_queue \<Rightarrow> lease_state \<times> bool" where
  "sq_state i q = (lease_of q i, map_of (sq_states q) i \<noteq> None)"

definition sq_close :: "segment_queue \<Rightarrow> segment_queue" where
  "sq_close q = (if sq_closed q then q else wakeLocked (q\<lparr>sq_closed := True\<rparr>))"

section \<open>The invariant\<close>

text \<open>
  Each index has one task and one state; the ready list holds each ready index once (of an open
  queue: a closed one drops them), and the counter counts the unfinished.
\<close>

definition unfinished :: "(int \<times> lease_state) list \<Rightarrow> int" where
  "unfinished st = int (length (filter (\<lambda>(i, s). s \<noteq> SegDone) st))"

definition sq_inv :: "segment_queue \<Rightarrow> bool" where
  "sq_inv q \<longleftrightarrow> distinct (map fst (sq_tasks q)) \<and> distinct (map fst (sq_states q)) \<and>
     fst ` set (sq_tasks q) = fst ` set (sq_states q) \<and> distinct (sq_ready q) \<and>
     (\<forall>i \<in> set (sq_ready q). map_of (sq_states q) i = Some SegReady) \<and>
     (sq_closed q \<or> (\<forall>i. map_of (sq_states q) i = Some SegReady \<longrightarrow> i \<in> set (sq_ready q))) \<and>
     sq_pending q = unfinished (sq_states q)"

declare map_of_eq_Some_iff [simp del]

lemma map_of_assign [simp]: "map_of (assign k v xs) i = (if i = k then Some v else map_of xs i)"
  by (simp add: assign_def map_of_drop_key)

lemma keys_assign [simp]: "fst ` set (assign k v xs) = insert k (fst ` set xs)"
  by (auto simp: assign_def keys_drop_key)

lemma distinct_assign [simp]: "distinct (map fst xs) \<Longrightarrow> distinct (map fst (assign k v xs))"
  using distinct_drop_key[of xs k] by (simp add: assign_def keys_drop_key)

lemma unfinished_drop:
  "distinct (map fst st) \<Longrightarrow> unfinished (drop_key i st)
     = unfinished st - (case map_of st i of None \<Rightarrow> 0 | Some s \<Rightarrow> if s = SegDone then 0 else 1)"
proof (induction st)
  case Nil
  then show ?case by (simp add: unfinished_def drop_key_def)
next
  case (Cons x st)
  obtain j s where x: "x = (j, s)" by fastforce
  show ?case
  proof (cases "j = i")
    case True
    then have "i \<notin> fst ` set st" using Cons.prems by (simp add: x)
    then have "drop_key i (x # st) = st" using True drop_key_absent[of i st] by (simp add: x drop_key_def)
    then show ?thesis using True by (simp add: x unfinished_def)
  next
    case False
    then have "drop_key i (x # st) = x # drop_key i st" by (simp add: x drop_key_def)
    then show ?thesis using Cons False by (simp add: x unfinished_def split: option.splits)
  qed
qed

lemma unfinished_assign:
  "distinct (map fst st) \<Longrightarrow> unfinished (assign i s st)
     = unfinished st - (case map_of st i of None \<Rightarrow> 0 | Some s \<Rightarrow> if s = SegDone then 0 else 1)
       + (if s = SegDone then 0 else 1)"
  using unfinished_drop[of st i] by (simp add: assign_def unfinished_def)

lemma pop_inv:
  assumes "sq_inv q"
  shows "sq_inv (snd (sq_pop q))"
proof (cases "sq_ready q")
  case (Cons i list)
  then have "map_of (sq_states q) i = Some SegReady" using assms by (simp add: sq_inv_def)
  then have "i \<in> fst ` set (sq_states q)" by (rule map_of_keyD)
  then show ?thesis using assms Cons by (auto simp: sq_inv_def sq_pop_def unfinished_assign)
qed (use assms in \<open>simp add: sq_pop_def\<close>)

lemma lease_some: "lease_of q i = SegLeased \<Longrightarrow> map_of (sq_states q) i = Some SegLeased"
  by (auto simp: lease_of_def split: option.splits)

lemma requeue_inv: "sq_inv q \<Longrightarrow> sq_inv (requeue t q)"
proof (cases "\<exists>i. t = Some i \<and> lease_of q i = SegLeased")
  case True
  assume q: "sq_inv q"
  from True obtain i where i: "t = Some i" "lease_of q i = SegLeased" by blast
  have m: "map_of (sq_states q) i = Some SegLeased" by (rule lease_some[OF i(2)])
  then have "i \<notin> set (sq_ready q)" "i \<in> fst ` set (sq_states q)"
    using q map_of_keyD[OF m] by (auto simp: sq_inv_def)
  then show ?thesis using q i m
    by (auto simp: requeue_def Let_def wakeLocked_def sq_inv_def unfinished_assign)
qed (auto simp: requeue_def split: option.splits)

lemma finish_inv: "sq_inv q \<Longrightarrow> sq_inv (sq_finish t q)"
proof (cases "\<exists>i. t = Some i \<and> lease_of q i = SegLeased")
  case True
  assume q: "sq_inv q"
  from True obtain i where i: "t = Some i" "lease_of q i = SegLeased" by blast
  have m: "map_of (sq_states q) i = Some SegLeased" by (rule lease_some[OF i(2)])
  then have "i \<notin> set (sq_ready q)" "i \<in> fst ` set (sq_states q)"
    using q map_of_keyD[OF m] by (auto simp: sq_inv_def)
  then show ?thesis using q i m by (auto simp: sq_finish_def sq_inv_def unfinished_assign)
qed (auto simp: sq_finish_def split: option.splits)

lemma push_inv: "sq_inv q \<Longrightarrow> sq_inv (snd (sq_push g q))"
proof (cases "sq_closed q \<or> map_of (sq_tasks q) (Index g) \<noteq> None")
  case False
  assume q: "sq_inv q"
  have "Index g \<notin> fst ` set (sq_tasks q)" using False by (simp add: map_of_eq_None_iff)
  then have k: "map_of (sq_states q) (Index g) = None" using q by (simp add: sq_inv_def map_of_eq_None_iff)
  then have "Index g \<notin> set (sq_ready q)" using q by (auto simp: sq_inv_def)
  then show ?thesis using q k False
    by (auto simp: sq_push_def wakeLocked_def sq_inv_def unfinished_assign)
qed (auto simp: sq_push_def)

lemma close_inv: "sq_inv q \<Longrightarrow> sq_inv (sq_close q)"
  by (auto simp: sq_close_def wakeLocked_def sq_inv_def)

lemma index_segment_inv:
  assumes q: "sq_inv q" and n: "Index g \<notin> fst ` set (sq_tasks q)"
  shows "sq_inv (index_segment c q g) \<and> fst ` set (sq_tasks (index_segment c q g)) = insert (Index g) (fst ` set (sq_tasks q))"
proof -
  have k: "map_of (sq_states q) (Index g) = None" using q n by (simp add: sq_inv_def map_of_eq_None_iff)
  then have "Index g \<notin> set (sq_ready q)" using q by (auto simp: sq_inv_def)
  then show ?thesis using q k
    by (auto simp: index_segment_def Let_def sq_inv_def unfinished_assign)
qed

lemma newSegmentQueue_inv:
  assumes "distinct (map Index segs)"
  shows "sq_inv (newSegmentQueue segs c)"
proof -
  have "sq_inv q \<Longrightarrow> distinct (map Index gs) \<Longrightarrow> fst ` set (sq_tasks q) \<inter> set (map Index gs) = {} \<Longrightarrow>
    sq_inv (foldl (index_segment c) q gs)" for q gs
  proof (induction gs arbitrary: q)
    case (Cons g gs)
    have "sq_inv (index_segment c q g) \<and> fst ` set (sq_tasks (index_segment c q g)) = insert (Index g) (fst ` set (sq_tasks q))"
      by (rule index_segment_inv) (use Cons.prems in auto)
    then show ?case using Cons by auto
  qed simp
  moreover define q0 where "q0 = \<lparr>sq_notify = 0, sq_ready = [], sq_tasks = [], sq_states = [], sq_pending = 0, sq_closed = False\<rparr>"
  have "sq_inv q0" "fst ` set (sq_tasks q0) \<inter> set (map Index segs) = {}"
    by (simp_all add: q0_def sq_inv_def unfinished_def)
  ultimately show ?thesis using assms unfolding newSegmentQueue_def q0_def[symmetric] by blast
qed


section \<open>Workers and the queue\<close>

text \<open>
  Workers lease, settle and wait concurrently; each call is one step, since the code holds the
  mutex, except that a blocked \<open>pop\<close> waits between its turns with the generation it saw.
\<close>

record queue_sys =
  q_queue :: segment_queue
  q_waiting :: "nat \<Rightarrow> nat option"
  q_leases :: "nat \<Rightarrow> int option"

inductive queue_step :: "queue_sys \<Rightarrow> queue_sys \<Rightarrow> bool" where
  pop_lease: "q_waiting s w = None \<Longrightarrow> q_leases s w = None \<Longrightarrow> sq_pop (q_queue s) = (PopLease i, q) \<Longrightarrow>
    queue_step s (s\<lparr>q_queue := q, q_leases := (q_leases s)(w := Some i)\<rparr>)"
| pop_block: "q_waiting s w = None \<Longrightarrow> q_leases s w = None \<Longrightarrow> sq_pop (q_queue s) = (PopWait g, q) \<Longrightarrow>
    queue_step s (s\<lparr>q_queue := q, q_waiting := (q_waiting s)(w := Some g)\<rparr>)"
| pop_woken: "q_waiting s w = Some g \<Longrightarrow> g \<noteq> sq_notify (q_queue s) \<Longrightarrow>
    queue_step s (s\<lparr>q_waiting := (q_waiting s)(w := None)\<rparr>)"
| pop_cancelled: "q_waiting s w = Some g \<Longrightarrow> queue_step s (s\<lparr>q_waiting := (q_waiting s)(w := None)\<rparr>)"
| give_back: "q_leases s w = Some i \<Longrightarrow>
    queue_step s (s\<lparr>q_queue := requeue (Some i) (q_queue s), q_leases := (q_leases s)(w := None)\<rparr>)"
| settle: "q_leases s w = Some i \<Longrightarrow>
    queue_step s (s\<lparr>q_queue := sq_finish (Some i) (q_queue s), q_leases := (q_leases s)(w := None)\<rparr>)"
| add: "queue_step s (s\<lparr>q_queue := snd (sq_push g (q_queue s))\<rparr>)"
| shut: "queue_step s (s\<lparr>q_queue := sq_close (q_queue s)\<rparr>)"

inductive queue_reachable :: "queue_sys \<Rightarrow> queue_sys \<Rightarrow> bool" for s0 where
  start: "queue_reachable s0 s0"
| step: "queue_reachable s0 s \<Longrightarrow> queue_step s t \<Longrightarrow> queue_reachable s0 t"

definition queue_start :: "hls_segment list \<Rightarrow> (int \<Rightarrow> bool) option \<Rightarrow> queue_sys" where
  "queue_start segs c = \<lparr>q_queue = newSegmentQueue segs c, q_waiting = (\<lambda>_. None), q_leases = (\<lambda>_. None)\<rparr>"

definition queue_sys_inv :: "queue_sys \<Rightarrow> bool" where
  "queue_sys_inv s \<longleftrightarrow> sq_inv (q_queue s) \<and>
     (\<forall>w g. q_waiting s w = Some g \<longrightarrow> g \<le> sq_notify (q_queue s) \<and>
        (g = sq_notify (q_queue s) \<longrightarrow> sq_ready (q_queue s) = [] \<and> \<not> sq_closed (q_queue s))) \<and>
     (\<forall>w i. q_leases s w = Some i \<longrightarrow> map_of (sq_states (q_queue s)) i = Some SegLeased) \<and>
     (\<forall>w v i. q_leases s w = Some i \<and> q_leases s v = Some i \<longrightarrow> w = v) \<and>
     (\<forall>i. map_of (sq_states (q_queue s)) i = Some SegLeased \<longrightarrow> (\<exists>w. q_leases s w = Some i))"

definition waiters_ok :: "segment_queue \<Rightarrow> (nat \<Rightarrow> nat option) \<Rightarrow> bool" where
  "waiters_ok q ws \<longleftrightarrow> (\<forall>w g. ws w = Some g \<longrightarrow> g \<le> sq_notify q \<and> (g = sq_notify q \<longrightarrow> sq_ready q = [] \<and> \<not> sq_closed q))"

definition leases_ok :: "segment_queue \<Rightarrow> (nat \<Rightarrow> int option) \<Rightarrow> bool" where
  "leases_ok q ls \<longleftrightarrow>
     (\<forall>w i. ls w = Some i \<longrightarrow> map_of (sq_states q) i = Some SegLeased) \<and>
     (\<forall>w v i. ls w = Some i \<and> ls v = Some i \<longrightarrow> w = v) \<and>
     (\<forall>i. map_of (sq_states q) i = Some SegLeased \<longrightarrow> (\<exists>w. ls w = Some i))"

lemma queue_sys_inv_alt:
  "queue_sys_inv s \<longleftrightarrow> sq_inv (q_queue s) \<and> waiters_ok (q_queue s) (q_waiting s) \<and> leases_ok (q_queue s) (q_leases s)"
  by (simp add: queue_sys_inv_def waiters_ok_def leases_ok_def)

lemma leases_drop:
  assumes "leases_ok q ls" and "ls w = Some i" and "s \<noteq> SegLeased" and "sq_states q1 = assign i s (sq_states q)"
  shows "leases_ok q1 (ls(w := None))"
  using assms unfolding leases_ok_def by (auto split: if_splits) (metis option.inject)+

lemma leases_take:
  assumes "leases_ok q ls" and "ls w = None" and "map_of (sq_states q) i = Some SegReady"
    and "sq_states q1 = assign i SegLeased (sq_states q)"
  shows "leases_ok q1 (ls(w := Some i))"
proof -
  have l: "\<And>v j. ls v = Some j \<Longrightarrow> map_of (sq_states q) j = Some SegLeased"
    "\<And>w v i. ls w = Some i \<Longrightarrow> ls v = Some i \<Longrightarrow> w = v"
    "\<And>j. map_of (sq_states q) j = Some SegLeased \<Longrightarrow> \<exists>w. ls w = Some j"
    using assms(1) unfolding leases_ok_def by blast+
  have n: "ls v \<noteq> Some i" for v using l(1)[of v i] assms(3) by auto
  have "map_of (sq_states q1) j = Some SegLeased" if "(ls(w := Some i)) v = Some j" for v j
    using that l(1)[of v j] by (auto simp: assms(4) split: if_splits)
  moreover have "u = v" if "(ls(w := Some i)) u = Some j" "(ls(w := Some i)) v = Some j" for u v j
    using that l(2)[of u j v] n by (auto split: if_splits)
  moreover have "\<exists>v. (ls(w := Some i)) v = Some j" if "map_of (sq_states q1) j = Some SegLeased" for j
  proof (cases "j = i")
    case True
    then show ?thesis by (intro exI[of _ w]) simp
  next
    case False
    then have "map_of (sq_states q) j = Some SegLeased" using that by (simp add: assms(4))
    then obtain v where v: "ls v = Some j" using l(3)[of j] by blast
    then have "v \<noteq> w" using assms(2) by auto
    then show ?thesis using v by (intro exI[of _ v]) simp
  qed
  ultimately show ?thesis unfolding leases_ok_def by blast
qed

lemma leased_known: "leases_ok q ls \<Longrightarrow> ls w = Some i \<Longrightarrow> lease_of q i = SegLeased"
  by (simp add: leases_ok_def lease_of_def)

lemma waiters_wake: "waiters_ok q ws \<Longrightarrow> sq_notify q1 = Suc (sq_notify q) \<Longrightarrow> waiters_ok q1 ws"
  unfolding waiters_ok_def by (metis Suc_n_not_le_n le_SucI)

lemma waiters_same:
  "waiters_ok q ws \<Longrightarrow> sq_notify q1 = sq_notify q \<Longrightarrow> sq_ready q1 = sq_ready q \<Longrightarrow> sq_closed q1 = sq_closed q \<Longrightarrow>
    waiters_ok q1 ws"
  by (simp add: waiters_ok_def)

lemma queue_step_inv: "queue_step s t \<Longrightarrow> queue_sys_inv s \<Longrightarrow> queue_sys_inv t"
proof (induction rule: queue_step.induct)
  case (pop_lease s w i q)
  then have q: "sq_inv q" using pop_inv[of "q_queue s"] by (simp add: queue_sys_inv_def)
  obtain "is" where r: "sq_ready (q_queue s) = i # is" "q = (q_queue s)\<lparr>sq_ready := is, sq_states := assign i SegLeased (sq_states (q_queue s))\<rparr>"
    using pop_lease(3) by (auto simp: sq_pop_def split: if_splits list.splits)
  have m: "map_of (sq_states (q_queue s)) i = Some SegReady"
    using pop_lease(4) r by (simp add: queue_sys_inv_def sq_inv_def)
  have "leases_ok q ((q_leases s)(w := Some i))"
    by (rule leases_take[where q = "q_queue s" and ls = "q_leases s" and w = w, OF _ pop_lease(2) m]) (use pop_lease(4) r in \<open>simp_all add: queue_sys_inv_alt\<close>)
  moreover have "waiters_ok q (q_waiting s)" using pop_lease(4) r by (auto simp: queue_sys_inv_alt waiters_ok_def)
  ultimately show ?case using q by (simp add: queue_sys_inv_alt)
next
  case (pop_block s w g q)
  then have "q = q_queue s" "g = sq_notify (q_queue s)" "sq_ready (q_queue s) = []" "\<not> sq_closed (q_queue s)"
    by (auto simp: sq_pop_def split: if_splits list.splits)
  then show ?case using pop_block by (auto simp: queue_sys_inv_alt waiters_ok_def)
next
  case (give_back s w i)
  have l: "leases_ok (q_queue s) (q_leases s)" and wo: "waiters_ok (q_queue s) (q_waiting s)"
    using give_back by (simp_all add: queue_sys_inv_alt)
  have li: "lease_of (q_queue s) i = SegLeased" by (rule leased_known[OF l give_back(1)])
  then have st: "sq_states (requeue (Some i) (q_queue s)) = assign i SegReady (sq_states (q_queue s))"
    by (simp add: requeue_def Let_def wakeLocked_def)
  have "leases_ok (requeue (Some i) (q_queue s)) ((q_leases s)(w := None))"
    by (rule leases_drop[OF l give_back(1) _ st]) simp
  moreover have "waiters_ok (requeue (Some i) (q_queue s)) (q_waiting s)"
  proof (cases "sq_closed (q_queue s)")
    case True
    show ?thesis by (rule waiters_same[OF wo]) (use True li in \<open>simp_all add: requeue_def\<close>)
  next
    case False
    show ?thesis by (rule waiters_wake[OF wo]) (use False li in \<open>simp add: requeue_def wakeLocked_def\<close>)
  qed
  ultimately show ?case using give_back(2) requeue_inv by (simp add: queue_sys_inv_alt)
next
  case (settle s w i)
  have l: "leases_ok (q_queue s) (q_leases s)" and wo: "waiters_ok (q_queue s) (q_waiting s)"
    using settle by (simp_all add: queue_sys_inv_alt)
  have li: "lease_of (q_queue s) i = SegLeased" by (rule leased_known[OF l settle(1)])
  then have st: "sq_states (sq_finish (Some i) (q_queue s)) = assign i SegDone (sq_states (q_queue s))"
    by (simp add: sq_finish_def)
  have "leases_ok (sq_finish (Some i) (q_queue s)) ((q_leases s)(w := None))"
    by (rule leases_drop[OF l settle(1) _ st]) simp
  moreover have "waiters_ok (sq_finish (Some i) (q_queue s)) (q_waiting s)"
    using wo li by (simp add: waiters_ok_def sq_finish_def)
  ultimately show ?case using settle(2) finish_inv by (simp add: queue_sys_inv_alt)
next
  case (add s g)
  have l: "leases_ok (q_queue s) (q_leases s)" and wo: "waiters_ok (q_queue s) (q_waiting s)" and q: "sq_inv (q_queue s)"
    using add by (simp_all add: queue_sys_inv_alt)
  show ?case
  proof (cases "sq_closed (q_queue s) \<or> map_of (sq_tasks (q_queue s)) (Index g) \<noteq> None")
    case True
    then have "snd (sq_push g (q_queue s)) = q_queue s" by (auto simp: sq_push_def)
    then show ?thesis using add by simp
  next
    case False
    have "Index g \<notin> fst ` set (sq_states (q_queue s))"
      using False q by (simp add: sq_inv_def map_of_eq_None_iff)
    then have n: "map_of (sq_states (q_queue s)) (Index g) = None" by (simp add: map_of_eq_None_iff)
    have "leases_ok (snd (sq_push g (q_queue s))) (q_leases s)"
      using l n False by (auto simp: leases_ok_def sq_push_def wakeLocked_def)
    moreover have "waiters_ok (snd (sq_push g (q_queue s))) (q_waiting s)"
      by (rule waiters_wake[OF wo]) (use False in \<open>simp add: sq_push_def wakeLocked_def\<close>)
    ultimately show ?thesis using q push_inv by (simp add: queue_sys_inv_alt)
  qed
next
  case (shut s)
  then have wo: "waiters_ok (q_queue s) (q_waiting s)" and l: "leases_ok (q_queue s) (q_leases s)"
    and q: "sq_inv (sq_close (q_queue s))" using close_inv by (simp_all add: queue_sys_inv_alt)
  have "waiters_ok (sq_close (q_queue s)) (q_waiting s)"
    using wo waiters_wake[OF wo, of "sq_close (q_queue s)"] by (cases "sq_closed (q_queue s)") (simp_all add: sq_close_def wakeLocked_def)
  moreover have "leases_ok (sq_close (q_queue s)) (q_leases s)"
    using l by (simp add: leases_ok_def sq_close_def wakeLocked_def)
  ultimately show ?case using q by (simp add: queue_sys_inv_alt)
qed (auto simp: queue_sys_inv_def)

lemma new_states:
  "\<forall>i. map_of (sq_states q) i \<noteq> Some SegLeased \<Longrightarrow> map_of (sq_states (foldl (index_segment c) q gs)) i \<noteq> Some SegLeased"
proof (induction gs arbitrary: q)
  case (Cons g gs)
  have "\<forall>i. map_of (sq_states (index_segment c q g)) i \<noteq> Some SegLeased"
    using Cons.prems by (auto simp: index_segment_def Let_def)
  then show ?case using Cons.IH by simp
qed simp

lemma queue_start_inv: "distinct (map Index segs) \<Longrightarrow> queue_sys_inv (queue_start segs c)"
  using newSegmentQueue_inv[of segs c] new_states[of _ c segs]
  by (simp add: queue_sys_inv_alt queue_start_def waiters_ok_def leases_ok_def newSegmentQueue_def)

lemma queue_reachable_inv:
  "queue_reachable s0 s \<Longrightarrow> queue_sys_inv s0 \<Longrightarrow> queue_sys_inv s"
  by (induction rule: queue_reachable.induct) (auto intro: queue_step_inv)

text \<open>C19: However the workers interleave, no wake-up is lost: a worker still blocked on the current
  generation faces an open queue without ready segments.\<close>

theorem no_lost_wakeup:
  assumes "distinct (map Index segs)" and "queue_reachable (queue_start segs c) s"
    and "q_waiting s w = Some g" and "sq_ready (q_queue s) \<noteq> [] \<or> sq_closed (q_queue s)"
  shows "g \<noteq> sq_notify (q_queue s) \<and> queue_step s (s\<lparr>q_waiting := (q_waiting s)(w := None)\<rparr>)"
proof -
  have "waiters_ok (q_queue s) (q_waiting s)"
    using queue_reachable_inv[OF assms(2) queue_start_inv[OF assms(1)]] by (simp add: queue_sys_inv_alt)
  then have "g \<noteq> sq_notify (q_queue s)" using assms(3,4) by (auto simp: waiters_ok_def)
  then show ?thesis using queue_step.pop_woken[OF assms(3)] by blast
qed

text \<open>Every segment is in one place: ready once, leased by exactly one worker, or done;
  \<open>remaining\<close> counts the first two kinds and \<open>doneCount\<close> the last, and an open queue has no forgotten segment.\<close>

theorem queue_accounts:
  assumes "distinct (map Index segs)" and "queue_reachable (queue_start segs c) s"
  shows "distinct (sq_ready (q_queue s)) \<and>
    remaining (q_queue s) = unfinished (sq_states (q_queue s)) \<and>
    doneCount (q_queue s) + remaining (q_queue s) = int (length (sq_states (q_queue s))) \<and>
    (\<forall>i. map_of (sq_states (q_queue s)) i = Some SegLeased \<longleftrightarrow> (\<exists>w. q_leases s w = Some i)) \<and>
    (\<forall>w v i. q_leases s w = Some i \<and> q_leases s v = Some i \<longrightarrow> w = v) \<and>
    (\<not> sq_closed (q_queue s) \<longrightarrow>
      (\<forall>i. map_of (sq_states (q_queue s)) i = Some SegReady \<longleftrightarrow> i \<in> set (sq_ready (q_queue s))))"
proof -
  have q: "sq_inv (q_queue s)" and l: "leases_ok (q_queue s) (q_leases s)"
    using queue_reachable_inv[OF assms(2) queue_start_inv[OF assms(1)]] by (simp_all add: queue_sys_inv_alt)
  have "length (sq_tasks (q_queue s)) = length (sq_states (q_queue s))"
    using q distinct_card[of "map fst (sq_tasks (q_queue s))"] distinct_card[of "map fst (sq_states (q_queue s))"]
    by (simp add: sq_inv_def)
  then show ?thesis using q l
    by (auto simp: sq_inv_def leases_ok_def remaining_def doneCount_def)
qed

definition only_segment :: hls_segment where
  "only_segment = \<lparr>Index = 0, Sequence = 0, URI = ''s'', DurationMicros = 0, ByteOffset = 0, ByteLength = 0,
     KeyIndex = 0, IVHex = []\<rparr>"

definition demo_queue :: "nat \<Rightarrow> int list \<Rightarrow> lease_state \<Rightarrow> segment_queue" where
  "demo_queue g r st = \<lparr>sq_notify = g, sq_ready = r, sq_tasks = [(0, new_task only_segment)], sq_states = [(0, st)],
     sq_pending = 1, sq_closed = False\<rparr>"

lemma demo_queue_ops:
  "newSegmentQueue [only_segment] None = demo_queue 0 [0] SegReady"
  "sq_pop (demo_queue 0 [0] SegReady) = (PopLease 0, demo_queue 0 [] SegLeased)"
  "sq_pop (demo_queue 0 [] SegLeased) = (PopWait 0, demo_queue 0 [] SegLeased)"
  "requeue (Some 0) (demo_queue 0 [] SegLeased) = demo_queue 1 [0] SegReady"
  by (simp_all add: newSegmentQueue_def index_segment_def demo_queue_def only_segment_def assign_def drop_key_def
      sq_pop_def requeue_def lease_of_def wakeLocked_def Let_def)

definition demo_waiting :: queue_sys where
  "demo_waiting = \<lparr>q_queue = demo_queue 1 [0] SegReady, q_waiting = (\<lambda>_. None)(1 := Some 0), q_leases = (\<lambda>_. None)\<rparr>"

lemma demo_waiting_reachable: "queue_reachable (queue_start [only_segment] None) demo_waiting"
proof -
  define s0 where "s0 = queue_start [only_segment] None"
  have s0: "q_queue s0 = demo_queue 0 [0] SegReady" "q_waiting s0 = (\<lambda>_. None)" "q_leases s0 = (\<lambda>_. None)"
    by (simp_all add: s0_def queue_start_def demo_queue_ops)
  define s1 where "s1 = s0\<lparr>q_queue := demo_queue 0 [] SegLeased, q_leases := (q_leases s0)(0 := Some 0)\<rparr>"
  have 1: "queue_step s0 s1" unfolding s1_def by (rule queue_step.pop_lease) (simp_all add: s0 demo_queue_ops)
  define s2 where "s2 = s1\<lparr>q_queue := demo_queue 0 [] SegLeased, q_waiting := (q_waiting s1)(1 := Some 0)\<rparr>"
  have 2: "queue_step s1 s2" unfolding s2_def
    by (rule queue_step.pop_block) (simp_all add: s1_def s0 demo_queue_ops)
  define s3 where "s3 = s2\<lparr>q_queue := requeue (Some 0) (q_queue s2), q_leases := (q_leases s2)(0 := None)\<rparr>"
  have 3: "queue_step s2 s3" unfolding s3_def by (rule queue_step.give_back) (simp add: s2_def s1_def)
  have "s3 = demo_waiting"
    by (simp add: s3_def s2_def s1_def s0 demo_waiting_def demo_queue_ops[simplified])
  then show ?thesis
    using queue_reachable.step[OF queue_reachable.step[OF queue_reachable.step[OF queue_reachable.start 1] 2] 3]
    unfolding s0_def by simp
qed

theorem no_lost_wakeup_witness:
  "queue_reachable (queue_start [only_segment] None) demo_waiting \<and>
    queue_step demo_waiting (demo_waiting\<lparr>q_waiting := (q_waiting demo_waiting)(1 := None)\<rparr>)"
proof -
  have d: "distinct (map Index [only_segment])" by simp
  have "q_waiting demo_waiting 1 = Some 0" "sq_ready (q_queue demo_waiting) \<noteq> [] \<or> sq_closed (q_queue demo_waiting)"
    by (simp_all add: demo_waiting_def demo_queue_def)
  from no_lost_wakeup[OF d demo_waiting_reachable this] demo_waiting_reachable show ?thesis by blast
qed

theorem queue_accounts_witness:
  "remaining (q_queue demo_waiting) = 1 \<and> doneCount (q_queue demo_waiting) + remaining (q_queue demo_waiting) = 1"
proof -
  have d: "distinct (map Index [only_segment])" by simp
  from queue_accounts[OF d demo_waiting_reachable] show ?thesis
    by (simp add: demo_waiting_def demo_queue_def remaining_def)
qed

end
