(* ===== verification/HlsRetry.thy ===== *)
theory HlsRetry
  imports HlsQueue Limiters
begin

text \<open>
  How an attempt at a segment settles (strategy/hls/segment_retry.go): the causes of an error in the
  order the code tests them, the retry budget, the delays, and the host penalties a status sets.
\<close>

section \<open>Errors as causes\<close>

text \<open>
  An error value is the list of the causes \<open>errors.Is\<close> and \<open>errors.As\<close> can reach in it, outermost
  first; nil is \<open>None\<close>.
\<close>

record status_error =
  se_resource :: string
  se_index :: int
  se_status :: int
  se_retryAfter :: string
  se_host :: string

datatype cause =
    CStorage | CContract | CRedirectRefusal | CDiskFull | CPermanentHTTP | CInvalidSegment | CDRM | CMaxRedirects
  | CUserinfo | CDirtySeed | COffsetOverflow | CLive | CDemuxedAudio | CDiscontinuityMap | CIFramesOnly
  | CInvalidManifest | CNotImplemented | CWindowClosed | CCanceled | CDeadline | CStatus status_error | CData
  | CNet | CEOF | CUnexpectedEOF | CNoProgress | CClosedPipe | CStall | COther string

type_synonym go_error = "cause list"

definition IsPermanentHLSError :: "go_error \<Rightarrow> bool" where
  "IsPermanentHLSError e = list_ex (\<lambda>c. c \<in> {CLive, CDRM, CDemuxedAudio, CDiscontinuityMap, CIFramesOnly,
     CInvalidManifest, CInvalidSegment, CNotImplemented}) e"

fun first_status :: "go_error \<Rightarrow> status_error option" where
  "first_status [] = None"
| "first_status (CStatus se # cs) = Some se"
| "first_status (c # cs) = first_status cs"

section \<open>Delays\<close>

definition hlsMaxSegmentRetries :: int where
  "hlsMaxSegmentRetries = 5"

definition hlsNotFoundMaxRetries :: int where
  "hlsNotFoundMaxRetries = 2"

definition hlsRetryBaseDelay :: int where
  "hlsRetryBaseDelay = 500000000"

definition hlsRetryMaxDelay :: int where
  "hlsRetryMaxDelay = 8 * second"

definition hlsRetryAfterMax :: int where
  "hlsRetryAfterMax = 30 * second"

definition hlsRetryDelay :: "int \<Rightarrow> int" where
  "hlsRetryDelay n0 =
     (let n = (if n0 < 1 then 1 else n0) in
      if n > hlsMaxSegmentRetries then hlsRetryMaxDelay
      else let d = wrap64 (hlsRetryBaseDelay * 2 ^ nat (n - 1))
           in if d \<le> 0 \<or> d > hlsRetryMaxDelay then hlsRetryMaxDelay else d)"

text \<open>\<open>strings.TrimSpace\<close> on ASCII text and \<open>strconv.Atoi\<close>, which fails outside 64 bits.\<close>

definition is_space :: "char \<Rightarrow> bool" where
  "is_space c \<longleftrightarrow> of_char c \<in> {9, 10, 11, 12, 13, 32 :: nat}"

definition trim_space :: "string \<Rightarrow> string" where
  "trim_space s = rev (dropWhile is_space (rev (dropWhile is_space s)))"

fun digits :: "string \<Rightarrow> int \<Rightarrow> int option" where
  "digits [] acc = Some acc"
| "digits (c # cs) acc =
     (let d = int (of_char c) - 48 in if 0 \<le> d \<and> d \<le> 9 then digits cs (10 * acc + d) else None)"

definition atoi :: "string \<Rightarrow> int option" where
  "atoi s =
     (let neg = (s \<noteq> [] \<and> hd s = CHR ''-'');
          ds = (if s \<noteq> [] \<and> (hd s = CHR ''-'' \<or> hd s = CHR ''+'') then tl s else s)
      in if ds = [] then None
         else case digits ds 0 of None \<Rightarrow> None
              | Some n \<Rightarrow> let v = (if neg then - n else n) in if in_i64 v then Some v else None)"

text \<open>\<open>ParseRetryAfter\<close>: seconds, or an HTTP date (the parser is an argument) relative to now.\<close>

definition ParseRetryAfter :: "(string \<Rightarrow> int option) \<Rightarrow> string \<Rightarrow> int \<Rightarrow> int option" where
  "ParseRetryAfter http_date header now =
     (if header = [] then None
      else case atoi header of
        Some n \<Rightarrow> Some (mul64 n second)
      | None \<Rightarrow> map_option (\<lambda>t. time_sub t now) (http_date header))"

definition hlsValidRetryAfter :: "(string \<Rightarrow> int option) \<Rightarrow> string \<Rightarrow> int \<Rightarrow> int option" where
  "hlsValidRetryAfter http_date raw0 now =
     (let raw = trim_space raw0 in
      if raw = [] then None
      else case atoi raw of
        Some n \<Rightarrow> (if n < 0 \<or> n > hlsRetryAfterMax div second then None else Some (mul64 n second))
      | None \<Rightarrow>
          (case ParseRetryAfter http_date raw now of
             None \<Rightarrow> None
           | Some d \<Rightarrow> if d < 0 \<or> d > hlsRetryAfterMax then None else Some d))"

section \<open>Settling an attempt\<close>

datatype outcome_action = OutcomeDone | OutcomeRetry | OutcomeRequeue | OutcomeFatal | OutcomeExit

record attempt_outcome =
  oc_action :: outcome_action
  oc_delay :: int
  oc_err :: "go_error option"
  oc_retryHost :: string

abbreviation outcome :: "outcome_action \<Rightarrow> attempt_outcome" where
  "outcome a \<equiv> \<lparr>oc_action = a, oc_delay = 0, oc_err = None, oc_retryHost = []\<rparr>"

abbreviation fatal_outcome :: "go_error \<Rightarrow> attempt_outcome" where
  "fatal_outcome e \<equiv> \<lparr>oc_action = OutcomeFatal, oc_delay = 0, oc_err = Some e, oc_retryHost = []\<rparr>"

abbreviation retry_outcome :: "int \<Rightarrow> attempt_outcome" where
  "retry_outcome d \<equiv> \<lparr>oc_action = OutcomeRetry, oc_delay = d, oc_err = None, oc_retryHost = []\<rparr>"

definition consumeRetry :: "segment_task \<Rightarrow> bool \<Rightarrow> go_error \<Rightarrow> attempt_outcome \<times> segment_task" where
  "consumeRetry t generic err =
     (let t1 = t\<lparr>retries := retries t + 1\<rparr>;
          t2 = (if generic then t1\<lparr>genericAttempt := genericAttempt t1 + 1\<rparr> else t1)
      in (if retries t2 > hlsMaxSegmentRetries then fatal_outcome err
          else retry_outcome (hlsRetryDelay (retries t2)), t2))"

text \<open>
  What an engine and its environment contribute: the state of the contexts, the clock and the
  jitter of a penalty, and the URL and date parsers of the standard library.
\<close>

record retry_env =
  parentDone :: bool
  ctxDone :: bool
  fatalLatched :: bool
  sessDone :: bool
  admissionOpen :: bool
  env_now :: int
  env_jitter :: int
  env_clock :: int
  mirror_host :: "string \<Rightarrow> string"
  http_date :: "string \<Rightarrow> int option"

definition permanent_outcome :: "status_error \<Rightarrow> attempt_outcome" where
  "permanent_outcome se = fatal_outcome [CStatus se, CPermanentHTTP]"

definition classify_404 :: "segment_task \<Rightarrow> status_error \<Rightarrow> attempt_outcome \<times> segment_task" where
  "classify_404 t se =
     (let t1 = t\<lparr>notFoundRetries := notFoundRetries t + 1\<rparr> in
      if notFoundRetries t1 > hlsNotFoundMaxRetries then (permanent_outcome se, t1)
      else let t2 = t1\<lparr>retries := retries t1 + 1\<rparr>
           in (if retries t2 > hlsMaxSegmentRetries then permanent_outcome se
               else retry_outcome (hlsRetryDelay (notFoundRetries t2)), t2))"

definition classify_throttled ::
  "retry_env \<Rightarrow> segment_task \<Rightarrow> host_limiter \<Rightarrow> status_error \<Rightarrow> string \<Rightarrow>
    attempt_outcome \<times> segment_task \<times> host_limiter" where
  "classify_throttled env t h se host =
     (let ra = hlsValidRetryAfter (http_date env) (se_retryAfter se) (env_now env);
          h1 = snd (Penalize host (case ra of Some d \<Rightarrow> d | None \<Rightarrow> 0) (ra \<noteq> None) (env_now env)
                     (env_jitter env) (env_clock env) h);
          t1 = (if ra = None then t\<lparr>genericAttempt := genericAttempt t + 1\<rparr> else t);
          t2 = t1\<lparr>retries := retries t1 + 1\<rparr>
      in if retries t2 > hlsMaxSegmentRetries then (fatal_outcome [CStatus se], t2, h1)
         else (\<lparr>oc_action = OutcomeRetry,
                oc_delay = (case ra of Some d \<Rightarrow> d | None \<Rightarrow> hlsRetryDelay (retries t2)),
                oc_err = None, oc_retryHost = host\<rparr>, t2, h1))"

definition classifyStatus ::
  "retry_env \<Rightarrow> segment_task \<Rightarrow> host_limiter \<Rightarrow> status_error \<Rightarrow> attempt_outcome \<times> segment_task \<times> host_limiter" where
  "classifyStatus env t h se =
     (let host = (if se_host se = [] then mirror_host env (URI (t_seg t)) else se_host se) in
      if se_status se = 404 then (let (o1, t1) = classify_404 t se in (o1, t1, h))
      else if se_status se = 429 \<or> se_status se = 503 then classify_throttled env t h se host
      else if se_status se = 403 \<or> se_status se = 410 then
        (if \<not> admissionOpen env then (permanent_outcome se, t, h)
         else let t1 = t\<lparr>refreshRequired := True, retries := retries t + 1\<rparr>
              in (if retries t1 > hlsMaxSegmentRetries then permanent_outcome se
                  else retry_outcome (hlsRetryDelay (retries t1)), t1, h))
      else if se_status se = 408 then (let (o1, t1) = consumeRetry t False [CStatus se] in (o1, t1, h))
      else if se_status se = 416 then (fatal_outcome [CStatus se, CInvalidSegment], t, h)
      else if se_status se \<ge> 500 then
        (let ra = hlsValidRetryAfter (http_date env) (se_retryAfter se) (env_now env);
             t1 = t\<lparr>retries := retries t + 1\<rparr>
         in (if retries t1 > hlsMaxSegmentRetries then fatal_outcome [CStatus se]
             else retry_outcome (case ra of Some d \<Rightarrow> d | None \<Rightarrow> hlsRetryDelay (retries t1)), t1, h))
      else if se_status se \<ge> 400 then (permanent_outcome se, t, h)
      else (fatal_outcome [CInvalidSegment], t, h))"

datatype stop_reason = StopNone | StopKill | StopDrain | StopStall

record settle_state =
  st_task :: segment_task
  st_queue :: segment_queue
  st_hosts :: host_limiter

definition isHlsTransportErr :: "go_error option \<Rightarrow> bool" where
  "isHlsTransportErr err = (case err of None \<Rightarrow> False
     | Some e \<Rightarrow> list_ex (\<lambda>c. c \<in> {CNet, CEOF, CUnexpectedEOF, CNoProgress, CClosedPipe, CDeadline, CCanceled}) e)"

definition always_fatal :: "go_error \<Rightarrow> bool" where
  "always_fatal e \<longleftrightarrow> list_ex (\<lambda>c. c \<in> {CStorage, CContract, CRedirectRefusal, CDiskFull, CPermanentHTTP,
     CInvalidSegment, CDRM, CMaxRedirects, CUserinfo, CDirtySeed, COffsetOverflow}) e \<or> IsPermanentHLSError e"

text \<open>The causes that are left once no stop reason claims the attempt.\<close>

definition route_cause :: "retry_env \<Rightarrow> go_error \<Rightarrow> settle_state \<Rightarrow> attempt_outcome \<times> settle_state" where
  "route_cause env e st =
     (case first_status e of
        Some se \<Rightarrow> (let (o1, t1, h1) = classifyStatus env (st_task st) (st_hosts st) se
                    in (o1, st\<lparr>st_task := t1, st_hosts := h1\<rparr>))
      | None \<Rightarrow>
          (let (o1, t1) = (if CData \<in> set e then consumeRetry (st_task st) False e
                           else if isHlsTransportErr (Some e) then consumeRetry (st_task st) True e
                           else consumeRetry (st_task st) True e)
           in (o1, st\<lparr>st_task := t1\<rparr>)))"

definition maybeComplete :: "segment_queue \<Rightarrow> segment_queue" where
  "maybeComplete q = (if remaining q = 0 then sq_close q else q)"

definition settleOutcome ::
  "retry_env \<Rightarrow> bool \<Rightarrow> bool \<Rightarrow> stop_reason \<Rightarrow> go_error option \<Rightarrow> settle_state \<Rightarrow>
    attempt_outcome \<times> settle_state" where
  "settleOutcome env was_accepted was_duplicate stop err st =
     (let t = st_task st in
      if was_accepted \<or> was_duplicate then
        (let st1 = st\<lparr>st_queue := maybeComplete (sq_finish (Some (Index (t_seg t))) (st_queue st))\<rparr>
         in case err of
              Some e \<Rightarrow> (if was_accepted then fatal_outcome e else outcome OutcomeDone, st1)
            | None \<Rightarrow> (outcome OutcomeDone, st1))
      else if (case err of None \<Rightarrow> False | Some e \<Rightarrow> always_fatal e)
      then (\<lparr>oc_action = OutcomeFatal, oc_delay = 0, oc_err = err, oc_retryHost = []\<rparr>, st)
      else if (case err of None \<Rightarrow> False | Some e \<Rightarrow> CWindowClosed \<in> set e) then
        (if parentDone env then (outcome OutcomeExit, st)
         else (\<lparr>oc_action = OutcomeFatal, oc_delay = 0, oc_err = err, oc_retryHost = []\<rparr>, st))
      else if ctxDone env \<or> parentDone env \<or> fatalLatched env then (outcome OutcomeExit, st)
      else if stop = StopKill \<or> stop = StopDrain then (outcome OutcomeRequeue, st)
      else if stop = StopStall then
        (let t1 = t\<lparr>retries := retries t + 1, genericAttempt := genericAttempt t + 1\<rparr>
         in (if retries t1 > hlsMaxSegmentRetries then fatal_outcome [CStall]
             else retry_outcome (hlsRetryDelay (retries t1)), st\<lparr>st_task := t1\<rparr>))
      else if (case err of None \<Rightarrow> False | Some e \<Rightarrow> CCanceled \<in> set e) \<and> sessDone env
      then (outcome OutcomeRequeue, st)
      else case err of
          None \<Rightarrow> (fatal_outcome [CContract], st)
        | Some e \<Rightarrow> route_cause env e st)"

text \<open>\<open>waitRetry\<close> sleeps once, until the later of the retry delay and the host's penalty.\<close>

definition retry_deadline :: "retry_env \<Rightarrow> settle_state \<Rightarrow> attempt_outcome \<Rightarrow> int" where
  "retry_deadline env st oc =
     (let deadline = env_now env + oc_delay oc;
          host = (if oc_retryHost oc = [] then mirror_host env (URI (t_seg (st_task st))) else oc_retryHost oc);
          until = BlockedUntil host (env_now env) (st_hosts st)
      in if until > deadline then until else deadline)"

section \<open>Delays are bounded\<close>

lemma hlsRetryDelay_bounds: "0 < hlsRetryDelay n \<and> hlsRetryDelay n \<le> hlsRetryMaxDelay"
  by (simp add: hlsRetryDelay_def Let_def hlsRetryMaxDelay_def second_def)

lemma ladder:
  "hlsRetryDelay 1 = 500000000" "hlsRetryDelay 2 = 1000000000" "hlsRetryDelay 3 = 2000000000"
  "hlsRetryDelay 4 = 4000000000" "hlsRetryDelay 5 = 8000000000" "5 < n \<Longrightarrow> hlsRetryDelay n = 8000000000"
  by (simp_all add: hlsRetryDelay_def hlsRetryMaxDelay_def hlsMaxSegmentRetries_def hlsRetryBaseDelay_def second_def
      wrap64_def)

lemma hlsValidRetryAfter_bounds:
  "hlsValidRetryAfter pd raw now = Some d \<Longrightarrow> 0 \<le> d \<and> d \<le> hlsRetryAfterMax"
proof -
  assume a: "hlsValidRetryAfter pd raw now = Some d"
  show ?thesis
  proof (cases "atoi (trim_space raw)")
    case (Some n)
    then have "d = mul64 n second" "0 \<le> n" "n \<le> 30"
      using a by (auto simp: hlsValidRetryAfter_def Let_def hlsRetryAfterMax_def second_def split: if_splits)
    moreover from this have "mul64 n second = n * second"
      by (intro wrap64_id) (simp add: in_i64_def min_i64_def max_i64_def second_def)
    ultimately show ?thesis by (simp add: hlsRetryAfterMax_def second_def)
  qed (use a in \<open>auto simp: hlsValidRetryAfter_def Let_def split: if_splits option.splits\<close>)
qed

section \<open>The budget\<close>

definition spends :: "segment_task \<Rightarrow> attempt_outcome \<Rightarrow> segment_task \<Rightarrow> bool" where
  "spends t oc t1 \<longleftrightarrow> retries t \<le> retries t1 \<and>
     (oc_action oc = OutcomeRetry \<longrightarrow>
        retries t1 = retries t + 1 \<and> retries t1 \<le> hlsMaxSegmentRetries \<and>
        0 \<le> oc_delay oc \<and> oc_delay oc \<le> hlsRetryAfterMax)"

lemma delay_ok: "0 \<le> hlsRetryDelay n" "hlsRetryDelay n \<le> hlsRetryAfterMax"
  using hlsRetryDelay_bounds[of n] by (simp_all add: hlsRetryMaxDelay_def hlsRetryAfterMax_def second_def)

lemma consumeRetry_spends: "consumeRetry t g e = (oc, t1) \<Longrightarrow> spends t oc t1"
  by (auto simp: consumeRetry_def Let_def spends_def delay_ok split: if_splits)

lemma classify_404_spends: "classify_404 t se = (oc, t1) \<Longrightarrow> spends t oc t1"
  by (auto simp: classify_404_def Let_def spends_def delay_ok permanent_outcome_def split: if_splits)

lemma classify_throttled_spends: "classify_throttled env t h se host = (oc, t1, h1) \<Longrightarrow> spends t oc t1"
  using hlsValidRetryAfter_bounds[of "http_date env" "se_retryAfter se" "env_now env"]
  by (auto simp: classify_throttled_def Let_def spends_def delay_ok split: if_splits option.splits)

lemma classifyStatus_spends: "classifyStatus env t h se = (oc, t1, h1) \<Longrightarrow> spends t oc t1"
proof -
  assume a: "classifyStatus env t h se = (oc, t1, h1)"
  define host where "host = (if se_host se = [] then mirror_host env (URI (t_seg t)) else se_host se)"
  have p: "spends t (permanent_outcome se) t" "spends t (fatal_outcome e) t" for e
    by (simp_all add: spends_def permanent_outcome_def)
  obtain o4 t4 where c4: "classify_404 t se = (o4, t4)" by fastforce
  obtain oc8 tc8 where c8: "consumeRetry t False [CStatus se] = (oc8, tc8)" by fastforce
  consider "se_status se = 404" | "se_status se = 429 \<or> se_status se = 503"
    | "se_status se = 403 \<or> se_status se = 410" | "se_status se = 408" | "se_status se = 416"
    | "se_status se \<notin> {404, 429, 503, 403, 410, 408, 416}" "se_status se \<ge> 500"
    | "se_status se \<notin> {404, 429, 503, 403, 410, 408, 416}" "\<not> se_status se \<ge> 500" by auto
  then show ?thesis
  proof cases
    case 1
    then show ?thesis using a classify_404_spends[OF c4] by (simp add: classifyStatus_def Let_def c4)
  next
    case 2
    then have "classify_throttled env t h se host = (oc, t1, h1)"
      using a by (auto simp: classifyStatus_def Let_def host_def)
    then show ?thesis by (rule classify_throttled_spends)
  next
    case 3
    then show ?thesis using a p
      by (auto simp: classifyStatus_def Let_def spends_def delay_ok permanent_outcome_def split: if_splits)
  next
    case 4
    then show ?thesis using a consumeRetry_spends[OF c8] by (simp add: classifyStatus_def Let_def c8)
  next
    case 5
    then show ?thesis using a p by (auto simp: classifyStatus_def Let_def)
  next
    case 6
    then show ?thesis using a hlsValidRetryAfter_bounds[of "http_date env" "se_retryAfter se" "env_now env"]
      by (auto simp: classifyStatus_def Let_def spends_def delay_ok split: if_splits option.splits)
  next
    case 7
    then show ?thesis using a p by (auto simp: classifyStatus_def Let_def split: if_splits)
  qed
qed

lemma route_cause_spends: "route_cause env e st = (oc, st1) \<Longrightarrow> spends (st_task st) oc (st_task st1)"
  using classifyStatus_spends consumeRetry_spends
  by (auto simp: route_cause_def Let_def split: option.splits prod.splits if_splits)

lemma settle_cases:
  assumes "settleOutcome env a d stop err st = (oc, st1)"
  shows "(\<exists>e. err = Some e \<and> route_cause env e st = (oc, st1)) \<or> spends (st_task st) oc (st_task st1)"
  using assms unfolding settleOutcome_def Let_def
  by (auto simp: spends_def delay_ok split: if_splits option.splits)

lemma settle_spends:
  assumes "settleOutcome env a d stop err st = (oc, st1)"
  shows "spends (st_task st) oc (st_task st1)"
  using settle_cases[OF assms] route_cause_spends[of env _ st oc st1] by blast

text \<open>The outcomes of the attempts at one segment, in order; the environment of each is arbitrary.\<close>

fun settle_run ::
  "(retry_env \<times> bool \<times> bool \<times> stop_reason \<times> go_error option) list \<Rightarrow> settle_state \<Rightarrow> outcome_action list" where
  "settle_run [] st = []"
| "settle_run ((env, a, d, stop, err) # rest) st =
     (let (oc, st1) = settleOutcome env a d stop err st in oc_action oc # settle_run rest st1)"

lemma settle_run_budget:
  "retries (st_task st) \<le> hlsMaxSegmentRetries \<Longrightarrow>
    int (length (filter (\<lambda>x. x = OutcomeRetry) (settle_run rs st))) + retries (st_task st) \<le> hlsMaxSegmentRetries"
proof (induction rs arbitrary: st)
  case Nil
  then show ?case by simp
next
  case (Cons r rs)
  obtain env a d stop err where r: "r = (env, a, d, stop, err)" by (cases r)
  obtain oc st1 where s: "settleOutcome env a d stop err st = (oc, st1)" by fastforce
  have sp: "spends (st_task st) oc (st_task st1)" by (rule settle_spends[OF s])
  show ?case
  proof (cases "retries (st_task st1) \<le> hlsMaxSegmentRetries")
    case True
    then show ?thesis using Cons.IH[of st1] sp by (auto simp: r s spends_def)
  next
    case False
    have "filter (\<lambda>x. x = OutcomeRetry) (settle_run rs st') = []" if "retries (st_task st') > hlsMaxSegmentRetries" for st' rs
      using that
    proof (induction rs arbitrary: st')
      case (Cons r rs)
      obtain env a d stop err where r: "r = (env, a, d, stop, err)" by (cases r)
      obtain oc st1 where s: "settleOutcome env a d stop err st' = (oc, st1)" by fastforce
      have sp: "spends (st_task st') oc (st_task st1)" by (rule settle_spends[OF s])
      then have "oc_action oc \<noteq> OutcomeRetry" "retries (st_task st1) > hlsMaxSegmentRetries"
        using Cons.prems by (auto simp: spends_def)
      then show ?case using Cons.IH by (simp add: r s)
    qed simp
    then have "filter (\<lambda>x. x = OutcomeRetry) (settle_run rs st1) = []" using False by simp
    moreover have "oc_action oc \<noteq> OutcomeRetry" using sp False by (auto simp: spends_def)
    ultimately show ?thesis using Cons.prems by (simp add: r s)
  qed
qed

text \<open>C20: A segment is retried at most five times after its first attempt, over any sequence of
  errors, stop reasons, statuses and cancellations; requeues after a kill or a drain are free.\<close>

theorem retry_budget:
  assumes "retries (st_task st) = 0"
  shows "length (filter (\<lambda>x. x = OutcomeRetry) (settle_run rs st)) \<le> 5"
  using settle_run_budget[of st rs] assms by (simp add: hlsMaxSegmentRetries_def)

text \<open>A retry waits between zero and thirty seconds by itself, and never less than the penalty of
  the host that answered.\<close>

theorem retry_wait_bounds:
  assumes "settleOutcome env a d stop err st = (oc, st1)" and "oc_action oc = OutcomeRetry"
  shows "0 \<le> oc_delay oc \<and> oc_delay oc \<le> 30 * second \<and>
    env_now env + oc_delay oc \<le> retry_deadline env st1 oc \<and>
    BlockedUntil (if oc_retryHost oc = [] then mirror_host env (URI (t_seg (st_task st1))) else oc_retryHost oc)
      (env_now env) (st_hosts st1) \<le> retry_deadline env st1 oc"
  using settle_spends[OF assms(1)] assms(2)
  by (simp add: spends_def retry_deadline_def Let_def hlsRetryAfterMax_def)

text \<open>A storage, contract or permanent failure ends the run whatever else happened: no stop reason,
  cancellation or status hides it, unless the payload had been accepted already, and then it is
  still reported.\<close>

theorem fatal_preserved:
  assumes "settleOutcome env was_accepted was_duplicate stop (Some e) st = (oc, st1)" and "always_fatal e"
    and "was_accepted \<or> \<not> was_duplicate"
  shows "oc_action oc = OutcomeFatal \<and> oc_err oc = Some e \<and> st_task st1 = st_task st"
  using assms unfolding settleOutcome_def Let_def by (auto split: if_splits)

section \<open>Concrete runs\<close>

definition calm_env :: retry_env where
  "calm_env = \<lparr>parentDone = False, ctxDone = False, fatalLatched = False, sessDone = False, admissionOpen = True,
     env_now = 1000, env_jitter = 0, env_clock = 1000, mirror_host = (\<lambda>u. ''cdn''), http_date = (\<lambda>h. None)\<rparr>"

definition busy_reply :: status_error where
  "busy_reply = \<lparr>se_resource = ''segment'', se_index = 0, se_status = 503, se_retryAfter = '' 7 '', se_host = ''edge''\<rparr>"

definition fresh_segment :: settle_state where
  "fresh_segment = \<lparr>st_task = new_task only_segment, st_queue = newSegmentQueue [only_segment] None,
     st_hosts = Map.empty\<rparr>"

theorem retry_budget_witness:
  "retries (st_task fresh_segment) = 0 \<and>
   settle_run (replicate 7 (calm_env, False, False, StopNone, Some [CNet])) fresh_segment
     = replicate 5 OutcomeRetry @ [OutcomeFatal, OutcomeFatal] \<and>
   length (filter (\<lambda>x. x = OutcomeRetry)
     (settle_run (replicate 7 (calm_env, False, False, StopNone, Some [CNet])) fresh_segment)) \<le> 5"
proof -
  have z: "retries (st_task fresh_segment) = 0" by code_simp
  have r: "settle_run (replicate 7 (calm_env, False, False, StopNone, Some [CNet])) fresh_segment
     = replicate 5 OutcomeRetry @ [OutcomeFatal, OutcomeFatal]" by code_simp
  from z r retry_budget[OF z] show ?thesis by blast
qed

theorem retry_wait_bounds_witness:
  "oc_delay (fst (settleOutcome calm_env False False StopNone (Some [CStatus busy_reply]) fresh_segment)) = 7 * second \<and>
   7 * second \<le> 30 * second"
proof -
  obtain oc st1 where s: "settleOutcome calm_env False False StopNone (Some [CStatus busy_reply]) fresh_segment = (oc, st1)"
    by fastforce
  have d: "oc_delay (fst (settleOutcome calm_env False False StopNone (Some [CStatus busy_reply]) fresh_segment)) = 7 * second"
    by code_simp
  have "oc_action (fst (settleOutcome calm_env False False StopNone (Some [CStatus busy_reply]) fresh_segment)) = OutcomeRetry"
    by code_simp
  then have "oc_action oc = OutcomeRetry" by (simp add: s)
  from retry_wait_bounds[OF s this] d show ?thesis by (simp add: s)
qed

theorem fatal_preserved_witness:
  "fst (settleOutcome (calm_env\<lparr>ctxDone := True\<rparr>) False False StopKill (Some [CCanceled, CStorage]) fresh_segment)
     = fatal_outcome [CCanceled, CStorage]"
proof -
  obtain oc st1 where s: "settleOutcome (calm_env\<lparr>ctxDone := True\<rparr>) False False StopKill (Some [CCanceled, CStorage])
      fresh_segment = (oc, st1)" by fastforce
  have a: "always_fatal [CCanceled, CStorage]" by (simp add: always_fatal_def)
  have d: "oc_delay (fst (settleOutcome (calm_env\<lparr>ctxDone := True\<rparr>) False False StopKill (Some [CCanceled, CStorage])
      fresh_segment)) = 0 \<and> oc_retryHost (fst (settleOutcome (calm_env\<lparr>ctxDone := True\<rparr>) False False StopKill
      (Some [CCanceled, CStorage]) fresh_segment)) = []" by code_simp
  from fatal_preserved[OF s a] d show ?thesis by (simp add: s)
qed

end
