(* ===== verification/HlsSession.thy ===== *)
theory HlsSession
  imports HlsRetry
begin

text \<open>
  The per-worker session of an HLS run (strategy/hls/worker_session.go): the attempt it publishes,
  the control primitives that stop it (kill, stall, drain) and the commit gate, as steps that
  interleave freely.
\<close>

definition wrap32 :: "int \<Rightarrow> int" where
  "wrap32 x = (x + 2 ^ 31) mod 2 ^ 32 - 2 ^ 31"

section \<open>Attempts and sessions\<close>

datatype attempt_phase = PhaseNone | PhaseWait | PhaseNetwork | PhaseDecrypt | PhaseCommit

definition interruptibleByKill :: "attempt_phase \<Rightarrow> bool" where
  "interruptibleByKill p \<longleftrightarrow> (case p of PhaseWait \<Rightarrow> True | PhaseNetwork \<Rightarrow> True | PhaseDecrypt \<Rightarrow> True | _ \<Rightarrow> False)"

text \<open>
  Attempts are shared by pointer, so a session keeps them in a store under their generation and
  publishes a generation. A cancel function is nil, or has been called or not. What
  only the worker reads and writes of an attempt (its credit and its outcome) is kept with the
  attempt's body.
\<close>

record hls_attempt =
  gen :: nat
  a_index :: int
  a_cancel :: "bool option"
  lastActivity :: int
  waitingOnLimiter :: bool
  retryCount :: int
  lastHTTPStatus :: int
  a_phase :: attempt_phase
  stopReason :: stop_reason

record worker_session =
  s_attempts :: "nat \<Rightarrow> hls_attempt option"
  s_attempt :: "nat option"
  s_cancelled :: bool
  draining :: bool
  queueWait :: bool
  protWait :: bool
  sessionBytes :: int
  windowBytes :: int
  lastSeen :: int
  retained_retry :: int
  retained_status :: int

definition cancel_fired :: "hls_attempt \<Rightarrow> bool" where
  "cancel_fired att = (a_cancel att = Some True)"

definition fire :: "hls_attempt \<Rightarrow> hls_attempt" where
  "fire att = att\<lparr>a_cancel := map_option (\<lambda>_. True) (a_cancel att)\<rparr>"

definition store_attempt :: "hls_attempt \<Rightarrow> worker_session \<Rightarrow> worker_session" where
  "store_attempt att s = s\<lparr>s_attempts := (s_attempts s)(gen att \<mapsto> att)\<rparr>"

text \<open>The attempt a session publishes, if any.\<close>

definition published :: "worker_session \<Rightarrow> hls_attempt option" where
  "published s = (case s_attempt s of None \<Rightarrow> None | Some g \<Rightarrow> s_attempts s g)"

definition newAttempt :: "nat \<Rightarrow> segment_task \<Rightarrow> int \<Rightarrow> hls_attempt" where
  "newAttempt g t now =
     \<lparr>gen = g, a_index = Index (t_seg t), a_cancel = Some False, lastActivity = now, waitingOnLimiter = False,
      retryCount = wrap32 (genericAttempt t), lastHTTPStatus = 0, a_phase = PhaseNone, stopReason = StopNone\<rparr>"

section \<open>Operations\<close>

definition markActivity :: "int \<Rightarrow> worker_session \<Rightarrow> worker_session" where
  "markActivity now s =
     (let s1 = s\<lparr>lastSeen := now\<rparr> in
      case published s1 of None \<Rightarrow> s1 | Some att \<Rightarrow> store_attempt (att\<lparr>lastActivity := now\<rparr>) s1)"

definition setPhase :: "attempt_phase \<Rightarrow> worker_session \<Rightarrow> worker_session" where
  "setPhase p s = (case published s of None \<Rightarrow> s | Some att \<Rightarrow> store_attempt (att\<lparr>a_phase := p\<rparr>) s)"

definition publishAttempt :: "hls_attempt \<Rightarrow> worker_session \<Rightarrow> worker_session" where
  "publishAttempt att s =
     (let at1 = att\<lparr>a_phase := PhaseNetwork\<rparr>;
          at2 = (if draining s then fire (at1\<lparr>stopReason := StopDrain\<rparr>) else at1)
      in (store_attempt at2 s)\<lparr>s_attempt := Some (gen att)\<rparr>)"

definition retireAttempt :: "nat \<Rightarrow> int \<Rightarrow> worker_session \<Rightarrow> worker_session" where
  "retireAttempt g now s =
     (case s_attempts s g of
        None \<Rightarrow> s
      | Some att \<Rightarrow>
          let s1 = (if s_attempt s = Some g then s\<lparr>s_attempt := None\<rparr> else s);
              s2 = s1\<lparr>retained_retry := retryCount att, retained_status := lastHTTPStatus att\<rparr>
          in (store_attempt (fire att) s2)\<lparr>lastSeen := now\<rparr>)"

definition cancelAttemptKill :: "worker_session \<Rightarrow> bool \<times> worker_session" where
  "cancelAttemptKill s =
     (case published s of
        None \<Rightarrow> (False, s)
      | Some att \<Rightarrow>
          if a_cancel att = None \<or> \<not> interruptibleByKill (a_phase att) then (False, s)
          else (True, store_attempt (fire (att\<lparr>stopReason := StopKill\<rparr>)) s))"

text \<open>
  \<open>markDraining\<close> in two steps: the marker and the session's cancellation need no lock, and only the
  second half holds it, so an attempt can be published in between.
\<close>

definition drain_mark :: "worker_session \<Rightarrow> worker_session" where
  "drain_mark s = s\<lparr>draining := True, s_cancelled := True\<rparr>"

definition drain_attempt :: "worker_session \<Rightarrow> worker_session" where
  "drain_attempt s =
     (case published s of
        None \<Rightarrow> s
      | Some att \<Rightarrow>
          if a_phase att = PhaseCommit then s
          else store_attempt (fire (if stopReason att = StopNone then att\<lparr>stopReason := StopDrain\<rparr> else att)) s)"

definition cancelAttemptStall :: "nat \<Rightarrow> worker_session \<Rightarrow> bool \<times> worker_session" where
  "cancelAttemptStall expected s =
     (case published s of
        None \<Rightarrow> (False, s)
      | Some att \<Rightarrow>
          if gen att \<noteq> expected \<or> a_cancel att = None then (False, s)
          else if a_phase att \<noteq> PhaseNetwork then (False, s)
          else (True, store_attempt (fire (att\<lparr>stopReason := StopStall\<rparr>)) s))"

definition enterCommit :: "nat \<Rightarrow> worker_session \<Rightarrow> bool \<times> worker_session" where
  "enterCommit g s =
     (case s_attempts s g of
        None \<Rightarrow> (False, s)
      | Some att \<Rightarrow>
          if s_attempt s \<noteq> Some g \<or> stopReason att \<noteq> StopNone then (False, s)
          else (True, store_attempt (att\<lparr>a_phase := PhaseCommit\<rparr>) s))"

definition noteActivity :: "nat \<Rightarrow> int \<Rightarrow> worker_session \<Rightarrow> worker_session" where
  "noteActivity g now s =
     (case s_attempts s g of None \<Rightarrow> s | Some att \<Rightarrow> store_attempt (att\<lparr>lastActivity := now\<rparr>) s)"

definition noteStatus :: "nat \<Rightarrow> int \<Rightarrow> worker_session \<Rightarrow> worker_session" where
  "noteStatus g st s =
     (case s_attempts s g of None \<Rightarrow> s | Some att \<Rightarrow> store_attempt (att\<lparr>lastHTTPStatus := wrap32 st\<rparr>) s)"

definition waiting_flag :: "nat \<Rightarrow> bool \<Rightarrow> worker_session \<Rightarrow> worker_session" where
  "waiting_flag g b s =
     (case s_attempts s g of None \<Rightarrow> s | Some att \<Rightarrow> store_attempt (att\<lparr>waitingOnLimiter := b\<rparr>) s)"

text \<open>\<open>throttle\<close> around \<open>WaitN\<close>: the state while it blocks, and after it returned.\<close>

definition throttle_enter :: "nat \<Rightarrow> int \<Rightarrow> worker_session \<Rightarrow> worker_session" where
  "throttle_enter g now s = waiting_flag g True (setPhase PhaseWait (noteActivity g now s))"

definition throttle_leave :: "nat \<Rightarrow> int \<Rightarrow> worker_session \<Rightarrow> worker_session" where
  "throttle_leave g now s = setPhase PhaseNetwork (waiting_flag g False (noteActivity g now s))"

text \<open>The integer part of \<open>snapshot\<close>; the moving average of the speed is floating point.\<close>

record session_projection =
  sp_retry :: int
  sp_status :: int
  sp_lastAct :: int
  sp_waiting :: bool

definition snapshot_projection :: "int \<Rightarrow> worker_session \<Rightarrow> session_projection" where
  "snapshot_projection now s =
     (let att = published s;
          phase = (case att of None \<Rightarrow> PhaseNone | Some a \<Rightarrow> a_phase a);
          act0 = (case att of None \<Rightarrow> 0 | Some a \<Rightarrow> lastActivity a);
          act = (if lastSeen s > act0 then lastSeen s else act0);
          prot = ((case att of None \<Rightarrow> False | Some a \<Rightarrow> waitingOnLimiter a) \<or> queueWait s \<or> protWait s \<or>
                  phase = PhaseWait \<or> phase = PhaseCommit \<or> phase = PhaseDecrypt)
      in \<lparr>sp_retry = (case att of None \<Rightarrow> retained_retry s | Some a \<Rightarrow> retryCount a),
          sp_status = (case att of None \<Rightarrow> retained_status s | Some a \<Rightarrow> lastHTTPStatus a),
          sp_lastAct = (if prot \<and> act \<noteq> 0 then now else act),
          sp_waiting = prot\<rparr>)"

record session_view =
  v_gen :: nat
  v_phase :: attempt_phase
  v_index :: int
  v_lastActivity :: int
  v_draining :: bool

definition view :: "worker_session \<Rightarrow> session_view" where
  "view s =
     (case published s of
        None \<Rightarrow> \<lparr>v_gen = 0, v_phase = PhaseNone, v_index = -1, v_lastActivity = lastSeen s, v_draining = draining s\<rparr>
      | Some att \<Rightarrow> \<lparr>v_gen = gen att, v_phase = a_phase att, v_index = a_index att,
                    v_lastActivity = (if lastActivity att > lastSeen s then lastActivity att else lastSeen s),
                    v_draining = draining s\<rparr>)"

section \<open>Concurrent control\<close>

text \<open>
  The worker and any number of controllers act on a session; each call holds the publish lock, so it
  is one step. The log records which attempts were stopped (a kill or stall that returned true, a
  drain that found the attempt interruptible) and which passed the commit gate. The worker sets
  phases only before the gate, as \<open>execMediaAttempt\<close> does, and uses a fresh generation each time.
\<close>

datatype session_event = Stopped nat | Committed nat

record session_log =
  sl_sess :: worker_session
  sl_events :: "session_event list"
  sl_drained :: bool

definition drain_event :: "worker_session \<Rightarrow> session_event list" where
  "drain_event s = (case published s of None \<Rightarrow> [] | Some att \<Rightarrow> if a_phase att = PhaseCommit then [] else [Stopped (gen att)])"

inductive session_step :: "session_log \<Rightarrow> session_log \<Rightarrow> bool" where
  publish: "sl_sess l = s \<Longrightarrow> s_attempt s = None \<Longrightarrow> s_attempts s g = None \<Longrightarrow>
    session_step l (l\<lparr>sl_sess := publishAttempt (newAttempt g t now) s\<rparr>)"
| phase: "sl_sess l = s \<Longrightarrow> published s = Some att \<Longrightarrow> a_phase att \<noteq> PhaseCommit \<Longrightarrow>
    p \<in> {PhaseWait, PhaseNetwork, PhaseDecrypt} \<Longrightarrow> session_step l (l\<lparr>sl_sess := setPhase p s\<rparr>)"
| telemetry: "sl_sess l = s \<Longrightarrow>
    s' \<in> {markActivity now s, noteActivity g now s, noteStatus g status s, waiting_flag g b s} \<Longrightarrow>
    session_step l (l\<lparr>sl_sess := s'\<rparr>)"
| commit: "s_attempt (sl_sess l) = Some g \<Longrightarrow> enterCommit g (sl_sess l) = (b, s') \<Longrightarrow>
    session_step l (l\<lparr>sl_sess := s', sl_events := (if b then [Committed g] else []) @ sl_events l\<rparr>)"
| retire: "s_attempt (sl_sess l) = Some g \<Longrightarrow> session_step l (l\<lparr>sl_sess := retireAttempt g now (sl_sess l)\<rparr>)"
| kill: "cancelAttemptKill (sl_sess l) = (b, s') \<Longrightarrow>
    session_step l (l\<lparr>sl_sess := s', sl_events := (if b then [Stopped (the (s_attempt (sl_sess l)))] else []) @ sl_events l\<rparr>)"
| stall: "cancelAttemptStall e (sl_sess l) = (b, s') \<Longrightarrow>
    session_step l (l\<lparr>sl_sess := s', sl_events := (if b then [Stopped e] else []) @ sl_events l\<rparr>)"
| mark: "session_step l (l\<lparr>sl_sess := drain_mark (sl_sess l)\<rparr>)"
| drain: "draining (sl_sess l) \<Longrightarrow>
    session_step l (l\<lparr>sl_sess := drain_attempt (sl_sess l), sl_events := drain_event (sl_sess l) @ sl_events l,
                      sl_drained := True\<rparr>)"

definition idle_session :: worker_session where
  "idle_session = \<lparr>s_attempts = (\<lambda>_. None), s_attempt = None, s_cancelled = False, draining = False,
     queueWait = False, protWait = False, sessionBytes = 0, windowBytes = 0, lastSeen = 0, retained_retry = 0,
     retained_status = 0\<rparr>"

inductive session_reachable :: "session_log \<Rightarrow> bool" where
  begin_session: "session_reachable \<lparr>sl_sess = idle_session, sl_events = [], sl_drained = False\<rparr>"
| continue_session: "session_reachable l \<Longrightarrow> session_step l l' \<Longrightarrow> session_reachable l'"

definition att_ok :: "session_event list \<Rightarrow> bool \<Rightarrow> nat option \<Rightarrow> nat \<Rightarrow> hls_attempt \<Rightarrow> bool" where
  "att_ok ev d cur g a \<longleftrightarrow> gen a = g \<and> a_cancel a \<noteq> None \<and>
     (Stopped g \<in> set ev \<longrightarrow> stopReason a \<noteq> StopNone \<and> a_cancel a = Some True \<and> a_phase a \<noteq> PhaseCommit) \<and>
     (Committed g \<in> set ev \<longrightarrow> stopReason a = StopNone \<and> a_phase a = PhaseCommit) \<and>
     (a_phase a = PhaseCommit \<longrightarrow> Committed g \<in> set ev) \<and>
     (d \<and> cur = Some g \<longrightarrow> a_phase a = PhaseCommit \<or> (stopReason a \<noteq> StopNone \<and> a_cancel a = Some True))"

definition sess_inv :: "session_event list \<Rightarrow> bool \<Rightarrow> worker_session \<Rightarrow> bool" where
  "sess_inv ev d s \<longleftrightarrow> (d \<longrightarrow> draining s) \<and>
     (\<forall>g. case s_attempts s g of
        None \<Rightarrow> Stopped g \<notin> set ev \<and> Committed g \<notin> set ev \<and> s_attempt s \<noteq> Some g
      | Some a \<Rightarrow> att_ok ev d (s_attempt s) g a)"

lemma sess_invD: "sess_inv ev d s \<Longrightarrow> s_attempts s g = Some a \<Longrightarrow> att_ok ev d (s_attempt s) g a"
  unfolding sess_inv_def by (metis option.simps(5))

lemma published_att:
  assumes "sess_inv ev d s" and "published s = Some a"
  shows "att_ok ev d (s_attempt s) (gen a) a" "s_attempt s = Some (gen a)" "s_attempts s (gen a) = Some a"
proof -
  obtain g where g: "s_attempt s = Some g" "s_attempts s g = Some a"
    using assms(2) by (auto simp: published_def split: option.splits)
  have "att_ok ev d (s_attempt s) g a" by (rule sess_invD[OF assms(1) g(2)])
  moreover from this have "gen a = g" by (simp add: att_ok_def)
  ultimately show "att_ok ev d (s_attempt s) (gen a) a" "s_attempt s = Some (gen a)" "s_attempts s (gen a) = Some a"
    using g by simp_all
qed

text \<open>An operation that rewrites one stored attempt and may log events about it.\<close>

lemma sess_inv_store:
  assumes i: "sess_inv ev d s"
    and a: "att_ok ev' d' cur' (gen a) a"
    and e: "\<And>h. h \<noteq> gen a \<Longrightarrow> (Stopped h \<in> set ev' \<longleftrightarrow> Stopped h \<in> set ev) \<and> (Committed h \<in> set ev' \<longleftrightarrow> Committed h \<in> set ev)"
    and c: "\<And>h. h \<noteq> gen a \<Longrightarrow> cur' = Some h \<Longrightarrow> d' = d \<and> s_attempt s = Some h"
    and dr: "d' \<longrightarrow> draining s'"
    and s': "s_attempts s' = (s_attempts s)(gen a \<mapsto> a)" "s_attempt s' = cur'"
  shows "sess_inv ev' d' s'"
  unfolding sess_inv_def
proof (intro conjI allI)
  show "d' \<longrightarrow> draining s'" by (rule dr)
  fix g
  show "case s_attempts s' g of
        None \<Rightarrow> Stopped g \<notin> set ev' \<and> Committed g \<notin> set ev' \<and> s_attempt s' \<noteq> Some g
      | Some a \<Rightarrow> att_ok ev' d' (s_attempt s') g a"
  proof (cases "g = gen a")
    case True
    then show ?thesis using a by (simp add: s')
  next
    case False
    have x: "case s_attempts s g of
        None \<Rightarrow> Stopped g \<notin> set ev \<and> Committed g \<notin> set ev \<and> s_attempt s \<noteq> Some g
      | Some a \<Rightarrow> att_ok ev d (s_attempt s) g a"
      using i unfolding sess_inv_def by blast
    show ?thesis
    proof (cases "s_attempts s g")
      case None
      then show ?thesis using x False e[OF False] c[OF False] by (auto simp: s')
    next
      case (Some b)
      then show ?thesis using x False e[OF False] c[OF False] by (auto simp: s' att_ok_def)
    qed
  qed
qed

lemma store_simps [simp]:
  "s_attempts (store_attempt a s) = (s_attempts s)(gen a \<mapsto> a)" "s_attempt (store_attempt a s) = s_attempt s"
  "draining (store_attempt a s) = draining s" "gen (fire a) = gen a" "stopReason (fire a) = stopReason a"
  "a_phase (fire a) = a_phase a" "a_cancel a \<noteq> None \<Longrightarrow> a_cancel (fire a) = Some True"
  by (auto simp: store_attempt_def fire_def)

lemma att_ok_id: "att_ok ev d cur g a \<Longrightarrow> gen a = g"
  by (simp add: att_ok_def)

text \<open>A rewrite that keeps the log.\<close>

lemma sess_inv_same:
  assumes "sess_inv ev d s" and "att_ok ev d (s_attempt s) (gen a) a"
  shows "sess_inv ev d (store_attempt a s)"
  by (rule sess_inv_store[OF assms]) (use assms(1) in \<open>auto simp: sess_inv_def\<close>)

text \<open>A rewrite that logs one event about the attempt it rewrites.\<close>

lemma sess_inv_event:
  assumes "sess_inv ev d s" and "att_ok (e # ev) d (s_attempt s) (gen a) a" and "e = Stopped (gen a) \<or> e = Committed (gen a)"
  shows "sess_inv (e # ev) d (store_attempt a s)"
  by (rule sess_inv_store[OF assms(1,2)]) (use assms(1,3) in \<open>auto simp: sess_inv_def\<close>)

lemma telemetry_att:
  "att_ok ev d cur g a \<Longrightarrow> att_ok ev d cur g (a\<lparr>lastActivity := x\<rparr>)"
  "att_ok ev d cur g a \<Longrightarrow> att_ok ev d cur g (a\<lparr>lastHTTPStatus := x\<rparr>)"
  "att_ok ev d cur g a \<Longrightarrow> att_ok ev d cur g (a\<lparr>waitingOnLimiter := w\<rparr>)"
  by (simp_all add: att_ok_def)

lemma sess_inv_field:
  "sess_inv ev d s \<Longrightarrow> s_attempts s' = s_attempts s \<Longrightarrow> s_attempt s' = s_attempt s \<Longrightarrow> draining s' = draining s \<Longrightarrow>
    sess_inv ev d s'"
  unfolding sess_inv_def by (simp cong: option.case_cong)

lemma current_stored: "sess_inv ev d s \<Longrightarrow> s_attempt s = Some g \<Longrightarrow> \<exists>a. s_attempts s g = Some a"
  unfolding sess_inv_def by (metis option.exhaust option.simps(4))

lemma telemetry_inv:
  assumes i: "sess_inv ev d s"
    and s': "s' \<in> {markActivity now s, noteActivity g now s, noteStatus g status s, waiting_flag g b s}"
  shows "sess_inv ev d s'"
proof -
  have one: "sess_inv ev d (case s_attempts s g of None \<Rightarrow> s | Some a \<Rightarrow> store_attempt (f a) s)"
    if "\<And>a. att_ok ev d (s_attempt s) g a \<Longrightarrow> att_ok ev d (s_attempt s) g (f a)" for f
  proof (cases "s_attempts s g")
    case (Some a)
    from that[OF sess_invD[OF i Some]] show ?thesis
      using sess_inv_same[OF i, of "f a"] by (simp add: Some att_ok_id)
  qed (simp add: i)
  have "sess_inv ev d (markActivity now s)"
  proof -
    define s1 where "s1 = s\<lparr>lastSeen := now\<rparr>"
    have i1: "sess_inv ev d s1" by (rule sess_inv_field[OF i]) (simp_all add: s1_def)
    show ?thesis
    proof (cases "published s1")
      case None
      then show ?thesis using i1 by (simp add: markActivity_def Let_def s1_def)
    next
      case (Some a)
      from telemetry_att(1)[OF published_att(1)[OF i1 Some], of now] sess_inv_same[OF i1, of "a\<lparr>lastActivity := now\<rparr>"]
      show ?thesis using Some by (simp add: markActivity_def Let_def s1_def)
    qed
  qed
  then show ?thesis
    using s' one[OF telemetry_att(1)] one[OF telemetry_att(2)] one[OF telemetry_att(3)]
    by (auto simp: noteActivity_def noteStatus_def waiting_flag_def)
qed

lemma publish_inv:
  assumes i: "sess_inv ev d s" and n: "s_attempt s = None" "s_attempts s g = None"
  shows "sess_inv ev d (publishAttempt (newAttempt g t now) s)"
proof -
  define a0 where "a0 = (newAttempt g t now)\<lparr>a_phase := PhaseNetwork\<rparr>"
  define a where "a = (if draining s then fire (a0\<lparr>stopReason := StopDrain\<rparr>) else a0)"
  have p: "publishAttempt (newAttempt g t now) s = (store_attempt a s)\<lparr>s_attempt := Some g\<rparr>"
    by (simp add: publishAttempt_def Let_def a_def a0_def newAttempt_def)
  have e: "Stopped g \<notin> set ev" "Committed g \<notin> set ev" "d \<longrightarrow> draining s"
    using i n(2) unfolding sess_inv_def by (metis option.simps(4))+
  have g: "gen a = g" by (simp add: a_def a0_def newAttempt_def)
  have "att_ok ev d (Some g) g a"
    using e by (auto simp: att_ok_def a_def a0_def newAttempt_def fire_def)
  then show ?thesis unfolding p
    by (intro sess_inv_store[OF i, where a = a]) (use e(3) n(1) in \<open>auto simp: g\<close>)
qed

lemma phase_inv:
  assumes i: "sess_inv ev d s" and a: "published s = Some a" "a_phase a \<noteq> PhaseCommit" "p \<noteq> PhaseCommit"
  shows "sess_inv ev d (setPhase p s)"
proof -
  have "att_ok ev d (s_attempt s) (gen a) (a\<lparr>a_phase := p\<rparr>)"
    using published_att(1)[OF i a(1)] a(2,3) by (auto simp: att_ok_def)
  then show ?thesis using sess_inv_same[OF i, of "a\<lparr>a_phase := p\<rparr>"] by (simp add: setPhase_def a(1))
qed

lemma commit_inv:
  assumes i: "sess_inv ev d s" and e: "enterCommit g s = (b, s')"
  shows "sess_inv ((if b then [Committed g] else []) @ ev) d s'"
proof (cases b)
  case True
  then obtain a where a: "s_attempts s g = Some a" "s_attempt s = Some g" "stopReason a = StopNone"
    "s' = store_attempt (a\<lparr>a_phase := PhaseCommit\<rparr>) s"
    using e by (auto simp: enterCommit_def split: option.splits if_splits)
  have ok: "att_ok ev d (s_attempt s) g a" by (rule sess_invD[OF i a(1)])
  have "sess_inv (Committed g # ev) d (store_attempt (a\<lparr>a_phase := PhaseCommit\<rparr>) s)"
    by (rule sess_inv_event[OF i]) (use ok a(3) in \<open>auto simp: att_ok_def\<close>)
  then show ?thesis using True a(4) by simp
next
  case False
  then show ?thesis using e i by (auto simp: enterCommit_def split: option.splits if_splits)
qed

lemma retire_inv:
  assumes i: "sess_inv ev d s" and c: "s_attempt s = Some g"
  shows "sess_inv ev d (retireAttempt g now s)"
proof -
  obtain a where a: "s_attempts s g = Some a" using current_stored[OF i c] by blast
  have ok: "att_ok ev d (s_attempt s) g a" by (rule sess_invD[OF i a])
  then have "att_ok ev d None (gen (fire a)) (fire a)" by (auto simp: att_ok_def)
  moreover have "d \<longrightarrow> draining s" using i by (simp add: sess_inv_def)
  ultimately show ?thesis
    by (intro sess_inv_store[OF i, where a = "fire a"])
       (use c ok in \<open>auto simp: retireAttempt_def a Let_def att_ok_def store_attempt_def\<close>)
qed

lemma stopped_inv:
  assumes i: "sess_inv ev d s" and p: "published s = Some a" and n: "a_phase a \<noteq> PhaseCommit" and r: "r \<noteq> StopNone"
  shows "sess_inv (Stopped (gen a) # ev) d (store_attempt (fire (a\<lparr>stopReason := r\<rparr>)) s)"
proof -
  have ok: "att_ok ev d (s_attempt s) (gen a) a" by (rule published_att(1)[OF i p])
  then have "att_ok (Stopped (gen a) # ev) d (s_attempt s) (gen (fire (a\<lparr>stopReason := r\<rparr>))) (fire (a\<lparr>stopReason := r\<rparr>))"
    using n r by (auto simp: att_ok_def)
  then show ?thesis by (rule sess_inv_event[OF i]) simp
qed

lemma kill_inv:
  assumes i: "sess_inv ev d s" and k: "cancelAttemptKill s = (b, s')"
  shows "sess_inv ((if b then [Stopped (the (s_attempt s))] else []) @ ev) d s'"
proof (cases b)
  case True
  then obtain a where a: "published s = Some a" "interruptibleByKill (a_phase a)"
    "s' = store_attempt (fire (a\<lparr>stopReason := StopKill\<rparr>)) s"
    using k by (auto simp: cancelAttemptKill_def split: option.splits if_splits)
  have "a_phase a \<noteq> PhaseCommit" using a(2) by (auto simp: interruptibleByKill_def)
  from stopped_inv[OF i a(1) this, of StopKill] show ?thesis
    using True published_att(2)[OF i a(1)] by (simp add: a(3))
next
  case False
  then show ?thesis using k i by (auto simp: cancelAttemptKill_def split: option.splits if_splits)
qed

lemma stall_inv:
  assumes i: "sess_inv ev d s" and k: "cancelAttemptStall e s = (b, s')"
  shows "sess_inv ((if b then [Stopped e] else []) @ ev) d s'"
proof (cases b)
  case True
  then obtain a where a: "published s = Some a" "a_phase a = PhaseNetwork" "gen a = e"
    "s' = store_attempt (fire (a\<lparr>stopReason := StopStall\<rparr>)) s"
    using k by (auto simp: cancelAttemptStall_def split: option.splits if_splits)
  from stopped_inv[OF i a(1), of StopStall] show ?thesis using True a by simp
next
  case False
  then show ?thesis using k i by (auto simp: cancelAttemptStall_def split: option.splits if_splits)
qed

lemma session_drain_inv:
  assumes i: "sess_inv ev d s" and dr: "draining s"
  shows "sess_inv (drain_event s @ ev) True (drain_attempt s)"
proof (cases "published s")
  case None
  have no: "s_attempt s = Some g \<Longrightarrow> False" for g
    using None current_stored[OF i, of g] by (auto simp: published_def)
  have "sess_inv ev True s"
    unfolding sess_inv_def
  proof (intro conjI allI)
    fix g
    have "case s_attempts s g of
        None \<Rightarrow> Stopped g \<notin> set ev \<and> Committed g \<notin> set ev \<and> s_attempt s \<noteq> Some g
      | Some a \<Rightarrow> att_ok ev d (s_attempt s) g a"
      using i unfolding sess_inv_def by blast
    then show "case s_attempts s g of
        None \<Rightarrow> Stopped g \<notin> set ev \<and> Committed g \<notin> set ev \<and> s_attempt s \<noteq> Some g
      | Some a \<Rightarrow> att_ok ev True (s_attempt s) g a"
      using no by (auto simp: att_ok_def split: option.splits)
  qed (simp add: dr)
  then show ?thesis using None by (simp add: drain_event_def drain_attempt_def)
next
  case (Some a)
  have ok: "att_ok ev d (s_attempt s) (gen a) a" "s_attempt s = Some (gen a)" "s_attempts s (gen a) = Some a"
    using published_att[OF i Some] by blast+
  show ?thesis
  proof (cases "a_phase a = PhaseCommit")
    case True
    have st: "s_attempts s = (s_attempts s)(gen a \<mapsto> a)" by (rule ext) (simp add: ok(3))
    have ok': "att_ok ev True (Some (gen a)) (gen a) a" using ok(1) True by (simp add: att_ok_def)
    have "sess_inv ev True s"
      by (rule sess_inv_store[OF i ok' _ _ _ st ok(2)]) (simp_all add: dr)
    then show ?thesis using Some True by (simp add: drain_event_def drain_attempt_def)
  next
    case False
    define b where "b = fire (if stopReason a = StopNone then a\<lparr>stopReason := StopDrain\<rparr> else a)"
    have b: "gen b = gen a" by (simp add: b_def)
    have cn: "a_cancel a \<noteq> None" and nc: "Committed (gen a) \<notin> set ev" using ok(1) False unfolding att_ok_def by blast+
    have "stopReason b \<noteq> StopNone" "a_cancel b = Some True" "a_phase b \<noteq> PhaseCommit"
      unfolding b_def using cn False by (cases "stopReason a = StopNone"; simp)+
    then have "att_ok (Stopped (gen a) # ev) True (s_attempt s) (gen b) b"
      using b nc by (simp add: att_ok_def)
    then have "sess_inv (Stopped (gen a) # ev) True (store_attempt b s)"
      by (rule sess_inv_store[OF i]) (simp_all add: dr ok(2) b)
    then show ?thesis using Some False by (simp add: drain_event_def drain_attempt_def b_def)
  qed
qed

lemma session_reachable_inv: "session_reachable l \<Longrightarrow> sess_inv (sl_events l) (sl_drained l) (sl_sess l)"
proof (induction rule: session_reachable.induct)
  case begin_session
  then show ?case by (simp add: sess_inv_def idle_session_def)
next
  case (continue_session l l')
  note i = continue_session.IH
  from continue_session.hyps(2) show ?case
  proof (cases rule: session_step.cases)
    case (publish s g t now)
    then show ?thesis using publish_inv[of "sl_events l" "sl_drained l" s g t now] i by simp
  next
    case (phase s att p)
    then show ?thesis using phase_inv[of "sl_events l" "sl_drained l" s att p] i by auto
  next
    case (telemetry s s' now g status b)
    then show ?thesis using telemetry_inv[of "sl_events l" "sl_drained l" s s' now g status b] i by simp
  next
    case (commit g b s')
    then show ?thesis using commit_inv[OF i commit(3)] by simp
  next
    case (retire g now)
    then show ?thesis using retire_inv[OF i retire(2)] by simp
  next
    case (kill b s')
    then show ?thesis using kill_inv[OF i kill(2)] by simp
  next
    case (stall e b s')
    then show ?thesis using stall_inv[OF i stall(2)] by simp
  next
    case mark
    have "sess_inv (sl_events l) (sl_drained l) (drain_mark (sl_sess l))"
      using i unfolding sess_inv_def drain_mark_def by (simp cong: option.case_cong)
    then show ?thesis using mark by simp
  next
    case drain
    then show ?thesis using session_drain_inv[OF i drain(2)] by simp
  qed
qed

text \<open>C18: Whatever the interleaving of worker and controllers, an attempt that a kill, stall or drain
  stopped never passes the commit gate, and none that passed it is ever stopped.\<close>

theorem commit_or_stop:
  assumes "session_reachable l"
  shows "Stopped g \<notin> set (sl_events l) \<or> Committed g \<notin> set (sl_events l)"
proof (cases "s_attempts (sl_sess l) g")
  case None
  then show ?thesis using session_reachable_inv[OF assms] unfolding sess_inv_def by (metis option.simps(4))
next
  case (Some a)
  from sess_invD[OF session_reachable_inv[OF assms] Some] show ?thesis by (auto simp: att_ok_def)
qed

text \<open>Once a drain has returned, no attempt of the session can reach the output: one published
  before or after it is either committing already or is cancelled and fails the gate.\<close>

theorem drain_is_final:
  assumes "session_reachable l" and "sl_drained l" and "published (sl_sess l) = Some a" and "a_phase a \<noteq> PhaseCommit"
  shows "cancel_fired a \<and> stopReason a \<noteq> StopNone \<and> enterCommit (gen a) (sl_sess l) = (False, sl_sess l)"
proof -
  note i = session_reachable_inv[OF assms(1)]
  have "att_ok (sl_events l) True (Some (gen a)) (gen a) a" "s_attempts (sl_sess l) (gen a) = Some a"
    using published_att[OF i assms(3)] assms(2) by simp_all
  then show ?thesis using assms(4) by (simp add: att_ok_def cancel_fired_def enterCommit_def)
qed

section \<open>Concrete runs\<close>

abbreviation log_of :: "worker_session \<Rightarrow> session_event list \<Rightarrow> bool \<Rightarrow> session_log" where
  "log_of s ev d \<equiv> \<lparr>sl_sess = s, sl_events = ev, sl_drained = d\<rparr>"

definition one_attempt :: worker_session where
  "one_attempt = publishAttempt (newAttempt 1 (new_task only_segment) 5) idle_session"

lemma one_attempt_reachable: "session_reachable (log_of one_attempt [] False)"
  using continue_session[OF begin_session session_step.publish[of _ idle_session 1 "new_task only_segment" 5]]
  by (simp add: one_attempt_def idle_session_def)

lemma one_attempt_published: "published one_attempt = Some ((newAttempt 1 (new_task only_segment) 5)\<lparr>a_phase := PhaseNetwork\<rparr>)"
  by (simp add: one_attempt_def published_def publishAttempt_def idle_session_def newAttempt_def store_attempt_def)

lemma drain_mark_published: "published (drain_mark s) = published s"
  by (simp add: published_def drain_mark_def cong: option.case_cong)

text \<open>A kill wins, and the gate refuses the attempt afterwards.\<close>

theorem commit_or_stop_witness:
  "\<exists>l. session_reachable l \<and> Stopped 1 \<in> set (sl_events l) \<and> Committed 1 \<notin> set (sl_events l)"
proof -
  obtain b s' where k: "cancelAttemptKill one_attempt = (b, s')" by fastforce
  then have b: "b" using one_attempt_published
    by (simp add: cancelAttemptKill_def newAttempt_def interruptibleByKill_def)
  have c: "s_attempt one_attempt = Some 1"
    by (simp add: one_attempt_def publishAttempt_def newAttempt_def Let_def)
  have "session_step (log_of one_attempt [] False) (log_of s' [Stopped 1] False)"
    using session_step.kill[of "log_of one_attempt [] False" b s'] k b c by simp
  then have r: "session_reachable (log_of s' [Stopped 1] False)" by (rule continue_session[OF one_attempt_reachable])
  from commit_or_stop[OF r, of 1] r show ?thesis by (intro exI[of _ "log_of s' [Stopped 1] False"]) simp
qed

theorem drain_is_final_witness:
  "\<exists>s a. session_reachable (log_of s [Stopped 1] True) \<and> published s = Some a \<and> gen a = 1 \<and>
     cancel_fired a \<and> enterCommit 1 s = (False, s)"
proof -
  define s where "s = drain_attempt (drain_mark one_attempt)"
  have "session_reachable (log_of (drain_mark one_attempt) [] False)"
    using continue_session[OF one_attempt_reachable session_step.mark] by simp
  moreover have "drain_event (drain_mark one_attempt) = [Stopped 1]"
    using one_attempt_published by (simp add: drain_event_def drain_mark_published newAttempt_def)
  ultimately have r: "session_reachable (log_of s [Stopped 1] True)"
    using continue_session[OF _ session_step.drain[of "log_of (drain_mark one_attempt) [] False"]]
    by (simp add: drain_mark_def s_def)
  obtain a where a: "published s = Some a" "gen a = 1" "a_phase a = PhaseNetwork"
    using one_attempt_published
    by (simp add: s_def drain_attempt_def drain_mark_published newAttempt_def fire_def store_attempt_def published_def
        drain_mark_def one_attempt_def publishAttempt_def Let_def)
  have "cancel_fired a \<and> stopReason a \<noteq> StopNone \<and> enterCommit (gen a) s = (False, s)"
    using drain_is_final[OF r, of a] a by simp
  then show ?thesis using r a by (metis)
qed

end
