(* ===== verification/HlsCrypto.thy ===== *)
theory HlsCrypto
  imports HlsRetry DownloadTask
begin

text \<open>
  Decryption of a segment (strategy/hls/decrypt.go) over an arbitrary block cipher, and the key
  cache's table (strategy/hls/keycache.go).
\<close>

section \<open>Cipher block chaining\<close>

text \<open>
  The block cipher is AES of the standard library, an argument: \<open>dec key block\<close>. The chaining is
  written out.
\<close>

definition BlockSize :: nat where
  "BlockSize = 16"

definition xor_bytes :: "bytes \<Rightarrow> bytes \<Rightarrow> bytes" where
  "xor_bytes xs ys = map2 (\<lambda>x y. Bit_Operations.xor x y) xs ys"

function cbc_decrypt :: "(bytes \<Rightarrow> bytes \<Rightarrow> bytes) \<Rightarrow> bytes \<Rightarrow> bytes \<Rightarrow> bytes \<Rightarrow> bytes" where
  "cbc_decrypt dec key iv buf =
     (if length buf < BlockSize then []
      else xor_bytes (dec key (take BlockSize buf)) iv @ cbc_decrypt dec key (take BlockSize buf) (drop BlockSize buf))"
  by pat_completeness auto
termination
  by (relation "measure (\<lambda>(dec, key, iv, buf). length buf)") (auto simp: BlockSize_def)

declare cbc_decrypt.simps [simp del]

section \<open>Decrypting a segment\<close>

datatype segment_data_error =
    MissingSegment | KeyIndexRange int | KeyMaterial nat | EmptyCiphertext | Misaligned nat | BadIV
  | NegativeSequence int | PaddingLength nat | PaddingBytes

definition hex_digit :: "char \<Rightarrow> nat option" where
  "hex_digit c =
     (let n = of_char c in
      if 48 \<le> n \<and> n \<le> 57 then Some (n - 48)
      else if 97 \<le> n \<and> n \<le> 102 then Some (n - 87)
      else if 65 \<le> n \<and> n \<le> 70 then Some (n - 55) else None)"

text \<open>\<open>hex.DecodeString\<close>: an odd length or a foreign character is an error.\<close>

fun hex_decode :: "string \<Rightarrow> bytes option" where
  "hex_decode [] = Some []"
| "hex_decode [c] = None"
| "hex_decode (c # d # cs) =
     (case (hex_digit c, hex_digit d) of
        (Some x, Some y) \<Rightarrow> map_option (\<lambda>bs. of_nat (16 * x + y) # bs) (hex_decode cs)
      | _ \<Rightarrow> None)"

text \<open>The big-endian reading order reverses the little-endian octets of the sequence number.\<close>

definition segment_iv :: "hls_segment \<Rightarrow> segment_data_error + bytes" where
  "segment_iv seg =
     (if IVHex seg \<noteq> [] then
        (case hex_decode (IVHex seg) of
           Some d \<Rightarrow> if length d \<noteq> BlockSize then Inl BadIV else Inr d
         | None \<Rightarrow> Inl BadIV)
      else if Sequence seg < 0 then Inl (NegativeSequence (Sequence seg))
      else Inr (replicate 8 0 @ rev (put_u64 (Sequence seg))))"

definition strip_padding :: "bytes \<Rightarrow> segment_data_error + (bytes \<times> int)" where
  "strip_padding buf =
     (let padLen = unat (last buf) in
      if padLen < 1 \<or> padLen > BlockSize \<or> padLen > length buf then Inl (PaddingLength padLen)
      else if \<not> list_all (\<lambda>b. unat b = padLen) (drop (length buf - padLen) buf) then Inl PaddingBytes
      else Inr (take (length buf - padLen) buf, int padLen))"

definition decryptSegmentInPlace ::
  "(bytes \<Rightarrow> bytes \<Rightarrow> bytes) \<Rightarrow> bytes \<Rightarrow> hls_segment option \<Rightarrow> bytes list \<Rightarrow>
    segment_data_error + (bytes \<times> int)" where
  "decryptSegmentInPlace dec buf sg keyBytes =
     (case sg of
        None \<Rightarrow> Inl MissingSegment
      | Some seg \<Rightarrow>
          if KeyIndex seg = 0 then Inr (buf, 0)
          else if KeyIndex seg < 0 \<or> KeyIndex seg > int (length keyBytes) then Inl (KeyIndexRange (KeyIndex seg))
          else let key = keyBytes ! nat (KeyIndex seg - 1) in
            if length key \<noteq> BlockSize then Inl (KeyMaterial (length key))
            else if buf = [] then Inl EmptyCiphertext
            else if length buf mod BlockSize \<noteq> 0 then Inl (Misaligned (length buf))
            else case segment_iv seg of
                Inl e \<Rightarrow> Inl e
              | Inr iv \<Rightarrow> strip_padding (cbc_decrypt dec key iv buf))"

section \<open>The key cache\<close>

type_synonym key_cache = "string \<rightharpoonup> bytes"

definition key_lookup :: "string \<Rightarrow> key_cache \<Rightarrow> bytes option" where
  "key_lookup uri c = c uri"

definition key_publish :: "string \<Rightarrow> bytes \<Rightarrow> key_cache \<Rightarrow> key_cache" where
  "key_publish uri key c = c(uri \<mapsto> key)"

text \<open>
  The table has an empty slot, nil, for every key but the segment's; the fetch passes the state
  of the attempt through.
\<close>

definition keyTable ::
  "hls_segment option \<Rightarrow> hls_key list \<Rightarrow> (string \<Rightarrow> 's \<Rightarrow> (go_error + bytes) \<times> 's) \<Rightarrow> key_cache \<Rightarrow> 's \<Rightarrow>
    (go_error + bytes list) \<times> key_cache \<times> 's" where
  "keyTable sg keys fetch c s =
     (case sg of
        None \<Rightarrow> (Inl [CContract], c, s)
      | Some seg \<Rightarrow>
          let table = replicate (length keys) [] in
          if KeyIndex seg = 0 then (Inr table, c, s)
          else if KeyIndex seg < 0 \<or> KeyIndex seg > int (length keys) then (Inl [CData], c, s)
          else let slot = nat (KeyIndex seg - 1); uri = key_URI (keys ! slot) in
            if uri = [] then (Inl [CData], c, s)
            else case key_lookup uri c of
                Some key \<Rightarrow> (Inr (table[slot := key]), c, s)
              | None \<Rightarrow>
                  (case fetch uri s of
                     (Inl e, s1) \<Rightarrow> (Inl e, c, s1)
                   | (Inr key, s1) \<Rightarrow> (Inr (table[slot := key]), key_publish uri key c, s1)))"

section \<open>Decryption against encryption\<close>

text \<open>What the sender of RFC 8216 does: pad to whole blocks, then chain.\<close>

function cbc_encrypt :: "(bytes \<Rightarrow> bytes \<Rightarrow> bytes) \<Rightarrow> bytes \<Rightarrow> bytes \<Rightarrow> bytes \<Rightarrow> bytes" where
  "cbc_encrypt enc key iv m =
     (if length m < BlockSize then []
      else let c = enc key (xor_bytes (take BlockSize m) iv) in c @ cbc_encrypt enc key c (drop BlockSize m))"
  by pat_completeness auto
termination
  by (relation "measure (\<lambda>(enc, key, iv, m). length m)") (auto simp: BlockSize_def)

declare cbc_encrypt.simps [simp del]

definition pad_length :: "bytes \<Rightarrow> nat" where
  "pad_length m = BlockSize - length m mod BlockSize"

definition pkcs7_pad :: "bytes \<Rightarrow> bytes" where
  "pkcs7_pad m = m @ replicate (pad_length m) (of_nat (pad_length m))"

lemma xor_bytes_length [simp]: "length (xor_bytes xs ys) = min (length xs) (length ys)"
  by (simp add: xor_bytes_def)

lemma xor_bytes_cancel: "length xs = length ys \<Longrightarrow> xor_bytes (xor_bytes xs ys) ys = xs"
  by (rule nth_equalityI) (auto simp: xor_bytes_def xor.assoc)

definition block_cipher :: "(bytes \<Rightarrow> bytes \<Rightarrow> bytes) \<Rightarrow> (bytes \<Rightarrow> bytes \<Rightarrow> bytes) \<Rightarrow> bytes \<Rightarrow> bool" where
  "block_cipher enc dec key \<longleftrightarrow> (\<forall>b. length b = BlockSize \<longrightarrow> length (enc key b) = BlockSize \<and> dec key (enc key b) = b)"

lemma cbc_roundtrip:
  assumes "block_cipher enc dec key"
  shows "length iv = BlockSize \<Longrightarrow> length m mod BlockSize = 0 \<Longrightarrow>
    cbc_decrypt dec key iv (cbc_encrypt enc key iv m) = m \<and> length (cbc_encrypt enc key iv m) = length m"
proof (induction "length m" arbitrary: iv m rule: less_induct)
  case less
  have b: "0 < BlockSize" by (simp add: BlockSize_def)
  show ?case
  proof (cases "length m < BlockSize")
    case True
    then have "m = []" using less.prems by simp
    then show ?thesis by (simp add: cbc_encrypt.simps[of _ _ _ "[]"] cbc_decrypt.simps[of _ _ _ "[]"] BlockSize_def)
  next
    case False
    define x where "x = xor_bytes (take BlockSize m) iv"
    define c where "c = enc key x"
    have x: "length x = BlockSize" using False less.prems by (simp add: x_def)
    have c: "length c = BlockSize" "dec key c = x" using assms x by (auto simp: c_def block_cipher_def)
    have e: "cbc_encrypt enc key iv m = c @ cbc_encrypt enc key c (drop BlockSize m)"
      using False by (subst cbc_encrypt.simps) (simp add: c_def x_def Let_def)
    have ih: "cbc_decrypt dec key c (cbc_encrypt enc key c (drop BlockSize m)) = drop BlockSize m \<and>
      length (cbc_encrypt enc key c (drop BlockSize m)) = length (drop BlockSize m)"
      by (rule less.hyps) (use False less.prems b c in \<open>auto simp: le_mod_geq\<close>)
    have "cbc_decrypt dec key iv (cbc_encrypt enc key iv m) = xor_bytes x iv @ drop BlockSize m"
      unfolding e using c ih by (subst cbc_decrypt.simps) simp
    also have "xor_bytes x iv = take BlockSize m"
      unfolding x_def using False less.prems by (intro xor_bytes_cancel) simp
    finally show ?thesis using e ih c False by simp
  qed
qed

lemma pad_bounds: "0 < pad_length m" "pad_length m \<le> BlockSize" "(length m + pad_length m) mod BlockSize = 0"
proof -
  show "0 < pad_length m" "pad_length m \<le> BlockSize" by (simp_all add: pad_length_def BlockSize_def)
  have "length m + pad_length m = length m - length m mod BlockSize + BlockSize"
    by (simp add: pad_length_def BlockSize_def)
  then show "(length m + pad_length m) mod BlockSize = 0"
    by (simp add: mod_add_self2 minus_mod_eq_mult_div)
qed

lemma strip_pkcs7: "strip_padding (pkcs7_pad m) = Inr (m, int (pad_length m))"
proof -
  have u: "unat (of_nat (pad_length m) :: 8 word) = pad_length m"
    using pad_bounds(2)[of m] by (simp add: unat_of_nat BlockSize_def)
  have l: "last (pkcs7_pad m) = of_nat (pad_length m)" using pad_bounds(1)[of m] by (simp add: pkcs7_pad_def)
  have "length (pkcs7_pad m) = length m + pad_length m" by (simp add: pkcs7_pad_def)
  then show ?thesis using pad_bounds(1,2)[of m]
    by (simp add: strip_padding_def l u Let_def pkcs7_pad_def list_all_iff)
qed

lemma hex_iv_length: "segment_iv sg = Inr iv \<Longrightarrow> length iv = BlockSize"
  by (auto simp: segment_iv_def BlockSize_def split: if_splits option.splits)

text \<open>C21: Decrypting what a sender encrypted under the segment's key and vector gives the payload back,
  with the length of its padding; for any block cipher whose decryption inverts its encryption.\<close>

theorem decrypt_recovers_payload:
  assumes "block_cipher enc dec key" and "length key = 16" and "1 \<le> KeyIndex sg" and "KeyIndex sg \<le> int (length ks)"
    and "ks ! nat (KeyIndex sg - 1) = key" and "segment_iv sg = Inr iv"
  shows "decryptSegmentInPlace dec (cbc_encrypt enc key iv (pkcs7_pad m)) (Some sg) ks = Inr (m, int (pad_length m))"
proof -
  have l: "length (pkcs7_pad m) = length m + pad_length m" by (simp add: pkcs7_pad_def)
  have r: "cbc_decrypt dec key iv (cbc_encrypt enc key iv (pkcs7_pad m)) = pkcs7_pad m \<and>
    length (cbc_encrypt enc key iv (pkcs7_pad m)) = length (pkcs7_pad m)"
    by (rule cbc_roundtrip[OF assms(1) hex_iv_length[OF assms(6)]]) (simp add: l pad_bounds)
  then have "cbc_encrypt enc key iv (pkcs7_pad m) \<noteq> []" using l pad_bounds(1)[of m] by auto
  then show ?thesis
    using assms(2-6) r l pad_bounds(3)[of m] strip_pkcs7[of m]
    by (simp add: decryptSegmentInPlace_def Let_def BlockSize_def)
qed

lemma cbc_length:
  assumes d: "\<And>b. length b = BlockSize \<Longrightarrow> length (dec key b) = BlockSize"
  shows "length v = BlockSize \<Longrightarrow> length b mod BlockSize = 0 \<Longrightarrow> length (cbc_decrypt dec key v b) = length b"
proof (induction "length b" arbitrary: v b rule: less_induct)
  case less
  show ?case
  proof (cases "length b < BlockSize")
    case True
    then have "b = []" using less.prems by simp
    then show ?thesis by (simp add: cbc_decrypt.simps[of _ _ _ "[]"] BlockSize_def)
  next
    case False
    have "length (cbc_decrypt dec key (take BlockSize b) (drop BlockSize b)) = length (drop BlockSize b)"
      by (rule less.hyps) (use False less.prems in \<open>auto simp: le_mod_geq BlockSize_def\<close>)
    moreover have "length (dec key (take BlockSize b)) = BlockSize" by (rule d) (use False in simp)
    ultimately show ?thesis using False less.prems(1) by (subst cbc_decrypt.simps) simp
  qed
qed

lemma strip_padding_bounds:
  assumes "strip_padding buf = Inr (plain, pd)"
  shows "int (length plain) + pd = int (length buf) \<and> 1 \<le> pd \<and> pd \<le> 16"
proof -
  define n where "n = unat (last buf)"
  show ?thesis using assms unfolding strip_padding_def Let_def n_def[symmetric] BlockSize_def
    by (auto split: if_splits)
qed

lemma decrypt_split:
  assumes "decryptSegmentInPlace dec buf (Some sg) ks = Inr (plain, pd)"
    and "\<And>b. length b = 16 \<Longrightarrow> length (dec (ks ! nat (KeyIndex sg - 1)) b) = 16"
  shows "int (length plain) + pd = int (length buf) \<and> (KeyIndex sg = 0 \<longrightarrow> plain = buf) \<and>
    (KeyIndex sg \<noteq> 0 \<longrightarrow> 1 \<le> pd \<and> pd \<le> 16)"
proof (cases "KeyIndex sg = 0")
  case True
  then show ?thesis using assms(1) by (simp add: decryptSegmentInPlace_def)
next
  case False
  define key where "key = ks ! nat (KeyIndex sg - 1)"
  obtain iv where iv: "segment_iv sg = Inr iv" "length buf mod BlockSize = 0"
    "strip_padding (cbc_decrypt dec key iv buf) = Inr (plain, pd)"
    using assms(1) False by (auto simp: decryptSegmentInPlace_def Let_def key_def split: if_splits sum.splits)
  have "length (cbc_decrypt dec key iv buf) = length buf"
    by (rule cbc_length[OF _ hex_iv_length[OF iv(1)] iv(2)]) (use assms(2) in \<open>simp add: key_def BlockSize_def\<close>)
  then show ?thesis using strip_padding_bounds[OF iv(3)] False by simp
qed

section \<open>A concrete cipher\<close>

definition cbc_key :: bytes where
  "cbc_key = map of_nat [1..<17]"

definition cbc_segment :: hls_segment where
  "cbc_segment = \<lparr>Index = 3, Sequence = 70000, URI = ''u'', DurationMicros = 1, ByteOffset = 0, ByteLength = 0,
     KeyIndex = 2, IVHex = []\<rparr>"

theorem decrypt_recovers_payload_witness:
  "decryptSegmentInPlace (\<lambda>k b. xor_bytes b k)
     (cbc_encrypt (\<lambda>k b. xor_bytes b k) cbc_key (replicate 13 0 @ [1, 17, 112]) (pkcs7_pad [9, 8, 7]))
     (Some cbc_segment) [[], cbc_key] = Inr ([9, 8, 7], 13)"
proof -
  have k: "length cbc_key = 16" by (simp add: cbc_key_def)
  have c: "block_cipher (\<lambda>k b. xor_bytes b k) (\<lambda>k b. xor_bytes b k) cbc_key"
    using k by (simp add: block_cipher_def BlockSize_def xor_bytes_cancel)
  have iv: "segment_iv cbc_segment = Inr (replicate 13 0 @ [1, 17, 112])" by code_simp
  have "decryptSegmentInPlace (\<lambda>k b. xor_bytes b k)
     (cbc_encrypt (\<lambda>k b. xor_bytes b k) cbc_key (replicate 13 0 @ [1, 17, 112]) (pkcs7_pad [9, 8, 7]))
     (Some cbc_segment) [[], cbc_key] = Inr ([9, 8, 7], int (pad_length [9, 8, 7]))"
    by (rule decrypt_recovers_payload[OF c k _ _ _ iv]) (simp_all add: cbc_segment_def)
  then show ?thesis by (simp add: pad_length_def BlockSize_def)
qed

end
