(* ===== verification/HlsAttempt.thy ===== *)
theory HlsAttempt
  imports HlsCrypto HlsSession
begin

text \<open>
  The body of an attempt (strategy/hls/segment_worker.go, fetchHLSKey of keycache.go, newHLSSubRequest's
  byte range): the response contract, the read loop with its credit to the progress counters, the
  roll-back, and the commit to the reorder window.
\<close>

section \<open>The response contract\<close>

record byte_range =
  br_offset :: int
  br_length :: int

definition hlsSegmentByteRange :: "hls_segment \<Rightarrow> go_error + byte_range option" where
  "hlsSegmentByteRange seg =
     (if ByteLength seg = 0 \<and> ByteOffset seg = 0 then Inr None
      else if ByteLength seg \<le> 0 \<or> ByteOffset seg < 0 \<or> ByteLength seg > sub64 max_i64 (ByteOffset seg)
      then Inl [CContract]
      else Inr (Some \<lparr>br_offset = ByteOffset seg, br_length = ByteLength seg\<rparr>))"

definition lower_char :: "char \<Rightarrow> char" where
  "lower_char c = (let n = of_char c :: nat in if 65 \<le> n \<and> n \<le> 90 then char_of (n + 32) else c)"

definition lower :: "string \<Rightarrow> string" where
  "lower s = map lower_char s"

text \<open>\<open>strings.Cut\<close>: the parts before and after the first separator.\<close>

fun cut :: "char \<Rightarrow> string \<Rightarrow> (string \<times> string) option" where
  "cut sep [] = None"
| "cut sep (c # cs) = (if c = sep then Some ([], cs) else map_option (\<lambda>(a, b). (c # a, b)) (cut sep cs))"

text \<open>\<open>bytes <start>-<end>/<total>\<close>; a total of -1 stands for the star.\<close>

definition parseContentRange :: "string \<Rightarrow> (string \<times> int \<times> int \<times> int) option" where
  "parseContentRange v =
     (case cut CHR '' '' (trim_space v) of
        None \<Rightarrow> None
      | Some (u, rest) \<Rightarrow>
          if u = [] then None
          else case cut CHR ''/'' rest of
              None \<Rightarrow> None
            | Some (rangePart, totalPart) \<Rightarrow>
                (case cut CHR ''-'' rangePart of
                   None \<Rightarrow> None
                 | Some (startPart, endPart) \<Rightarrow>
                     (case atoi startPart of
                        None \<Rightarrow> None
                      | Some s \<Rightarrow>
                          (case atoi endPart of
                             None \<Rightarrow> None
                           | Some e \<Rightarrow>
                               if totalPart = ''*'' then Some (lower u, s, e, -1)
                               else map_option (\<lambda>tot. (lower u, s, e, tot)) (atoi totalPart)))))"

text \<open>A response: its status, its declared length (-1 when unknown), the headers the code reads.\<close>

record http_response =
  StatusCode :: int
  ContentLength :: int
  h_encoding :: string
  h_type :: string
  h_range :: string
  h_retryAfter :: string

fun starts_with :: "string \<Rightarrow> string \<Rightarrow> bool" where
  "starts_with [] s = True"
| "starts_with (p # ps) [] = False"
| "starts_with (p # ps) (c # cs) = (p = c \<and> starts_with ps cs)"

definition validateSegmentResponse :: "http_response \<Rightarrow> byte_range option \<Rightarrow> go_error option" where
  "validateSegmentResponse resp br =
     (if h_encoding resp \<noteq> [] \<and> lower (trim_space (h_encoding resp)) \<noteq> ''identity'' then Some [CInvalidSegment]
      else if starts_with ''multipart/'' (lower (trim_space (h_type resp))) then Some [CInvalidSegment]
      else case br of
          None \<Rightarrow> None
        | Some r \<Rightarrow>
            (case parseContentRange (h_range resp) of
               None \<Rightarrow> Some [CInvalidSegment]
             | Some (u, s, e, tot) \<Rightarrow>
                 if u \<noteq> ''bytes'' \<or> s \<noteq> br_offset r \<or> e \<noteq> sub64 (add64 (br_offset r) (br_length r)) 1
                 then Some [CInvalidSegment]
                 else if tot \<ge> 0 \<and> tot \<le> e then Some [CInvalidSegment]
                 else if ContentLength resp \<ge> 0 \<and> ContentLength resp \<noteq> br_length r then Some [CInvalidSegment]
                 else None))"

section \<open>The run of an attempt\<close>

text \<open>What only the owning worker touches: the outcome and the credit of its attempt.\<close>

record attempt_ledger =
  accepted :: bool
  duplicate :: bool
  ingestRes :: ingest_result
  credited :: int

record media_run =
  r_sess :: worker_session
  r_ledger :: attempt_ledger
  Downloaded :: int
  VerifiedProgress :: int
  r_hosts :: host_limiter
  r_keys :: key_cache
  r_window :: window

text \<open>
  One \<open>Read\<close> of a body: the octets it has (no more than the buffer asks for are taken), its error,
  the limiter's answer for them, whether the flush interval has passed, and what controllers did to
  the session while the worker was blocked in it.
\<close>

record body_read =
  rd_bytes :: bytes
  rd_err :: "go_error option"
  rd_throttle :: "go_error option"
  rd_due :: bool
  rd_control :: "worker_session \<Rightarrow> worker_session"

text \<open>
  What the network, the clock and the controllers contribute to one attempt: the request builder's
  and the transport's answers, the sleeps, the block cipher, and what was done to the session
  between the last read and the gate.
\<close>

record media_env =
  me_gen :: nat
  me_now :: int
  me_now2 :: int
  me_host :: "string \<Rightarrow> string"
  me_sleep :: "string \<Rightarrow> go_error option"
  me_request :: "string \<Rightarrow> go_error option"
  me_response :: "string \<Rightarrow> go_error + (http_response \<times> body_read list)"
  me_limiter :: bool
  me_dec :: "bytes \<Rightarrow> bytes \<Rightarrow> bytes"
  me_control :: "worker_session \<Rightarrow> worker_session"

definition on_sess :: "(worker_session \<Rightarrow> worker_session) \<Rightarrow> media_run \<Rightarrow> media_run" where
  "on_sess f r = r\<lparr>r_sess := f (r_sess r)\<rparr>"

definition throttle :: "media_env \<Rightarrow> go_error option \<Rightarrow> media_run \<Rightarrow> go_error option \<times> media_run" where
  "throttle env answer r =
     (if \<not> me_limiter env then (None, r)
      else (answer, on_sess (\<lambda>s. throttle_leave (me_gen env) (me_now env) (throttle_enter (me_gen env) (me_now env) s)) r))"

definition waitHostPenalty :: "media_env \<Rightarrow> string \<Rightarrow> media_run \<Rightarrow> go_error option \<times> media_run" where
  "waitHostPenalty env uri r =
     (let until = BlockedUntil (me_host env uri) (me_now env) (r_hosts r) in
      if until = zero_time then (None, r)
      else if time_sub until (me_now2 env) \<le> 0 then (None, r)
      else (me_sleep env uri,
            on_sess (\<lambda>s. throttle_leave (me_gen env) (me_now env) (throttle_enter (me_gen env) (me_now env) s)) r))"

definition hlsWorkerBatchSize :: int where
  "hlsWorkerBatchSize = 64 * 1024"

definition flush :: "int \<Rightarrow> media_run \<Rightarrow> int \<times> media_run" where
  "flush pend r =
     (if pend \<le> 0 then (pend, r)
      else (0, r\<lparr>Downloaded := add64 (Downloaded r) pend, VerifiedProgress := add64 (VerifiedProgress r) pend,
                 r_ledger := (r_ledger r)\<lparr>credited := credited (r_ledger r) + pend\<rparr>\<rparr>))"

definition note_bytes :: "media_env \<Rightarrow> int \<Rightarrow> media_run \<Rightarrow> media_run" where
  "note_bytes env n r =
     on_sess (\<lambda>s. (noteActivity (me_gen env) (me_now env) s)\<lparr>sessionBytes := add64 (sessionBytes s) n,
                     windowBytes := add64 (windowBytes s) n\<rparr>) r"

text \<open>The read loop: the body read so far and the octets not yet credited, or an error.\<close>

fun read_loop ::
  "media_env \<Rightarrow> byte_range option \<Rightarrow> bytes \<Rightarrow> int \<Rightarrow> body_read list \<Rightarrow> media_run \<Rightarrow>
    (go_error + (bytes \<times> int)) \<times> media_run" where
  "read_loop env br buf pend [] r = (Inr (buf, fst (flush pend r)), snd (flush pend r))"
| "read_loop env br buf pend (rd # rds) r =
     (let (pend1, r0) = flush pend r;
          r1 = on_sess (rd_control rd) r0;
          room = (case br of None \<Rightarrow> hlsWorkerBatchSize
                  | Some b \<Rightarrow> sub64 (add64 (br_length b) 1) (int (length buf)))
      in if br \<noteq> None \<and> room \<le> 0 then (Inr (buf, pend1), r0)
         else let got = take (nat (min hlsWorkerBatchSize room)) (rd_bytes rd);
                  n = int (length got);
                  buf1 = buf @ got;
                  (terr, r2) = (if n > 0 then throttle env (rd_throttle rd) (note_bytes env n r1) else (None, r1))
              in case terr of
                  Some e \<Rightarrow> (Inl e, r2)
                | None \<Rightarrow>
                    (let pend2 = pend1 + n;
                         (pend3, r3) = (if n > 0 \<and> (pend2 \<ge> hlsWorkerBatchSize \<or> rd_due rd) then flush pend2 r2
                                        else (pend2, r2))
                     in case rd_err rd of
                         Some e \<Rightarrow> (if CEOF \<in> set e then (Inr (buf1, pend3), r3) else (Inl e, r3))
                       | None \<Rightarrow> if n = 0 then (Inl [CNoProgress], r3)
                                 else read_loop env br buf1 pend3 rds r3))"

definition body_size_error :: "byte_range option \<Rightarrow> int \<Rightarrow> int \<Rightarrow> go_error option" where
  "body_size_error br contentLength got =
     (case br of
        Some b \<Rightarrow> (if got > br_length b then Some [CInvalidSegment]
                   else if got < br_length b then Some [CUnexpectedEOF] else None)
      | None \<Rightarrow> (if contentLength \<ge> 0 \<and> got < contentLength then Some [CUnexpectedEOF] else None))"

section \<open>Keys over the network\<close>

definition hlsKeyProbeBytes :: nat where
  "hlsKeyProbeBytes = BlockSize + 1"

definition note_read :: "media_env \<Rightarrow> media_run \<Rightarrow> media_run" where
  "note_read env r = on_sess (noteActivity (me_gen env) (me_now env)) r"

fun key_loop :: "media_env \<Rightarrow> bytes \<Rightarrow> body_read list \<Rightarrow> media_run \<Rightarrow> (go_error + bytes) \<times> media_run" where
  "key_loop env buf [] r = (Inr buf, r)"
| "key_loop env buf (rd # rds) r =
     (let got = take (hlsKeyProbeBytes - length buf) (rd_bytes rd);
          buf1 = buf @ got;
          r0 = on_sess (rd_control rd) r;
          (terr, r1) = (if got \<noteq> [] then throttle env (rd_throttle rd) (note_read env r0) else (None, r0))
      in case terr of
          Some e \<Rightarrow> (Inl e, r1)
        | None \<Rightarrow>
            (let r2 = (if got \<noteq> [] then note_read env r1 else r1)
             in case rd_err rd of
                 Some e \<Rightarrow> (if CEOF \<in> set e then (Inr buf1, r2) else (Inl e, r2))
               | None \<Rightarrow>
                   if length buf1 \<ge> hlsKeyProbeBytes then (Inr buf1, r2)
                   else if got = [] then (Inl [CNoProgress], r2)
                   else key_loop env buf1 rds r2))"

definition fetchHLSKey :: "media_env \<Rightarrow> int \<Rightarrow> string \<Rightarrow> media_run \<Rightarrow> (go_error + bytes) \<times> media_run" where
  "fetchHLSKey env segIndex uri r =
     (case me_request env uri of
        Some e \<Rightarrow> (Inl e, r)
      | None \<Rightarrow>
          let r1 = on_sess (noteStatus (me_gen env) 0) r in
          (case me_response env uri of
             Inl e \<Rightarrow> (Inl (CNet # e), r1)
           | Inr (resp, reads) \<Rightarrow>
               let r2 = on_sess (noteStatus (me_gen env) (StatusCode resp)) (note_read env r1) in
               if StatusCode resp \<noteq> 200 then
                 (if StatusCode resp \<ge> 200 \<and> StatusCode resp < 400 then (Inl [CInvalidSegment], r2)
                  else (Inl [CStatus \<lparr>se_resource = ''key'', se_index = segIndex, se_status = StatusCode resp,
                          se_retryAfter = h_retryAfter resp, se_host = me_host env uri\<rparr>], r2))
               else (case key_loop env [] reads r2 of
                       (Inl e, r3) \<Rightarrow> (Inl e, r3)
                     | (Inr buf, r3) \<Rightarrow>
                         if length buf \<noteq> BlockSize then (Inl [CData], r3) else (Inr buf, r3))))"

definition key_fetch :: "media_env \<Rightarrow> hls_segment \<Rightarrow> string \<Rightarrow> media_run \<Rightarrow> (go_error + bytes) \<times> media_run" where
  "key_fetch env seg uri r =
     (case waitHostPenalty env uri r of
        (Some e, r1) \<Rightarrow> (Inl e, r1)
      | (None, r1) \<Rightarrow>
          (case fetchHLSKey env (Index seg) uri (on_sess (setPhase PhaseNetwork) r1) of
             (res, r2) \<Rightarrow>
               let r3 = on_sess (setPhase PhaseDecrypt) r2 in
               (res, if isl res then r3 else r3\<lparr>r_hosts := recordSuccess (me_host env uri) (me_now2 env) (r_hosts r3)\<rparr>)))"

section \<open>The attempt\<close>

definition window_cause :: "window_error \<Rightarrow> go_error" where
  "window_cause e =
     (case e of WindowClosed \<Rightarrow> [CWindowClosed] | IndexOutOfRange i \<Rightarrow> [COther ''index''] | EmptyPayload i \<Rightarrow> [CData]
      | OffsetOverflow \<Rightarrow> [COffsetOverflow] | StorageError op \<Rightarrow> [CStorage])"

definition seg_done :: "nat \<Rightarrow> worker_session \<Rightarrow> bool" where
  "seg_done g s \<longleftrightarrow> s_cancelled s \<or> (case s_attempts s g of None \<Rightarrow> False | Some a \<Rightarrow> cancel_fired a)"

text \<open>The deferred roll-back: every exit before acceptance returns the credit.\<close>

definition rollback :: "media_run \<Rightarrow> media_run" where
  "rollback r =
     (if \<not> accepted (r_ledger r) \<and> credited (r_ledger r) \<noteq> 0
      then r\<lparr>Downloaded := sub64 (Downloaded r) (credited (r_ledger r)),
             VerifiedProgress := sub64 (VerifiedProgress r) (credited (r_ledger r)),
             r_ledger := (r_ledger r)\<lparr>credited := 0\<rparr>\<rparr>
      else r)"

definition pad_correction :: "int \<Rightarrow> media_run \<Rightarrow> media_run" where
  "pad_correction padLen r =
     (if padLen > 0
      then r\<lparr>Downloaded := sub64 (Downloaded r) padLen, VerifiedProgress := sub64 (VerifiedProgress r) padLen,
             r_ledger := (r_ledger r)\<lparr>credited := credited (r_ledger r) - padLen\<rparr>\<rparr>
      else r)"

definition commit_plain :: "media_env \<Rightarrow> hls_segment \<Rightarrow> bytes \<Rightarrow> media_run \<Rightarrow> (go_error option \<times> media_run) option" where
  "commit_plain env seg plain r0 =
     (let r = on_sess (me_control env) r0 in
      if seg_done (me_gen env) (r_sess r) then Some (Some [CCanceled], r)
      else let (ok, s1) = enterCommit (me_gen env) (r_sess r); r1 = r\<lparr>r_sess := s1\<rparr> in
        if \<not> ok then Some (Some [CCanceled], r1)
        else (case Ingest (Index seg) plain (r_window r1) of
            None \<Rightarrow> None
          | Some ((res, ierr), w) \<Rightarrow>
              let r2 = (note_read env r1)\<lparr>r_window := w, r_ledger := (r_ledger r1)\<lparr>ingestRes := res\<rparr>\<rparr>;
                  err = map_option window_cause ierr
              in if Accepted res then Some (err, r2\<lparr>r_ledger := (r_ledger r2)\<lparr>accepted := True\<rparr>\<rparr>)
                 else if Duplicate res \<and> err = None
                 then Some (None, r2\<lparr>r_ledger := (r_ledger r2)\<lparr>duplicate := True\<rparr>\<rparr>)
                 else if err \<noteq> None then Some (err, r2)
                 else Some (Some [CContract], r2)))"

definition finish_body ::
  "media_env \<Rightarrow> hls_segment \<Rightarrow> hls_key list \<Rightarrow> bytes \<Rightarrow> media_run \<Rightarrow> (go_error option \<times> media_run) option" where
  "finish_body env seg ks buf r =
     (case keyTable (Some seg) ks (key_fetch env seg) (r_keys r) (on_sess (setPhase PhaseDecrypt) r) of
        (Inl e, cache, r1) \<Rightarrow> Some (Some e, r1\<lparr>r_keys := cache\<rparr>)
      | (Inr table, cache, r1) \<Rightarrow>
          (case decryptSegmentInPlace (me_dec env) buf (Some seg) table of
             Inl e \<Rightarrow> Some (Some [CData], r1\<lparr>r_keys := cache\<rparr>)
           | Inr (plain, padLen) \<Rightarrow> commit_plain env seg plain (pad_correction padLen (r1\<lparr>r_keys := cache\<rparr>))))"

definition media_body ::
  "media_env \<Rightarrow> hls_segment \<Rightarrow> hls_key list \<Rightarrow> byte_range option \<Rightarrow> http_response \<Rightarrow> body_read list \<Rightarrow> media_run \<Rightarrow>
    (go_error option \<times> media_run) option" where
  "media_body env seg ks br resp reads r =
     (case read_loop env br [] 0 reads r of
        (Inl e, r1) \<Rightarrow> Some (Some e, r1)
      | (Inr (buf, pend), r1) \<Rightarrow>
          let r2 = snd (flush pend r1) in
          (case body_size_error br (ContentLength resp) (int (length buf)) of
             Some e \<Rightarrow> Some (Some e, r2)
           | None \<Rightarrow> finish_body env seg ks buf r2))"

text \<open>\<open>execMediaAttempt\<close> from its snapshot of the segment and the key table on.\<close>

definition execMediaAttempt ::
  "media_env \<Rightarrow> hls_segment \<Rightarrow> hls_key list \<Rightarrow> media_run \<Rightarrow> (go_error option \<times> media_run) option" where
  "execMediaAttempt env seg ks r =
     (case hlsSegmentByteRange seg of
        Inl e \<Rightarrow> Some (Some e, r)
      | Inr br \<Rightarrow>
          (case waitHostPenalty env (URI seg) r of
             (Some e, r1) \<Rightarrow> Some (Some e, r1)
           | (None, r1) \<Rightarrow>
               let r2 = on_sess (setPhase PhaseNetwork) r1 in
               (case me_request env (URI seg) of
                  Some e \<Rightarrow> Some (Some e, r2)
                | None \<Rightarrow>
                    let r3 = on_sess (noteStatus (me_gen env) 0) r2 in
                    (case me_response env (URI seg) of
                       Inl e \<Rightarrow> Some (Some (CNet # e), r3)
                     | Inr (resp, reads) \<Rightarrow>
                         let r4 = on_sess (noteStatus (me_gen env) (StatusCode resp)) (note_read env r3) in
                         if StatusCode resp \<noteq> (if br = None then 200 else 206) then
                           (if StatusCode resp \<ge> 400
                            then Some (Some [CStatus \<lparr>se_resource = ''segment'', se_index = Index seg,
                                   se_status = StatusCode resp, se_retryAfter = h_retryAfter resp,
                                   se_host = me_host env (URI seg)\<rparr>], r4)
                            else Some (Some [CInvalidSegment], r4))
                         else (case validateSegmentResponse resp br of
                             Some e \<Rightarrow> Some (Some e, r4)
                           | None \<Rightarrow>
                               map_option (\<lambda>(err, r5). (err, rollback r5))
                                 (media_body env seg ks br resp reads
                                    (r4\<lparr>r_hosts := recordSuccess (me_host env (URI seg)) (me_now2 env) (r_hosts r4)\<rparr>)))))))"

section \<open>What the parts of an attempt leave alone\<close>

definition frame :: "media_run \<Rightarrow> media_run \<Rightarrow> bool" where
  "frame r r' \<longleftrightarrow> r_ledger r' = r_ledger r \<and> Downloaded r' = Downloaded r \<and> VerifiedProgress r' = VerifiedProgress r \<and>
     r_window r' = r_window r"

lemma frame_refl [simp]: "frame r r"
  by (simp add: frame_def)

lemma frame_trans: "frame r s \<Longrightarrow> frame s t \<Longrightarrow> frame r t"
  by (simp add: frame_def)

lemma frame_sess [simp]: "frame r (on_sess f r)" "frame r (note_read env r)" "frame r (note_bytes env n r)"
  by (simp_all add: frame_def on_sess_def note_read_def note_bytes_def)

lemma frame_fields [simp]: "frame r (r\<lparr>r_hosts := h\<rparr>)" "frame r (r\<lparr>r_keys := k\<rparr>)"
  by (simp_all add: frame_def)

lemma throttle_frame: "throttle env e r = (x, r') \<Longrightarrow> frame r r'"
  by (auto simp: throttle_def split: if_splits)

lemma wait_frame: "waitHostPenalty env u r = (x, r') \<Longrightarrow> frame r r'"
  by (auto simp: waitHostPenalty_def Let_def split: if_splits)

lemma key_loop_frame: "key_loop env buf rds r = (x, r') \<Longrightarrow> frame r r'"
proof (induction env buf rds r arbitrary: x r' rule: key_loop.induct)
  case (1 env buf r)
  then show ?case by simp
next
  case (2 env buf rd rds r)
  define got where "got = take (hlsKeyProbeBytes - length buf) (rd_bytes rd)"
  define r0 where "r0 = on_sess (rd_control rd) r"
  obtain terr r1 where t: "(if got \<noteq> [] then throttle env (rd_throttle rd) (note_read env r0) else (None, r0)) = (terr, r1)"
    by fastforce
  have "frame r0 r1" using t throttle_frame[of env "rd_throttle rd" "note_read env r0" terr r1]
    by (auto intro: frame_trans[OF frame_sess(2)] split: if_splits)
  then have f1: "frame r r1" using frame_trans frame_sess(1) unfolding r0_def by blast
  define r2 where "r2 = (if got \<noteq> [] then note_read env r1 else r1)"
  have f2: "frame r r2" using f1 by (auto simp: r2_def intro: frame_trans)
  have e: "key_loop env buf (rd # rds) r =
    (case terr of Some e \<Rightarrow> (Inl e, r1)
     | None \<Rightarrow> (case rd_err rd of
                 Some e \<Rightarrow> (if CEOF \<in> set e then (Inr (buf @ got), r2) else (Inl e, r2))
               | None \<Rightarrow>
                   if length (buf @ got) \<ge> hlsKeyProbeBytes then (Inr (buf @ got), r2)
                   else if got = [] then (Inl [CNoProgress], r2)
                   else key_loop env (buf @ got) rds r2))"
    by (subst key_loop.simps) (simp only: Let_def got_def[symmetric] r0_def[symmetric] t prod.case r2_def)
  show ?case
  proof (cases "terr = None \<and> rd_err rd = None \<and> length (buf @ got) < hlsKeyProbeBytes \<and> got \<noteq> []")
    case True
    then have "key_loop env (buf @ got) rds r2 = (x, r')" using 2(2) unfolding e by simp
    moreover have "key_loop env (buf @ got) rds r2 = (y, r'') \<Longrightarrow> frame r2 r''" for y r''
      using True t by (intro 2(1)[OF refl refl refl]) (auto simp: got_def r2_def r0_def)
    ultimately show ?thesis using f2 frame_trans by blast
  next
    case False
    then have "r' = r1 \<or> r' = r2" using 2(2) unfolding e by (auto split: option.splits if_splits)
    then show ?thesis using f1 f2 by blast
  qed
qed

lemma fetchHLSKey_frame: "fetchHLSKey env i u r = (x, r') \<Longrightarrow> frame r r'"
proof -
  assume a: "fetchHLSKey env i u r = (x, r')"
  define r1 where "r1 = on_sess (noteStatus (me_gen env) 0) r"
  have f1: "frame r r1" by (simp add: r1_def)
  define r2 where "r2 resp = on_sess (noteStatus (me_gen env) (StatusCode resp)) (note_read env r1)" for resp :: http_response
  have f2: "frame r (r2 resp)" for resp
    unfolding r2_def by (rule frame_trans[OF frame_trans[OF f1 frame_sess(2)] frame_sess(1)])
  show ?thesis
  proof (cases "me_request env u")
    case (Some e)
    then show ?thesis using a by (simp add: fetchHLSKey_def)
  next
    case None
    show ?thesis
    proof (cases "me_response env u")
      case (Inl e)
      then show ?thesis using a None f1 by (simp add: fetchHLSKey_def r1_def Let_def)
    next
      case (Inr p)
      obtain resp reads where p: "p = (resp, reads)" by fastforce
      obtain y r3 where k: "key_loop env [] reads (r2 resp) = (y, r3)" by fastforce
      have f3: "frame r r3" using f2 key_loop_frame[OF k] frame_trans by blast
      have "r' = r2 resp \<or> r' = r3"
        using a None Inr p k
        by (auto simp: fetchHLSKey_def Let_def r1_def[symmetric] r2_def split: if_splits sum.splits)
      then show ?thesis using f2 f3 by blast
    qed
  qed
qed

lemma key_fetch_frame: "key_fetch env sg u r = (x, r') \<Longrightarrow> frame r r'"
proof -
  assume a: "key_fetch env sg u r = (x, r')"
  obtain w r1 where w: "waitHostPenalty env u r = (w, r1)" by fastforce
  obtain res r2 where k: "fetchHLSKey env (Index sg) u (on_sess (setPhase PhaseNetwork) r1) = (res, r2)" by fastforce
  have f: "frame r r1" "frame r r2"
    using wait_frame[OF w] fetchHLSKey_frame[OF k] frame_trans frame_sess(1) by blast+
  have "frame r2 (on_sess (setPhase PhaseDecrypt) r2)"
    "frame r2 ((on_sess (setPhase PhaseDecrypt) r2)\<lparr>r_hosts := h\<rparr>)" for h
    using frame_trans[OF frame_sess(1) frame_fields(1)] by simp_all
  then have g: "frame r (on_sess (setPhase PhaseDecrypt) r2)"
    "frame r ((on_sess (setPhase PhaseDecrypt) r2)\<lparr>r_hosts := h\<rparr>)" for h
    using f(2) frame_trans by blast+
  show ?thesis using a f(1) g by (auto simp: key_fetch_def w k Let_def split: option.splits if_splits)
qed

lemma keyTable_state:
  assumes "keyTable sg ks fetch c s = (x, c', s')" and "\<And>u y t. fetch u s = (y, t) \<Longrightarrow> P t" and "P s"
  shows "P s'"
  using assms by (auto simp: keyTable_def Let_def split: option.splits if_splits prod.splits sum.splits)

section \<open>Credit\<close>

lemma wrap64_add [simp]: "wrap64 (wrap64 a + b) = wrap64 (a + b)"
  by (simp add: wrap64_sint)

lemma wrap64_sub [simp]: "wrap64 (wrap64 a - b) = wrap64 (a - b)"
  by (simp add: wrap64_sint)

definition counts :: "int \<Rightarrow> int \<Rightarrow> media_run \<Rightarrow> bool" where
  "counts d v r \<longleftrightarrow> Downloaded r = wrap64 (d + credited (r_ledger r)) \<and> VerifiedProgress r = wrap64 (v + credited (r_ledger r))"

lemma frame_counts: "frame r r' \<Longrightarrow> counts d v r \<Longrightarrow> counts d v r'"
  by (simp add: frame_def counts_def)

definition fetching :: "int \<Rightarrow> int \<Rightarrow> window \<Rightarrow> bytes \<Rightarrow> int \<Rightarrow> media_run \<Rightarrow> bool" where
  "fetching d v w buf pend r \<longleftrightarrow> counts d v r \<and> 0 \<le> pend \<and> credited (r_ledger r) + pend = int (length buf) \<and>
     \<not> accepted (r_ledger r) \<and> \<not> duplicate (r_ledger r) \<and> r_window r = w"

lemma frame_fetching: "frame r r' \<Longrightarrow> fetching d v w buf pend r \<Longrightarrow> fetching d v w buf pend r'"
  by (auto simp: fetching_def frame_counts) (auto simp: frame_def)

lemma flush_fetching: "fetching d v w buf pend r \<Longrightarrow> flush pend r = (pend', r') \<Longrightarrow> fetching d v w buf pend' r' \<and> pend' = 0"
  by (auto simp: flush_def fetching_def counts_def add.assoc split: if_splits)

lemma fetching_more:
  "fetching d v w buf pend r \<Longrightarrow> fetching d v w (buf @ got) (pend + int (length got)) r"
  by (simp add: fetching_def)

definition fetched :: "int \<Rightarrow> int \<Rightarrow> window \<Rightarrow> (go_error + (bytes \<times> int)) \<times> media_run \<Rightarrow> bool" where
  "fetched d v w x = (case x of (Inl e, r) \<Rightarrow> \<exists>buf pend. fetching d v w buf pend r
     | (Inr (buf, pend), r) \<Rightarrow> fetching d v w buf pend r)"

lemma read_loop_fetched: "fetching d v w buf pend r \<Longrightarrow> fetched d v w (read_loop env br buf pend rds r)"
proof (induction env br buf pend rds r rule: read_loop.induct)
  case (1 env br buf pend r)
  obtain p' r' where "flush pend r = (p', r')" by fastforce
  then show ?case using flush_fetching[OF 1] by (auto simp: fetched_def)
next
  case (2 env br buf pend rd rds r)
  obtain pend1 r0 where fl: "flush pend r = (pend1, r0)" by fastforce
  have f0: "fetching d v w buf pend1 r0" using flush_fetching[OF 2(2) fl] by blast
  define r1 where "r1 = on_sess (rd_control rd) r0"
  have f1: "fetching d v w buf pend1 r1" unfolding r1_def by (rule frame_fetching[OF frame_sess(1) f0])
  define room where "room = (case br of None \<Rightarrow> hlsWorkerBatchSize
                  | Some b \<Rightarrow> sub64 (add64 (br_length b) 1) (int (length buf)))"
  define got where "got = take (nat (min hlsWorkerBatchSize room)) (rd_bytes rd)"
  define n where "n = int (length got)"
  obtain terr r2 where t: "(if n > 0 then throttle env (rd_throttle rd) (note_bytes env n r1) else (None, r1)) = (terr, r2)"
    by fastforce
  have "frame r1 r2" using t throttle_frame[of env "rd_throttle rd" "note_bytes env n r1" terr r2]
    by (auto intro: frame_trans[OF frame_sess(3)] split: if_splits)
  then have f2: "fetching d v w buf pend1 r2" using f1 frame_fetching by blast
  have f2': "fetching d v w (buf @ got) (pend1 + n) r2" unfolding n_def by (rule fetching_more[OF f2])
  obtain pend3 r3 where p: "(if n > 0 \<and> (pend1 + n \<ge> hlsWorkerBatchSize \<or> rd_due rd) then flush (pend1 + n) r2
                        else (pend1 + n, r2)) = (pend3, r3)" by fastforce
  have f3: "fetching d v w (buf @ got) pend3 r3"
    using p f2' flush_fetching[OF f2', of pend3 r3] by (auto split: if_splits)
  have e: "read_loop env br buf pend (rd # rds) r =
    (if br \<noteq> None \<and> room \<le> 0 then (Inr (buf, pend1), r0)
     else case terr of
                  Some e \<Rightarrow> (Inl e, r2)
                | None \<Rightarrow> (case rd_err rd of
                         Some e \<Rightarrow> (if CEOF \<in> set e then (Inr (buf @ got, pend3), r3) else (Inl e, r3))
                       | None \<Rightarrow> if n = 0 then (Inl [CNoProgress], r3)
                                 else read_loop env br (buf @ got) pend3 rds r3))"
    by (subst read_loop.simps) (simp only: Let_def fl r1_def[symmetric] room_def[symmetric] got_def[symmetric] n_def[symmetric] t p prod.case)
  have ih: "fetched d v w (read_loop env br (buf @ got) pend3 rds r3)"
    if "\<not> (br \<noteq> None \<and> room \<le> 0)" "terr = None" "rd_err rd = None" "n \<noteq> 0"
    by (rule 2(1)[OF refl fl[symmetric] r1_def room_def _ got_def n_def refl refl t[symmetric] _ refl refl p[symmetric]])
       (use that f3 in auto)
  show ?case unfolding e using f0 f2 f3 ih by (auto simp: fetched_def split: option.splits)
qed

text \<open>
  How an attempt ends, for the counters at its start: not accepted, with no credit and the window
  as Ingest left it, or accepted with the credit of the payload the window took.
\<close>

definition undone :: "int \<Rightarrow> int \<Rightarrow> media_run \<Rightarrow> bool" where
  "undone d v r \<longleftrightarrow> \<not> accepted (r_ledger r) \<and> Downloaded r = wrap64 d \<and> VerifiedProgress r = wrap64 v \<and>
     credited (r_ledger r) = 0"

definition banked :: "int \<Rightarrow> int \<Rightarrow> bytes \<Rightarrow> media_run \<Rightarrow> bool" where
  "banked d v plain r \<longleftrightarrow> accepted (r_ledger r) \<and> Downloaded r = wrap64 (d + int (length plain)) \<and>
     VerifiedProgress r = wrap64 (v + int (length plain)) \<and> credited (r_ledger r) = int (length plain)"

definition took :: "hls_segment \<Rightarrow> window \<Rightarrow> bytes \<Rightarrow> media_run \<Rightarrow> bool" where
  "took sg w plain r \<longleftrightarrow> (\<exists>res ierr. Ingest (Index sg) plain w = Some ((res, ierr), r_window r) \<and> Accepted res)"

lemma rollback_undone: "counts d v r \<Longrightarrow> \<not> accepted (r_ledger r) \<Longrightarrow> undone d v (rollback r)"
  by (simp add: rollback_def counts_def undone_def)

lemma rollback_window [simp]: "r_window (rollback r) = r_window r"
  by (simp add: rollback_def)

lemma rollback_sess [simp]: "r_sess (rollback r) = r_sess r"
  by (simp add: rollback_def)

lemma rollback_banked: "banked d v plain r \<Longrightarrow> rollback r = r"
  by (simp add: rollback_def banked_def)

text \<open>The gate: nothing is ingested unless the session lets the attempt through.\<close>

definition gate_open :: "media_env \<Rightarrow> media_run \<Rightarrow> bool" where
  "gate_open env r \<longleftrightarrow> (let s = me_control env (r_sess r)
     in \<not> seg_done (me_gen env) s \<and> fst (enterCommit (me_gen env) s))"

text \<open>The session has the attempt stopped: a stop is recorded on it, its context is cancelled, or the
  session's is.\<close>

definition halted :: "nat \<Rightarrow> worker_session \<Rightarrow> bool" where
  "halted g s \<longleftrightarrow> seg_done g s \<or> (case s_attempts s g of None \<Rightarrow> False | Some a \<Rightarrow> stopReason a \<noteq> StopNone)"

lemma halted_note: "halted g (noteActivity g n s) = halted g s"
  by (auto simp: halted_def seg_done_def noteActivity_def store_attempt_def cancel_fired_def split: option.splits)

lemma gate_not_halted: "\<not> seg_done g s \<Longrightarrow> enterCommit g s = (True, s1) \<Longrightarrow> \<not> halted g s1"
  by (auto simp: halted_def seg_done_def enterCommit_def store_attempt_def cancel_fired_def split: option.splits if_splits)

lemma commit_plain_cases:
  assumes "commit_plain env sg plain r0 = Some (err, r)"
    and c: "counts d v r0" "credited (r_ledger r0) = int (length plain)" "\<not> accepted (r_ledger r0)"
  shows "(\<not> accepted (r_ledger r) \<and> counts d v r \<and> (halted (me_gen env) (r_sess r) \<longrightarrow> err = Some [CCanceled] \<and> r_window r = r_window r0))
    \<or> (\<not> halted (me_gen env) (r_sess r) \<and> banked d v plain r \<and> took sg (r_window r0) plain r)"
proof -
  define r1 where "r1 = on_sess (me_control env) r0"
  have f1: "frame r0 r1" by (simp add: r1_def)
  obtain ok s1 where g: "enterCommit (me_gen env) (r_sess r1) = (ok, s1)" by fastforce
  define r2 where "r2 = r1\<lparr>r_sess := s1\<rparr>"
  have f2: "frame r0 r2" using f1 by (simp add: frame_def r2_def)
  have go: "gate_open env r0 \<longleftrightarrow> \<not> seg_done (me_gen env) (r_sess r1) \<and> ok"
    using g by (simp add: gate_open_def r1_def on_sess_def Let_def)
  show ?thesis
  proof (cases "gate_open env r0")
    case False
    then have "(err = Some [CCanceled]) \<and> (r = r1 \<or> r = r2)"
      using assms(1) go g by (auto simp: commit_plain_def Let_def r1_def[symmetric] r2_def split: if_splits)
    moreover have "frame r0 r" using calculation f1 f2 by blast
    ultimately show ?thesis using c(1,3) frame_counts[of r0 r] by (simp add: frame_def)
  next
    case True
    then obtain res ierr w where i: "Ingest (Index sg) plain (r_window r2) = Some ((res, ierr), w)"
      using assms(1) go g by (auto simp: commit_plain_def Let_def r1_def[symmetric] r2_def split: option.splits prod.splits)
    define r3 where "r3 = (note_read env r2)\<lparr>r_window := w, r_ledger := (r_ledger r2)\<lparr>ingestRes := res\<rparr>\<rparr>"
    have r3: "r_window r3 = w" "credited (r_ledger r3) = credited (r_ledger r0)" "accepted (r_ledger r3) = accepted (r_ledger r0)"
      "Downloaded r3 = Downloaded r0" "VerifiedProgress r3 = VerifiedProgress r0"
      using f2 by (simp_all add: r3_def frame_def note_read_def on_sess_def)
    have "\<not> halted (me_gen env) s1" using gate_not_halted[of "me_gen env" "r_sess r1" s1] go True g by simp
    then have nh: "\<not> halted (me_gen env) (r_sess r3)"
      by (simp add: r3_def r2_def note_read_def on_sess_def halted_note)
    have w2: "r_window r2 = r_window r0" using f2 by (simp add: frame_def)
    have e: "Some (err, r) = (if Accepted res then Some (map_option window_cause ierr, r3\<lparr>r_ledger := (r_ledger r3)\<lparr>accepted := True\<rparr>\<rparr>)
                 else if Duplicate res \<and> map_option window_cause ierr = None
                 then Some (None, r3\<lparr>r_ledger := (r_ledger r3)\<lparr>duplicate := True\<rparr>\<rparr>)
                 else if map_option window_cause ierr \<noteq> None then Some (map_option window_cause ierr, r3)
                 else Some (Some [CContract], r3))"
    proof -
      have n: "seg_done (me_gen env) (r_sess r1) = False" "ok = True" using go True by blast+
      show ?thesis
        using assms(1)[symmetric]
        unfolding commit_plain_def Let_def r1_def[symmetric] g prod.case n if_False if_True not_True_eq_False
          r2_def[symmetric, unfolded n] i option.case r3_def[symmetric] .
    qed
    show ?thesis
    proof (cases "Accepted res")
      case True
      then have r: "r = r3\<lparr>r_ledger := (r_ledger r3)\<lparr>accepted := True\<rparr>\<rparr>" using e by simp
      have "took sg (r_window r0) plain r" using i True by (simp add: took_def r r3 w2)
      moreover have "banked d v plain r" using c by (simp add: banked_def r r3 counts_def)
      moreover have "\<not> halted (me_gen env) (r_sess r)" using nh r by simp
      ultimately show ?thesis by blast
    next
      case False
      then have r: "r = r3 \<or> r = r3\<lparr>r_ledger := (r_ledger r3)\<lparr>duplicate := True\<rparr>\<rparr>"
        using e by (auto split: if_splits)
      then have "\<not> accepted (r_ledger r)" "counts d v r" "\<not> halted (me_gen env) (r_sess r)"
        using c nh by (auto simp: r3 counts_def)
      then show ?thesis by blast
    qed
  qed
qed

definition cipher_blocks :: "media_env \<Rightarrow> bool" where
  "cipher_blocks env \<longleftrightarrow> (\<forall>k b. length b = 16 \<longrightarrow> length (me_dec env k b) = 16)"

definition ended ::
  "media_env \<Rightarrow> hls_segment \<Rightarrow> window \<Rightarrow> int \<Rightarrow> int \<Rightarrow> (bytes \<Rightarrow> bool) \<Rightarrow> go_error option \<Rightarrow> media_run \<Rightarrow> bool" where
  "ended env sg w d v P err r \<longleftrightarrow>
     (\<not> accepted (r_ledger r) \<and> counts d v r \<and> (halted (me_gen env) (r_sess r) \<longrightarrow> err \<noteq> None \<and> r_window r = w)) \<or>
     (\<not> halted (me_gen env) (r_sess r) \<and> (\<exists>plain. banked d v plain r \<and> took sg w plain r \<and> P plain))"

lemma ended_early: "\<not> accepted (r_ledger r) \<Longrightarrow> counts d v r \<Longrightarrow> r_window r = w \<Longrightarrow> ended env sg w d v P (Some e) r"
  by (simp add: ended_def)

lemma fetching_early: "fetching d v w buf pend r \<Longrightarrow> ended env sg w d v P (Some e) r"
  by (rule ended_early) (simp_all add: fetching_def)

lemma finish_body_ended:
  assumes "finish_body env sg ks buf r = Some (err, r')" and "cipher_blocks env" and "fetching d v w buf 0 r"
  shows "ended env sg w d v (\<lambda>plain. KeyIndex sg = 0 \<longrightarrow> plain = buf) err r'"
proof -
  obtain x cache r1 where k: "keyTable (Some sg) ks (key_fetch env sg) (r_keys r) (on_sess (setPhase PhaseDecrypt) r) = (x, cache, r1)"
    by (metis prod_cases3)
  have step: "frame (on_sess (setPhase PhaseDecrypt) r) r1"
    by (rule keyTable_state[OF k]) (use key_fetch_frame in auto)
  define r2 where "r2 = r1\<lparr>r_keys := cache\<rparr>"
  have "frame r r2" using frame_trans[OF frame_trans[OF frame_sess(1) step] frame_fields(2)] by (simp add: r2_def)
  then have f: "fetching d v w buf 0 r2" using frame_fetching assms(3) by blast
  note c = fetching_early[OF f]
  show ?thesis
  proof (cases x)
    case (Inl e)
    then show ?thesis using assms(1) c by (auto simp: finish_body_def k r2_def)
  next
    case (Inr table)
    show ?thesis
    proof (cases "decryptSegmentInPlace (me_dec env) buf (Some sg) table")
      case (Inl e)
      then show ?thesis using assms(1) c Inr by (auto simp: finish_body_def k r2_def)
    next
      case d: (Inr p)
      obtain plain pl where p: "p = (plain, pl)" by fastforce
      have dl: "int (length plain) + pl = int (length buf)" "KeyIndex sg = 0 \<longrightarrow> plain = buf" "0 \<le> pl"
      proof -
        have "int (length plain) + pl = int (length buf) \<and> (KeyIndex sg = 0 \<longrightarrow> plain = buf) \<and>
          (KeyIndex sg \<noteq> 0 \<longrightarrow> 1 \<le> pl \<and> pl \<le> 16)"
          by (rule decrypt_split[OF d[unfolded p]]) (use assms(2) in \<open>simp add: cipher_blocks_def\<close>)
        then show "int (length plain) + pl = int (length buf)" "KeyIndex sg = 0 \<longrightarrow> plain = buf" "0 \<le> pl"
          by (cases "KeyIndex sg = 0"; simp)+
      qed
      define r3 where "r3 = pad_correction pl r2"
      have r3: "counts d v r3" "credited (r_ledger r3) = int (length plain)" "\<not> accepted (r_ledger r3)" "r_window r3 = w"
        using f dl by (auto simp: r3_def pad_correction_def fetching_def counts_def add_diff_eq)
      have "commit_plain env sg plain r3 = Some (err, r')"
        using assms(1) Inr d p by (simp add: finish_body_def k r2_def[symmetric] r3_def)
      from commit_plain_cases[OF this r3(1-3)] show ?thesis
        using dl(2) r3(4) unfolding ended_def by auto
    qed
  qed
qed

lemma media_body_ended:
  assumes "media_body env sg ks br resp reads r = Some (err, r')" and "cipher_blocks env"
    and "fetching d v w [] 0 r"
  shows "ended env sg w d v (\<lambda>plain. KeyIndex sg = 0 \<and> br \<noteq> None \<longrightarrow> int (length plain) = br_length (the br)) err r'"
proof -
  obtain x r1 where l: "read_loop env br [] 0 reads r = (x, r1)" by fastforce
  have f: "fetched d v w (x, r1)" using read_loop_fetched[OF assms(3)] l by metis
  show ?thesis
  proof (cases x)
    case (Inl e)
    then show ?thesis using assms(1) f l by (auto simp: media_body_def fetched_def fetching_early)
  next
    case (Inr p)
    obtain buf pend where p: "p = (buf, pend)" by fastforce
    obtain pend' r2 where fl: "flush pend r1 = (pend', r2)" by fastforce
    have f2: "fetching d v w buf 0 r2"
      using f Inr p flush_fetching[of d v w buf pend r1 pend' r2] fl by (auto simp: fetched_def)
    show ?thesis
    proof (cases "body_size_error br (ContentLength resp) (int (length buf))")
      case (Some e)
      then show ?thesis using assms(1) fetching_early[OF f2, of env sg _ e] l Inr p fl by (simp add: media_body_def)
    next
      case None
      then have "finish_body env sg ks buf r2 = Some (err, r')" using assms(1) l Inr p fl by (simp add: media_body_def)
      from finish_body_ended[OF this assms(2) f2] have "ended env sg w d v (\<lambda>plain. KeyIndex sg = 0 \<longrightarrow> plain = buf) err r'" .
      moreover have "br \<noteq> None \<Longrightarrow> int (length buf) = br_length (the br)"
        using None by (auto simp: body_size_error_def split: if_splits)
      ultimately show ?thesis by (auto simp: ended_def)
    qed
  qed
qed

definition fresh_run :: "media_run \<Rightarrow> bool" where
  "fresh_run r \<longleftrightarrow> \<not> accepted (r_ledger r) \<and> \<not> duplicate (r_ledger r) \<and> credited (r_ledger r) = 0 \<and>
     in_i64 (Downloaded r) \<and> in_i64 (VerifiedProgress r)"

lemma ended_rollback:
  assumes "ended env sg w d v P err r"
  shows "undone d v (rollback r) \<and> (halted (me_gen env) (r_sess (rollback r)) \<longrightarrow> err \<noteq> None \<and> r_window (rollback r) = w) \<or>
    \<not> halted (me_gen env) (r_sess (rollback r)) \<and> (\<exists>plain. banked d v plain (rollback r) \<and> took sg w plain (rollback r) \<and> P plain)"
  using assms rollback_undone[of d v r] rollback_banked[of d v _ r] rollback_window[of r] rollback_sess[of r]
  unfolding ended_def by metis

lemma exec_ended:
  assumes x: "execMediaAttempt env sg ks r = Some (err, r')" and e: "cipher_blocks env" and f: "fresh_run r"
  shows "undone (Downloaded r) (VerifiedProgress r) r' \<and>
      (halted (me_gen env) (r_sess r') \<longrightarrow> err \<noteq> None \<and> r_window r' = r_window r) \<or>
    \<not> halted (me_gen env) (r_sess r') \<and> (\<exists>plain. banked (Downloaded r) (VerifiedProgress r) plain r' \<and> took sg (r_window r) plain r' \<and>
       (KeyIndex sg = 0 \<and> (ByteLength sg \<noteq> 0 \<or> ByteOffset sg \<noteq> 0) \<longrightarrow> int (length plain) = ByteLength sg))"
proof -
  let ?d = "Downloaded r" and ?v = "VerifiedProgress r" and ?w = "r_window r"
  have u: "undone ?d ?v s \<and> r_window s = ?w" if "frame r s" for s
    using that f by (simp add: undone_def frame_def fresh_run_def)
  show ?thesis
  proof (cases "hlsSegmentByteRange sg")
    case (Inl e)
    then show ?thesis using x u[of r] by (auto simp: execMediaAttempt_def)
  next
    case (Inr br)
    obtain wt r1 where wt: "waitHostPenalty env (URI sg) r = (wt, r1)" by fastforce
    define r2 where "r2 = on_sess (setPhase PhaseNetwork) r1"
    define r3 where "r3 = on_sess (noteStatus (me_gen env) 0) r2"
    have f1: "frame r r1" by (rule wait_frame[OF wt])
    then have f3: "frame r r2" "frame r r3"
      unfolding r3_def r2_def using frame_trans frame_sess(1) by blast+
    show ?thesis
    proof (cases "wt = None \<and> me_request env (URI sg) = None \<and> \<not> isl (me_response env (URI sg))")
      case False
      then consider e where "wt = Some e" | e where "wt = None" "me_request env (URI sg) = Some e"
        | e where "wt = None" "me_request env (URI sg) = None" "me_response env (URI sg) = Inl e"
        by (cases wt; cases "me_request env (URI sg)"; cases "me_response env (URI sg)") auto
      then have "(r' = r1 \<or> r' = r2 \<or> r' = r3) \<and> err \<noteq> None"
        by cases (use x[symmetric] Inr wt in \<open>simp_all add: execMediaAttempt_def Let_def r2_def[symmetric] r3_def[symmetric]\<close>)
      then show ?thesis using u f1 f3 by blast
    next
      case True
      then obtain resp reads where rr: "me_response env (URI sg) = Inr (resp, reads)"
        by (cases "me_response env (URI sg)") auto
      define r4 where "r4 = on_sess (noteStatus (me_gen env) (StatusCode resp)) (note_read env r3)"
      have f4: "frame r r4" unfolding r4_def
        by (rule frame_trans[OF frame_trans[OF f3(2) frame_sess(2)] frame_sess(1)])
      define r5 where "r5 = r4\<lparr>r_hosts := recordSuccess (me_host env (URI sg)) (me_now2 env) (r_hosts r4)\<rparr>"
      have f5: "frame r r5" unfolding r5_def by (rule frame_trans[OF f4 frame_fields(1)])
      have e4: "execMediaAttempt env sg ks r =
        (if StatusCode resp \<noteq> (if br = None then 200 else 206) then
           (if StatusCode resp \<ge> 400
            then Some (Some [CStatus \<lparr>se_resource = ''segment'', se_index = Index sg,
                   se_status = StatusCode resp, se_retryAfter = h_retryAfter resp, se_host = me_host env (URI sg)\<rparr>], r4)
            else Some (Some [CInvalidSegment], r4))
         else (case validateSegmentResponse resp br of
             Some e \<Rightarrow> Some (Some e, r4)
           | None \<Rightarrow> map_option (\<lambda>(err, r6). (err, rollback r6)) (media_body env sg ks br resp reads r5)))"
        unfolding execMediaAttempt_def using Inr wt True rr
        by (simp only: Let_def sum.case option.case prod.case r2_def[symmetric] r3_def[symmetric]
            r4_def[symmetric] r5_def[symmetric])
      show ?thesis
      proof (cases "StatusCode resp = (if br = None then 200 else 206) \<and> validateSegmentResponse resp br = None")
        case False
        then have "r' = r4 \<and> err \<noteq> None" using x[symmetric] unfolding e4
          by (cases "validateSegmentResponse resp br") (auto split: if_splits)
        then show ?thesis using u f4 by blast
      next
        case True
        then obtain r6 where m: "media_body env sg ks br resp reads r5 = Some (err, r6)" "r' = rollback r6"
          using x unfolding e4 by auto
        have "fetching ?d ?v ?w [] 0 r5"
          using f f5 by (simp add: fetching_def counts_def fresh_run_def frame_def)
        from ended_rollback[OF media_body_ended[OF m(1) e this]] show ?thesis
          using Inr unfolding m(2) by (auto simp: hlsSegmentByteRange_def split: if_splits)
      qed
    qed
  qed
qed

text \<open>C16: An attempt changes both progress counters by exactly what it delivered: the length of the
  payload the window accepted, or nothing at all, whatever failed, was cancelled or was a
  duplicate.\<close>

theorem attempt_credit_exact:
  assumes "execMediaAttempt env sg ks r = Some (err, r')" and "cipher_blocks env" and "fresh_run r"
  shows "(\<not> accepted (r_ledger r') \<and> Downloaded r' = Downloaded r \<and> VerifiedProgress r' = VerifiedProgress r \<and>
      credited (r_ledger r') = 0) \<or>
    (\<exists>plain res ierr. Ingest (Index sg) plain (r_window r) = Some ((res, ierr), r_window r') \<and> Accepted res \<and>
      accepted (r_ledger r') \<and> credited (r_ledger r') = int (length plain) \<and>
      Downloaded r' = add64 (Downloaded r) (int (length plain)) \<and>
      VerifiedProgress r' = add64 (VerifiedProgress r) (int (length plain)))"
  using exec_ended[OF assms] assms(3) unfolding undone_def banked_def took_def fresh_run_def by auto

text \<open>C17: An attempt that was stopped leaves no trace. When the session an attempt leaves behind has it
  stopped - by a kill, a stall, a drain or the cancellation of the session, at any time up to the gate,
  during a read included - the window is what it was, both counters are back where they started, nothing
  is accepted, and the attempt reports an error.\<close>

theorem stopped_attempt_leaves_no_trace:
  assumes "execMediaAttempt env sg ks r = Some (err, r')" and "cipher_blocks env" and "fresh_run r"
    and "halted (me_gen env) (r_sess r')"
  shows "err \<noteq> None \<and> r_window r' = r_window r \<and> Downloaded r' = Downloaded r \<and>
    VerifiedProgress r' = VerifiedProgress r \<and> \<not> accepted (r_ledger r')"
  using exec_ended[OF assms(1-3)] assms(3,4) unfolding undone_def fresh_run_def by auto

text \<open>An accepted plain segment with a byte range is exactly the range asked for: the window took
  as many octets as the playlist declares.\<close>

theorem attempt_delivers_range:
  assumes "execMediaAttempt env sg ks r = Some (err, r')" and "cipher_blocks env" and "fresh_run r"
    and "accepted (r_ledger r')" and "KeyIndex sg = 0" and "ByteLength sg \<noteq> 0 \<or> ByteOffset sg \<noteq> 0"
  shows "Downloaded r' = add64 (Downloaded r) (ByteLength sg) \<and>
    (\<exists>plain res ierr. Ingest (Index sg) plain (r_window r) = Some ((res, ierr), r_window r') \<and> Accepted res \<and>
      int (length plain) = ByteLength sg)"
  using exec_ended[OF assms(1-3)] assms(4-6) unfolding undone_def banked_def took_def by auto

section \<open>Attempts return\<close>

lemma commit_none: "commit_plain env sg plain r = None \<Longrightarrow> Ingest (Index sg) plain (r_window r) = None"
  by (auto simp: commit_plain_def Let_def on_sess_def split: if_splits option.splits prod.splits)

lemma finish_none:
  assumes "finish_body env sg ks buf r = None" and "r_window r = w"
  shows "\<exists>plain. Ingest (Index sg) plain w = None"
proof -
  obtain x cache r1 where k: "keyTable (Some sg) ks (key_fetch env sg) (r_keys r) (on_sess (setPhase PhaseDecrypt) r) = (x, cache, r1)"
    by (metis prod_cases3)
  have "frame (on_sess (setPhase PhaseDecrypt) r) r1"
    by (rule keyTable_state[OF k]) (use key_fetch_frame in auto)
  then have w: "r_window r1 = w" using assms(2) by (simp add: frame_def on_sess_def)
  obtain plain pl where c: "commit_plain env sg plain (pad_correction pl (r1\<lparr>r_keys := cache\<rparr>)) = None"
    using assms(1) by (auto simp: finish_body_def k split: sum.splits)
  have "r_window (pad_correction pl (r1\<lparr>r_keys := cache\<rparr>)) = w" using w by (simp add: pad_correction_def)
  then show ?thesis using commit_none[OF c] by auto
qed

lemma media_none:
  assumes "media_body env sg ks br resp reads r = None" and "fetching d v w [] 0 r"
  shows "\<exists>plain. Ingest (Index sg) plain w = None"
proof -
  obtain buf pend r1 where l: "read_loop env br [] 0 reads r = (Inr (buf, pend), r1)"
    "finish_body env sg ks buf (snd (flush pend r1)) = None"
    using assms(1) by (auto simp: media_body_def Let_def split: prod.splits sum.splits option.splits)
  have "fetching d v w buf pend r1" using read_loop_fetched[OF assms(2), of env br reads] by (simp add: l(1) fetched_def)
  then have "r_window (snd (flush pend r1)) = w" by (auto simp: fetching_def flush_def)
  from finish_none[OF l(2) this] show ?thesis .
qed

lemma exec_none:
  assumes "execMediaAttempt env sg ks r = None" and "fresh_run r"
  shows "\<exists>plain. Ingest (Index sg) plain (r_window r) = None"
proof -
  obtain br r1 resp reads where x: "waitHostPenalty env (URI sg) r = (None, r1)"
    "\<exists>s h. frame r1 s \<and> media_body env sg ks br resp reads (s\<lparr>r_hosts := h\<rparr>) = None"
  proof -
    fix thesis
    assume t: "\<And>r1 br resp reads. waitHostPenalty env (URI sg) r = (None, r1) \<Longrightarrow>
      \<exists>s h. frame r1 s \<and> media_body env sg ks br resp reads (s\<lparr>r_hosts := h\<rparr>) = None \<Longrightarrow> thesis"
    have f: "frame r1 (on_sess f (note_read env (on_sess g (on_sess h r1))))" for f g h r1
      by (simp add: frame_def on_sess_def note_read_def)
    show thesis
      using assms(1) t f
      unfolding execMediaAttempt_def Let_def
      by (auto split: sum.splits prod.splits option.splits if_splits) blast+
  qed
  then obtain s h where s: "frame r1 s" "media_body env sg ks br resp reads (s\<lparr>r_hosts := h\<rparr>) = None" by blast
  have "frame r (s\<lparr>r_hosts := h\<rparr>)"
    by (rule frame_trans[OF frame_trans[OF wait_frame[OF x(1)] s(1)] frame_fields(1)])
  then have "fetching (Downloaded r) (VerifiedProgress r) (r_window r) [] 0 (s\<lparr>r_hosts := h\<rparr>)"
    using assms(2) by (simp add: fetching_def counts_def fresh_run_def frame_def)
  from media_none[OF s(2) this] show ?thesis .
qed

text \<open>An attempt returns whatever the network does: on any window a run can reach, with any answers,
  \<open>execMediaAttempt\<close> has a result.\<close>

theorem attempt_returns:
  assumes "fresh_window w" and "window_run ops (Map.empty, w) = Some (acc, r_window r)" and "fresh_run r"
  shows "\<exists>err r'. execMediaAttempt env sg ks r = Some (err, r')"
proof (rule ccontr)
  assume "\<nexists>err r'. execMediaAttempt env sg ks r = Some (err, r')"
  then have "execMediaAttempt env sg ks r = None" by (cases "execMediaAttempt env sg ks r") auto
  then obtain plain where i: "Ingest (Index sg) plain (r_window r) = None" using exec_none assms(3) by blast
  have "win_ok (w_out w) (mergedSegs w) acc (r_window r)"
    using window_run_ok[OF fresh_window_ok[OF assms(1)], of ops] assms(2) by auto
  from Ingest_ok[OF this, of "Index sg" plain] i show False by (simp add: ingest_post_def)
qed

section \<open>A concrete attempt\<close>

definition ranged_segment :: hls_segment where
  "ranged_segment = \<lparr>Index = 0, Sequence = 0, URI = ''u'', DurationMicros = 1, ByteOffset = 4, ByteLength = 3,
     KeyIndex = 0, IVHex = []\<rparr>"

definition range_reply :: http_response where
  "range_reply = \<lparr>StatusCode = 206, ContentLength = 3, h_encoding = [], h_type = ''video/mp2t'',
     h_range = ''bytes 4-6/100'', h_retryAfter = []\<rparr>"

definition range_reads :: "(worker_session \<Rightarrow> worker_session) \<Rightarrow> body_read list" where
  "range_reads ctl = [\<lparr>rd_bytes = [1, 2, 3], rd_err = Some [CEOF], rd_throttle = None, rd_due = True, rd_control = ctl\<rparr>]"

definition range_env :: "(worker_session \<Rightarrow> worker_session) \<Rightarrow> (worker_session \<Rightarrow> worker_session) \<Rightarrow> media_env" where
  "range_env rc ctl = \<lparr>me_gen = 1, me_now = 10, me_now2 = 11, me_host = (\<lambda>u. ''cdn''), me_sleep = (\<lambda>u. None),
     me_request = (\<lambda>u. None), me_response = (\<lambda>u. Inr (range_reply, range_reads rc)), me_limiter = False,
     me_dec = (\<lambda>k b. b), me_control = ctl\<rparr>"

definition range_run :: media_run where
  "range_run = \<lparr>r_sess = one_attempt,
     r_ledger = \<lparr>accepted = False, duplicate = False, ingestRes = no_result, credited = 0\<rparr>,
     Downloaded = 100, VerifiedProgress = 90, r_hosts = Map.empty, r_keys = Map.empty, r_window = demo_window\<rparr>"

lemma range_fresh: "fresh_run range_run"
  by (simp add: fresh_run_def range_run_def max_i64_def)

lemma range_cipher: "cipher_blocks (range_env rc ctl)"
  by (simp add: cipher_blocks_def range_env_def)

text \<open>The session just before the commit.\<close>

definition read_session :: "(worker_session \<Rightarrow> worker_session) \<Rightarrow> worker_session" where
  "read_session rc = (let s = rc (noteStatus 1 206 (noteActivity 1 10 (noteStatus 1 0 (setPhase PhaseNetwork one_attempt)))) in
     setPhase PhaseDecrypt ((noteActivity 1 10 s)\<lparr>sessionBytes := add64 (sessionBytes s) 3,
       windowBytes := add64 (windowBytes s) 3\<rparr>))"

definition read_run :: "(worker_session \<Rightarrow> worker_session) \<Rightarrow> media_run" where
  "read_run rc = \<lparr>r_sess = read_session rc,
     r_ledger = \<lparr>accepted = False, duplicate = False, ingestRes = no_result, credited = 3\<rparr>,
     Downloaded = 103, VerifiedProgress = 93, r_hosts = Map.empty(''cdn'' := None), r_keys = Map.empty, r_window = demo_window\<rparr>"

lemma env_sel:
  "me_gen (range_env rc ctl) = 1" "me_now (range_env rc ctl) = 10" "me_now2 (range_env rc ctl) = 11"
  "me_host (range_env rc ctl) u = ''cdn''" "me_request (range_env rc ctl) u = None"
  "me_response (range_env rc ctl) u = Inr (range_reply, range_reads rc)" "StatusCode range_reply = 206"
  "ContentLength range_reply = 3"
  by (simp_all add: range_env_def range_reply_def)

lemma range_reads_to:
  "execMediaAttempt (range_env rc ctl) ranged_segment [] range_run =
     map_option (\<lambda>(e, r). (e, rollback r)) (commit_plain (range_env rc ctl) ranged_segment [1, 2, 3] (read_run rc))"
proof -
  have v: "validateSegmentResponse range_reply (Some \<lparr>br_offset = 4, br_length = 3\<rparr>) = None" by code_simp
  have b: "hlsSegmentByteRange ranged_segment = Inr (Some \<lparr>br_offset = 4, br_length = 3\<rparr>)" by code_simp
  have w: "waitHostPenalty (range_env rc ctl) u range_run = (None, range_run)" for u
    by (simp add: waitHostPenalty_def BlockedUntil_def range_run_def Let_def)
  have f: "finish_body (range_env rc ctl) ranged_segment [] buf r = commit_plain (range_env rc ctl) ranged_segment buf
      (on_sess (setPhase PhaseDecrypt) r)" for buf r
    by (simp add: finish_body_def keyTable_def ranged_segment_def decryptSegmentInPlace_def Let_def pad_correction_def
        on_sess_def)
  have "wrap64 4 = 4" by (simp add: max_i64_def)
  then have l: "read_loop (range_env rc ctl) (Some \<lparr>br_offset = 4, br_length = 3\<rparr>) [] 0 (range_reads rc) r =
      (Inr ([1, 2, 3], 0), snd (flush 3 (note_bytes (range_env rc ctl) 3 (on_sess rc r))))" for r
    by (simp add: range_reads_def hlsWorkerBatchSize_def flush_def throttle_def Let_def range_env_def)
  show ?thesis
    unfolding execMediaAttempt_def b sum.case w option.case prod.case Let_def
    by (simp add: env_sel v media_body_def l f flush_def note_bytes_def on_sess_def note_read_def range_run_def
        body_size_error_def recordSuccess_def read_run_def read_session_def Let_def max_i64_def)
qed

definition outcome_of :: "(go_error option \<times> media_run) option \<Rightarrow> (go_error option \<times> bool \<times> int \<times> int \<times> bytes) option" where
  "outcome_of x = map_option (\<lambda>(e, r). (e, accepted (r_ledger r), credited (r_ledger r), Downloaded r, w_out (r_window r))) x"

lemma range_done:
  "outcome_of (execMediaAttempt (range_env (\<lambda>s. s) (\<lambda>s. s)) ranged_segment [] range_run) = Some (None, True, 3, 103, [7, 1, 2, 3])"
  unfolding range_reads_to by code_simp

lemma range_done_result:
  obtains r' where "execMediaAttempt (range_env (\<lambda>s. s) (\<lambda>s. s)) ranged_segment [] range_run = Some (None, r')"
    "accepted (r_ledger r')" "credited (r_ledger r') = 3" "Downloaded r' = 103" "w_out (r_window r') = [7, 1, 2, 3]"
  using range_done by (auto simp: outcome_of_def)

theorem attempt_credit_exact_witness:
  "\<exists>r'. execMediaAttempt (range_env (\<lambda>s. s) (\<lambda>s. s)) ranged_segment [] range_run = Some (None, r') \<and>
    accepted (r_ledger r') \<and> Downloaded r' = add64 100 (credited (r_ledger r'))"
proof (rule range_done_result)
  fix r'
  assume r: "execMediaAttempt (range_env (\<lambda>s. s) (\<lambda>s. s)) ranged_segment [] range_run = Some (None, r')" "accepted (r_ledger r')"
  from attempt_credit_exact[OF r(1) range_cipher range_fresh] r show ?thesis by (auto simp: range_run_def)
qed

theorem attempt_delivers_range_witness:
  "\<exists>r'. execMediaAttempt (range_env (\<lambda>s. s) (\<lambda>s. s)) ranged_segment [] range_run = Some (None, r') \<and>
    Downloaded r' = add64 (Downloaded range_run) (ByteLength ranged_segment)"
proof (rule range_done_result)
  fix r'
  assume r: "execMediaAttempt (range_env (\<lambda>s. s) (\<lambda>s. s)) ranged_segment [] range_run = Some (None, r')" "accepted (r_ledger r')"
  from attempt_delivers_range[OF r(1) range_cipher range_fresh r(2)] r(1) show ?thesis
    by (simp add: ranged_segment_def)
qed

text \<open>A stall recorded while the body was read, and a kill between the last read and the gate.\<close>

definition stall_env :: media_env where
  "stall_env = range_env (\<lambda>s. snd (cancelAttemptStall 1 s)) (\<lambda>s. s)"

definition kill_env :: media_env where
  "kill_env = range_env (\<lambda>s. s) (\<lambda>s. snd (cancelAttemptKill s))"

definition halted_end :: "media_env \<Rightarrow> bool" where
  "halted_end env = (case execMediaAttempt env ranged_segment [] range_run of
     None \<Rightarrow> False | Some (err, r') \<Rightarrow> halted 1 (r_sess r'))"

lemma stall_halts: "halted_end stall_env"
  unfolding halted_end_def stall_env_def range_reads_to by code_simp

lemma kill_halts: "halted_end kill_env"
  unfolding halted_end_def kill_env_def range_reads_to by code_simp

lemma stop_env_sel: "me_gen stall_env = 1" "me_gen kill_env = 1" "cipher_blocks stall_env" "cipher_blocks kill_env"
  by (simp_all add: stall_env_def kill_env_def range_cipher) (simp_all add: range_env_def)

lemma halted_end_result:
  assumes "halted_end env"
  obtains err r' where "execMediaAttempt env ranged_segment [] range_run = Some (err, r')" "halted 1 (r_sess r')"
  using assms by (auto simp: halted_end_def split: option.splits)

theorem stopped_attempt_leaves_no_trace_witness:
  "(\<exists>err r'. execMediaAttempt stall_env ranged_segment [] range_run = Some (err, r') \<and> err \<noteq> None \<and>
      Downloaded r' = 100 \<and> r_window r' = demo_window) \<and>
   (\<exists>err r'. execMediaAttempt kill_env ranged_segment [] range_run = Some (err, r') \<and> err \<noteq> None \<and>
      Downloaded r' = 100 \<and> r_window r' = demo_window)"
proof (rule conjI)
  obtain err r' where x: "execMediaAttempt stall_env ranged_segment [] range_run = Some (err, r')" "halted 1 (r_sess r')"
    by (rule halted_end_result[OF stall_halts])
  have "halted (me_gen stall_env) (r_sess r')" using x(2) by (simp add: stop_env_sel)
  from stopped_attempt_leaves_no_trace[OF x(1) stop_env_sel(3) range_fresh this] x(1)
  show "\<exists>err r'. execMediaAttempt stall_env ranged_segment [] range_run = Some (err, r') \<and> err \<noteq> None \<and>
      Downloaded r' = 100 \<and> r_window r' = demo_window" by (simp add: range_run_def)
next
  obtain err r' where x: "execMediaAttempt kill_env ranged_segment [] range_run = Some (err, r')" "halted 1 (r_sess r')"
    by (rule halted_end_result[OF kill_halts])
  have "halted (me_gen kill_env) (r_sess r')" using x(2) by (simp add: stop_env_sel)
  from stopped_attempt_leaves_no_trace[OF x(1) stop_env_sel(4) range_fresh this] x(1)
  show "\<exists>err r'. execMediaAttempt kill_env ranged_segment [] range_run = Some (err, r') \<and> err \<noteq> None \<and>
      Downloaded r' = 100 \<and> r_window r' = demo_window" by (simp add: range_run_def)
qed

theorem attempt_returns_witness:
  "\<exists>err r'. execMediaAttempt (range_env (\<lambda>s. s) (\<lambda>s. s)) ranged_segment [] range_run = Some (err, r')"
proof (rule attempt_returns[OF demo_fresh _ range_fresh])
  show "window_run [] (Map.empty, demo_window) = Some (Map.empty, r_window range_run)" by (simp add: range_run_def)
qed

end
