(* ===== verification/HlsEngine.thy ===== *)
theory HlsEngine
  imports HlsAttempt
begin

text \<open>
The segment engine (\<open>engine.go\<close>): the worker pool over the segment queue, with its two locks as
  atomic steps. \<open>newSegmentEngine\<close> and \<open>e_start\<close> build a run, \<open>spawn\<close>, \<open>releaseWorker\<close>, \<open>latchFatal\<close>,
  \<open>seal\<close>, \<open>e_stop\<close> and \<open>markDraining\<close> are its methods, \<open>worker_turn\<close>, \<open>settle_task\<close> and
  \<open>after_settle\<close> are the loops \<open>workerLoop\<close> and \<open>runTask\<close> cut at their calls, and \<open>engine_step\<close>
  interleaves all of them with the controllers. An attempt answers with any error at all.

  The invariant \<open>einv\<close> ties the program counters of the workers to the leases of the queue; from it follow
  that no segment is lost, that a run left by all its workers is complete, and that \<open>wait\<close> is honest.
\<close>

section \<open>The engine\<close>

text \<open>
  The program counter of a worker between its atomic calls. \<open>GivingBack\<close> is the moment before
  \<open>requeue\<close>; its flag tells whether the worker leaves afterwards.
\<close>

datatype worker_pc =
    AtTop | Popping | Waiting nat | Leased int | Running int | Trying int | Backoff int | GivingBack int bool

record engine =
  e_queue :: segment_queue
  e_hosts :: host_limiter
  e_pc :: "nat \<Rightarrow> worker_pc option"
  e_leases :: "nat \<Rightarrow> int option"
  e_draining :: "nat \<Rightarrow> bool"
  e_running :: bool
  e_sealed :: bool
  e_workers :: nat
  e_nextID :: nat
  e_maxWorkers :: nat
  e_admission :: bool
  e_active :: int
  e_cancelled :: bool
  e_parent :: "go_error option"
  e_fatal :: "go_error option"

definition ctx_err :: "engine \<Rightarrow> bool" where
  "ctx_err e \<longleftrightarrow> e_cancelled e \<or> e_parent e \<noteq> None"

definition e_stopped :: "engine \<Rightarrow> bool" where
  "e_stopped e \<longleftrightarrow> ctx_err e \<or> e_fatal e \<noteq> None"

definition seal :: "engine \<Rightarrow> engine" where
  "seal e = e\<lparr>e_sealed := True\<rparr>"

definition latchFatal :: "go_error option \<Rightarrow> engine \<Rightarrow> engine" where
  "latchFatal err e =
     (case err of
        None \<Rightarrow> e
      | Some x \<Rightarrow>
          let e1 = (if e_fatal e = None then e\<lparr>e_fatal := Some x\<rparr> else e);
              e2 = seal e1
          in e2\<lparr>e_queue := sq_close (e_queue e2), e_cancelled := True\<rparr>)"

definition e_stop :: "engine \<Rightarrow> engine" where
  "e_stop e = (let e1 = seal e in e1\<lparr>e_queue := sq_close (e_queue e1), e_cancelled := True\<rparr>)"

definition setAdmissionOpen :: "bool \<Rightarrow> engine \<Rightarrow> engine" where
  "setAdmissionOpen b e = e\<lparr>e_admission := b\<rparr>"

text \<open>
  \<open>spawn\<close> counts the worker under the life lock, registers its session and starts its loop; the
  registration is one step here with the count.
\<close>

definition spawn :: "bool \<Rightarrow> engine \<Rightarrow> bool \<times> engine" where
  "spawn initial e =
     (if \<not> initial \<and> \<not> e_admission e then (False, e)
      else if \<not> e_running e \<or> e_sealed e \<or> e_workers e \<ge> e_maxWorkers e \<or> ctx_err e \<or> remaining (e_queue e) = 0
      then (False, e)
      else (True, e\<lparr>e_nextID := Suc (e_nextID e), e_workers := Suc (e_workers e),
                     e_pc := (e_pc e)(e_nextID e := Some AtTop), e_draining := (e_draining e)(e_nextID e := False),
                     e_active := e_active e + 1\<rparr>))"

fun spawn_initial :: "nat \<Rightarrow> engine \<Rightarrow> engine" where
  "spawn_initial 0 e = e"
| "spawn_initial (Suc n) e = (let (ok, e1) = spawn True e in if ok then spawn_initial n e1 else e1)"

definition e_start :: "int \<Rightarrow> engine \<Rightarrow> go_error option \<times> engine" where
  "e_start initialWorkers e =
     (if initialWorkers \<le> 0 then (Some [CContract], e)
      else if e_running e then (Some [CContract], e)
      else if e_sealed e then (Some [CContract], e)
      else (None, spawn_initial (min (nat initialWorkers) (e_maxWorkers e)) (e\<lparr>e_running := True\<rparr>)))"

definition releaseWorker :: "nat \<Rightarrow> engine \<Rightarrow> engine" where
  "releaseWorker w e = e\<lparr>e_pc := (e_pc e)(w := None), e_active := e_active e - 1, e_workers := e_workers e - 1\<rparr>"

definition markDraining :: "nat \<Rightarrow> engine \<Rightarrow> bool \<times> engine" where
  "markDraining w e =
     (case e_pc e w of None \<Rightarrow> (False, e) | Some _ \<Rightarrow> (True, e\<lparr>e_draining := (e_draining e)(w := True)\<rparr>))"

text \<open>The answer of \<open>wait\<close> once no worker is left; \<open>errors.Join\<close> lists both causes.\<close>

definition errEngineIncomplete :: go_error where
  "errEngineIncomplete = [COther ''incomplete'']"

definition e_wait :: "engine \<Rightarrow> go_error option" where
  "e_wait e =
     (case (e_fatal e, e_parent e) of
        (Some f, Some p) \<Rightarrow> Some (f @ p)
      | (Some f, None) \<Rightarrow> Some f
      | (None, Some p) \<Rightarrow> Some p
      | (None, None) \<Rightarrow> (if remaining (e_queue e) = 0 then None else Some errEngineIncomplete))"

text \<open>
  The construction: a prepared table, a checkpoint the window would accept, a window, a progress
  object and a parsed manifest URL (a nil argument and the parser's answer are flags).
\<close>

record engine_params =
  p_seed :: "resume_state option"
  p_hasWindow :: bool
  p_hasProgress :: bool
  p_urlError :: "go_error option"
  p_parent :: "go_error option"
  p_maxWorkers :: int
  p_hosts :: host_limiter

definition seed_completed :: "resume_state \<Rightarrow> int \<Rightarrow> bool" where
  "seed_completed sd i \<longleftrightarrow> 0 \<le> i \<and> i < TotalSegments sd \<and>
     (hasBit (CompletedBitmap sd) i \<or> i < MergedSegments sd)"

definition newSegmentEngine :: "engine_params \<Rightarrow> go_error + engine" where
  "newSegmentEngine p =
     (case p_seed p of
        None \<Rightarrow> Inl [CContract]
      | Some sd \<Rightarrow>
          if TotalSegments sd \<le> 0 then Inl [CContract]
          else if ValidateCheckpointSeed (Some sd) \<noteq> None then Inl [CDirtySeed]
          else if \<not> p_hasWindow p then Inl [CContract]
          else if \<not> p_hasProgress p then Inl [CContract]
          else (case p_urlError p of
              Some er \<Rightarrow> Inl er
            | None \<Rightarrow> Inr \<lparr>e_queue = newSegmentQueue (Segments sd) (Some (seed_completed sd)), e_hosts = p_hosts p,
                e_pc = (\<lambda>_. None), e_leases = (\<lambda>_. None), e_draining = (\<lambda>_. False), e_running = False,
                e_sealed = False, e_workers = 0, e_nextID = 0,
                e_maxWorkers = (if p_maxWorkers p \<le> 0 then 2 ^ 20 else nat (p_maxWorkers p)),
                e_admission = False, e_active = 0, e_cancelled = False, e_parent = p_parent p, e_fatal = None\<rparr>))"

section \<open>The worker loop\<close>

definition set_pc :: "nat \<Rightarrow> worker_pc \<Rightarrow> engine \<Rightarrow> engine" where
  "set_pc w p e = e\<lparr>e_pc := (e_pc e)(w := Some p)\<rparr>"

definition env_of :: "engine \<Rightarrow> nat \<Rightarrow> retry_env \<Rightarrow> retry_env" where
  "env_of e w env = env\<lparr>parentDone := e_parent e \<noteq> None, ctxDone := ctx_err e, fatalLatched := e_fatal e \<noteq> None,
     sessDone := e_draining e w \<or> ctx_err e, admissionOpen := e_admission e\<rparr>"

text \<open>What the verdict on an attempt makes of the queue, the task and the worker.\<close>

definition settle_task :: "nat \<Rightarrow> int \<Rightarrow> retry_env \<Rightarrow> bool \<Rightarrow> bool \<Rightarrow> stop_reason \<Rightarrow> go_error option \<Rightarrow> engine \<Rightarrow>
    (attempt_outcome \<times> engine) option" where
  "settle_task w i env acc dup stop err e =
     (case map_of (sq_tasks (e_queue e)) i of
        None \<Rightarrow> None
      | Some t \<Rightarrow>
          let (oc, st) = settleOutcome (env_of e w env) acc dup stop err
                 \<lparr>st_task = t, st_queue = e_queue e, st_hosts = e_hosts e\<rparr>
          in Some (oc, e\<lparr>e_queue := (st_queue st)\<lparr>sq_tasks := assign i (st_task st) (sq_tasks (st_queue st))\<rparr>,
                        e_hosts := st_hosts st,
                        e_leases := (if oc_action oc = OutcomeDone \<or> acc \<or> dup then (e_leases e)(w := None) else e_leases e)\<rparr>))"

definition after_settle :: "nat \<Rightarrow> int \<Rightarrow> attempt_outcome \<Rightarrow> engine \<Rightarrow> engine" where
  "after_settle w i oc e =
     (case oc_action oc of
        OutcomeDone \<Rightarrow> set_pc w AtTop e
      | OutcomeRetry \<Rightarrow> set_pc w (Backoff i) e
      | OutcomeRequeue \<Rightarrow> set_pc w (GivingBack i False) e
      | OutcomeFatal \<Rightarrow> releaseWorker w (latchFatal (oc_err oc) e)
      | OutcomeExit \<Rightarrow> set_pc w AtTop e)"

definition give_back :: "nat \<Rightarrow> int \<Rightarrow> engine \<Rightarrow> engine" where
  "give_back w i e = e\<lparr>e_queue := requeue (Some i) (e_queue e), e_leases := (e_leases e)(w := None)\<rparr>"

definition worker_turn :: "nat \<Rightarrow> engine \<Rightarrow> engine" where
  "worker_turn w e =
     (case e_pc e w of
        Some AtTop \<Rightarrow> (if e_draining e w \<or> e_stopped e then releaseWorker w e else set_pc w Popping e)
      | Some Popping \<Rightarrow>
          (case sq_pop (e_queue e) of
             (PopClosed, q) \<Rightarrow> releaseWorker w e
           | (PopLease i, q) \<Rightarrow> set_pc w (Leased i) (e\<lparr>e_queue := q, e_leases := (e_leases e)(w := Some i)\<rparr>)
           | (PopWait g, q) \<Rightarrow> set_pc w (Waiting g) e)
      | Some (Waiting g) \<Rightarrow>
          (if g \<noteq> sq_notify (e_queue e) then set_pc w Popping e
           else if e_draining e w \<or> ctx_err e then releaseWorker w e else e)
      | Some (Leased i) \<Rightarrow>
          (if e_draining e w then set_pc w (GivingBack i True) e
           else if e_stopped e then releaseWorker w e else set_pc w (Running i) e)
      | Some (Running i) \<Rightarrow>
          (if e_draining e w then set_pc w (GivingBack i False) e
           else if e_stopped e then set_pc w AtTop e else set_pc w (Trying i) e)
      | Some (GivingBack i leaving) \<Rightarrow>
          (if leaving then releaseWorker w (give_back w i e) else set_pc w AtTop (give_back w i e))
      | _ \<Rightarrow> e)"

inductive engine_step :: "engine \<Rightarrow> engine \<Rightarrow> bool" where
  turn: "e_pc e w \<noteq> None \<Longrightarrow> engine_step e (worker_turn w e)"
| pop_cancelled: "e_pc e w = Some (Waiting g) \<Longrightarrow> e_draining e w \<or> ctx_err e \<Longrightarrow> engine_step e (releaseWorker w e)"
| attempt: "e_pc e w = Some (Trying i) \<Longrightarrow> settle_task w i env acc dup stop err e = Some (oc, e1) \<Longrightarrow>
    engine_step e (after_settle w i oc e1)"
| retry: "e_pc e w = Some (Backoff i) \<Longrightarrow> engine_step e (set_pc w (Running i) e)"
| retry_broken: "e_pc e w = Some (Backoff i) \<Longrightarrow> e_draining e w \<or> ctx_err e \<Longrightarrow>
    engine_step e (if e_draining e w then set_pc w (GivingBack i False) e else set_pc w AtTop e)"
| admit: "spawn False e = (b, e1) \<Longrightarrow> engine_step e e1"
| admission: "engine_step e (setAdmissionOpen b e)"
| mark_drain: "markDraining w e = (b, e1) \<Longrightarrow> engine_step e e1"
| latch: "engine_step e (latchFatal err e)"
| halt: "engine_step e (e_stop e)"
| seal_wait: "engine_step e (seal e)"
| parent_cancel: "engine_step e (if e_parent e = None then e\<lparr>e_parent := Some x\<rparr> else e)"

text \<open>A run: an engine built from a checkpoint, started, then any steps.\<close>

inductive engine_reachable :: "engine \<Rightarrow> bool" where
  built: "newSegmentEngine p = Inr e \<Longrightarrow> e_start n e = (None, e1) \<Longrightarrow> engine_reachable e1"
| stepped: "engine_reachable e \<Longrightarrow> engine_step e e1 \<Longrightarrow> engine_reachable e1"

section \<open>The invariant\<close>

definition waits :: "(nat \<Rightarrow> worker_pc option) \<Rightarrow> nat \<Rightarrow> nat option" where
  "waits pc w = (case pc w of Some (Waiting g) \<Rightarrow> Some g | _ \<Rightarrow> None)"

text \<open>The lease a worker's frame holds at a point of its program; a stopped engine may abandon one.\<close>

definition lease_fits :: "bool \<Rightarrow> worker_pc option \<Rightarrow> int option \<Rightarrow> bool" where
  "lease_fits stopped p l \<longleftrightarrow>
     (case p of
        None \<Rightarrow> l = None \<or> stopped
      | Some AtTop \<Rightarrow> l = None \<or> stopped
      | Some Popping \<Rightarrow> l = None
      | Some (Waiting g) \<Rightarrow> l = None
      | Some (Leased i) \<Rightarrow> l = Some i
      | Some (Running i) \<Rightarrow> l = Some i
      | Some (Trying i) \<Rightarrow> l = Some i
      | Some (Backoff i) \<Rightarrow> l = Some i
      | Some (GivingBack i b) \<Rightarrow> l = Some i)"

definition queue_ok :: "segment_queue \<Rightarrow> (nat \<Rightarrow> int option) \<Rightarrow> bool" where
  "queue_ok q ls \<longleftrightarrow> sq_inv q \<and> leases_ok q ls \<and> (\<forall>i t. map_of (sq_tasks q) i = Some t \<longrightarrow> Index (t_seg t) = i)"

definition closed_ok :: "engine \<Rightarrow> bool" where
  "closed_ok e \<longleftrightarrow> (sq_closed (e_queue e) \<longrightarrow> e_stopped e \<or> remaining (e_queue e) = 0)"

definition crew_ok :: "engine \<Rightarrow> bool" where
  "crew_ok e \<longleftrightarrow> {w. e_pc e w \<noteq> None} \<subseteq> {..<e_nextID e} \<and> card {w. e_pc e w \<noteq> None} = e_workers e \<and>
     e_workers e \<le> e_maxWorkers e \<and> e_active e = int (e_workers e) \<and> (\<forall>w. e_leases e w \<noteq> None \<longrightarrow> w < e_nextID e) \<and>
     (\<forall>w. e_draining e w \<longrightarrow> w < e_nextID e)"

definition exits_ok :: "engine \<Rightarrow> bool" where
  "exits_ok e \<longleftrightarrow> (\<forall>w < e_nextID e. e_pc e w = None \<longrightarrow> e_stopped e \<or> e_draining e w \<or> sq_closed (e_queue e)) \<and>
     (\<forall>w j. e_pc e w = Some (GivingBack j True) \<longrightarrow> e_draining e w)"

definition fatal_ok :: "engine \<Rightarrow> bool" where
  "fatal_ok e \<longleftrightarrow> (e_fatal e \<noteq> None \<longrightarrow> e_sealed e \<and> e_cancelled e \<and> sq_closed (e_queue e))"

definition einv :: "engine \<Rightarrow> bool" where
  "einv e \<longleftrightarrow> queue_ok (e_queue e) (e_leases e) \<and> waiters_ok (e_queue e) (waits (e_pc e)) \<and>
     (\<forall>w. lease_fits (e_stopped e) (e_pc e w) (e_leases e w)) \<and> closed_ok e \<and> crew_ok e \<and> exits_ok e \<and> fatal_ok e"

lemmas einv_parts = einv_def closed_ok_def crew_ok_def exits_ok_def fatal_ok_def

lemma lease_fits_mono: "lease_fits s p l \<Longrightarrow> (s \<Longrightarrow> s') \<Longrightarrow> lease_fits s' p l"
  by (auto simp: lease_fits_def split: option.splits worker_pc.splits)

lemma crew_finite: "crew_ok e \<Longrightarrow> finite {w. e_pc e w \<noteq> None}"
  unfolding crew_ok_def using finite_lessThan finite_subset by metis

text \<open>Fields a worker's turn leaves alone.\<close>

definition same_env :: "engine \<Rightarrow> engine \<Rightarrow> bool" where
  "same_env e e1 \<longleftrightarrow> e_draining e1 = e_draining e \<and> e_sealed e1 = e_sealed e \<and>
     e_nextID e1 = e_nextID e \<and> e_maxWorkers e1 = e_maxWorkers e \<and>
     e_cancelled e1 = e_cancelled e \<and> e_parent e1 = e_parent e \<and> e_fatal e1 = e_fatal e"

lemma same_env_stopped: "same_env e e1 \<Longrightarrow> e_stopped e1 = e_stopped e"
  by (simp add: same_env_def e_stopped_def ctx_err_def)

lemma local_step:
  assumes i: "einv e" and live: "e_pc e w \<noteq> None" and env: "same_env e e1"
    and n: "e_workers e1 = e_workers e" "e_active e1 = e_active e"
    and pc: "e_pc e1 = (e_pc e)(w := Some p)" and ls: "e_leases e1 = (e_leases e)(w := l)"
    and q: "queue_ok (e_queue e1) (e_leases e1)" and ws: "waiters_ok (e_queue e1) (waits (e_pc e1))"
    and fits: "lease_fits (e_stopped e) (Some p) l"
    and cl: "sq_closed (e_queue e) \<longrightarrow> sq_closed (e_queue e1)"
    and cr: "sq_closed (e_queue e1) \<longrightarrow> e_stopped e \<or> remaining (e_queue e1) = 0"
    and lv: "\<And>j. p = GivingBack j True \<Longrightarrow> e_draining e w"
  shows "einv e1"
proof -
  note st = same_env_stopped[OF env]
  have dom: "{v. e_pc e1 v \<noteq> None} = {v. e_pc e v \<noteq> None}" using live by (auto simp: pc)
  have wid: "w < e_nextID e" using i live unfolding einv_parts by auto
  have "lease_fits (e_stopped e1) (e_pc e1 v) (e_leases e1 v)" for v
    using i fits by (simp add: einv_def st pc ls)
  moreover have "crew_ok e1" unfolding crew_ok_def dom using i env n wid by (auto simp: einv_parts same_env_def ls)
  moreover have "exits_ok e1" using i env cl lv unfolding exits_ok_def st by (auto simp: einv_parts same_env_def pc)
  moreover have "fatal_ok e1" using i env cl unfolding fatal_ok_def by (auto simp: einv_parts same_env_def)
  ultimately show ?thesis using q ws cr unfolding einv_def closed_ok_def st by blast
qed

lemma waits_release: "waiters_ok q (waits pc) \<Longrightarrow> waiters_ok q (waits (pc(w := None)))"
  by (auto simp: waiters_ok_def waits_def split: if_splits)

lemma release_step:
  assumes i: "einv e" and live: "e_pc e w \<noteq> None" and fits: "e_leases e w = None \<or> e_stopped e"
    and why: "e_stopped e \<or> e_draining e w \<or> sq_closed (e_queue e)"
  shows "einv (releaseWorker w e)"
proof -
  let ?e = "releaseWorker w e"
  have f: "e_queue ?e = e_queue e" "e_leases ?e = e_leases e" "e_pc ?e = (e_pc e)(w := None)" "e_draining ?e = e_draining e"
    "e_nextID ?e = e_nextID e" "e_maxWorkers ?e = e_maxWorkers e" "e_workers ?e = e_workers e - 1"
    "e_active ?e = e_active e - 1" "e_sealed ?e = e_sealed e" "e_cancelled ?e = e_cancelled e" "e_fatal ?e = e_fatal e"
    "e_parent ?e = e_parent e"
    by (simp_all add: releaseWorker_def)
  have st: "e_stopped ?e = e_stopped e" by (simp add: e_stopped_def ctx_err_def f)
  have c: "crew_ok e" using i by (simp add: einv_def)
  have dom: "{v. e_pc ?e v \<noteq> None} = {v. e_pc e v \<noteq> None} - {w}" by (auto simp: f)
  have card: "card {v. e_pc ?e v \<noteq> None} = e_workers e - 1" "0 < e_workers e"
    using crew_finite[OF c] live c unfolding dom crew_ok_def
    by (auto simp: card_Diff_singleton card_gt_0_iff)
  have sub: "{v. e_pc ?e v \<noteq> None} \<subseteq> {..<e_nextID e}" using c unfolding dom crew_ok_def by blast
  have "crew_ok ?e" using c card sub unfolding crew_ok_def by (auto simp: f)
  moreover have "lease_fits (e_stopped ?e) (e_pc ?e v) (e_leases ?e v)" for v
  proof -
    have "lease_fits (e_stopped e) (e_pc e v) (e_leases e v)" using i by (simp add: einv_def)
    then show ?thesis using fits by (cases "v = w") (simp_all add: f st lease_fits_def)
  qed
  moreover have "exits_ok ?e" using i why unfolding exits_ok_def st by (auto simp: einv_parts f)
  moreover have "fatal_ok ?e" "closed_ok ?e" using i unfolding fatal_ok_def closed_ok_def st by (simp_all add: einv_parts f)
  ultimately show ?thesis using i waits_release[of "e_queue e" "e_pc e" w] unfolding einv_def by (simp add: f)
qed

lemma close_leases: "leases_ok (sq_close q) ls = leases_ok q ls" "sq_tasks (sq_close q) = sq_tasks q"
  "remaining (sq_close q) = remaining q" "sq_closed (sq_close q)"
  by (simp_all add: sq_close_def wakeLocked_def leases_ok_def remaining_def)

lemma close_waiters: "waiters_ok q ws \<Longrightarrow> waiters_ok (sq_close q) ws"
  by (cases "sq_closed q") (auto simp: sq_close_def wakeLocked_def intro: waiters_wake)

lemma close_queue_ok: "queue_ok q ls \<Longrightarrow> queue_ok (sq_close q) ls"
  by (simp add: queue_ok_def close_leases close_inv)

text \<open>What the rest of the program does to a running engine: it can only add reasons to stop.\<close>

lemma env_step:
  assumes i: "einv e"
    and f: "e_pc e1 = e_pc e" "e_leases e1 = e_leases e" "e_workers e1 = e_workers e" "e_active e1 = e_active e"
      "e_nextID e1 = e_nextID e" "e_maxWorkers e1 = e_maxWorkers e"
    and dr: "\<And>w. e_draining e w \<longrightarrow> e_draining e1 w" "\<And>w. e_draining e1 w \<longrightarrow> w < e_nextID e"
    and q: "e_queue e1 = e_queue e \<or> (e_queue e1 = sq_close (e_queue e) \<and> e_stopped e1)"
    and st: "e_stopped e \<longrightarrow> e_stopped e1" and fa: "fatal_ok e1"
  shows "einv e1"
proof -
  have qo: "queue_ok (e_queue e1) (e_leases e1)" "waiters_ok (e_queue e1) (waits (e_pc e1))"
    using i q close_queue_ok close_waiters by (auto simp: einv_def f)
  have "lease_fits (e_stopped e1) (e_pc e1 w) (e_leases e1 w)" for w
    using i st lease_fits_mono unfolding einv_def f by blast
  moreover have "closed_ok e1" using i q st by (auto simp: einv_parts close_leases)
  moreover have "crew_ok e1" using i dr(2) unfolding crew_ok_def by (auto simp: einv_parts f)
  moreover have "exits_ok e1"
    unfolding exits_ok_def f
  proof (intro conjI allI impI)
    fix w j
    assume "e_pc e w = Some (GivingBack j True)"
    then show "e_draining e1 w" using i dr(1)[of w] by (simp add: einv_parts)
  next
    fix w
    assume "w < e_nextID e" "e_pc e w = None"
    then have "e_stopped e \<or> e_draining e w \<or> sq_closed (e_queue e)" using i by (simp add: einv_parts)
    then show "e_stopped e1 \<or> e_draining e1 w \<or> sq_closed (e_queue e1)" using q st dr(1)[of w] by auto
  qed
  ultimately show ?thesis using qo fa unfolding einv_def by blast
qed

lemma latch_inv: "einv e \<Longrightarrow> einv (latchFatal err e)"
proof (cases err)
  case (Some x)
  assume i: "einv e"
  show ?thesis
    by (rule env_step[OF i]) (use i Some in \<open>auto simp: latchFatal_def Let_def seal_def e_stopped_def ctx_err_def
      fatal_ok_def einv_parts close_leases\<close>)
qed (simp add: latchFatal_def)

lemma stop_inv: "einv e \<Longrightarrow> einv (e_stop e)"
  by (rule env_step) (auto simp: e_stop_def Let_def seal_def e_stopped_def ctx_err_def fatal_ok_def einv_parts close_leases)

lemma seal_inv: "einv e \<Longrightarrow> einv (seal e)"
  by (rule env_step) (auto simp: seal_def e_stopped_def ctx_err_def fatal_ok_def einv_parts)

lemma admission_inv: "einv e \<Longrightarrow> einv (setAdmissionOpen b e)"
  by (rule env_step) (auto simp: setAdmissionOpen_def e_stopped_def ctx_err_def fatal_ok_def einv_parts)

lemma parent_inv: "einv e \<Longrightarrow> einv (e\<lparr>e_parent := Some x\<rparr>)"
  by (rule env_step) (auto simp: e_stopped_def ctx_err_def fatal_ok_def einv_parts)

lemma drain_mark_inv: "einv e \<Longrightarrow> markDraining w e = (b, e1) \<Longrightarrow> einv e1"
proof (cases "e_pc e w")
  case (Some p)
  assume i: "einv e" and m: "markDraining w e = (b, e1)"
  have e1: "e1 = e\<lparr>e_draining := (e_draining e)(w := True)\<rparr>" using m Some by (simp add: markDraining_def)
  have "w < e_nextID e" using i Some unfolding einv_parts by auto
  then show ?thesis unfolding e1
    by (intro env_step[OF i]) (use i in \<open>auto simp: e_stopped_def ctx_err_def fatal_ok_def einv_parts split: if_splits\<close>)
qed (simp add: markDraining_def)

lemma spawn_inv:
  assumes i: "einv e" and s: "spawn b e = (ok, e1)"
  shows "einv e1"
proof (cases ok)
  case False
  then show ?thesis using i s by (auto simp: spawn_def split: if_splits)
next
  case True
  let ?n = "e_nextID e"
  have g: "e_workers e < e_maxWorkers e" "\<not> e_sealed e"
    and e1: "e1 = e\<lparr>e_nextID := Suc ?n, e_workers := Suc (e_workers e), e_pc := (e_pc e)(?n := Some AtTop),
       e_draining := (e_draining e)(?n := False), e_active := e_active e + 1\<rparr>"
    using s True by (auto simp: spawn_def split: if_splits)
  have f: "e_queue e1 = e_queue e" "e_leases e1 = e_leases e" "e_pc e1 = (e_pc e)(?n := Some AtTop)"
    "e_draining e1 = (e_draining e)(?n := False)" "e_nextID e1 = Suc ?n" "e_maxWorkers e1 = e_maxWorkers e"
    "e_workers e1 = Suc (e_workers e)" "e_active e1 = e_active e + 1" "e_sealed e1 = e_sealed e"
    "e_cancelled e1 = e_cancelled e" "e_fatal e1 = e_fatal e" "e_parent e1 = e_parent e"
    by (simp_all add: e1)
  have st: "e_stopped e1 = e_stopped e" by (simp add: e_stopped_def ctx_err_def f)
  have c: "crew_ok e" using i by (simp add: einv_def)
  have new: "e_pc e ?n = None" "e_leases e ?n = None" using c unfolding crew_ok_def by blast+
  have dom: "{v. e_pc e1 v \<noteq> None} = insert ?n {v. e_pc e v \<noteq> None}" by (auto simp: f)
  have "card {v. e_pc e1 v \<noteq> None} = Suc (e_workers e)"
    using crew_finite[OF c] c new(1) unfolding dom crew_ok_def by simp
  moreover have "{v. e_pc e1 v \<noteq> None} \<subseteq> {..<Suc ?n}" using c unfolding dom crew_ok_def by auto
  ultimately have "crew_ok e1" using c g unfolding crew_ok_def by (auto simp: f less_SucI)
  moreover have "lease_fits (e_stopped e1) (e_pc e1 v) (e_leases e1 v)" for v
    using i new(2) by (cases "v = ?n") (simp_all add: einv_def f st, simp add: lease_fits_def)
  moreover have "exits_ok e1" using i unfolding exits_ok_def st by (auto simp: einv_parts f less_Suc_eq)
  moreover have "fatal_ok e1" "closed_ok e1" using i unfolding fatal_ok_def closed_ok_def st by (simp_all add: einv_parts f)
  moreover have "waiters_ok (e_queue e1) (waits (e_pc e1))"
    using i by (auto simp: einv_def f waiters_ok_def waits_def)
  ultimately show ?thesis using i unfolding einv_def by (simp add: f)
qed

section \<open>Verdicts on attempts\<close>

text \<open>A verdict that leaves the queue alone: it is neither done nor an exit, and a fatal one has a cause.\<close>

definition verdict :: "segment_task \<Rightarrow> attempt_outcome \<Rightarrow> segment_task \<Rightarrow> bool" where
  "verdict t oc t1 \<longleftrightarrow> t_seg t1 = t_seg t \<and> oc_action oc \<noteq> OutcomeDone \<and> oc_action oc \<noteq> OutcomeExit \<and>
     (oc_action oc = OutcomeFatal \<longrightarrow> oc_err oc \<noteq> None)"

lemma consumeRetry_verdict: "consumeRetry t g e = (oc, t1) \<Longrightarrow> verdict t oc t1"
  by (auto simp: consumeRetry_def Let_def verdict_def split: if_splits)

lemma classify_404_verdict: "classify_404 t se = (oc, t1) \<Longrightarrow> verdict t oc t1"
  by (auto simp: classify_404_def Let_def verdict_def permanent_outcome_def split: if_splits)

lemma classify_throttled_verdict: "classify_throttled env t h se host = (oc, t1, h1) \<Longrightarrow> verdict t oc t1"
  by (auto simp: classify_throttled_def Let_def verdict_def split: if_splits option.splits)

lemma classifyStatus_verdict: "classifyStatus env t h se = (oc, t1, h1) \<Longrightarrow> verdict t oc t1"
proof -
  assume a: "classifyStatus env t h se = (oc, t1, h1)"
  define host where "host = (if se_host se = [] then mirror_host env (URI (t_seg t)) else se_host se)"
  obtain o4 t4 where c4: "classify_404 t se = (o4, t4)" by fastforce
  obtain oc8 tc8 where c8: "consumeRetry t False [CStatus se] = (oc8, tc8)" by fastforce
  consider "se_status se = 404" | "se_status se \<noteq> 404" "se_status se = 429 \<or> se_status se = 503"
    | "se_status se = 408" | "se_status se \<notin> {404, 429, 503, 408}" by auto
  then show ?thesis
  proof cases
    case 1
    then show ?thesis using a classify_404_verdict[OF c4] by (simp add: classifyStatus_def Let_def c4)
  next
    case 2
    then have "classify_throttled env t h se host = (oc, t1, h1)" using a by (auto simp: classifyStatus_def Let_def host_def)
    then show ?thesis by (rule classify_throttled_verdict)
  next
    case 3
    then show ?thesis using a consumeRetry_verdict[OF c8] by (simp add: classifyStatus_def Let_def c8)
  next
    case 4
    then show ?thesis using a
      by (auto simp: classifyStatus_def Let_def verdict_def permanent_outcome_def split: if_splits)
  qed
qed

lemma route_cause_verdict:
  "route_cause env e st = (oc, st1) \<Longrightarrow> verdict (st_task st) oc (st_task st1) \<and> st_queue st1 = st_queue st"
  using classifyStatus_verdict consumeRetry_verdict
  by (auto simp: route_cause_def Let_def split: option.splits prod.splits if_splits)

lemma settle_verdict:
  assumes "settleOutcome env a d stop err st = (oc, st1)"
  shows "(if a \<or> d then st_queue st1 = maybeComplete (sq_finish (Some (Index (t_seg (st_task st)))) (st_queue st)) \<and>
             (oc_action oc = OutcomeDone \<or> oc_action oc = OutcomeFatal) else st_queue st1 = st_queue st \<and> oc_action oc \<noteq> OutcomeDone) \<and>
    t_seg (st_task st1) = t_seg (st_task st) \<and>
    (oc_action oc = OutcomeExit \<longrightarrow> parentDone env \<or> ctxDone env \<or> fatalLatched env) \<and>
    (oc_action oc = OutcomeFatal \<longrightarrow> oc_err oc \<noteq> None)"
proof -
  have "(\<exists>e. err = Some e \<and> \<not> a \<and> \<not> d \<and> route_cause env e st = (oc, st1)) \<or> ?thesis"
    using assms unfolding settleOutcome_def Let_def by (auto split: if_splits option.splits)
  then show ?thesis using route_cause_verdict[of env _ st oc st1] unfolding verdict_def by auto
qed

section \<open>Turns keep the invariant\<close>

lemma waits_set: "waiters_ok q (waits pc) \<Longrightarrow> (\<And>g. p \<noteq> Waiting g) \<Longrightarrow> waiters_ok q (waits (pc(w := Some p)))"
  by (auto simp: waiters_ok_def waits_def split: worker_pc.splits)

lemma waits_leave: "e_pc e1 = (e_pc e)(w := Some p) \<Longrightarrow> (\<And>g. p \<noteq> Waiting g) \<Longrightarrow>
    waiters_ok q (waits (e_pc e)) \<Longrightarrow> waiters_ok q (waits (e_pc e1))"
  using waits_set by simp

lemma requeue_waiters: "waiters_ok q ws \<Longrightarrow> waiters_ok (requeue t q) ws"
  by (auto simp: requeue_def Let_def wakeLocked_def intro: waiters_wake waiters_same split: option.splits)

lemma requeue_facts: "sq_tasks (requeue t q) = sq_tasks q" "sq_closed (requeue t q) = sq_closed q"
  "remaining (requeue t q) = remaining q"
  by (auto simp: requeue_def Let_def wakeLocked_def remaining_def split: option.splits)

lemma requeue_queue_ok:
  assumes "queue_ok q ls" and "ls w = Some i"
  shows "queue_ok (requeue (Some i) q) (ls(w := None))"
proof -
  have "lease_of q i = SegLeased" using leased_known[of q ls w i] assms by (simp add: queue_ok_def)
  then have "sq_states (requeue (Some i) q) = assign i SegReady (sq_states q)"
    by (simp add: requeue_def Let_def wakeLocked_def)
  then have "leases_ok (requeue (Some i) q) (ls(w := None))"
    using leases_drop[of q ls w i SegReady] assms by (simp add: queue_ok_def)
  then show ?thesis using assms(1) requeue_inv by (simp add: queue_ok_def requeue_facts)
qed

lemma set_pc_step:
  assumes i: "einv e" and p0: "e_pc e w = Some p0" and fits: "lease_fits (e_stopped e) (Some p) (e_leases e w)"
    and w: "\<And>g. p \<noteq> Waiting g" and lv: "\<And>j. p = GivingBack j True \<Longrightarrow> e_draining e w"
  shows "einv (set_pc w p e)"
proof (rule local_step[OF i, where w = w and p = p and l = "e_leases e w"])
  have q: "queue_ok (e_queue e) (e_leases e)" "waiters_ok (e_queue e) (waits (e_pc e))" "closed_ok e"
    using i by (simp_all add: einv_def)
  show "queue_ok (e_queue (set_pc w p e)) (e_leases (set_pc w p e))" using q by (simp add: set_pc_def)
  show "waiters_ok (e_queue (set_pc w p e)) (waits (e_pc (set_pc w p e)))"
    using waits_set[OF q(2) w] by (simp add: set_pc_def)
  show "sq_closed (e_queue (set_pc w p e)) \<longrightarrow> e_stopped e \<or> remaining (e_queue (set_pc w p e)) = 0"
    using q(3) by (simp add: set_pc_def closed_ok_def)
qed (use p0 fits lv in \<open>simp_all add: set_pc_def same_env_def\<close>)

lemma give_back_step:
  assumes i: "einv e" and p0: "e_pc e w = Some (GivingBack j b)"
  shows "einv (set_pc w AtTop (give_back w j e))"
proof (rule local_step[OF i, where w = w and p = AtTop and l = None])
  let ?e = "set_pc w AtTop (give_back w j e)"
  have q: "queue_ok (e_queue e) (e_leases e)" "waiters_ok (e_queue e) (waits (e_pc e))" "closed_ok e"
    "lease_fits (e_stopped e) (e_pc e w) (e_leases e w)"
    using i unfolding einv_def by blast+
  have "e_leases e w = Some j" using q(4) by (simp add: p0 lease_fits_def)
  then show "queue_ok (e_queue ?e) (e_leases ?e)" using requeue_queue_ok[OF q(1)] by (simp add: set_pc_def give_back_def)
  show "waiters_ok (e_queue ?e) (waits (e_pc ?e))"
    using waits_set[OF requeue_waiters[OF q(2)], of AtTop "Some j" w] by (simp add: set_pc_def give_back_def)
  show "sq_closed (e_queue ?e) \<longrightarrow> e_stopped e \<or> remaining (e_queue ?e) = 0"
    using q(3) by (simp add: set_pc_def give_back_def closed_ok_def requeue_facts)
qed (use p0 in \<open>simp_all add: set_pc_def give_back_def same_env_def lease_fits_def requeue_facts\<close>)

lemma release_set: "releaseWorker w (set_pc w p e) = releaseWorker w e"
  by (simp add: releaseWorker_def set_pc_def)

lemma pop_lease_step:
  assumes i: "einv e" and p0: "e_pc e w = Some Popping" and pop: "sq_pop (e_queue e) = (PopLease j, q)"
  shows "einv (set_pc w (Leased j) (e\<lparr>e_queue := q, e_leases := (e_leases e)(w := Some j)\<rparr>))"
proof (rule local_step[OF i, where w = w and p = "Leased j" and l = "Some j"])
  let ?e = "set_pc w (Leased j) (e\<lparr>e_queue := q, e_leases := (e_leases e)(w := Some j)\<rparr>)"
  have qi: "sq_inv (e_queue e)" "leases_ok (e_queue e) (e_leases e)" "waiters_ok (e_queue e) (waits (e_pc e))"
    "closed_ok e" "\<forall>i t. map_of (sq_tasks (e_queue e)) i = Some t \<longrightarrow> Index (t_seg t) = i"
    "lease_fits (e_stopped e) (e_pc e w) (e_leases e w)"
    using i unfolding einv_def queue_ok_def by blast+
  obtain js where r: "sq_ready (e_queue e) = j # js" "\<not> sq_closed (e_queue e)"
    "q = (e_queue e)\<lparr>sq_ready := js, sq_states := assign j SegLeased (sq_states (e_queue e))\<rparr>"
    using pop by (auto simp: sq_pop_def split: if_splits list.splits)
  have m: "map_of (sq_states (e_queue e)) j = Some SegReady" using qi(1) r(1) by (simp add: sq_inv_def)
  have n: "e_leases e w = None" using qi(6) by (simp add: p0 lease_fits_def)
  have "leases_ok q ((e_leases e)(w := Some j))" by (rule leases_take[OF qi(2) n m]) (simp add: r(3))
  moreover have "sq_inv q" using pop_inv[OF qi(1)] pop by simp
  ultimately show "queue_ok (e_queue ?e) (e_leases ?e)" using qi(5) by (simp add: queue_ok_def set_pc_def r(3))
  have "waiters_ok q (waits (e_pc e))" using qi(3) r by (auto simp: waiters_ok_def)
  then show "waiters_ok (e_queue ?e) (waits (e_pc ?e))"
    using waits_set[of q "e_pc e" "Leased j" w] by (simp add: set_pc_def)
  show "sq_closed (e_queue ?e) \<longrightarrow> e_stopped e \<or> remaining (e_queue ?e) = 0" using r by (simp add: set_pc_def)
  show "sq_closed (e_queue e) \<longrightarrow> sq_closed (e_queue ?e)" using r by simp
qed (use p0 in \<open>simp_all add: set_pc_def same_env_def lease_fits_def\<close>)

lemma pop_wait_step:
  assumes i: "einv e" and p0: "e_pc e w = Some Popping" and pop: "sq_pop (e_queue e) = (PopWait g, q)"
  shows "einv (set_pc w (Waiting g) e)"
proof (rule local_step[OF i, where w = w and p = "Waiting g" and l = None])
  let ?e = "set_pc w (Waiting g) e"
  have qi: "queue_ok (e_queue e) (e_leases e)" "waiters_ok (e_queue e) (waits (e_pc e))" "closed_ok e"
    "lease_fits (e_stopped e) (e_pc e w) (e_leases e w)"
    using i unfolding einv_def by blast+
  have g: "g = sq_notify (e_queue e)" "sq_ready (e_queue e) = []" "\<not> sq_closed (e_queue e)"
    using pop by (auto simp: sq_pop_def split: if_splits list.splits)
  show "waiters_ok (e_queue ?e) (waits (e_pc ?e))"
    using qi(2) g by (auto simp: set_pc_def waiters_ok_def waits_def)
  have n: "e_leases e w = None" using qi(4) by (simp add: p0 lease_fits_def)
  then show "e_leases ?e = (e_leases e)(w := None)" by (auto simp: set_pc_def)
  show "queue_ok (e_queue ?e) (e_leases ?e)" using qi(1) by (simp add: set_pc_def)
qed (use p0 i in \<open>simp_all add: set_pc_def same_env_def lease_fits_def einv_parts\<close>)

lemma fits_at: "einv e \<Longrightarrow> lease_fits (e_stopped e) (e_pc e w) (e_leases e w)"
  by (simp add: einv_def)

lemma turn_inv:
  assumes i: "einv e" and live: "e_pc e w \<noteq> None"
  shows "einv (worker_turn w e)"
proof -
  obtain p where p: "e_pc e w = Some p" using live by blast
  note fits = fits_at[OF i, of w, unfolded p]
  show ?thesis
  proof (cases p)
    case AtTop
    show ?thesis
    proof (cases "e_draining e w \<or> e_stopped e")
      case True
      then have "einv (releaseWorker w e)"
        by (intro release_step[OF i]) (use p fits AtTop in \<open>auto simp: lease_fits_def\<close>)
      then show ?thesis using True p AtTop by (simp add: worker_turn_def)
    next
      case False
      then have "einv (set_pc w Popping e)"
        by (intro set_pc_step[OF i p]) (use fits AtTop in \<open>auto simp: lease_fits_def\<close>)
      then show ?thesis using False p AtTop by (simp add: worker_turn_def)
    qed
  next
    case Popping
    obtain r q where pop: "sq_pop (e_queue e) = (r, q)" by fastforce
    show ?thesis
    proof (cases r)
      case PopClosed
      then have "sq_closed (e_queue e)" using pop by (auto simp: sq_pop_def split: if_splits list.splits)
      then have "einv (releaseWorker w e)"
        by (intro release_step[OF i]) (use p fits Popping in \<open>auto simp: lease_fits_def\<close>)
      then show ?thesis using PopClosed p Popping pop by (simp add: worker_turn_def)
    next
      case (PopLease j)
      then show ?thesis using pop_lease_step[OF i, of w j q] p Popping pop by (simp add: worker_turn_def)
    next
      case (PopWait g)
      then show ?thesis using pop_wait_step[OF i, of w g q] p Popping pop by (simp add: worker_turn_def)
    qed
  next
    case (Waiting g)
    have a: "einv (set_pc w Popping e)"
      by (rule set_pc_step[OF i p]) (use fits Waiting in \<open>auto simp: lease_fits_def\<close>)
    have b: "einv (releaseWorker w e)" if "e_draining e w \<or> ctx_err e"
      by (rule release_step[OF i]) (use that p fits Waiting in \<open>auto simp: lease_fits_def e_stopped_def\<close>)
    show ?thesis using a b i p Waiting by (simp add: worker_turn_def)
  next
    case (Leased j)
    have a: "e_draining e w \<Longrightarrow> einv (set_pc w (GivingBack j True) e)" "einv (set_pc w (Running j) e)"
      by (rule set_pc_step[OF i p]; use fits Leased in \<open>auto simp: lease_fits_def\<close>)+
    have b: "einv (releaseWorker w e)" if "e_stopped e"
      by (rule release_step[OF i]) (use that p in auto)
    show ?thesis using a b p Leased by (simp add: worker_turn_def)
  next
    case (Running j)
    have a: "einv (set_pc w (GivingBack j False) e)" "einv (set_pc w (Trying j) e)"
      by (rule set_pc_step[OF i p]; use fits Running in \<open>auto simp: lease_fits_def\<close>)+
    have b: "einv (set_pc w AtTop e)" if "e_stopped e"
      by (rule set_pc_step[OF i p]) (use that in \<open>auto simp: lease_fits_def\<close>)
    show ?thesis using a b p Running by (simp add: worker_turn_def)
  next
    case (GivingBack j leaving)
    have a: "einv (set_pc w AtTop (give_back w j e))" by (rule give_back_step[OF i]) (use p GivingBack in simp)
    show ?thesis
    proof (cases leaving)
      case False
      then show ?thesis using a p GivingBack by (simp add: worker_turn_def)
    next
      case True
      have d: "e_draining e w" using i p GivingBack True by (simp add: einv_parts)
      have "einv (releaseWorker w (set_pc w AtTop (give_back w j e)))"
        by (rule release_step[OF a]) (use d in \<open>simp_all add: set_pc_def give_back_def\<close>)
      then show ?thesis using True p GivingBack by (simp add: worker_turn_def release_set)
    qed
  qed (use i p in \<open>simp_all add: worker_turn_def\<close>)
qed

section \<open>Settling keeps the invariant\<close>

lemma unfinished_pos: "map_of st i = Some s \<Longrightarrow> s \<noteq> SegDone \<Longrightarrow> 1 \<le> unfinished st"
proof (induction st)
  case (Cons x st)
  then show ?case by (cases x) (auto simp: unfinished_def split: if_splits)
qed simp

lemma retask_ok:
  assumes "queue_ok q ls" and "map_of (sq_tasks q) i \<noteq> None" and "Index (t_seg t) = i"
  shows "queue_ok (q\<lparr>sq_tasks := assign i t (sq_tasks q)\<rparr>) ls"
proof -
  have "i \<in> fst ` set (sq_tasks q)" using assms(2) by (auto simp: map_of_eq_None_iff)
  then have "sq_inv (q\<lparr>sq_tasks := assign i t (sq_tasks q)\<rparr>)"
    using assms(1) by (auto simp: queue_ok_def sq_inv_def)
  then show ?thesis using assms by (auto simp: queue_ok_def leases_ok_def)
qed

lemma finish_facts:
  assumes "queue_ok q ls" and "ls w = Some i"
  shows "queue_ok (sq_finish (Some i) q) (ls(w := None))" "sq_tasks (sq_finish (Some i) q) = sq_tasks q"
    "sq_notify (sq_finish (Some i) q) = sq_notify q" "sq_ready (sq_finish (Some i) q) = sq_ready q"
    "sq_closed (sq_finish (Some i) q) = sq_closed q" "1 \<le> remaining q"
proof -
  have l: "lease_of q i = SegLeased" using leased_known[of q ls w i] assms by (simp add: queue_ok_def)
  then have f: "sq_finish (Some i) q = q\<lparr>sq_states := assign i SegDone (sq_states q), sq_pending := sq_pending q - 1\<rparr>"
    by (simp add: sq_finish_def)
  have "leases_ok (sq_finish (Some i) q) (ls(w := None))"
    by (rule leases_drop[of q ls w i SegDone]) (use assms in \<open>simp_all add: queue_ok_def f\<close>)
  moreover have "sq_inv (sq_finish (Some i) q)" using assms(1) finish_inv by (simp add: queue_ok_def)
  ultimately show "queue_ok (sq_finish (Some i) q) (ls(w := None))" using assms(1) by (simp add: queue_ok_def f)
  show "sq_tasks (sq_finish (Some i) q) = sq_tasks q" "sq_notify (sq_finish (Some i) q) = sq_notify q"
    "sq_ready (sq_finish (Some i) q) = sq_ready q" "sq_closed (sq_finish (Some i) q) = sq_closed q"
    by (simp_all add: f)
  show "1 \<le> remaining q"
    using unfinished_pos[OF lease_some[OF l]] assms(1) by (simp add: remaining_def queue_ok_def sq_inv_def)
qed

lemma maybe_facts: "sq_tasks (maybeComplete q) = sq_tasks q" "remaining (maybeComplete q) = remaining q"
  "sq_closed q \<Longrightarrow> sq_closed (maybeComplete q)" "sq_closed (maybeComplete q) \<Longrightarrow> sq_closed q \<or> remaining q = 0"
  "waiters_ok q ws \<Longrightarrow> waiters_ok (maybeComplete q) ws" "queue_ok q ls \<Longrightarrow> queue_ok (maybeComplete q) ls"
  by (auto simp: maybeComplete_def close_leases close_waiters close_queue_ok)

text \<open>The state a verdict leaves, once the worker has a program point again.\<close>

lemma settle_step:
  assumes i: "einv e" and p0: "e_pc e w = Some (Trying j)"
    and s: "settle_task w j env acc dup stop err e = Some (oc, e1)"
    and fits: "lease_fits (e_stopped e) (Some p) (e_leases e1 w)"
    and pw: "\<And>g. p \<noteq> Waiting g" and lv: "\<And>i. p = GivingBack i True \<Longrightarrow> e_draining e w"
  shows "einv (set_pc w p e1)"
proof -
  have qi: "queue_ok (e_queue e) (e_leases e)" "waiters_ok (e_queue e) (waits (e_pc e))" "closed_ok e"
    using i unfolding einv_def by blast+
  have lw: "e_leases e w = Some j" using fits_at[OF i, of w] by (simp add: p0 lease_fits_def)
  obtain t where t: "map_of (sq_tasks (e_queue e)) j = Some t" using s by (auto simp: settle_task_def split: option.splits)
  have idx: "Index (t_seg t) = j" using qi(1) t by (simp add: queue_ok_def)
  obtain oc1 st where so: "settleOutcome (env_of e w env) acc dup stop err
      \<lparr>st_task = t, st_queue = e_queue e, st_hosts = e_hosts e\<rparr> = (oc1, st)" by fastforce
  note s' = s[unfolded settle_task_def t option.case Let_def so prod.case]
  have oc: "oc1 = oc" and e1: "e1 = e\<lparr>e_queue := (st_queue st)\<lparr>sq_tasks := assign j (st_task st) (sq_tasks (st_queue st))\<rparr>,
      e_hosts := st_hosts st, e_leases := (if oc_action oc = OutcomeDone \<or> acc \<or> dup then (e_leases e)(w := None) else e_leases e)\<rparr>"
    using s' by (metis option.inject prod.inject)+
  note v = settle_verdict[OF so]
  have seg: "Index (t_seg (st_task st)) = j" using v idx by simp
  have q1: "queue_ok (st_queue st) (e_leases e1) \<and> sq_tasks (st_queue st) = sq_tasks (e_queue e) \<and>
     waiters_ok (st_queue st) (waits (e_pc e)) \<and> (sq_closed (e_queue e) \<longrightarrow> sq_closed (st_queue st)) \<and>
     (sq_closed (st_queue st) \<longrightarrow> e_stopped e \<or> remaining (st_queue st) = 0)"
  proof (cases "acc \<or> dup")
    case True
    then have sq: "st_queue st = maybeComplete (sq_finish (Some j) (e_queue e))" using v by (auto simp: idx split: if_splits)
    have ls: "e_leases e1 = (e_leases e)(w := None)" using True by (simp add: e1)
    note f = finish_facts[OF qi(1) lw]
    have wf: "waiters_ok (sq_finish (Some j) (e_queue e)) (waits (e_pc e))"
      by (rule waiters_same[OF qi(2) f(3,4,5)])
    have "sq_closed (e_queue e) \<longrightarrow> e_stopped e" using qi(3) f(6) by (auto simp: closed_ok_def)
    then show ?thesis using maybe_facts[of "sq_finish (Some j) (e_queue e)"] f(1,2,5) wf unfolding sq ls by auto
  next
    case False
    then have "st_queue st = e_queue e" "e_leases e1 = e_leases e" using v by (auto simp: e1 oc split: if_splits)
    then show ?thesis using qi by (simp add: closed_ok_def)
  qed
  show ?thesis
  proof (rule local_step[OF i, where w = w and p = p and l = "e_leases e1 w"])
    show "queue_ok (e_queue (set_pc w p e1)) (e_leases (set_pc w p e1))"
      using retask_ok[of "st_queue st" "e_leases e1" j "st_task st"] q1 t seg by (simp add: set_pc_def e1)
    have "waiters_ok (e_queue e1) (waits (e_pc e))" using q1 by (simp add: e1 waiters_ok_def)
    then show "waiters_ok (e_queue (set_pc w p e1)) (waits (e_pc (set_pc w p e1)))"
      using waits_set[of "e_queue e1" "e_pc e1" p w] pw by (simp add: set_pc_def e1)
    show "sq_closed (e_queue (set_pc w p e1)) \<longrightarrow> e_stopped e \<or> remaining (e_queue (set_pc w p e1)) = 0"
      "sq_closed (e_queue e) \<longrightarrow> sq_closed (e_queue (set_pc w p e1))"
      using q1 by (simp_all add: set_pc_def e1 remaining_def)
    show "e_leases (set_pc w p e1) = (e_leases e)(w := e_leases e1 w)" by (auto simp: set_pc_def e1)
  qed (use p0 fits lv in \<open>simp_all add: set_pc_def same_env_def e1\<close>)
qed

lemma settle_lease:
  assumes i: "einv e" and p0: "e_pc e w = Some (Trying j)"
    and s: "settle_task w j env acc dup stop err e = Some (oc, e1)"
  shows "(oc_action oc = OutcomeDone \<longrightarrow> e_leases e1 w = None) \<and>
    (oc_action oc \<noteq> OutcomeDone \<longrightarrow> oc_action oc = OutcomeFatal \<or> e_leases e1 w = Some j) \<and>
    (oc_action oc = OutcomeExit \<longrightarrow> e_stopped e) \<and> (oc_action oc = OutcomeFatal \<longrightarrow> oc_err oc \<noteq> None)"
proof -
  have lw: "e_leases e w = Some j" using fits_at[OF i, of w] by (simp add: p0 lease_fits_def)
  obtain t where t: "map_of (sq_tasks (e_queue e)) j = Some t" using s by (auto simp: settle_task_def split: option.splits)
  obtain oc1 st where so: "settleOutcome (env_of e w env) acc dup stop err
      \<lparr>st_task = t, st_queue = e_queue e, st_hosts = e_hosts e\<rparr> = (oc1, st)" by fastforce
  have "oc1 = oc" "e_leases e1 = (if oc_action oc = OutcomeDone \<or> acc \<or> dup then (e_leases e)(w := None) else e_leases e)"
    using s t so by (auto simp: settle_task_def Let_def)
  then show ?thesis using settle_verdict[OF so] lw
    by (auto simp: env_of_def e_stopped_def ctx_err_def split: if_splits)
qed

lemma latch_set: "latchFatal err (set_pc w p e) = set_pc w p (latchFatal err e)"
  by (simp add: latchFatal_def set_pc_def seal_def Let_def split: option.splits)

lemma attempt_inv:
  assumes i: "einv e" and p0: "e_pc e w = Some (Trying j)"
    and s: "settle_task w j env acc dup stop err e = Some (oc, e1)"
  shows "einv (after_settle w j oc e1)"
proof -
  note l = settle_lease[OF assms]
  note st = settle_step[OF assms]
  show ?thesis
  proof (cases "oc_action oc")
    case OutcomeDone
    then show ?thesis using st[of AtTop] l by (simp add: after_settle_def lease_fits_def)
  next
    case OutcomeRetry
    then show ?thesis using st[of "Backoff j"] l by (simp add: after_settle_def lease_fits_def)
  next
    case OutcomeRequeue
    then show ?thesis using st[of "GivingBack j False"] l by (simp add: after_settle_def lease_fits_def)
  next
    case OutcomeExit
    then show ?thesis using st[of AtTop] l by (simp add: after_settle_def lease_fits_def)
  next
    case OutcomeFatal
    then obtain x where x: "oc_err oc = Some x" using l by blast
    have "einv (set_pc w (case e_leases e1 w of None \<Rightarrow> AtTop | Some k \<Rightarrow> Backoff k) e1)"
      by (rule st) (auto simp: lease_fits_def split: option.splits)
    then obtain p where p: "einv (set_pc w p e1)" by blast
    have "einv (releaseWorker w (latchFatal (oc_err oc) (set_pc w p e1)))"
      by (rule release_step[OF latch_inv[OF p]])
         (simp_all add: x latchFatal_def Let_def seal_def set_pc_def e_stopped_def ctx_err_def)
    then show ?thesis using OutcomeFatal by (simp add: after_settle_def latch_set release_set)
  qed
qed

section \<open>Reachable engines\<close>

lemma engine_step_inv: "engine_step e e1 \<Longrightarrow> einv e \<Longrightarrow> einv e1"
proof (induction rule: engine_step.induct)
  case (turn e w)
  then show ?case using turn_inv by blast
next
  case (pop_cancelled e w g)
  then show ?case using fits_at[of e w]
    by (intro release_step) (auto simp: lease_fits_def e_stopped_def)
next
  case (attempt e w i env acc dup stop err oc e1)
  then show ?case using attempt_inv by blast
next
  case (retry e w i)
  then show ?case using fits_at[of e w] by (intro set_pc_step) (auto simp: lease_fits_def)
next
  case (retry_broken e w i)
  have f: "lease_fits (e_stopped e) (Some (Backoff i)) (e_leases e w)"
    using fits_at[OF retry_broken(3), of w] retry_broken(1) by simp
  have "einv (set_pc w (GivingBack i False) e)"
    using retry_broken f by (intro set_pc_step) (auto simp: lease_fits_def)
  moreover have "einv (set_pc w AtTop e)" if "\<not> e_draining e w"
    using retry_broken f that by (intro set_pc_step) (auto simp: lease_fits_def e_stopped_def)
  ultimately show ?case by simp
next
  case (admit e b e1)
  then show ?case using spawn_inv by blast
next
  case (admission e b)
  then show ?case using admission_inv by blast
next
  case (mark_drain w e b e1)
  then show ?case using drain_mark_inv by blast
next
  case (latch e err)
  then show ?case using latch_inv by blast
next
  case (halt e)
  then show ?case using stop_inv by blast
next
  case (seal_wait e)
  then show ?case using seal_inv by blast
next
  case (parent_cancel e x)
  then show ?case using parent_inv by simp
qed

lemma index_tasks: "sq_tasks (index_segment c q g) = assign (Index g) (new_task g) (sq_tasks q)"
  by (simp add: index_segment_def Let_def)

definition keyed :: "segment_queue \<Rightarrow> bool" where
  "keyed q \<longleftrightarrow> (\<forall>i t. map_of (sq_tasks q) i = Some t \<longrightarrow> Index (t_seg t) = i)"

lemma keyed_index: "keyed q \<Longrightarrow> keyed (index_segment c q g)"
  unfolding keyed_def index_tasks by (auto simp: new_task_def)

lemma new_tasks: "keyed q \<Longrightarrow> keyed (foldl (index_segment c) q gs)"
  by (induction gs arbitrary: q) (simp_all add: keyed_index)

lemma checkpoint_indices:
  assumes "ValidateCheckpointSeed (Some sd) = None"
  shows "distinct (map Index (Segments sd))"
proof -
  have "validateSeed (Some (demoteSpill sd)) = None"
    using assms by (simp add: ValidateCheckpointSeed_def split: option.splits)
  then have "validate_table (demoteSpill sd) = None" by (simp add: validateSeed_None)
  then have "indexed 0 (Segments sd)" by (auto simp: validate_table_def demoteSpill_def split: if_splits)
  then have "Index (Segments sd ! i) = int i" if "i < length (Segments sd)" for i using that by (simp add: indexed_iff)
  then show ?thesis by (auto simp: distinct_conv_nth)
qed

lemma new_engine_inv:
  assumes "newSegmentEngine p = Inr e"
  shows "einv e \<and> \<not> e_running e \<and> e_nextID e = 0 \<and> e_fatal e = None"
proof -
  obtain sd where sd: "p_seed p = Some sd" "ValidateCheckpointSeed (Some sd) = None"
    using assms by (auto simp: newSegmentEngine_def split: option.splits if_splits)
  let ?q = "newSegmentQueue (Segments sd) (Some (seed_completed sd))"
  have f: "e_queue e = ?q" "e_pc e = (\<lambda>_. None)" "e_leases e = (\<lambda>_. None)" "e_draining e = (\<lambda>_. False)"
    "\<not> e_running e" "e_workers e = 0" "e_nextID e = 0" "e_active e = 0" "e_fatal e = None" "\<not> e_cancelled e"
    using assms sd by (auto simp: newSegmentEngine_def split: if_splits option.splits)
  have s: "queue_sys_inv (queue_start (Segments sd) (Some (seed_completed sd)))"
    by (rule queue_start_inv[OF checkpoint_indices[OF sd(2)]])
  have q: "sq_inv ?q" "leases_ok ?q (\<lambda>_. None)"
    using s unfolding queue_sys_inv_alt by (simp_all add: queue_start_def)
  have t: "\<forall>i t. map_of (sq_tasks ?q) i = Some t \<longrightarrow> Index (t_seg t) = i"
    unfolding newSegmentQueue_def keyed_def[symmetric] by (rule new_tasks) (simp add: keyed_def)
  have "sq_closed (foldl (index_segment c) q0 gs) = sq_closed q0" for c q0 gs
    by (induction gs arbitrary: q0) (simp_all add: index_segment_def Let_def)
  then have "\<not> sq_closed ?q" by (simp add: newSegmentQueue_def)
  then show ?thesis using q t
    by (simp add: einv_parts f queue_ok_def waiters_ok_def waits_def lease_fits_def)
qed

lemma spawn_initial_inv: "einv e \<Longrightarrow> einv (spawn_initial n e)"
proof (induction n arbitrary: e)
  case (Suc n)
  obtain ok e1 where s: "spawn True e = (ok, e1)" by fastforce
  then have "einv e1" using spawn_inv Suc.prems by blast
  then show ?case using Suc.IH by (simp add: s)
qed simp

lemma start_inv: "einv e \<Longrightarrow> e_start n e = (None, e1) \<Longrightarrow> einv e1"
proof -
  assume i: "einv e" and s: "e_start n e = (None, e1)"
  have "einv (e\<lparr>e_running := True\<rparr>)"
    by (rule env_step[OF i]) (use i in \<open>auto simp: e_stopped_def ctx_err_def fatal_ok_def einv_parts\<close>)
  then show ?thesis using s spawn_initial_inv by (auto simp: e_start_def split: if_splits)
qed

lemma reachable_inv: "engine_reachable e \<Longrightarrow> einv e"
proof (induction rule: engine_reachable.induct)
  case (built p e n e1)
  then show ?case using new_engine_inv start_inv by blast
next
  case (stepped e e1)
  then show ?case using engine_step_inv by blast
qed

text \<open>C22: A live engine forgets no segment: unless it has stopped, every segment is done, waits in the
  ready list of an open queue, or is held by a live worker; and the workers never outnumber the cap.\<close>

theorem engine_keeps_segments:
  assumes "engine_reachable e" and "\<not> e_stopped e" and "map_of (sq_states (e_queue e)) i = Some s" and "s \<noteq> SegDone"
  shows "((i \<in> set (sq_ready (e_queue e)) \<and> \<not> sq_closed (e_queue e)) \<or> (\<exists>w. e_pc e w \<noteq> None \<and> e_leases e w = Some i)) \<and>
    card {w. e_pc e w \<noteq> None} = e_workers e \<and> e_workers e \<le> e_maxWorkers e"
proof -
  note i = reachable_inv[OF assms(1)]
  have q: "sq_inv (e_queue e)" "leases_ok (e_queue e) (e_leases e)" "closed_ok e" "crew_ok e"
    using i unfolding einv_def queue_ok_def by blast+
  have "1 \<le> remaining (e_queue e)" using unfinished_pos[OF assms(3,4)] q(1) by (simp add: remaining_def sq_inv_def)
  then have open_q: "\<not> sq_closed (e_queue e)" using q(3) assms(2) by (auto simp: closed_ok_def)
  show ?thesis
  proof (cases "s = SegReady")
    case True
    then show ?thesis using q(1,4) open_q assms(3) by (auto simp: sq_inv_def crew_ok_def)
  next
    case False
    then have "s = SegLeased" using assms(4) by (cases s) auto
    then obtain w where w: "e_leases e w = Some i" using q(2) assms(3) unfolding leases_ok_def by blast
    have "e_pc e w \<noteq> None" using fits_at[OF i, of w] w assms(2) by (auto simp: lease_fits_def split: option.splits)
    then show ?thesis using w q(4) unfolding crew_ok_def by blast
  qed
qed

text \<open>C23: A run ends complete: when the workers of an engine that was never stopped and never drained
  have all left, every segment is accepted and \<open>wait\<close> reports success.\<close>

theorem engine_completes:
  assumes "engine_reachable e" and "\<not> e_stopped e" and "\<forall>w. \<not> e_draining e w" and "0 < e_nextID e" and "e_workers e = 0"
  shows "remaining (e_queue e) = 0 \<and> e_wait e = None"
proof -
  note i = reachable_inv[OF assms(1)]
  have c: "crew_ok e" "exits_ok e" "closed_ok e" using i by (simp_all add: einv_def)
  have "{w. e_pc e w \<noteq> None} = {}" using c(1) crew_finite[OF c(1)] assms(5) by (simp add: crew_ok_def)
  then have "e_pc e 0 = None" by auto
  then have "sq_closed (e_queue e)" using c(2) assms(2-4) by (auto simp: exits_ok_def)
  then have "remaining (e_queue e) = 0" using c(3) assms(2) by (simp add: closed_ok_def)
  then show ?thesis using assms(2) by (simp add: e_wait_def e_stopped_def ctx_err_def split: option.splits)
qed

lemma step_fatal: "engine_step e e1 \<Longrightarrow> e_fatal e = Some f \<Longrightarrow> e_fatal e1 = Some f"
proof (induction rule: engine_step.induct)
  case (turn e w)
  then show ?case
    by (auto simp: worker_turn_def releaseWorker_def set_pc_def give_back_def
        split: worker_pc.splits option.splits prod.splits pop_turn.splits)
next
  case (attempt e w i env acc dup stop err oc e1)
  then have "e_fatal e1 = Some f" by (auto simp: settle_task_def Let_def split: option.splits prod.splits)
  then show ?case
    by (auto simp: after_settle_def set_pc_def releaseWorker_def latchFatal_def Let_def seal_def
        split: outcome_action.splits option.splits)
next
  case (admit e b e1)
  then show ?case by (auto simp: spawn_def split: if_splits)
next
  case (mark_drain w e b e1)
  then show ?case by (auto simp: markDraining_def split: option.splits)
next
  case (latch e err)
  then show ?case by (auto simp: latchFatal_def Let_def seal_def split: option.splits)
qed (simp_all add: releaseWorker_def set_pc_def setAdmissionOpen_def e_stop_def seal_def Let_def)

text \<open>C24: \<open>wait\<close> never claims success early: it reports none of its errors only when every segment is
  accepted; and the first fatal error, once latched, stays the head of its answer for good.\<close>

theorem wait_is_honest:
  assumes "engine_reachable e"
  shows "(e_wait e = None \<longrightarrow> (\<forall>i s. map_of (sq_states (e_queue e)) i = Some s \<longrightarrow> s = SegDone)) \<and>
    (e_fatal e = Some f \<longrightarrow> take (length f) (the (e_wait e)) = f \<and> (engine_step e e1 \<longrightarrow> e_fatal e1 = Some f))"
proof (intro conjI impI allI)
  fix i s
  assume w: "e_wait e = None" "map_of (sq_states (e_queue e)) i = Some s"
  then have "remaining (e_queue e) = 0" by (auto simp: e_wait_def split: option.splits if_splits)
  then have "unfinished (sq_states (e_queue e)) = 0"
    using reachable_inv[OF assms] by (simp add: einv_def queue_ok_def sq_inv_def remaining_def)
  then show "s = SegDone" using unfinished_pos[OF w(2)] by auto
next
  assume "e_fatal e = Some f"
  then show "take (length f) (the (e_wait e)) = f" by (auto simp: e_wait_def split: option.splits)
next
  assume "e_fatal e = Some f" "engine_step e e1"
  then show "e_fatal e1 = Some f" using step_fatal by blast
qed

section \<open>A concrete run\<close>

definition one_seed :: resume_state where
  "one_seed = demo_state\<lparr>TotalSegments := 1, Segments := [only_segment], CompletedBitmap := [0]\<rparr>"

definition one_params :: engine_params where
  "one_params = \<lparr>p_seed = Some one_seed, p_hasWindow = True, p_hasProgress = True, p_urlError = None, p_parent = None,
     p_maxWorkers = 4, p_hosts = Map.empty\<rparr>"

definition built_engine :: engine where
  "built_engine = \<lparr>e_queue = newSegmentQueue [only_segment] (Some (seed_completed one_seed)), e_hosts = Map.empty,
     e_pc = (\<lambda>_. None), e_leases = (\<lambda>_. None), e_draining = (\<lambda>_. False), e_running = False, e_sealed = False,
     e_workers = 0, e_nextID = 0, e_maxWorkers = 4, e_admission = False, e_active = 0, e_cancelled = False,
     e_parent = None, e_fatal = None\<rparr>"

lemma one_built: "newSegmentEngine one_params = Inr built_engine"
proof -
  have v: "ValidateCheckpointSeed (Some one_seed) = None" by code_simp
  show ?thesis
    by (simp add: newSegmentEngine_def one_params_def v built_engine_def) (simp add: one_seed_def demo_state_def)
qed

definition one_engine :: engine where
  "one_engine = snd (e_start 1 built_engine)"

lemma one_reachable: "engine_reachable one_engine"
proof -
  have "fst (e_start 1 built_engine) = None" by code_simp
  then show ?thesis using engine_reachable.built[OF one_built, of 1] by (simp add: one_engine_def prod_eq_iff)
qed

text \<open>Worker 0 takes its turns, and its attempts are accepted.\<close>

definition accept_turn :: "engine \<Rightarrow> engine" where
  "accept_turn e =
     (case e_pc e 0 of
        None \<Rightarrow> e
      | Some (Trying i) \<Rightarrow>
          (case settle_task 0 i calm_env True False StopNone None e of None \<Rightarrow> e | Some (oc, e1) \<Rightarrow> after_settle 0 i oc e1)
      | Some p \<Rightarrow> worker_turn 0 e)"

lemma accept_reachable: "engine_reachable e \<Longrightarrow> engine_reachable (accept_turn e)"
  by (auto simp: accept_turn_def split: option.splits worker_pc.splits
      intro: engine_reachable.stepped engine_step.turn engine_step.attempt)

definition final_engine :: engine where
  "final_engine = (accept_turn ^^ 7) one_engine"

lemma final_reachable: "engine_reachable final_engine"
proof -
  have "engine_reachable ((accept_turn ^^ n) one_engine)" for n
    by (induction n) (simp_all add: one_reachable accept_reachable)
  then show ?thesis by (simp add: final_engine_def)
qed

definition solo :: "segment_queue \<Rightarrow> worker_pc option \<Rightarrow> int option \<Rightarrow> nat \<Rightarrow> engine" where
  "solo q p l n = \<lparr>e_queue = q, e_hosts = Map.empty, e_pc = (\<lambda>_. None)(0 := p), e_leases = (\<lambda>_. None)(0 := l),
     e_draining = (\<lambda>_. False), e_running = True, e_sealed = False, e_workers = n, e_nextID = 1, e_maxWorkers = 4,
     e_admission = False, e_active = int n, e_cancelled = False, e_parent = None, e_fatal = None\<rparr>"

definition done_queue :: segment_queue where
  "done_queue = \<lparr>sq_notify = 1, sq_ready = [], sq_tasks = [(0, new_task only_segment)], sq_states = [(0, SegDone)],
     sq_pending = 0, sq_closed = True\<rparr>"

lemma one_solo: "one_engine = solo (demo_queue 0 [0] SegReady) (Some AtTop) None 1"
proof -
  have "\<not> seed_completed one_seed 0" by code_simp
  then have "newSegmentQueue [only_segment] (Some (seed_completed one_seed)) = demo_queue 0 [0] SegReady"
    by (simp add: newSegmentQueue_def index_segment_def demo_queue_def only_segment_def assign_def drop_key_def)
  then show ?thesis
    by (simp add: one_engine_def e_start_def built_engine_def spawn_def Let_def ctx_err_def remaining_def demo_queue_def
        solo_def fun_eq_iff)
qed

lemma solo_turns:
  "accept_turn (solo q (Some AtTop) None n) = solo q (Some Popping) None n"
  "accept_turn (solo (demo_queue 0 [0] SegReady) (Some Popping) None n) = solo (demo_queue 0 [] SegLeased) (Some (Leased 0)) (Some 0) n"
  "accept_turn (solo q (Some (Leased i)) l n) = solo q (Some (Running i)) l n"
  "accept_turn (solo q (Some (Running i)) l n) = solo q (Some (Trying i)) l n"
  "accept_turn (solo done_queue (Some Popping) None (Suc 0)) = solo done_queue None None 0"
  by (simp_all add: accept_turn_def worker_turn_def solo_def set_pc_def e_stopped_def ctx_err_def demo_queue_def assign_def drop_key_def
      done_queue_def sq_pop_def releaseWorker_def)

lemma solo_accept:
  "accept_turn (solo (demo_queue 0 [] SegLeased) (Some (Trying 0)) (Some 0) n) = solo done_queue (Some AtTop) None n"
  by (simp add: accept_turn_def solo_def settle_task_def after_settle_def settleOutcome_def Let_def demo_queue_def
      new_task_def only_segment_def maybeComplete_def sq_finish_def lease_of_def assign_def drop_key_def remaining_def
      sq_close_def wakeLocked_def done_queue_def set_pc_def env_of_def)

lemma final_solo: "final_engine = solo done_queue None None 0"
  by (simp add: final_engine_def one_solo eval_nat_numeral solo_turns solo_accept)

lemma final_facts:
  "e_workers final_engine = 0 \<and> e_nextID final_engine = 1 \<and> \<not> e_stopped final_engine \<and>
    map_of (sq_states (e_queue final_engine)) 0 = Some SegDone"
  by (simp add: final_solo solo_def done_queue_def e_stopped_def ctx_err_def)

theorem engine_completes_witness:
  "e_workers final_engine = 0 \<and> remaining (e_queue final_engine) = 0 \<and> e_wait final_engine = None"
proof -
  have "\<forall>w. \<not> e_draining final_engine w" by (simp add: final_solo solo_def)
  then show ?thesis using engine_completes[OF final_reachable] final_facts by auto
qed

theorem engine_keeps_segments_witness:
  "\<not> sq_closed (e_queue one_engine) \<and> 0 \<in> set (sq_ready (e_queue one_engine)) \<or> (\<exists>w. e_leases one_engine w = Some 0)"
proof -
  have f: "\<not> e_stopped one_engine" "map_of (sq_states (e_queue one_engine)) 0 = Some SegReady"
    by (simp_all add: one_solo solo_def demo_queue_def e_stopped_def ctx_err_def)
  from engine_keeps_segments[OF one_reachable f] show ?thesis by auto
qed

theorem wait_is_honest_witness:
  "e_wait final_engine = None \<and> map_of (sq_states (e_queue final_engine)) 0 = Some SegDone"
proof -
  have "e_wait final_engine = None"
    by (simp add: final_solo solo_def done_queue_def e_wait_def remaining_def)
  moreover obtain s where s: "map_of (sq_states (e_queue final_engine)) 0 = Some s"
    by (simp add: final_solo solo_def done_queue_def)
  ultimately show ?thesis using wait_is_honest[OF final_reachable] by auto
qed

end
