(* ===== verification/HlsText.thy ===== *)
theory HlsText
  imports HlsEngine
begin

text \<open>
Reading manifests, the tokens (strategy/hls/manifest.go): attribute lists, byte ranges, IVs, resolutions, codecs and
  URI resolution on byte strings. White space is the ASCII one; the URL parser of the library is an argument.
\<close>

section \<open>Reading tokens\<close>

text \<open>\<open>strings.HasPrefix\<close>, the text after a prefix, \<open>strings.Split\<close> at a character, and \<open>strings.EqualFold\<close>.\<close>

definition hasPrefix :: "string \<Rightarrow> string \<Rightarrow> bool" where
  "hasPrefix p s \<longleftrightarrow> take (length p) s = p"

definition after :: "string \<Rightarrow> string \<Rightarrow> string" where
  "after p s = drop (length p) s"

fun split_at :: "char \<Rightarrow> string \<Rightarrow> string list" where
  "split_at sep [] = [[]]"
| "split_at sep (c # cs) =
     (if c = sep then [] # split_at sep cs
      else case split_at sep cs of [] \<Rightarrow> [[c]] | p # ps \<Rightarrow> (c # p) # ps)"

definition equalFold :: "string \<Rightarrow> string \<Rightarrow> bool" where
  "equalFold a b \<longleftrightarrow> lower a = lower b"

definition before :: "char \<Rightarrow> string \<Rightarrow> string" where
  "before sep s = takeWhile (\<lambda>c. c \<noteq> sep) s"

text \<open>
  \<open>v, _ := strconv.ParseInt(s, 10, 64)\<close> with the error dropped: zero on a malformed number, the nearest
  bound on one that does not fit. The digit loop stops at the first overflow of 64 unsigned bits.
\<close>

fun digits_sat :: "string \<Rightarrow> int \<Rightarrow> int option" where
  "digits_sat [] acc = Some acc"
| "digits_sat (c # cs) acc =
     (let d = int (of_char c) - 48 in
      if 0 \<le> d \<and> d \<le> 9 then (if 10 * acc + d > 2 ^ 64 - 1 then Some (2 ^ 64 - 1) else digits_sat cs (10 * acc + d)) else None)"

definition parseInt_value :: "string \<Rightarrow> int" where
  "parseInt_value s =
     (let neg = (s \<noteq> [] \<and> hd s = CHR ''-'');
          ds = (if s \<noteq> [] \<and> (hd s = CHR ''-'' \<or> hd s = CHR ''+'') then tl s else s)
      in if ds = [] then 0
         else case digits_sat ds 0 of None \<Rightarrow> 0
              | Some n \<Rightarrow> if neg then (if n > 2 ^ 63 then - (2 ^ 63) else - n) else (if n \<ge> 2 ^ 63 then 2 ^ 63 - 1 else n))"

section \<open>Attribute lists\<close>

definition blank :: "char \<Rightarrow> bool" where
  "blank c \<longleftrightarrow> c = CHR '' '' \<or> c = CHR 0x09"

definition quote :: char where
  "quote = CHR 0x22"

text \<open>
  The index loop of \<open>parseAttributeList\<close> as a recursion on the text from the index on. The map is an
  association list, the latest entry first: a repeated name overrides.
\<close>

type_synonym attributes = "(string \<times> string) list"

function parse_attrs :: "string \<Rightarrow> attributes \<Rightarrow> attributes option" where
  "parse_attrs raw attrs =
     (let s = dropWhile blank raw in
      if s = [] then Some attrs
      else
        let r = dropWhile (\<lambda>c. c \<noteq> CHR ''='' \<and> c \<noteq> CHR '','') s in
        if r = [] \<or> hd r \<noteq> CHR ''='' then None
        else
          let key = trim_space (takeWhile (\<lambda>c. c \<noteq> CHR ''='' \<and> c \<noteq> CHR '','') s) in
          if key = [] then None
          else if tl r \<noteq> [] \<and> hd (tl r) = quote then
            (let q = dropWhile (\<lambda>c. c \<noteq> quote) (tl (tl r)) in
             if q = [] then None
             else let t = dropWhile blank (tl q) in
                  if t \<noteq> [] \<and> hd t \<noteq> CHR '','' then None
                  else parse_attrs (tl t) ((key, takeWhile (\<lambda>c. c \<noteq> quote) (tl (tl r))) # attrs))
          else parse_attrs (tl (dropWhile (\<lambda>c. c \<noteq> CHR '','') (tl r)))
                 ((key, trim_space (takeWhile (\<lambda>c. c \<noteq> CHR '','') (tl r))) # attrs))"
  by pat_completeness auto

lemma shorter_drop: "length (tl (dropWhile P xs)) \<le> length xs"
  using length_dropWhile_le[of P xs] by (simp only: length_tl)

lemma shorter_rest:
  assumes "dropWhile Q (dropWhile P raw) \<noteq> []"
  shows "length (tl (dropWhile Q (dropWhile P raw))) < length raw"
proof -
  have "length (dropWhile Q (dropWhile P raw)) \<le> length raw"
    by (meson length_dropWhile_le order_trans)
  moreover have "0 < length (dropWhile Q (dropWhile P raw))" using assms by blast
  ultimately show ?thesis by (simp only: length_tl)
qed

termination parse_attrs
proof (relation "measure (length \<circ> fst)", goal_cases)
  case (2 raw attrs s r key q t)
  have "length (tl t) \<le> length (tl q)" unfolding 2 by (rule shorter_drop)
  also have "\<dots> \<le> length (tl (tl r))" unfolding 2 by (rule shorter_drop)
  also have "\<dots> \<le> length (tl r)" by simp
  also have "\<dots> < length raw" unfolding 2 by (rule shorter_rest) (use 2 in auto)
  finally show ?case by simp
next
  case (3 raw attrs s r key)
  have "length (tl (dropWhile (\<lambda>c. c \<noteq> CHR '','') (tl r))) \<le> length (tl r)" by (rule shorter_drop)
  also have "\<dots> < length raw" unfolding 3 by (rule shorter_rest) (use 3 in auto)
  finally show ?case by simp
qed simp

declare parse_attrs.simps [simp del]

definition parseAttributeList :: "string \<Rightarrow> go_error + attributes" where
  "parseAttributeList raw = (case parse_attrs raw [] of None \<Rightarrow> Inl [CInvalidManifest] | Some a \<Rightarrow> Inr a)"

definition attr :: "attributes \<Rightarrow> string \<Rightarrow> string" where
  "attr a k = (case map_of a k of None \<Rightarrow> [] | Some v \<Rightarrow> v)"

section \<open>Values\<close>

text \<open>\<open><n>[@<o>]\<close>: the length, the offset and whether the offset was written.\<close>

definition parseByteRangeValue :: "string \<Rightarrow> go_error + (int \<times> int \<times> bool)" where
  "parseByteRangeValue v =
     (let s = trim_space v;
          (first, second) = (case cut (CHR ''@'') s of None \<Rightarrow> (s, None) | Some (a, b) \<Rightarrow> (a, Some b))
      in case atoi (trim_space first) of
           None \<Rightarrow> Inl [CInvalidManifest]
         | Some len \<Rightarrow>
             if len \<le> 0 then Inl [CInvalidManifest]
             else (case second of
                 None \<Rightarrow> Inr (len, 0, False)
               | Some b \<Rightarrow>
                   (case atoi (trim_space b) of
                      None \<Rightarrow> Inl [CInvalidManifest]
                    | Some off \<Rightarrow> if off < 0 then Inl [CInvalidManifest] else Inr (len, off, True))))"

definition is_hex :: "char \<Rightarrow> bool" where
  "is_hex c \<longleftrightarrow> (let n = of_char c :: nat in 48 \<le> n \<and> n \<le> 57 \<or> 97 \<le> n \<and> n \<le> 102 \<or> 65 \<le> n \<and> n \<le> 70)"

definition normalizeIVHex :: "string \<Rightarrow> go_error + string" where
  "normalizeIVHex raw =
     (let s = trim_space raw; h = drop 2 s in
      if length s \<ge> 2 \<and> (take 2 s = ''0x'' \<or> take 2 s = ''0X'') \<and> 1 \<le> length h \<and> length h \<le> 32 \<and> list_all is_hex h
      then Inr (replicate (32 - length h) (CHR ''0'') @ lower h)
      else Inl [CInvalidManifest])"

definition is_x :: "char \<Rightarrow> bool" where
  "is_x c \<longleftrightarrow> c = CHR ''x'' \<or> c = CHR ''X''"

definition parseResolution :: "string \<Rightarrow> int \<times> int" where
  "parseResolution raw =
     (let s = trim_space raw; a = takeWhile (\<lambda>c. \<not> is_x c) s; r = dropWhile (\<lambda>c. \<not> is_x c) s in
      if a = [] \<or> r = [] \<or> tl r = [] then (0, 0)
      else (case (atoi (trim_space a), atoi (trim_space (tl r))) of
          (Some w, Some h) \<Rightarrow> if w \<le> 0 \<or> h \<le> 0 then (0, 0) else (w, h)
        | _ \<Rightarrow> (0, 0)))"

definition audioOnlyCodecPrefixes :: "string list" where
  "audioOnlyCodecPrefixes = [''mp4a'', ''ac-3'', ''ec-3'', ''opus'', ''flac'', ''vorbis'', ''aac'', ''mp3'', ''alac'', ''speex'']"

definition isAudioOnlyVariant :: "int \<Rightarrow> int \<Rightarrow> string \<Rightarrow> bool" where
  "isAudioOnlyVariant w h codecs \<longleftrightarrow>
     w = 0 \<and> h = 0 \<and>
     (let ps = filter (\<lambda>p. p \<noteq> []) (map (\<lambda>c. before (CHR ''.'') (lower (trim_space c))) (split_at (CHR '','') (trim_space codecs)))
      in ps \<noteq> [] \<and> list_all (\<lambda>p. p \<in> set audioOnlyCodecPrefixes) ps)"

text \<open>
  \<open>resolveManifestURI\<close>. The URL parser and \<open>ResolveReference\<close> against the base are an argument: they answer the
  scheme, the host and the printed form of the resolved reference.
\<close>

type_synonym resolver = "string \<Rightarrow> (string \<times> string \<times> string) option"

definition resolveManifestURI :: "resolver \<Rightarrow> string \<Rightarrow> go_error + string" where
  "resolveManifestURI rs rawRef =
     (let r = trim_space rawRef in
      if r = [] then Inl [CInvalidManifest]
      else if list_ex is_space r then Inl [CInvalidManifest]
      else (case rs r of
          None \<Rightarrow> Inl [CInvalidManifest]
        | Some (scheme, host, printed) \<Rightarrow>
            if (\<not> equalFold scheme ''http'' \<and> \<not> equalFold scheme ''https'') \<or> host = [] then Inl [CInvalidManifest]
            else Inr printed))"

section \<open>Attribute lists, printed and parsed\<close>

datatype attr_value = Quoted string | Token string

fun value_text :: "attr_value \<Rightarrow> string" where
  "value_text (Quoted q) = q"
| "value_text (Token t) = t"

fun print_attr :: "string \<times> attr_value \<Rightarrow> string" where
  "print_attr (n, Quoted q) = n @ CHR ''='' # quote # q @ [quote]"
| "print_attr (n, Token t) = n @ CHR ''='' # t"

fun print_attrs :: "(string \<times> attr_value) list \<Rightarrow> string" where
  "print_attrs [] = []"
| "print_attrs [x] = print_attr x"
| "print_attrs (x # y # ys) = print_attr x @ CHR '','' # print_attrs (y # ys)"

fun clean_attr :: "string \<times> attr_value \<Rightarrow> bool" where
  "clean_attr (n, v) \<longleftrightarrow> n \<noteq> [] \<and> trim_space n = n \<and> CHR ''='' \<notin> set n \<and> CHR '','' \<notin> set n \<and>
     (case v of Quoted q \<Rightarrow> quote \<notin> set q
      | Token t \<Rightarrow> trim_space t = t \<and> CHR '','' \<notin> set t \<and> (t \<noteq> [] \<longrightarrow> hd t \<noteq> quote))"

lemma trim_space_length: "length (trim_space s) \<le> length (dropWhile is_space s)"
  unfolding trim_space_def by (metis length_dropWhile_le length_rev)

lemma trimmed_hd: "trim_space n = n \<Longrightarrow> n \<noteq> [] \<Longrightarrow> \<not> is_space (hd n)"
proof
  assume t: "trim_space n = n" "n \<noteq> []" and s: "is_space (hd n)"
  then have "length (dropWhile is_space n) < length n"
    using length_dropWhile_le[of is_space "tl n"] by (cases n) auto
  then show False using trim_space_length[of n] t by simp
qed

lemma blank_space: "blank c \<Longrightarrow> is_space c"
  by (auto simp: blank_def is_space_def)

lemma take_until: "sep \<notin> set a \<Longrightarrow> takeWhile (\<lambda>c. c \<noteq> sep) (a @ sep # b) = a \<and> dropWhile (\<lambda>c. c \<noteq> sep) (a @ sep # b) = sep # b"
  by (induction a) auto

lemma take_all: "sep \<notin> set a \<Longrightarrow> takeWhile (\<lambda>c. c \<noteq> sep) a = a \<and> dropWhile (\<lambda>c. c \<noteq> sep) a = []"
  by (induction a) auto

lemma until_rest:
  assumes "sep \<notin> set a" and "rest = [] \<or> hd rest = sep"
  shows "takeWhile (\<lambda>c. c \<noteq> sep) (a @ rest) = a \<and> dropWhile (\<lambda>c. c \<noteq> sep) (a @ rest) = rest"
proof (cases rest)
  case Nil
  then show ?thesis using take_all[OF assms(1)] by simp
next
  case (Cons c cs)
  then show ?thesis using take_until[OF assms(1), of cs] assms(2) by simp
qed

lemma take_name: "CHR ''='' \<notin> set n \<Longrightarrow> CHR '','' \<notin> set n \<Longrightarrow>
    takeWhile (\<lambda>c. c \<noteq> CHR ''='' \<and> c \<noteq> CHR '','') (n @ CHR ''='' # b) = n \<and>
    dropWhile (\<lambda>c. c \<noteq> CHR ''='' \<and> c \<noteq> CHR '','') (n @ CHR ''='' # b) = CHR ''='' # b"
  by (induction n) auto

lemma skip_blank:
  assumes "n \<noteq> []" and "trim_space n = n"
  shows "dropWhile blank (n @ b) = n @ b"
proof -
  have "\<not> blank (hd n)" using trimmed_hd[OF assms(2,1)] blank_space by blast
  then show ?thesis using assms(1) by (cases n) auto
qed

lemma not_blank_comma: "\<not> blank (CHR '','')"
  by (simp add: blank_def)

lemma parse_one:
  assumes c: "clean_attr (n, v)" and r: "rest = [] \<or> hd rest = CHR '',''"
  shows "parse_attrs (print_attr (n, v) @ rest) acc = parse_attrs (tl rest) ((n, value_text v) # acc)"
proof -
  have n: "n \<noteq> []" "trim_space n = n" "CHR ''='' \<notin> set n" "CHR '','' \<notin> set n" using c by auto
  have d: "dropWhile blank rest = rest" using r not_blank_comma by (cases rest) auto
  have r': "\<not> (rest \<noteq> [] \<and> hd rest \<noteq> CHR '','')" using r by blast
  note t = n take_name[OF n(3,4)] skip_blank[OF n(1,2)]
  show ?thesis
  proof (cases v)
    case (Quoted q)
    then have "quote \<notin> set q" using c by simp
    then have q: "takeWhile (\<lambda>x. x \<noteq> quote) (q @ quote # rest) = q" "dropWhile (\<lambda>x. x \<noteq> quote) (q @ quote # rest) = quote # rest"
      using take_until[of quote q rest] by blast+
    have l: "parse_attrs (n @ CHR ''='' # quote # q @ quote # rest) acc = parse_attrs (tl rest) ((n, q) # acc)"
      by (subst parse_attrs.simps)
        (use r' in \<open>simp only: t q d Let_def list.sel list.distinct append_is_Nil_conv if_False if_True simp_thms\<close>)
    then show ?thesis using Quoted by simp
  next
    case (Token w)
    then have w: "trim_space w = w" "CHR '','' \<notin> set w" "w \<noteq> [] \<longrightarrow> hd w \<noteq> quote" using c by auto
    have h: "\<not> (w @ rest \<noteq> [] \<and> hd (w @ rest) = quote)" using w(3) r by (cases w) (auto simp: quote_def)
    have e: "takeWhile (\<lambda>x. x \<noteq> CHR '','') (w @ rest) = w" "tl (dropWhile (\<lambda>x. x \<noteq> CHR '','') (w @ rest)) = tl rest"
      using until_rest[OF w(2) r] by simp_all
    have "parse_attrs (n @ CHR ''='' # w @ rest) acc = parse_attrs (tl rest) ((n, w) # acc)"
      by (subst parse_attrs.simps) (use h in \<open>simp only: t e w Let_def list.sel list.distinct append_is_Nil_conv if_False if_True simp_thms\<close>)
    then show ?thesis using Token by simp
  qed
qed

lemma parse_all: "list_all clean_attr xs \<Longrightarrow>
  parse_attrs (print_attrs xs) acc = Some (rev (map (\<lambda>(n, v). (n, value_text v)) xs) @ acc)"
proof (induction xs arbitrary: acc rule: print_attrs.induct)
  case 1
  then show ?case by (subst parse_attrs.simps) simp
next
  case (2 x)
  obtain n v where x: "x = (n, v)" by fastforce
  have e: "parse_attrs [] ((n, value_text v) # acc) = Some ((n, value_text v) # acc)" by (subst parse_attrs.simps) simp
  show ?case using parse_one[of n v "[]" acc] 2 e by (simp add: x)
next
  case (3 x y ys)
  obtain n v where x: "x = (n, v)" by fastforce
  show ?case using parse_one[of n v "CHR '','' # print_attrs (y # ys)" acc] 3 by (simp add: x)
qed

text \<open>Attribute lists survive printing and parsing: of a list of distinct names with quoted or plain values, the
  parser gives back every value under its name.\<close>

theorem attribute_list_roundtrip:
  assumes "list_all clean_attr xs" and "distinct (map fst xs)"
  shows "\<exists>a. parseAttributeList (print_attrs xs) = Inr a \<and> (\<forall>(n, v) \<in> set xs. attr a n = value_text v)"
proof -
  let ?a = "rev (map (\<lambda>(n, v). (n, value_text v)) xs)"
  have "map fst ?a = rev (map fst xs)" by (simp add: rev_map comp_def case_prod_unfold)
  then have d: "distinct (map fst ?a)" using assms(2) by simp
  have "map_of ?a n = Some (value_text v)" if "(n, v) \<in> set xs" for n v
    by (rule map_of_is_SomeI[OF d]) (use that in \<open>force\<close>)
  then show ?thesis using parse_all[OF assms(1)] by (fastforce simp: parseAttributeList_def attr_def)
qed

theorem attribute_list_roundtrip_witness:
  "\<exists>a. parseAttributeList (''URI='' @ [quote] @ ''a,b'' @ [quote] @ '',METHOD=NONE'') = Inr a \<and> attr a ''URI'' = ''a,b''"
proof -
  let ?xs = "[(''URI'', Quoted ''a,b''), (''METHOD'', Token ''NONE'')]"
  have "list_all clean_attr ?xs" "distinct (map fst ?xs)" by code_simp+
  from attribute_list_roundtrip[OF this] show ?thesis by fastforce
qed

end
