(* ===== verification/HlsManifest.thy ===== *)
theory HlsManifest
  imports HlsText Complex_Main
begin

text \<open>
The playlist parser (strategy/hls/manifest.go): \<open>media_line\<close> is one turn of the loop of \<open>parseMediaPlaylist\<close> over the
  variables of that function, \<open>master_lines\<close> the loop of \<open>parseMasterPlaylist\<close>; then the fingerprint, the selection of a
  variant and the document entry \<open>ParsePlaylist\<close>. Error messages are left out: an error is its cause.
\<close>

section \<open>Media playlists\<close>

record init_map =
  im_URI :: string
  im_ByteOffset :: int
  im_ByteLength :: int
  im_KeyIndex :: int
  im_IVHex :: string

record media_playlist =
  mp_BaseURL :: string
  mp_TargetDuration :: int
  mp_SequenceBase :: int
  mp_DiscontinuitySeq :: int
  mp_PlaylistType :: string
  mp_EndList :: bool
  mp_Container :: string
  mp_InitMap :: "init_map option"
  mp_TotalMicros :: int
  mp_Fingerprint :: string
  mp_SegmentRefURL :: string
  mp_Keys :: "hls_key list"
  mp_Segments :: "hls_segment list"

text \<open>
  What the parser takes from the libraries: the URL parser with the base it resolves against, the float
  parser, the rounding of seconds to microseconds, the escaped path of a URL, \<open>%q\<close> and SHA-256 in hex.
\<close>

datatype float_value = NotANumber | Infinite | Finite rat

record parser_env =
  r_resolve :: resolver
  r_base :: string
  r_float :: "string \<Rightarrow> float_value option"
  r_micros :: "rat \<Rightarrow> int"
  r_path :: "string \<Rightarrow> string option"
  r_quote :: "string \<Rightarrow> string"
  r_sha :: "string \<Rightarrow> string"

definition maxManifestKeys :: nat where
  "maxManifestKeys = 4096"

definition maxManifestSegments :: nat where
  "maxManifestSegments = 262144"

text \<open>The variables of \<open>parseMediaPlaylist\<close>.\<close>

record media_state =
  m_segments :: "hls_segment list"
  m_keys :: "hls_key list"
  m_keyIndexByID :: "((string \<times> string) \<times> int) list"
  m_initMap :: "init_map option"
  m_discAfterMap :: bool
  m_seenDisc :: bool
  m_endList :: bool
  m_seqSeen :: bool
  m_discSeqSeen :: bool
  m_keyIndex :: int
  m_ivHex :: string
  m_hasInf :: bool
  m_durMicros :: int
  m_hasRange :: bool
  m_byteLen :: int
  m_byteOff :: int
  m_offExplicit :: bool
  m_totalMicros :: int
  m_target :: int
  m_seqBase :: int
  m_discSeq :: int
  m_type :: string
  m_container :: string

definition media_start :: media_state where
  "media_start = \<lparr>m_segments = [], m_keys = [], m_keyIndexByID = [], m_initMap = None, m_discAfterMap = False,
     m_seenDisc = False, m_endList = False, m_seqSeen = False, m_discSeqSeen = False, m_keyIndex = 0, m_ivHex = [],
     m_hasInf = False, m_durMicros = 0, m_hasRange = False, m_byteLen = 0, m_byteOff = 0, m_offExplicit = False,
     m_totalMicros = 0, m_target = 0, m_seqBase = 0, m_discSeq = 0, m_type = [], m_container = ''ts''\<rparr>"

definition natural_value :: "string \<Rightarrow> go_error + int" where
  "natural_value s = (case atoi (trim_space s) of
     None \<Rightarrow> Inl [CInvalidManifest] | Some v \<Rightarrow> if v < 0 then Inl [CInvalidManifest] else Inr v)"

definition on_sequence :: "string \<Rightarrow> media_state \<Rightarrow> go_error + media_state" where
  "on_sequence v m =
     (if m_seqSeen m \<or> m_segments m \<noteq> [] then Inl [CInvalidManifest]
      else case natural_value v of Inl e \<Rightarrow> Inl e | Inr n \<Rightarrow> Inr (m\<lparr>m_seqSeen := True, m_seqBase := n\<rparr>))"

definition on_discontinuity_sequence :: "string \<Rightarrow> media_state \<Rightarrow> go_error + media_state" where
  "on_discontinuity_sequence v m =
     (if m_discSeqSeen m \<or> m_seenDisc m \<or> m_segments m \<noteq> [] then Inl [CInvalidManifest]
      else case natural_value v of Inl e \<Rightarrow> Inl e | Inr n \<Rightarrow> Inr (m\<lparr>m_discSeqSeen := True, m_discSeq := n\<rparr>))"

definition on_target :: "string \<Rightarrow> media_state \<Rightarrow> go_error + media_state" where
  "on_target v m = (case natural_value v of Inl e \<Rightarrow> Inl e | Inr n \<Rightarrow> Inr (m\<lparr>m_target := n\<rparr>))"

definition on_discontinuity :: "media_state \<Rightarrow> media_state" where
  "on_discontinuity m = m\<lparr>m_seenDisc := True, m_discAfterMap := m_discAfterMap m \<or> m_initMap m \<noteq> None\<rparr>"

definition map_range :: "attributes \<Rightarrow> go_error + (int \<times> int)" where
  "map_range a =
     (if attr a ''BYTERANGE'' = [] then Inr (0, 0)
      else case parseByteRangeValue (attr a ''BYTERANGE'') of Inl e \<Rightarrow> Inl e | Inr (len, off, _) \<Rightarrow> Inr (off, len))"

definition on_map :: "parser_env \<Rightarrow> string \<Rightarrow> media_state \<Rightarrow> go_error + media_state" where
  "on_map env v m =
     (if m_initMap m = None \<and> m_segments m \<noteq> [] then Inl [CDiscontinuityMap]
      else case parseAttributeList v of Inl e \<Rightarrow> Inl e | Inr a \<Rightarrow>
        (if attr a ''URI'' = [] then Inl [CInvalidManifest]
         else case resolveManifestURI (r_resolve env) (attr a ''URI'') of Inl e \<Rightarrow> Inl e | Inr resolved \<Rightarrow>
           (case map_range a of Inl e \<Rightarrow> Inl e | Inr (off, len) \<Rightarrow>
             (if m_keyIndex m > 0 \<and> m_ivHex m = [] then Inl [CInvalidManifest]
              else (let new = \<lparr>im_URI = resolved, im_ByteOffset = off, im_ByteLength = len,
                             im_KeyIndex = m_keyIndex m, im_IVHex = m_ivHex m\<rparr> in
                case m_initMap m of
                  None \<Rightarrow> Inr (m\<lparr>m_initMap := Some new, m_container := ''fmp4''\<rparr>)
                | Some old \<Rightarrow> if m_discAfterMap m \<or> old \<noteq> new then Inl [CDiscontinuityMap] else Inr m)))))"

definition intern_key :: "string \<Rightarrow> string \<Rightarrow> media_state \<Rightarrow> go_error + media_state" where
  "intern_key uri iv m =
     (case map_of (m_keyIndexByID m) (uri, iv) of
        Some idx \<Rightarrow> Inr (m\<lparr>m_keyIndex := idx, m_ivHex := iv\<rparr>)
      | None \<Rightarrow>
          if length (m_keys m) \<ge> maxManifestKeys then Inl [CInvalidManifest]
          else (let ks = m_keys m @ [\<lparr>key_Method = ''AES-128'', key_URI = uri, key_IVHex = iv\<rparr>] in
            Inr (m\<lparr>m_keys := ks, m_keyIndexByID := ((uri, iv), int (length ks)) # m_keyIndexByID m,
                   m_keyIndex := int (length ks), m_ivHex := iv\<rparr>)))"

definition foreign_format :: "attributes \<Rightarrow> bool" where
  "foreign_format a \<longleftrightarrow> attr a ''KEYFORMAT'' \<noteq> [] \<and> \<not> equalFold (attr a ''KEYFORMAT'') ''identity''"

definition on_key :: "parser_env \<Rightarrow> string \<Rightarrow> media_state \<Rightarrow> go_error + media_state" where
  "on_key env v m =
     (case parseAttributeList v of Inl e \<Rightarrow> Inl e | Inr a \<Rightarrow>
       (if attr a ''METHOD'' = [] then Inl [CInvalidManifest]
        else if attr a ''METHOD'' = ''NONE'' then Inr (m\<lparr>m_keyIndex := 0, m_ivHex := []\<rparr>)
        else if attr a ''METHOD'' \<noteq> ''AES-128'' then Inl [CDRM]
        else if foreign_format a then Inl [CDRM]
        else if attr a ''URI'' = [] then Inl [CInvalidManifest]
        else case resolveManifestURI (r_resolve env) (attr a ''URI'') of Inl e \<Rightarrow> Inl e | Inr resolved \<Rightarrow>
          (case (if attr a ''IV'' = [] then Inr [] else normalizeIVHex (attr a ''IV'')) of
             Inl e \<Rightarrow> Inl e | Inr iv \<Rightarrow> intern_key resolved iv m)))"

definition on_byterange :: "string \<Rightarrow> media_state \<Rightarrow> go_error + media_state" where
  "on_byterange v m =
     (if m_hasRange m then Inl [CInvalidManifest]
      else case parseByteRangeValue v of Inl e \<Rightarrow> Inl e | Inr (len, off, explicit) \<Rightarrow>
        Inr (m\<lparr>m_byteLen := len, m_byteOff := off, m_offExplicit := explicit, m_hasRange := True\<rparr>))"

definition parse_duration :: "parser_env \<Rightarrow> string \<Rightarrow> int option" where
  "parse_duration env s =
     (case r_float env s of
        Some (Finite q) \<Rightarrow> if q < 0 \<or> q > 9000000000000 then None else Some (r_micros env q)
      | _ \<Rightarrow> None)"

definition on_extinf :: "parser_env \<Rightarrow> string \<Rightarrow> media_state \<Rightarrow> go_error + media_state" where
  "on_extinf env v m =
     (if m_hasInf m then Inl [CInvalidManifest]
      else case parse_duration env (trim_space (before (CHR '','') v)) of
          None \<Rightarrow> Inl [CInvalidManifest] | Some d \<Rightarrow> Inr (m\<lparr>m_durMicros := d, m_hasInf := True\<rparr>))"

text \<open>The byte range of the next segment; an omitted offset continues the previous range of the same resource.\<close>

definition next_range :: "string \<Rightarrow> media_state \<Rightarrow> go_error + (int \<times> int)" where
  "next_range uri m =
     (if \<not> m_hasRange m then Inr (0, 0)
      else if m_offExplicit m then Inr (m_byteOff m, m_byteLen m)
      else if m_segments m = [] then Inl [CInvalidManifest]
      else (let prev = last (m_segments m) in
        if ByteLength prev \<le> 0 \<or> URI prev \<noteq> uri then Inl [CInvalidManifest]
        else if ByteOffset prev > max_i64 - ByteLength prev then Inl [CInvalidManifest]
        else Inr (ByteOffset prev + ByteLength prev, m_byteLen m)))"

definition on_uri :: "parser_env \<Rightarrow> string \<Rightarrow> media_state \<Rightarrow> go_error + media_state" where
  "on_uri env line m =
     (if m_endList m then Inl [CInvalidManifest]
      else if \<not> m_hasInf m then Inl [CInvalidManifest]
      else case resolveManifestURI (r_resolve env) line of Inl e \<Rightarrow> Inl e | Inr uri \<Rightarrow>
        (case next_range uri m of Inl e \<Rightarrow> Inl e | Inr (off, len) \<Rightarrow>
          (let idx = length (m_segments m) in
           if idx \<ge> maxManifestSegments then Inl [CInvalidManifest]
           else if m_seqBase m > max_i64 - int idx then Inl [CInvalidManifest]
           else Inr (m\<lparr>m_segments := m_segments m @
                  [\<lparr>Index = int idx, Sequence = m_seqBase m + int idx, URI = uri, DurationMicros = m_durMicros m,
                    ByteOffset = off, ByteLength = len, KeyIndex = m_keyIndex m, IVHex = m_ivHex m\<rparr>],
                m_totalMicros := (if m_durMicros m > max_i64 - m_totalMicros m then max_i64 else m_totalMicros m + m_durMicros m),
                m_hasInf := False, m_hasRange := False\<rparr>))))"

definition low_latency_tags :: "string list" where
  "low_latency_tags = [''#EXT-X-SERVER-CONTROL'', ''#EXT-X-PART-INF'', ''#EXT-X-PART'', ''#EXT-X-PRELOAD-HINT'',
     ''#EXT-X-RENDITION-REPORT'']"

definition playlistTagName :: "string \<Rightarrow> string" where
  "playlistTagName line = before (CHR '':'') line"

text \<open>One line, in the order of the code's cases.\<close>

definition media_line :: "parser_env \<Rightarrow> string \<Rightarrow> media_state \<Rightarrow> go_error + media_state" where
  "media_line env line m =
     (let tag = playlistTagName line in
      if line = [] \<or> line = ''#EXTM3U'' then Inr m
      else if hasPrefix ''#EXT-X-MEDIA-SEQUENCE:'' line then on_sequence (after ''#EXT-X-MEDIA-SEQUENCE:'' line) m
      else if hasPrefix ''#EXT-X-DISCONTINUITY-SEQUENCE:'' line
           then on_discontinuity_sequence (after ''#EXT-X-DISCONTINUITY-SEQUENCE:'' line) m
      else if hasPrefix ''#EXT-X-TARGETDURATION:'' line then on_target (after ''#EXT-X-TARGETDURATION:'' line) m
      else if hasPrefix ''#EXT-X-PLAYLIST-TYPE:'' line
           then Inr (m\<lparr>m_type := trim_space (after ''#EXT-X-PLAYLIST-TYPE:'' line)\<rparr>)
      else if line = ''#EXT-X-ENDLIST'' then Inr (m\<lparr>m_endList := True\<rparr>)
      else if line = ''#EXT-X-DISCONTINUITY'' then Inr (on_discontinuity m)
      else if line = ''#EXT-X-I-FRAMES-ONLY'' then Inl [CIFramesOnly]
      else if tag = ''#EXT-X-SKIP'' \<or> tag = ''#EXT-X-GAP'' then Inl [CInvalidManifest]
      else if tag \<in> set low_latency_tags then Inl [CLive]
      else if hasPrefix ''#EXT-X-MAP:'' line then on_map env (after ''#EXT-X-MAP:'' line) m
      else if hasPrefix ''#EXT-X-KEY:'' line then on_key env (after ''#EXT-X-KEY:'' line) m
      else if hasPrefix ''#EXT-X-BYTERANGE:'' line then on_byterange (after ''#EXT-X-BYTERANGE:'' line) m
      else if hasPrefix ''#EXTINF:'' line then on_extinf env (after ''#EXTINF:'' line) m
      else if hasPrefix ''#'' line then Inr m
      else on_uri env line m)"

fun media_lines :: "parser_env \<Rightarrow> string list \<Rightarrow> media_state \<Rightarrow> go_error + media_state" where
  "media_lines env [] m = Inr m"
| "media_lines env (line # lines) m = (case media_line env line m of Inl e \<Rightarrow> Inl e | Inr m1 \<Rightarrow> media_lines env lines m1)"

section \<open>The fingerprint\<close>

text \<open>\<open>%d\<close>, and \<open>path.Clean\<close> of a rooted path.\<close>

fun show_nat :: "nat \<Rightarrow> string" where
  "show_nat n = (if n < 10 then [char_of (48 + n)] else show_nat (n div 10) @ [char_of (48 + n mod 10)])"

declare show_nat.simps [simp del]

definition show_int :: "int \<Rightarrow> string" where
  "show_int i = (if i < 0 then CHR ''-'' # show_nat (nat (- i)) else show_nat (nat i))"

definition clean_component :: "string list \<Rightarrow> string \<Rightarrow> string list" where
  "clean_component acc c =
     (if c = [] \<or> c = ''.'' then acc else if c = ''..'' then butlast acc else acc @ [c])"

definition clean_rooted :: "string \<Rightarrow> string" where
  "clean_rooted p =
     (let cs = foldl clean_component [] (split_at (CHR ''/'') p) in
      if cs = [] then ''/'' else concat (map (\<lambda>c. CHR ''/'' # c) cs))"

fun after_scheme :: "string \<Rightarrow> string option" where
  "after_scheme [] = None"
| "after_scheme (c # cs) = (if hasPrefix ''://'' (c # cs) then Some (drop 3 (c # cs)) else after_scheme cs)"

definition cleanURIPathForFingerprint :: "parser_env \<Rightarrow> string \<Rightarrow> string" where
  "cleanURIPathForFingerprint env raw =
     (let p = (case r_path env raw of None \<Rightarrow> [] | Some q \<Rightarrow> q);
          p1 = (if p \<noteq> [] then p
                else let q = takeWhile (\<lambda>c. c \<noteq> CHR ''?'' \<and> c \<noteq> CHR ''#'') raw in
                  case after_scheme q of None \<Rightarrow> q | Some r \<Rightarrow> dropWhile (\<lambda>c. c \<noteq> CHR ''/'') r)
      in clean_rooted (if hasPrefix ''/'' p1 then tl p1 else p1))"

definition newline :: string where
  "newline = [CHR 0x0A]"

definition init_line :: "parser_env \<Rightarrow> init_map \<Rightarrow> hls_key list \<Rightarrow> string" where
  "init_line env im ks =
     (if im_KeyIndex im > 0 then
        (let (method, keyPath) =
               (if im_KeyIndex im \<le> int (length ks)
                then let k = ks ! nat (im_KeyIndex im - 1) in (key_Method k, cleanURIPathForFingerprint env (key_URI k))
                else ([], []))
         in ''init_key='' @ method @ ''|init_key_path='' @ r_quote env keyPath @ ''|init_iv='' @ r_quote env (im_IVHex im) @ newline)
      else [])"

definition key_method_of :: "hls_key list \<Rightarrow> hls_segment \<Rightarrow> string" where
  "key_method_of ks g =
     (if KeyIndex g > 0 \<and> KeyIndex g \<le> int (length ks) then key_Method (ks ! nat (KeyIndex g - 1)) else ''NONE'')"

definition segment_line :: "parser_env \<Rightarrow> hls_key list \<Rightarrow> hls_segment \<Rightarrow> string" where
  "segment_line env ks g =
     ''seg='' @ show_int (Index g) @ ''|seq='' @ show_int (Sequence g) @ ''|dur='' @ show_int (DurationMicros g) @
     ''|off='' @ show_int (ByteOffset g) @ ''|len='' @ show_int (ByteLength g) @ ''|key='' @ key_method_of ks g @
     ''|path='' @ r_quote env (cleanURIPathForFingerprint env (URI g)) @ newline"

definition fingerprint_text :: "parser_env \<Rightarrow> string \<Rightarrow> int \<Rightarrow> init_map option \<Rightarrow> hls_segment list \<Rightarrow> hls_key list \<Rightarrow> string" where
  "fingerprint_text env container base im gs ks =
     (let (path, off, len) = (case im of None \<Rightarrow> ([], 0, 0)
            | Some x \<Rightarrow> (cleanURIPathForFingerprint env (im_URI x), im_ByteOffset x, im_ByteLength x))
      in ''v2'' @ newline @ ''container='' @ container @ ''|total='' @ show_nat (length gs) @ ''|seq_base='' @ show_int base @
         ''|init_path='' @ r_quote env path @ ''|init_off='' @ show_int off @ ''|init_len='' @ show_int len @ newline @
         (case im of None \<Rightarrow> [] | Some x \<Rightarrow> init_line env x ks) @ concat (map (segment_line env ks) gs))"

definition ComputeManifestFingerprint ::
    "parser_env \<Rightarrow> string \<Rightarrow> int \<Rightarrow> init_map option \<Rightarrow> hls_segment list \<Rightarrow> hls_key list \<Rightarrow> string" where
  "ComputeManifestFingerprint env container base im gs ks = r_sha env (fingerprint_text env container base im gs ks)"

section \<open>The media playlist\<close>

definition media_finish :: "parser_env \<Rightarrow> media_state \<Rightarrow> go_error + media_playlist" where
  "media_finish env m =
     (if m_hasInf m \<or> m_hasRange m then Inl [CInvalidManifest]
      else if \<not> m_endList m then Inl [CLive]
      else if m_segments m = [] then Inl [CInvalidManifest]
      else Inr \<lparr>mp_BaseURL = r_base env, mp_TargetDuration = m_target m, mp_SequenceBase = m_seqBase m,
             mp_DiscontinuitySeq = m_discSeq m, mp_PlaylistType = m_type m, mp_EndList = True,
             mp_Container = m_container m, mp_InitMap = m_initMap m, mp_TotalMicros = m_totalMicros m,
             mp_Fingerprint = ComputeManifestFingerprint env (m_container m) (m_seqBase m) (m_initMap m)
                (m_segments m) (m_keys m),
             mp_SegmentRefURL = URI (hd (m_segments m)), mp_Keys = m_keys m, mp_Segments = m_segments m\<rparr>)"

definition parseMediaPlaylist :: "parser_env \<Rightarrow> string list \<Rightarrow> go_error + media_playlist" where
  "parseMediaPlaylist env lines =
     (case media_lines env lines media_start of Inl e \<Rightarrow> Inl e | Inr m \<Rightarrow> media_finish env m)"

section \<open>Master playlists\<close>

record variant =
  v_URI :: string
  v_RawURI :: string
  v_Bandwidth :: int
  v_AverageBandwidth :: int
  v_Width :: int
  v_Height :: int
  v_Codecs :: string
  v_AudioGroupID :: string
  v_DemuxedAudio :: bool
  v_Order :: int

record audio_group =
  ag_embedded :: bool
  ag_external :: bool

record master_playlist =
  ms_BaseURL :: string
  ms_Variants :: "variant list"
  ms_AudioGroups :: "(string \<times> audio_group) list"

text \<open>The search for the URI line: comments and empty lines are skipped, a tag is an error.\<close>

fun uri_line :: "string list \<Rightarrow> (string \<times> string list) option" where
  "uri_line [] = None"
| "uri_line (s # ss) =
     (if s = [] then uri_line ss
      else if hasPrefix ''#'' s then (if hasPrefix ''#EXT'' s then None else uri_line ss)
      else Some (s, ss))"

lemma uri_line_shorter: "uri_line ls = Some (u, r) \<Longrightarrow> length r < length ls"
  by (induction ls) (auto split: if_splits)

definition new_variant :: "parser_env \<Rightarrow> attributes \<Rightarrow> int \<Rightarrow> string \<Rightarrow> master_playlist \<Rightarrow> go_error + master_playlist" where
  "new_variant env a bandwidth uri ms =
     (let (w, h) = parseResolution (attr a ''RESOLUTION'') in
      if isAudioOnlyVariant w h (attr a ''CODECS'') then Inr ms
      else case resolveManifestURI (r_resolve env) uri of Inl e \<Rightarrow> Inl e | Inr resolved \<Rightarrow>
        Inr (ms\<lparr>ms_Variants := ms_Variants ms @
          [\<lparr>v_URI = resolved, v_RawURI = uri, v_Bandwidth = bandwidth,
            v_AverageBandwidth = max 0 (parseInt_value (trim_space (attr a ''AVERAGE-BANDWIDTH''))),
            v_Width = w, v_Height = h, v_Codecs = attr a ''CODECS'', v_AudioGroupID = attr a ''AUDIO'',
            v_DemuxedAudio = False, v_Order = int (length (ms_Variants ms))\<rparr>]\<rparr>))"

definition on_stream_inf :: "parser_env \<Rightarrow> string \<Rightarrow> string list \<Rightarrow> master_playlist \<Rightarrow> go_error + (master_playlist \<times> string list)" where
  "on_stream_inf env v rest ms =
     (case parseAttributeList v of Inl e \<Rightarrow> Inl e | Inr a \<Rightarrow>
       (case atoi (trim_space (attr a ''BANDWIDTH'')) of None \<Rightarrow> Inl [CInvalidManifest] | Some bw \<Rightarrow>
         (if bw \<le> 0 then Inl [CInvalidManifest]
          else case uri_line rest of None \<Rightarrow> Inl [CInvalidManifest] | Some (uri, rest1) \<Rightarrow>
            (case new_variant env a bw uri ms of Inl e \<Rightarrow> Inl e | Inr ms1 \<Rightarrow> Inr (ms1, rest1)))))"

definition on_media :: "string \<Rightarrow> master_playlist \<Rightarrow> go_error + master_playlist" where
  "on_media v ms =
     (case parseAttributeList v of Inl e \<Rightarrow> Inl e | Inr a \<Rightarrow>
       (if \<not> equalFold (attr a ''TYPE'') ''AUDIO'' then Inr ms
        else if attr a ''GROUP-ID'' = [] then Inl [CInvalidManifest]
        else (let gid = attr a ''GROUP-ID'';
                  g = (case map_of (ms_AudioGroups ms) gid of None \<Rightarrow> \<lparr>ag_embedded = False, ag_external = False\<rparr> | Some x \<Rightarrow> x);
                  g1 = (if trim_space (attr a ''URI'') \<noteq> [] then g\<lparr>ag_external := True\<rparr> else g\<lparr>ag_embedded := True\<rparr>)
              in Inr (ms\<lparr>ms_AudioGroups := (gid, g1) # ms_AudioGroups ms\<rparr>))))"

definition on_session_key :: "string \<Rightarrow> master_playlist \<Rightarrow> go_error + master_playlist" where
  "on_session_key v ms =
     (case parseAttributeList v of Inl e \<Rightarrow> Inl e | Inr a \<Rightarrow>
       (if attr a ''METHOD'' \<noteq> ''NONE'' \<and> attr a ''METHOD'' \<noteq> ''AES-128'' then Inl [CDRM]
        else if foreign_format a then Inl [CDRM] else Inr ms))"

function master_lines :: "parser_env \<Rightarrow> string list \<Rightarrow> master_playlist \<Rightarrow> go_error + master_playlist" where
  "master_lines env [] ms = Inr ms"
| "master_lines env (line # rest) ms =
     (if line = [] \<or> line = ''#EXTM3U'' then master_lines env rest ms
      else if hasPrefix ''#EXT-X-STREAM-INF:'' line then
        (case on_stream_inf env (after ''#EXT-X-STREAM-INF:'' line) rest ms of
           Inl e \<Rightarrow> Inl e | Inr (ms1, rest1) \<Rightarrow> master_lines env rest1 ms1)
      else
        (case (if hasPrefix ''#EXT-X-I-FRAME-STREAM-INF:'' line then Inr ms
               else if hasPrefix ''#EXT-X-MEDIA:'' line then on_media (after ''#EXT-X-MEDIA:'' line) ms
               else if hasPrefix ''#EXT-X-SESSION-KEY:'' line then on_session_key (after ''#EXT-X-SESSION-KEY:'' line) ms
               else if hasPrefix ''#'' line then Inr ms else Inl [CInvalidManifest]) of
           Inl e \<Rightarrow> Inl e | Inr ms1 \<Rightarrow> master_lines env rest ms1))"
  by pat_completeness auto

lemma stream_inf_shorter: "on_stream_inf env v rest ms = Inr (ms1, rest1) \<Longrightarrow> length rest1 < length rest"
  by (auto simp: on_stream_inf_def uri_line_shorter split: sum.splits option.splits if_splits prod.splits)

termination master_lines
  by (relation "measure (\<lambda>(env, ls, ms). length ls)") (auto dest!: sym [THEN stream_inf_shorter] stream_inf_shorter)

definition demuxed :: "(string \<times> audio_group) list \<Rightarrow> variant \<Rightarrow> variant" where
  "demuxed gs v =
     (if v_AudioGroupID v = [] then v
      else v\<lparr>v_DemuxedAudio := (case map_of gs (v_AudioGroupID v) of
             None \<Rightarrow> True | Some g \<Rightarrow> ag_external g \<and> \<not> ag_embedded g)\<rparr>)"

definition parseMasterPlaylist :: "parser_env \<Rightarrow> string list \<Rightarrow> go_error + master_playlist" where
  "parseMasterPlaylist env lines =
     (case master_lines env lines \<lparr>ms_BaseURL = r_base env, ms_Variants = [], ms_AudioGroups = []\<rparr> of
        Inl e \<Rightarrow> Inl e
      | Inr ms \<Rightarrow>
          (let vs = map (demuxed (ms_AudioGroups ms)) (ms_Variants ms) in
           if vs = [] then Inl [CInvalidManifest] else Inr (ms\<lparr>ms_Variants := vs\<rparr>)))"

definition variantBetter :: "variant \<Rightarrow> variant \<Rightarrow> bool" where
  "variantBetter a b \<longleftrightarrow>
     (if v_Bandwidth a \<noteq> v_Bandwidth b then v_Bandwidth a > v_Bandwidth b
      else let ap = wrap64 (v_Width a * v_Height a); bp = wrap64 (v_Width b * v_Height b) in
      if ap \<noteq> bp then ap > bp
      else if v_AverageBandwidth a \<noteq> v_AverageBandwidth b then v_AverageBandwidth a > v_AverageBandwidth b
      else v_Order a < v_Order b)"

definition better_of :: "variant option \<Rightarrow> variant \<Rightarrow> variant option" where
  "better_of best v =
     (if v_DemuxedAudio v then best
      else case best of None \<Rightarrow> Some v | Some b \<Rightarrow> if variantBetter v b then Some v else best)"

definition SelectBestVariant :: "master_playlist option \<Rightarrow> go_error + variant" where
  "SelectBestVariant ms =
     (case ms of None \<Rightarrow> Inl [CInvalidManifest]
      | Some x \<Rightarrow> if ms_Variants x = [] then Inl [CInvalidManifest]
          else (case foldl better_of None (ms_Variants x) of None \<Rightarrow> Inl [CDemuxedAudio] | Some b \<Rightarrow> Inr b))"

section \<open>The document\<close>

definition byte_order_mark :: string where
  "byte_order_mark = [CHR 0xEF, CHR 0xBB, CHR 0xBF]"

fun header_lines :: "string list \<Rightarrow> go_error + string list" where
  "header_lines [] = Inl [CInvalidManifest]"
| "header_lines (r # rs) =
     (if trim_space r = [] then header_lines rs
      else if trim_space r \<noteq> ''#EXTM3U'' then Inl [CInvalidManifest]
      else Inr (map trim_space rs))"

definition splitPlaylistLines :: "string \<Rightarrow> go_error + string list" where
  "splitPlaylistLines content =
     header_lines (split_at (CHR 0x0A) (if hasPrefix byte_order_mark content then after byte_order_mark content else content))"

definition isMasterOnlyTag :: "string \<Rightarrow> bool" where
  "isMasterOnlyTag line \<longleftrightarrow> list_ex (\<lambda>p. hasPrefix p line)
     [''#EXT-X-STREAM-INF:'', ''#EXT-X-I-FRAME-STREAM-INF:'', ''#EXT-X-MEDIA:'', ''#EXT-X-SESSION-KEY:'']"

definition isMediaOnlyTag :: "string \<Rightarrow> bool" where
  "isMediaOnlyTag line \<longleftrightarrow> list_ex (\<lambda>p. hasPrefix p line)
     [''#EXTINF:'', ''#EXT-X-TARGETDURATION:'', ''#EXT-X-MEDIA-SEQUENCE:'', ''#EXT-X-MAP:'', ''#EXT-X-KEY:'',
      ''#EXT-X-BYTERANGE:'', ''#EXT-X-SKIP:'', ''#EXT-X-PART:'', ''#EXT-X-PART-INF:'', ''#EXT-X-SERVER-CONTROL:'',
      ''#EXT-X-PRELOAD-HINT:'', ''#EXT-X-RENDITION-REPORT:''] \<or>
     line \<in> set [''#EXT-X-ENDLIST'', ''#EXT-X-GAP'', ''#EXT-X-I-FRAMES-ONLY'']"

datatype playlist = Master master_playlist | Media media_playlist

definition ParsePlaylist :: "parser_env \<Rightarrow> string \<Rightarrow> go_error + playlist" where
  "ParsePlaylist env content =
     (case splitPlaylistLines content of Inl e \<Rightarrow> Inl e | Inr lines \<Rightarrow>
       (if list_ex (\<lambda>l. playlistTagName l = ''#EXT-X-DEFINE'') lines then Inl [CInvalidManifest]
        else let isMaster = list_ex isMasterOnlyTag lines; isMedia = list_ex isMediaOnlyTag lines in
          if isMaster \<and> isMedia then Inl [CInvalidManifest]
          else if isMaster then (case parseMasterPlaylist env lines of Inl e \<Rightarrow> Inl e | Inr p \<Rightarrow> Inr (Master p))
          else if isMedia then (case parseMediaPlaylist env lines of Inl e \<Rightarrow> Inl e | Inr p \<Rightarrow> Inr (Media p))
          else Inl [CInvalidManifest]))"

end
