(* ===== verification/HlsManifestFacts.thy ===== *)
theory HlsManifestFacts
  imports HlsManifest "HOL-Library.Product_Lexorder"
begin

text \<open>
What the parser guarantees: the invariant of the media loop and with it the shape of every accepted playlist, that its
  segments can be decrypted, and that the selected variant is the best one.
\<close>

section \<open>Well-formed playlists\<close>

definition lower_hex :: "char \<Rightarrow> bool" where
  "lower_hex c \<longleftrightarrow> (let n = of_char c :: nat in 48 \<le> n \<and> n \<le> 57 \<or> 97 \<le> n \<and> n \<le> 102)"

definition iv_ok :: "string \<Rightarrow> bool" where
  "iv_ok iv \<longleftrightarrow> iv = [] \<or> (length iv = 32 \<and> list_all lower_hex iv)"

definition key_pair :: "hls_key \<Rightarrow> string \<times> string" where
  "key_pair k = (key_URI k, key_IVHex k)"

definition keys_ok :: "hls_key list \<Rightarrow> bool" where
  "keys_ok ks \<longleftrightarrow> length ks \<le> maxManifestKeys \<and> distinct (map key_pair ks) \<and>
     list_all (\<lambda>k. key_Method k = ''AES-128'' \<and> iv_ok (key_IVHex k)) ks"

text \<open>A key reference: none, or the number of a declared key together with its IV.\<close>

definition refers :: "hls_key list \<Rightarrow> int \<Rightarrow> string \<Rightarrow> bool" where
  "refers ks ki iv \<longleftrightarrow> (ki = 0 \<and> iv = []) \<or> (1 \<le> ki \<and> ki \<le> int (length ks) \<and> iv = key_IVHex (ks ! nat (ki - 1)))"

definition range_ok :: "int \<Rightarrow> int \<Rightarrow> bool" where
  "range_ok off len \<longleftrightarrow> (off = 0 \<and> len = 0) \<or> (0 \<le> off \<and> 0 < len)"

definition segment_ok :: "hls_key list \<Rightarrow> hls_segment \<Rightarrow> bool" where
  "segment_ok ks g \<longleftrightarrow> refers ks (KeyIndex g) (IVHex g) \<and> range_ok (ByteOffset g) (ByteLength g) \<and> 0 \<le> DurationMicros g"

definition numbered :: "int \<Rightarrow> hls_segment list \<Rightarrow> bool" where
  "numbered base gs \<longleftrightarrow> 0 \<le> base \<and> length gs \<le> maxManifestSegments \<and>
     (\<forall>i < length gs. Index (gs ! i) = int i \<and> Sequence (gs ! i) = base + int i \<and> base + int i \<le> max_i64)"

definition init_ok :: "hls_key list \<Rightarrow> init_map option \<Rightarrow> string \<Rightarrow> bool" where
  "init_ok ks im container \<longleftrightarrow>
     (case im of None \<Rightarrow> container = ''ts''
      | Some x \<Rightarrow> container = ''fmp4'' \<and> refers ks (im_KeyIndex x) (im_IVHex x) \<and> (im_KeyIndex x \<noteq> 0 \<longrightarrow> im_IVHex x \<noteq> []) \<and>
          range_ok (im_ByteOffset x) (im_ByteLength x))"

definition playlist_ok :: "media_playlist \<Rightarrow> bool" where
  "playlist_ok p \<longleftrightarrow> mp_Segments p \<noteq> [] \<and> numbered (mp_SequenceBase p) (mp_Segments p) \<and> keys_ok (mp_Keys p) \<and>
     list_all (segment_ok (mp_Keys p)) (mp_Segments p) \<and> init_ok (mp_Keys p) (mp_InitMap p) (mp_Container p) \<and>
     0 \<le> mp_TotalMicros p \<and> mp_TotalMicros p \<le> max_i64 \<and> mp_SegmentRefURL p = URI (mp_Segments p ! 0) \<and> mp_EndList p"

section \<open>The parser's invariant\<close>

definition interned :: "hls_key list \<Rightarrow> ((string \<times> string) \<times> int) list \<Rightarrow> bool" where
  "interned ks ids \<longleftrightarrow>
     (\<forall>p i. map_of ids p = Some i \<longrightarrow> 1 \<le> i \<and> i \<le> int (length ks) \<and> key_pair (ks ! nat (i - 1)) = p) \<and>
     (\<forall>k \<in> set ks. map_of ids (key_pair k) \<noteq> None)"

definition pending_ok :: "media_state \<Rightarrow> bool" where
  "pending_ok m \<longleftrightarrow> 0 \<le> m_durMicros m \<and> (m_hasRange m \<longrightarrow> 0 < m_byteLen m \<and> 0 \<le> m_byteOff m)"

definition media_inv :: "media_state \<Rightarrow> bool" where
  "media_inv m \<longleftrightarrow> numbered (m_seqBase m) (m_segments m) \<and> keys_ok (m_keys m) \<and> interned (m_keys m) (m_keyIndexByID m) \<and>
     list_all (segment_ok (m_keys m)) (m_segments m) \<and> init_ok (m_keys m) (m_initMap m) (m_container m) \<and>
     refers (m_keys m) (m_keyIndex m) (m_ivHex m) \<and> pending_ok m \<and> 0 \<le> m_totalMicros m \<and> m_totalMicros m \<le> max_i64"

text \<open>The rounding of an accepted duration is a microsecond count of 64 bits.\<close>

definition rounds_ok :: "parser_env \<Rightarrow> bool" where
  "rounds_ok env \<longleftrightarrow> (\<forall>q. 0 \<le> q \<and> q \<le> 9000000000000 \<longrightarrow> 0 \<le> r_micros env q \<and> r_micros env q \<le> max_i64)"

lemma refers_mono: "refers ks ki iv \<Longrightarrow> refers (ks @ ks') ki iv"
  by (auto simp: refers_def nth_append)

lemma segment_mono: "list_all (segment_ok ks) gs \<Longrightarrow> list_all (segment_ok (ks @ ks')) gs"
  by (auto simp: segment_ok_def list_all_iff refers_mono)

lemma init_mono: "init_ok ks im c \<Longrightarrow> init_ok (ks @ ks') im c"
  by (auto simp: init_ok_def refers_mono split: option.splits)

lemma media_start_inv: "media_inv media_start"
  by (simp add: media_inv_def media_start_def numbered_def keys_ok_def interned_def init_ok_def refers_def pending_ok_def max_i64_def)

lemma natural_value_range: "natural_value v = Inr n \<Longrightarrow> 0 \<le> n"
  by (auto simp: natural_value_def split: option.splits if_splits)

lemma byte_range_value: "parseByteRangeValue v = Inr (len, off, b) \<Longrightarrow> 0 < len \<and> 0 \<le> off"
  by (auto simp: parseByteRangeValue_def Let_def split: option.splits if_splits prod.splits)

lemma lower_hex_char: "is_hex c \<Longrightarrow> lower_hex (lower_char c)"
  by (auto simp: is_hex_def lower_hex_def lower_char_def Let_def of_char_of)

lemma normalized_iv:
  assumes "normalizeIVHex raw = Inr iv"
  shows "iv_ok iv \<and> iv \<noteq> []"
proof -
  have z: "lower_hex (CHR ''0'')" by (simp add: lower_hex_def)
  show ?thesis using assms z
    by (auto simp: normalizeIVHex_def Let_def iv_ok_def lower_def list_all_iff lower_hex_char split: if_splits)
qed

lemma on_sequence_inv: "media_inv m \<Longrightarrow> on_sequence v m = Inr m1 \<Longrightarrow> media_inv m1"
  by (auto simp: on_sequence_def media_inv_def pending_ok_def numbered_def natural_value_range split: if_splits sum.splits)

lemma on_discontinuity_sequence_inv: "media_inv m \<Longrightarrow> on_discontinuity_sequence v m = Inr m1 \<Longrightarrow> media_inv m1"
  by (auto simp: on_discontinuity_sequence_def media_inv_def pending_ok_def split: if_splits sum.splits)

lemma on_target_inv: "media_inv m \<Longrightarrow> on_target v m = Inr m1 \<Longrightarrow> media_inv m1"
  by (auto simp: on_target_def media_inv_def pending_ok_def split: if_splits sum.splits)

lemma on_discontinuity_inv: "media_inv m \<Longrightarrow> media_inv (on_discontinuity m)"
  by (simp add: on_discontinuity_def media_inv_def pending_ok_def)

lemma map_range_ok: "map_range a = Inr (off, len) \<Longrightarrow> range_ok off len"
  using byte_range_value by (fastforce simp: map_range_def range_ok_def split: if_splits sum.splits)

lemma on_map_new:
  assumes "on_map env v m = Inr m1" and "m_initMap m = None"
  shows "\<exists>u off len. range_ok off len \<and> (m_keyIndex m > 0 \<longrightarrow> m_ivHex m \<noteq> []) \<and>
    m1 = m\<lparr>m_initMap := Some \<lparr>im_URI = u, im_ByteOffset = off, im_ByteLength = len,
       im_KeyIndex = m_keyIndex m, im_IVHex = m_ivHex m\<rparr>, m_container := ''fmp4''\<rparr>"
  using assms map_range_ok by (fastforce simp: on_map_def Let_def split: if_splits sum.splits)

lemma on_map_inv:
  assumes "media_inv m" and "on_map env v m = Inr m1"
  shows "media_inv m1"
proof (cases "m_initMap m")
  case (Some old)
  then show ?thesis using assms by (auto simp: on_map_def Let_def split: if_splits sum.splits)
next
  case None
  have "refers (m_keys m) (m_keyIndex m) (m_ivHex m)" using assms(1) by (simp add: media_inv_def)
  then have "m_keyIndex m \<noteq> 0 \<Longrightarrow> m_keyIndex m > 0" by (auto simp: refers_def)
  then show ?thesis using on_map_new[OF assms(2) None] assms(1)
    by (auto simp: media_inv_def pending_ok_def init_ok_def)
qed

lemma interned_new:
  assumes "interned ks ids"
  shows "interned (ks @ [k]) ((key_pair k, int (length (ks @ [k]))) # ids)"
proof -
  have "1 \<le> i \<and> i \<le> int (length (ks @ [k])) \<and> key_pair ((ks @ [k]) ! nat (i - 1)) = p"
    if "map_of ids p = Some i" for p i
  proof -
    have h: "1 \<le> i" "i \<le> int (length ks)" "key_pair (ks ! nat (i - 1)) = p"
      using assms that unfolding interned_def by blast+
    then have "nat (i - 1) < length ks" by linarith
    then show ?thesis using h by (simp add: nth_append)
  qed
  then show ?thesis using assms by (simp add: interned_def)
qed

lemma intern_key_inv:
  assumes i: "media_inv m" and iv: "iv_ok iv" and s: "intern_key uri iv m = Inr m1"
  shows "media_inv m1"
proof (cases "map_of (m_keyIndexByID m) (uri, iv)")
  case (Some idx)
  then have "1 \<le> idx \<and> idx \<le> int (length (m_keys m)) \<and> key_pair (m_keys m ! nat (idx - 1)) = (uri, iv)"
    using i unfolding media_inv_def interned_def by blast
  then have "refers (m_keys m) idx iv" by (auto simp: refers_def key_pair_def)
  then show ?thesis using i s Some by (auto simp: intern_key_def media_inv_def pending_ok_def)
next
  case None
  let ?k = "\<lparr>key_Method = ''AES-128'', key_URI = uri, key_IVHex = iv\<rparr>"
  have n: "length (m_keys m) < maxManifestKeys"
    and m1: "m1 = m\<lparr>m_keys := m_keys m @ [?k], m_keyIndexByID := ((uri, iv), int (length (m_keys m @ [?k]))) # m_keyIndexByID m,
      m_keyIndex := int (length (m_keys m @ [?k])), m_ivHex := iv\<rparr>"
    using s None by (auto simp: intern_key_def Let_def split: if_splits)
  have p: "key_pair ?k = (uri, iv)" by (simp add: key_pair_def)
  have fresh: "key_pair ?k \<notin> key_pair ` set (m_keys m)"
    using i None p unfolding media_inv_def interned_def by (metis imageE)
  have "keys_ok (m_keys m @ [?k])" using i n iv fresh by (auto simp: media_inv_def keys_ok_def)
  moreover have "interned (m_keys m @ [?k]) (((uri, iv), int (length (m_keys m @ [?k]))) # m_keyIndexByID m)"
    using interned_new[of "m_keys m" "m_keyIndexByID m" ?k] i unfolding media_inv_def p by simp
  moreover have "refers (m_keys m @ [?k]) (int (length (m_keys m @ [?k]))) iv" by (simp add: refers_def nth_append)
  ultimately show ?thesis using i
    by (simp add: media_inv_def m1 segment_mono init_mono pending_ok_def del: length_append)
qed

lemma no_key_inv: "media_inv m \<Longrightarrow> media_inv (m\<lparr>m_keyIndex := 0, m_ivHex := []\<rparr>)"
  by (simp add: media_inv_def pending_ok_def refers_def)

lemma on_key_cases:
  assumes "on_key env v m = Inr m1"
  shows "m1 = m\<lparr>m_keyIndex := 0, m_ivHex := []\<rparr> \<or> (\<exists>uri iv. iv_ok iv \<and> intern_key uri iv m = Inr m1)"
proof -
  have "iv_ok []" by (simp add: iv_ok_def)
  moreover have "iv_ok iv" if "normalizeIVHex s = Inr iv" for s iv using that normalized_iv by blast
  ultimately show ?thesis using assms by (fastforce simp: on_key_def split: if_splits sum.splits)
qed

lemma on_key_inv: "media_inv m \<Longrightarrow> on_key env v m = Inr m1 \<Longrightarrow> media_inv m1"
  using on_key_cases no_key_inv intern_key_inv by blast

lemma on_byterange_inv: "media_inv m \<Longrightarrow> on_byterange v m = Inr m1 \<Longrightarrow> media_inv m1"
  by (auto simp: on_byterange_def media_inv_def pending_ok_def dest: byte_range_value split: if_splits sum.splits)

lemma duration_ok: "rounds_ok env \<Longrightarrow> parse_duration env s = Some d \<Longrightarrow> 0 \<le> d \<and> d \<le> max_i64"
  by (auto simp: parse_duration_def rounds_ok_def split: option.splits float_value.splits if_splits)

lemma on_extinf_inv: "rounds_ok env \<Longrightarrow> media_inv m \<Longrightarrow> on_extinf env v m = Inr m1 \<Longrightarrow> media_inv m1"
  by (auto simp: on_extinf_def media_inv_def pending_ok_def duration_ok split: if_splits option.splits)

lemma next_range_ok:
  assumes "media_inv m" and "next_range uri m = Inr (off, len)"
  shows "range_ok off len"
proof (cases "m_hasRange m \<and> \<not> m_offExplicit m")
  case True
  then have s: "m_segments m \<noteq> []" "ByteLength (last (m_segments m)) > 0"
    "off = ByteOffset (last (m_segments m)) + ByteLength (last (m_segments m))" "len = m_byteLen m"
    using assms(2) by (auto simp: next_range_def Let_def split: if_splits)
  then have "range_ok (ByteOffset (last (m_segments m))) (ByteLength (last (m_segments m)))"
    using assms(1) by (auto simp: media_inv_def list_all_iff segment_ok_def)
  then show ?thesis using s True assms(1) by (auto simp: range_ok_def media_inv_def pending_ok_def)
next
  case False
  then show ?thesis using assms by (auto simp: next_range_def range_ok_def media_inv_def pending_ok_def split: if_splits)
qed

lemma numbered_snoc:
  assumes "numbered base gs" and "length gs < maxManifestSegments" and "base \<le> max_i64 - int (length gs)"
    and "Index g = int (length gs)" and "Sequence g = base + int (length gs)"
  shows "numbered base (gs @ [g])"
  using assms by (auto simp: numbered_def nth_append less_Suc_eq)

lemma on_uri_inv:
  assumes "media_inv m" and "on_uri env line m = Inr m1"
  shows "media_inv m1"
proof -
  obtain uri off len where r: "next_range uri m = Inr (off, len)" and n: "length (m_segments m) < maxManifestSegments"
      "m_seqBase m \<le> max_i64 - int (length (m_segments m))"
    and m1: "m1 = m\<lparr>m_segments := m_segments m @
                  [\<lparr>Index = int (length (m_segments m)), Sequence = m_seqBase m + int (length (m_segments m)), URI = uri,
                    DurationMicros = m_durMicros m, ByteOffset = off, ByteLength = len, KeyIndex = m_keyIndex m,
                    IVHex = m_ivHex m\<rparr>],
                m_totalMicros := (if m_durMicros m > max_i64 - m_totalMicros m then max_i64 else m_totalMicros m + m_durMicros m),
                m_hasInf := False, m_hasRange := False\<rparr>"
    using assms(2) by (auto simp: on_uri_def Let_def split: if_splits sum.splits)
  show ?thesis using assms(1) next_range_ok[OF assms(1) r] numbered_snoc[OF _ n]
    by (simp add: media_inv_def m1 segment_ok_def pending_ok_def max_i64_def)
qed

lemma media_line_inv:
  assumes "rounds_ok env" and "media_inv m" and "media_line env line m = Inr m1"
  shows "media_inv m1"
proof -
  have t: "media_inv (m\<lparr>m_type := t\<rparr>)" "media_inv (m\<lparr>m_endList := True\<rparr>)" for t
    using assms(2) by (simp_all add: media_inv_def pending_ok_def)
  have same: "m = m1 \<Longrightarrow> media_inv m1" using assms(2) by simp
  note steps = same on_sequence_inv[OF assms(2)] on_discontinuity_sequence_inv[OF assms(2)] on_target_inv[OF assms(2)]
    on_discontinuity_inv[OF assms(2)] on_map_inv[OF assms(2)] on_key_inv[OF assms(2)] on_byterange_inv[OF assms(2)]
    on_extinf_inv[OF assms(1,2)] on_uri_inv[OF assms(2)] t assms(2)
  show ?thesis using assms(3) unfolding media_line_def Let_def
    by (auto split: if_splits intro: steps)
qed

lemma media_lines_inv: "rounds_ok env \<Longrightarrow> media_inv m \<Longrightarrow> media_lines env ls m = Inr m1 \<Longrightarrow> media_inv m1"
proof (induction ls arbitrary: m)
  case (Cons l ls)
  then obtain m2 where "media_line env l m = Inr m2" "media_lines env ls m2 = Inr m1" by (auto split: sum.splits)
  then show ?case using Cons media_line_inv by blast
qed simp

lemma media_finish_ok: "media_inv m \<Longrightarrow> media_finish env m = Inr p \<Longrightarrow> playlist_ok p"
  by (auto simp: media_finish_def media_inv_def playlist_ok_def hd_conv_nth split: if_splits)

lemma parsed_media_ok: "rounds_ok env \<Longrightarrow> parseMediaPlaylist env ls = Inr p \<Longrightarrow> playlist_ok p"
  using media_lines_inv[OF _ media_start_inv] media_finish_ok by (fastforce simp: parseMediaPlaylist_def split: sum.splits)

lemma parsed_playlist_ok: "rounds_ok env \<Longrightarrow> ParsePlaylist env c = Inr (Media p) \<Longrightarrow> playlist_ok p"
  using parsed_media_ok by (fastforce simp: ParsePlaylist_def Let_def split: sum.splits if_splits)

text \<open>C25: Every media playlist the parser accepts is well formed: between one and 2^18 segments numbered from
  zero with consecutive media sequences inside 64 bits, at most 4096 distinct AES-128 keys, every segment and the init
  section bound to no key or to a declared one together with its IV, every byte range positive, and the init section
  present exactly for fragmented MP4.\<close>

theorem parsed_playlist_well_formed:
  assumes "rounds_ok env" and "ParsePlaylist env content = Inr (Media p)"
  shows "1 \<le> length (mp_Segments p) \<and> length (mp_Segments p) \<le> 2 ^ 18 \<and>
    (\<forall>i < length (mp_Segments p). Index (mp_Segments p ! i) = int i \<and>
       Sequence (mp_Segments p ! i) = mp_SequenceBase p + int i \<and> 0 \<le> Sequence (mp_Segments p ! i) \<and>
       Sequence (mp_Segments p ! i) \<le> max_i64 \<and> segment_ok (mp_Keys p) (mp_Segments p ! i)) \<and>
    length (mp_Keys p) \<le> 4096 \<and> keys_ok (mp_Keys p) \<and> init_ok (mp_Keys p) (mp_InitMap p) (mp_Container p)"
proof -
  have "playlist_ok p" using parsed_playlist_ok assms by blast
  then show ?thesis
    by (auto simp: playlist_ok_def numbered_def keys_ok_def list_all_length maxManifestSegments_def maxManifestKeys_def Suc_le_eq)
qed

section \<open>Parsed segments can be decrypted\<close>

lemma lower_hex_digit: "lower_hex c \<Longrightarrow> hex_digit c \<noteq> None"
  by (auto simp: lower_hex_def hex_digit_def Let_def)

lemma hex_decode_total:
  "list_all lower_hex s \<Longrightarrow> even (length s) \<Longrightarrow> \<exists>bs. hex_decode s = Some bs \<and> length bs = length s div 2"
proof (induction s rule: hex_decode.induct)
  case (3 c d cs)
  then obtain x y where "hex_digit c = Some x" "hex_digit d = Some y" using lower_hex_digit by fastforce
  moreover have "\<exists>bs. hex_decode cs = Some bs \<and> length bs = length cs div 2" using 3 calculation by simp
  ultimately show ?case by auto
qed simp_all

lemma parsed_iv:
  assumes "iv_ok (IVHex g)" and "0 \<le> Sequence g"
  shows "\<exists>iv. segment_iv g = Inr iv \<and> length iv = 16"
proof (cases "IVHex g = []")
  case True
  then show ?thesis using assms(2) by (simp add: segment_iv_def put_u64_def)
next
  case False
  then have "length (IVHex g) = 32" "list_all lower_hex (IVHex g)" using assms(1) by (auto simp: iv_ok_def)
  then show ?thesis using hex_decode_total[of "IVHex g"] False by (auto simp: segment_iv_def BlockSize_def)
qed

lemma refers_iv: "keys_ok ks \<Longrightarrow> refers ks ki iv \<Longrightarrow> iv_ok iv"
proof -
  assume k: "keys_ok ks" and r: "refers ks ki iv"
  show "iv_ok iv"
  proof (cases "ki = 0")
    case True
    then show ?thesis using r by (simp add: refers_def iv_ok_def)
  next
    case False
    then have "nat (ki - 1) < length ks" "iv = key_IVHex (ks ! nat (ki - 1))" using r by (auto simp: refers_def)
    then show ?thesis using k by (simp add: keys_ok_def list_all_length)
  qed
qed

text \<open>C26: Whatever the parser accepts can be decrypted as far as the manifest goes: with the key bytes at hand, no
  segment of a parsed playlist fails on its key number, its IV or its media sequence; only the ciphertext and its
  padding can be at fault.\<close>

theorem parsed_segments_decryptable:
  assumes "rounds_ok env" and "ParsePlaylist env content = Inr (Media p)" and "g \<in> set (mp_Segments p)"
    and "length table = length (mp_Keys p)" and "\<forall>k \<in> set table. length k = BlockSize"
  shows "(\<exists>iv. segment_iv g = Inr iv \<and> length iv = 16) \<and>
    (decryptSegmentInPlace dec buf (Some g) table = Inl err \<longrightarrow>
       err = EmptyCiphertext \<or> err = PaddingBytes \<or> (\<exists>n. err = Misaligned n \<or> err = PaddingLength n))"
proof -
  have p: "playlist_ok p" using parsed_playlist_ok assms by blast
  then have r: "refers (mp_Keys p) (KeyIndex g) (IVHex g)" and k: "keys_ok (mp_Keys p)"
    using assms(3) by (auto simp: playlist_ok_def segment_ok_def list_all_iff)
  obtain i where "i < length (mp_Segments p)" "g = mp_Segments p ! i" using assms(3) by (metis in_set_conv_nth)
  then have "0 \<le> Sequence g" using p by (auto simp: playlist_ok_def numbered_def)
  then obtain iv where iv: "segment_iv g = Inr iv" "length iv = 16" using parsed_iv refers_iv[OF k r] by blast
  have n: "KeyIndex g = 0 \<or> (0 < KeyIndex g \<and> KeyIndex g \<le> int (length table))" using r assms(4) by (auto simp: refers_def)
  then have "KeyIndex g \<noteq> 0 \<longrightarrow> table ! nat (KeyIndex g - 1) \<in> set table" by auto
  then show ?thesis using assms(5) n iv
    by (auto simp: decryptSegmentInPlace_def Let_def strip_padding_def split: if_splits)
qed

section \<open>Variant selection\<close>

definition rank :: "variant \<Rightarrow> int \<times> int \<times> int \<times> int" where
  "rank v = (v_Bandwidth v, wrap64 (v_Width v * v_Height v), v_AverageBandwidth v, - v_Order v)"

lemma better_rank: "variantBetter a b \<longleftrightarrow> rank b < rank a"
  by (auto simp: variantBetter_def rank_def Let_def less_prod_def)

definition best_of :: "variant list \<Rightarrow> variant option \<Rightarrow> bool" where
  "best_of vs b \<longleftrightarrow>
     (case b of None \<Rightarrow> \<forall>v \<in> set vs. v_DemuxedAudio v
      | Some x \<Rightarrow> x \<in> set vs \<and> \<not> v_DemuxedAudio x \<and> (\<forall>v \<in> set vs. \<not> v_DemuxedAudio v \<longrightarrow> rank v \<le> rank x))"

lemma better_of_best: "best_of vs b \<Longrightarrow> best_of (vs @ [v]) (better_of b v)"
  by (auto simp: best_of_def better_of_def better_rank split: option.splits)

lemma fold_best: "best_of us b \<Longrightarrow> best_of (us @ vs) (foldl better_of b vs)"
proof (induction vs arbitrary: us b)
  case (Cons v vs)
  show ?case using Cons.IH[OF better_of_best[OF Cons.prems]] by simp
qed simp

definition ordered :: "variant list \<Rightarrow> bool" where
  "ordered vs \<longleftrightarrow> (\<forall>i < length vs. v_Order (vs ! i) = int i)"

lemma new_variant_ordered: "ordered (ms_Variants ms) \<Longrightarrow> new_variant env a bw u ms = Inr ms1 \<Longrightarrow> ordered (ms_Variants ms1)"
  by (auto simp: new_variant_def ordered_def nth_append less_Suc_eq split: if_splits sum.splits prod.splits)

lemma stream_inf_ordered:
  "ordered (ms_Variants ms) \<Longrightarrow> on_stream_inf env v rest ms = Inr (ms1, rest1) \<Longrightarrow> ordered (ms_Variants ms1)"
  by (auto simp: on_stream_inf_def new_variant_ordered split: if_splits sum.splits option.splits prod.splits)

lemma other_ordered: "on_media v ms = Inr ms1 \<Longrightarrow> ms_Variants ms1 = ms_Variants ms"
  "on_session_key v ms = Inr ms1 \<Longrightarrow> ms_Variants ms1 = ms_Variants ms"
  by (auto simp: on_media_def on_session_key_def Let_def split: if_splits sum.splits)

lemma master_lines_ordered: "ordered (ms_Variants ms) \<Longrightarrow> master_lines env ls ms = Inr ms1 \<Longrightarrow> ordered (ms_Variants ms1)"
proof (induction env ls ms rule: master_lines.induct)
  case (2 env line rest ms)
  then show ?case using stream_inf_ordered other_ordered
    by (auto split: if_splits sum.splits prod.splits)
qed simp

lemma parsed_order:
  assumes "parseMasterPlaylist env ls = Inr ms"
  shows "ordered (ms_Variants ms) \<and> ms_Variants ms \<noteq> []"
proof -
  obtain ms0 where m: "master_lines env ls \<lparr>ms_BaseURL = r_base env, ms_Variants = [], ms_AudioGroups = []\<rparr> = Inr ms0"
    and v: "ms_Variants ms = map (demuxed (ms_AudioGroups ms0)) (ms_Variants ms0)" "ms_Variants ms \<noteq> []"
    using assms by (auto simp: parseMasterPlaylist_def Let_def split: sum.splits if_splits)
  have "ordered (ms_Variants ms0)" by (rule master_lines_ordered[OF _ m]) (simp add: ordered_def)
  then show ?thesis using v by (simp add: ordered_def demuxed_def)
qed

lemma ordered_inj: "ordered vs \<Longrightarrow> a \<in> set vs \<Longrightarrow> b \<in> set vs \<Longrightarrow> v_Order a = v_Order b \<Longrightarrow> a = b"
  by (metis in_set_conv_nth of_nat_eq_iff ordered_def)

text \<open>C27: The variant chosen from a parsed master playlist is the one best playable stream: it carries its own
  audio and beats every other such variant in the code's order; when none exists the error is the demuxed-audio
  gate.\<close>

theorem best_variant_selected:
  assumes "ParsePlaylist env content = Inr (Master ms)"
  shows "case SelectBestVariant (Some ms) of
      Inr b \<Rightarrow> b \<in> set (ms_Variants ms) \<and> \<not> v_DemuxedAudio b \<and>
        (\<forall>v \<in> set (ms_Variants ms). \<not> v_DemuxedAudio v \<and> v \<noteq> b \<longrightarrow> variantBetter b v \<and> \<not> variantBetter v b)
    | Inl e \<Rightarrow> e = [CDemuxedAudio] \<and> (\<forall>v \<in> set (ms_Variants ms). v_DemuxedAudio v)"
proof -
  have o: "ordered (ms_Variants ms)" "ms_Variants ms \<noteq> []"
    using assms parsed_order by (auto simp: ParsePlaylist_def Let_def split: sum.splits if_splits)
  have b: "best_of (ms_Variants ms) (foldl better_of None (ms_Variants ms))"
    using fold_best[of "[]" None "ms_Variants ms"] by (simp add: best_of_def)
  show ?thesis
  proof (cases "foldl better_of None (ms_Variants ms)")
    case None
    then show ?thesis using b o by (simp add: SelectBestVariant_def best_of_def)
  next
    case (Some x)
    then have x: "x \<in> set (ms_Variants ms)" "\<not> v_DemuxedAudio x"
      "\<forall>v \<in> set (ms_Variants ms). \<not> v_DemuxedAudio v \<longrightarrow> rank v \<le> rank x" using b by (auto simp: best_of_def)
    have "rank v < rank x" if "v \<in> set (ms_Variants ms)" "\<not> v_DemuxedAudio v" "v \<noteq> x" for v
    proof -
      have "rank v \<noteq> rank x" using ordered_inj[OF o(1) that(1) x(1)] that(3) by (auto simp: rank_def)
      then show ?thesis using x(3) that by (simp add: order_less_le)
    qed
    then show ?thesis using x Some o by (auto simp: SelectBestVariant_def better_rank order_less_imp_not_less)
  qed
qed

section \<open>A sample playlist\<close>

definition demo_env :: parser_env where
  "demo_env = \<lparr>r_resolve = (\<lambda>r. Some (''https'', ''cdn'', ''https://cdn/'' @ r)), r_base = ''https://cdn/m.m3u8'',
     r_float = (\<lambda>s. if s = ''10'' then Some (Finite 10) else None),
     r_micros = (\<lambda>q. if q = 10 then 10000000 else 0), r_path = (\<lambda>u. None),
     r_quote = (\<lambda>s. quote # s @ [quote]), r_sha = (\<lambda>s. s)\<rparr>"

definition demo_lines :: "string list" where
  "demo_lines = [''#EXT-X-KEY:METHOD=AES-128,URI='' @ [quote] @ ''k'' @ [quote] @ '',IV=0x1F'', ''#EXTINF:10,'', ''a.ts'',
     ''#EXTINF:10,'', ''b.ts'', ''#EXT-X-ENDLIST'']"

definition demo_text :: string where
  "demo_text = ''#EXTM3U'' @ concat (map (\<lambda>l. newline @ l) demo_lines)"

lemma demo_split: "splitPlaylistLines demo_text = Inr demo_lines"
  by code_simp

text \<open>The states of the parser on the sample, line by line.\<close>

definition demo_key :: hls_key where
  "demo_key = \<lparr>key_Method = ''AES-128'', key_URI = ''https://cdn/k'', key_IVHex = replicate 30 (CHR ''0'') @ ''1f''\<rparr>"

definition demo_segment :: "int \<Rightarrow> string \<Rightarrow> hls_segment" where
  "demo_segment i u = \<lparr>Index = i, Sequence = i, URI = ''https://cdn/'' @ u, DurationMicros = 10000000, ByteOffset = 0,
     ByteLength = 0, KeyIndex = 1, IVHex = key_IVHex demo_key\<rparr>"

definition demo1 :: media_state where
  "demo1 = media_start\<lparr>m_keys := [demo_key], m_keyIndexByID := [((key_URI demo_key, key_IVHex demo_key), 1)],
     m_keyIndex := 1, m_ivHex := key_IVHex demo_key\<rparr>"

definition demo2 :: media_state where
  "demo2 = demo1\<lparr>m_durMicros := 10000000, m_hasInf := True\<rparr>"

definition demo3 :: media_state where
  "demo3 = demo2\<lparr>m_segments := [demo_segment 0 ''a.ts''], m_hasInf := False, m_totalMicros := 10000000\<rparr>"

definition demo4 :: media_state where
  "demo4 = demo3\<lparr>m_hasInf := True\<rparr>"

definition demo5 :: media_state where
  "demo5 = demo4\<lparr>m_segments := [demo_segment 0 ''a.ts'', demo_segment 1 ''b.ts''], m_hasInf := False,
     m_totalMicros := 20000000\<rparr>"

definition demo6 :: media_state where
  "demo6 = demo5\<lparr>m_endList := True\<rparr>"

lemma demo_step1: "media_line demo_env (''#EXT-X-KEY:METHOD=AES-128,URI='' @ [quote] @ ''k'' @ [quote] @ '',IV=0x1F'') media_start = Inr demo1"
  by code_simp
lemma demo_step2: "media_line demo_env ''#EXTINF:10,'' demo1 = Inr demo2"
  by code_simp
lemma demo_uri:
  "resolveManifestURI (r_resolve demo_env) ''a.ts'' = Inr ''https://cdn/a.ts''"
  "resolveManifestURI (r_resolve demo_env) ''b.ts'' = Inr ''https://cdn/b.ts''"
  by code_simp+

lemma plain_line: "line \<noteq> [] \<Longrightarrow> hd line \<noteq> CHR ''#'' \<Longrightarrow> media_line env line m = on_uri env line m"
  by (cases line) (auto simp: media_line_def hasPrefix_def playlistTagName_def before_def low_latency_tags_def)

lemmas demo_states = demo1_def demo2_def demo3_def demo4_def demo5_def demo6_def media_start_def

lemma demo_step3: "media_line demo_env ''a.ts'' demo2 = Inr demo3"
  by (simp add: plain_line on_uri_def demo_uri next_range_def demo_states demo_segment_def maxManifestSegments_def max_i64_def)

lemma demo_step4: "media_line demo_env ''#EXTINF:10,'' demo3 = Inr demo4"
  by code_simp

lemma demo_step5: "media_line demo_env ''b.ts'' demo4 = Inr demo5"
  by (simp add: plain_line on_uri_def demo_uri next_range_def demo_states demo_segment_def maxManifestSegments_def max_i64_def)

lemma demo_step6: "media_line demo_env ''#EXT-X-ENDLIST'' demo5 = Inr demo6"
  by (simp add: media_line_def hasPrefix_def demo6_def)

lemma demo_parsed: "media_lines demo_env demo_lines media_start = Inr demo6"
  by (simp add: demo_lines_def demo_step1[simplified] demo_step2 demo_step3 demo_step4 demo_step5 demo_step6)

lemma demo_tags: "\<not> list_ex (\<lambda>l. playlistTagName l = ''#EXT-X-DEFINE'') demo_lines" "\<not> list_ex isMasterOnlyTag demo_lines"
  "list_ex isMediaOnlyTag demo_lines"
  by code_simp+

lemma demo_playlist:
  obtains p where "ParsePlaylist demo_env demo_text = Inr (Media p)" "mp_Segments p = m_segments demo6"
    "mp_Keys p = m_keys demo6" "mp_InitMap p = None"
proof -
  have "\<not> m_hasInf demo6" "\<not> m_hasRange demo6" "m_endList demo6" "m_segments demo6 \<noteq> []" "m_initMap demo6 = None"
    by (simp_all add: demo_states)
  then obtain p where p: "media_finish demo_env demo6 = Inr p" "mp_Segments p = m_segments demo6"
    "mp_Keys p = m_keys demo6" "mp_InitMap p = None" by (simp add: media_finish_def)
  have "ParsePlaylist demo_env demo_text = Inr (Media p)"
    using demo_split demo_tags p(1) by (simp add: ParsePlaylist_def parseMediaPlaylist_def demo_parsed Let_def)
  then show ?thesis using that p by blast
qed

lemma demo_rounds: "rounds_ok demo_env"
  by (simp add: rounds_ok_def demo_env_def max_i64_def)

theorem parsed_playlist_well_formed_witness:
  "\<exists>p. ParsePlaylist demo_env demo_text = Inr (Media p) \<and> length (mp_Segments p) = 2 \<and> keys_ok (mp_Keys p) \<and>
     init_ok (mp_Keys p) (mp_InitMap p) (mp_Container p)"
proof -
  obtain p where p: "ParsePlaylist demo_env demo_text = Inr (Media p)" "mp_Segments p = m_segments demo6"
    by (rule demo_playlist)
  then have "length (mp_Segments p) = 2" by (simp add: demo_states)
  then show ?thesis using parsed_playlist_well_formed[OF demo_rounds p(1)] p(1) by blast
qed

theorem parsed_segments_decryptable_witness:
  "segment_iv (demo_segment 1 ''b.ts'') = Inr (replicate 15 0 @ [31]) \<and>
   decryptSegmentInPlace (\<lambda>k b. b) [] (Some (demo_segment 1 ''b.ts'')) [replicate 16 7] = Inl EmptyCiphertext \<and>
   (\<exists>iv. segment_iv (demo_segment 1 ''b.ts'') = Inr iv \<and> length iv = 16)"
proof -
  obtain p where p: "ParsePlaylist demo_env demo_text = Inr (Media p)" "mp_Segments p = m_segments demo6"
    "mp_Keys p = m_keys demo6" by (rule demo_playlist)
  have "demo_segment 1 ''b.ts'' \<in> set (mp_Segments p)" "length [replicate 16 7 :: bytes] = length (mp_Keys p)"
    "\<forall>k \<in> set [replicate 16 7 :: bytes]. length k = BlockSize"
    by (simp_all add: p demo_states BlockSize_def)
  from parsed_segments_decryptable[OF demo_rounds p(1) this]
  have "\<exists>iv. segment_iv (demo_segment 1 ''b.ts'') = Inr iv \<and> length iv = 16" by blast
  moreover have "segment_iv (demo_segment 1 ''b.ts'') = Inr (replicate 15 0 @ [31])" by code_simp
  moreover have "decryptSegmentInPlace (\<lambda>k b. b) [] (Some (demo_segment 1 ''b.ts'')) [replicate 16 7] = Inl EmptyCiphertext"
    by (simp add: decryptSegmentInPlace_def demo_segment_def BlockSize_def)
  ultimately show ?thesis by blast
qed

definition demo_master :: string where
  "demo_master = concat (map (\<lambda>l. l @ newline) [''#EXTM3U'', ''#EXT-X-STREAM-INF:BANDWIDTH=100'', ''lo'',
     ''#EXT-X-STREAM-INF:BANDWIDTH=300'', ''hi''])"

definition demo_variants :: "variant list" where
  "demo_variants = [\<lparr>v_URI = ''https://cdn/lo'', v_RawURI = ''lo'', v_Bandwidth = 100, v_AverageBandwidth = 0, v_Width = 0,
     v_Height = 0, v_Codecs = [], v_AudioGroupID = [], v_DemuxedAudio = False, v_Order = 0\<rparr>,
     \<lparr>v_URI = ''https://cdn/hi'', v_RawURI = ''hi'', v_Bandwidth = 300, v_AverageBandwidth = 0, v_Width = 0,
     v_Height = 0, v_Codecs = [], v_AudioGroupID = [], v_DemuxedAudio = False, v_Order = 1\<rparr>]"

lemma demo_master_parsed:
  "ParsePlaylist demo_env demo_master = Inr (Master \<lparr>ms_BaseURL = r_base demo_env, ms_Variants = demo_variants, ms_AudioGroups = []\<rparr>)"
  by code_simp

theorem best_variant_selected_witness:
  "SelectBestVariant (Some \<lparr>ms_BaseURL = r_base demo_env, ms_Variants = demo_variants, ms_AudioGroups = []\<rparr>) = Inr (demo_variants ! 1) \<and>
   variantBetter (demo_variants ! 1) (demo_variants ! 0)"
proof -
  have s: "SelectBestVariant (Some \<lparr>ms_BaseURL = r_base demo_env, ms_Variants = demo_variants, ms_AudioGroups = []\<rparr>) = Inr (demo_variants ! 1)"
    by code_simp
  have "demo_variants ! 0 \<in> set demo_variants" "\<not> v_DemuxedAudio (demo_variants ! 0)" "demo_variants ! 0 \<noteq> demo_variants ! 1"
    by (simp_all add: demo_variants_def)
  then show ?thesis using best_variant_selected[OF demo_master_parsed] s by simp
qed

end
