(* ===== verification/HlsPreflight.thy ===== *)
theory HlsPreflight
  imports HlsManifestFacts
begin

text \<open>
From a manifest URL to a table to download (strategy/hls/preflight.go, bootstrap.go, manifest_refresh.go): the fetch of
  one document, the walk over master and media playlist, the initial resume state, the check and the application of a
  refreshed playlist, and the bootstrap of a run. Cancellation inside a fetch is one of its errors; the deadline and the
  connection pool are the transport's.
\<close>

section \<open>Fetching a manifest\<close>

text \<open>
  The network and the URL parser are arguments. A reply may depend on the requests made so far, which are
  the state every fetch passes on; a transport error carries its causes.
\<close>

record http_reply =
  hr_status :: int
  hr_final :: string
  hr_body :: "go_error + string"

record web =
  wb_request :: "string \<Rightarrow> bool"
  wb_get :: "string list \<Rightarrow> string \<Rightarrow> go_error + http_reply"
  wb_parser :: "string \<Rightarrow> parser_env"
  wb_url :: "string \<Rightarrow> (string \<times> string) option"
  wb_estimate :: "int \<Rightarrow> int \<Rightarrow> float_value"

definition MaxManifestBytes :: nat where
  "MaxManifestBytes = 8 * 1048576"

definition IsPermanentHTTPStatus :: "int \<Rightarrow> bool" where
  "IsPermanentHTTPStatus code \<longleftrightarrow> 400 \<le> code \<and> code < 500 \<and> code \<noteq> 429"

definition fetchManifestText :: "web \<Rightarrow> string \<Rightarrow> string list \<Rightarrow> (go_error + (string \<times> string)) \<times> string list" where
  "fetchManifestText wb url reqs =
     (if \<not> wb_request wb url then (Inl [CInvalidManifest], reqs)
      else
        ((case wb_get wb reqs url of
            Inl e \<Rightarrow> Inl e
          | Inr r \<Rightarrow>
              if hr_status r \<noteq> 200
              then Inl (if IsPermanentHTTPStatus (hr_status r) then [CPermanentHTTP] else [COther ''unexpected status''])
              else (case hr_body r of
                  Inl e \<Rightarrow> Inl e
                | Inr body \<Rightarrow> if length body > MaxManifestBytes then Inl [CInvalidManifest] else Inr (body, hr_final r))),
         reqs @ [url]))"

definition http_url :: "web \<Rightarrow> string \<Rightarrow> bool" where
  "http_url wb u \<longleftrightarrow>
     (case wb_url wb u of None \<Rightarrow> False
      | Some (scheme, host) \<Rightarrow> (equalFold scheme ''http'' \<or> equalFold scheme ''https'') \<and> host \<noteq> [])"

text \<open>
  \<open>walk\<close>: the entry and, for a master playlist, the media playlist of the best variant. The flag of an error
  tells a failed request from a document that does not fit.
\<close>

definition second_hop :: "web \<Rightarrow> variant \<Rightarrow> string list \<Rightarrow> ((go_error \<times> bool) + (media_playlist \<times> int)) \<times> string list" where
  "second_hop wb best reqs =
     (case fetchManifestText wb (v_URI best) reqs of
        (Inl e, reqs1) \<Rightarrow> (Inl (e, True), reqs1)
      | (Inr (body, final), reqs1) \<Rightarrow>
          ((case ParsePlaylist (wb_parser wb final) body of
              Inl e \<Rightarrow> Inl (e, False)
            | Inr (Master m) \<Rightarrow> Inl ([CInvalidManifest], False)
            | Inr (Media p) \<Rightarrow> Inr (p, v_Bandwidth best)), reqs1))"

definition walk :: "web \<Rightarrow> string \<Rightarrow> string list \<Rightarrow> ((go_error \<times> bool) + (media_playlist \<times> int)) \<times> string list" where
  "walk wb entry reqs =
     (case fetchManifestText wb entry reqs of
        (Inl e, reqs1) \<Rightarrow> (Inl (e, True), reqs1)
      | (Inr (text, final), reqs1) \<Rightarrow>
          (case ParsePlaylist (wb_parser wb final) text of
             Inl e \<Rightarrow> (Inl (e, False), reqs1)
           | Inr (Media p) \<Rightarrow> (Inr (p, 0), reqs1)
           | Inr (Master m) \<Rightarrow>
               (case SelectBestVariant (Some m) of
                  Inl e \<Rightarrow> (Inl (e, False), reqs1)
                | Inr best \<Rightarrow> second_hop wb best reqs1)))"

definition drop_flag :: "(go_error \<times> bool) + 'a \<Rightarrow> go_error + 'a" where
  "drop_flag r = (case r of Inl (e, _) \<Rightarrow> Inl e | Inr x \<Rightarrow> Inr x)"

definition fetchRefreshPlaylist :: "web \<Rightarrow> resume_state \<Rightarrow> string list \<Rightarrow> (go_error + (media_playlist \<times> int)) \<times> string list" where
  "fetchRefreshPlaylist wb seed reqs =
     (let anchor = trim_space (ManifestURL seed);
          start0 = trim_space (MediaPlaylistURL seed);
          start = (if http_url wb start0 then start0 else anchor)
      in case walk wb start reqs of
           (Inl (e, failed), reqs1) \<Rightarrow>
             if failed \<and> anchor \<noteq> [] \<and> start \<noteq> anchor
             then (case walk wb anchor reqs1 of (r, reqs2) \<Rightarrow> (drop_flag r, reqs2))
             else (Inl e, reqs1)
         | (Inr x, reqs1) \<Rightarrow> (Inr x, reqs1))"

section \<open>The initial resume state\<close>

definition ComputeEstimatedBytes :: "web \<Rightarrow> int \<Rightarrow> int \<Rightarrow> int" where
  "ComputeEstimatedBytes wb bandwidth micros =
     (if bandwidth \<le> 0 \<or> micros \<le> 0 then 0
      else (case wb_estimate wb bandwidth micros of
          NotANumber \<Rightarrow> 0
        | Infinite \<Rightarrow> max_i64
        | Finite q \<Rightarrow> if q \<le> 0 then 0 else if q \<ge> of_int max_i64 then max_i64 else \<lfloor>q\<rfloor>))"

definition RecordEligibleMinFileSize :: int where
  "RecordEligibleMinFileSize = 50 * 1048576"

definition ComputeRecordEligible :: "int \<Rightarrow> bool" where
  "ComputeRecordEligible est \<longleftrightarrow> est \<le> 0 \<or> est > RecordEligibleMinFileSize"

definition zeroProgressResumeState :: "web \<Rightarrow> string \<Rightarrow> media_playlist \<Rightarrow> int \<Rightarrow> resume_state" where
  "zeroProgressResumeState wb manifestURL p bandwidth =
     (let est = ComputeEstimatedBytes wb bandwidth (mp_TotalMicros p) in
      \<lparr>ManifestURL = trim_space manifestURL, MediaPlaylistURL = mp_BaseURL p, SegmentRefURL = mp_SegmentRefURL p,
       ManifestFingerprint = mp_Fingerprint p, ContainerFormat = mp_Container p, EstimatedBytes = est,
       RecordEligible = ComputeRecordEligible est,
       InitSegmentURI = (case mp_InitMap p of None \<Rightarrow> [] | Some im \<Rightarrow> im_URI im),
       InitByteOffset = (case mp_InitMap p of None \<Rightarrow> 0 | Some im \<Rightarrow> im_ByteOffset im),
       InitByteLength = (case mp_InitMap p of None \<Rightarrow> 0 | Some im \<Rightarrow> im_ByteLength im),
       InitKeyIndex = (case mp_InitMap p of None \<Rightarrow> 0 | Some im \<Rightarrow> im_KeyIndex im),
       InitIVHex = (case mp_InitMap p of None \<Rightarrow> [] | Some im \<Rightarrow> im_IVHex im),
       InitCompleted = False, InitBytes = 0, TotalSegments = int (length (mp_Segments p)),
       CompletedBitmap = replicate ((length (mp_Segments p) + 7) div 8) 0, MergedSegments = 0, MergedBytes = 0,
       VerifiedBytes = 0, SpillPath = [], SpillFileSize = 0, SpillEntries = [], Keys = mp_Keys p, Segments = mp_Segments p\<rparr>)"

text \<open>The fresh state of Go: every field zero.\<close>

definition empty_state :: resume_state where
  "empty_state = \<lparr>ManifestURL = [], MediaPlaylistURL = [], SegmentRefURL = [], ManifestFingerprint = [],
     ContainerFormat = [], EstimatedBytes = 0, RecordEligible = False, InitSegmentURI = [], InitByteOffset = 0,
     InitByteLength = 0, InitKeyIndex = 0, InitIVHex = [], InitCompleted = False, InitBytes = 0, TotalSegments = 0,
     CompletedBitmap = [], MergedSegments = 0, MergedBytes = 0, VerifiedBytes = 0, SpillPath = [], SpillFileSize = 0,
     SpillEntries = [], Keys = [], Segments = []\<rparr>"

definition NewFallbackHLSResumeState :: "string \<Rightarrow> string \<Rightarrow> resume_state" where
  "NewFallbackHLSResumeState manifestURL fallback =
     (let m = trim_space manifestURL; f = trim_space fallback in
      empty_state\<lparr>ManifestURL := m, MediaPlaylistURL := m, SegmentRefURL := (if f = [] then m else f),
        ContainerFormat := ''ts'', RecordEligible := True\<rparr>)"

definition RebaseManifestURL :: "resume_state option \<Rightarrow> string \<Rightarrow> resume_state option" where
  "RebaseManifestURL s newURL = map_option (\<lambda>_. empty_state\<lparr>ManifestURL := newURL, RecordEligible := True\<rparr>) s"

definition ShouldFailFastPreflight :: "go_error \<Rightarrow> bool" where
  "ShouldFailFastPreflight e = IsPermanentHLSError e"

definition PreflightHLSManifest :: "web \<Rightarrow> string \<Rightarrow> string list \<Rightarrow> (go_error + resume_state) \<times> string list" where
  "PreflightHLSManifest wb manifestURL reqs =
     (let u = trim_space manifestURL in
      if \<not> http_url wb u then (Inl [CInvalidManifest], reqs)
      else (case walk wb u reqs of
          (Inl (e, _), reqs1) \<Rightarrow> (Inl e, reqs1)
        | (Inr (p, bandwidth), reqs1) \<Rightarrow> (Inr (zeroProgressResumeState wb u p bandwidth), reqs1)))"

section \<open>Refreshing a prepared table\<close>

definition source_mismatch :: go_error where
  "source_mismatch = [COther ''source metadata mismatch'']"

definition same_descriptor :: "hls_segment \<Rightarrow> hls_segment \<Rightarrow> bool" where
  "same_descriptor new old \<longleftrightarrow> Index new = Index old \<and> Sequence new = Sequence old \<and>
     DurationMicros new = DurationMicros old \<and> ByteOffset new = ByteOffset old \<and> ByteLength new = ByteLength old \<and>
     KeyIndex new = KeyIndex old \<and> IVHex new = IVHex old"

definition validateRefreshPlaylist :: "resume_state option \<Rightarrow> media_playlist option \<Rightarrow> go_error option" where
  "validateRefreshPlaylist seed pl =
     (case (seed, pl) of
        (Some s, Some p) \<Rightarrow>
          if int (length (mp_Segments p)) \<noteq> TotalSegments s then Some source_mismatch
          else if int (length (Segments s)) \<noteq> TotalSegments s then Some source_mismatch
          else if mp_Container p \<noteq> ContainerFormat s then Some source_mismatch
          else if \<not> list_all2 same_descriptor (mp_Segments p) (Segments s) then Some source_mismatch
          else if length (mp_Keys p) \<noteq> length (Keys s) then Some source_mismatch
          else if \<not> list_all2 (\<lambda>new old. key_Method new = key_Method old \<and> key_IVHex new = key_IVHex old) (mp_Keys p) (Keys s)
               then Some source_mismatch
          else if (mp_InitMap p = None) \<noteq> (InitSegmentURI s = []) then Some source_mismatch
          else if (case mp_InitMap p of None \<Rightarrow> False
               | Some im \<Rightarrow> im_ByteOffset im \<noteq> InitByteOffset s \<or> im_ByteLength im \<noteq> InitByteLength s \<or>
                   im_KeyIndex im \<noteq> InitKeyIndex s \<or> im_IVHex im \<noteq> InitIVHex s) then Some source_mismatch
          else if ManifestFingerprint s \<noteq> [] \<and> mp_Fingerprint p \<noteq> ManifestFingerprint s then Some source_mismatch
          else None
      | _ \<Rightarrow> Some source_mismatch)"

text \<open>
  The loops over the keys and the segments from \<open>fromSeg\<close> on; a negative start would panic in the code, every
  caller passes the merged frontier.
\<close>

definition move_keys :: "hls_key list \<Rightarrow> hls_key list \<Rightarrow> hls_key list" where
  "move_keys old new = map2 (\<lambda>x n. x\<lparr>key_URI := key_URI n\<rparr>) old new"

definition move_segments :: "nat \<Rightarrow> hls_segment list \<Rightarrow> hls_segment list \<Rightarrow> hls_segment list" where
  "move_segments from old new = take from old @ map2 (\<lambda>x n. x\<lparr>URI := URI n\<rparr>) (drop from old) (drop from new)"

definition applyManifestURIs :: "resume_state \<Rightarrow> media_playlist \<Rightarrow> int \<Rightarrow> resume_state" where
  "applyManifestURIs s p from = s\<lparr>ManifestFingerprint := mp_Fingerprint p, MediaPlaylistURL := mp_BaseURL p,
     SegmentRefURL := mp_SegmentRefURL p,
     InitSegmentURI := (case mp_InitMap p of None \<Rightarrow> InitSegmentURI s | Some im \<Rightarrow> im_URI im),
     Keys := move_keys (Keys s) (mp_Keys p), Segments := move_segments (nat from) (Segments s) (mp_Segments p)\<rparr>"

definition refreshFatalCause :: "go_error \<Rightarrow> go_error option" where
  "refreshFatalCause e =
     (if list_ex (\<lambda>c. c \<in> {COther ''source metadata mismatch'', CPermanentHTTP, CMaxRedirects, CUserinfo, CContract,
           CRedirectRefusal}) e \<or> IsPermanentHLSError e
      then Some e else None)"

definition hasPreparedTable :: "resume_state option \<Rightarrow> bool" where
  "hasPreparedTable seed =
     (case seed of None \<Rightarrow> False
      | Some s \<Rightarrow> TotalSegments s > 0 \<and> int (length (Segments s)) = TotalSegments s \<and> MediaPlaylistURL s \<noteq> [] \<and>
          int (length (CompletedBitmap s)) = (TotalSegments s + 7) div 8 \<and> indexed 0 (Segments s))"

definition resumeRefreshRequired :: "bool \<Rightarrow> resume_state \<Rightarrow> bool" where
  "resumeRefreshRequired isResume s =
     (if MergedSegments s \<ge> TotalSegments s \<and> VerifiedBytes s = MergedBytes s then False
      else isResume \<or> MergedSegments s > 0 \<or> VerifiedBytes s > 0 \<or> SpillEntries s \<noteq> [] \<or> InitCompleted s)"

text \<open>\<open>bootstrap\<close>; the error of the parent context, once fetched, is an argument.\<close>

definition bootstrap :: "web \<Rightarrow> bool \<Rightarrow> go_error option \<Rightarrow> resume_state \<Rightarrow> string list \<Rightarrow>
    (go_error + resume_state) \<times> string list" where
  "bootstrap wb isResume ctxErr seed reqs =
     (if hasPreparedTable (Some seed) then
        (if \<not> resumeRefreshRequired isResume seed then (Inr seed, reqs)
         else (case fetchRefreshPlaylist wb seed reqs of
             (Inl e, reqs1) \<Rightarrow>
               ((case ctxErr of Some c \<Rightarrow> Inl c
                 | None \<Rightarrow> (case refreshFatalCause e of Some f \<Rightarrow> Inl f | None \<Rightarrow> Inr seed)), reqs1)
           | (Inr (p, _), reqs1) \<Rightarrow>
               ((case validateRefreshPlaylist (Some seed) (Some p) of
                   Some e \<Rightarrow> Inl e
                 | None \<Rightarrow> Inr (applyManifestURIs seed p (MergedSegments seed))), reqs1)))
      else (case fetchRefreshPlaylist wb seed reqs of
          (Inl e, reqs1) \<Rightarrow> (Inl e, reqs1)
        | (Inr (p, bandwidth), reqs1) \<Rightarrow> (Inr (zeroProgressResumeState wb (ManifestURL seed) p bandwidth), reqs1)))"

section \<open>From the manifest to a mounted table\<close>

lemma fetch_log: "fetchManifestText wb u reqs = (r, reqs1) \<Longrightarrow> length reqs1 \<le> length reqs + 1"
  by (auto simp: fetchManifestText_def split: if_splits)

lemma second_hop_log: "second_hop wb b reqs = (r, reqs1) \<Longrightarrow> length reqs1 \<le> length reqs + 1"
  using fetch_log by (fastforce simp: second_hop_def split: prod.splits sum.splits playlist.splits)

lemma walk_log:
  assumes "walk wb u reqs = (r, reqs1)"
  shows "length reqs1 \<le> length reqs + 2"
proof -
  obtain x l where f: "fetchManifestText wb u reqs = (x, l)" by fastforce
  have "length reqs1 \<le> length l + 1"
    using assms second_hop_log[of wb _ l r reqs1] by (auto simp: walk_def f split: sum.splits prod.splits playlist.splits)
  then show ?thesis using fetch_log[OF f] by simp
qed

definition web_ok :: "web \<Rightarrow> bool" where
  "web_ok wb \<longleftrightarrow> (\<forall>b. rounds_ok (wb_parser wb b) \<and> r_base (wb_parser wb b) \<noteq> [] \<and>
     (\<forall>r s h. r_resolve (wb_parser wb b) r \<noteq> Some (s, h, [])))"

definition usable :: "media_playlist \<Rightarrow> bool" where
  "usable p \<longleftrightarrow> playlist_ok p \<and> mp_BaseURL p \<noteq> [] \<and> (\<forall>im. mp_InitMap p = Some im \<longrightarrow> im_URI im \<noteq> [])"

lemma resolved_nonempty: "\<forall>r s h. rs r \<noteq> Some (s, h, []) \<Longrightarrow> resolveManifestURI rs u = Inr x \<Longrightarrow> x \<noteq> []"
  by (auto simp: resolveManifestURI_def Let_def split: if_splits option.splits)

definition map_uri_ok :: "media_state \<Rightarrow> bool" where
  "map_uri_ok m \<longleftrightarrow> (\<forall>im. m_initMap m = Some im \<longrightarrow> im_URI im \<noteq> [])"

lemma on_map_uri:
  assumes "\<forall>r s h. r_resolve env r \<noteq> Some (s, h, [])" and "map_uri_ok m" and "on_map env v m = Inr m1"
  shows "map_uri_ok m1"
  using assms(2,3) resolved_nonempty[OF assms(1)]
  by (auto simp: on_map_def map_uri_ok_def Let_def split: if_splits sum.splits option.splits)

lemma other_maps:
  "on_sequence v m = Inr m1 \<Longrightarrow> m_initMap m1 = m_initMap m"
  "on_discontinuity_sequence v m = Inr m1 \<Longrightarrow> m_initMap m1 = m_initMap m"
  "on_target v m = Inr m1 \<Longrightarrow> m_initMap m1 = m_initMap m"
  "on_key env v m = Inr m1 \<Longrightarrow> m_initMap m1 = m_initMap m"
  "on_byterange v m = Inr m1 \<Longrightarrow> m_initMap m1 = m_initMap m"
  "on_extinf env v m = Inr m1 \<Longrightarrow> m_initMap m1 = m_initMap m"
  "on_uri env v m = Inr m1 \<Longrightarrow> m_initMap m1 = m_initMap m"
  by (auto simp: on_sequence_def on_discontinuity_sequence_def on_target_def on_byterange_def on_extinf_def on_uri_def
      on_key_def intern_key_def Let_def split: if_splits sum.splits option.splits)

lemma media_line_map:
  assumes "\<forall>r s h. r_resolve env r \<noteq> Some (s, h, [])" and "map_uri_ok m" and "media_line env l m = Inr m1"
  shows "map_uri_ok m1"
proof -
  have same: "m_initMap x = m_initMap m \<Longrightarrow> map_uri_ok x" for x using assms(2) by (simp add: map_uri_ok_def)
  have t: "m_initMap (on_discontinuity m) = m_initMap m" by (simp add: on_discontinuity_def)
  note steps = on_map_uri[OF assms(1,2)] other_maps[THEN same] same same[OF t]
  show ?thesis using assms(3) unfolding media_line_def Let_def by (auto split: if_splits intro: steps)
qed

lemma media_lines_map:
  "\<forall>r s h. r_resolve env r \<noteq> Some (s, h, []) \<Longrightarrow> map_uri_ok m \<Longrightarrow> media_lines env ls m = Inr m1 \<Longrightarrow> map_uri_ok m1"
proof (induction ls arbitrary: m)
  case (Cons l ls)
  then obtain m2 where "media_line env l m = Inr m2" "media_lines env ls m2 = Inr m1" by (auto split: sum.splits)
  then show ?case using Cons media_line_map by blast
qed simp

lemma parsed_usable:
  assumes "web_ok wb" and "ParsePlaylist (wb_parser wb b) c = Inr (Media p)"
  shows "usable p"
proof -
  let ?env = "wb_parser wb b"
  obtain ls where ls: "parseMediaPlaylist ?env ls = Inr p"
    using assms(2) by (auto simp: ParsePlaylist_def Let_def split: sum.splits if_splits)
  then obtain m where m: "media_lines ?env ls media_start = Inr m" "media_finish ?env m = Inr p"
    by (auto simp: parseMediaPlaylist_def split: sum.splits)
  have "map_uri_ok m"
    by (rule media_lines_map[OF _ _ m(1)]) (use assms(1) in \<open>auto simp: web_ok_def map_uri_ok_def media_start_def\<close>)
  moreover have "playlist_ok p" using parsed_media_ok[OF _ ls] assms(1) by (simp add: web_ok_def)
  ultimately show ?thesis using m(2) assms(1) by (auto simp: usable_def media_finish_def map_uri_ok_def web_ok_def split: if_splits)
qed

lemma walk_usable:
  assumes "web_ok wb" and "walk wb u reqs = (Inr (p, bw), reqs1)"
  shows "usable p"
  using assms(2) parsed_usable[OF assms(1)]
  by (fastforce simp: walk_def second_hop_def split: prod.splits sum.splits playlist.splits)

lemma fetch_usable:
  assumes "web_ok wb" and "fetchRefreshPlaylist wb seed reqs = (Inr (p, bw), reqs1)"
  shows "usable p"
  using assms(2) walk_usable[OF assms(1)]
  by (fastforce simp: fetchRefreshPlaylist_def drop_flag_def Let_def split: prod.splits sum.splits if_splits)

lemma indexed_playlist: "numbered base gs \<Longrightarrow> indexed 0 gs"
  by (simp add: indexed_iff numbered_def)

lemma zero_progress_prepared:
  assumes "usable p"
  shows "hasPreparedTable (Some (zeroProgressResumeState wb u p bw))"
proof -
  have "numbered (mp_SequenceBase p) (mp_Segments p)" "mp_Segments p \<noteq> []" "mp_BaseURL p \<noteq> []"
    using assms by (simp_all add: usable_def playlist_ok_def)
  then show ?thesis using indexed_playlist
    by (simp add: hasPreparedTable_def zeroProgressResumeState_def Let_def zdiv_int)
qed

lemma zero_progress_sane:
  assumes "usable p"
  shows "progressCountersSane (zeroProgressResumeState wb u p bw)"
proof -
  have n: "mp_Segments p \<noteq> []" "init_ok (mp_Keys p) (mp_InitMap p) (mp_Container p)"
    using assms by (simp_all add: usable_def playlist_ok_def)
  have t: "tail_bits (replicate k 0) n = 0" if "0 < k" for k n using that by (simp add: tail_bits_def)
  have l: "0 < (length (mp_Segments p) + 7) div 8" using n(1) by (cases "mp_Segments p") auto
  show ?thesis using n(2) t[OF l]
    by (auto simp: progressCountersSane_def zeroProgressResumeState_def Let_def zdiv_int init_ok_def range_ok_def split: option.splits)
qed

text \<open>C28: An accepted manifest can be downloaded: on a file system that answers without a fault, the resume state a successful preflight builds is a complete prepared
  table with sane counters that needs no refresh, took at most two requests, and mounts without an error on any
  existing output and spill file.\<close>

theorem preflight_state_mounts:
  assumes "web_ok wb" and "PreflightHLSManifest wb url reqs = (Inr s, reqs1)"
    and "validateSpillID ID = None" and "good_fetch fetch"
  shows "hasPreparedTable (Some s) \<and> progressCountersSane s \<and> \<not> resumeRefreshRequired False s \<and>
    length reqs1 \<le> length reqs + 2 \<and>
    (\<exists>mw s1 b. mount ID dest (Some s) fetch out dsk [] arena = Some (Inr (mw, s1, b)))"
proof -
  obtain p bw where w: "walk wb (trim_space url) reqs = (Inr (p, bw), reqs1)"
    and s: "s = zeroProgressResumeState wb (trim_space url) p bw"
    using assms(2) by (auto simp: PreflightHLSManifest_def Let_def split: if_splits prod.splits sum.splits)
  note p = walk_usable[OF assms(1) w]
  have h: "hasPreparedTable (Some s)" "progressCountersSane s" unfolding s
    by (rule zero_progress_prepared[OF p], rule zero_progress_sane[OF p])
  then have "0 < TotalSegments s" "int (length (Segments s)) = TotalSegments s" "indexed 0 (Segments s)"
    by (simp_all add: hasPreparedTable_def)
  moreover have "MergedBytes s \<le> max_i64" by (simp add: s zeroProgressResumeState_def Let_def max_i64_def)
  ultimately have "\<exists>mw s1 b. mount ID dest (Some s) fetch out dsk [] arena = Some (Inr (mw, s1, b))"
    using mount_returns assms(3,4) by blast
  moreover have "\<not> resumeRefreshRequired False s" by (simp add: s resumeRefreshRequired_def zeroProgressResumeState_def Let_def)
  ultimately show ?thesis using h walk_log[OF w] by blast
qed

section \<open>What a refresh moves\<close>

definition moved :: "nat \<Rightarrow> hls_segment list \<Rightarrow> hls_segment list \<Rightarrow> bool" where
  "moved from new old \<longleftrightarrow> length new = length old \<and> (\<forall>i < length old. same_descriptor (new ! i) (old ! i) \<and>
     (i < from \<longrightarrow> new ! i = old ! i))"

lemma same_refl: "same_descriptor g g"
  by (simp add: same_descriptor_def)

lemma accepted_refresh:
  assumes "validateRefreshPlaylist (Some s) (Some p) = None"
  shows "int (length (Segments s)) = TotalSegments s \<and> list_all2 same_descriptor (mp_Segments p) (Segments s) \<and>
    list_all2 (\<lambda>new old. key_Method new = key_Method old \<and> key_IVHex new = key_IVHex old) (mp_Keys p) (Keys s) \<and>
    (mp_InitMap p = None \<longleftrightarrow> InitSegmentURI s = [])"
  using assms by (auto simp: validateRefreshPlaylist_def split: if_splits)

lemma move_segments_nth:
  assumes "length new = length old" and "i < length old"
  shows "move_segments from old new ! i = (if i < from then old ! i else (old ! i)\<lparr>URI := URI (new ! i)\<rparr>)"
  using assms by (auto simp: move_segments_def nth_append min_def)

lemma move_segments_length: "length new = length old \<Longrightarrow> length (move_segments from old new) = length old"
  by (auto simp: move_segments_def)

lemma moved_segments:
  assumes "length new = length old"
  shows "moved from (move_segments from old new) old"
  using assms by (simp add: moved_def move_segments_length move_segments_nth same_descriptor_def)

lemma moved_indexed: "moved from new old \<Longrightarrow> indexed 0 new \<longleftrightarrow> indexed 0 old"
  by (auto simp: moved_def indexed_iff same_descriptor_def)

lemma known_upper_same: "list_all2 same_descriptor xs ys \<Longrightarrow> known_upper xs u = known_upper ys u"
  by (induction arbitrary: u rule: list_all2_induct) (auto simp: same_descriptor_def)

lemma moved_upper: "moved from new old \<Longrightarrow> known_upper (take k new) u = known_upper (take k old) u"
  by (rule known_upper_same) (auto simp: moved_def list_all2_conv_all_nth)

definition uri_fields :: "resume_state \<Rightarrow> resume_state \<Rightarrow> resume_state" where
  "uri_fields s1 s = s1\<lparr>ManifestFingerprint := ManifestFingerprint s, MediaPlaylistURL := MediaPlaylistURL s,
     SegmentRefURL := SegmentRefURL s, InitSegmentURI := InitSegmentURI s, Keys := Keys s, Segments := Segments s\<rparr>"

lemma uri_fields_sel:
  "TotalSegments (uri_fields s1 s) = TotalSegments s1" "MergedSegments (uri_fields s1 s) = MergedSegments s1"
  "CompletedBitmap (uri_fields s1 s) = CompletedBitmap s1" "InitCompleted (uri_fields s1 s) = InitCompleted s1"
  "InitBytes (uri_fields s1 s) = InitBytes s1" "MergedBytes (uri_fields s1 s) = MergedBytes s1"
  "VerifiedBytes (uri_fields s1 s) = VerifiedBytes s1" "SpillPath (uri_fields s1 s) = SpillPath s1"
  "SpillFileSize (uri_fields s1 s) = SpillFileSize s1" "SpillEntries (uri_fields s1 s) = SpillEntries s1"
  by (simp_all add: uri_fields_def)

lemma moved_validates:
  assumes f: "uri_fields s1 s = s" and m: "moved from (Segments s1) (Segments s)"
    and i: "InitSegmentURI s1 = [] \<longleftrightarrow> InitSegmentURI s = []"
  shows "ValidateCheckpointSeed (Some s1) = ValidateCheckpointSeed (Some s)"
proof -
  note e = uri_fields_sel[of s1 s, unfolded f, symmetric]
  have l: "length (Segments s1) = length (Segments s)" using m by (simp add: moved_def)
  have t: "validate_table (demoteSpill s1) = validate_table (demoteSpill s)"
    using moved_indexed[OF m] by (simp add: validate_table_def demoteSpill_def e l)
  have b: "validate_bytes (demoteSpill s1) = validate_bytes (demoteSpill s)"
    using i moved_upper[OF m] by (simp add: validate_bytes_def demoteSpill_def e split: sum.splits option.splits)
  have c: "validate_clean (demoteSpill s1) = validate_clean (demoteSpill s)" by (simp add: validate_clean_def demoteSpill_def e)
  have k: "check_entries s1 prev n es = check_entries s prev n es" for prev n es
    by (induction es arbitrary: prev n) (simp_all add: e)
  have v: "validateSeed (Some (demoteSpill s1)) = validateSeed (Some (demoteSpill s))"
    by (simp only: validateSeed_def option.case t b c)
  show ?thesis by (simp only: ValidateCheckpointSeed_def option.case v k e)
qed

lemma apply_uri_fields: "uri_fields (applyManifestURIs s p from) s = s"
  by (simp add: uri_fields_def applyManifestURIs_def)

lemma apply_moved:
  assumes "validateRefreshPlaylist (Some s) (Some p) = None"
  shows "moved (nat from) (Segments (applyManifestURIs s p from)) (Segments s)"
proof -
  have "length (mp_Segments p) = length (Segments s)" using accepted_refresh[OF assms] by (auto dest: list_all2_lengthD)
  then show ?thesis by (simp add: applyManifestURIs_def moved_segments)
qed

lemma apply_init:
  assumes "validateRefreshPlaylist (Some s) (Some p) = None" and "usable p"
  shows "InitSegmentURI (applyManifestURIs s p from) = [] \<longleftrightarrow> InitSegmentURI s = []"
  using accepted_refresh[OF assms(1)] assms(2) by (auto simp: applyManifestURIs_def usable_def split: option.splits)

text \<open>C29: An accepted refresh brings the resume state to the new playlist and touches nothing else. Fingerprint, media
  playlist address, segment reference and init segment URI become those of the playlist (the init URI only when it has
  one, which is so exactly when the state had one); every key and every segment from the merge frontier on gets its new
  URI and keeps its descriptor, the merged prefix is unchanged to the letter; every progress counter, the bitmap and
  the spill ledger stay, and a checkpoint is valid after it exactly when it was valid before.\<close>

theorem refresh_moves_only_uris:
  assumes "validateRefreshPlaylist (Some s) (Some p) = None" and "usable p" and "s1 = applyManifestURIs s p from" and "0 \<le> from"
  shows "uri_fields s1 s = s \<and>
    ManifestFingerprint s1 = mp_Fingerprint p \<and> MediaPlaylistURL s1 = mp_BaseURL p \<and>
    SegmentRefURL s1 = mp_SegmentRefURL p \<and>
    InitSegmentURI s1 = (case mp_InitMap p of None \<Rightarrow> InitSegmentURI s | Some im \<Rightarrow> im_URI im) \<and>
    (InitSegmentURI s1 = [] \<longleftrightarrow> InitSegmentURI s = []) \<and> length (Segments s1) = length (Segments s) \<and>
    (\<forall>i < length (Segments s). same_descriptor (Segments s1 ! i) (Segments s ! i) \<and>
       (int i < from \<longrightarrow> Segments s1 ! i = Segments s ! i) \<and>
       (from \<le> int i \<longrightarrow> URI (Segments s1 ! i) = URI (mp_Segments p ! i))) \<and>
    map key_URI (Keys s1) = map key_URI (mp_Keys p) \<and> map key_IVHex (Keys s1) = map key_IVHex (Keys s) \<and>
    map key_Method (Keys s1) = map key_Method (Keys s) \<and>
    ValidateCheckpointSeed (Some s1) = ValidateCheckpointSeed (Some s)"
proof -
  note a = accepted_refresh[OF assms(1)]
  have l: "length (mp_Segments p) = length (Segments s)" "length (mp_Keys p) = length (Keys s)"
    using a by (auto dest: list_all2_lengthD)
  have m: "moved (nat from) (Segments s1) (Segments s)" unfolding assms(3) by (rule apply_moved[OF assms(1)])
  have u: "URI (Segments s1 ! i) = URI (mp_Segments p ! i)" if "i < length (Segments s)" "from \<le> int i" for i
    using that assms(4) l nat_le_iff[of "from" i] by (auto simp: assms(3) applyManifestURIs_def move_segments_nth)
  have d: "same_descriptor (Segments s1 ! i) (Segments s ! i) \<and> (int i < from \<longrightarrow> Segments s1 ! i = Segments s ! i) \<and>
      (from \<le> int i \<longrightarrow> URI (Segments s1 ! i) = URI (mp_Segments p ! i))" if "i < length (Segments s)" for i
    using m u that assms(4) by (auto simp: moved_def)
  have k: "map key_URI (Keys s1) = map key_URI (mp_Keys p)" "map key_IVHex (Keys s1) = map key_IVHex (Keys s)"
    "map key_Method (Keys s1) = map key_Method (Keys s)"
    using l by (auto simp: assms(3) applyManifestURIs_def move_keys_def intro!: nth_equalityI)
  have v: "ValidateCheckpointSeed (Some s1) = ValidateCheckpointSeed (Some s)"
    using moved_validates[OF _ m] apply_init[OF assms(1,2)] apply_uri_fields unfolding assms(3) by blast
  have n: "ManifestFingerprint s1 = mp_Fingerprint p" "MediaPlaylistURL s1 = mp_BaseURL p" "SegmentRefURL s1 = mp_SegmentRefURL p"
    "InitSegmentURI s1 = (case mp_InitMap p of None \<Rightarrow> InitSegmentURI s | Some im \<Rightarrow> im_URI im)"
    by (simp_all add: assms(3) applyManifestURIs_def)
  have i: "InitSegmentURI s1 = [] \<longleftrightarrow> InitSegmentURI s = []" unfolding assms(3) by (rule apply_init[OF assms(1,2)])
  show ?thesis using m d k v i apply_uri_fields[of s p "from"] unfolding n assms(3)[symmetric] by (simp add: moved_def)
qed

lemma fetch_refresh_log: "fetchRefreshPlaylist wb s reqs = (r, reqs1) \<Longrightarrow> length reqs1 \<le> length reqs + 4"
proof -
  assume f: "fetchRefreshPlaylist wb s reqs = (r, reqs1)"
  define a where "a = trim_space (ManifestURL s)"
  define u where "u = (if http_url wb (trim_space (MediaPlaylistURL s)) then trim_space (MediaPlaylistURL s) else a)"
  obtain x l where w: "walk wb u reqs = (x, l)" by fastforce
  obtain y l2 where w2: "walk wb a l = (y, l2)" by fastforce
  have "reqs1 = l \<or> reqs1 = l2"
    using f by (auto simp: fetchRefreshPlaylist_def Let_def a_def[symmetric] u_def[symmetric] w w2 split: sum.splits if_splits)
  then show ?thesis using walk_log[OF w] walk_log[OF w2] by auto
qed

lemma mismatch_cause: "validateRefreshPlaylist s p = Some e \<Longrightarrow> e = source_mismatch"
  by (auto simp: validateRefreshPlaylist_def split: option.splits if_splits)

lemma mismatch_fatal: "refreshFatalCause source_mismatch = Some source_mismatch"
  by (simp add: refreshFatalCause_def source_mismatch_def)

lemma refresh_cause_same: "refreshFatalCause e = Some f \<Longrightarrow> f = e"
  by (simp add: refreshFatalCause_def split: if_splits)

definition keeps_progress :: "resume_state \<Rightarrow> resume_state \<Rightarrow> bool" where
  "keeps_progress s1 s \<longleftrightarrow> uri_fields s1 s = s \<and> moved (nat (MergedSegments s)) (Segments s1) (Segments s) \<and>
     ValidateCheckpointSeed (Some s1) = ValidateCheckpointSeed (Some s)"

lemma keeps_refl: "keeps_progress s s"
  by (simp add: keeps_progress_def uri_fields_def moved_def same_refl)

lemma keeps_refresh:
  assumes "validateRefreshPlaylist (Some s) (Some p) = None" and "usable p"
  shows "keeps_progress (applyManifestURIs s p (MergedSegments s)) s"
  using moved_validates[OF _ apply_moved[OF assms(1)]] apply_init[OF assms] apply_uri_fields apply_moved[OF assms(1)]
  unfolding keeps_progress_def by blast

text \<open>Bootstrapping a prepared table keeps its progress: the result has every counter, bit, spill entry and
  descriptor of the checkpoint and validates alike; the run is refused only for the cancelled parent or a permanent
  cause, a transient failure falls back to the table; and at most four requests are made.\<close>

theorem bootstrap_keeps_progress:
  assumes "web_ok wb" and "hasPreparedTable (Some seed)" and "bootstrap wb isResume ctxErr seed reqs = (r, reqs1)"
  shows "length reqs1 \<le> length reqs + 4 \<and>
    (case r of
       Inr s1 \<Rightarrow> keeps_progress s1 seed \<and> hasPreparedTable (Some s1)
     | Inl e \<Rightarrow> ctxErr = Some e \<or> refreshFatalCause e = Some e)"
proof (cases "resumeRefreshRequired isResume seed")
  case False
  then show ?thesis using assms(2,3) keeps_refl by (auto simp: bootstrap_def)
next
  case True
  obtain x l where f: "fetchRefreshPlaylist wb seed reqs = (x, l)" by fastforce
  have l: "reqs1 = l" using assms(2,3) True f by (auto simp: bootstrap_def split: sum.splits)
  show ?thesis
  proof (cases x)
    case (Inl e)
    then have "r = (case ctxErr of Some c \<Rightarrow> Inl c | None \<Rightarrow> (case refreshFatalCause e of Some f \<Rightarrow> Inl f | None \<Rightarrow> Inr seed))"
      using assms(2,3) True f by (simp add: bootstrap_def)
    then show ?thesis using assms(2) keeps_refl fetch_refresh_log[OF f] l refresh_cause_same
      by (auto split: option.splits)
  next
    case (Inr y)
    obtain p bw where y: "y = (p, bw)" by fastforce
    have u: "usable p" using fetch_usable[OF assms(1)] f Inr y by blast
    show ?thesis
    proof (cases "validateRefreshPlaylist (Some seed) (Some p)")
      case None
      then have r: "r = Inr (applyManifestURIs seed p (MergedSegments seed))"
        using assms(2,3) True f Inr y by (simp add: bootstrap_def)
      have m: "moved (nat (MergedSegments seed)) (Segments (applyManifestURIs seed p (MergedSegments seed))) (Segments seed)"
        by (rule apply_moved[OF None])
      have "MediaPlaylistURL (applyManifestURIs seed p (MergedSegments seed)) \<noteq> []"
        using u by (simp add: applyManifestURIs_def usable_def)
      moreover have "TotalSegments (applyManifestURIs seed p (MergedSegments seed)) = TotalSegments seed"
        "CompletedBitmap (applyManifestURIs seed p (MergedSegments seed)) = CompletedBitmap seed"
        by (simp_all add: applyManifestURIs_def)
      ultimately have "hasPreparedTable (Some (applyManifestURIs seed p (MergedSegments seed)))"
        using assms(2) m moved_indexed[OF m] by (simp add: hasPreparedTable_def moved_def)
      then show ?thesis using keeps_refresh[OF None u] fetch_refresh_log[OF f] l r by simp
    next
      case (Some e)
      then have "r = Inl source_mismatch" using assms(2,3) True f Inr y mismatch_cause by (auto simp: bootstrap_def)
      then show ?thesis using fetch_refresh_log[OF f] l mismatch_fatal by simp
    qed
  qed
qed

section \<open>Samples\<close>

definition demo_web :: web where
  "demo_web = \<lparr>wb_request = (\<lambda>u. True),
     wb_get = (\<lambda>reqs u. Inr \<lparr>hr_status = 200, hr_final = u, hr_body = Inr demo_text\<rparr>),
     wb_parser = (\<lambda>u. demo_env), wb_url = (\<lambda>u. Some (''https'', ''cdn'')), wb_estimate = (\<lambda>b m. Finite 0)\<rparr>"

definition demo_list :: media_playlist where
  "demo_list = \<lparr>mp_BaseURL = r_base demo_env, mp_TargetDuration = 0, mp_SequenceBase = 0, mp_DiscontinuitySeq = 0,
     mp_PlaylistType = [], mp_EndList = True, mp_Container = ''ts'', mp_InitMap = None, mp_TotalMicros = 20000000,
     mp_Fingerprint = ComputeManifestFingerprint demo_env ''ts'' 0 None [demo_segment 0 ''a.ts'', demo_segment 1 ''b.ts''] [demo_key],
     mp_SegmentRefURL = ''https://cdn/a.ts'', mp_Keys = [demo_key],
     mp_Segments = [demo_segment 0 ''a.ts'', demo_segment 1 ''b.ts'']\<rparr>"

lemma demo_list_parsed: "ParsePlaylist demo_env demo_text = Inr (Media demo_list)"
proof -
  have "media_finish demo_env demo6 = Inr demo_list"
    by (simp add: media_finish_def demo_states demo_list_def demo_segment_def)
  then show ?thesis using demo_split demo_tags by (simp add: ParsePlaylist_def parseMediaPlaylist_def demo_parsed Let_def)
qed

lemma demo_text_short: "length demo_text < 200"
  by code_simp

lemma demo_fetched: "fetchManifestText demo_web u reqs = (Inr (demo_text, u), reqs @ [u])"
  using demo_text_short by (simp add: fetchManifestText_def demo_web_def MaxManifestBytes_def)

lemma demo_walk: "walk demo_web u reqs = (Inr (demo_list, 0), reqs @ [u])"
  by (simp add: walk_def demo_fetched demo_list_parsed, simp add: demo_web_def demo_list_parsed)

lemma demo_web_ok: "web_ok demo_web"
  using demo_rounds by (simp add: web_ok_def demo_web_def) (simp add: demo_env_def)

definition demo_table :: resume_state where
  "demo_table = zeroProgressResumeState demo_web ''https://cdn/m'' demo_list 0"

lemma demo_preflight: "PreflightHLSManifest demo_web ''https://cdn/m'' [] = (Inr demo_table, [''https://cdn/m''])"
proof -
  have t: "trim_space ''https://cdn/m'' = ''https://cdn/m''" by code_simp
  have u: "http_url demo_web u" for u by (simp add: http_url_def demo_web_def equalFold_def)
  show ?thesis by (simp add: PreflightHLSManifest_def demo_walk demo_table_def u t Let_def)
qed

lemmas demo_fields = demo_table_def zeroProgressResumeState_def demo_list_def demo_key_def

theorem preflight_state_mounts_witness:
  "PreflightHLSManifest demo_web ''https://cdn/m'' [] = (Inr demo_table, [''https://cdn/m'']) \<and>
   (\<exists>mw s1 b. mount ''d'' ''f'' (Some demo_table) demo_fetch [7, 9] None [] ''a'' = Some (Inr (mw, s1, b)))"
proof -
  have "validateSpillID ''d'' = None" by code_simp
  from preflight_state_mounts[OF demo_web_ok demo_preflight this demo_fetch_good] show ?thesis using demo_preflight by blast
qed

text \<open>The same playlist under fresh signatures.\<close>

definition demo_signed :: media_playlist where
  "demo_signed = demo_list\<lparr>mp_Segments := [demo_segment 0 ''a.ts?s=2'', demo_segment 1 ''b.ts?s=2''],
     mp_Keys := [demo_key\<lparr>key_URI := ''https://cdn/k?s=2''\<rparr>],
     mp_SegmentRefURL := ''https://cdn/a.ts?s=2''\<rparr>"

lemma demo_refresh: "validateRefreshPlaylist (Some demo_table) (Some demo_signed) = None"
  by (simp add: validateRefreshPlaylist_def demo_fields demo_signed_def same_descriptor_def demo_segment_def Let_def)

lemma demo_list_ok: "playlist_ok demo_list"
  by (rule parsed_playlist_ok[OF demo_rounds demo_list_parsed])

lemma demo_signed_usable: "usable demo_signed"
proof -
  have "keys_ok (mp_Keys demo_list)" "init_ok (mp_Keys demo_list) (mp_InitMap demo_list) (mp_Container demo_list)"
    "list_all (segment_ok (mp_Keys demo_list)) (mp_Segments demo_list)" "numbered 0 (mp_Segments demo_list)"
    using demo_list_ok by (auto simp: playlist_ok_def demo_list_def)
  then show ?thesis
    by (auto simp: usable_def playlist_ok_def demo_signed_def demo_list_def demo_env_def keys_ok_def init_ok_def segment_ok_def
        refers_def numbered_def demo_segment_def less_Suc_eq max_i64_def)
qed

theorem refresh_moves_only_uris_witness:
  "map URI (Segments (applyManifestURIs demo_table demo_signed 1)) = [''https://cdn/a.ts'', ''https://cdn/b.ts?s=2''] \<and>
   ValidateCheckpointSeed (Some (applyManifestURIs demo_table demo_signed 1)) = ValidateCheckpointSeed (Some demo_table)"
proof -
  have "map URI (Segments (applyManifestURIs demo_table demo_signed 1)) = [''https://cdn/a.ts'', ''https://cdn/b.ts?s=2'']"
    by (simp add: applyManifestURIs_def move_segments_def demo_signed_def demo_fields demo_segment_def Let_def)
  then show ?thesis using refresh_moves_only_uris[OF demo_refresh demo_signed_usable refl, of 1] by simp
qed

theorem bootstrap_keeps_progress_witness:
  "hasPreparedTable (Some demo_table) \<and>
   (case fst (bootstrap demo_web True None demo_table []) of Inr s1 \<Rightarrow> keeps_progress s1 demo_table | Inl e \<Rightarrow> False)"
proof -
  have h: "hasPreparedTable (Some demo_table)"
    using zero_progress_prepared[of demo_list] parsed_usable[OF demo_web_ok, of "[]" demo_text demo_list] demo_list_parsed
    by (simp add: demo_table_def demo_web_def)
  obtain r q where b: "bootstrap demo_web True None demo_table [] = (r, q)" by fastforce
  have u: "http_url demo_web u" for u by (simp add: http_url_def demo_web_def equalFold_def)
  have f: "fetchRefreshPlaylist demo_web demo_table [] = (Inr (demo_list, 0), [trim_space (MediaPlaylistURL demo_table)])"
    by (simp add: fetchRefreshPlaylist_def u demo_walk Let_def)
  have v: "validateRefreshPlaylist (Some demo_table) (Some demo_list) = None"
    by (simp add: validateRefreshPlaylist_def demo_fields same_descriptor_def demo_segment_def Let_def)
  have "resumeRefreshRequired True demo_table" by (simp add: resumeRefreshRequired_def demo_fields Let_def)
  then have "\<exists>s1. r = Inr s1" using b h f v by (auto simp: bootstrap_def)
  then show ?thesis using bootstrap_keeps_progress[OF demo_web_ok h b] h b by auto
qed

lemma demo_valid: "ValidateCheckpointSeed (Some demo_table) = None"
proof -
  have z: "TotalSegments demo_table = 2" "MergedSegments demo_table = 0" "CompletedBitmap demo_table = [0]"
    "Segments demo_table = [demo_segment 0 ''a.ts'', demo_segment 1 ''b.ts'']" "InitSegmentURI demo_table = []"
    "InitCompleted demo_table = False" "InitBytes demo_table = 0" "MergedBytes demo_table = 0" "VerifiedBytes demo_table = 0"
    "SpillPath demo_table = []" "SpillFileSize demo_table = 0" "SpillEntries demo_table = []"
    by (simp_all add: demo_fields Let_def)
  have e: "\<not> list_ex (hasBit [0]) [0..1]" "foldl clearBit [0] [0..min 2 (bit_capacity [0]) - 1] = [0]"
    "list_all (\<lambda>i. hasBit [0] i = (i < 0)) [0..1]" by code_simp+
  have t: "validate_table (demoteSpill demo_table) = None"
    using e by (simp add: validate_table_def demoteSpill_def z clear_from_def tail_bits_def demo_segment_def)
  have b: "validate_bytes (demoteSpill demo_table) = None" "validate_clean (demoteSpill demo_table) = None"
    by (simp_all add: validate_bytes_def validate_clean_def demoteSpill_def z)
  have "validateSeed (Some (demoteSpill demo_table)) = None" using t b by (simp only: validateSeed_None)
  then show ?thesis using e(1) by (simp add: ValidateCheckpointSeed_def z)
qed

end
