(* ===== verification/HlsRefresh.thy ===== *)
theory HlsRefresh
  imports HlsPreflight
begin

text \<open>
The shared manifest refresh of a running engine (strategy/hls/manifest_refresh.go, the window's part in reorder.go):
  the decision of a worker with an expired signature, the one flight, the adoption under the three locks, and their
  interleaving with the queue and the window as a run over events. Each locked section is one step.
\<close>

section \<open>The shared refresh of a running engine\<close>

text \<open>
  The state the refresh touches: the seed of the engine and of the window, the window's merged frontier,
  the queue, the generation, the flight with the clone it works on, and the engine's end. Two fields are
  for the statements only: \<open>rf_adopted\<close> records the playlist of the present generation, \<open>rf_taken\<close> the
  segments whose payload the window has accepted in this run.
\<close>

record refresh =
  rf_seed :: resume_state
  rf_window :: resume_state
  rf_merged :: int
  rf_queue :: segment_queue
  rf_gen :: int
  rf_flight :: "resume_state option"
  rf_last :: "int option"
  rf_cancelled :: bool
  rf_fatal :: "go_error option"
  rf_adopted :: "media_playlist option"
  rf_taken :: "int list"

definition hlsRefreshCooldown :: int where
  "hlsRefreshCooldown = 10 * second"

datatype refresh_verdict = RefreshExit | RefreshUnmarked | RefreshConsumed | RefreshAwait | RefreshStart | RefreshCooldown

definition update_task :: "int \<Rightarrow> segment_task \<Rightarrow> segment_queue \<Rightarrow> segment_queue" where
  "update_task i t q = q\<lparr>sq_tasks := assign i t (sq_tasks q)\<rparr>"

text \<open>The locked decision; \<open>RefreshStart\<close> and \<open>RefreshAwait\<close> wait for the flight afterwards.\<close>

definition refreshManifestOnAuthExpired :: "bool \<Rightarrow> int \<Rightarrow> int \<Rightarrow> refresh \<Rightarrow> refresh_verdict \<times> refresh" where
  "refreshManifestOnAuthExpired segDone now i r =
     (if segDone \<or> rf_cancelled r then (RefreshExit, r)
      else case map_of (sq_tasks (rf_queue r)) i of
          None \<Rightarrow> (RefreshExit, r)
        | Some t \<Rightarrow>
            if \<not> refreshRequired t then (RefreshUnmarked, r)
            else if rf_gen r > lastSeenRefreshGen t then
              (RefreshConsumed, r\<lparr>rf_queue := update_task i (t\<lparr>refreshRequired := False, lastSeenRefreshGen := rf_gen r\<rparr>) (rf_queue r)\<rparr>)
            else if rf_flight r \<noteq> None then (RefreshAwait, r)
            else if (case rf_last r of None \<Rightarrow> True | Some l \<Rightarrow> now - l \<ge> hlsRefreshCooldown)
            then (RefreshStart, r\<lparr>rf_flight := Some (rf_seed r)\<rparr>)
            else (RefreshCooldown, r))"

definition attemptURISnapshot :: "int \<Rightarrow> refresh \<Rightarrow> (hls_segment \<times> hls_key list) option \<times> refresh" where
  "attemptURISnapshot i r =
     (case map_of (sq_tasks (rf_queue r)) i of
        None \<Rightarrow> (None, r)
      | Some t \<Rightarrow> (Some (t_seg t, Keys (rf_seed r)),
          r\<lparr>rf_queue := update_task i (t\<lparr>lastSeenRefreshGen := rf_gen r\<rparr>) (rf_queue r)\<rparr>))"

definition refreshManifestURIs :: "media_playlist \<Rightarrow> refresh \<Rightarrow> refresh" where
  "refreshManifestURIs p r = r\<lparr>rf_window := applyManifestURIs (rf_window r) p (rf_merged r),
     rf_seed := applyManifestURIs (rf_seed r) p (rf_merged r)\<rparr>"

definition adopt_task :: "segment_queue \<Rightarrow> media_playlist \<Rightarrow> int \<times> segment_task \<Rightarrow> int \<times> segment_task" where
  "adopt_task q p it =
     (let (i, t) = it; j = Index (t_seg t);
          t1 = (if lease_of q i \<noteq> SegDone \<and> 0 \<le> j \<and> j < int (length (mp_Segments p))
                then t\<lparr>t_seg := (t_seg t)\<lparr>URI := URI (mp_Segments p ! nat j)\<rparr>\<rparr> else t)
      in (i, t1\<lparr>refreshRequired := False\<rparr>))"

definition adoptRefreshURIs :: "media_playlist \<Rightarrow> refresh \<Rightarrow> refresh" where
  "adoptRefreshURIs p r =
     (let r1 = refreshManifestURIs p r; q = rf_queue r1 in
      r1\<lparr>rf_queue := q\<lparr>sq_tasks := map (adopt_task q p) (sq_tasks q)\<rparr>, rf_gen := rf_gen r1 + 1, rf_adopted := Some p\<rparr>)"

text \<open>The end of a flight with the answer of its fetch; a latched error cancels the engine.\<close>

definition runManifestRefresh :: "int \<Rightarrow> go_error + media_playlist \<Rightarrow> refresh \<Rightarrow> refresh" where
  "runManifestRefresh now res r =
     (case rf_flight r of
        None \<Rightarrow> r
      | Some snap \<Rightarrow>
          let (fatal, r1) =
                (case res of
                   Inr p \<Rightarrow>
                     (case validateRefreshPlaylist (Some snap) (Some p) of
                        Some e \<Rightarrow> (Some e, r)
                      | None \<Rightarrow> (None, if rf_cancelled r then r else adoptRefreshURIs p r))
                 | Inl e \<Rightarrow> (refreshFatalCause e, r));
              r2 = (case fatal of None \<Rightarrow> r1
                    | Some e \<Rightarrow> r1\<lparr>rf_fatal := (if rf_fatal r1 = None then Some e else rf_fatal r1), rf_cancelled := True\<rparr>)
          in r2\<lparr>rf_last := Some now, rf_flight := None\<rparr>)"

text \<open>
  What else moves this state: workers lease, give back and finish segments, an expired signature marks a
  task, the engine is cancelled. \<open>Ingest\<close> accepts the payload of a leased segment and moves the merged
  frontier over accepted segments; the lease is finished in a later step, when the outcome is settled, so
  the frontier can pass a segment that is still leased. Settling looks at acceptance first: an accepted
  segment is never given back.
\<close>

datatype refresh_event =
    EvAsk bool int int | EvSnapshot int | EvFlightEnds int "go_error + media_playlist" | EvPop | EvRequeue int
  | EvFinish int | EvMark int | EvIngest int int | EvCancel

definition prefix_taken :: "segment_queue \<Rightarrow> int list \<Rightarrow> int \<Rightarrow> bool" where
  "prefix_taken q taken m \<longleftrightarrow> list_all (\<lambda>(i, t). i < m \<longrightarrow> lease_of q i = SegDone \<or> i \<in> set taken) (sq_tasks q)"

fun refresh_step :: "refresh_event \<Rightarrow> refresh \<Rightarrow> refresh" where
  "refresh_step (EvAsk segDone now i) r = snd (refreshManifestOnAuthExpired segDone now i r)"
| "refresh_step (EvSnapshot i) r = snd (attemptURISnapshot i r)"
| "refresh_step (EvFlightEnds now res) r = runManifestRefresh now res r"
| "refresh_step EvPop r = r\<lparr>rf_queue := snd (sq_pop (rf_queue r))\<rparr>"
| "refresh_step (EvRequeue i) r = (if i \<in> set (rf_taken r) then r else r\<lparr>rf_queue := requeue (Some i) (rf_queue r)\<rparr>)"
| "refresh_step (EvFinish i) r = r\<lparr>rf_queue := sq_finish (Some i) (rf_queue r)\<rparr>"
| "refresh_step (EvMark i) r =
     (case map_of (sq_tasks (rf_queue r)) i of None \<Rightarrow> r
      | Some t \<Rightarrow> r\<lparr>rf_queue := update_task i (t\<lparr>refreshRequired := True, retries := retries t + 1\<rparr>) (rf_queue r)\<rparr>)"
| "refresh_step (EvIngest i m) r =
     (if lease_of (rf_queue r) i = SegLeased \<and> i \<notin> set (rf_taken r) \<and> rf_merged r \<le> m \<and>
         prefix_taken (rf_queue r) (i # rf_taken r) m
      then r\<lparr>rf_taken := i # rf_taken r, rf_merged := m\<rparr> else r)"
| "refresh_step EvCancel r = r\<lparr>rf_cancelled := True\<rparr>"

definition refresh_run :: "refresh_event list \<Rightarrow> refresh \<Rightarrow> refresh" where
  "refresh_run evs r = foldl (\<lambda>x ev. refresh_step ev x) r evs"

definition refresh_start :: "resume_state \<Rightarrow> refresh" where
  "refresh_start sd = \<lparr>rf_seed = sd, rf_window = sd, rf_merged = MergedSegments sd,
     rf_queue = newSegmentQueue (Segments sd) (Some (seed_completed sd)), rf_gen = 0, rf_flight = None, rf_last = None,
     rf_cancelled = False, rf_fatal = None, rf_adopted = None, rf_taken = []\<rparr>"

section \<open>The invariant of the refresh\<close>

definition tables_agree :: "refresh \<Rightarrow> bool" where
  "tables_agree r \<longleftrightarrow> Segments (rf_window r) = Segments (rf_seed r) \<and> Keys (rf_window r) = Keys (rf_seed r) \<and>
     indexed 0 (Segments (rf_seed r)) \<and> 0 \<le> rf_merged r \<and> (\<forall>snap. rf_flight r = Some snap \<longrightarrow> snap = rf_seed r)"

definition tasks_agree :: "refresh \<Rightarrow> bool" where
  "tasks_agree r \<longleftrightarrow> (\<forall>(i, t) \<in> set (sq_tasks (rf_queue r)). 0 \<le> i \<and> i < int (length (Segments (rf_seed r))) \<and>
     Index (t_seg t) = i \<and>
     (lease_of (rf_queue r) i \<noteq> SegDone \<longrightarrow> i \<notin> set (rf_taken r) \<longrightarrow>
        rf_merged r \<le> i \<and> t_seg t = Segments (rf_seed r) ! nat i))"

definition taken_held :: "refresh \<Rightarrow> bool" where
  "taken_held r \<longleftrightarrow> (\<forall>i \<in> set (rf_taken r). lease_of (rf_queue r) i \<noteq> SegReady)"

definition adopted_agree :: "refresh \<Rightarrow> bool" where
  "adopted_agree r \<longleftrightarrow> (\<forall>p. rf_adopted r = Some p \<longrightarrow> length (mp_Segments p) = length (Segments (rf_seed r)) \<and>
     map key_URI (Keys (rf_seed r)) = map key_URI (mp_Keys p) \<and>
     (\<forall>i < length (Segments (rf_seed r)). rf_merged r \<le> int i \<longrightarrow> URI (Segments (rf_seed r) ! i) = URI (mp_Segments p ! i)))"

definition refresh_inv :: "refresh \<Rightarrow> bool" where
  "refresh_inv r \<longleftrightarrow> tables_agree r \<and> tasks_agree r \<and> adopted_agree r \<and> taken_held r \<and> distinct (map fst (sq_tasks (rf_queue r)))"

lemma update_same_seg:
  assumes i: "refresh_inv r" and t: "map_of (sq_tasks (rf_queue r)) i = Some t" and s: "t_seg t1 = t_seg t"
  shows "refresh_inv (r\<lparr>rf_queue := update_task i t1 (rf_queue r)\<rparr>)"
proof -
  have m: "(i, t) \<in> set (sq_tasks (rf_queue r))" using map_of_SomeD[OF t] .
  have l: "lease_of (update_task i t1 (rf_queue r)) j = lease_of (rf_queue r) j" for j
    by (simp add: lease_of_def update_task_def)
  have "tasks_agree (r\<lparr>rf_queue := update_task i t1 (rf_queue r)\<rparr>)"
    using i m s unfolding refresh_inv_def tasks_agree_def
    by (auto simp: l) (auto simp: update_task_def assign_def drop_key_def)
  moreover have "taken_held (r\<lparr>rf_queue := update_task i t1 (rf_queue r)\<rparr>)"
    using i by (simp add: refresh_inv_def taken_held_def l)
  ultimately show ?thesis using i
    by (simp add: refresh_inv_def tables_agree_def adopted_agree_def update_task_def)
qed

definition refresh_ok :: "refresh \<Rightarrow> bool" where
  "refresh_ok r \<longleftrightarrow> refresh_inv r \<and> sq_inv (rf_queue r)"

lemma tasks_weaken:
  assumes "tasks_agree r" and "sq_tasks q = sq_tasks (rf_queue r)"
    and "\<And>i. lease_of q i \<noteq> SegDone \<Longrightarrow> lease_of (rf_queue r) i \<noteq> SegDone"
  shows "tasks_agree (r\<lparr>rf_queue := q\<rparr>)"
  using assms unfolding tasks_agree_def by fastforce

lemma refresh_queue_inv:
  assumes "refresh_inv r" and "sq_tasks q = sq_tasks (rf_queue r)"
    and "\<And>i. lease_of q i \<noteq> SegDone \<Longrightarrow> lease_of (rf_queue r) i \<noteq> SegDone"
    and "\<And>i. i \<in> set (rf_taken r) \<Longrightarrow> lease_of (rf_queue r) i \<noteq> SegReady \<Longrightarrow> lease_of q i \<noteq> SegReady"
  shows "refresh_inv (r\<lparr>rf_queue := q\<rparr>)"
  using assms tasks_weaken[of r q] by (simp add: refresh_inv_def tables_agree_def adopted_agree_def taken_held_def)

lemma pop_leases:
  assumes "sq_inv q" and "lease_of (snd (sq_pop q)) i \<noteq> SegDone"
  shows "lease_of q i \<noteq> SegDone"
proof (cases "sq_closed q \<or> sq_ready q = []")
  case True
  then have "snd (sq_pop q) = q" by (auto simp: sq_pop_def)
  then show ?thesis using assms(2) by simp
next
  case False
  then obtain j js where r: "sq_ready q = j # js" by (auto simp: neq_Nil_conv)
  then have "map_of (sq_states q) j = Some SegReady" using assms(1) by (auto simp: sq_inv_def)
  then show ?thesis using assms(2) False r by (auto simp: sq_pop_def lease_of_def split: if_splits)
qed

lemma pop_ready: "lease_of q i \<noteq> SegReady \<Longrightarrow> lease_of (snd (sq_pop q)) i \<noteq> SegReady"
  by (auto simp: sq_pop_def lease_of_def split: list.splits if_splits)

lemma finish_ready: "lease_of q i \<noteq> SegReady \<Longrightarrow> lease_of (sq_finish (Some j) q) i \<noteq> SegReady"
  by (auto simp: sq_finish_def lease_of_def split: if_splits)

lemma requeue_ready: "i \<noteq> j \<Longrightarrow> lease_of (requeue (Some j) q) i = lease_of q i"
  by (auto simp: requeue_def lease_of_def Let_def wakeLocked_def)

lemma requeue_leases: "lease_of (requeue (Some j) q) i \<noteq> SegDone \<Longrightarrow> lease_of q i \<noteq> SegDone"
  by (auto simp: requeue_def lease_of_def Let_def wakeLocked_def split: if_splits)

lemma finish_leases: "lease_of (sq_finish (Some j) q) i \<noteq> SegDone \<Longrightarrow> lease_of q i \<noteq> SegDone"
  by (auto simp: sq_finish_def lease_of_def split: if_splits)

lemma queue_tasks: "sq_tasks (snd (sq_pop q)) = sq_tasks q" "sq_tasks (requeue (Some j) q) = sq_tasks q"
  "sq_tasks (sq_finish (Some j) q) = sq_tasks q"
  by (auto simp: sq_pop_def requeue_def sq_finish_def Let_def wakeLocked_def split: list.splits)

lemma update_sq_inv: "sq_inv q \<Longrightarrow> map_of (sq_tasks q) i = Some t \<Longrightarrow> sq_inv (update_task i t1 q)"
proof -
  assume q: "sq_inv q" "map_of (sq_tasks q) i = Some t"
  have "i \<in> fst ` set (sq_tasks q)" using map_of_SomeD[OF q(2)] by (metis fst_conv image_eqI)
  then have "insert i (fst ` set (sq_tasks q)) = fst ` set (sq_tasks q)" by blast
  then show ?thesis using q(1) by (simp add: sq_inv_def update_task_def del: map_of_eq_Some_iff)
qed

lemma adopt_keys: "map fst (map (adopt_task q p) ts) = map fst ts"
  by (induction ts) (auto simp: adopt_task_def Let_def)

lemma adopt_key_set: "fst ` adopt_task q p ` set ts = fst ` set ts"
  using arg_cong[OF adopt_keys[of q p ts], of set] by (simp only: set_map)

lemma moved_row:
  assumes "validateRefreshPlaylist (Some s) (Some p) = None" and "i < length (Segments s)"
  shows "Segments (applyManifestURIs s p from) ! i =
    (if i < nat from then Segments s ! i else (Segments s ! i)\<lparr>URI := URI (mp_Segments p ! i)\<rparr>)"
  using accepted_refresh[OF assms(1)] assms(2)
  by (auto simp: applyManifestURIs_def move_segments_nth dest: list_all2_lengthD)

lemma refresh_rows:
  assumes "validateRefreshPlaylist (Some s) (Some p) = None"
  shows "length (mp_Segments p) = length (Segments s)" "length (mp_Keys p) = length (Keys s)"
    "length (Segments (applyManifestURIs s p from)) = length (Segments s)"
    "map key_URI (Keys (applyManifestURIs s p from)) = map key_URI (mp_Keys p)"
  using accepted_refresh[OF assms]
  by (auto simp: applyManifestURIs_def move_segments_length move_keys_def dest!: list_all2_lengthD intro!: nth_equalityI)

lemma adopt_inv:
  assumes i: "refresh_inv r" and v: "validateRefreshPlaylist (Some (rf_seed r)) (Some p) = None" and f: "rf_flight r \<noteq> None"
  shows "refresh_inv ((adoptRefreshURIs p r)\<lparr>rf_last := l, rf_flight := None\<rparr>)"
proof -
  let ?s1 = "applyManifestURIs (rf_seed r) p (rf_merged r)" and ?q = "rf_queue r"
  let ?r1 = "(adoptRefreshURIs p r)\<lparr>rf_last := l, rf_flight := None\<rparr>"
  have t: "tables_agree r" "tasks_agree r" using i by (simp_all add: refresh_inv_def)
  have a: "rf_seed ?r1 = ?s1" "rf_merged ?r1 = rf_merged r" "rf_flight ?r1 = None" "rf_adopted ?r1 = Some p"
    "sq_tasks (rf_queue ?r1) = map (adopt_task ?q p) (sq_tasks ?q)" "sq_states (rf_queue ?r1) = sq_states ?q"
    "rf_window ?r1 = applyManifestURIs (rf_window r) p (rf_merged r)" "rf_taken ?r1 = rf_taken r"
    by (simp_all add: adoptRefreshURIs_def refreshManifestURIs_def Let_def)
  have m: "moved (nat (rf_merged r)) (Segments ?s1) (Segments (rf_seed r))" by (rule apply_moved[OF v])
  have tab: "tables_agree ?r1"
    using t(1) moved_indexed[OF m] unfolding tables_agree_def a by (auto simp: applyManifestURIs_def)
  have row: "0 \<le> fst x \<and> fst x < int (length (Segments ?s1)) \<and> Index (t_seg (snd x)) = fst x \<and>
      (lease_of ?q (fst x) \<noteq> SegDone \<longrightarrow> fst x \<notin> set (rf_taken r) \<longrightarrow>
         rf_merged r \<le> fst x \<and> t_seg (snd x) = Segments ?s1 ! nat (fst x))"
    if elem: "x \<in> set (map (adopt_task ?q p) (sq_tasks ?q))" for x
  proof -
    obtain w where w: "w \<in> set (sq_tasks ?q)" "x = adopt_task ?q p w" using elem unfolding set_map by blast
    obtain j u where "w = (j, u)" by fastforce
    then have y: "(j, u) \<in> set (sq_tasks ?q)" "x = adopt_task ?q p (j, u)" using w by simp_all
    have h: "0 \<le> j" "j < int (length (Segments (rf_seed r)))" "Index (t_seg u) = j"
      "lease_of ?q j \<noteq> SegDone \<longrightarrow> j \<notin> set (rf_taken r) \<longrightarrow> rf_merged r \<le> j \<and> t_seg u = Segments (rf_seed r) ! nat j"
      using t(2) y(1) by (auto simp: tasks_agree_def)
    have n: "nat j < length (Segments (rf_seed r))" using h(1,2) by linarith
    have lt: "j < int (length (mp_Segments p))" using h(2) refresh_rows(1)[OF v] by simp
    show ?thesis
    proof (cases "lease_of ?q j = SegDone")
      case True
      then have "fst x = j" "t_seg (snd x) = t_seg u" by (simp_all add: y(2) adopt_task_def)
      then show ?thesis using h(1-3) True refresh_rows(3)[OF v] by simp
    next
      case False
      then have x: "fst x = j" "t_seg (snd x) = (t_seg u)\<lparr>URI := URI (mp_Segments p ! nat j)\<rparr>"
        using h(1,3) lt by (simp_all add: y(2) adopt_task_def)
      have ix: "Index (t_seg (snd x)) = j" using h(3) by (simp add: x(2))
      show ?thesis
      proof (cases "j \<in> set (rf_taken r)")
        case True
        then show ?thesis using ix h(1,2) x(1) refresh_rows(3)[OF v] by simp
      next
        case open_task: False
        have o: "rf_merged r \<le> j" "t_seg u = Segments (rf_seed r) ! nat j" using h(4) False open_task by blast+
        have "\<not> nat j < nat (rf_merged r)" using o(1) by simp
        then have "t_seg (snd x) = Segments ?s1 ! nat j" unfolding x(2) moved_row[OF v n] o(2) by (simp only: if_False)
        then show ?thesis using ix h(1,2) o(1) x(1) refresh_rows(3)[OF v] by simp
      qed
    qed
  qed
  have l: "lease_of (rf_queue ?r1) k = lease_of ?q k" for k by (simp only: lease_of_def a(6))
  have tas: "tasks_agree ?r1" using row unfolding tasks_agree_def a l by (auto simp: case_prod_unfold)
  have "URI (Segments ?s1 ! k) = URI (mp_Segments p ! k)" if "k < length (Segments (rf_seed r))" "rf_merged r \<le> int k" for k
    using moved_row[OF v that(1), of "rf_merged r"] that(2) by auto
  then have ado: "adopted_agree ?r1" unfolding adopted_agree_def a using refresh_rows[OF v] by auto
  have "taken_held ?r1" using i unfolding refresh_inv_def taken_held_def a l by blast
  moreover have "distinct (map fst (sq_tasks (rf_queue ?r1)))" unfolding a(5) adopt_keys using i by (simp add: refresh_inv_def)
  ultimately show ?thesis using tab tas ado by (simp add: refresh_inv_def)
qed

lemma fatal_frame:
  "refresh_inv (r\<lparr>rf_last := l, rf_flight := None\<rparr>) \<Longrightarrow>
   refresh_inv (r\<lparr>rf_fatal := e, rf_cancelled := c, rf_last := l, rf_flight := None\<rparr>)"
  by (simp add: refresh_inv_def tables_agree_def tasks_agree_def adopted_agree_def taken_held_def)

lemma flight_inv:
  assumes "refresh_ok r"
  shows "refresh_ok (runManifestRefresh now res r)"
proof (cases "rf_flight r")
  case None
  then show ?thesis using assms by (simp add: runManifestRefresh_def)
next
  case (Some snap)
  have i: "refresh_inv r" "sq_inv (rf_queue r)" using assms by (simp_all add: refresh_ok_def)
  have s: "snap = rf_seed r" using i(1) Some by (simp add: refresh_inv_def tables_agree_def)
  have stay: "refresh_inv (r\<lparr>rf_last := l, rf_flight := None\<rparr>)" for l
    using i(1) by (simp add: refresh_inv_def tables_agree_def tasks_agree_def adopted_agree_def taken_held_def)
  have q: "sq_inv (rf_queue (adoptRefreshURIs p r))" for p
    using i(2) by (simp add: adoptRefreshURIs_def refreshManifestURIs_def Let_def sq_inv_def adopt_keys adopt_key_set
      del: map_of_eq_Some_iff map_map)
  have f: "rf_flight r \<noteq> None" using Some by simp
  show ?thesis
  proof (cases res)
    case (Inl e)
    then show ?thesis using Some i(2) stay
      by (cases "refreshFatalCause e") (simp_all add: runManifestRefresh_def refresh_ok_def fatal_frame[OF stay])
  next
    case (Inr p)
    show ?thesis
    proof (cases "validateRefreshPlaylist (Some snap) (Some p)")
      case None
      then have v: "validateRefreshPlaylist (Some (rf_seed r)) (Some p) = None" using s by simp
      show ?thesis using Some Inr None i(2) stay q adopt_inv[OF i(1) v f]
        by (simp add: runManifestRefresh_def refresh_ok_def)
    next
      case (Some e)
      then show ?thesis using \<open>rf_flight r = Some snap\<close> Inr i(2) stay
        by (simp add: runManifestRefresh_def refresh_ok_def fatal_frame[OF stay])
    qed
  qed
qed

lemma refresh_step_ok: "refresh_ok r \<Longrightarrow> refresh_ok (refresh_step ev r)"
proof (cases ev)
  case (EvAsk d now i)
  assume o: "refresh_ok r"
  have f: "refresh_ok (r\<lparr>rf_flight := Some (rf_seed r)\<rparr>)"
    using o by (simp add: refresh_ok_def refresh_inv_def tables_agree_def tasks_agree_def adopted_agree_def taken_held_def)
  have u: "refresh_ok (r\<lparr>rf_queue := update_task i (t\<lparr>refreshRequired := False, lastSeenRefreshGen := rf_gen r\<rparr>) (rf_queue r)\<rparr>)"
    if "map_of (sq_tasks (rf_queue r)) i = Some t" for t
    using o update_same_seg[OF _ that] update_sq_inv[OF _ that] by (simp add: refresh_ok_def)
  show ?thesis unfolding EvAsk
    using o f u by (auto simp: refreshManifestOnAuthExpired_def split: option.splits)
next
  case (EvSnapshot i)
  assume o: "refresh_ok r"
  show ?thesis
  proof (cases "map_of (sq_tasks (rf_queue r)) i")
    case None
    then show ?thesis using o by (simp add: EvSnapshot attemptURISnapshot_def)
  next
    case (Some t)
    then show ?thesis using o update_same_seg[OF _ Some] update_sq_inv[OF _ Some]
      by (simp add: EvSnapshot attemptURISnapshot_def refresh_ok_def)
  qed
next
  case (EvFlightEnds now res)
  assume "refresh_ok r"
  then show ?thesis using flight_inv by (simp add: EvFlightEnds)
next
  case EvPop
  assume o: "refresh_ok r"
  then have "sq_inv (snd (sq_pop (rf_queue r)))" using pop_inv by (simp add: refresh_ok_def)
  then show ?thesis using o refresh_queue_inv[of r "snd (sq_pop (rf_queue r))"] pop_leases pop_ready queue_tasks(1)
    by (simp add: EvPop refresh_ok_def)
next
  case (EvRequeue i)
  assume o: "refresh_ok r"
  show ?thesis
  proof (cases "i \<in> set (rf_taken r)")
    case True
    then show ?thesis using o by (simp add: EvRequeue)
  next
    case False
    have "refresh_inv (r\<lparr>rf_queue := requeue (Some i) (rf_queue r)\<rparr>)"
    proof (rule refresh_queue_inv)
      show "refresh_inv r" using o by (simp add: refresh_ok_def)
      show "lease_of (requeue (Some i) (rf_queue r)) k \<noteq> SegReady" if "k \<in> set (rf_taken r)" "lease_of (rf_queue r) k \<noteq> SegReady" for k
        using that False requeue_ready[of k i "rf_queue r"] by (metis)
    qed (rule queue_tasks(2), rule requeue_leases)
    then show ?thesis using o False requeue_inv by (simp add: EvRequeue refresh_ok_def)
  qed
next
  case (EvFinish i)
  assume o: "refresh_ok r"
  then show ?thesis using refresh_queue_inv[of r "sq_finish (Some i) (rf_queue r)"] finish_leases finish_ready queue_tasks(3) finish_inv
    by (simp add: EvFinish refresh_ok_def)
next
  case (EvMark i)
  assume o: "refresh_ok r"
  show ?thesis
  proof (cases "map_of (sq_tasks (rf_queue r)) i")
    case None
    then show ?thesis using o by (simp add: EvMark)
  next
    case (Some t)
    then show ?thesis using o update_same_seg[OF _ Some] update_sq_inv[OF _ Some]
      by (simp add: EvMark refresh_ok_def)
  qed
next
  case (EvIngest i m)
  assume o: "refresh_ok r"
  show ?thesis
  proof (cases "lease_of (rf_queue r) i = SegLeased \<and> i \<notin> set (rf_taken r) \<and> rf_merged r \<le> m \<and>
      prefix_taken (rf_queue r) (i # rf_taken r) m")
    case True
    then have p: "prefix_taken (rf_queue r) (i # rf_taken r) m" "rf_merged r \<le> m" "lease_of (rf_queue r) i = SegLeased" by blast+
    let ?r = "r\<lparr>rf_taken := i # rf_taken r, rf_merged := m\<rparr>"
    have "tasks_agree ?r"
      using o p(1) unfolding refresh_ok_def refresh_inv_def tasks_agree_def prefix_taken_def list_all_iff by fastforce
    moreover have "taken_held ?r" using o p(3) by (simp add: refresh_ok_def refresh_inv_def taken_held_def)
    moreover have "tables_agree ?r" "adopted_agree ?r"
      using o p(2) by (auto simp: refresh_ok_def refresh_inv_def tables_agree_def adopted_agree_def)
    moreover have "refresh_step (EvIngest i m) r = ?r" using True by simp
    ultimately show ?thesis using o by (simp add: EvIngest refresh_ok_def refresh_inv_def del: refresh_step.simps)
  next
    case False
    then have "refresh_step (EvIngest i m) r = r" by (simp only: refresh_step.simps if_False)
    then show ?thesis using o by (simp add: EvIngest del: refresh_step.simps)
  qed
next
  case EvCancel
  assume "refresh_ok r"
  then show ?thesis by (simp add: EvCancel refresh_ok_def refresh_inv_def tables_agree_def tasks_agree_def adopted_agree_def taken_held_def)
qed

section \<open>The first state\<close>

lemma fold_tasks: "(i, t) \<in> set (sq_tasks (foldl (index_segment c) q gs)) \<Longrightarrow>
    (i, t) \<in> set (sq_tasks q) \<or> (\<exists>g \<in> set gs. i = Index g \<and> t = new_task g)"
proof (induction gs arbitrary: q)
  case (Cons g gs)
  then have "(i, t) \<in> set (sq_tasks (index_segment c q g)) \<or> (\<exists>g \<in> set gs. i = Index g \<and> t = new_task g)" by simp
  then show ?case by (auto simp: index_tasks assign_def drop_key_def)
qed simp

lemma fold_states: "map_of (sq_states (foldl (index_segment (Some c)) q gs)) i =
    (if i \<in> Index ` set gs then Some (if c i then SegDone else SegReady) else map_of (sq_states q) i)"
  by (induction gs arbitrary: q) (auto simp: index_segment_def Let_def)

lemma checkpoint_table:
  assumes "ValidateCheckpointSeed (Some sd) = None"
  shows "indexed 0 (Segments sd) \<and> 0 \<le> MergedSegments sd \<and> int (length (Segments sd)) = TotalSegments sd"
proof -
  have "validateSeed (Some (demoteSpill sd)) = None"
    using assms by (simp add: ValidateCheckpointSeed_def split: option.splits)
  then have "validate_table (demoteSpill sd) = None" by (simp add: validateSeed_None)
  then show ?thesis by (auto simp: validate_table_def demoteSpill_def split: if_splits)
qed

lemma refresh_start_ok:
  assumes "ValidateCheckpointSeed (Some sd) = None"
  shows "refresh_ok (refresh_start sd)"
proof -
  let ?q = "newSegmentQueue (Segments sd) (Some (seed_completed sd))"
  note c = checkpoint_table[OF assms]
  have "queue_sys_inv (queue_start (Segments sd) (Some (seed_completed sd)))"
    by (rule queue_start_inv[OF checkpoint_indices[OF assms]])
  then have q: "sq_inv ?q" unfolding queue_sys_inv_alt by (simp add: queue_start_def)
  have "0 \<le> fst x \<and> fst x < int (length (Segments sd)) \<and> Index (t_seg (snd x)) = fst x \<and>
      (lease_of ?q (fst x) \<noteq> SegDone \<longrightarrow> MergedSegments sd \<le> fst x \<and> t_seg (snd x) = Segments sd ! nat (fst x))"
    if elem: "x \<in> set (sq_tasks ?q)" for x
  proof -
    obtain g where g: "g \<in> set (Segments sd)" "fst x = Index g" "snd x = new_task g"
      using fold_tasks[of "fst x" "snd x" "Some (seed_completed sd)" _ "Segments sd"] elem
      unfolding newSegmentQueue_def by fastforce
    then obtain k where k: "k < length (Segments sd)" "Segments sd ! k = g" by (metis in_set_conv_nth)
    then have ik: "Index g = int k" using c indexed_iff by auto
    have l: "lease_of ?q (Index g) = (if seed_completed sd (Index g) then SegDone else SegReady)"
      unfolding lease_of_def newSegmentQueue_def fold_states using g(1) by simp
    have "\<not> seed_completed sd (Index g) \<Longrightarrow> MergedSegments sd \<le> Index g"
      using ik k(1) c by (auto simp: seed_completed_def)
    then show ?thesis using g(2,3) k ik l by (auto simp: new_task_def)
  qed
  then have "tasks_agree (refresh_start sd)" by (auto simp: tasks_agree_def refresh_start_def)
  moreover have "tables_agree (refresh_start sd)" "adopted_agree (refresh_start sd)" "taken_held (refresh_start sd)"
    using c by (simp_all add: tables_agree_def adopted_agree_def refresh_start_def taken_held_def)
  moreover have "distinct (map fst (sq_tasks ?q))" using q by (simp add: sq_inv_def)
  ultimately show ?thesis using q by (simp add: refresh_ok_def refresh_inv_def refresh_start_def)
qed

definition follows :: "resume_state \<Rightarrow> refresh \<Rightarrow> bool" where
  "follows sd r \<longleftrightarrow> (rf_adopted r = None \<longrightarrow> rf_seed r = sd) \<and> length (Segments (rf_seed r)) = length (Segments sd) \<and>
     (\<forall>i < length (Segments sd). same_descriptor (Segments (rf_seed r) ! i) (Segments sd ! i))"

lemma same_trans: "same_descriptor a b \<Longrightarrow> same_descriptor b c \<Longrightarrow> same_descriptor a c"
  by (simp add: same_descriptor_def)

lemma adopt_follows:
  assumes "follows sd r" and "validateRefreshPlaylist (Some (rf_seed r)) (Some p) = None"
  shows "follows sd ((adoptRefreshURIs p r)\<lparr>rf_last := l, rf_flight := None\<rparr>)"
proof -
  let ?s1 = "applyManifestURIs (rf_seed r) p (rf_merged r)"
  have s: "rf_seed ((adoptRefreshURIs p r)\<lparr>rf_last := l, rf_flight := None\<rparr>) = ?s1"
    "rf_adopted ((adoptRefreshURIs p r)\<lparr>rf_last := l, rf_flight := None\<rparr>) = Some p"
    by (simp_all add: adoptRefreshURIs_def refreshManifestURIs_def Let_def)
  have "moved (nat (rf_merged r)) (Segments ?s1) (Segments (rf_seed r))" by (rule apply_moved[OF assms(2)])
  then have m: "length (Segments ?s1) = length (Segments (rf_seed r))"
    "\<And>i. i < length (Segments (rf_seed r)) \<Longrightarrow> same_descriptor (Segments ?s1 ! i) (Segments (rf_seed r) ! i)"
    by (simp_all add: moved_def)
  have f: "length (Segments (rf_seed r)) = length (Segments sd)"
    "\<And>i. i < length (Segments sd) \<Longrightarrow> same_descriptor (Segments (rf_seed r) ! i) (Segments sd ! i)"
    using assms(1) by (simp_all add: follows_def)
  have "same_descriptor (Segments ?s1 ! i) (Segments sd ! i)" if "i < length (Segments sd)" for i
    by (rule same_trans[OF m(2) f(2)[OF that]]) (simp add: f(1) that)
  then show ?thesis unfolding follows_def s by (simp add: m(1) f(1))
qed

lemma frame_follows: "rf_seed r1 = rf_seed r \<Longrightarrow> rf_adopted r1 = rf_adopted r \<Longrightarrow> follows sd r \<Longrightarrow> follows sd r1"
  by (simp add: follows_def)

lemma step_follows:
  assumes "refresh_ok r" and "follows sd r"
  shows "follows sd (refresh_step ev r)"
proof (cases ev)
  case (EvFlightEnds now res)
  show ?thesis
  proof (cases "\<exists>snap p. rf_flight r = Some snap \<and> res = Inr p \<and> validateRefreshPlaylist (Some snap) (Some p) = None \<and> \<not> rf_cancelled r")
    case True
    then obtain snap p where f: "rf_flight r = Some snap" "res = Inr p" "\<not> rf_cancelled r"
      "validateRefreshPlaylist (Some snap) (Some p) = None" by blast
    have "snap = rf_seed r" using assms(1) f(1) by (simp add: refresh_ok_def refresh_inv_def tables_agree_def)
    then show ?thesis using adopt_follows[OF assms(2)] f by (simp add: EvFlightEnds runManifestRefresh_def)
  next
    case False
    then show ?thesis
      by (intro frame_follows[OF _ _ assms(2)])
        (auto simp: EvFlightEnds runManifestRefresh_def Let_def split: option.splits sum.splits)
  qed
qed (rule frame_follows[OF _ _ assms(2)]; auto simp: refreshManifestOnAuthExpired_def attemptURISnapshot_def split: option.splits)+

lemma refresh_run_ok:
  "refresh_ok r \<Longrightarrow> follows sd r \<Longrightarrow> refresh_ok (refresh_run evs r) \<and> follows sd (refresh_run evs r)"
proof (induction evs arbitrary: r)
  case (Cons ev evs)
  then show ?case using refresh_step_ok step_follows by (simp add: refresh_run_def)
qed (simp add: refresh_run_def)

text \<open>C30: An attempt never mixes two manifests: whatever the interleaving of refreshes, leases, accepted payloads and
  finished leases, the snapshot taken for a segment that is neither finished nor accepted by the window is the row and
  the key table of one playlist, the one adopted last (or the checkpoint before any), with the checkpoint's own
  descriptor; and the tables of engine and window agree. A segment the window accepted is no longer waiting for a
  worker: its lease is only finished.\<close>

theorem attempt_sees_one_manifest:
  assumes "ValidateCheckpointSeed (Some sd) = None" and "r = refresh_run evs (refresh_start sd)"
    and "attemptURISnapshot i r = (Some (g, ks), r1)" and "lease_of (rf_queue r) i \<noteq> SegDone" and "i \<notin> set (rf_taken r)"
  shows "g = Segments (rf_seed r) ! nat i \<and> ks = Keys (rf_seed r) \<and> same_descriptor g (Segments sd ! nat i) \<and>
    Segments (rf_window r) = Segments (rf_seed r) \<and> Keys (rf_window r) = Keys (rf_seed r) \<and>
    (case rf_adopted r of None \<Rightarrow> g = Segments sd ! nat i \<and> ks = Keys sd
     | Some p \<Rightarrow> URI g = URI (mp_Segments p ! nat i) \<and> map key_URI ks = map key_URI (mp_Keys p)) \<and>
    SegReady \<notin> lease_of (rf_queue r) ` set (rf_taken r)"
proof -
  have "follows sd (refresh_start sd)" by (simp add: follows_def refresh_start_def same_refl)
  then have o: "refresh_ok r" "follows sd r" using refresh_run_ok[OF refresh_start_ok[OF assms(1)]] assms(2) by blast+
  then have i: "tables_agree r" "tasks_agree r" "adopted_agree r" "taken_held r" by (simp_all add: refresh_ok_def refresh_inv_def)
  obtain t where t: "map_of (sq_tasks (rf_queue r)) i = Some t" "g = t_seg t" "ks = Keys (rf_seed r)"
    using assms(3) by (auto simp: attemptURISnapshot_def split: option.splits)
  have h: "0 \<le> i" "i < int (length (Segments (rf_seed r)))" "rf_merged r \<le> i" "t_seg t = Segments (rf_seed r) ! nat i"
    using i(2) map_of_SomeD[OF t(1)] assms(4,5) unfolding tasks_agree_def by fastforce+
  have n: "nat i < length (Segments (rf_seed r))" "rf_merged r \<le> int (nat i)" using h by linarith+
  have d: "same_descriptor g (Segments sd ! nat i)" using o(2) n(1) t(2) h(4) by (simp add: follows_def)
  have "case rf_adopted r of None \<Rightarrow> g = Segments sd ! nat i \<and> ks = Keys sd
     | Some p \<Rightarrow> URI g = URI (mp_Segments p ! nat i) \<and> map key_URI ks = map key_URI (mp_Keys p)"
    using i(3) o(2) n t h(4) by (auto simp: adopted_agree_def follows_def split: option.splits)
  moreover have "SegReady \<notin> lease_of (rf_queue r) ` set (rf_taken r)" using i(4) by (force simp: taken_held_def)
  ultimately show ?thesis using d i(1) t h(4) by (simp add: tables_agree_def)
qed

section \<open>Flights\<close>

text \<open>The flights of a run: starts and ends with their times.\<close>

fun flight_log :: "refresh_event list \<Rightarrow> refresh \<Rightarrow> (bool \<times> int) list" where
  "flight_log [] r = []"
| "flight_log (ev # evs) r =
     (case ev of
        EvAsk segDone now i \<Rightarrow> if fst (refreshManifestOnAuthExpired segDone now i r) = RefreshStart then [(True, now)] else []
      | EvFlightEnds now res \<Rightarrow> if rf_flight r \<noteq> None then [(False, now)] else []
      | _ \<Rightarrow> []) @ flight_log evs (refresh_step ev r)"

fun spaced :: "bool \<Rightarrow> int option \<Rightarrow> (bool \<times> int) list \<Rightarrow> bool" where
  "spaced flying lastEnd [] = True"
| "spaced flying lastEnd ((True, now) # fl) =
     (\<not> flying \<and> (case lastEnd of None \<Rightarrow> True | Some e \<Rightarrow> e + 10 * second \<le> now) \<and> spaced True lastEnd fl)"
| "spaced flying lastEnd ((False, now) # fl) = (flying \<and> spaced False (Some now) fl)"

lemma ask_flight:
  assumes "refreshManifestOnAuthExpired d now i r = (v, r1)"
  shows "rf_last r1 = rf_last r \<and>
    (if v = RefreshStart then rf_flight r = None \<and> rf_flight r1 \<noteq> None \<and>
       (case rf_last r of None \<Rightarrow> True | Some e \<Rightarrow> e + 10 * second \<le> now)
     else rf_flight r1 = rf_flight r)"
  using assms by (auto simp: refreshManifestOnAuthExpired_def hlsRefreshCooldown_def split: option.splits if_splits)

lemma end_flight: "rf_flight r \<noteq> None \<Longrightarrow> rf_flight (runManifestRefresh now res r) = None \<and> rf_last (runManifestRefresh now res r) = Some now"
  by (auto simp: runManifestRefresh_def Let_def split: option.splits sum.splits)

lemma no_flight: "rf_flight r = None \<Longrightarrow> runManifestRefresh now res r = r"
  by (simp add: runManifestRefresh_def)

lemma flights_spaced: "spaced (rf_flight r \<noteq> None) (rf_last r) (flight_log evs r)"
proof (induction evs arbitrary: r)
  case (Cons ev evs)
  show ?case
  proof (cases ev)
    case (EvAsk d now i)
    obtain v r1 where a: "refreshManifestOnAuthExpired d now i r = (v, r1)" by fastforce
    show ?thesis using Cons.IH[of r1] ask_flight[OF a] by (auto simp: EvAsk a split: if_splits)
  next
    case (EvFlightEnds now res)
    show ?thesis using Cons.IH[of "runManifestRefresh now res r"] end_flight[of r now res] no_flight[of r now res]
      by (cases "rf_flight r") (simp_all add: EvFlightEnds)
  next
    case (EvSnapshot i)
    have "rf_flight (snd (attemptURISnapshot i r)) = rf_flight r" "rf_last (snd (attemptURISnapshot i r)) = rf_last r"
      by (simp_all add: attemptURISnapshot_def split: option.splits)
    then show ?thesis using Cons.IH[of "snd (attemptURISnapshot i r)"] by (simp add: EvSnapshot)
  next
    case (EvMark i)
    have "rf_flight (refresh_step (EvMark i) r) = rf_flight r" "rf_last (refresh_step (EvMark i) r) = rf_last r"
      by (simp_all split: option.splits)
    then show ?thesis using Cons.IH[of "refresh_step (EvMark i) r"] by (simp add: EvMark del: refresh_step.simps)
  next
    case (EvIngest i m)
    have "rf_flight (refresh_step (EvIngest i m) r) = rf_flight r" "rf_last (refresh_step (EvIngest i m) r) = rf_last r" by simp_all
    then show ?thesis using Cons.IH[of "refresh_step (EvIngest i m) r"] by (simp add: EvIngest del: refresh_step.simps)
  next
    case EvPop
    then show ?thesis using Cons.IH[of "refresh_step EvPop r"] by simp
  next
    case (EvRequeue i)
    then show ?thesis using Cons.IH[of r] Cons.IH[of "r\<lparr>rf_queue := requeue (Some i) (rf_queue r)\<rparr>"] by simp
  next
    case (EvFinish i)
    then show ?thesis using Cons.IH[of "refresh_step (EvFinish i) r"] by simp
  next
    case EvCancel
    then show ?thesis using Cons.IH[of "refresh_step EvCancel r"] by simp
  qed
qed simp

text \<open>C31: Expired signatures never cause a storm of manifest fetches: in every run the flights alternate with their
  ends, at most one is in the air, and each starts at least ten seconds after the previous one lastEnd.\<close>

theorem refresh_flights_spaced: "spaced False None (flight_log evs (refresh_start sd))"
  using flights_spaced[of "refresh_start sd" evs] by (simp add: refresh_start_def)

section \<open>A sample refresh\<close>

definition demo_queue :: segment_queue where
  "demo_queue = newSegmentQueue (Segments demo_table) (Some (seed_completed demo_table))"

text \<open>
  Segment 0 is leased, its payload is accepted and the frontier passes it while the lease is still open; the
  worker of segment 1 meets an expired signature and refreshes. It sees the new row and keys; segment 0 then
  has a task that no longer matches its row, and only its lease remains to be finished.
\<close>

definition demo_events :: "refresh_event list" where
  "demo_events = [EvPop, EvIngest 0 1, EvMark 1, EvAsk False 5 1, EvFlightEnds 7 (Inr demo_signed)]"

definition demo_refreshed :: refresh where
  "demo_refreshed = refresh_run demo_events (refresh_start demo_table)"

definition leased_queue :: segment_queue where
  "leased_queue = \<lparr>sq_notify = 0, sq_ready = [1],
     sq_tasks = [(1, (new_task (demo_segment 1 ''b.ts''))\<lparr>refreshRequired := True, retries := 1\<rparr>), (0, new_task (demo_segment 0 ''a.ts''))],
     sq_states = [(0, SegLeased), (1, SegReady)], sq_pending = 2, sq_closed = False\<rparr>"

lemma demo_queue_eq:
  "demo_queue = \<lparr>sq_notify = 0, sq_ready = [0, 1],
     sq_tasks = [(1, new_task (demo_segment 1 ''b.ts'')), (0, new_task (demo_segment 0 ''a.ts''))],
     sq_states = [(1, SegReady), (0, SegReady)], sq_pending = 2, sq_closed = False\<rparr>"
proof -
  have s: "Segments demo_table = [demo_segment 0 ''a.ts'', demo_segment 1 ''b.ts'']" "MergedSegments demo_table = 0"
    "CompletedBitmap demo_table = [0]" by (simp_all add: demo_fields Let_def)
  have "\<not> seed_completed demo_table 0" "\<not> seed_completed demo_table 1" using s by (simp_all add: seed_completed_def hasBit_def)
  then show ?thesis
    by (simp add: demo_queue_def newSegmentQueue_def s index_segment_def demo_segment_def assign_def drop_key_def Let_def)
qed

lemma demo_refreshed_eq:
  "demo_refreshed = (adoptRefreshURIs demo_signed ((refresh_start demo_table)\<lparr>rf_queue := leased_queue, rf_taken := [0],
     rf_merged := 1, rf_flight := Some demo_table\<rparr>))\<lparr>rf_last := Some 7, rf_flight := None\<rparr>"
proof -
  let ?r0 = "refresh_start demo_table"
  have s: "rf_queue ?r0 = demo_queue" "rf_merged ?r0 = 0" "rf_taken ?r0 = []"
    by (simp_all add: refresh_start_def demo_queue_def demo_fields Let_def)
  define q1 where "q1 = demo_queue\<lparr>sq_ready := [1], sq_states := [(0, SegLeased), (1, SegReady)]\<rparr>"
  have e1: "refresh_step EvPop ?r0 = ?r0\<lparr>rf_queue := q1\<rparr>"
    by (simp add: s q1_def demo_queue_eq sq_pop_def assign_def drop_key_def)
  have l: "lease_of q1 0 = SegLeased" "sq_tasks q1 = sq_tasks demo_queue" by (simp_all add: q1_def lease_of_def)
  have "prefix_taken q1 [0] 1" by (simp add: prefix_taken_def l demo_queue_eq)
  then have e2: "refresh_step (EvIngest 0 1) (?r0\<lparr>rf_queue := q1\<rparr>) = ?r0\<lparr>rf_queue := q1, rf_taken := [0], rf_merged := 1\<rparr>"
    by (simp add: s l)
  have q: "update_task 1 ((new_task (demo_segment 1 ''b.ts''))\<lparr>refreshRequired := True, retries := 1\<rparr>) q1 = leased_queue"
    by (simp add: update_task_def q1_def demo_queue_eq leased_queue_def assign_def drop_key_def)
  have "map_of (sq_tasks q1) 1 = Some (new_task (demo_segment 1 ''b.ts''))" by (simp add: l demo_queue_eq)
  then have e3: "refresh_step (EvMark 1) (?r0\<lparr>rf_queue := q1, rf_taken := [0], rf_merged := 1\<rparr>)
      = ?r0\<lparr>rf_queue := leased_queue, rf_taken := [0], rf_merged := 1\<rparr>"
    by (simp add: q[symmetric] new_task_def)
  have t: "map_of (sq_tasks leased_queue) 1 = Some ((new_task (demo_segment 1 ''b.ts''))\<lparr>refreshRequired := True, retries := 1\<rparr>)"
    by (simp add: leased_queue_def)
  have e4: "refresh_step (EvAsk False 5 1) (?r0\<lparr>rf_queue := leased_queue, rf_taken := [0], rf_merged := 1\<rparr>)
      = ?r0\<lparr>rf_queue := leased_queue, rf_taken := [0], rf_merged := 1, rf_flight := Some demo_table\<rparr>"
    using t by (simp add: refreshManifestOnAuthExpired_def refresh_start_def new_task_def)
  have e5: "refresh_step (EvFlightEnds 7 (Inr demo_signed))
      (?r0\<lparr>rf_queue := leased_queue, rf_taken := [0], rf_merged := 1, rf_flight := Some demo_table\<rparr>)
      = (adoptRefreshURIs demo_signed (?r0\<lparr>rf_queue := leased_queue, rf_taken := [0], rf_merged := 1,
           rf_flight := Some demo_table\<rparr>))\<lparr>rf_last := Some 7, rf_flight := None\<rparr>"
    using demo_refresh by (simp add: runManifestRefresh_def refresh_start_def)
  show ?thesis unfolding demo_refreshed_def demo_events_def refresh_run_def foldl_Cons foldl_Nil e1 e2 e3 e4 e5 ..
qed

lemma demo_refreshed_facts:
  "rf_taken demo_refreshed = [0]" "rf_merged demo_refreshed = 1" "lease_of (rf_queue demo_refreshed) 0 = SegLeased"
  "lease_of (rf_queue demo_refreshed) 1 = SegReady" "rf_adopted demo_refreshed = Some demo_signed"
  "\<exists>g ks r1. attemptURISnapshot 1 demo_refreshed = (Some (g, ks), r1)"
  by (simp_all add: demo_refreshed_eq adoptRefreshURIs_def refreshManifestURIs_def Let_def leased_queue_def lease_of_def
      attemptURISnapshot_def adopt_task_def)

theorem attempt_sees_one_manifest_witness:
  "rf_merged demo_refreshed = 1 \<and> lease_of (rf_queue demo_refreshed) 0 = SegLeased \<and>
   (\<exists>g ks r1. attemptURISnapshot 1 demo_refreshed = (Some (g, ks), r1) \<and>
      URI g = ''https://cdn/b.ts?s=2'' \<and> map key_URI ks = [''https://cdn/k?s=2''])"
proof -
  obtain g ks r1 where n: "attemptURISnapshot 1 demo_refreshed = (Some (g, ks), r1)" using demo_refreshed_facts(6) by blast
  have h: "lease_of (rf_queue demo_refreshed) 1 \<noteq> SegDone" "1 \<notin> set (rf_taken demo_refreshed)"
    by (simp_all add: demo_refreshed_facts)
  have "URI g = URI (mp_Segments demo_signed ! Suc 0) \<and> map key_URI ks = map key_URI (mp_Keys demo_signed)"
    using attempt_sees_one_manifest[OF demo_valid demo_refreshed_def n h, unfolded demo_refreshed_facts(5) option.case nat_1] by blast
  then have u: "URI g = ''https://cdn/b.ts?s=2''" "map key_URI ks = [''https://cdn/k?s=2'']"
    by (simp_all add: demo_signed_def demo_segment_def)
  show ?thesis by (intro conjI exI) (rule demo_refreshed_facts(2), rule demo_refreshed_facts(3), rule n, rule u(1), rule u(2))
qed


end
