(* ===== verification/SpeedStats.thy ===== *)
theory SpeedStats
  imports GoPrelude
begin

text \<open>
The speed records of finished downloads (internal/speedstats/speedstats.go): adding, expiring and querying them. The file
  they are kept in is not modelled: the state is the list of records, and each locked method is one function of it.
\<close>

section \<open>Records\<close>

record speed_record =
  sr_Timestamp :: int
  sr_PeakSpeed :: int
  sr_ThreadCount :: int
  sr_FileSize :: int
  sr_IsExploration :: bool
  sr_TTFBMs :: int
  sr_Domain :: string
  sr_Scope :: string
  sr_EnvKey :: string

definition maxRecords :: nat where
  "maxRecords = 10000"

definition recentDays :: int where
  "recentDays = 365"

text \<open>Clock values are Unix seconds here; \<open>now\<close> is an argument of every query.\<close>

definition cutoff :: "int \<Rightarrow> int \<Rightarrow> int" where
  "cutoff days now = now - days * 86400"

definition AddRecordV2 :: "int \<Rightarrow> speed_record \<Rightarrow> speed_record list \<Rightarrow> speed_record list" where
  "AddRecordV2 now r rs =
     (if sr_PeakSpeed r \<le> 0 \<or> sr_ThreadCount r \<le> 0 then rs
      else if sr_EnvKey r = [] then rs
      else let r1 = r\<lparr>sr_Timestamp := now, sr_Scope := (if sr_Scope r = [] then ''wan'' else sr_Scope r)\<rparr>;
               rs1 = rs @ [r1]
           in if length rs1 > maxRecords then drop (length rs1 - maxRecords) rs1 else rs1)"

definition AddRecord :: "int \<Rightarrow> int \<Rightarrow> int \<Rightarrow> int \<Rightarrow> bool \<Rightarrow> speed_record list \<Rightarrow> speed_record list" where
  "AddRecord now peak threads fsize exploration rs =
     AddRecordV2 now \<lparr>sr_Timestamp = 0, sr_PeakSpeed = peak, sr_ThreadCount = threads, sr_FileSize = fsize,
       sr_IsExploration = exploration, sr_TTFBMs = 0, sr_Domain = [], sr_Scope = [], sr_EnvKey = []\<rparr> rs"

text \<open>The read of the file drops the records of the releases before the key.\<close>

definition scrub_loaded :: "speed_record list \<Rightarrow> speed_record list" where
  "scrub_loaded rs = filter (\<lambda>r. sr_EnvKey r \<noteq> []) rs"

definition CleanExpired :: "int \<Rightarrow> int \<Rightarrow> speed_record list \<Rightarrow> speed_record list" where
  "CleanExpired now days rs = filter (\<lambda>r. sr_Timestamp r \<ge> cutoff days now) rs"

section \<open>Queries\<close>

definition in_scope :: "string \<Rightarrow> speed_record \<Rightarrow> bool" where
  "in_scope scope r \<longleftrightarrow> scope = [] \<or> sr_Scope r = scope"

definition recent :: "int \<Rightarrow> speed_record \<Rightarrow> bool" where
  "recent now r \<longleftrightarrow> sr_Timestamp r \<ge> cutoff recentDays now"

definition p75SortedAsc :: "int list \<Rightarrow> int" where
  "p75SortedAsc xs = (if xs = [] then 0 else xs ! (length xs * 3 div 4))"

definition efficiencies :: "int \<Rightarrow> (speed_record \<Rightarrow> bool) \<Rightarrow> speed_record list \<Rightarrow> int list" where
  "efficiencies now match rs =
     map (\<lambda>r. quot64 (sr_PeakSpeed r) (sr_ThreadCount r)) (filter (\<lambda>r. match r \<and> recent now r \<and> sr_ThreadCount r > 0) rs)"

definition p75_recent :: "int list \<Rightarrow> int option" where
  "p75_recent vs = (if vs = [] then None else Some (p75SortedAsc (sort (drop (length vs - 100) vs))))"

definition GetRecentPeakByScope :: "int \<Rightarrow> speed_record list \<Rightarrow> string \<Rightarrow> string \<Rightarrow> int option" where
  "GetRecentPeakByScope now rs scope envKey =
     p75_recent (efficiencies now (\<lambda>r. in_scope scope r \<and> sr_EnvKey r = envKey) rs)"

definition GetRecentPeakByDomain :: "int \<Rightarrow> speed_record list \<Rightarrow> string \<Rightarrow> string \<Rightarrow> string \<Rightarrow> int option" where
  "GetRecentPeakByDomain now rs domain scope envKey =
     (if domain = [] then None
      else p75_recent (efficiencies now (\<lambda>r. sr_Domain r = domain \<and> in_scope scope r \<and> sr_EnvKey r = envKey) rs))"

definition peak_step :: "speed_record \<Rightarrow> int \<times> bool \<Rightarrow> int \<times> bool" where
  "peak_step r pf = (if sr_PeakSpeed r > fst pf then (sr_PeakSpeed r, True) else pf)"

definition peak_of :: "speed_record list \<Rightarrow> int option" where
  "peak_of rs = (let (peak, found) = fold peak_step rs (0, False) in if found then Some peak else None)"

definition GetGlobalPeak :: "int \<Rightarrow> speed_record list \<Rightarrow> string \<Rightarrow> string \<Rightarrow> int option" where
  "GetGlobalPeak now rs scope envKey = peak_of (filter (\<lambda>r. recent now r \<and> in_scope scope r \<and> sr_EnvKey r = envKey) rs)"

definition GetDomainPeak :: "int \<Rightarrow> speed_record list \<Rightarrow> string \<Rightarrow> string \<Rightarrow> string \<Rightarrow> int option" where
  "GetDomainPeak now rs domain scope envKey =
     (let here = filter (\<lambda>r. recent now r \<and> domain \<noteq> [] \<and> sr_Domain r = domain \<and> in_scope scope r) rs in
      case peak_of (filter (\<lambda>r. sr_EnvKey r = envKey) here) of Some p \<Rightarrow> Some p | None \<Rightarrow> peak_of here)"

definition ttfb_step :: "speed_record \<Rightarrow> int option \<Rightarrow> int option" where
  "ttfb_step r m = (case m of None \<Rightarrow> Some (sr_TTFBMs r) | Some t \<Rightarrow> if sr_TTFBMs r < t then Some (sr_TTFBMs r) else m)"

definition GetRTprop :: "int \<Rightarrow> speed_record list \<Rightarrow> string \<Rightarrow> string \<Rightarrow> string \<Rightarrow> int option" where
  "GetRTprop now rs domain scope envKey =
     (let fits = filter (\<lambda>r. recent now r \<and> sr_TTFBMs r > 0 \<and> in_scope scope r \<and> sr_EnvKey r = envKey) rs in
      case (if domain = [] then None else fold ttfb_step (filter (\<lambda>r. sr_Domain r = domain) fits) None) of
        Some t \<Rightarrow> Some t
      | None \<Rightarrow> fold ttfb_step fits None)"

definition HasDomainScopeEnvRecord :: "int \<Rightarrow> speed_record list \<Rightarrow> string \<Rightarrow> string \<Rightarrow> string \<Rightarrow> bool" where
  "HasDomainScopeEnvRecord now rs domain scope envKey \<longleftrightarrow>
     list_ex (\<lambda>r. recent now r \<and> (domain = [] \<or> sr_Domain r = domain) \<and> in_scope scope r \<and> sr_EnvKey r = envKey) rs"

end
