(* ===== verification/SmartLedger.thy ===== *)
theory SmartLedger
  imports SpeedStats
begin

text \<open>
The bandwidth ledger of the adaptive connection control (internal/smartthread/bandwidth_ledger.go): what a task
  occupies at a moment, the three sums of a ledger, claims and releases, and the theorem that the books are exact.
\<close>

section \<open>Occupancy of a task\<close>

datatype compat_kind = CompatNone | CompatAria2Add

record tracked_task =
  ti_GID :: string
  ti_Status :: string
  ti_Scope :: string
  ti_Domain :: string
  ti_EnvKey :: string
  ti_TotalLength :: int
  ti_ThreadCount :: int
  ti_Target :: int
  ti_TelemetryBps :: int
  ti_TelemetryValid :: bool
  ti_RawBps :: int
  ti_MacroReady :: bool
  ti_ActivatedAt :: int
  ti_FirstProgressAt :: int
  ti_CompatClaim :: compat_kind
  ti_AddAnchorAt :: int
  ti_Reserved :: bool

definition activationNoProgressTTL :: int where
  "activationNoProgressTTL = 45 * second"

definition progressLeaseTTL :: int where
  "progressLeaseTTL = 15 * second"

definition aria2AddPlaceholderWindow :: int where
  "aria2AddPlaceholderWindow = 15 * second"

definition is_surge :: "string \<Rightarrow> bool" where
  "is_surge gid \<longleftrightarrow> take 3 gid = ''sg_''"

definition taskOccupancyTelemetry :: "tracked_task \<Rightarrow> int" where
  "taskOccupancyTelemetry t =
     (if is_surge (ti_GID t) \<and> ti_MacroReady t then max (ti_RawBps t) 0
      else if ti_TelemetryValid t then max (ti_TelemetryBps t) 0 else 0)"

definition claimContribution :: "tracked_task \<Rightarrow> int \<Rightarrow> int" where
  "claimContribution t telem = max (max (ti_Target t) 0) telem"

definition TargetLeaseActive :: "int \<Rightarrow> int \<Rightarrow> int \<Rightarrow> bool" where
  "TargetLeaseActive activatedAt firstProgressAt now \<longleftrightarrow>
     (if activatedAt = zero_time \<or> now < activatedAt then False
      else if firstProgressAt = zero_time \<or> firstProgressAt < activatedAt \<or> firstProgressAt > now
      then time_sub now activatedAt < activationNoProgressTTL
      else if time_sub firstProgressAt activatedAt \<ge> activationNoProgressTTL then False
      else time_sub now firstProgressAt < progressLeaseTTL)"

definition addPlaceholderLive :: "int \<Rightarrow> int \<Rightarrow> bool" where
  "addPlaceholderLive anchor now \<longleftrightarrow>
     \<not> (anchor = zero_time \<or> now < anchor) \<and> time_sub now anchor < aria2AddPlaceholderWindow"

definition lease_of_task :: "tracked_task \<Rightarrow> int \<Rightarrow> bool" where
  "lease_of_task t now = TargetLeaseActive (ti_ActivatedAt t) (ti_FirstProgressAt t) now"

definition add_claim :: "tracked_task \<Rightarrow> int \<Rightarrow> bool" where
  "add_claim t now \<longleftrightarrow> \<not> is_surge (ti_GID t) \<and> ti_CompatClaim t = CompatAria2Add \<and> addPlaceholderLive (ti_AddAnchorAt t) now"

definition reserved_occupancy :: "tracked_task \<Rightarrow> int \<Rightarrow> int \<Rightarrow> int" where
  "reserved_occupancy t telem now =
     (if ti_Status t = ''paused'' then 0
      else if ti_Status t = ''active'' then (if lease_of_task t now then claimContribution t telem else telem)
      else (if lease_of_task t now then max (ti_Target t) 0 else 0))"

definition TaskOccupancy :: "tracked_task \<Rightarrow> int \<Rightarrow> int" where
  "TaskOccupancy t now =
     (if ti_GID t = [] then 0
      else if ti_Status t = ''complete'' \<or> ti_Status t = ''error'' then 0
      else let telem = taskOccupancyTelemetry t in
        if ti_Reserved t then reserved_occupancy t telem now
        else if ti_Status t = ''active'' then
          (if lease_of_task t now then claimContribution t telem
           else if add_claim t now then claimContribution t telem else telem)
        else if ti_Status t = [] then
          (if ti_Target t \<le> 0 then 0 else if add_claim t now then claimContribution t telem else 0)
        else 0)"

section \<open>The ledger\<close>

text \<open>The three maps, zero where nothing is written.\<close>

record bandwidth_ledger =
  lg_reserved :: "string \<Rightarrow> int"
  lg_domain :: "string \<Rightarrow> int"
  lg_workers :: "string \<Rightarrow> int"

definition saturatingAdd64 :: "int \<Rightarrow> int \<Rightarrow> int" where
  "saturatingAdd64 a b = (if b < 0 then a else if add64 a b < a then max_i64 else add64 a b)"

definition saturatingAddInt :: "int \<Rightarrow> int \<Rightarrow> int" where
  "saturatingAddInt a b = (if b < 0 then a else if a > max_i64 - b then max_i64 else a + b)"

definition limitKey :: "string \<Rightarrow> string \<Rightarrow> string" where
  "limitKey scope domain = scope @ ''|'' @ domain"

definition scope_key :: "string \<Rightarrow> string \<Rightarrow> string" where
  "scope_key scope envKey = (if scope = [] then ''wan'' else scope) @ envKey"

definition empty_ledger :: bandwidth_ledger where
  "empty_ledger = \<lparr>lg_reserved = (\<lambda>_. 0), lg_domain = (\<lambda>_. 0), lg_workers = (\<lambda>_. 0)\<rparr>"

definition seed_task :: "int \<Rightarrow> tracked_task \<Rightarrow> bandwidth_ledger \<Rightarrow> bandwidth_ledger" where
  "seed_task now t l =
     (if ti_Scope t = [] then l
      else let c = TaskOccupancy t now in
        if c \<le> 0 then l
        else let k = ti_Scope t @ ti_EnvKey t;
                 l1 = l\<lparr>lg_reserved := (lg_reserved l)(k := saturatingAdd64 (lg_reserved l k) c)\<rparr>;
                 d = limitKey (ti_Scope t) (ti_Domain t)
             in if ti_Domain t = [] then l1
                else l1\<lparr>lg_domain := (lg_domain l1)(d := saturatingAdd64 (lg_domain l1 d) c)\<rparr>)"

definition NewBandwidthLedgerAt :: "tracked_task list \<Rightarrow> int \<Rightarrow> bandwidth_ledger" where
  "NewBandwidthLedgerAt ts now = fold (seed_task now) ts empty_ledger"

definition Reserved :: "bandwidth_ledger option \<Rightarrow> string \<Rightarrow> string \<Rightarrow> int" where
  "Reserved l scope envKey = (case l of None \<Rightarrow> 0 | Some x \<Rightarrow> lg_reserved x (scope_key scope envKey))"

definition Reserve :: "string \<Rightarrow> string \<Rightarrow> int \<Rightarrow> bandwidth_ledger \<Rightarrow> bandwidth_ledger" where
  "Reserve scope envKey bw l =
     (if bw \<le> 0 then l
      else let k = scope_key scope envKey in l\<lparr>lg_reserved := (lg_reserved l)(k := saturatingAdd64 (lg_reserved l k) bw)\<rparr>)"

definition Release :: "string \<Rightarrow> string \<Rightarrow> int \<Rightarrow> bandwidth_ledger \<Rightarrow> bandwidth_ledger" where
  "Release scope envKey bw l =
     (if bw \<le> 0 then l
      else let k = scope_key scope envKey in l\<lparr>lg_reserved := (lg_reserved l)(k := max (sub64 (lg_reserved l k) bw) 0)\<rparr>)"

definition ReservedByDomain :: "bandwidth_ledger option \<Rightarrow> string \<Rightarrow> string \<Rightarrow> int" where
  "ReservedByDomain l scope domain =
     (case l of None \<Rightarrow> 0 | Some x \<Rightarrow> if scope = [] \<or> domain = [] then 0 else lg_domain x (limitKey scope domain))"

definition ReserveByDomain :: "string \<Rightarrow> string \<Rightarrow> int \<Rightarrow> bandwidth_ledger \<Rightarrow> bandwidth_ledger" where
  "ReserveByDomain scope domain bw l =
     (if bw \<le> 0 \<or> scope = [] \<or> domain = [] then l
      else let k = limitKey scope domain in l\<lparr>lg_domain := (lg_domain l)(k := saturatingAdd64 (lg_domain l k) bw)\<rparr>)"

definition ReleaseByDomain :: "string \<Rightarrow> string \<Rightarrow> int \<Rightarrow> bandwidth_ledger \<Rightarrow> bandwidth_ledger" where
  "ReleaseByDomain scope domain bw l =
     (if bw \<le> 0 \<or> scope = [] \<or> domain = [] then l
      else let k = limitKey scope domain in l\<lparr>lg_domain := (lg_domain l)(k := max (sub64 (lg_domain l k) bw) 0)\<rparr>)"

definition ReservedWorkers :: "bandwidth_ledger option \<Rightarrow> string \<Rightarrow> string \<Rightarrow> int" where
  "ReservedWorkers l scope domain =
     (case l of None \<Rightarrow> 0 | Some x \<Rightarrow> if scope = [] \<or> domain = [] then 0 else lg_workers x (limitKey scope domain))"

definition ReserveWorkers :: "string \<Rightarrow> string \<Rightarrow> int \<Rightarrow> bandwidth_ledger \<Rightarrow> bandwidth_ledger" where
  "ReserveWorkers scope domain n l =
     (if n \<le> 0 \<or> scope = [] \<or> domain = [] then l
      else let k = limitKey scope domain in l\<lparr>lg_workers := (lg_workers l)(k := saturatingAddInt (lg_workers l k) n)\<rparr>)"

definition ReleaseWorkers :: "string \<Rightarrow> string \<Rightarrow> int \<Rightarrow> bandwidth_ledger \<Rightarrow> bandwidth_ledger" where
  "ReleaseWorkers scope domain n l =
     (if n \<le> 0 \<or> scope = [] \<or> domain = [] then l
      else let k = limitKey scope domain in l\<lparr>lg_workers := (lg_workers l)(k := max (sub64 (lg_workers l k) n) 0)\<rparr>)"

section \<open>What the ledger holds\<close>

definition range63 :: "int \<Rightarrow> bool" where
  "range63 x \<longleftrightarrow> 0 \<le> x \<and> x \<le> max_i64"

lemma saturating_add: "range63 a \<Longrightarrow> range63 b \<Longrightarrow> saturatingAdd64 a b = min max_i64 (a + b)"
proof -
  assume h: "range63 a" "range63 b"
  show ?thesis
  proof (cases "a + b \<le> max_i64")
    case True
    then have "add64 a b = a + b" using h by (intro wrap64_id) (auto simp: range63_def in_i64_def min_i64_def)
    then show ?thesis using h True by (simp add: saturatingAdd64_def range63_def)
  next
    case False
    have "add64 a b = a + b - 18446744073709551616"
    proof -
      have "(a + b + 9223372036854775808) mod 18446744073709551616 = a + b + 9223372036854775808 - 18446744073709551616"
        by (rule mod_pos_geq[THEN trans]) (use h False in \<open>auto simp: range63_def max_i64_def\<close>)
      then show ?thesis by (simp add: wrap64_def)
    qed
    then show ?thesis using h False by (auto simp: saturatingAdd64_def range63_def max_i64_def)
  qed
qed

lemma saturating_add_int: "range63 a \<Longrightarrow> range63 b \<Longrightarrow> saturatingAddInt a b = min max_i64 (a + b)"
  by (auto simp: saturatingAddInt_def range63_def)

lemma occupancy_range:
  assumes "ti_Target t \<le> max_i64" and "ti_RawBps t \<le> max_i64" and "ti_TelemetryBps t \<le> max_i64"
  shows "range63 (TaskOccupancy t now)"
  using assms by (auto simp: range63_def TaskOccupancy_def reserved_occupancy_def claimContribution_def
      taskOccupancyTelemetry_def Let_def max_i64_def)

section \<open>The seed of a ledger\<close>

definition tasks_range :: "tracked_task list \<Rightarrow> bool" where
  "tasks_range ts \<longleftrightarrow> (\<forall>t \<in> set ts. ti_Target t \<le> max_i64 \<and> ti_RawBps t \<le> max_i64 \<and> ti_TelemetryBps t \<le> max_i64)"

text \<open>The occupancy a list of tasks puts on a key.\<close>

definition claims :: "(tracked_task \<Rightarrow> bool) \<Rightarrow> int \<Rightarrow> tracked_task list \<Rightarrow> int" where
  "claims on now ts = sum_list (map (\<lambda>t. TaskOccupancy t now) (filter (\<lambda>t. ti_Scope t \<noteq> [] \<and> on t) ts))"

definition ledger_range :: "bandwidth_ledger \<Rightarrow> bool" where
  "ledger_range l \<longleftrightarrow> (\<forall>k. range63 (lg_reserved l k) \<and> range63 (lg_domain l k) \<and> range63 (lg_workers l k))"

lemma seed_task_reserved:
  assumes "ledger_range l" and "range63 (TaskOccupancy t now)"
  shows "lg_reserved (seed_task now t l) k =
    (if ti_Scope t \<noteq> [] \<and> k = ti_Scope t @ ti_EnvKey t then min max_i64 (lg_reserved l k + TaskOccupancy t now) else lg_reserved l k)"
  using assms saturating_add[of "lg_reserved l k" "TaskOccupancy t now"]
  by (auto simp: seed_task_def Let_def ledger_range_def range63_def)

lemma seed_task_domain:
  assumes "ledger_range l" and "range63 (TaskOccupancy t now)"
  shows "lg_domain (seed_task now t l) k =
    (if ti_Scope t \<noteq> [] \<and> ti_Domain t \<noteq> [] \<and> k = limitKey (ti_Scope t) (ti_Domain t)
     then min max_i64 (lg_domain l k + TaskOccupancy t now) else lg_domain l k)"
  using assms saturating_add[of "lg_domain l k" "TaskOccupancy t now"]
  by (auto simp: seed_task_def Let_def ledger_range_def range63_def)

lemma seed_task_range:
  assumes "ledger_range l" and "range63 (TaskOccupancy t now)"
  shows "ledger_range (seed_task now t l)"
proof -
  have "lg_workers (seed_task now t l) = lg_workers l" by (simp add: seed_task_def Let_def)
  then show ?thesis using assms seed_task_reserved[OF assms] seed_task_domain[OF assms]
    by (auto simp: ledger_range_def range63_def)
qed

lemma empty_range: "ledger_range empty_ledger"
  by (simp add: ledger_range_def empty_ledger_def range63_def max_i64_def)

lemma task_range: "tasks_range ts \<Longrightarrow> t \<in> set ts \<Longrightarrow> range63 (TaskOccupancy t now)"
  by (rule occupancy_range) (auto simp: tasks_range_def)

lemma min_assoc: "0 \<le> b \<Longrightarrow> min max_i64 (min max_i64 (a :: int) + b) = min max_i64 (a + b)"
  by (auto simp: min_def)

lemma seed_sum:
  assumes step: "\<And>t l. ledger_range l \<Longrightarrow> range63 (TaskOccupancy t now) \<Longrightarrow>
      f (seed_task now t l) = (if ti_Scope t \<noteq> [] \<and> on t then min max_i64 (f l + TaskOccupancy t now) else f l)"
    and rng: "\<And>l. ledger_range l \<Longrightarrow> range63 (f l)"
  shows "ledger_range l \<Longrightarrow> tasks_range ts \<Longrightarrow> f (fold (seed_task now) ts l) = min max_i64 (f l + claims on now ts)"
proof (induction ts arbitrary: l)
  case Nil
  then show ?case using rng[of l] by (simp add: claims_def range63_def)
next
  case (Cons t ts)
  have t: "range63 (TaskOccupancy t now)" and ts: "tasks_range ts" using Cons.prems(2) task_range[of "t # ts" t now]
    by (auto simp: tasks_range_def)
  have c: "0 \<le> claims on now ts"
    unfolding claims_def by (rule sum_list_nonneg) (use task_range[OF ts] in \<open>auto simp: range63_def\<close>)
  have "f (fold (seed_task now) (t # ts) l) = min max_i64 (f (seed_task now t l) + claims on now ts)"
    using Cons.IH[OF seed_task_range[OF Cons.prems(1) t] ts] by simp
  also have "\<dots> = min max_i64 (f l + claims on now (t # ts))"
    using step[OF Cons.prems(1) t] min_assoc[OF c, of "f l + TaskOccupancy t now"]
    by (simp add: claims_def add.assoc)
  finally show ?case .
qed

lemma ledger_sums:
  assumes "tasks_range ts"
  shows "lg_reserved (NewBandwidthLedgerAt ts now) k = min max_i64 (claims (\<lambda>t. k = ti_Scope t @ ti_EnvKey t) now ts)"
    and "lg_domain (NewBandwidthLedgerAt ts now) k =
      min max_i64 (claims (\<lambda>t. ti_Domain t \<noteq> [] \<and> k = limitKey (ti_Scope t) (ti_Domain t)) now ts)"
proof -
  show "lg_reserved (NewBandwidthLedgerAt ts now) k = min max_i64 (claims (\<lambda>t. k = ti_Scope t @ ti_EnvKey t) now ts)"
    using seed_sum[of now "\<lambda>l. lg_reserved l k" "\<lambda>t. k = ti_Scope t @ ti_EnvKey t", OF _ _ empty_range assms] seed_task_reserved
    by (simp add: NewBandwidthLedgerAt_def ledger_range_def) (simp add: empty_ledger_def)
  show "lg_domain (NewBandwidthLedgerAt ts now) k =
      min max_i64 (claims (\<lambda>t. ti_Domain t \<noteq> [] \<and> k = limitKey (ti_Scope t) (ti_Domain t)) now ts)"
    using seed_sum[of now "\<lambda>l. lg_domain l k" "\<lambda>t. ti_Domain t \<noteq> [] \<and> k = limitKey (ti_Scope t) (ti_Domain t)", OF _ _ empty_range assms]
      seed_task_domain
    by (simp add: NewBandwidthLedgerAt_def ledger_range_def) (simp add: empty_ledger_def)
qed

section \<open>Reserve and release\<close>

datatype ledger_op =
    OpReserve string string int | OpRelease string string int
  | OpReserveDomain string string int | OpReleaseDomain string string int
  | OpReserveWorkers string string int | OpReleaseWorkers string string int

fun ledger_step :: "ledger_op \<Rightarrow> bandwidth_ledger \<Rightarrow> bandwidth_ledger" where
  "ledger_step (OpReserve s e n) = Reserve s e n"
| "ledger_step (OpRelease s e n) = Release s e n"
| "ledger_step (OpReserveDomain s d n) = ReserveByDomain s d n"
| "ledger_step (OpReleaseDomain s d n) = ReleaseByDomain s d n"
| "ledger_step (OpReserveWorkers s d n) = ReserveWorkers s d n"
| "ledger_step (OpReleaseWorkers s d n) = ReleaseWorkers s d n"

fun op_amount :: "ledger_op \<Rightarrow> int" where
  "op_amount (OpReserve s e n) = n"
| "op_amount (OpRelease s e n) = n"
| "op_amount (OpReserveDomain s d n) = n"
| "op_amount (OpReleaseDomain s d n) = n"
| "op_amount (OpReserveWorkers s d n) = n"
| "op_amount (OpReleaseWorkers s d n) = n"

lemma floored_sub: "range63 a \<Longrightarrow> 0 < b \<Longrightarrow> b \<le> max_i64 \<Longrightarrow> max (sub64 a b) 0 = max (a - b) 0 \<and> range63 (max (sub64 a b) 0)"
proof -
  assume h: "range63 a" "0 < b" "b \<le> max_i64"
  then have "sub64 a b = a - b" by (intro wrap64_id) (auto simp: range63_def in_i64_def min_i64_def max_i64_def)
  then show ?thesis using h by (auto simp: range63_def)
qed

lemma range_steps:
  assumes "range63 a" and "0 < b" and "b \<le> max_i64"
  shows "range63 (saturatingAdd64 a b)" "range63 (saturatingAddInt a b)" "range63 (max (sub64 a b) 0)"
  using assms floored_sub[OF assms] saturating_add[of a b] saturating_add_int[of a b] by (auto simp: range63_def)

lemma ledger_writes:
  assumes "ledger_range l" and "range63 v"
  shows "ledger_range (l\<lparr>lg_reserved := (lg_reserved l)(k := v)\<rparr>)" "ledger_range (l\<lparr>lg_domain := (lg_domain l)(k := v)\<rparr>)"
    "ledger_range (l\<lparr>lg_workers := (lg_workers l)(k := v)\<rparr>)"
  using assms by (simp_all add: ledger_range_def)

lemma ledger_reads: "ledger_range l \<Longrightarrow> range63 (lg_reserved l k) \<and> range63 (lg_domain l k) \<and> range63 (lg_workers l k)"
  by (simp add: ledger_range_def)

lemma ledger_step_range: "ledger_range l \<Longrightarrow> op_amount x \<le> max_i64 \<Longrightarrow> ledger_range (ledger_step x l)"
  by (cases x) (simp_all add: Reserve_def Release_def ReserveByDomain_def ReleaseByDomain_def ReserveWorkers_def
      ReleaseWorkers_def Let_def ledger_writes range_steps ledger_reads not_le)

lemma ledger_run_range:
  "ledger_range l \<Longrightarrow> list_all (\<lambda>x. op_amount x \<le> max_i64) ops \<Longrightarrow> ledger_range (fold ledger_step ops l)"
  by (induction ops arbitrary: l) (simp_all add: ledger_step_range)

lemma seed_range: "tasks_range ts \<Longrightarrow> ledger_range l \<Longrightarrow> ledger_range (fold (seed_task now) ts l)"
  by (induction ts arbitrary: l) (auto simp: tasks_range_def intro!: seed_task_range occupancy_range)

lemma write_back: "f k = w \<Longrightarrow> (f(k := v))(k := w) = f"
  by (auto simp: fun_eq_iff)

lemma reserve_release:
  assumes "ledger_range l" and "0 \<le> n" and "Reserved (Some l) s e + n \<le> max_i64"
  shows "Release s e n (Reserve s e n l) = l"
proof (cases "n = 0")
  case False
  let ?k = "scope_key s e"
  have r: "range63 (lg_reserved l ?k)" "range63 n" using assms ledger_reads[OF assms(1), of ?k]
    by (auto simp: Reserved_def range63_def)
  have a: "saturatingAdd64 (lg_reserved l ?k) n = lg_reserved l ?k + n"
    using saturating_add[OF r] assms(3) by (simp add: Reserved_def)
  have "range63 (lg_reserved l ?k + n)" using r assms(3) by (simp add: range63_def Reserved_def)
  then have "max (sub64 (lg_reserved l ?k + n) n) 0 = lg_reserved l ?k"
    using floored_sub[of "lg_reserved l ?k + n" n] r assms(2) False by (auto simp: range63_def)
  then show ?thesis using a assms(2) False by (simp add: Reserve_def Release_def Let_def write_back)
qed (simp add: Reserve_def Release_def)

text \<open>
  What an operation is to do to a total, as exact integers: a claim adds its positive amount and stops at the
  largest int64, a release takes it away and stops at zero, every other key stays.
\<close>

definition credit :: "int \<Rightarrow> int \<Rightarrow> int" where
  "credit n v = min max_i64 (v + max n 0)"

definition debit :: "int \<Rightarrow> int \<Rightarrow> int" where
  "debit n v = max 0 (v - max n 0)"

fun booked_bandwidth :: "string \<Rightarrow> ledger_op \<Rightarrow> int \<Rightarrow> int" where
  "booked_bandwidth k (OpReserve s e n) v = (if scope_key s e = k then credit n v else v)"
| "booked_bandwidth k (OpRelease s e n) v = (if scope_key s e = k then debit n v else v)"
| "booked_bandwidth k _ v = v"

fun booked_domain :: "string \<Rightarrow> ledger_op \<Rightarrow> int \<Rightarrow> int" where
  "booked_domain k (OpReserveDomain s d n) v = (if s \<noteq> [] \<and> d \<noteq> [] \<and> limitKey s d = k then credit n v else v)"
| "booked_domain k (OpReleaseDomain s d n) v = (if s \<noteq> [] \<and> d \<noteq> [] \<and> limitKey s d = k then debit n v else v)"
| "booked_domain k _ v = v"

fun booked_workers :: "string \<Rightarrow> ledger_op \<Rightarrow> int \<Rightarrow> int" where
  "booked_workers k (OpReserveWorkers s d n) v = (if s \<noteq> [] \<and> d \<noteq> [] \<and> limitKey s d = k then credit n v else v)"
| "booked_workers k (OpReleaseWorkers s d n) v = (if s \<noteq> [] \<and> d \<noteq> [] \<and> limitKey s d = k then debit n v else v)"
| "booked_workers k _ v = v"

lemma booked_steps:
  assumes "range63 a" and "n \<le> max_i64"
  shows "(if n \<le> 0 then a else saturatingAdd64 a n) = credit n a"
    and "(if n \<le> 0 then a else saturatingAddInt a n) = credit n a"
    and "(if n \<le> 0 then a else max (sub64 a n) 0) = debit n a"
proof -
  have "(if n \<le> 0 then a else saturatingAdd64 a n) = credit n a \<and> (if n \<le> 0 then a else saturatingAddInt a n) = credit n a \<and>
    (if n \<le> 0 then a else max (sub64 a n) 0) = debit n a"
  proof (cases "n \<le> 0")
    case True
    then show ?thesis using assms(1) by (simp add: credit_def debit_def range63_def)
  next
    case False
    then have "range63 n" using assms(2) by (simp add: range63_def)
    then show ?thesis using False assms saturating_add[of a n] saturating_add_int[of a n] floored_sub[of a n]
      by (simp add: credit_def debit_def max.commute)
  qed
  then show "(if n \<le> 0 then a else saturatingAdd64 a n) = credit n a"
    "(if n \<le> 0 then a else saturatingAddInt a n) = credit n a" "(if n \<le> 0 then a else max (sub64 a n) 0) = debit n a" by blast+
qed

lemma step_booked:
  assumes r: "ledger_range l" and n: "op_amount x \<le> max_i64"
  shows "lg_reserved (ledger_step x l) k = booked_bandwidth k x (lg_reserved l k)"
    and "lg_domain (ledger_step x l) k = booked_domain k x (lg_domain l k)"
    and "lg_workers (ledger_step x l) k = booked_workers k x (lg_workers l k)"
proof -
  have g: "range63 (lg_reserved l k)" "range63 (lg_domain l k)" "range63 (lg_workers l k)" using ledger_reads[OF r] by blast+
  note d = Reserve_def Release_def ReserveByDomain_def ReleaseByDomain_def ReserveWorkers_def ReleaseWorkers_def Let_def
  show "lg_reserved (ledger_step x l) k = booked_bandwidth k x (lg_reserved l k)"
    using n booked_steps(1,3)[OF g(1), symmetric] by (cases x) (auto simp: d)
  show "lg_domain (ledger_step x l) k = booked_domain k x (lg_domain l k)"
    using n booked_steps(1,3)[OF g(2), symmetric] by (cases x) (auto simp: d)
  show "lg_workers (ledger_step x l) k = booked_workers k x (lg_workers l k)"
    using n booked_steps(2,3)[OF g(3), symmetric] by (cases x) (auto simp: d)
qed

lemma run_booked:
  assumes "ledger_range l" and "list_all (\<lambda>x. op_amount x \<le> max_i64) ops"
  shows "lg_reserved (fold ledger_step ops l) k = fold (booked_bandwidth k) ops (lg_reserved l k) \<and>
    lg_domain (fold ledger_step ops l) k = fold (booked_domain k) ops (lg_domain l k) \<and>
    lg_workers (fold ledger_step ops l) k = fold (booked_workers k) ops (lg_workers l k)"
  using assms
proof (induction ops arbitrary: l)
  case (Cons x ops)
  then have x: "op_amount x \<le> max_i64" by simp
  show ?case using Cons.IH[OF ledger_step_range[OF Cons.prems(1) x]] Cons.prems step_booked[OF Cons.prems(1) x] by simp
qed simp

text \<open>C34: The bandwidth ledger keeps exact books. A new ledger holds for every scope and environment the saturated sum of
  the occupancies of its tasks, likewise per scope and domain, and no workers; after any run of claims and releases each
  of the three totals is what exact bookkeeping gives from there - a claim adds its amount to its own key and stops at the
  largest int64, a release subtracts and stops at zero, all other keys stay. No total is ever negative or overflows, and
  releasing what was just reserved restores the ledger unless the total had saturated.\<close>

theorem ledger_accounts:
  assumes "tasks_range ts" and "list_all (\<lambda>x. op_amount x \<le> max_i64) ops"
    and "l = fold ledger_step ops (NewBandwidthLedgerAt ts now)" and "scope \<noteq> []" and "domain \<noteq> []"
  shows "Reserved (Some l) scope envKey = fold (booked_bandwidth (scope_key scope envKey)) ops
      (min max_i64 (claims (\<lambda>t. scope_key scope envKey = ti_Scope t @ ti_EnvKey t) now ts)) \<and>
    ReservedByDomain (Some l) scope domain = fold (booked_domain (limitKey scope domain)) ops
      (min max_i64 (claims (\<lambda>t. ti_Domain t \<noteq> [] \<and> limitKey scope domain = limitKey (ti_Scope t) (ti_Domain t)) now ts)) \<and>
    ReservedWorkers (Some l) scope domain = fold (booked_workers (limitKey scope domain)) ops 0 \<and>
    ledger_range l \<and>
    (0 \<le> n \<and> Reserved (Some l) scope envKey + n \<le> max_i64 \<longrightarrow> Release scope envKey n (Reserve scope envKey n l) = l)"
proof -
  have s: "ledger_range (NewBandwidthLedgerAt ts now)" by (simp add: NewBandwidthLedgerAt_def seed_range assms(1) empty_range)
  have r: "ledger_range l" unfolding assms(3) by (rule ledger_run_range[OF s assms(2)])
  have "lg_workers (fold (seed_task now) ts x) k = lg_workers x k" for x k
    by (induction ts arbitrary: x) (simp_all add: seed_task_def Let_def)
  then have w: "lg_workers (NewBandwidthLedgerAt ts now) k = 0" for k by (simp add: NewBandwidthLedgerAt_def empty_ledger_def)
  note b = run_booked[OF s assms(2), folded assms(3)]
  show ?thesis
    using b r reserve_release[OF r] ledger_sums[OF assms(1)] w assms(4,5)
    by (simp add: Reserved_def ReservedByDomain_def ReservedWorkers_def)
qed

lemma lease_minute: "TargetLeaseActive a f now \<Longrightarrow> now < a + 60 * second"
  by (auto simp: TargetLeaseActive_def time_sub_def activationNoProgressTTL_def progressLeaseTTL_def second_def
      max_i64_def min_i64_def split: if_splits)

text \<open>A bandwidth claim is temporary: the occupancy of a task is never negative, never more than the larger of its
  target and its measured speed, its measured speed alone once a minute has passed since its activation (for a task
  of this engine), and zero for a finished, failed or paused task.\<close>

theorem occupancy_lease:
  "0 \<le> TaskOccupancy t now \<and> TaskOccupancy t now \<le> max (max (ti_Target t) 0) (taskOccupancyTelemetry t) \<and>
    (is_surge (ti_GID t) \<and> ti_ActivatedAt t + 60 * second \<le> now \<longrightarrow> TaskOccupancy t now \<le> taskOccupancyTelemetry t) \<and>
    (ti_Status t \<in> {''complete'', ''error'', ''paused''} \<longrightarrow> TaskOccupancy t now = 0)"
proof -
  have t: "0 \<le> taskOccupancyTelemetry t" by (simp add: taskOccupancyTelemetry_def)
  have l: "lease_of_task t now \<Longrightarrow> \<not> ti_ActivatedAt t + 60 * second \<le> now"
    using lease_minute by (fastforce simp: lease_of_task_def)
  show ?thesis using t l
    by (auto simp: TaskOccupancy_def reserved_occupancy_def claimContribution_def add_claim_def Let_def)
qed

definition demo_task :: tracked_task where
  "demo_task = \<lparr>ti_GID = ''sg_1'', ti_Status = ''active'', ti_Scope = ''wan'', ti_Domain = ''a.org'', ti_EnvKey = ''e1'',
     ti_TotalLength = 1000, ti_ThreadCount = 4, ti_Target = 400, ti_TelemetryBps = 0, ti_TelemetryValid = False,
     ti_RawBps = 90, ti_MacroReady = True, ti_ActivatedAt = 0, ti_FirstProgressAt = zero_time,
     ti_CompatClaim = CompatNone, ti_AddAnchorAt = zero_time, ti_Reserved = False\<rparr>"

text \<open>Two tasks, a claim and a partial release on the same key, and workers on a domain.\<close>

theorem ledger_accounts_witness:
  "\<exists>l. l = fold ledger_step [OpReserve ''wan'' ''e1'' 50, OpReserveWorkers ''wan'' ''a.org'' 8, OpRelease ''wan'' ''e1'' 20]
         (NewBandwidthLedgerAt [demo_task, demo_task] (10 * second)) \<and>
     Reserved (Some l) ''wan'' ''e1'' = 830 \<and> ReservedByDomain (Some l) ''wan'' ''a.org'' = 800 \<and>
     ReservedWorkers (Some l) ''wan'' ''a.org'' = 8 \<and> Release ''wan'' ''e1'' 7 (Reserve ''wan'' ''e1'' 7 l) = l"
proof -
  let ?ops = "[OpReserve ''wan'' ''e1'' 50, OpReserveWorkers ''wan'' ''a.org'' 8, OpRelease ''wan'' ''e1'' 20]"
  have t: "tasks_range [demo_task, demo_task]" by (simp add: tasks_range_def demo_task_def max_i64_def)
  have o: "TaskOccupancy demo_task (10 * second) = 400" by code_simp
  have c: "claims (\<lambda>t. scope_key ''wan'' ''e1'' = ti_Scope t @ ti_EnvKey t) (10 * second) [demo_task, demo_task] = 800"
    "claims (\<lambda>t. ti_Domain t \<noteq> [] \<and> limitKey ''wan'' ''a.org'' = limitKey (ti_Scope t) (ti_Domain t)) (10 * second)
       [demo_task, demo_task] = 800"
    using o by (simp_all add: claims_def demo_task_def scope_key_def)
  have a: "list_all (\<lambda>x. op_amount x \<le> max_i64) ?ops" by (simp add: max_i64_def)
  have n: "''wan'' \<noteq> []" "''a.org'' \<noteq> []" by simp_all
  show ?thesis
    using ledger_accounts[OF t a refl n, of "10 * second" "''e1''" 7] c by (simp add: max_i64_def credit_def debit_def)
qed

theorem occupancy_lease_witness:
  "TaskOccupancy demo_task (44 * second) = 400 \<and> TaskOccupancy demo_task (61 * second) \<le> 90"
proof -
  have "TaskOccupancy demo_task (44 * second) = 400" "taskOccupancyTelemetry demo_task = 90" "is_surge (ti_GID demo_task)"
    "ti_ActivatedAt demo_task + 60 * second \<le> 61 * second" by code_simp+
  then show ?thesis using occupancy_lease[of demo_task "61 * second"] by simp
qed

end
