(* ===== verification/SmartCalc.thy ===== *)
theory SmartCalc
  imports SmartLedger
begin

text \<open>
The choice of connections and chunk sizes (internal/smartthread/smartthread.go, physical_ceiling.go, server_limits.go,
  calc_params.go) from the recorded speeds, the ledger and the limits servers showed.
\<close>

section \<open>Arithmetic\<close>

definition ceilDivPositive :: "int \<Rightarrow> int \<Rightarrow> int" where
  "ceilDivPositive a b = (if a \<le> 0 \<or> b \<le> 0 then 0 else 1 + (a - 1) div b)"

definition saturatingMulPositive :: "int \<Rightarrow> int \<Rightarrow> int" where
  "saturatingMulPositive a b = (if a \<le> 0 \<or> b \<le> 0 then 0 else if a > max_i64 div b then max_i64 else a * b)"

definition clampToConn :: "int \<Rightarrow> int \<Rightarrow> int \<Rightarrow> int" where
  "clampToConn n low maxConn =
     (let o1 = max n low;
          o2 = (if maxConn > 0 \<and> o1 > maxConn then maxConn else o1);
          o3 = (if o2 < 1 \<and> low \<ge> 1 then 1 else o2)
      in if o3 < 0 then 0 else o3)"

definition intFromNonNegative :: "int \<Rightarrow> int" where
  "intFromNonNegative n = (if n \<le> 0 then 0 else if n > max_i64 then max_i64 else n)"

definition explorationLimit :: "int \<Rightarrow> int" where
  "explorationLimit maxConn = min (max (quot64 maxConn 4) 4) 8"

definition MaxConnectionsUpper :: int where
  "MaxConnectionsUpper = 256"

definition MaxConcurrentDownloadsUpper :: int where
  "MaxConcurrentDownloadsUpper = 32"

definition minThreadEfficiency :: int where
  "minThreadEfficiency = 100 * 1024"

definition minChunkSize :: int where
  "minChunkSize = 1024 * 1024"

definition maxChunkSize :: int where
  "maxChunkSize = 1024 * 1024 * 1024"

definition defaultMinThreadLife :: int where
  "defaultMinThreadLife = 5"

text \<open>\<open>strconv.Atoi\<close> of the constant ''16''.\<close>

definition defaultMaxConnections :: int where
  "defaultMaxConnections = 16"

section \<open>Thread parameters\<close>

record thread_params =
  tp_Split :: int
  tp_MinSize :: int
  tp_IsExploration :: bool
  tp_Target :: int
  tp_NSat :: int

text \<open>
  The clock, the recorded speeds, the thread life of the configuration (zero without one) and the float
  product of the legacy split are what \<open>Calculate\<close> reads around its parameters.
\<close>

record calc_env =
  ce_now :: int
  ce_records :: "speed_record list"
  ce_configLife :: int
  ce_legacySplit :: "int \<Rightarrow> int \<Rightarrow> int"

record calc_params =
  cp_FileSize :: int
  cp_MaxConnections :: int
  cp_Scope :: string
  cp_Domain :: string
  cp_EnvKey :: string
  cp_ReservedBandwidth :: int
  cp_ReservedDomainBandwidth :: int
  cp_Ledger :: "bandwidth_ledger option"
  cp_ActiveMACs :: "string list option"
  cp_ComputeEnvKey :: "(string \<Rightarrow> string \<Rightarrow> string) option"
  cp_MinThreadLife :: int

definition threadEfficiency :: "calc_env \<Rightarrow> string \<Rightarrow> string \<Rightarrow> string \<Rightarrow> int option" where
  "threadEfficiency env domain scope envKey =
     (case GetRecentPeakByDomain (ce_now env) (ce_records env) domain scope envKey of
        Some v \<Rightarrow> Some v
      | None \<Rightarrow> map_option (\<lambda>v. quot64 v 2) (GetRecentPeakByScope (ce_now env) (ce_records env) scope envKey))"

definition physical_peak :: "calc_env \<Rightarrow> string \<Rightarrow> string \<Rightarrow> int option" where
  "physical_peak env direct proxy =
     (let peaks = [GetGlobalPeak (ce_now env) (ce_records env) ''wan'' direct,
                   GetGlobalPeak (ce_now env) (ce_records env) ''wan'' proxy,
                   GetGlobalPeak (ce_now env) (ce_records env) ''lan'' direct,
                   GetGlobalPeak (ce_now env) (ce_records env) ''lan'' proxy]
      in if list_all (\<lambda>p. p = None) peaks then None
         else Some (fold (\<lambda>p m. case p of None \<Rightarrow> m | Some v \<Rightarrow> max v m) peaks 0))"

definition physicalHeadroom :: "calc_env \<Rightarrow> calc_params \<Rightarrow> int option" where
  "physicalHeadroom env p =
     (case (cp_Ledger p, cp_ActiveMACs p, cp_ComputeEnvKey p) of
        (Some l, Some macs, Some hash) \<Rightarrow>
          if cp_EnvKey p = [] \<or> macs = [] then None
          else (case find (\<lambda>mac. cp_EnvKey p = hash ''0'' mac \<or> cp_EnvKey p = hash ''1'' mac) macs of
              None \<Rightarrow> None
            | Some mac \<Rightarrow>
                let direct = hash ''0'' mac; proxy = hash ''1'' mac in
                if direct = [] then None
                else (case physical_peak env direct proxy of
                    None \<Rightarrow> None
                  | Some peak \<Rightarrow>
                      let wan = saturatingAdd64 (Reserved (Some l) ''wan'' direct) (Reserved (Some l) ''wan'' proxy);
                          lan = saturatingAdd64 (Reserved (Some l) ''lan'' direct) (Reserved (Some l) ''lan'' proxy)
                      in Some (max (sub64 peak (saturatingAdd64 wan lan)) 0)))
      | _ \<Rightarrow> None)"

definition applyPhysicalCeiling :: "calc_env \<Rightarrow> int \<Rightarrow> calc_params \<Rightarrow> int" where
  "applyPhysicalCeiling env logical p =
     (if logical \<le> 0 then 0
      else case physicalHeadroom env p of None \<Rightarrow> logical | Some phys \<Rightarrow> min logical phys)"

definition explore_cap :: "bool \<Rightarrow> int \<Rightarrow> int \<Rightarrow> int" where
  "explore_cap exploration maxConn n =
     (if exploration \<and> n > explorationLimit maxConn then explorationLimit maxConn else n)"

definition calculateLegacy :: "calc_env \<Rightarrow> int \<Rightarrow> int \<Rightarrow> string \<Rightarrow> string \<Rightarrow> string \<Rightarrow> int \<Rightarrow> thread_params" where
  "calculateLegacy env fileSize maxConn domain scope envKey tMin =
     (let single = max (2 * 1024 * 1024) minThreadEfficiency;
          nLimit = ceilDivPositive fileSize (saturatingMulPositive single tMin);
          exploration = \<not> HasDomainScopeEnvRecord (ce_now env) (ce_records env) domain scope envKey;
          n = explore_cap exploration maxConn (clampToConn nLimit 1 maxConn);
          raw = ce_legacySplit env fileSize n;
          minSize = (if n > 0 then (if raw < minChunkSize then minChunkSize else if raw > maxChunkSize then maxChunkSize else raw)
                     else 0)
      in \<lparr>tp_Split = n, tp_MinSize = minSize, tp_IsExploration = exploration,
          tp_Target = saturatingMulPositive single n, tp_NSat = intFromNonNegative nLimit\<rparr>)"

definition min_chunk_for :: "int \<Rightarrow> int \<Rightarrow> int \<Rightarrow> int" where
  "min_chunk_for eff fileSize n =
     (let c = min (max (saturatingMulPositive eff 2) minChunkSize) maxChunkSize in
      if n > 0 \<and> quot64 fileSize n < c then max (quot64 fileSize n) minChunkSize else c)"

definition Calculate :: "calc_env \<Rightarrow> calc_params \<Rightarrow> thread_params" where
  "Calculate env p =
     (let maxConn0 = (if cp_MaxConnections p \<le> 0 then defaultMaxConnections else cp_MaxConnections p);
          maxConn = (if maxConn0 > MaxConnectionsUpper then MaxConnectionsUpper else maxConn0);
          tMin = (if cp_MinThreadLife p > 0 then cp_MinThreadLife p
                  else if ce_configLife env > 0 then ce_configLife env else defaultMinThreadLife);
          exploration = \<not> HasDomainScopeEnvRecord (ce_now env) (ce_records env) (cp_Domain p) (cp_Scope p) (cp_EnvKey p)
      in case (threadEfficiency env (cp_Domain p) (cp_Scope p) (cp_EnvKey p),
               GetGlobalPeak (ce_now env) (ce_records env) (cp_Scope p) (cp_EnvKey p)) of
           (Some eff0, Some globalPeak) \<Rightarrow>
             let eff = max eff0 minThreadEfficiency;
                 available = applyPhysicalCeiling env (max (sub64 globalPeak (cp_ReservedBandwidth p)) 0) p;
                 target = (case GetDomainPeak (ce_now env) (ce_records env) (cp_Domain p) (cp_Scope p) (cp_EnvKey p) of
                    None \<Rightarrow> available
                  | Some peak \<Rightarrow> min (max (sub64 peak (cp_ReservedDomainBandwidth p)) 0) available);
                 nSat = add64 (ceilDivPositive target eff) 1;
                 low = (if available \<le> 0 \<or> available < quot64 globalPeak 10 then 2 else 1);
                 n0 = (if cp_FileSize p > 0
                       then min nSat (ceilDivPositive (cp_FileSize p) (saturatingMulPositive eff tMin)) else nSat);
                 n = explore_cap exploration maxConn (clampToConn n0 low maxConn)
             in \<lparr>tp_Split = n, tp_MinSize = (if cp_FileSize p > 0 then min_chunk_for eff (cp_FileSize p) n else 0),
                 tp_IsExploration = exploration, tp_Target = saturatingMulPositive eff n, tp_NSat = intFromNonNegative nSat\<rparr>
         | _ \<Rightarrow>
             if cp_FileSize p \<le> 0
             then \<lparr>tp_Split = explore_cap exploration maxConn maxConn, tp_MinSize = 0, tp_IsExploration = exploration,
                   tp_Target = 0, tp_NSat = maxConn\<rparr>
             else calculateLegacy env (cp_FileSize p) maxConn (cp_Domain p) (cp_Scope p) (cp_EnvKey p) tMin)"

section \<open>Server limits\<close>

definition serverLimitTTL :: int where
  "serverLimitTTL = 24 * 3600 * second"

record server_limit =
  sl_NMax :: int
  sl_DetectedAt :: int

type_synonym limit_store = "string \<rightharpoonup> server_limit"

definition GetNMax :: "int \<Rightarrow> string \<Rightarrow> limit_store \<Rightarrow> int option" where
  "GetNMax now k st =
     (case st k of None \<Rightarrow> None
      | Some sl \<Rightarrow> if time_sub now (sl_DetectedAt sl) > serverLimitTTL then None else Some (sl_NMax sl))"

definition SetNMax :: "int \<Rightarrow> string \<Rightarrow> int \<Rightarrow> limit_store \<Rightarrow> limit_store" where
  "SetNMax now k n st = st(k \<mapsto> \<lparr>sl_NMax = n, sl_DetectedAt = now\<rparr>)"

definition IsExpired :: "int \<Rightarrow> string \<Rightarrow> limit_store \<Rightarrow> bool" where
  "IsExpired now k st = (case st k of None \<Rightarrow> True | Some sl \<Rightarrow> time_sub now (sl_DetectedAt sl) > serverLimitTTL)"

definition ClearLimit :: "string \<Rightarrow> limit_store \<Rightarrow> limit_store" where
  "ClearLimit k st = st(k := None)"

definition ClampToServerLimit ::
    "int \<Rightarrow> thread_params \<Rightarrow> int \<Rightarrow> string \<Rightarrow> string \<Rightarrow> int \<Rightarrow> limit_store option \<Rightarrow> thread_params" where
  "ClampToServerLimit now t fileSize scope domain existing store =
     (case store of None \<Rightarrow> t
      | Some st \<Rightarrow>
          if scope = [] \<or> domain = [] then t
          else (case GetNMax now (limitKey scope domain) st of
              None \<Rightarrow> t
            | Some nMax \<Rightarrow>
                if nMax \<le> 0 then t
                else let allowed = max (sub64 nMax existing) 1 in
                  if tp_Split t \<le> allowed then t
                  else let per = quot64 fileSize allowed;
                           m = (if fileSize > 0 \<and> allowed > 0 \<and> per < tp_MinSize t then max per minChunkSize else tp_MinSize t);
                           b = (if tp_Split t > 0 \<and> tp_Target t > 0
                                then quot64 (mul64 (tp_Target t) allowed) (tp_Split t) else tp_Target t)
                       in t\<lparr>tp_Split := allowed, tp_MinSize := m, tp_Target := b\<rparr>))"

end
