(* ===== verification/SmartAdmission.thy ===== *)
theory SmartAdmission
  imports SmartCalc "HOL-Library.Word"
begin

text \<open>
The admission gate (internal/smartthread/admission.go): may a candidate start, and with which parameters. Bounds of the
  calculation it uses, the server's limit, and the theorem that what is admitted stays within every budget.
\<close>

unbundle bit_operations_syntax

section \<open>The admission gate\<close>

definition admissionColdScopeLimit :: int where
  "admissionColdScopeLimit = 5"

definition admissionExplorationDomainLimit :: int where
  "admissionExplorationDomainLimit = 5"

type_synonym admission_block = "8 word"

definition BlockGlobal :: admission_block where
  "BlockGlobal = 1"

definition BlockScope :: admission_block where
  "BlockScope = 2"

definition BlockDomain :: admission_block where
  "BlockDomain = 4"

definition BlockPhysical :: admission_block where
  "BlockPhysical = 8"

record admission_params =
  ap_Calc :: calc_params
  ap_Upper :: thread_params
  ap_Smart :: bool
  ap_SizeKnown :: bool
  ap_ShortAvailable :: bool
  ap_SlotHeadroom :: int
  ap_ScopeEnvCommitted :: int
  ap_DomainCommitted :: int
  ap_WorkerHeadroom :: int
  ap_Measuring :: int
  ap_RecordEligible :: bool

record admission_decision =
  ad_Allowed :: bool
  ad_Blocked :: admission_block
  ad_Params :: thread_params
  ad_Short :: bool

definition zero_params :: thread_params where
  "zero_params = \<lparr>tp_Split = 0, tp_MinSize = 0, tp_IsExploration = False, tp_Target = 0, tp_NSat = 0\<rparr>"

definition refuse :: "admission_block \<Rightarrow> admission_decision" where
  "refuse b = \<lparr>ad_Allowed = False, ad_Blocked = b, ad_Params = zero_params, ad_Short = False\<rparr>"

definition allow :: "thread_params \<Rightarrow> admission_decision" where
  "allow t = \<lparr>ad_Allowed = True, ad_Blocked = 0, ad_Params = t, ad_Short = False\<rparr>"

record admission_resources =
  re_efficiency :: int
  re_exploration :: bool
  re_scope :: "int option"
  re_domain :: "int option"
  re_physical :: "int option"

definition admissionResourcesFor :: "calc_env \<Rightarrow> calc_params \<Rightarrow> admission_resources" where
  "admissionResourcesFor env c =
     \<lparr>re_efficiency = (case threadEfficiency env (cp_Domain c) (cp_Scope c) (cp_EnvKey c) of
        None \<Rightarrow> minThreadEfficiency | Some e \<Rightarrow> if e < minThreadEfficiency then minThreadEfficiency else e),
      re_exploration = (\<not> HasDomainScopeEnvRecord (ce_now env) (ce_records env) (cp_Domain c) (cp_Scope c) (cp_EnvKey c)),
      re_scope = map_option (\<lambda>peak. max (sub64 peak (Reserved (cp_Ledger c) (cp_Scope c) (cp_EnvKey c))) 0)
        (GetGlobalPeak (ce_now env) (ce_records env) (cp_Scope c) (cp_EnvKey c)),
      re_domain = map_option (\<lambda>peak. max (sub64 peak (ReservedByDomain (cp_Ledger c) (cp_Scope c) (cp_Domain c))) 0)
        (GetDomainPeak (ce_now env) (ce_records env) (cp_Domain c) (cp_Scope c) (cp_EnvKey c)),
      re_physical = physicalHeadroom env c\<rparr>"

definition valid_input :: "admission_params \<Rightarrow> bool" where
  "valid_input p \<longleftrightarrow>
     \<not> (ap_SlotHeadroom p < 0 \<or> ap_SlotHeadroom p > MaxConcurrentDownloadsUpper) \<and> \<not> ap_Measuring p < 0 \<and>
     \<not> (tp_Split (ap_Upper p) < 1 \<or> tp_Split (ap_Upper p) > MaxConnectionsUpper \<or> tp_MinSize (ap_Upper p) < 0 \<or>
        tp_Target (ap_Upper p) < 0) \<and>
     (if ap_SizeKnown p then \<not> cp_FileSize (ap_Calc p) < 0 else \<not> cp_FileSize (ap_Calc p) \<noteq> 0) \<and>
     (ap_Smart p \<longrightarrow> \<not> (ap_ScopeEnvCommitted p < 0 \<or> ap_DomainCommitted p < 0 \<or> ap_WorkerHeadroom p < 0) \<and>
        \<not> (cp_MaxConnections (ap_Calc p) < 0 \<or> cp_MaxConnections (ap_Calc p) > MaxConnectionsUpper))"

definition smart_ready :: "calc_params \<Rightarrow> bool" where
  "smart_ready c \<longleftrightarrow> \<not> ((cp_Scope c \<noteq> ''wan'' \<and> cp_Scope c \<noteq> ''lan'') \<or> cp_Domain c = [] \<or> cp_Ledger c = None \<or>
     cp_ActiveMACs c = None \<or> cp_ComputeEnvKey c = None \<or> cp_MinThreadLife c \<le> 0)"

definition suggest_params :: "calc_env \<Rightarrow> admission_params \<Rightarrow> bool \<Rightarrow> thread_params" where
  "suggest_params env p exploration =
     (if ap_SizeKnown p \<and> cp_FileSize (ap_Calc p) = 0
      then \<lparr>tp_Split = 1, tp_MinSize = tp_MinSize (ap_Upper p), tp_IsExploration = exploration, tp_Target = 0, tp_NSat = 1\<rparr>
      else let c = ap_Calc p in
        Calculate env (c\<lparr>cp_ReservedBandwidth := Reserved (cp_Ledger c) (cp_Scope c) (cp_EnvKey c),
                         cp_ReservedDomainBandwidth := ReservedByDomain (cp_Ledger c) (cp_Scope c) (cp_Domain c)\<rparr>))"

definition tighten :: "thread_params \<Rightarrow> int \<Rightarrow> thread_params \<Rightarrow> thread_params" where
  "tighten upper conns s =
     s\<lparr>tp_Split := max (min (min (tp_Split s) (tp_Split upper)) conns) 1,
       tp_MinSize := (if tp_MinSize upper = 0 then 0
                      else if tp_MinSize s \<le> 0 \<or> tp_MinSize s > tp_MinSize upper then tp_MinSize upper else tp_MinSize s)\<rparr>"

definition short_of :: "int option \<Rightarrow> int \<Rightarrow> bool" where
  "short_of avail eff \<longleftrightarrow> (case avail of None \<Rightarrow> False | Some a \<Rightarrow> a < eff)"

definition blocked_by :: "admission_resources \<Rightarrow> admission_block" where
  "blocked_by res =
     (if short_of (re_scope res) (re_efficiency res) then BlockScope else 0) OR
     (if short_of (re_domain res) (re_efficiency res) then BlockDomain else 0) OR
     (if short_of (re_physical res) (re_efficiency res) then BlockPhysical else 0)"

definition EvaluateAdmission :: "calc_env \<Rightarrow> admission_params \<Rightarrow> admission_decision" where
  "EvaluateAdmission env p =
     (if \<not> valid_input p then refuse 0
      else if ap_SlotHeadroom p = 0 then refuse BlockGlobal
      else if \<not> ap_Smart p then allow (ap_Upper p)
      else if \<not> smart_ready (ap_Calc p) then refuse 0
      else
        let res = admissionResourcesFor env (ap_Calc p) in
        if re_scope res = None \<and> ap_ScopeEnvCommitted p \<ge> admissionColdScopeLimit then refuse BlockScope
        else if re_exploration res \<and> ap_DomainCommitted p \<ge> admissionExplorationDomainLimit then refuse BlockDomain
        else if re_exploration res \<and> ap_RecordEligible p \<and> ap_Measuring p \<ge> 1 then refuse BlockDomain
        else
          let conns = max (sub64 (ap_WorkerHeadroom p)
                        (ReservedWorkers (cp_Ledger (ap_Calc p)) (cp_Scope (ap_Calc p)) (cp_Domain (ap_Calc p)))) 0 in
          if conns = 0 then refuse BlockDomain
          else
            let s = tighten (ap_Upper p) conns (suggest_params env p (re_exploration res)); blocked = blocked_by res in
            if blocked = 0
            then allow (s\<lparr>tp_Target := saturatingMulPositive (re_efficiency res) (tp_Split s)\<rparr>)
            else if blocked AND NOT (BlockScope OR BlockPhysical) \<noteq> 0 then refuse blocked
            else if \<not> ap_ShortAvailable p \<or> \<not> ap_SizeKnown p \<or> cp_FileSize (ap_Calc p) < 0 then refuse blocked
            else if cp_FileSize (ap_Calc p) > saturatingMulPositive (re_efficiency res) (progressLeaseTTL div second) then refuse blocked
            else \<lparr>ad_Allowed = True, ad_Blocked = blocked,
                   ad_Params = \<lparr>tp_Split = 1, tp_MinSize = tp_MinSize s, tp_IsExploration = re_exploration res,
                                tp_Target = re_efficiency res, tp_NSat = 1\<rparr>,
                   ad_Short = True\<rparr>)"

definition IsMeasuringTaskOccupancy :: "tracked_task \<Rightarrow> int \<Rightarrow> bool" where
  "IsMeasuringTaskOccupancy t now \<longleftrightarrow> TaskOccupancy t now \<ge> minThreadEfficiency"

section \<open>Bounds of the calculation\<close>

lemma saturating_mul_range: "0 \<le> saturatingMulPositive a b \<and> saturatingMulPositive a b \<le> max_i64"
proof -
  have "a * b \<le> max_i64" if "0 < b" "a \<le> max_i64 div b"
  proof -
    have "a * b \<le> max_i64 div b * b" using that by (intro mult_right_mono) simp_all
    also have "\<dots> \<le> max_i64" using minus_mod_eq_div_mult[of max_i64 b] pos_mod_sign[OF that(1), of max_i64] by linarith
    finally show ?thesis .
  qed
  then show ?thesis by (auto simp: saturatingMulPositive_def max_i64_def)
qed

lemma exploration_limit_range: "4 \<le> explorationLimit m \<and> explorationLimit m \<le> 8"
  by (simp add: explorationLimit_def)

lemma clamp_range: "1 \<le> low \<Longrightarrow> 1 \<le> maxConn \<Longrightarrow> 1 \<le> clampToConn n low maxConn \<and> clampToConn n low maxConn \<le> maxConn"
  by (auto simp: clampToConn_def Let_def)

lemma explore_cap_range:
  "1 \<le> n \<Longrightarrow> n \<le> maxConn \<Longrightarrow> 1 \<le> explore_cap e maxConn n \<and> explore_cap e maxConn n \<le> maxConn \<and> (e \<longrightarrow> explore_cap e maxConn n \<le> 8)"
  using exploration_limit_range[of maxConn] by (auto simp: explore_cap_def)

lemma min_chunk_range: "minChunkSize \<le> min_chunk_for eff f n \<and> min_chunk_for eff f n \<le> maxChunkSize"
  by (auto simp: min_chunk_for_def Let_def minChunkSize_def maxChunkSize_def)

definition connection_cap :: "calc_params \<Rightarrow> int" where
  "connection_cap p = min (if cp_MaxConnections p \<le> 0 then defaultMaxConnections else cp_MaxConnections p) MaxConnectionsUpper"

definition params_ok :: "int \<Rightarrow> int \<Rightarrow> thread_params \<Rightarrow> bool" where
  "params_ok cap fileSize t \<longleftrightarrow> 1 \<le> tp_Split t \<and> tp_Split t \<le> cap \<and> (tp_IsExploration t \<longrightarrow> tp_Split t \<le> 8) \<and>
     (if fileSize > 0 then minChunkSize \<le> tp_MinSize t \<and> tp_MinSize t \<le> maxChunkSize else tp_MinSize t = 0) \<and>
     0 \<le> tp_Target t \<and> tp_Target t \<le> max_i64 \<and> 0 \<le> tp_NSat t"

lemma legacy_ok:
  assumes "1 \<le> maxConn" and "0 < fileSize"
  shows "params_ok maxConn fileSize (calculateLegacy env fileSize maxConn d s e tm)"
proof -
  let ?n = "explore_cap (\<not> HasDomainScopeEnvRecord (ce_now env) (ce_records env) d s e) maxConn
    (clampToConn (ceilDivPositive fileSize (saturatingMulPositive (max (2 * 1024 * 1024) minThreadEfficiency) tm)) 1 maxConn)"
  have "1 \<le> ?n \<and> ?n \<le> maxConn \<and> (\<not> HasDomainScopeEnvRecord (ce_now env) (ce_records env) d s e \<longrightarrow> ?n \<le> 8)"
    by (rule explore_cap_range) (use clamp_range[of 1 maxConn] assms(1) in simp_all)
  then show ?thesis using assms saturating_mul_range
    by (simp add: calculateLegacy_def params_ok_def Let_def intFromNonNegative_def minChunkSize_def maxChunkSize_def max_i64_def)
qed

lemma cap_range: "1 \<le> connection_cap p \<and> connection_cap p \<le> 256"
  by (auto simp: connection_cap_def defaultMaxConnections_def MaxConnectionsUpper_def)

lemma calculate_ok: "params_ok (connection_cap p) (cp_FileSize p) (Calculate env p)"
proof -
  define x where "x = (\<not> HasDomainScopeEnvRecord (ce_now env) (ce_records env) (cp_Domain p) (cp_Scope p) (cp_EnvKey p))"
  have c: "(if (if cp_MaxConnections p \<le> 0 then defaultMaxConnections else cp_MaxConnections p) > MaxConnectionsUpper
      then MaxConnectionsUpper else (if cp_MaxConnections p \<le> 0 then defaultMaxConnections else cp_MaxConnections p))
      = connection_cap p" by (simp add: connection_cap_def min_def)
  note r = cap_range[of p]
  have n: "1 \<le> explore_cap x (connection_cap p) (clampToConn n low (connection_cap p)) \<and>
      explore_cap x (connection_cap p) (clampToConn n low (connection_cap p)) \<le> connection_cap p \<and>
      (x \<longrightarrow> explore_cap x (connection_cap p) (clampToConn n low (connection_cap p)) \<le> 8)" if "1 \<le> low" for n low
    using explore_cap_range clamp_range[OF that] r by blast
  have m: "1 \<le> explore_cap x (connection_cap p) (connection_cap p) \<and>
      explore_cap x (connection_cap p) (connection_cap p) \<le> connection_cap p \<and>
      (x \<longrightarrow> explore_cap x (connection_cap p) (connection_cap p) \<le> 8)" using explore_cap_range r by blast
  have cold: "params_ok (connection_cap p) (cp_FileSize p) (if cp_FileSize p \<le> 0
      then \<lparr>tp_Split = explore_cap x (connection_cap p) (connection_cap p), tp_MinSize = 0, tp_IsExploration = x, tp_Target = 0,
            tp_NSat = connection_cap p\<rparr>
      else calculateLegacy env (cp_FileSize p) (connection_cap p) (cp_Domain p) (cp_Scope p) (cp_EnvKey p) tm)" for tm
    using legacy_ok[of "connection_cap p" "cp_FileSize p"] r m by (simp add: params_ok_def max_i64_def)
  have hot: "params_ok (connection_cap p) (cp_FileSize p)
      \<lparr>tp_Split = explore_cap x (connection_cap p) (clampToConn n0 low (connection_cap p)),
       tp_MinSize = (if cp_FileSize p > 0
          then min_chunk_for eff (cp_FileSize p) (explore_cap x (connection_cap p) (clampToConn n0 low (connection_cap p))) else 0),
       tp_IsExploration = x,
       tp_Target = saturatingMulPositive eff (explore_cap x (connection_cap p) (clampToConn n0 low (connection_cap p))),
       tp_NSat = intFromNonNegative ns\<rparr>" if "1 \<le> low" for n0 low eff ns
    using n[OF that, of n0] saturating_mul_range min_chunk_range by (simp add: params_ok_def intFromNonNegative_def max_i64_def)
  show ?thesis
  proof (cases "threadEfficiency env (cp_Domain p) (cp_Scope p) (cp_EnvKey p)")
    case None
    show ?thesis unfolding Calculate_def c Let_def x_def[symmetric] None prod.case option.case by (rule cold)
  next
    case (Some e)
    note e = Some
    show ?thesis
    proof (cases "GetGlobalPeak (ce_now env) (ce_records env) (cp_Scope p) (cp_EnvKey p)")
      case None
      show ?thesis unfolding Calculate_def c Let_def x_def[symmetric] e None prod.case option.case by (rule cold)
    next
      case (Some g)
      show ?thesis unfolding Calculate_def c Let_def x_def[symmetric] e Some prod.case option.case by (rule hot) simp
    qed
  qed
qed

text \<open>C33: The computed thread parameters are always usable: between one thread and the capped connection limit, at most
  eight on an unknown domain, a minimal chunk between 1 MiB and 1 GiB for a known size (zero for an unknown one), and a
  bandwidth target that does not overflow.\<close>

theorem calculate_bounds:
  "1 \<le> tp_Split (Calculate env p) \<and> tp_Split (Calculate env p) \<le> min (if cp_MaxConnections p \<le> 0 then 16 else cp_MaxConnections p) 256 \<and>
   (tp_IsExploration (Calculate env p) \<longrightarrow> tp_Split (Calculate env p) \<le> 8) \<and>
   (if cp_FileSize p > 0 then 2 ^ 20 \<le> tp_MinSize (Calculate env p) \<and> tp_MinSize (Calculate env p) \<le> 2 ^ 30
    else tp_MinSize (Calculate env p) = 0) \<and>
   0 \<le> tp_Target (Calculate env p) \<and> tp_Target (Calculate env p) \<le> max_i64"
  using calculate_ok[of p env]
  by (auto simp: params_ok_def connection_cap_def defaultMaxConnections_def MaxConnectionsUpper_def minChunkSize_def
      maxChunkSize_def)

section \<open>The server's limit\<close>

text \<open>The limit a server showed is respected: the clamp never raises the thread count, keeps the domain within the
  limit unless a single thread already exceeds it, forgets a limit after a day, and leaves everything else alone.\<close>

theorem server_limit_respected:
  assumes "st (limitKey scope domain) = Some \<lparr>sl_NMax = nMax, sl_DetectedAt = seen\<rparr>" and "scope \<noteq> []" and "domain \<noteq> []"
    and "0 < nMax" and "nMax \<le> max_i64" and "0 \<le> existing" and "existing \<le> max_i64" and "1 \<le> tp_Split t"
    and "t1 = ClampToServerLimit now t fileSize scope domain existing (Some st)"
  shows "tp_Split t1 \<le> tp_Split t \<and> 1 \<le> tp_Split t1 \<and>
    (time_sub now seen \<le> serverLimitTTL \<longrightarrow> existing + tp_Split t1 \<le> nMax \<or> tp_Split t1 = 1) \<and>
    (serverLimitTTL < time_sub now seen \<longrightarrow> t1 = t) \<and>
    (minChunkSize \<le> tp_MinSize t \<longrightarrow> minChunkSize \<le> tp_MinSize t1 \<and> tp_MinSize t1 \<le> tp_MinSize t)"
proof -
  have s: "sub64 nMax existing = nMax - existing"
    using assms(4-7) by (intro wrap64_id) (auto simp: in_i64_def min_i64_def max_i64_def)
  show ?thesis unfolding assms(9) using assms(1-8)
    by (auto simp: ClampToServerLimit_def GetNMax_def Let_def s)
qed

section \<open>The gate\<close>

lemma saturating_positive: "1 \<le> a \<Longrightarrow> 1 \<le> b \<Longrightarrow> 1 \<le> saturatingMulPositive a b"
proof -
  assume h: "1 \<le> a" "1 \<le> b"
  then have "1 \<le> a * b" by (metis mult_mono' mult_1 zero_le_one)
  then show ?thesis using h by (simp add: saturatingMulPositive_def max_i64_def)
qed

lemma tighten_ok:
  assumes "1 \<le> tp_Split u" and "1 \<le> conns"
  shows "1 \<le> tp_Split (tighten u conns s) \<and> tp_Split (tighten u conns s) \<le> tp_Split u \<and> tp_Split (tighten u conns s) \<le> conns \<and>
    (0 \<le> tp_MinSize u \<longrightarrow> 0 \<le> tp_MinSize (tighten u conns s) \<and> tp_MinSize (tighten u conns s) \<le> tp_MinSize u)"
  using assms by (auto simp: tighten_def)

definition worker_room :: "admission_params \<Rightarrow> int" where
  "worker_room p = ap_WorkerHeadroom p - ReservedWorkers (cp_Ledger (ap_Calc p)) (cp_Scope (ap_Calc p)) (cp_Domain (ap_Calc p))"

lemma blocked_cases:
  "blocked_by res = 0 \<longleftrightarrow> \<not> short_of (re_scope res) (re_efficiency res) \<and> \<not> short_of (re_domain res) (re_efficiency res) \<and>
     \<not> short_of (re_physical res) (re_efficiency res)"
  "blocked_by res AND NOT (BlockScope OR BlockPhysical) = 0 \<longleftrightarrow> \<not> short_of (re_domain res) (re_efficiency res)"
  by (auto simp: blocked_by_def BlockScope_def BlockDomain_def BlockPhysical_def)

definition within_limits :: "calc_env \<Rightarrow> admission_params \<Rightarrow> admission_decision \<Rightarrow> bool" where
  "within_limits env p d \<longleftrightarrow>
     (let res = admissionResourcesFor env (ap_Calc p); t = ad_Params d in
      1 \<le> tp_Split t \<and> 0 < ap_SlotHeadroom p \<and> tp_Split t \<le> tp_Split (ap_Upper p) \<and> tp_Split (ap_Upper p) \<le> 256 \<and>
      0 \<le> tp_MinSize t \<and> tp_MinSize t \<le> tp_MinSize (ap_Upper p) \<and> 0 \<le> tp_Target t \<and>
      (ap_Smart p \<longrightarrow>
         tp_Split t \<le> worker_room p \<and> \<not> short_of (re_domain res) (re_efficiency res) \<and>
         (re_scope res = None \<longrightarrow> ap_ScopeEnvCommitted p < 5) \<and>
         (re_exploration res \<longrightarrow> ap_DomainCommitted p < 5 \<and> (ap_RecordEligible p \<longrightarrow> ap_Measuring p = 0)) \<and>
         (if ad_Short d
          then tp_Split t = 1 \<and> ap_ShortAvailable p \<and> ap_SizeKnown p \<and>
               cp_FileSize (ap_Calc p) \<le> saturatingMulPositive (re_efficiency res) 15
          else \<not> short_of (re_scope res) (re_efficiency res) \<and> \<not> short_of (re_physical res) (re_efficiency res))))"

lemma efficiency_min: "minThreadEfficiency \<le> re_efficiency (admissionResourcesFor env c)"
  by (simp add: admissionResourcesFor_def split: option.splits)

lemma room_exact:
  assumes "ledger_range l" and "cp_Ledger (ap_Calc p) = Some l" and "0 \<le> ap_WorkerHeadroom p" and "ap_WorkerHeadroom p \<le> max_i64"
  shows "sub64 (ap_WorkerHeadroom p)
      (ReservedWorkers (cp_Ledger (ap_Calc p)) (cp_Scope (ap_Calc p)) (cp_Domain (ap_Calc p))) = worker_room p"
proof -
  have "range63 (ReservedWorkers (cp_Ledger (ap_Calc p)) (cp_Scope (ap_Calc p)) (cp_Domain (ap_Calc p)))"
    using ledger_reads[OF assms(1)] by (simp add: ReservedWorkers_def assms(2)) (simp add: range63_def max_i64_def)
  then show ?thesis unfolding worker_room_def using assms(3,4)
    by (intro wrap64_id) (auto simp: range63_def in_i64_def min_i64_def max_i64_def)
qed

definition smart_decision :: "admission_params \<Rightarrow> admission_resources \<Rightarrow> thread_params \<Rightarrow> admission_decision" where
  "smart_decision p res s =
     (if re_scope res = None \<and> ap_ScopeEnvCommitted p \<ge> 5 then refuse BlockScope
      else if re_exploration res \<and> ap_DomainCommitted p \<ge> 5 then refuse BlockDomain
      else if re_exploration res \<and> ap_RecordEligible p \<and> ap_Measuring p \<ge> 1 then refuse BlockDomain
      else if max (worker_room p) 0 = 0 then refuse BlockDomain
      else if blocked_by res = 0 then allow (s\<lparr>tp_Target := saturatingMulPositive (re_efficiency res) (tp_Split s)\<rparr>)
      else if short_of (re_domain res) (re_efficiency res) then refuse (blocked_by res)
      else if \<not> ap_ShortAvailable p \<or> \<not> ap_SizeKnown p \<or> cp_FileSize (ap_Calc p) < 0 then refuse (blocked_by res)
      else if cp_FileSize (ap_Calc p) > saturatingMulPositive (re_efficiency res) 15 then refuse (blocked_by res)
      else \<lparr>ad_Allowed = True, ad_Blocked = blocked_by res,
             ad_Params = \<lparr>tp_Split = 1, tp_MinSize = tp_MinSize s, tp_IsExploration = re_exploration res,
                          tp_Target = re_efficiency res, tp_NSat = 1\<rparr>,
             ad_Short = True\<rparr>)"

lemma settled_if:
  "(c \<Longrightarrow> ad_Allowed d \<or> (\<exists>b. d = refuse b)) \<Longrightarrow> (\<not> c \<Longrightarrow> ad_Allowed e \<or> (\<exists>b. e = refuse b)) \<Longrightarrow>
   ad_Allowed (if c then d else e) \<or> (\<exists>b. (if c then d else e) = refuse b)"
  by simp

lemma settled_simps:
  "ad_Allowed (refuse b) \<or> (\<exists>c. refuse b = refuse c)" "ad_Allowed (allow t) \<or> (\<exists>c. allow t = refuse c)"
  "ad_Allowed \<lparr>ad_Allowed = True, ad_Blocked = b, ad_Params = t, ad_Short = x\<rparr> \<or>
   (\<exists>c. \<lparr>ad_Allowed = True, ad_Blocked = b, ad_Params = t, ad_Short = x\<rparr> = refuse c)"
  by (auto simp: allow_def)

lemma smart_decision_refused: "ad_Allowed (smart_decision p res s) \<or> (\<exists>b. smart_decision p res s = refuse b)"
  unfolding smart_decision_def by (intro settled_if) (rule settled_simps)+

lemma refuse_not_allowed: "\<not> ad_Allowed (refuse b)"
  by (simp add: refuse_def)

lemma smart_decision_allowed:
  assumes "ad_Allowed (smart_decision p res s)"
  shows "(re_scope res = None \<longrightarrow> ap_ScopeEnvCommitted p < 5) \<and> (re_exploration res \<longrightarrow> ap_DomainCommitted p < 5) \<and>
    (re_exploration res \<longrightarrow> ap_RecordEligible p \<longrightarrow> ap_Measuring p < 1) \<and> max (worker_room p) 0 \<noteq> 0 \<and>
    \<not> short_of (re_domain res) (re_efficiency res) \<and>
    (blocked_by res = 0 \<and> smart_decision p res s = allow (s\<lparr>tp_Target := saturatingMulPositive (re_efficiency res) (tp_Split s)\<rparr>) \<or>
     blocked_by res \<noteq> 0 \<and> ap_ShortAvailable p \<and> ap_SizeKnown p \<and>
     cp_FileSize (ap_Calc p) \<le> saturatingMulPositive (re_efficiency res) 15 \<and>
     smart_decision p res s = \<lparr>ad_Allowed = True, ad_Blocked = blocked_by res,
             ad_Params = \<lparr>tp_Split = 1, tp_MinSize = tp_MinSize s, tp_IsExploration = re_exploration res,
                          tp_Target = re_efficiency res, tp_NSat = 1\<rparr>,
             ad_Short = True\<rparr>)"
proof -
  have n1: "\<not> (re_scope res = None \<and> ap_ScopeEnvCommitted p \<ge> 5)"
    using assms by (rule contrapos_pn) (simp only: smart_decision_def if_True simp_thms refuse_not_allowed)
  have n2: "\<not> (re_exploration res \<and> ap_DomainCommitted p \<ge> 5)"
    using assms by (rule contrapos_pn) (simp only: smart_decision_def n1 if_True if_False simp_thms refuse_not_allowed)
  have n3: "(re_exploration res \<and> ap_RecordEligible p \<and> ap_Measuring p \<ge> 1) = False"
  proof (rule ccontr)
    assume "(re_exploration res \<and> ap_RecordEligible p \<and> ap_Measuring p \<ge> 1) \<noteq> False"
    then have m: "(re_exploration res \<and> ap_RecordEligible p \<and> ap_Measuring p \<ge> 1) = True" by blast
    have "smart_decision p res s = refuse BlockDomain" unfolding smart_decision_def if_not_P[OF n1] if_not_P[OF n2] m if_True ..
    then show False using assms by (simp add: refuse_not_allowed)
  qed
  have n4: "\<not> max (worker_room p) 0 = 0"
    using assms by (rule contrapos_pn) (simp only: smart_decision_def n1 n2 n3 if_True if_False refuse_not_allowed simp_thms)
  note n = n1 n2 n3 n4
  have k: "re_scope res = None \<longrightarrow> ap_ScopeEnvCommitted p < 5" "re_exploration res \<longrightarrow> ap_DomainCommitted p < 5"
    "re_exploration res \<longrightarrow> ap_RecordEligible p \<longrightarrow> ap_Measuring p < 1"
    using n1 n2 n3 by (metis not_le)+
  show ?thesis
  proof (cases "blocked_by res = 0")
    case True
    then have "smart_decision p res s = allow (s\<lparr>tp_Target := saturatingMulPositive (re_efficiency res) (tp_Split s)\<rparr>)"
      by (simp only: smart_decision_def n if_True if_False simp_thms)
    moreover have "\<not> short_of (re_domain res) (re_efficiency res)" using True by (simp add: blocked_cases)
    ultimately show ?thesis using k n4 True by blast
  next
    case False
    have m1: "\<not> short_of (re_domain res) (re_efficiency res)"
      using assms by (rule contrapos_pn) (simp only: smart_decision_def n False if_True if_False refuse_not_allowed simp_thms if_cancel)
    have m2: "\<not> (\<not> ap_ShortAvailable p \<or> \<not> ap_SizeKnown p \<or> cp_FileSize (ap_Calc p) < 0)"
      using assms by (rule contrapos_pn) (simp only: smart_decision_def n False m1 if_True if_False refuse_not_allowed simp_thms)
    have m3: "\<not> cp_FileSize (ap_Calc p) > saturatingMulPositive (re_efficiency res) 15"
      using assms by (rule contrapos_pn) (simp only: smart_decision_def n False m1 m2 if_True if_False refuse_not_allowed simp_thms)
    have "smart_decision p res s = \<lparr>ad_Allowed = True, ad_Blocked = blocked_by res,
             ad_Params = \<lparr>tp_Split = 1, tp_MinSize = tp_MinSize s, tp_IsExploration = re_exploration res,
                          tp_Target = re_efficiency res, tp_NSat = 1\<rparr>,
             ad_Short = True\<rparr>"
      by (simp only: smart_decision_def n False m1 m2 m3 if_False)
    then show ?thesis using k n4 m1 m2 m3[unfolded not_less] False by blast
  qed
qed

lemma smart_evaluate:
  assumes v: "valid_input p" and h: "ap_SlotHeadroom p \<noteq> 0" and sm: "ap_Smart p" and rd: "smart_ready (ap_Calc p)"
    and l: "ledger_range l" "cp_Ledger (ap_Calc p) = Some l" and w: "0 \<le> ap_WorkerHeadroom p" "ap_WorkerHeadroom p \<le> max_i64"
    and res_def: "res = admissionResourcesFor env (ap_Calc p)"
  shows "EvaluateAdmission env p =
    smart_decision p res (tighten (ap_Upper p) (max (worker_room p) 0) (suggest_params env p (re_exploration res)))"
proof -
  have k: "\<not> \<not> valid_input p" "\<not> \<not> ap_Smart p" "\<not> \<not> smart_ready (ap_Calc p)" using v sm rd by simp_all
  have c: "admissionColdScopeLimit = 5" "admissionExplorationDomainLimit = 5" "progressLeaseTTL div second = 15"
    by (simp_all add: admissionColdScopeLimit_def admissionExplorationDomainLimit_def progressLeaseTTL_def second_def)
  have neq: "(blocked_by res AND NOT (BlockScope OR BlockPhysical) \<noteq> 0) = short_of (re_domain res) (re_efficiency res)"
    unfolding blocked_cases(2) by simp
  show ?thesis
    unfolding EvaluateAdmission_def smart_decision_def Let_def res_def[symmetric] room_exact[OF l w] c neq
    by (simp only: k h if_False)
qed

lemma smart_within:
  assumes v: "valid_input p" and h: "ap_SlotHeadroom p \<noteq> 0" and sm: "ap_Smart p" and rd: "smart_ready (ap_Calc p)"
    and l: "ledger_range l" "cp_Ledger (ap_Calc p) = Some l" and w: "ap_WorkerHeadroom p \<le> max_i64"
    and a: "ad_Allowed (EvaluateAdmission env p)"
  shows "within_limits env p (EvaluateAdmission env p)"
proof -
  define res where "res = admissionResourcesFor env (ap_Calc p)"
  define s where "s = tighten (ap_Upper p) (max (worker_room p) 0) (suggest_params env p (re_exploration res))"
  have vs: "0 < ap_SlotHeadroom p" "1 \<le> tp_Split (ap_Upper p)" "tp_Split (ap_Upper p) \<le> 256" "0 \<le> tp_MinSize (ap_Upper p)"
    "0 \<le> ap_WorkerHeadroom p" "0 \<le> ap_Measuring p"
    using v h sm by (auto simp: valid_input_def MaxConnectionsUpper_def)
  have e: "EvaluateAdmission env p = smart_decision p res s"
    unfolding s_def res_def by (rule smart_evaluate[OF v h sm rd l vs(5) w refl])
  note al = smart_decision_allowed[OF a[unfolded e]]
  have room: "1 \<le> max (worker_room p) 0" using al by linarith
  note t = tighten_ok[OF vs(2) room, of "suggest_params env p (re_exploration res)", folded s_def]
  have eff: "0 \<le> re_efficiency res" using efficiency_min[of env "ap_Calc p"] by (simp add: res_def minThreadEfficiency_def)
  show ?thesis
  proof (cases "blocked_by res = 0")
    case True
    then have d: "smart_decision p res s = allow (s\<lparr>tp_Target := saturatingMulPositive (re_efficiency res) (tp_Split s)\<rparr>)"
      using al by blast
    have "tp_Split s \<le> worker_room p" "re_exploration res \<longrightarrow> ap_RecordEligible p \<longrightarrow> ap_Measuring p = 0"
      using t room al vs(6) by auto
    then show ?thesis using t vs al True saturating_mul_range[of "re_efficiency res" "tp_Split s"]
      unfolding within_limits_def e d res_def[symmetric] Let_def by (simp add: allow_def blocked_cases sm)
  next
    case False
    then have d: "smart_decision p res s = \<lparr>ad_Allowed = True, ad_Blocked = blocked_by res,
              ad_Params = \<lparr>tp_Split = 1, tp_MinSize = tp_MinSize s, tp_IsExploration = re_exploration res,
                           tp_Target = re_efficiency res, tp_NSat = 1\<rparr>,
              ad_Short = True\<rparr>"
      and k: "ap_ShortAvailable p" "ap_SizeKnown p" "cp_FileSize (ap_Calc p) \<le> saturatingMulPositive (re_efficiency res) 15"
      using al by blast+
    have "1 \<le> worker_room p" "re_exploration res \<longrightarrow> ap_RecordEligible p \<longrightarrow> ap_Measuring p = 0"
      using room al vs(6) by auto
    then show ?thesis using t vs al eff k
      unfolding within_limits_def e d res_def[symmetric] Let_def by (simp add: sm)
  qed
qed

lemma evaluate_gate:
  assumes "ad_Allowed (EvaluateAdmission env p)"
  shows "valid_input p" and "ap_SlotHeadroom p \<noteq> 0" and "ap_Smart p \<Longrightarrow> smart_ready (ap_Calc p)"
proof -
  show v: "valid_input p" using assms by (rule contrapos_pp) (simp only: EvaluateAdmission_def if_True simp_thms refuse_not_allowed)
  show h: "ap_SlotHeadroom p \<noteq> 0"
    using assms by (rule contrapos_pn) (simp only: EvaluateAdmission_def v if_True if_False simp_thms refuse_not_allowed)
  show "smart_ready (ap_Calc p)" if "ap_Smart p"
    using assms by (rule contrapos_pp) (simp only: EvaluateAdmission_def v h that if_True if_False simp_thms refuse_not_allowed)
qed

lemma evaluate_plain:
  "valid_input p \<Longrightarrow> ap_SlotHeadroom p \<noteq> 0 \<Longrightarrow> \<not> ap_Smart p \<Longrightarrow> EvaluateAdmission env p = allow (ap_Upper p)"
  by (simp only: EvaluateAdmission_def if_True if_False simp_thms)

lemma evaluate_refused:
  assumes "cp_Ledger (ap_Calc p) = Some l" and "ledger_range l" and "ap_WorkerHeadroom p \<le> max_i64"
    and "\<not> ad_Allowed (EvaluateAdmission env p)"
  shows "\<exists>b. EvaluateAdmission env p = refuse b"
proof (cases "valid_input p \<and> ap_SlotHeadroom p \<noteq> 0 \<and> ap_Smart p \<and> smart_ready (ap_Calc p)")
  case True
  then have g: "valid_input p" "ap_SlotHeadroom p \<noteq> 0" "ap_Smart p" "smart_ready (ap_Calc p)" by simp_all
  have "0 \<le> ap_WorkerHeadroom p" using g by (simp add: valid_input_def)
  from smart_evaluate[OF g assms(2,1) this assms(3) refl, of env] assms(4) smart_decision_refused show ?thesis by metis
next
  case False
  show ?thesis
  proof (cases "valid_input p \<and> ap_SlotHeadroom p \<noteq> 0")
    case True
    then have "ap_Smart p" using assms(4) evaluate_plain[of p env] by (cases "ap_Smart p") (simp_all add: allow_def)
    then have "\<not> smart_ready (ap_Calc p)" using False True by blast
    then show ?thesis using True \<open>ap_Smart p\<close> by (simp only: EvaluateAdmission_def if_True if_False simp_thms) blast
  next
    case False
    then show ?thesis by (cases "valid_input p") (simp_all only: EvaluateAdmission_def if_True if_False simp_thms, blast+)
  qed
qed

text \<open>C32: The admission gate never oversubscribes: what it admits stays within the slot budget, the caller's ceiling, the
  connections left for the domain after this round's reservations, and the measured headroom of the domain, and of scope and
  network card too unless the candidate is a short download of one thread; cold scopes and unknown domains admit at
  most five, one measuring at a time. What it refuses carries no parameters.\<close>

theorem admission_within_limits:
  assumes "cp_Ledger (ap_Calc p) = Some l" and "ledger_range l" and "ap_WorkerHeadroom p \<le> max_i64"
  shows "if ad_Allowed (EvaluateAdmission env p) then within_limits env p (EvaluateAdmission env p)
    else ad_Params (EvaluateAdmission env p) = zero_params \<and> \<not> ad_Short (EvaluateAdmission env p)"
proof (cases "ad_Allowed (EvaluateAdmission env p)")
  case True
  note g = evaluate_gate[OF True]
  show ?thesis
  proof (cases "ap_Smart p")
    case sm: True
    then show ?thesis using smart_within[OF g(1,2) sm g(3)[OF sm] assms(2,1,3) True] True by simp
  next
    case False
    have "1 \<le> tp_Split (ap_Upper p)" "0 < ap_SlotHeadroom p" "tp_Split (ap_Upper p) \<le> 256" "0 \<le> tp_MinSize (ap_Upper p)"
      "0 \<le> tp_Target (ap_Upper p)" using g(1,2) by (auto simp: valid_input_def MaxConnectionsUpper_def)
    then show ?thesis using False
      unfolding evaluate_plain[OF g(1,2) False] within_limits_def Let_def by (simp add: allow_def)
  qed
next
  case False
  then obtain b where "EvaluateAdmission env p = refuse b" using evaluate_refused[OF assms] by blast
  then show ?thesis using False by (simp add: refuse_def)
qed

section \<open>Concrete inputs\<close>

definition demo_record :: speed_record where
  "demo_record = \<lparr>sr_Timestamp = 1000, sr_PeakSpeed = 4000000, sr_ThreadCount = 4, sr_FileSize = 50000000,
     sr_IsExploration = False, sr_TTFBMs = 40, sr_Domain = ''a.org'', sr_Scope = ''wan'', sr_EnvKey = ''e1''\<rparr>"

definition demo_calc_env :: calc_env where
  "demo_calc_env = \<lparr>ce_now = 2000, ce_records = [demo_record], ce_configLife = 0, ce_legacySplit = (\<lambda>f n. f div n)\<rparr>"

definition demo_calc :: calc_params where
  "demo_calc = \<lparr>cp_FileSize = 100000000, cp_MaxConnections = 16, cp_Scope = ''wan'', cp_Domain = ''a.org'', cp_EnvKey = ''e1'',
     cp_ReservedBandwidth = 0, cp_ReservedDomainBandwidth = 0, cp_Ledger = Some empty_ledger, cp_ActiveMACs = Some [],
     cp_ComputeEnvKey = Some (\<lambda>d m. d @ m), cp_MinThreadLife = 5\<rparr>"

definition demo_admission :: admission_params where
  "demo_admission = \<lparr>ap_Calc = demo_calc,
     ap_Upper = \<lparr>tp_Split = 12, tp_MinSize = 2000000, tp_IsExploration = False, tp_Target = 0, tp_NSat = 0\<rparr>,
     ap_Smart = True, ap_SizeKnown = True, ap_ShortAvailable = False, ap_SlotHeadroom = 3, ap_ScopeEnvCommitted = 0,
     ap_DomainCommitted = 1, ap_WorkerHeadroom = 3, ap_Measuring = 0, ap_RecordEligible = True\<rparr>"

theorem calculate_bounds_witness:
  "tp_Split (Calculate demo_calc_env demo_calc) = 5 \<and> tp_Split (Calculate demo_calc_env demo_calc) \<le> 16 \<and>
   tp_MinSize (Calculate demo_calc_env demo_calc) \<le> 2 ^ 30"
proof -
  have "tp_Split (Calculate demo_calc_env demo_calc) = 5" by code_simp
  moreover have "cp_MaxConnections demo_calc = 16" "cp_FileSize demo_calc = 100000000" by (simp_all add: demo_calc_def)
  moreover note calculate_bounds[of demo_calc_env demo_calc]
  ultimately show ?thesis by simp
qed

theorem server_limit_respected_witness:
  "tp_Split (ClampToServerLimit (5 * second) (Calculate demo_calc_env demo_calc) 100000000 ''wan'' ''a.org'' 3
     (Some [limitKey ''wan'' ''a.org'' \<mapsto> \<lparr>sl_NMax = 5, sl_DetectedAt = 0\<rparr>])) \<le> 2"
proof -
  have p: "(0::int) < 5" "(5::int) \<le> max_i64" "(0::int) \<le> 3" "(3::int) \<le> max_i64" by (simp_all add: max_i64_def)
  have one: "1 \<le> tp_Split (Calculate demo_calc_env demo_calc)" by code_simp
  have t: "time_sub (5 * second) 0 \<le> serverLimitTTL" by code_simp
  have m: "[limitKey ''wan'' ''a.org'' \<mapsto> \<lparr>sl_NMax = 5, sl_DetectedAt = 0\<rparr>] (limitKey ''wan'' ''a.org'') =
    Some \<lparr>sl_NMax = 5, sl_DetectedAt = 0\<rparr>" by simp
  have "''wan'' \<noteq> []" "''a.org'' \<noteq> []" by simp_all
  note server_limit_respected[where st = "[limitKey ''wan'' ''a.org'' \<mapsto> \<lparr>sl_NMax = 5, sl_DetectedAt = 0\<rparr>]"
      and now = "5 * second" and fileSize = 100000000, OF m this p one refl]
  then show ?thesis using t by auto
qed

theorem admission_within_limits_witness:
  "ad_Allowed (EvaluateAdmission demo_calc_env demo_admission) \<and>
   tp_Split (ad_Params (EvaluateAdmission demo_calc_env demo_admission)) \<le> 3"
proof -
  have a: "ad_Allowed (EvaluateAdmission demo_calc_env demo_admission)" by code_simp
  have l: "cp_Ledger (ap_Calc demo_admission) = Some empty_ledger" "ledger_range empty_ledger"
    "ap_WorkerHeadroom demo_admission \<le> max_i64" "ap_Smart demo_admission" "worker_room demo_admission = 3"
    using empty_range by (simp_all add: demo_admission_def demo_calc_def max_i64_def worker_room_def ReservedWorkers_def)
      (simp add: empty_ledger_def)
  from admission_within_limits[OF l(1-3), of demo_calc_env] have "within_limits demo_calc_env demo_admission (EvaluateAdmission demo_calc_env demo_admission)"
    using a by simp
  then have "tp_Split (ad_Params (EvaluateAdmission demo_calc_env demo_admission)) \<le> worker_room demo_admission"
    unfolding within_limits_def Let_def using l(4) by blast
  then show ?thesis using a l(5) by simp
qed

end
