(* ===== verification/TaskTracker.thy ===== *)
theory TaskTracker
  imports SmartAdmission
begin

text \<open>
The task tracker (internal/monitor/tracker.go, tracker_occupancy.go): its rows with every field but the download group, the
  lifecycle tokens, and one function per method. Each method holds the tracker's mutex, so it is one step; the clock, the
  engine's answer to a poll (its decimal strings already numbers) and the floating-point comparisons are arguments.
\<close>

section \<open>Rows\<close>

text \<open>
  A tracked task without its download group. Numbers that arrive as decimal strings arrive here as numbers;
  clock values are nanoseconds.
\<close>

record task_row =
  tk_GID :: string
  tk_Status :: string
  tk_TotalLength :: int
  tk_CompletedLength :: int
  tk_CreatedAt :: int
  tk_PeakSpeed :: int
  tk_SustainedSpeed :: int
  tk_SustainedCount :: int
  tk_PeakThreadCount :: int
  tk_BestEff :: int
  tk_ThreadCount :: int
  tk_IsExploration :: bool
  tk_LiveConnections :: int
  tk_FilePath :: string
  tk_Dir :: string
  tk_SourceURL :: string
  tk_Scope :: string
  tk_TTFBMs :: int
  tk_Domain :: string
  tk_CurrentEnvKey :: string
  tk_PeakEnvKey :: string
  tk_IsKeepAlive :: bool
  tk_MinChunk :: int
  tk_TargetBandwidth :: int
  tk_AllocatedAt :: int
  tk_AddedAt :: int
  tk_ActivatedAt :: int
  tk_FirstProgressAt :: int
  tk_progressBaseline :: int
  tk_progressBaselineKnown :: bool
  tk_compatClaim :: compat_kind
  tk_addAnchorAt :: int
  tk_admitted :: bool
  tk_admissionToken :: nat
  tk_activeElapsed :: int
  tk_lastActiveAt :: int
  tk_maxActiveGap :: int
  tk_terminalElapsed :: int
  tk_peakFromAvgFallback :: bool
  tk_terminalToken :: nat

definition new_row :: "string \<Rightarrow> int \<Rightarrow> task_row" where
  "new_row gid now =
     \<lparr>tk_GID = gid, tk_Status = [], tk_TotalLength = 0, tk_CompletedLength = 0, tk_CreatedAt = now, tk_PeakSpeed = 0,
      tk_SustainedSpeed = 0, tk_SustainedCount = 0, tk_PeakThreadCount = 0, tk_BestEff = 0, tk_ThreadCount = 0,
      tk_IsExploration = False, tk_LiveConnections = 0, tk_FilePath = [], tk_Dir = [], tk_SourceURL = [], tk_Scope = [],
      tk_TTFBMs = 0, tk_Domain = [], tk_CurrentEnvKey = [], tk_PeakEnvKey = [], tk_IsKeepAlive = False, tk_MinChunk = 0,
      tk_TargetBandwidth = 0, tk_AllocatedAt = zero_time, tk_AddedAt = zero_time, tk_ActivatedAt = zero_time,
      tk_FirstProgressAt = zero_time, tk_progressBaseline = 0, tk_progressBaselineKnown = False,
      tk_compatClaim = CompatNone, tk_addAnchorAt = zero_time, tk_admitted = False, tk_admissionToken = 0,
      tk_activeElapsed = 0, tk_lastActiveAt = zero_time, tk_maxActiveGap = 0, tk_terminalElapsed = 0,
      tk_peakFromAvgFallback = False, tk_terminalToken = 0\<rparr>"

record life_state =
  ls_token :: nat
  ls_handled :: bool

record tracker =
  tr_tasks :: "string \<rightharpoonup> task_row"
  tr_processed :: "string \<Rightarrow> bool"
  tr_lifecycle :: "string \<rightharpoonup> life_state"
  tr_next :: nat

definition NewTaskTracker :: tracker where
  "NewTaskTracker = \<lparr>tr_tasks = Map.empty, tr_processed = (\<lambda>_. False), tr_lifecycle = Map.empty, tr_next = 0\<rparr>"

abbreviation put_row :: "string \<Rightarrow> task_row \<Rightarrow> tracker \<Rightarrow> tracker" where
  "put_row gid r t \<equiv> t\<lparr>tr_tasks := (tr_tasks t)(gid \<mapsto> r)\<rparr>"

section \<open>The lifecycle of a task identifier\<close>

definition getLifecycle :: "string \<Rightarrow> tracker \<Rightarrow> life_state \<times> tracker" where
  "getLifecycle gid t =
     (case tr_lifecycle t gid of
        Some ls \<Rightarrow> (ls, t)
      | None \<Rightarrow>
          let ls = \<lparr>ls_token = tr_next t + 1, ls_handled = False\<rparr>
          in (ls, t\<lparr>tr_next := tr_next t + 1, tr_lifecycle := (tr_lifecycle t)(gid \<mapsto> ls)\<rparr>))"

definition isTerminalAcceptedLocked :: "string \<Rightarrow> tracker \<Rightarrow> bool \<times> tracker" where
  "isTerminalAcceptedLocked gid t =
     (if \<not> tr_processed t gid then (False, t)
      else let (ls, t1) = getLifecycle gid t in (ls_handled ls, t1))"

definition markTerminalAcceptedLocked :: "string \<Rightarrow> tracker \<Rightarrow> tracker" where
  "markTerminalAcceptedLocked gid t =
     (let t1 = t\<lparr>tr_processed := (tr_processed t)(gid := True)\<rparr>; (ls, t2) = getLifecycle gid t1
      in t2\<lparr>tr_lifecycle := (tr_lifecycle t2)(gid \<mapsto> ls\<lparr>ls_handled := True\<rparr>)\<rparr>)"

definition stampTerminalCopyLocked :: "string \<Rightarrow> task_row \<Rightarrow> tracker \<Rightarrow> task_row \<times> tracker" where
  "stampTerminalCopyLocked gid r t = (let (ls, t1) = getLifecycle gid t in (r\<lparr>tk_terminalToken := ls_token ls\<rparr>, t1))"

text \<open>Accepting a terminal and stamping the copy that is handed out.\<close>

definition accept_copy :: "string \<Rightarrow> task_row \<Rightarrow> tracker \<Rightarrow> task_row \<times> tracker" where
  "accept_copy gid r t = stampTerminalCopyLocked gid r (markTerminalAcceptedLocked gid t)"

definition TerminalCopyCurrent :: "string \<Rightarrow> task_row \<Rightarrow> tracker \<Rightarrow> bool" where
  "TerminalCopyCurrent gid r t \<longleftrightarrow> tk_terminalToken r \<noteq> 0 \<and> tr_processed t gid \<and>
     (case tr_lifecycle t gid of None \<Rightarrow> False | Some ls \<Rightarrow> ls_token ls = tk_terminalToken r \<and> ls_handled ls)"

section \<open>The facts of one run of a task\<close>

definition observeActivationLocked :: "int \<Rightarrow> int \<Rightarrow> bool \<Rightarrow> task_row \<Rightarrow> task_row" where
  "observeActivationLocked now baseline known r =
     (let r1 = (if tk_ActivatedAt r = zero_time
                then r\<lparr>tk_ActivatedAt := now, tk_FirstProgressAt := zero_time, tk_progressBaseline := baseline,
                       tk_progressBaselineKnown := known, tk_compatClaim := CompatNone, tk_addAnchorAt := zero_time\<rparr>
                else if known \<and> \<not> tk_progressBaselineKnown r
                then r\<lparr>tk_progressBaseline := baseline, tk_progressBaselineKnown := True\<rparr>
                else r)
      in r1\<lparr>tk_admitted := False\<rparr>)"

definition observeCompletedLocked :: "int \<Rightarrow> int \<Rightarrow> task_row \<Rightarrow> task_row" where
  "observeCompletedLocked now completed r =
     (if tk_ActivatedAt r = zero_time then r
      else if \<not> tk_progressBaselineKnown r
      then r\<lparr>tk_progressBaseline := completed, tk_progressBaselineKnown := True\<rparr>
      else if completed > tk_progressBaseline r \<and> tk_FirstProgressAt r = zero_time
      then r\<lparr>tk_FirstProgressAt := now\<rparr>
      else r)"

definition clearActivationFactsLocked :: "task_row \<Rightarrow> task_row" where
  "clearActivationFactsLocked r =
     r\<lparr>tk_ActivatedAt := zero_time, tk_FirstProgressAt := zero_time, tk_progressBaseline := 0, tk_progressBaselineKnown := False\<rparr>"

definition drop_reservation :: "task_row \<Rightarrow> task_row" where
  "drop_reservation r = r\<lparr>tk_admitted := False, tk_TargetBandwidth := 0, tk_AllocatedAt := zero_time\<rparr>"

definition drop_claim :: "task_row \<Rightarrow> task_row" where
  "drop_claim r = r\<lparr>tk_compatClaim := CompatNone, tk_addAnchorAt := zero_time\<rparr>"

definition applyAuthoritativeStatusLocked :: "string \<Rightarrow> task_row \<Rightarrow> task_row" where
  "applyAuthoritativeStatusLocked st r0 =
     (let r = r0\<lparr>tk_Status := st\<rparr> in
      if st = ''complete'' \<or> st = ''error'' then
        (let r1 = drop_claim (clearActivationFactsLocked r) in if tk_admissionToken r1 > 0 then drop_reservation r1 else r1)
      else if st = ''active'' then r
      else if tk_admitted r \<and> st = ''waiting'' then r
      else
        let r1 = clearActivationFactsLocked (if tk_admitted r then drop_reservation r else r)
        in if is_surge (tk_GID r1) then r1 else drop_claim r1)"

section \<open>Speed samples\<close>

text \<open>The comparisons that are made in floating point are arguments, as is the presence of a window.\<close>

record sample_env =
  se_near :: "int \<Rightarrow> int \<Rightarrow> bool"
  se_hasWindow :: bool
  se_guard :: "int \<Rightarrow> int"
  se_raises :: "int \<Rightarrow> int \<Rightarrow> bool"
  se_keeps :: "int \<Rightarrow> int \<Rightarrow> bool"

definition recordMinFileSize :: int where
  "recordMinFileSize = 50 * 1024 * 1024"

definition acceptPeakSpeed :: "int \<Rightarrow> task_row \<Rightarrow> task_row" where
  "acceptPeakSpeed speed r =
     (let r1 = r\<lparr>tk_PeakSpeed := speed\<rparr> in if tk_CurrentEnvKey r1 \<noteq> [] then r1\<lparr>tk_PeakEnvKey := tk_CurrentEnvKey r1\<rparr> else r1)"

definition sampleSpeedInternal :: "sample_env \<Rightarrow> int \<Rightarrow> int \<Rightarrow> task_row \<Rightarrow> task_row" where
  "sampleSpeedInternal env speed threshold r =
     (let r1 = (if tk_SustainedSpeed r > 0 \<and> se_near env speed (tk_SustainedSpeed r)
                then r\<lparr>tk_SustainedCount := tk_SustainedCount r + 1\<rparr>
                else r\<lparr>tk_SustainedSpeed := speed, tk_SustainedCount := 1\<rparr>)
      in if tk_SustainedCount r1 \<ge> threshold \<and> tk_CompletedLength r1 > recordMinFileSize \<and> speed > tk_PeakSpeed r1
         then acceptPeakSpeed speed r1 else r1)"

definition sampleSpeed :: "sample_env \<Rightarrow> int \<Rightarrow> task_row \<Rightarrow> task_row" where
  "sampleSpeed env speed r = sampleSpeedInternal env speed (if se_hasWindow env then 3 else 1) r"

definition record_peak_row :: "sample_env \<Rightarrow> int \<Rightarrow> int \<Rightarrow> task_row \<Rightarrow> task_row" where
  "record_peak_row env peak workers r0 =
     (let newEff = quot64 peak workers;
          r = (if newEff > tk_BestEff r0 then r0\<lparr>tk_BestEff := newEff\<rparr> else r0);
          raise = (if peak > tk_PeakSpeed r then acceptPeakSpeed peak r else r)
      in if tk_PeakThreadCount r = 0 then (acceptPeakSpeed peak r)\<lparr>tk_PeakThreadCount := workers\<rparr>
         else if newEff \<ge> se_guard env (tk_BestEff r) then
           (if se_raises env peak (tk_PeakSpeed r) then raise\<lparr>tk_PeakThreadCount := workers\<rparr>
            else if workers < tk_PeakThreadCount r \<and> se_keeps env peak (tk_PeakSpeed r)
            then raise\<lparr>tk_PeakThreadCount := workers\<rparr>
            else r)
         else if se_raises env peak (tk_PeakSpeed r) then acceptPeakSpeed peak r
         else r)"

definition RecordPeakEfficiency :: "sample_env \<Rightarrow> string \<Rightarrow> int \<Rightarrow> int \<Rightarrow> tracker \<Rightarrow> tracker" where
  "RecordPeakEfficiency env gid peak workers t =
     (if workers \<le> 0 then t
      else case tr_tasks t gid of None \<Rightarrow> t | Some r \<Rightarrow> put_row gid (record_peak_row env peak workers r) t)"

section \<open>The poll of the other engine\<close>

record rpc_task =
  rt_GID :: string
  rt_Status :: string
  rt_TotalLength :: int
  rt_CompletedLength :: int
  rt_DownloadSpeed :: int
  rt_Dir :: string
  rt_Files :: "(string \<times> string list) list"

definition taskGracePeriod :: int where
  "taskGracePeriod = 5 * second"

definition activeSampleGapCap :: int where
  "activeSampleGapCap = 10 * second"

text \<open>The path and the first source of a task whose files are known.\<close>

definition with_files :: "(string \<times> string list) list \<Rightarrow> task_row \<Rightarrow> task_row" where
  "with_files fs r =
     (case fs of [] \<Rightarrow> r
      | (path, uris) # _ \<Rightarrow>
          if path = [] then r
          else let r1 = r\<lparr>tk_FilePath := path\<rparr> in (case uris of [] \<Rightarrow> r1 | u # _ \<Rightarrow> r1\<lparr>tk_SourceURL := u\<rparr>))"

definition has_path :: "(string \<times> string list) list \<Rightarrow> bool" where
  "has_path fs \<longleftrightarrow> (case fs of [] \<Rightarrow> False | (path, _) # _ \<Rightarrow> path \<noteq> [])"

definition createTrackedTask :: "int \<Rightarrow> rpc_task \<Rightarrow> task_row" where
  "createTrackedTask now x =
     with_files (rt_Files x)
       ((new_row (rt_GID x) now)\<lparr>tk_Status := rt_Status x, tk_TotalLength := rt_TotalLength x,
          tk_CompletedLength := rt_CompletedLength x, tk_Dir := rt_Dir x\<rparr>)"

definition fillTaskInfo :: "rpc_task \<Rightarrow> task_row \<Rightarrow> task_row" where
  "fillTaskInfo x r =
     with_files (rt_Files x)
       (r\<lparr>tk_TotalLength := rt_TotalLength x, tk_CompletedLength := rt_CompletedLength x, tk_Dir := rt_Dir x\<rparr>)"

definition ensureTracked :: "int \<Rightarrow> rpc_task \<Rightarrow> tracker \<Rightarrow> tracker" where
  "ensureTracked now x t = (if tr_tasks t (rt_GID x) = None then put_row (rt_GID x) (createTrackedTask now x) t else t)"

definition active_clock :: "int \<Rightarrow> task_row \<Rightarrow> task_row" where
  "active_clock now r =
     (let gap = time_sub now (tk_lastActiveAt r);
          r1 = (if tk_lastActiveAt r \<noteq> zero_time \<and> gap > 0 \<and> gap \<le> activeSampleGapCap
                then r\<lparr>tk_activeElapsed := add64 (tk_activeElapsed r) gap, tk_maxActiveGap := max (tk_maxActiveGap r) gap\<rparr>
                else r)
      in r1\<lparr>tk_lastActiveAt := now\<rparr>)"

definition update_active_row :: "sample_env \<Rightarrow> int \<Rightarrow> rpc_task \<Rightarrow> task_row \<Rightarrow> task_row" where
  "update_active_row env now x r0 =
     (let r1 = observeCompletedLocked now (rt_CompletedLength x)
                 (observeActivationLocked now (rt_CompletedLength x) True (active_clock now r0));
          r2 = r1\<lparr>tk_Status := rt_Status x, tk_CompletedLength := rt_CompletedLength x, tk_TotalLength := rt_TotalLength x\<rparr>;
          r3 = (if tk_FilePath r2 = [] \<and> has_path (rt_Files x) then with_files (rt_Files x) (r2\<lparr>tk_Dir := rt_Dir x\<rparr>) else r2)
      in if rt_DownloadSpeed x > 0 \<and> tk_TotalLength r3 > recordMinFileSize then sampleSpeed env (rt_DownloadSpeed x) r3 else r3)"

definition updateActiveTask :: "sample_env \<Rightarrow> int \<Rightarrow> rpc_task \<Rightarrow> tracker \<Rightarrow> tracker" where
  "updateActiveTask env now x t =
     put_row (rt_GID x)
       (update_active_row env now x (case tr_tasks t (rt_GID x) of None \<Rightarrow> createTrackedTask now x | Some r \<Rightarrow> r)) t"

definition update_waiting_row :: "rpc_task \<Rightarrow> task_row \<Rightarrow> task_row" where
  "update_waiting_row x r =
     (let r1 = applyAuthoritativeStatusLocked (rt_Status x) r;
          r2 = (if rt_CompletedLength x > 0 then r1\<lparr>tk_CompletedLength := rt_CompletedLength x\<rparr> else r1)
      in r2\<lparr>tk_lastActiveAt := zero_time\<rparr>)"

definition updateWaitingTask :: "int \<Rightarrow> rpc_task \<Rightarrow> tracker \<Rightarrow> tracker" where
  "updateWaitingTask now x t0 =
     (let t = ensureTracked now x t0 in
      case tr_tasks t (rt_GID x) of None \<Rightarrow> t | Some r \<Rightarrow> put_row (rt_GID x) (update_waiting_row x r) t)"

definition updateStoppedTask :: "int \<Rightarrow> rpc_task \<Rightarrow> tracker \<Rightarrow> task_row list \<times> tracker" where
  "updateStoppedTask now x t0 =
     (if rt_Status x \<noteq> ''complete'' \<and> rt_Status x \<noteq> ''error'' then ([], t0)
      else let gid = rt_GID x; (acc, t) = isTerminalAcceptedLocked gid t0 in
        if acc then ([], t)
        else case tr_tasks t gid of
            Some r \<Rightarrow>
              if tk_Status r \<noteq> ''complete'' \<and> tk_Status r \<noteq> ''error''
              then let r1 = fillTaskInfo x (applyAuthoritativeStatusLocked (rt_Status x) r);
                       (cp, t1) = accept_copy gid r1 (put_row gid r1 t)
                   in ([cp], t1)
              else ([], t)
          | None \<Rightarrow>
              let r1 = applyAuthoritativeStatusLocked (rt_Status x) (createTrackedTask now x);
                  (cp, t1) = accept_copy gid r1 (put_row gid r1 t)
              in ([cp], t1))"

fun update_stopped :: "int \<Rightarrow> rpc_task list \<Rightarrow> tracker \<Rightarrow> task_row list \<times> tracker" where
  "update_stopped now [] t = ([], t)"
| "update_stopped now (x # xs) t =
     (let (c1, t1) = updateStoppedTask now x t; (c2, t2) = update_stopped now xs t1 in (c1 @ c2, t2))"

definition cleanup :: "int \<Rightarrow> string set \<Rightarrow> tracker \<Rightarrow> tracker" where
  "cleanup now current t =
     t\<lparr>tr_tasks := (\<lambda>gid. case tr_tasks t gid of None \<Rightarrow> None
        | Some r \<Rightarrow> if \<not> is_surge gid \<and> gid \<notin> current \<and> time_sub now (tk_CreatedAt r) \<ge> taskGracePeriod then None else Some r)\<rparr>"

definition tracker_Update ::
    "sample_env \<Rightarrow> int \<Rightarrow> rpc_task list \<Rightarrow> rpc_task list \<Rightarrow> rpc_task list \<Rightarrow> tracker \<Rightarrow> task_row list \<times> tracker" where
  "tracker_Update env now active waiting stopped t =
     (let t1 = fold (updateActiveTask env now) active t;
          t2 = fold (updateWaitingTask now) waiting t1;
          (done_copies, t3) = update_stopped now stopped t2
      in (done_copies, cleanup now (set (map rt_GID (active @ waiting @ stopped))) t3))"

section \<open>Events of the own engine\<close>

definition row_or_new :: "string \<Rightarrow> int \<Rightarrow> tracker \<Rightarrow> task_row" where
  "row_or_new gid now t = (case tr_tasks t gid of None \<Rightarrow> new_row gid now | Some r \<Rightarrow> r)"

definition MarkAdded :: "string \<Rightarrow> int \<Rightarrow> tracker \<Rightarrow> tracker" where
  "MarkAdded gid now t0 =
     (if gid = [] then t0
      else
        let r0 = (row_or_new gid now t0)\<lparr>tk_AddedAt := now\<rparr>;
            candidate = (\<not> is_surge gid \<and> tk_ActivatedAt r0 = zero_time);
            (acc, t) = (if candidate then isTerminalAcceptedLocked gid t0 else (False, t0));
            r1 = (if candidate \<and> \<not> acc \<and> (tk_Status r0 = [] \<or> (tk_Status r0 = ''active'' \<and> tk_compatClaim r0 = CompatNone))
                  then let r2 = (if tk_compatClaim r0 = CompatNone then r0\<lparr>tk_compatClaim := CompatAria2Add\<rparr> else r0)
                       in (if tk_addAnchorAt r2 = zero_time then r2\<lparr>tk_addAnchorAt := now\<rparr> else r2)
                  else r0)
        in put_row gid (r1\<lparr>tk_lastActiveAt := now, tk_activeElapsed := 0, tk_maxActiveGap := 0, tk_terminalElapsed := 0,
             tk_peakFromAvgFallback := False\<rparr>) t)"

definition EnsureTrackedFromEvent :: "string \<Rightarrow> int \<Rightarrow> string \<Rightarrow> int \<Rightarrow> string \<Rightarrow> int \<Rightarrow> tracker \<Rightarrow> tracker" where
  "EnsureTrackedFromEvent gid len url threads st now t0 =
     (case tr_tasks t0 gid of
        Some r0 \<Rightarrow>
          let r1 = (if len > 0 then r0\<lparr>tk_TotalLength := len\<rparr> else r0);
              r2 = (if url \<noteq> [] \<and> tk_SourceURL r1 = [] then r1\<lparr>tk_SourceURL := url\<rparr> else r1);
              r3 = (if threads > 0 \<and> tk_ThreadCount r2 = 0 then r2\<lparr>tk_ThreadCount := threads\<rparr> else r2)
          in if st = [] then put_row gid r3 t0
             else let (acc, t) = isTerminalAcceptedLocked gid t0
                  in put_row gid (if acc then r3 else applyAuthoritativeStatusLocked st r3) t
      | None \<Rightarrow> put_row gid ((new_row gid now)\<lparr>tk_Status := (if st = [] then ''active'' else st), tk_TotalLength := len,
            tk_SourceURL := url, tk_ThreadCount := threads\<rparr>) t0)"

definition EnsureTrackedComplete :: "string \<Rightarrow> int \<Rightarrow> int \<Rightarrow> tracker \<Rightarrow> tracker" where
  "EnsureTrackedComplete gid len now t =
     (case tr_tasks t gid of
        Some r \<Rightarrow> if len > 0 then put_row gid (r\<lparr>tk_TotalLength := len, tk_CompletedLength := len\<rparr>) t else t
      | None \<Rightarrow> put_row gid ((new_row gid now)\<lparr>tk_Status := ''complete'', tk_TotalLength := len,
            tk_CompletedLength := len\<rparr>) t)"

definition SetStatusFromEvent :: "string \<Rightarrow> string \<Rightarrow> tracker \<Rightarrow> tracker" where
  "SetStatusFromEvent gid st t0 =
     (let (acc, t) = isTerminalAcceptedLocked gid t0 in
      if acc then t
      else case tr_tasks t gid of None \<Rightarrow> t | Some r \<Rightarrow> put_row gid (applyAuthoritativeStatusLocked st r) t)"

definition ReopenAfterStoppedToLive :: "string \<Rightarrow> string \<Rightarrow> tracker \<Rightarrow> tracker" where
  "ReopenAfterStoppedToLive gid st0 t0 =
     (if gid = [] then t0
      else
        let (ls, t1) = getLifecycle gid t0;
            t2 = t1\<lparr>tr_next := tr_next t1 + 1,
                    tr_lifecycle := (tr_lifecycle t1)(gid \<mapsto> \<lparr>ls_token = tr_next t1 + 1, ls_handled = False\<rparr>),
                    tr_processed := (tr_processed t1)(gid := False)\<rparr>;
            st = (if st0 = [] then ''active'' else st0)
        in case tr_tasks t2 gid of None \<Rightarrow> t2
           | Some r \<Rightarrow>
               let r1 = (if tk_admissionToken r > 0 then drop_reservation r else r)
               in put_row gid (applyAuthoritativeStatusLocked st (clearActivationFactsLocked r1)) t2)"

definition UpdateProgressFromEvent :: "string \<Rightarrow> int \<Rightarrow> int \<Rightarrow> int \<Rightarrow> tracker \<Rightarrow> tracker" where
  "UpdateProgressFromEvent gid len completed now t =
     (case tr_tasks t gid of None \<Rightarrow> t
      | Some r \<Rightarrow>
          let r1 = (if len > 0 then r\<lparr>tk_TotalLength := len\<rparr> else r)
          in put_row gid (if completed > 0 then (observeCompletedLocked now completed r1)\<lparr>tk_CompletedLength := completed\<rparr>
                          else r1) t)"

definition MarkCompleteFromEvent :: "string \<Rightarrow> string \<Rightarrow> tracker \<Rightarrow> task_row option \<times> tracker" where
  "MarkCompleteFromEvent gid st t0 =
     (case tr_tasks t0 gid of None \<Rightarrow> (None, t0)
      | Some r \<Rightarrow>
          let (acc, t) = isTerminalAcceptedLocked gid t0 in
          if acc then (None, t)
          else let r1 = applyAuthoritativeStatusLocked st r; (cp, t1) = accept_copy gid r1 (put_row gid r1 t)
               in (Some cp, t1))"

definition RemoveTask :: "string \<Rightarrow> tracker \<Rightarrow> tracker" where
  "RemoveTask gid t =
     t\<lparr>tr_tasks := (tr_tasks t)(gid := None), tr_processed := (tr_processed t)(gid := False),
       tr_lifecycle := (tr_lifecycle t)(gid := None)\<rparr>"

section \<open>Setters and reads\<close>

definition change_row :: "string \<Rightarrow> (task_row \<Rightarrow> task_row) \<Rightarrow> tracker \<Rightarrow> tracker" where
  "change_row gid f t = (case tr_tasks t gid of None \<Rightarrow> t | Some r \<Rightarrow> put_row gid (f r) t)"

definition SetKeepAlive :: "string \<Rightarrow> bool \<Rightarrow> tracker \<Rightarrow> tracker" where
  "SetKeepAlive gid keep = change_row gid (\<lambda>r. r\<lparr>tk_IsKeepAlive := keep\<rparr>)"

definition SetMinChunk :: "string \<Rightarrow> int \<Rightarrow> int \<Rightarrow> tracker \<Rightarrow> tracker" where
  "SetMinChunk gid m now t = put_row gid ((row_or_new gid now t)\<lparr>tk_MinChunk := m\<rparr>) t"

definition SetThreadInfo :: "string \<Rightarrow> int \<Rightarrow> bool \<Rightarrow> int \<Rightarrow> tracker \<Rightarrow> tracker" where
  "SetThreadInfo gid threads exploration now t =
     put_row gid ((row_or_new gid now t)\<lparr>tk_ThreadCount := threads, tk_IsExploration := exploration, tk_CreatedAt := now\<rparr>) t"

definition GetThreadInfo :: "string \<Rightarrow> tracker \<Rightarrow> (int \<times> bool) option" where
  "GetThreadInfo gid t =
     (case tr_tasks t gid of None \<Rightarrow> None
      | Some r \<Rightarrow> if tk_ThreadCount r > 0 then Some (tk_ThreadCount r, tk_IsExploration r) else None)"

definition UpdateLiveConnections :: "string \<Rightarrow> int \<Rightarrow> int \<Rightarrow> tracker \<Rightarrow> tracker" where
  "UpdateLiveConnections gid n now t =
     (if n < 0 then t
      else case tr_tasks t gid of
          Some r \<Rightarrow> put_row gid (r\<lparr>tk_LiveConnections := n\<rparr>) t
        | None \<Rightarrow> if n > 0 then put_row gid ((new_row gid now)\<lparr>tk_LiveConnections := n\<rparr>) t else t)"

definition GetLiveConnections :: "string \<Rightarrow> tracker \<Rightarrow> int" where
  "GetLiveConnections gid t = (case tr_tasks t gid of None \<Rightarrow> 0 | Some r \<Rightarrow> tk_LiveConnections r)"

definition SetScopeAndEnv :: "string \<Rightarrow> string \<Rightarrow> int \<Rightarrow> string \<Rightarrow> string \<Rightarrow> int \<Rightarrow> tracker \<Rightarrow> tracker" where
  "SetScopeAndEnv gid scope ttfb domain envKey now t =
     (case tr_tasks t gid of
        Some r0 \<Rightarrow>
          let r1 = r0\<lparr>tk_Scope := scope\<rparr>;
              r2 = (if ttfb > 0 then r1\<lparr>tk_TTFBMs := ttfb\<rparr> else r1);
              r3 = r2\<lparr>tk_Domain := domain, tk_CurrentEnvKey := envKey\<rparr>
          in put_row gid (if tk_PeakEnvKey r3 = [] then r3\<lparr>tk_PeakEnvKey := envKey\<rparr> else r3) t
      | None \<Rightarrow> put_row gid ((new_row gid now)\<lparr>tk_Scope := scope, tk_TTFBMs := ttfb, tk_Domain := domain,
            tk_CurrentEnvKey := envKey, tk_PeakEnvKey := envKey\<rparr>) t)"

definition SetTTFB :: "string \<Rightarrow> int \<Rightarrow> tracker \<Rightarrow> tracker" where
  "SetTTFB gid ms = change_row gid (\<lambda>r. if ms > 0 then r\<lparr>tk_TTFBMs := ms\<rparr> else r)"

definition GetScopeAndEnv :: "string \<Rightarrow> tracker \<Rightarrow> (string \<times> string \<times> string) option" where
  "GetScopeAndEnv gid t =
     (case tr_tasks t gid of None \<Rightarrow> None
      | Some r \<Rightarrow> if tk_Scope r = [] then None else Some (tk_Scope r, tk_Domain r, tk_CurrentEnvKey r))"

definition SetTargetBandwidth :: "string \<Rightarrow> int \<Rightarrow> int \<Rightarrow> tracker \<Rightarrow> tracker" where
  "SetTargetBandwidth gid bw now t =
     (let r = (row_or_new gid now t)\<lparr>tk_TargetBandwidth := bw\<rparr>;
          r1 = (if bw \<le> 0 then r
                else let r2 = r\<lparr>tk_AllocatedAt := now\<rparr>
                     in if is_surge gid then r2 else if tk_Status r2 = [] then r2\<lparr>tk_Status := ''active''\<rparr> else r2)
      in put_row gid r1 t)"

text \<open>The map is read in an order of its own: the identifiers in that order are an argument.\<close>

definition rows_where :: "(task_row \<Rightarrow> bool) \<Rightarrow> string list \<Rightarrow> tracker \<Rightarrow> task_row list" where
  "rows_where keep order t =
     filter keep (concat (map (\<lambda>gid. case tr_tasks t gid of None \<Rightarrow> [] | Some r \<Rightarrow> [r]) order))"

definition GetActiveTrackedTasks :: "string list \<Rightarrow> tracker \<Rightarrow> task_row list" where
  "GetActiveTrackedTasks = rows_where (\<lambda>r. tk_Status r = ''active'')"

definition occupies :: "task_row \<Rightarrow> bool" where
  "occupies r \<longleftrightarrow> tk_Status r \<noteq> ''complete'' \<and> tk_Status r \<noteq> ''error'' \<and>
     (tk_admitted r \<or> tk_Status r = ''active'' \<or>
      (tk_Status r = [] \<and> tk_TargetBandwidth r > 0 \<and> tk_compatClaim r = CompatAria2Add))"

definition GetOccupancyTrackedTasks :: "string list \<Rightarrow> tracker \<Rightarrow> task_row list" where
  "GetOccupancyTrackedTasks = rows_where occupies"

section \<open>Admission reservations\<close>

type_synonym admission_ticket = "string \<times> nat"

definition ObserveActivation :: "string \<Rightarrow> int \<Rightarrow> bool \<Rightarrow> int \<Rightarrow> tracker \<Rightarrow> tracker" where
  "ObserveActivation gid baseline known now t0 =
     (if gid = [] then t0
      else let (acc, t) = isTerminalAcceptedLocked gid t0 in
        if acc then t else put_row gid (observeActivationLocked now baseline known (row_or_new gid now t)) t)"

definition PendingAdmissionTicket :: "string \<Rightarrow> tracker \<Rightarrow> admission_ticket option" where
  "PendingAdmissionTicket gid t =
     (case tr_tasks t gid of None \<Rightarrow> None
      | Some r \<Rightarrow> if tk_admitted r \<and> tk_admissionToken r \<noteq> 0 then Some (gid, tk_admissionToken r) else None)"

definition reserve_row :: "nat \<Rightarrow> thread_params \<Rightarrow> int \<Rightarrow> int \<Rightarrow> bool \<Rightarrow> task_row \<Rightarrow> task_row" where
  "reserve_row token p now baseline known r =
     r\<lparr>tk_admissionToken := token, tk_admitted := True, tk_ThreadCount := tp_Split p, tk_MinChunk := tp_MinSize p,
       tk_IsExploration := tp_IsExploration p, tk_TargetBandwidth := tp_Target p, tk_AllocatedAt := now,
       tk_ActivatedAt := now, tk_FirstProgressAt := zero_time, tk_progressBaseline := baseline,
       tk_progressBaselineKnown := known, tk_compatClaim := CompatNone, tk_addAnchorAt := zero_time\<rparr>"

definition ReserveAdmission ::
    "string \<Rightarrow> nat \<Rightarrow> thread_params \<Rightarrow> int \<Rightarrow> int \<Rightarrow> bool \<Rightarrow> tracker \<Rightarrow> admission_ticket option \<times> bool \<times> tracker" where
  "ReserveAdmission gid token p now baseline known t0 =
     (if \<not> is_surge gid \<or> token = 0 \<or> now = zero_time then (None, False, t0)
      else if tp_Split p \<le> 0 \<or> tp_Target p < 0 \<or> tp_MinSize p < 0 \<or> baseline < 0 then (None, False, t0)
      else
        let (acc, t) = isTerminalAcceptedLocked gid t0 in
        if acc then (None, False, t)
        else case tr_tasks t gid of None \<Rightarrow> (None, False, t)
          | Some r \<Rightarrow>
              if tk_Status r \<noteq> ''waiting'' then (None, False, t)
              else if tk_admissionToken r > token then (None, False, t)
              else if tk_admissionToken r = token \<and> \<not> tk_admitted r then (None, False, t)
              else if tk_admissionToken r = token then (Some (gid, token), False, t)
              else (Some (gid, token), True, put_row gid (reserve_row token p now baseline known r) t))"

definition ReleaseAdmission :: "string \<Rightarrow> nat \<Rightarrow> tracker \<Rightarrow> bool \<times> tracker" where
  "ReleaseAdmission gid token t =
     (if \<not> is_surge gid \<or> token = 0 then (False, t)
      else case tr_tasks t gid of None \<Rightarrow> (False, t)
        | Some r \<Rightarrow>
            if \<not> tk_admitted r \<or> tk_admissionToken r \<noteq> token then (False, t)
            else (True, put_row gid ((clearActivationFactsLocked (r\<lparr>tk_admitted := False\<rparr>))
                                       \<lparr>tk_TargetBandwidth := 0, tk_AllocatedAt := zero_time\<rparr>) t))"

end
