(* ===== verification/TrackerRuns.thy ===== *)
theory TrackerRuns
  imports TaskTracker
begin

text \<open>
Runs of the task tracker: every method as an operation, the invariant of the lifecycle tokens with the terminal copies
  handed out, the invariant of the rows with the admission tickets, and the two theorems on runs.
\<close>

section \<open>Runs of the tracker\<close>

text \<open>
  Every method that writes, as an operation of a run. A trace keeps, beside the tracker, the terminal copies it
  handed out and the tickets it created, in order.
\<close>

datatype tracker_op =
    TUpdate sample_env int "rpc_task list" "rpc_task list" "rpc_task list"
  | TMarkAdded string int
  | TEnsure string int string int string int
  | TEnsureComplete string int int
  | TStatus string string
  | TReopen string string
  | TProgress string int int int
  | TComplete string string
  | TRemove string
  | TReserve string nat thread_params int int bool
  | TRelease string nat
  | TActivate string int bool int
  | TPeak sample_env string int int
  | TKeepAlive string bool
  | TMinChunk string int int
  | TThreads string int bool int
  | TConnections string int int
  | TScope string string int string string int
  | TTTFB string int
  | TTarget string int int

record tracker_trace =
  tt_state :: tracker
  tt_copies :: "task_row list"
  tt_tickets :: "admission_ticket list"

definition quiet :: "(tracker \<Rightarrow> tracker) \<Rightarrow> tracker_trace \<Rightarrow> tracker_trace" where
  "quiet f x = x\<lparr>tt_state := f (tt_state x)\<rparr>"

fun tracker_step :: "tracker_op \<Rightarrow> tracker_trace \<Rightarrow> tracker_trace" where
  "tracker_step (TUpdate env now a w s) x =
     (let (cs, t) = tracker_Update env now a w s (tt_state x) in x\<lparr>tt_state := t, tt_copies := tt_copies x @ cs\<rparr>)"
| "tracker_step (TMarkAdded g now) x = quiet (MarkAdded g now) x"
| "tracker_step (TEnsure g n u th st now) x = quiet (EnsureTrackedFromEvent g n u th st now) x"
| "tracker_step (TEnsureComplete g n now) x = quiet (EnsureTrackedComplete g n now) x"
| "tracker_step (TStatus g st) x = quiet (SetStatusFromEvent g st) x"
| "tracker_step (TReopen g st) x = quiet (ReopenAfterStoppedToLive g st) x"
| "tracker_step (TProgress g n c now) x = quiet (UpdateProgressFromEvent g n c now) x"
| "tracker_step (TComplete g st) x =
     (let (c, t) = MarkCompleteFromEvent g st (tt_state x) in
      x\<lparr>tt_state := t, tt_copies := tt_copies x @ (case c of None \<Rightarrow> [] | Some r \<Rightarrow> [r])\<rparr>)"
| "tracker_step (TRemove g) x = quiet (RemoveTask g) x"
| "tracker_step (TReserve g k p now b kn) x =
     (let (tick, created, t) = ReserveAdmission g k p now b kn (tt_state x) in
      x\<lparr>tt_state := t, tt_tickets := tt_tickets x @ (if created then [(g, k)] else [])\<rparr>)"
| "tracker_step (TRelease g k) x = quiet (\<lambda>t. snd (ReleaseAdmission g k t)) x"
| "tracker_step (TActivate g b kn now) x = quiet (ObserveActivation g b kn now) x"
| "tracker_step (TPeak env g p w) x = quiet (RecordPeakEfficiency env g p w) x"
| "tracker_step (TKeepAlive g k) x = quiet (SetKeepAlive g k) x"
| "tracker_step (TMinChunk g m now) x = quiet (SetMinChunk g m now) x"
| "tracker_step (TThreads g n e now) x = quiet (SetThreadInfo g n e now) x"
| "tracker_step (TConnections g n now) x = quiet (UpdateLiveConnections g n now) x"
| "tracker_step (TScope g s m d e now) x = quiet (SetScopeAndEnv g s m d e now) x"
| "tracker_step (TTTFB g m) x = quiet (SetTTFB g m) x"
| "tracker_step (TTarget g b now) x = quiet (SetTargetBandwidth g b now) x"

definition tracker_run :: "tracker_op list \<Rightarrow> tracker_trace \<Rightarrow> tracker_trace" where
  "tracker_run = fold tracker_step"

definition new_trace :: tracker_trace where
  "new_trace = \<lparr>tt_state = NewTaskTracker, tt_copies = [], tt_tickets = []\<rparr>"

section \<open>Lifecycle tokens\<close>

text \<open>
  What the lifecycle part of the state satisfies together with the copies handed out: tokens are fresh and
  belong to one identifier, an accepted terminal is marked in both places, and the copy of a token in use
  is the one its entry has accepted.
\<close>

definition life_inv :: "tracker \<Rightarrow> task_row list \<Rightarrow> bool" where
  "life_inv t cs \<longleftrightarrow>
     (\<forall>g ls. tr_lifecycle t g = Some ls \<longrightarrow> 0 < ls_token ls \<and> ls_token ls \<le> tr_next t) \<and>
     (\<forall>g. tr_processed t g \<longleftrightarrow> (\<exists>ls. tr_lifecycle t g = Some ls \<and> ls_handled ls)) \<and>
     (\<forall>g h a b. tr_lifecycle t g = Some a \<longrightarrow> tr_lifecycle t h = Some b \<longrightarrow> ls_token a = ls_token b \<longrightarrow> g = h) \<and>
     (\<forall>c \<in> set cs. 0 < tk_terminalToken c \<and> tk_terminalToken c \<le> tr_next t) \<and>
     (\<forall>g ls. \<forall>c \<in> set cs. tr_lifecycle t g = Some ls \<longrightarrow> ls_token ls = tk_terminalToken c \<longrightarrow> ls_handled ls) \<and>
     distinct (map tk_terminalToken cs)"

text \<open>A token is retired for an identifier when its entry is gone or carries a larger one.\<close>

definition retired :: "string \<Rightarrow> nat \<Rightarrow> tracker \<Rightarrow> bool" where
  "retired g k t \<longleftrightarrow> k \<le> tr_next t \<and> (case tr_lifecycle t g of None \<Rightarrow> True | Some ls \<Rightarrow> k < ls_token ls)"

text \<open>A method that leaves the lifecycle part alone, apart from creating a missing entry.\<close>

definition same_life :: "tracker \<Rightarrow> tracker \<Rightarrow> bool" where
  "same_life t u \<longleftrightarrow> tr_processed u = tr_processed t \<and> tr_lifecycle u = tr_lifecycle t \<and> tr_next u = tr_next t"

lemma same_life_trans: "same_life t u \<Longrightarrow> same_life u v \<Longrightarrow> same_life t v"
  by (simp add: same_life_def)

lemma life_inv_same: "same_life t u \<Longrightarrow> life_inv u cs = life_inv t cs"
  by (simp add: life_inv_def same_life_def)

lemma retired_same: "same_life t u \<Longrightarrow> retired g k u = retired g k t"
  by (simp add: retired_def same_life_def)

lemma same_life_put [simp]: "same_life t (put_row g r t)"
  by (simp add: same_life_def)

lemma life_put [simp]: "life_inv (put_row g r t) cs = life_inv t cs" "retired h k (put_row g r t) = retired h k t"
  using life_inv_same retired_same same_life_put by blast+

lemma life_invD:
  assumes "life_inv t cs"
  shows "tr_lifecycle t g = Some ls \<Longrightarrow> 0 < ls_token ls \<and> ls_token ls \<le> tr_next t"
    and "tr_processed t g \<longleftrightarrow> (\<exists>ls. tr_lifecycle t g = Some ls \<and> ls_handled ls)"
    and "tr_lifecycle t g = Some a \<Longrightarrow> tr_lifecycle t h = Some b \<Longrightarrow> ls_token a = ls_token b \<Longrightarrow> g = h"
    and "c \<in> set cs \<Longrightarrow> 0 < tk_terminalToken c \<and> tk_terminalToken c \<le> tr_next t"
    and "tr_lifecycle t g = Some ls \<Longrightarrow> c \<in> set cs \<Longrightarrow> ls_token ls = tk_terminalToken c \<Longrightarrow> ls_handled ls"
    and "distinct (map tk_terminalToken cs)"
  using assms unfolding life_inv_def by blast+

lemma life_invI:
  assumes "\<And>g ls. tr_lifecycle t g = Some ls \<Longrightarrow> 0 < ls_token ls \<and> ls_token ls \<le> tr_next t"
    and "\<And>g. tr_processed t g \<longleftrightarrow> (\<exists>ls. tr_lifecycle t g = Some ls \<and> ls_handled ls)"
    and "\<And>g h a b. tr_lifecycle t g = Some a \<Longrightarrow> tr_lifecycle t h = Some b \<Longrightarrow> ls_token a = ls_token b \<Longrightarrow> g = h"
    and "\<And>c. c \<in> set cs \<Longrightarrow> 0 < tk_terminalToken c \<and> tk_terminalToken c \<le> tr_next t"
    and "\<And>g ls c. tr_lifecycle t g = Some ls \<Longrightarrow> c \<in> set cs \<Longrightarrow> ls_token ls = tk_terminalToken c \<Longrightarrow> ls_handled ls"
    and "distinct (map tk_terminalToken cs)"
  shows "life_inv t cs"
  using assms unfolding life_inv_def by blast

lemma accepted_eq: "life_inv t cs \<Longrightarrow> isTerminalAcceptedLocked g t = (tr_processed t g, t)"
  using life_invD(2)[of t cs g] by (auto simp: isTerminalAcceptedLocked_def getLifecycle_def split: option.splits)

text \<open>A new entry takes the next token.\<close>

lemma fresh_entry:
  assumes inv: "life_inv t cs"
  shows "life_inv (t\<lparr>tr_next := tr_next t + 1, tr_lifecycle := (tr_lifecycle t)(g \<mapsto> \<lparr>ls_token = tr_next t + 1, ls_handled = False\<rparr>),
           tr_processed := (tr_processed t)(g := False)\<rparr>) cs" (is "life_inv ?u cs")
proof (rule life_invI)
  fix h ls assume "tr_lifecycle ?u h = Some ls"
  then show "0 < ls_token ls \<and> ls_token ls \<le> tr_next ?u" using life_invD(1)[OF inv, of h ls] by (auto split: if_splits)
next
  fix h show "tr_processed ?u h \<longleftrightarrow> (\<exists>ls. tr_lifecycle ?u h = Some ls \<and> ls_handled ls)"
    using life_invD(2)[OF inv, of h] by auto
next
  fix h k a b assume ab: "tr_lifecycle ?u h = Some a" "tr_lifecycle ?u k = Some b" "ls_token a = ls_token b"
  have n: "tr_lifecycle t j = Some x \<Longrightarrow> ls_token x \<noteq> tr_next t + 1" for j x using life_invD(1)[OF inv, of j x] by auto
  show "h = k"
  proof (cases "h = g \<or> k = g")
    case True
    then show ?thesis using ab n[of h a] n[of k b] by (cases "h = g"; cases "k = g") auto
  next
    case False
    then show ?thesis using ab life_invD(3)[OF inv, of h a k b] by simp
  qed
next
  fix c assume "c \<in> set cs" then show "0 < tk_terminalToken c \<and> tk_terminalToken c \<le> tr_next ?u" using life_invD(4)[OF inv] by fastforce
next
  fix h ls c assume k: "tr_lifecycle ?u h = Some ls" "c \<in> set cs" "ls_token ls = tk_terminalToken c"
  show "ls_handled ls" using k life_invD(4)[OF inv k(2)] life_invD(5)[OF inv _ k(2), of h ls] by (auto split: if_splits)
next
  show "distinct (map tk_terminalToken cs)" by (rule life_invD(6)[OF inv])
qed

lemma lookup_life:
  assumes inv: "life_inv t cs" and g: "getLifecycle g t = (ls, u)"
  shows "life_inv u cs \<and> tr_lifecycle u g = Some ls \<and> tr_processed u = tr_processed t \<and> tr_tasks u = tr_tasks t \<and>
    tr_next t \<le> tr_next u \<and> (retired h k t \<longrightarrow> retired h k u)"
proof (cases "tr_lifecycle t g")
  case (Some a)
  then show ?thesis using g inv by (simp add: getLifecycle_def)
next
  case None
  then have p: "\<not> tr_processed t g" using life_invD(2)[OF inv, of g] by simp
  have e: "(tr_processed t)(g := False) = tr_processed t" using p by (auto simp: fun_eq_iff)
  have u: "u = t\<lparr>tr_next := tr_next t + 1, tr_lifecycle := (tr_lifecycle t)(g \<mapsto> \<lparr>ls_token = tr_next t + 1, ls_handled = False\<rparr>),
      tr_processed := (tr_processed t)(g := False)\<rparr>" and l: "ls = \<lparr>ls_token = tr_next t + 1, ls_handled = False\<rparr>"
    using g None unfolding e by (auto simp: getLifecycle_def Let_def)
  have "life_inv u cs" unfolding u by (rule fresh_entry[OF inv])
  then show ?thesis using e unfolding u l by (auto simp: retired_def)
qed

text \<open>Accepting a terminal that was not accepted yet.\<close>

lemma accept_life:
  assumes inv: "life_inv t cs" and np: "\<not> tr_processed t g" and a: "accept_copy g r t = (cp, u)"
  shows "life_inv u (cs @ [cp]) \<and> tr_tasks u = tr_tasks t \<and> (retired h k t \<longrightarrow> retired h k u) \<and>
    (\<exists>n. cp = r\<lparr>tk_terminalToken := n\<rparr>) \<and> TerminalCopyCurrent g cp u \<and> tr_next t \<le> tr_next u"
proof -
  obtain ls v where v: "getLifecycle g t = (ls, v)" by fastforce
  note lv = lookup_life[OF inv v]
  have unh: "\<not> ls_handled ls" using lv np life_invD(2)[of v cs g] by auto
  have g2: "getLifecycle g (t\<lparr>tr_processed := (tr_processed t)(g := True)\<rparr>) = (ls, v\<lparr>tr_processed := (tr_processed t)(g := True)\<rparr>)"
    using v by (auto simp: getLifecycle_def Let_def split: option.splits)
  have u: "u = v\<lparr>tr_processed := (tr_processed t)(g := True), tr_lifecycle := (tr_lifecycle v)(g \<mapsto> ls\<lparr>ls_handled := True\<rparr>)\<rparr>"
    and c: "cp = r\<lparr>tk_terminalToken := ls_token ls\<rparr>"
    using a by (simp_all add: accept_copy_def markTerminalAcceptedLocked_def stampTerminalCopyLocked_def g2)
      (simp_all add: getLifecycle_def)
  have pos: "0 < ls_token ls" "ls_token ls \<le> tr_next v" using lv life_invD(1)[of v cs g ls] by auto
  have iv: "life_inv v cs" using lv by blast
  have lg: "tr_lifecycle v g = Some ls" using lv by blast
  have new: "tk_terminalToken d \<noteq> ls_token ls" if "d \<in> set cs" for d
    using life_invD(5)[OF iv lg that] unh by metis
  have "life_inv u (cs @ [cp])"
  proof (rule life_invI)
    fix j x assume "tr_lifecycle u j = Some x"
    then show "0 < ls_token x \<and> ls_token x \<le> tr_next u" using life_invD(1)[OF iv, of j x] pos unfolding u by (auto split: if_splits)
  next
    fix j show "tr_processed u j \<longleftrightarrow> (\<exists>x. tr_lifecycle u j = Some x \<and> ls_handled x)"
      using life_invD(2)[OF iv, of j] lv unfolding u by auto
  next
    fix i j x y assume k: "tr_lifecycle u i = Some x" "tr_lifecycle u j = Some y" "ls_token x = ls_token y"
    have f: "\<exists>x'. tr_lifecycle v i = Some x' \<and> ls_token x' = ls_token x" if "tr_lifecycle u i = Some x" for i x
      using that lg unfolding u by (auto split: if_splits)
    from f[OF k(1)] f[OF k(2)] show "i = j" using life_invD(3)[OF iv] k(3) by metis
  next
    fix d assume "d \<in> set (cs @ [cp])"
    then show "0 < tk_terminalToken d \<and> tk_terminalToken d \<le> tr_next u" using life_invD(4)[OF iv, of d] pos unfolding u c by auto
  next
    fix j x d assume k: "tr_lifecycle u j = Some x" "d \<in> set (cs @ [cp])" "ls_token x = tk_terminalToken d"
    show "ls_handled x"
    proof (cases "j = g")
      case True then show ?thesis using k(1) unfolding u by auto
    next
      case False
      then have x: "tr_lifecycle v j = Some x" using k(1) unfolding u by simp
      have "d \<noteq> cp" using life_invD(3)[OF iv x lg] False k(3) unfolding c by auto
      then show ?thesis using life_invD(5)[OF iv x, of d] k by simp
    qed
  next
    show "distinct (map tk_terminalToken (cs @ [cp]))" using life_invD(6)[OF iv] new unfolding c by (fastforce simp: image_iff)
  qed
  moreover have "retired h k u = retired h k v" using lg unfolding u retired_def by (cases "h = g") auto
  then have "retired h k t \<longrightarrow> retired h k u" using lv by blast
  moreover have "TerminalCopyCurrent g cp u" using pos unfolding TerminalCopyCurrent_def u c by simp
  moreover have "tr_tasks u = tr_tasks t" "tr_next t \<le> tr_next u" using lv unfolding u by simp_all
  ultimately show ?thesis using c by blast
qed

named_theorems tracker_defs \<open>the methods of the tracker that only touch rows\<close>

lemmas [tracker_defs] = SetStatusFromEvent_def UpdateProgressFromEvent_def EnsureTrackedComplete_def change_row_def
  SetKeepAlive_def SetMinChunk_def SetThreadInfo_def UpdateLiveConnections_def SetScopeAndEnv_def SetTTFB_def
  SetTargetBandwidth_def RecordPeakEfficiency_def ReleaseAdmission_def

lemma quiet_life:
  assumes "life_inv t cs"
  shows "same_life t (MarkAdded g now t)" "same_life t (EnsureTrackedFromEvent g n u th st now t)"
    "same_life t (EnsureTrackedComplete g n now t)" "same_life t (SetStatusFromEvent g st t)"
    "same_life t (UpdateProgressFromEvent g n c now t)" "same_life t (snd (ReleaseAdmission g k t))"
    "same_life t (ObserveActivation g b kn now t)" "same_life t (RecordPeakEfficiency env g p w t)"
    "same_life t (SetKeepAlive g keep t)" "same_life t (SetMinChunk g m now t)" "same_life t (SetThreadInfo g th ex now t)"
    "same_life t (UpdateLiveConnections g th now t)" "same_life t (SetScopeAndEnv g s m d e now t)" "same_life t (SetTTFB g m t)"
    "same_life t (SetTargetBandwidth g b now t)" "same_life t (snd (snd (ReserveAdmission g k tp now b kn t)))"
  by (simp_all add: tracker_defs MarkAdded_def EnsureTrackedFromEvent_def ObserveActivation_def ReserveAdmission_def
      accepted_eq[OF assms] same_life_def Let_def split: option.splits)

lemma active_life: "same_life t (fold (updateActiveTask env now) xs t)"
proof (induction xs arbitrary: t)
  case (Cons x xs)
  have "same_life t (updateActiveTask env now x t)" by (simp add: updateActiveTask_def)
  then show ?case using Cons same_life_trans by force
qed (simp add: same_life_def)

lemma waiting_life: "same_life t (fold (updateWaitingTask now) xs t)"
proof (induction xs arbitrary: t)
  case (Cons x xs)
  have "same_life t (updateWaitingTask now x t)"
    by (simp add: updateWaitingTask_def ensureTracked_def same_life_def split: option.splits)
  then show ?case using Cons same_life_trans by force
qed (simp add: same_life_def)

text \<open>What a method may do to the lifecycle part: keep the invariant with the copies it hands out, and revive no token.\<close>

definition life_ok :: "tracker \<Rightarrow> tracker \<Rightarrow> task_row list \<Rightarrow> task_row list \<Rightarrow> bool" where
  "life_ok t u cs new \<longleftrightarrow> life_inv u (cs @ new) \<and> (\<forall>g k. retired g k t \<longrightarrow> retired g k u)"

lemma life_ok_same: "life_inv t cs \<Longrightarrow> same_life t u \<Longrightarrow> life_ok t u cs []"
  by (simp add: life_ok_def life_inv_same retired_same)

lemma life_ok_trans: "life_ok t u cs a \<Longrightarrow> life_ok u v (cs @ a) b \<Longrightarrow> life_ok t v cs (a @ b)"
  by (simp add: life_ok_def)

lemma life_ok_accept:
  assumes "life_inv t cs" and "\<not> tr_processed t g" and "accept_copy g r (put_row g r' t) = (cp, u)"
  shows "life_ok t u cs [cp]"
proof -
  have "life_inv (put_row g r' t) cs" "\<not> tr_processed (put_row g r' t) g" using assms(1,2) by simp_all
  from accept_life[OF this assms(3)] show ?thesis by (simp add: life_ok_def)
qed

lemma stopped_task_life:
  assumes inv: "life_inv t cs" and u: "updateStoppedTask now x t = (new, u)"
  shows "life_ok t u cs new"
proof (cases "(rt_Status x \<noteq> ''complete'' \<and> rt_Status x \<noteq> ''error'') \<or> tr_processed t (rt_GID x)")
  case True
  then have "u = t \<and> new = []" using u unfolding updateStoppedTask_def accepted_eq[OF inv] by (auto split: if_splits)
  then show ?thesis using inv by (simp add: life_ok_def)
next
  case False
  then have np: "\<not> tr_processed t (rt_GID x)" and st: "(rt_Status x \<noteq> ''complete'' \<and> rt_Status x \<noteq> ''error'') = False" by auto
  have np1: "tr_processed t (rt_GID x) = False" using np by simp
  note e = u[unfolded updateStoppedTask_def st if_False Let_def accepted_eq[OF inv] prod.case np1]
  show ?thesis
  proof (cases "tr_tasks t (rt_GID x)")
    case None
    then show ?thesis using e life_ok_accept[OF inv np] by (auto split: prod.splits)
  next
    case (Some r)
    show ?thesis
    proof (cases "tk_Status r \<noteq> ''complete'' \<and> tk_Status r \<noteq> ''error''")
      case True
      then show ?thesis using e Some life_ok_accept[OF inv np] by (auto split: prod.splits)
    next
      case False
      then have "u = t \<and> new = []" using e Some by auto
      then show ?thesis using inv by (simp add: life_ok_def)
    qed
  qed
qed

lemma stopped_life: "life_inv t cs \<Longrightarrow> update_stopped now xs t = (new, u) \<Longrightarrow> life_ok t u cs new"
proof (induction xs arbitrary: t cs new u)
  case (Cons x xs)
  obtain c1 t1 where a: "updateStoppedTask now x t = (c1, t1)" by fastforce
  obtain c2 t2 where b: "update_stopped now xs t1 = (c2, t2)" by fastforce
  have k: "life_ok t t1 cs c1" by (rule stopped_task_life[OF Cons.prems(1) a])
  then have "life_inv t1 (cs @ c1)" by (simp add: life_ok_def)
  from Cons.IH[OF this b] k have "life_ok t t2 cs (c1 @ c2)" by (rule life_ok_trans[rotated])
  then show ?case using Cons.prems(2) a b by simp
qed (simp add: life_ok_def)

lemma update_life:
  assumes inv: "life_inv t cs" and u: "tracker_Update env now a w s t = (new, u)"
  shows "life_ok t u cs new"
proof -
  define t2 where "t2 = fold (updateWaitingTask now) w (fold (updateActiveTask env now) a t)"
  obtain t3 where t3: "update_stopped now s t2 = (new, t3)" and u3: "u = cleanup now (set (map rt_GID (a @ w @ s))) t3"
    using u unfolding tracker_Update_def Let_def t2_def[symmetric] by (auto split: prod.splits)
  have "same_life t t2" unfolding t2_def using active_life waiting_life same_life_trans by blast
  then have a: "life_ok t t2 cs []" by (rule life_ok_same[OF inv])
  then have "life_inv t2 (cs @ [])" by (simp add: life_ok_def)
  note b = stopped_life[OF this t3]
  have c: "same_life t3 u" unfolding u3 by (simp add: same_life_def cleanup_def)
  have "life_inv t3 ((cs @ []) @ new)" using b by (simp add: life_ok_def)
  note life_ok_same[OF this c]
  then show ?thesis using life_ok_trans[OF a b] life_ok_trans[of t t3 cs "[] @ new" u "[]"] by simp
qed

lemma reopen_life:
  assumes inv: "life_inv t cs"
  shows "life_ok t (ReopenAfterStoppedToLive g st t) cs []" and
    "g \<noteq> [] \<Longrightarrow> \<forall>c \<in> set cs. retired g (tk_terminalToken c) (ReopenAfterStoppedToLive g st t)"
proof -
  obtain ls v where v: "getLifecycle g t = (ls, v)" by fastforce
  note lv = lookup_life[OF inv v]
  let ?u = "v\<lparr>tr_next := tr_next v + 1, tr_lifecycle := (tr_lifecycle v)(g \<mapsto> \<lparr>ls_token = tr_next v + 1, ls_handled = False\<rparr>),
           tr_processed := (tr_processed v)(g := False)\<rparr>"
  have iv: "life_inv v cs" and rv: "\<And>h k. retired h k t \<longrightarrow> retired h k v" using lookup_life[OF inv v] by blast+
  have fu: "life_inv ?u cs" by (rule fresh_entry[OF iv])
  have ru: "retired h k v \<longrightarrow> retired h k ?u" for h k by (auto simp: retired_def)
  have e: "g \<noteq> [] \<Longrightarrow> same_life ?u (ReopenAfterStoppedToLive g st t)"
    by (simp add: ReopenAfterStoppedToLive_def Let_def v same_life_def split: option.splits)
  show "life_ok t (ReopenAfterStoppedToLive g st t) cs []"
  proof (cases "g = []")
    case True
    then show ?thesis using inv by (simp add: ReopenAfterStoppedToLive_def life_ok_def)
  next
    case False
    then show ?thesis using fu rv ru unfolding life_ok_def
      by (simp only: life_inv_same[OF e[OF False]] retired_same[OF e[OF False]] append_Nil2) blast
  qed
  show "\<forall>c \<in> set cs. retired g (tk_terminalToken c) (ReopenAfterStoppedToLive g st t)" if "g \<noteq> []"
    unfolding retired_same[OF e[OF that]] using life_invD(4)[OF iv] by (fastforce simp: retired_def)
qed

lemma remove_life:
  assumes inv: "life_inv t cs"
  shows "life_ok t (RemoveTask g t) cs []" and "\<forall>c \<in> set cs. retired g (tk_terminalToken c) (RemoveTask g t)"
proof -
  have "life_inv (RemoveTask g t) cs"
  proof (rule life_invI)
    fix h show "tr_processed (RemoveTask g t) h \<longleftrightarrow> (\<exists>ls. tr_lifecycle (RemoveTask g t) h = Some ls \<and> ls_handled ls)"
      using life_invD(2)[OF inv, of h] by (simp add: RemoveTask_def)
  next
    fix h k a b show "tr_lifecycle (RemoveTask g t) h = Some a \<Longrightarrow> tr_lifecycle (RemoveTask g t) k = Some b \<Longrightarrow>
      ls_token a = ls_token b \<Longrightarrow> h = k" using life_invD(3)[OF inv, of h a k b] by (simp add: RemoveTask_def split: if_splits)
  next
    fix h ls show "tr_lifecycle (RemoveTask g t) h = Some ls \<Longrightarrow> 0 < ls_token ls \<and> ls_token ls \<le> tr_next (RemoveTask g t)"
      using life_invD(1)[OF inv, of h ls] by (simp add: RemoveTask_def split: if_splits)
  next
    fix h ls c show "tr_lifecycle (RemoveTask g t) h = Some ls \<Longrightarrow> c \<in> set cs \<Longrightarrow> ls_token ls = tk_terminalToken c \<Longrightarrow> ls_handled ls"
      using life_invD(5)[OF inv, of h ls c] by (simp add: RemoveTask_def split: if_splits)
  qed (use life_invD(4,6)[OF inv] in \<open>simp_all add: RemoveTask_def\<close>)
  moreover have "retired h k t \<longrightarrow> retired h k (RemoveTask g t)" for h k by (simp add: retired_def RemoveTask_def)
  ultimately show "life_ok t (RemoveTask g t) cs []" by (simp add: life_ok_def)
  show "\<forall>c \<in> set cs. retired g (tk_terminalToken c) (RemoveTask g t)"
    using life_invD(4)[OF inv] by (fastforce simp: retired_def RemoveTask_def)
qed

lemma complete_life:
  assumes inv: "life_inv t cs" and u: "MarkCompleteFromEvent g st t = (c, u)"
  shows "life_ok t u cs (case c of None \<Rightarrow> [] | Some r \<Rightarrow> [r])"
proof (cases "tr_tasks t g = None \<or> tr_processed t g")
  case True
  then have "u = t \<and> c = None" using u unfolding MarkCompleteFromEvent_def Let_def accepted_eq[OF inv] by (auto split: option.splits)
  then show ?thesis using inv by (simp add: life_ok_def)
next
  case False
  then obtain r where r: "tr_tasks t g = Some r" and np: "\<not> tr_processed t g" by auto
  obtain cp v where a: "accept_copy g (applyAuthoritativeStatusLocked st r)
      (put_row g (applyAuthoritativeStatusLocked st r) t) = (cp, v)" by fastforce
  have "c = Some cp \<and> u = v" using u a r np unfolding MarkCompleteFromEvent_def accepted_eq[OF inv] by (auto simp: Let_def)
  then show ?thesis using life_ok_accept[OF inv np a] by simp
qed

lemma step_life:
  assumes inv: "life_inv (tt_state x) (tt_copies x)"
  shows "\<exists>new. tt_copies (tracker_step op x) = tt_copies x @ new \<and>
    life_ok (tt_state x) (tt_state (tracker_step op x)) (tt_copies x) new"
proof (cases op)
  case (TUpdate env now a w s)
  obtain cs t where "tracker_Update env now a w s (tt_state x) = (cs, t)" by fastforce
  then show ?thesis using update_life[OF inv] TUpdate by auto
next
  case (TReserve g k p now b kn)
  obtain a c t where r: "ReserveAdmission g k p now b kn (tt_state x) = (a, c, t)" by (cases "ReserveAdmission g k p now b kn (tt_state x)")
  have "same_life (tt_state x) t" using quiet_life(16)[OF inv, of g k p now b kn] r by simp
  then show ?thesis using life_ok_same[OF inv] TReserve r by simp
next
  case (TComplete g st)
  obtain c t where "MarkCompleteFromEvent g st (tt_state x) = (c, t)" by fastforce
  then show ?thesis using complete_life[OF inv] TComplete by auto
qed (use quiet_life[OF inv] life_ok_same[OF inv] reopen_life(1)[OF inv] remove_life(1)[OF inv] in \<open>simp_all add: quiet_def\<close>)

lemma run_life:
  assumes "life_inv (tt_state x) (tt_copies x)"
  shows "\<exists>new. tt_copies (tracker_run ops x) = tt_copies x @ new \<and>
    life_ok (tt_state x) (tt_state (tracker_run ops x)) (tt_copies x) new"
  using assms
proof (induction ops arbitrary: x)
  case Nil
  then show ?case by (simp add: tracker_run_def life_ok_def)
next
  case (Cons op ops)
  obtain n1 where a: "tt_copies (tracker_step op x) = tt_copies x @ n1"
    "life_ok (tt_state x) (tt_state (tracker_step op x)) (tt_copies x) n1" using step_life[OF Cons.prems] by blast
  then have "life_inv (tt_state (tracker_step op x)) (tt_copies (tracker_step op x))" by (simp add: life_ok_def)
  from Cons.IH[OF this] obtain n2 where b: "tt_copies (tracker_run ops (tracker_step op x)) = tt_copies (tracker_step op x) @ n2"
    "life_ok (tt_state (tracker_step op x)) (tt_state (tracker_run ops (tracker_step op x))) (tt_copies (tracker_step op x)) n2" by blast
  have e: "tracker_run (op # ops) x = tracker_run ops (tracker_step op x)" by (simp add: tracker_run_def)
  show ?case unfolding e using a(1) b life_ok_trans[OF a(2) b(2)[unfolded a(1)]] by auto
qed

lemma new_life: "life_inv (tt_state new_trace) (tt_copies new_trace)"
  by (simp add: life_inv_def new_trace_def NewTaskTracker_def)

text \<open>C35: A finished download is handed out once per life: over any run of the tracker the copies handed to the history writer
  carry pairwise different tokens, a copy that is current blocks further copies and late status events, and once the task was
  reopened or removed no later event makes an earlier copy current again.\<close>

theorem terminal_handed_once:
  assumes "x = tracker_run ops new_trace" and "c \<in> set (tt_copies x)"
  shows "distinct (map tk_terminalToken (tt_copies x)) \<and>
    (TerminalCopyCurrent g c (tt_state x) \<longrightarrow>
      MarkCompleteFromEvent g st (tt_state x) = (None, tt_state x) \<and> SetStatusFromEvent g st (tt_state x) = tt_state x) \<and>
    (g \<noteq> [] \<longrightarrow> \<not> TerminalCopyCurrent g c (tt_state (tracker_run later (tracker_step (TReopen g st) x)))) \<and>
    \<not> TerminalCopyCurrent g c (tt_state (tracker_run later (tracker_step (TRemove g) x)))"
proof -
  have inv: "life_inv (tt_state x) (tt_copies x)"
    using run_life[OF new_life, of ops] unfolding assms(1) life_ok_def by auto
  have stale: "\<not> TerminalCopyCurrent g c (tt_state (tracker_run later y))"
    if y: "life_inv (tt_state y) (tt_copies y)" and r: "retired g (tk_terminalToken c) (tt_state y)" for y
  proof -
    have "retired g (tk_terminalToken c) (tt_state (tracker_run later y))"
      using run_life[OF y, of later] r unfolding life_ok_def by blast
    then show ?thesis by (auto simp: retired_def TerminalCopyCurrent_def split: option.splits)
  qed
  have y1: "life_inv (tt_state (tracker_step (TReopen g st) x)) (tt_copies (tracker_step (TReopen g st) x))"
    "life_inv (tt_state (tracker_step (TRemove g) x)) (tt_copies (tracker_step (TRemove g) x))"
    using reopen_life(1)[OF inv] remove_life(1)[OF inv] by (simp_all add: quiet_def life_ok_def)
  have y2: "g \<noteq> [] \<Longrightarrow> retired g (tk_terminalToken c) (tt_state (tracker_step (TReopen g st) x))"
    "retired g (tk_terminalToken c) (tt_state (tracker_step (TRemove g) x))"
    using reopen_life(2)[OF inv] remove_life(2)[OF inv] assms(2) by (simp_all add: quiet_def)
  have blocked: "TerminalCopyCurrent g c (tt_state x) \<Longrightarrow> tr_processed (tt_state x) g" by (simp add: TerminalCopyCurrent_def)
  show ?thesis
    using life_invD(6)[OF inv] stale[OF y1(1)] stale[OF y1(2)] y2 blocked
    by (simp add: MarkCompleteFromEvent_def SetStatusFromEvent_def accepted_eq[OF inv] split: option.splits)
qed

definition demo_row_ops :: "tracker_op list" where
  "demo_row_ops = [TEnsure ''sg_1'' 100 ''u'' 4 ''active'' 7, TComplete ''sg_1'' ''complete'', TReopen ''sg_1'' [], TComplete ''sg_1'' ''error'']"

theorem terminal_handed_once_witness:
  "map tk_terminalToken (tt_copies (tracker_run demo_row_ops new_trace)) = [1, 2] \<and>
   \<not> TerminalCopyCurrent ''sg_1'' (tt_copies (tracker_run demo_row_ops new_trace) ! 1)
       (tt_state (tracker_run [TComplete ''sg_1'' ''complete''] (tracker_step (TRemove ''sg_1'') (tracker_run demo_row_ops new_trace))))"
proof -
  have m: "map tk_terminalToken (tt_copies (tracker_run demo_row_ops new_trace)) = [1, 2]" by code_simp
  then have "length (tt_copies (tracker_run demo_row_ops new_trace)) = 2" by (metis length_map list.size(3,4) One_nat_def Suc_1 add_0 plus_1_eq_Suc)
  then have "tt_copies (tracker_run demo_row_ops new_trace) ! 1 \<in> set (tt_copies (tracker_run demo_row_ops new_trace))" by (intro nth_mem) simp
  from terminal_handed_once[OF refl this, of "''sg_1''" _ "[TComplete ''sg_1'' ''complete'']"] m show ?thesis by blast
qed

section \<open>Rows\<close>

definition row_ok :: "string \<Rightarrow> task_row \<Rightarrow> bool" where
  "row_ok g r \<longleftrightarrow> tk_GID r = g \<and> (0 < tk_admissionToken r \<longrightarrow> is_surge g) \<and>
     (tk_admitted r \<longrightarrow> 0 < tk_admissionToken r \<and> tk_Status r \<in> {''waiting'', ''active''} \<and> tk_ActivatedAt r \<noteq> zero_time) \<and>
     (tk_FirstProgressAt r \<noteq> zero_time \<longrightarrow> tk_ActivatedAt r \<noteq> zero_time \<and> tk_progressBaselineKnown r)"

text \<open>A row after a method that makes no reservation: sound, with its ticket number, and pending only if it was.\<close>

definition row_kept :: "string \<Rightarrow> task_row \<Rightarrow> task_row \<Rightarrow> bool" where
  "row_kept g r0 r \<longleftrightarrow> (row_ok g r0 \<longrightarrow>
     row_ok g r \<and> tk_admissionToken r = tk_admissionToken r0 \<and> (tk_admitted r \<longrightarrow> tk_admitted r0))"

definition row_fresh :: "string \<Rightarrow> task_row \<Rightarrow> bool" where
  "row_fresh g r \<longleftrightarrow> row_ok g r \<and> tk_admissionToken r = 0 \<and> \<not> tk_admitted r"

lemma kept_trans: "row_kept g a b \<Longrightarrow> row_kept g b c \<Longrightarrow> row_kept g a c"
  by (auto simp: row_kept_def)

lemma kept_refl [simp]: "row_kept g r r"
  by (simp add: row_kept_def)

lemma fresh_kept: "row_fresh g a \<Longrightarrow> row_kept g a b \<Longrightarrow> row_fresh g b"
  by (auto simp: row_fresh_def row_kept_def)

lemma new_fresh [simp]: "row_fresh g (new_row g now)"
  by (simp add: row_fresh_def row_ok_def new_row_def)

lemma activation_kept: "row_kept g r (observeActivationLocked now b k r)"
  by (auto simp: row_kept_def row_ok_def observeActivationLocked_def Let_def)

lemma completed_kept: "row_kept g r (observeCompletedLocked now c r)"
  by (auto simp: row_kept_def row_ok_def observeCompletedLocked_def)

lemma status_kept: "row_kept g r (applyAuthoritativeStatusLocked st r)"
  by (auto simp: row_kept_def row_ok_def applyAuthoritativeStatusLocked_def Let_def drop_claim_def drop_reservation_def
      clearActivationFactsLocked_def)

lemma files_kept: "row_kept g r (with_files fs r)"
  by (auto simp: row_kept_def row_ok_def with_files_def Let_def split: list.splits)

lemma sample_kept: "row_kept g r (sampleSpeed env s r)"
  by (auto simp: row_kept_def row_ok_def sampleSpeed_def sampleSpeedInternal_def acceptPeakSpeed_def Let_def)

lemma clock_kept: "row_kept g r (active_clock now r)"
  by (auto simp: row_kept_def row_ok_def active_clock_def Let_def)

lemma accept_peak_kept: "row_kept g r (acceptPeakSpeed s r)"
  by (auto simp: row_kept_def row_ok_def acceptPeakSpeed_def Let_def)

lemma kept_if: "(c \<Longrightarrow> row_kept g r a) \<Longrightarrow> (\<not> c \<Longrightarrow> row_kept g r b) \<Longrightarrow> row_kept g r (if c then a else b)"
  by simp

lemma peak_kept: "row_kept g r (record_peak_row env p w r)"
proof -
  define q where "q = (if quot64 p w > tk_BestEff r then r\<lparr>tk_BestEff := quot64 p w\<rparr> else r)"
  have a: "row_kept g r q" by (auto simp: q_def row_kept_def row_ok_def)
  have t: "row_kept g r b \<Longrightarrow> row_kept g r (b\<lparr>tk_PeakThreadCount := n\<rparr>)" for b n
    by (auto simp: row_kept_def row_ok_def)
  note c = kept_trans[OF a accept_peak_kept[of g q p]]
  show ?thesis unfolding record_peak_row_def Let_def q_def[symmetric]
    by (intro kept_if t a c)
qed

text \<open>What a method without reservation does to the row of an identifier.\<close>

definition row_step :: "string \<Rightarrow> tracker \<Rightarrow> tracker \<Rightarrow> bool" where
  "row_step g t u \<longleftrightarrow>
     (\<forall>r. tr_tasks u g = Some r \<longrightarrow> (case tr_tasks t g of None \<Rightarrow> row_fresh g r | Some r0 \<Rightarrow> row_kept g r0 r)) \<and>
     (is_surge g \<longrightarrow> tr_tasks t g \<noteq> None \<longrightarrow> tr_tasks u g \<noteq> None)"

lemma row_step_same: "tr_tasks u = tr_tasks t \<Longrightarrow> row_step g t u" for t u :: tracker and g :: string
  by (auto simp: row_step_def split: option.splits)

lemma row_step_put:
  "(case tr_tasks t h of None \<Rightarrow> row_fresh h r | Some r0 \<Rightarrow> row_kept h r0 r) \<Longrightarrow> row_step g t (put_row h r t)"
  by (auto simp: row_step_def split: option.splits)

lemma row_step_tasks: "row_step g t u \<Longrightarrow> tr_tasks t' = tr_tasks t \<Longrightarrow> tr_tasks u' = tr_tasks u \<Longrightarrow> row_step g t' u'"
  by (simp add: row_step_def)

text \<open>A row of the other engine may be dropped and made anew.\<close>

lemma fresh_again: "\<not> is_surge g \<Longrightarrow> row_fresh g b \<Longrightarrow> row_kept g a b"
  by (simp add: row_fresh_def row_kept_def row_ok_def)

lemma row_step_trans:
  assumes "row_step g t u" and "row_step g u v"
  shows "row_step g t v"
proof (cases "tr_tasks v g")
  case None
  then show ?thesis using assms by (simp add: row_step_def)
next
  case (Some r)
  show ?thesis
  proof (cases "tr_tasks u g")
    case None
    then have f: "row_fresh g r" using assms(2) Some by (simp add: row_step_def)
    show ?thesis
    proof (cases "tr_tasks t g")
      case None
      then show ?thesis using f Some by (simp add: row_step_def)
    next
      case (Some a)
      then have "\<not> is_surge g" using assms(1) None by (simp add: row_step_def)
      then show ?thesis using fresh_again[OF _ f, of a] Some \<open>tr_tasks v g = Some r\<close> by (simp add: row_step_def)
    qed
  next
    case (Some b)
    then have k: "row_kept g b r" using assms(2) \<open>tr_tasks v g = Some r\<close> by (simp add: row_step_def)
    show ?thesis
    proof (cases "tr_tasks t g")
      case None
      then have "row_fresh g b" using assms(1) Some by (simp add: row_step_def)
      from fresh_kept[OF this k] show ?thesis using None \<open>tr_tasks v g = Some r\<close> by (simp add: row_step_def)
    next
      case (Some a)
      then have "row_kept g a b" using assms(1) \<open>tr_tasks u g = Some b\<close> by (simp add: row_step_def)
      from kept_trans[OF this k] show ?thesis using Some \<open>tr_tasks v g = Some r\<close> by (simp add: row_step_def)
    qed
  qed
qed

lemma accepted_tasks: "isTerminalAcceptedLocked h t = (b, u) \<Longrightarrow> tr_tasks u = tr_tasks t"
  by (auto simp: isTerminalAcceptedLocked_def getLifecycle_def Let_def split: if_splits option.splits prod.splits)

lemma accepted_tasks' [simp]: "tr_tasks (snd (isTerminalAcceptedLocked h t)) = tr_tasks t"
  using accepted_tasks by (metis prod.collapse)

lemma accept_tasks: "accept_copy h r t = (c, u) \<Longrightarrow> tr_tasks u = tr_tasks t"
  by (auto simp: accept_copy_def markTerminalAcceptedLocked_def stampTerminalCopyLocked_def getLifecycle_def Let_def
      split: option.splits)

lemma created_fresh: "row_fresh (rt_GID x) (createTrackedTask now x)"
proof -
  have "row_fresh (rt_GID x) ((new_row (rt_GID x) now)\<lparr>tk_Status := rt_Status x, tk_TotalLength := rt_TotalLength x,
          tk_CompletedLength := rt_CompletedLength x, tk_Dir := rt_Dir x\<rparr>)"
    by (simp add: row_fresh_def row_ok_def new_row_def)
  then show ?thesis unfolding createTrackedTask_def by (rule fresh_kept[OF _ files_kept])
qed

lemma fill_kept: "row_kept g r (fillTaskInfo x r)"
proof -
  have "row_kept g r (r\<lparr>tk_TotalLength := rt_TotalLength x, tk_CompletedLength := rt_CompletedLength x, tk_Dir := rt_Dir x\<rparr>)"
    by (auto simp: row_kept_def row_ok_def)
  then show ?thesis unfolding fillTaskInfo_def by (rule kept_trans[OF _ files_kept])
qed

lemma active_row_kept: "row_kept g r (update_active_row env now x r)"
proof -
  define q where "q = observeCompletedLocked now (rt_CompletedLength x)
    (observeActivationLocked now (rt_CompletedLength x) True (active_clock now r))"
  have a: "row_kept g r q" unfolding q_def
    using kept_trans[OF kept_trans[OF clock_kept activation_kept] completed_kept] .
  have n: "\<not> tk_admitted q" by (simp add: q_def observeCompletedLocked_def observeActivationLocked_def Let_def)
  define q2 where "q2 = q\<lparr>tk_Status := rt_Status x, tk_CompletedLength := rt_CompletedLength x, tk_TotalLength := rt_TotalLength x\<rparr>"
  have b: "row_kept g r q2" using a n by (auto simp: q2_def row_kept_def row_ok_def)
  have "row_kept g r (q2\<lparr>tk_Dir := rt_Dir x\<rparr>)" using b by (auto simp: row_kept_def row_ok_def)
  note c = kept_trans[OF this files_kept[of g _ "rt_Files x"]]
  define q3 where "q3 = (if tk_FilePath q2 = [] \<and> has_path (rt_Files x) then with_files (rt_Files x) (q2\<lparr>tk_Dir := rt_Dir x\<rparr>) else q2)"
  have d: "row_kept g r q3" unfolding q3_def by (intro kept_if b c)
  show ?thesis unfolding update_active_row_def Let_def q_def[symmetric] q2_def[symmetric] q3_def[symmetric]
    by (intro kept_if d kept_trans[OF d sample_kept])
qed

lemma kept_lengths:
  "row_kept g r a \<Longrightarrow> row_kept g r (a\<lparr>tk_CompletedLength := n\<rparr>)" "row_kept g r a \<Longrightarrow> row_kept g r (a\<lparr>tk_lastActiveAt := m\<rparr>)"
  by (auto simp: row_kept_def row_ok_def)

lemma waiting_row_kept: "row_kept g r (update_waiting_row x r)"
  unfolding update_waiting_row_def Let_def by (intro kept_lengths kept_if status_kept)

lemma active_step: "row_step g t (updateActiveTask env now x t)"
  unfolding updateActiveTask_def
  by (rule row_step_put) (auto split: option.splits intro: active_row_kept fresh_kept[OF created_fresh active_row_kept])

lemma ensure_step: "row_step g t (ensureTracked now x t)"
  unfolding ensureTracked_def using row_step_put[where t = t and h = "rt_GID x" and r = "createTrackedTask now x" and g = g] created_fresh row_step_same[where t = t and u = t and g = g]
  by simp

lemma waiting_step: "row_step g t (updateWaitingTask now x t)"
proof (rule row_step_trans[OF ensure_step[of g t now x]])
  let ?t = "ensureTracked now x t"
  show "row_step g ?t (updateWaitingTask now x t)"
    unfolding updateWaitingTask_def Let_def
    using row_step_put[where t = ?t and h = "rt_GID x" and g = g] waiting_row_kept row_step_same[where t = ?t and u = ?t and g = g]
    by (cases "tr_tasks ?t (rt_GID x)") simp_all
qed

lemma fold_step: "(\<And>x t. row_step g t (f x t)) \<Longrightarrow> row_step g t (fold f xs t)"
proof (induction xs arbitrary: t)
  case Nil
  then show ?case using row_step_same[where t = t and u = t and g = g] by simp
next
  case (Cons x xs)
  have "row_step g (f x t) (fold f xs (f x t))" by (rule Cons.IH[OF Cons.prems])
  from row_step_trans[OF Cons.prems[of t x] this] show ?case by simp
qed

lemma stopped_task_step: "updateStoppedTask now x t = (c, u) \<Longrightarrow> row_step g t u"
proof -
  assume u: "updateStoppedTask now x t = (c, u)"
  obtain acc v where v: "isTerminalAcceptedLocked (rt_GID x) t = (acc, v)" by fastforce
  note tv = accepted_tasks[OF v]
  have put: "row_step g t w" if "accept_copy (rt_GID x) r (put_row (rt_GID x) r v) = (cp, w)"
      "case tr_tasks t (rt_GID x) of None \<Rightarrow> row_fresh (rt_GID x) r | Some r0 \<Rightarrow> row_kept (rt_GID x) r0 r" for r cp w
  proof -
    have "row_step g v (put_row (rt_GID x) r v)" by (rule row_step_put) (use that(2) tv in simp)
    then show ?thesis by (rule row_step_tasks) (use tv accept_tasks[OF that(1)] in simp_all)
  qed
  have k: "row_kept (rt_GID x) r (fillTaskInfo x (applyAuthoritativeStatusLocked (rt_Status x) r))" for r
    by (rule kept_trans[OF status_kept fill_kept])
  have f: "row_fresh (rt_GID x) (applyAuthoritativeStatusLocked (rt_Status x) (createTrackedTask now x))"
    by (rule fresh_kept[OF created_fresh status_kept])
  have same: "row_step g t t" "row_step g t v" using row_step_same tv by simp_all
  show ?thesis
  proof (cases "tr_tasks t (rt_GID x)")
    case None
    then show ?thesis using u same f put unfolding updateStoppedTask_def Let_def v prod.case tv
      by (auto split: if_splits prod.splits)
  next
    case (Some r)
    then show ?thesis using u same k put unfolding updateStoppedTask_def Let_def v prod.case tv
      by (auto split: if_splits prod.splits)
  qed
qed

lemma stopped_step: "update_stopped now xs t = (c, u) \<Longrightarrow> row_step g t u"
proof (induction xs arbitrary: t c u)
  case Nil
  then show ?case using row_step_same[where t = t and u = t and g = g] by simp
next
  case (Cons x xs)
  obtain c1 t1 where a: "updateStoppedTask now x t = (c1, t1)" by fastforce
  obtain c2 t2 where b: "update_stopped now xs t1 = (c2, t2)" by fastforce
  from row_step_trans[OF stopped_task_step[OF a] Cons.IH[OF b]] show ?case using Cons.prems a b by simp
qed

lemma cleanup_step: "row_step g t (cleanup now cur t)"
  by (auto simp: row_step_def cleanup_def split: option.splits if_splits)

lemma update_step: "tracker_Update env now a w s t = (c, u) \<Longrightarrow> row_step g t u"
proof -
  assume u: "tracker_Update env now a w s t = (c, u)"
  define t2 where "t2 = fold (updateWaitingTask now) w (fold (updateActiveTask env now) a t)"
  obtain t3 where t3: "update_stopped now s t2 = (c, t3)" and u3: "u = cleanup now (set (map rt_GID (a @ w @ s))) t3"
    using u unfolding tracker_Update_def Let_def t2_def[symmetric] by (auto split: prod.splits)
  have "row_step g t t2" unfolding t2_def
    by (rule row_step_trans[OF fold_step fold_step]) (rule active_step, rule waiting_step)
  from row_step_trans[OF row_step_trans[OF this stopped_step[OF t3]] cleanup_step] show ?thesis unfolding u3 .
qed

lemma row_or_new_ok: "(case tr_tasks t h of None \<Rightarrow> row_fresh h (row_or_new h now t) | Some r0 \<Rightarrow> row_kept h r0 (row_or_new h now t))"
  by (simp add: row_or_new_def split: option.splits)

text \<open>Writing a field of the row that no law speaks about.\<close>

lemma or_new_step:
  assumes "\<And>r. row_kept h r (f r)"
  shows "row_step g t (put_row h (f (row_or_new h now t)) t)"
  by (rule row_step_put) (use assms fresh_kept[OF _ assms] row_or_new_ok[where t = t and h = h and now = now] in \<open>auto simp: row_or_new_def split: option.splits\<close>)

lemma change_step:
  assumes "\<And>r. row_kept h r (f r)"
  shows "row_step g t (change_row h f t)"
proof (cases "tr_tasks t h")
  case None
  then show ?thesis using row_step_same[of t t g] by (simp add: change_row_def)
next
  case (Some r)
  then show ?thesis using row_step_put[where t = t and h = h and g = g and r = "f r"] assms[of r] by (simp add: change_row_def)
qed

lemma fields_kept:
  "row_kept g r a \<Longrightarrow> row_kept g r (a\<lparr>tk_AddedAt := n\<rparr>)" "row_kept g r a \<Longrightarrow> row_kept g r (a\<lparr>tk_MinChunk := n\<rparr>)"
  "row_kept g r a \<Longrightarrow> row_kept g r (a\<lparr>tk_compatClaim := q\<rparr>)" "row_kept g r a \<Longrightarrow> row_kept g r (a\<lparr>tk_addAnchorAt := n\<rparr>)"
  "row_kept g r a \<Longrightarrow> row_kept g r (a\<lparr>tk_TotalLength := n\<rparr>)" "row_kept g r a \<Longrightarrow> row_kept g r (a\<lparr>tk_SourceURL := s\<rparr>)"
  "row_kept g r a \<Longrightarrow> row_kept g r (a\<lparr>tk_ThreadCount := n\<rparr>)" "row_kept g r a \<Longrightarrow> row_kept g r (a\<lparr>tk_IsKeepAlive := b\<rparr>)"
  "row_kept g r a \<Longrightarrow> row_kept g r (a\<lparr>tk_ThreadCount := n, tk_IsExploration := b, tk_CreatedAt := m\<rparr>)"
  "row_kept g r a \<Longrightarrow> row_kept g r (a\<lparr>tk_LiveConnections := n\<rparr>)" "row_kept g r a \<Longrightarrow> row_kept g r (a\<lparr>tk_TTFBMs := n\<rparr>)"
  "row_kept g r a \<Longrightarrow> row_kept g r (a\<lparr>tk_TargetBandwidth := n\<rparr>)" "row_kept g r a \<Longrightarrow> row_kept g r (a\<lparr>tk_AllocatedAt := n\<rparr>)"
  "row_kept g r a \<Longrightarrow> row_kept g r (a\<lparr>tk_Scope := s\<rparr>)" "row_kept g r a \<Longrightarrow> row_kept g r (a\<lparr>tk_PeakEnvKey := s\<rparr>)"
  "row_kept g r a \<Longrightarrow> row_kept g r (a\<lparr>tk_Domain := s, tk_CurrentEnvKey := u\<rparr>)"
  "row_kept g r a \<Longrightarrow> row_kept g r (a\<lparr>tk_TotalLength := n, tk_CompletedLength := n\<rparr>)"
  "row_kept g r a \<Longrightarrow> tk_Status a = [] \<Longrightarrow> row_kept g r (a\<lparr>tk_Status := s\<rparr>)"
  "row_kept g r a \<Longrightarrow> row_kept g r (a\<lparr>tk_lastActiveAt := n, tk_activeElapsed := m, tk_maxActiveGap := i, tk_terminalElapsed := j,
     tk_peakFromAvgFallback := b\<rparr>)"
  by (auto simp: row_kept_def row_ok_def)

lemma fresh_fields:
  "row_fresh h ((new_row h now)\<lparr>tk_Status := s, tk_TotalLength := n, tk_SourceURL := u, tk_ThreadCount := m\<rparr>)"
  "row_fresh h ((new_row h now)\<lparr>tk_Status := s, tk_TotalLength := n, tk_CompletedLength := m\<rparr>)"
  "row_fresh h ((new_row h now)\<lparr>tk_LiveConnections := n\<rparr>)"
  "row_fresh h ((new_row h now)\<lparr>tk_Scope := s, tk_TTFBMs := n, tk_Domain := d, tk_CurrentEnvKey := u, tk_PeakEnvKey := v\<rparr>)"
  by (simp_all add: row_fresh_def row_ok_def new_row_def)

lemma setter_steps:
  "row_step g t (SetKeepAlive h keep t)" "row_step g t (SetMinChunk h m now t)" "row_step g t (SetThreadInfo h th ex now t)"
  "row_step g t (SetTTFB h ms t)"
  unfolding SetKeepAlive_def SetMinChunk_def SetThreadInfo_def SetTTFB_def
  by (intro change_step or_new_step fields_kept kept_if kept_refl)+

lemma target_step: "row_step g t (SetTargetBandwidth h b now t)"
proof -
  have "row_kept h r (let r = r\<lparr>tk_TargetBandwidth := b\<rparr> in if b \<le> 0 then r
      else let r2 = r\<lparr>tk_AllocatedAt := now\<rparr>
           in if is_surge h then r2 else if tk_Status r2 = [] then r2\<lparr>tk_Status := ''active''\<rparr> else r2)" for r
    unfolding Let_def by (intro kept_if fields_kept kept_refl)
  from or_new_step[of h "\<lambda>r. (let r = r\<lparr>tk_TargetBandwidth := b\<rparr> in if b \<le> 0 then r
      else let r2 = r\<lparr>tk_AllocatedAt := now\<rparr>
           in if is_surge h then r2 else if tk_Status r2 = [] then r2\<lparr>tk_Status := ''active''\<rparr> else r2)", OF this]
  show ?thesis by (simp add: SetTargetBandwidth_def Let_def)
qed

lemma connection_step: "row_step g t (UpdateLiveConnections h n now t)"
proof (cases "n < 0 \<or> (tr_tasks t h = None \<and> n \<le> 0)")
  case True
  then show ?thesis using row_step_same[of t t g] by (auto simp: UpdateLiveConnections_def)
next
  case False
  show ?thesis
    by (cases "tr_tasks t h") (use False in \<open>auto simp: UpdateLiveConnections_def fresh_fields intro!: row_step_put fields_kept kept_refl\<close>)
qed

lemma scope_step: "row_step g t (SetScopeAndEnv h s m d e now t)"
proof (cases "tr_tasks t h")
  case None
  then show ?thesis using fresh_fields(4) by (simp add: SetScopeAndEnv_def row_step_put)
next
  case (Some r)
  show ?thesis unfolding SetScopeAndEnv_def Some option.case Let_def
    by (rule row_step_put) (simp only: Some option.case, intro kept_if fields_kept kept_refl)
qed

lemma event_steps:
  "row_step g t (EnsureTrackedComplete h n now t)" "row_step g t (UpdateProgressFromEvent h n c now t)"
  "row_step g t (RecordPeakEfficiency env h p w t)"
proof -
  show "row_step g t (EnsureTrackedComplete h n now t)"
    using row_step_same[of t t g]
    by (cases "tr_tasks t h") (auto simp: EnsureTrackedComplete_def fresh_fields intro!: row_step_put fields_kept kept_refl)
  show "row_step g t (UpdateProgressFromEvent h n c now t)"
  proof (cases "tr_tasks t h")
    case None
    then show ?thesis using row_step_same[of t t g] by (simp add: UpdateProgressFromEvent_def)
  next
    case (Some r)
    have a: "row_kept h r (if n > 0 then r\<lparr>tk_TotalLength := n\<rparr> else r)" by (intro kept_if fields_kept kept_refl)
    have b: "row_kept h r ((observeCompletedLocked now c a)\<lparr>tk_CompletedLength := c\<rparr>)" if "row_kept h r a" for a
      using kept_trans[OF that completed_kept[of h a now c]] by (auto simp: row_kept_def row_ok_def)
    show ?thesis unfolding UpdateProgressFromEvent_def Some option.case Let_def
      by (rule row_step_put) (simp only: Some option.case, intro kept_if a b)
  qed
  show "row_step g t (RecordPeakEfficiency env h p w t)"
    using row_step_same[of t t g]
    by (cases "tr_tasks t h") (auto simp: RecordPeakEfficiency_def intro!: row_step_put peak_kept)
qed

lemma ensure_event_step: "row_step g t (EnsureTrackedFromEvent h n u th st now t)"
proof (cases "tr_tasks t h")
  case None
  then show ?thesis using fresh_fields(1) by (simp add: EnsureTrackedFromEvent_def row_step_put)
next
  case (Some r)
  obtain acc v where v: "isTerminalAcceptedLocked h t = (acc, v)" by fastforce
  note tv = accepted_tasks[OF v]
  define r3 where "r3 = (let r1 = (if n > 0 then r\<lparr>tk_TotalLength := n\<rparr> else r);
              r2 = (if u \<noteq> [] \<and> tk_SourceURL r1 = [] then r1\<lparr>tk_SourceURL := u\<rparr> else r1)
          in if th > 0 \<and> tk_ThreadCount r2 = 0 then r2\<lparr>tk_ThreadCount := th\<rparr> else r2)"
  have a: "row_kept h r r3" unfolding r3_def Let_def by (intro kept_if fields_kept kept_refl)
  have b: "row_kept h r (if acc then r3 else applyAuthoritativeStatusLocked st r3)"
    by (intro kept_if a kept_trans[OF a status_kept])
  have c: "row_step g t (put_row h x v)" if "row_kept h r x" for x
  proof -
    have "row_step g v (put_row h x v)" by (rule row_step_put) (use that Some tv in simp)
    then show ?thesis by (rule row_step_tasks) (use tv in simp_all)
  qed
  have d: "row_step g t (put_row h r3 t)" by (rule row_step_put) (use a Some in simp)
  have "EnsureTrackedFromEvent h n u th st now t =
      (if st = [] then put_row h r3 t else put_row h (if acc then r3 else applyAuthoritativeStatusLocked st r3) v)"
    by (simp add: EnsureTrackedFromEvent_def Some v r3_def Let_def)
  then show ?thesis using c[OF b] d by simp
qed

text \<open>Methods that change one existing row after asking whether its terminal was accepted.\<close>

lemma asked_step:
  assumes "isTerminalAcceptedLocked h t = (acc, v)" and "tr_tasks t h = Some r" and "row_kept h r x"
  shows "row_step g t (put_row h x v)"
proof -
  note tv = accepted_tasks[OF assms(1)]
  have "row_step g v (put_row h x v)" by (rule row_step_put) (use assms tv in simp)
  then show ?thesis by (rule row_step_tasks) (use tv in simp_all)
qed

lemma status_step: "row_step g t (SetStatusFromEvent h st t)"
proof -
  obtain acc v where v: "isTerminalAcceptedLocked h t = (acc, v)" by fastforce
  note tv = accepted_tasks[OF v]
  show ?thesis using row_step_same[OF tv, of g] asked_step[OF v] status_kept
    by (cases "tr_tasks t h") (auto simp: SetStatusFromEvent_def v tv)
qed

lemma complete_step: "MarkCompleteFromEvent h st t = (c, u) \<Longrightarrow> row_step g t u"
proof -
  assume u: "MarkCompleteFromEvent h st t = (c, u)"
  obtain acc v where v: "isTerminalAcceptedLocked h t = (acc, v)" by fastforce
  note tv = accepted_tasks[OF v]
  show ?thesis
  proof (cases "tr_tasks t h")
    case None
    then show ?thesis using u row_step_same[of t t g] by (simp add: MarkCompleteFromEvent_def)
  next
    case (Some r)
    obtain cp w where w: "accept_copy h (applyAuthoritativeStatusLocked st r) (put_row h (applyAuthoritativeStatusLocked st r) v) = (cp, w)"
      by fastforce
    have "row_step g t (put_row h (applyAuthoritativeStatusLocked st r) v)" by (rule asked_step[OF v Some status_kept])
    then have "row_step g t w" by (rule row_step_tasks) (use accept_tasks[OF w] in simp_all)
    then show ?thesis using u row_step_same[OF tv, of g] by (auto simp: MarkCompleteFromEvent_def Some v Let_def w split: if_splits)
  qed
qed

lemma activate_step: "row_step g t (ObserveActivation h b kn now t)"
proof (cases "h = []")
  case True
  then show ?thesis using row_step_same[of t t g] by (simp add: ObserveActivation_def)
next
  case False
  obtain acc v where v: "isTerminalAcceptedLocked h t = (acc, v)" by fastforce
  note tv = accepted_tasks[OF v]
  have "row_step g v (put_row h (observeActivationLocked now b kn (row_or_new h now v)) v)"
    by (rule or_new_step) (rule activation_kept)
  then have "row_step g t (put_row h (observeActivationLocked now b kn (row_or_new h now v)) v)"
    by (rule row_step_tasks) (use tv in simp_all)
  then show ?thesis using row_step_same[OF tv, of g] False by (simp add: ObserveActivation_def v)
qed

lemma tracker_release_step: "row_step g t (snd (ReleaseAdmission h k t))"
proof (cases "tr_tasks t h")
  case None
  then show ?thesis using row_step_same[of t t g] by (simp add: ReleaseAdmission_def)
next
  case (Some r)
  have "row_kept h r ((clearActivationFactsLocked (r\<lparr>tk_admitted := False\<rparr>))\<lparr>tk_TargetBandwidth := 0, tk_AllocatedAt := zero_time\<rparr>)"
    by (auto simp: row_kept_def row_ok_def clearActivationFactsLocked_def)
  then show ?thesis using Some row_step_same[of t t g] by (auto simp: ReleaseAdmission_def intro!: row_step_put)
qed

lemma added_step: "row_step g t (MarkAdded h now t)"
proof (cases "h = []")
  case True
  then show ?thesis using row_step_same[of t t g] by (simp add: MarkAdded_def)
next
  case False
  define r0 where "r0 = (row_or_new h now t)\<lparr>tk_AddedAt := now\<rparr>"
  define cand where "cand = (\<not> is_surge h \<and> tk_ActivatedAt r0 = zero_time)"
  obtain acc v where v: "(if cand then isTerminalAcceptedLocked h t else (False, t)) = (acc, v)" by fastforce
  then have tv: "tr_tasks v = tr_tasks t" using accepted_tasks by (auto split: if_splits)
  define r2 where "r2 = (if tk_compatClaim r0 = CompatNone then r0\<lparr>tk_compatClaim := CompatAria2Add\<rparr> else r0)"
  define r1 where "r1 = (if cand \<and> \<not> acc \<and> (tk_Status r0 = [] \<or> (tk_Status r0 = ''active'' \<and> tk_compatClaim r0 = CompatNone))
                  then (if tk_addAnchorAt r2 = zero_time then r2\<lparr>tk_addAnchorAt := now\<rparr> else r2) else r0)"
  have k: "row_kept h (row_or_new h now t) r1"
    unfolding r1_def r2_def r0_def by (intro kept_if fields_kept kept_refl)
  have "MarkAdded h now t = put_row h (r1\<lparr>tk_lastActiveAt := now, tk_activeElapsed := 0, tk_maxActiveGap := 0,
      tk_terminalElapsed := 0, tk_peakFromAvgFallback := False\<rparr>) v" (is "_ = put_row h ?r v")
    unfolding MarkAdded_def Let_def r0_def[symmetric] cand_def[symmetric] v prod.case r2_def[symmetric] r1_def[symmetric]
    using False by simp
  moreover have "row_kept h (row_or_new h now t) ?r" by (intro fields_kept k)
  then have "row_step g v (put_row h ?r v)"
    using row_or_new_ok[where t = t and h = h and now = now] tv fresh_kept[OF new_fresh]
    by (intro row_step_put) (auto simp: row_or_new_def split: option.splits)
  then have "row_step g t (put_row h ?r v)" by (rule row_step_tasks) (use tv in simp_all)
  ultimately show ?thesis by simp
qed

lemma reopen_step: "row_step g t (ReopenAfterStoppedToLive h st t)"
proof (cases "h = []")
  case True
  then show ?thesis using row_step_same[of t t g] by (simp add: ReopenAfterStoppedToLive_def)
next
  case False
  obtain ls v where v: "getLifecycle h t = (ls, v)" by fastforce
  then have tv: "tr_tasks v = tr_tasks t" by (auto simp: getLifecycle_def Let_def split: option.splits)
  show ?thesis
  proof (cases "tr_tasks t h")
    case None
    then show ?thesis using False v tv by (intro row_step_same) (simp add: ReopenAfterStoppedToLive_def Let_def)
  next
    case (Some r)
    let ?r = "applyAuthoritativeStatusLocked (if st = [] then ''active'' else st)
        (clearActivationFactsLocked (if tk_admissionToken r > 0 then drop_reservation r else r))"
    have "row_kept h r (clearActivationFactsLocked (if tk_admissionToken r > 0 then drop_reservation r else r))"
      by (auto simp: row_kept_def row_ok_def drop_reservation_def clearActivationFactsLocked_def)
    then have "row_kept h r ?r" by (rule kept_trans[OF _ status_kept])
    then have "row_step g t (put_row h ?r t)" using Some by (intro row_step_put) simp
    then show ?thesis
      by (rule row_step_tasks) (use False v tv Some in \<open>simp_all add: ReopenAfterStoppedToLive_def Let_def\<close>)
  qed
qed

section \<open>Tickets\<close>

definition tickets_of :: "string \<Rightarrow> tracker_trace \<Rightarrow> nat list" where
  "tickets_of g x = map snd (filter (\<lambda>p. fst p = g) (tt_tickets x))"

definition high_mark :: "nat list \<Rightarrow> nat" where
  "high_mark ks = (if ks = [] then 0 else List.last ks)"

definition ticket_inv :: "string \<Rightarrow> tracker_trace \<Rightarrow> bool" where
  "ticket_inv g x \<longleftrightarrow> sorted_wrt (<) (tickets_of g x) \<and> (\<forall>k \<in> set (tickets_of g x). 0 < k) \<and>
     (case tr_tasks (tt_state x) g of None \<Rightarrow> tickets_of g x = []
      | Some r \<Rightarrow> row_ok g r \<and> tk_admissionToken r = high_mark (tickets_of g x))"

lemma high_mark_max: "sorted_wrt (<) ks \<Longrightarrow> k \<in> set ks \<Longrightarrow> k \<le> high_mark ks" for ks :: "nat list"
  by (induction ks rule: rev_induct) (auto simp: high_mark_def sorted_wrt_append)

lemma quiet_tickets:
  assumes g: "is_surge g" and inv: "ticket_inv g x" and s: "row_step g (tt_state x) (tt_state y)" and k: "tt_tickets y = tt_tickets x"
  shows "ticket_inv g y"
proof -
  have e: "tickets_of g y = tickets_of g x" using k by (simp add: tickets_of_def)
  show ?thesis
  proof (cases "tr_tasks (tt_state y) g")
    case None
    then have "tr_tasks (tt_state x) g = None" using s g by (simp add: row_step_def)
    then show ?thesis using inv None by (simp add: ticket_inv_def e)
  next
    case (Some r)
    show ?thesis
    proof (cases "tr_tasks (tt_state x) g")
      case None
      then have "row_fresh g r" using s Some by (simp add: row_step_def)
      then show ?thesis using inv None Some by (simp add: ticket_inv_def e row_fresh_def high_mark_def)
    next
      case (Some r0)
      then have "row_kept g r0 r" using s \<open>tr_tasks (tt_state y) g = Some r\<close> by (simp add: row_step_def)
      then show ?thesis using inv Some \<open>tr_tasks (tt_state y) g = Some r\<close> by (simp add: ticket_inv_def e row_kept_def)
    qed
  qed
qed

lemma reserve_tickets:
  assumes g: "is_surge g" and inv: "ticket_inv g x"
  shows "ticket_inv g (tracker_step (TReserve h k p now b kn) x)"
proof -
  let ?t = "tt_state x"
  define y where "y = tracker_step (TReserve h k p now b kn) x"
  obtain tick created u where r: "ReserveAdmission h k p now b kn ?t = (tick, created, u)" by (cases "ReserveAdmission h k p now b kn ?t")
  then have y: "tt_state y = u" "tt_tickets y = tt_tickets x @ (if created then [(h, k)] else [])" by (simp_all add: y_def)
  obtain acc v where v: "isTerminalAcceptedLocked h ?t = (acc, v)" by fastforce
  note tv = accepted_tasks[OF v]
  have "ticket_inv g y"
  proof (cases created)
    case False
    then have "u = ?t \<or> u = v" using r v by (auto simp: ReserveAdmission_def Let_def split: if_splits option.splits)
    then have "row_step g ?t u" using row_step_same tv by metis
    then show ?thesis using quiet_tickets[OF g inv] y False by simp
  next
    case True
    then obtain r0 where r0: "tr_tasks ?t h = Some r0" and st: "tk_Status r0 = ''waiting''" and k: "tk_admissionToken r0 < k"
      and u: "u = put_row h (reserve_row k p now b kn r0) v" and h: "is_surge h" "now \<noteq> zero_time"
      using r v tv by (auto simp: ReserveAdmission_def Let_def split: if_splits option.splits)
    show ?thesis
    proof (cases "h = g")
      case False
      then have e: "tickets_of g y = tickets_of g x" and f: "tr_tasks u g = tr_tasks ?t g"
        using y u tv by (simp_all add: tickets_of_def)
      show ?thesis using inv unfolding ticket_inv_def e y(1) f .
    next
      case hg: True
      have e: "tickets_of g y = tickets_of g x @ [k]"
        using y True hg by (simp add: tickets_of_def)
      have i: "sorted_wrt (<) (tickets_of g x)" "\<forall>k \<in> set (tickets_of g x). 0 < k" "row_ok g r0"
        "tk_admissionToken r0 = high_mark (tickets_of g x)" using inv r0 hg by (simp_all add: ticket_inv_def)
      have "\<forall>j \<in> set (tickets_of g x). j < k" using high_mark_max[OF i(1)] i(4) k by fastforce
      moreover have "row_ok g (reserve_row k p now b kn r0)" using i(3) st k h hg by (auto simp: row_ok_def reserve_row_def)
      moreover have "tr_tasks u g = Some (reserve_row k p now b kn r0)" using u hg by simp
      ultimately show ?thesis using i k unfolding ticket_inv_def e y(1)
        by (auto simp: sorted_wrt_append high_mark_def reserve_row_def)
    qed
  qed
  then show ?thesis by (simp add: y_def)
qed

lemma quiet_op: "is_surge g \<Longrightarrow> ticket_inv g x \<Longrightarrow> row_step g (tt_state x) (f (tt_state x)) \<Longrightarrow> ticket_inv g (quiet f x)"
  by (rule quiet_tickets[of g x]) (simp_all add: quiet_def)

fun removes :: "string \<Rightarrow> tracker_op \<Rightarrow> bool" where
  "removes g (TRemove h) = (h = g)"
| "removes g _ = False"

lemma step_tickets:
  assumes g: "is_surge g" and inv: "ticket_inv g x" and r: "\<not> removes g op"
  shows "ticket_inv g (tracker_step op x)"
proof (cases op)
  case (TUpdate env now a w s)
  obtain cs t where u: "tracker_Update env now a w s (tt_state x) = (cs, t)" by fastforce
  show ?thesis by (rule quiet_tickets[OF g inv]) (use TUpdate u update_step[OF u] in simp_all)
next
  case (TComplete h st)
  obtain c t where u: "MarkCompleteFromEvent h st (tt_state x) = (c, t)" by fastforce
  show ?thesis by (rule quiet_tickets[OF g inv]) (use TComplete u complete_step[OF u] in simp_all)
next
  case (TReserve h k p now b kn)
  then show ?thesis using reserve_tickets[OF g inv] by simp
next
  case (TRemove h)
  then have e: "tickets_of g (tracker_step op x) = tickets_of g x"
    and f: "tr_tasks (tt_state (tracker_step op x)) g = tr_tasks (tt_state x) g"
    using r by (simp_all add: quiet_def RemoveTask_def tickets_of_def)
  show ?thesis using inv unfolding ticket_inv_def e f .
qed (simp_all add: quiet_op[OF g inv] setter_steps target_step connection_step scope_step event_steps ensure_event_step
    status_step activate_step tracker_release_step added_step reopen_step)

lemma run_tickets: "is_surge g \<Longrightarrow> ticket_inv g x \<Longrightarrow> list_all (\<lambda>op. \<not> removes g op) ops \<Longrightarrow> ticket_inv g (tracker_run ops x)"
  unfolding tracker_run_def by (induction ops arbitrary: x) (simp_all add: step_tickets)

text \<open>C36: A reservation has one owner: over any run of the tracker the tickets created for a task strictly increase until it is
  removed; the pending ticket is the newest one, on a waiting or active row with its lease anchored; releasing any other ticket
  is refused and changes nothing, and no older or spent ticket can be reserved again.\<close>

theorem reservation_lineage:
  assumes "x = tracker_run ops new_trace" and "is_surge g" and "list_all (\<lambda>op. \<not> removes g op) ops"
  shows "sorted_wrt (<) (tickets_of g x) \<and>
    (\<forall>tk. PendingAdmissionTicket g (tt_state x) = Some tk \<longrightarrow> tk = (g, high_mark (tickets_of g x)) \<and>
       (\<exists>r. tr_tasks (tt_state x) g = Some r \<and> tk_Status r \<in> {''waiting'', ''active''} \<and> tk_ActivatedAt r \<noteq> zero_time)) \<and>
    (\<forall>k. PendingAdmissionTicket g (tt_state x) \<noteq> Some (g, k) \<longrightarrow> ReleaseAdmission g k (tt_state x) = (False, tt_state x)) \<and>
    (\<forall>k p now b kn. k \<le> high_mark (tickets_of g x) \<longrightarrow> \<not> fst (snd (ReserveAdmission g k p now b kn (tt_state x))))"
proof -
  have "ticket_inv g new_trace" by (simp add: ticket_inv_def tickets_of_def new_trace_def NewTaskTracker_def)
  from run_tickets[OF assms(2) this assms(3)] have inv: "ticket_inv g x" unfolding assms(1) .
  show ?thesis
  proof (cases "tr_tasks (tt_state x) g")
    case None
    have n: "\<not> fst (snd (ReserveAdmission g k p now b kn (tt_state x)))" for k p now b kn
    proof -
      obtain acc v where v: "isTerminalAcceptedLocked g (tt_state x) = (acc, v)" by fastforce
      show ?thesis by (simp add: ReserveAdmission_def Let_def v accepted_tasks[OF v] None)
    qed
    show ?thesis using inv None n by (simp add: ticket_inv_def PendingAdmissionTicket_def ReleaseAdmission_def)
  next
    case (Some r)
    have i: "row_ok g r" "tk_admissionToken r = high_mark (tickets_of g x)" using inv Some by (simp_all add: ticket_inv_def)
    have n: "\<not> fst (snd (ReserveAdmission g k p now b kn (tt_state x)))" if "k \<le> high_mark (tickets_of g x)" for k p now b kn
    proof -
      obtain acc v where v: "isTerminalAcceptedLocked g (tt_state x) = (acc, v)" by fastforce
      show ?thesis using that i(2) by (simp add: ReserveAdmission_def Let_def v accepted_tasks[OF v] Some)
    qed
    show ?thesis using inv Some i n
      by (simp add: ticket_inv_def PendingAdmissionTicket_def ReleaseAdmission_def row_ok_def)
  qed
qed

definition demo_ticket_ops :: "tracker_op list" where
  "demo_ticket_ops =
     (let p = \<lparr>tp_Split = 4, tp_MinSize = 0, tp_IsExploration = False, tp_Target = 100, tp_NSat = 4\<rparr> in
      [TEnsure ''sg_1'' 100 ''u'' 4 ''waiting'' 7, TReserve ''sg_1'' 3 p 8 0 True, TRelease ''sg_1'' 3, TReserve ''sg_1'' 3 p 9 0 True,
       TReserve ''sg_1'' 5 p 9 0 True, TStatus ''sg_1'' ''waiting''])"

theorem reservation_lineage_witness:
  "tickets_of ''sg_1'' (tracker_run demo_ticket_ops new_trace) = [3, 5] \<and>
   PendingAdmissionTicket ''sg_1'' (tt_state (tracker_run demo_ticket_ops new_trace)) = Some (''sg_1'', 5) \<and>
   \<not> fst (ReleaseAdmission ''sg_1'' 3 (tt_state (tracker_run demo_ticket_ops new_trace)))"
proof -
  have t: "tickets_of ''sg_1'' (tracker_run demo_ticket_ops new_trace) = [3, 5]" by code_simp
  have p: "PendingAdmissionTicket ''sg_1'' (tt_state (tracker_run demo_ticket_ops new_trace)) = Some (''sg_1'', 5)" by code_simp
  have "is_surge ''sg_1''" "list_all (\<lambda>op. \<not> removes ''sg_1'' op) demo_ticket_ops"
    by (simp_all add: is_surge_def demo_ticket_ops_def Let_def)
  note reservation_lineage[OF refl this]
  then have "ReleaseAdmission ''sg_1'' 3 (tt_state (tracker_run demo_ticket_ops new_trace)) =
    (False, tt_state (tracker_run demo_ticket_ops new_trace))" using p by auto
  then show ?thesis using t p by simp
qed

end
