(* ===== verification/Scheduler.thy ===== *)
theory Scheduler
  imports ChunkPlan
begin

text \<open>
The download pool (internal/surge/scheduler/scheduler.go): the queue, the claims, the workers and the committed slots. Each
  locked section of the pool or of a worker is one function on the state, and what the code does after an unlock (a \<open>Done\<close> of
  the wait group, a cancelled context, a pause) is a step of its own; a run interleaves them in any order.
\<close>

section \<open>Data\<close>

text \<open>
  Go maps whose size or order of keys matters are association lists without duplicate keys; pointers to queued
  tasks, active downloads and progress states are numbers into a heap.
\<close>

definition aput :: "'k \<Rightarrow> 'v \<Rightarrow> ('k \<times> 'v) list \<Rightarrow> ('k \<times> 'v) list" where
  "aput k v xs = (k, v) # filter (\<lambda>p. fst p \<noteq> k) xs"

definition adel :: "'k \<Rightarrow> ('k \<times> 'v) list \<Rightarrow> ('k \<times> 'v) list" where
  "adel k xs = filter (\<lambda>p. fst p \<noteq> k) xs"

type_synonym opportunity = "string \<times> nat"

record prog_flags =
  pg_done :: bool
  pg_paused :: bool
  pg_pausing :: bool
  pg_verifying :: bool
  pg_total :: int
  pg_verified :: int

record sched_cfg =
  cf_ID :: string
  cf_hls :: bool
  cf_runtime :: "runtime_config option"
  cf_rangeUnsupported :: bool
  cf_TotalSize :: int
  cf_Downloaded :: int
  cf_hlsEligible :: bool
  cf_isResume :: bool
  cf_prog :: "nat option"

record active_download =
  ad_config :: sched_cfg
  ad_running :: bool
  ad_cancelled :: bool
  ad_hlsRemoved :: bool

record queued_task =
  qt_cfg :: sched_cfg
  qt_retries :: nat
  qt_inFlight :: bool
  qt_retryAt :: int
  qt_token :: nat
  qt_admitted :: bool

record busy_slot =
  bs_ad :: "nat option"
  bs_hls :: bool
  bs_eligible :: bool

datatype dl_cause =
    DPaused | DCanceled | DDeadline | DPermanentHTTP | DDiskSpace | DRangeUnsupported | DMetadataMismatch
  | DPayloadFirstPersist | DPermanentHLS | DIntegrityMismatch | DDestinationExists | DCompleted | DOther

type_synonym dl_error = "dl_cause list"

datatype sched_event = EvPaused opportunity | EvQueued opportunity | EvError opportunity dl_error

text \<open>
  Where a worker stands between its locked sections: claimed, running with its local copy, returned with the
  changed copy and the error, synced back, publishing the requeue, published, about to settle. The task and the key it claimed go along.
  The release of a claim and the \<open>Done\<close> of the wait group that goes with it are separate: a worker in \<open>WOwes\<close> has
  released its slot, left the lock and still has to call \<open>Done\<close>; one in \<open>WRelease\<close> has called \<open>Done\<close> for a retry
  that was removed and still has to release the slot.
\<close>

datatype pool_worker =
    WIdle
  | WExited
  | WClaimed nat opportunity
  | WRunning nat opportunity sched_cfg
  | WReturned nat opportunity sched_cfg "dl_error option"
  | WSynced nat opportunity sched_cfg "dl_error option"
  | WPublishing nat opportunity sched_cfg
  | WPublished nat opportunity
  | WTail nat opportunity
  | WOwes
  | WRelease nat opportunity

text \<open>
  What \<open>Pause\<close> and \<open>Cancel\<close> still do after they left the lock: call \<open>Done\<close> for a removed entry, cancel the context of
  an active download, or mark an active download paused (with the total size read under the lock).
\<close>

datatype deferred = DDone | DCancel nat | DPauseActive nat int

record scheduler =
  sc_order :: "string list"
  sc_queued :: "(string \<times> nat) list"
  sc_heap :: "nat \<Rightarrow> queued_task"
  sc_objects :: nat
  sc_downloads :: "string \<rightharpoonup> nat"
  sc_ads :: "nat \<Rightarrow> active_download"
  sc_busy :: "(opportunity \<times> busy_slot) list"
  sc_max :: nat
  sc_managed :: bool
  sc_last :: nat
  sc_stopping :: bool
  sc_wakeAt :: "int option"
  sc_wg :: int
  sc_prog :: "nat \<Rightarrow> prog_flags"
  sc_pc :: "nat \<Rightarrow> pool_worker"
  sc_events :: "sched_event list"
  sc_deferred :: "deferred list"

section \<open>Construction, tokens and slots\<close>

definition zero_cfg :: sched_cfg where
  "zero_cfg = \<lparr>cf_ID = [], cf_hls = False, cf_runtime = None, cf_rangeUnsupported = False, cf_TotalSize = 0, cf_Downloaded = 0,
     cf_hlsEligible = True, cf_isResume = False, cf_prog = None\<rparr>"

definition newScheduler :: "(nat \<Rightarrow> prog_flags) \<Rightarrow> nat \<Rightarrow> bool \<Rightarrow> scheduler" where
  "newScheduler prog n managed =
     \<lparr>sc_order = [], sc_queued = [], sc_heap = (\<lambda>_. \<lparr>qt_cfg = zero_cfg, qt_retries = 0, qt_inFlight = False, qt_retryAt = zero_time, qt_token = 0,
        qt_admitted = False\<rparr>), sc_objects = 0, sc_downloads = Map.empty,
      sc_ads = (\<lambda>_. \<lparr>ad_config = zero_cfg, ad_running = False, ad_cancelled = False, ad_hlsRemoved = False\<rparr>), sc_busy = [], sc_max = n, sc_managed = managed, sc_last = 0, sc_stopping = False,
      sc_wakeAt = None, sc_wg = 0, sc_prog = prog, sc_pc = (\<lambda>_. WIdle), sc_events = [], sc_deferred = []\<rparr>"

definition New :: "(nat \<Rightarrow> prog_flags) \<Rightarrow> int \<Rightarrow> scheduler" where
  "New prog maxDownloads = newScheduler prog (if maxDownloads < 1 then 3 else nat maxDownloads) False"

definition NewManaged :: "(nat \<Rightarrow> prog_flags) \<Rightarrow> int \<Rightarrow> scheduler option" where
  "NewManaged prog capacity = (if capacity < 1 then None else Some (newScheduler prog (nat capacity) True))"

definition allocTokenLocked :: "scheduler \<Rightarrow> (nat \<times> scheduler) option" where
  "allocTokenLocked s =
     (if int (sc_last s) = max_u64 then None else Some (sc_last s + 1, s\<lparr>sc_last := sc_last s + 1\<rparr>))"

definition awaiting :: "(nat \<Rightarrow> queued_task) \<Rightarrow> string \<times> nat \<Rightarrow> bool" where
  "awaiting h e \<longleftrightarrow> qt_admitted (h (snd e)) \<and> \<not> qt_inFlight (h (snd e))"

definition committedSlotsLocked :: "scheduler \<Rightarrow> nat" where
  "committedSlotsLocked s = length (sc_busy s) + length (filter (awaiting (sc_heap s)) (sc_queued s))"

definition releaseBusyLocked :: "opportunity \<Rightarrow> scheduler \<Rightarrow> scheduler" where
  "releaseBusyLocked k s = s\<lparr>sc_busy := adel k (sc_busy s)\<rparr>"

definition RecordEligibleMin :: int where
  "RecordEligibleMin = 50 * 1024 * 1024"

text \<open>What \<open>GetProgress\<close> reports of a progress state: the verified bytes, never more than a known total.\<close>

definition GetProgress :: "prog_flags \<Rightarrow> int \<times> int" where
  "GetProgress f = (if pg_total f > 0 \<and> pg_verified f > pg_total f then pg_total f else pg_verified f, pg_total f)"

definition cfgEffectiveProgress :: "(nat \<Rightarrow> prog_flags) \<Rightarrow> sched_cfg \<Rightarrow> int \<times> int" where
  "cfgEffectiveProgress prog c =
     (case cf_prog c of None \<Rightarrow> (cf_Downloaded c, cf_TotalSize c)
      | Some p \<Rightarrow> let (d, size_known) = GetProgress (prog p) in (d, if size_known > 0 then size_known else cf_TotalSize c))"

definition effectiveConfigTotalSize :: "(nat \<Rightarrow> prog_flags) \<Rightarrow> sched_cfg \<Rightarrow> int" where
  "effectiveConfigTotalSize prog c = snd (cfgEffectiveProgress prog c)"

definition recordEligibleForConfig :: "sched_cfg \<Rightarrow> int \<Rightarrow> bool" where
  "recordEligibleForConfig c size_known = (if cf_hls c then cf_hlsEligible c else size_known > RecordEligibleMin)"

definition shouldRetryFailedDownload :: "dl_error \<Rightarrow> bool \<Rightarrow> nat \<Rightarrow> bool" where
  "shouldRetryFailedDownload e stopping retries \<longleftrightarrow>
     \<not> stopping \<and> \<not> list_ex (\<lambda>c. c \<in> {DCanceled, DDeadline, DPermanentHTTP, DDiskSpace, DRangeUnsupported, DMetadataMismatch,
        DPayloadFirstPersist, DPermanentHLS, DIntegrityMismatch, DDestinationExists, DCompleted}) e \<and> retries < 10"

definition managedRuntimeCeiling :: "sched_cfg \<Rightarrow> runtime_config" where
  "managedRuntimeCeiling c =
     (let rt = (case cf_runtime c of Some r \<Rightarrow> r | None \<Rightarrow> DefaultRuntimeConfig) in
      if SequentialDownload rt \<or> (\<not> cf_hls c \<and> cf_rangeUnsupported c) then rt\<lparr>Workers := 1\<rparr>
      else if Workers rt \<le> 0 then rt\<lparr>Workers := GetMaxConnectionsPerDownload (Some rt)\<rparr>
      else rt)"

section \<open>The snapshot of the admission state\<close>

record admission_candidate =
  ac_Key :: opportunity
  ac_RetryAt :: int
  ac_Admitted :: bool
  ac_InFlight :: bool
  ac_RuntimeReady :: bool
  ac_Workers :: int
  ac_MinChunkSize :: int
  ac_TotalSize :: int
  ac_Downloaded :: int
  ac_hls :: bool
  ac_RecordEligible :: bool

record admission_snapshot =
  sn_Candidates :: "admission_candidate list"
  sn_Busy :: "(opportunity \<times> bool) list"
  sn_Capacity :: int
  sn_CommittedSlots :: int
  sn_Managed :: bool
  sn_Stopping :: bool

definition candidate_of :: "(nat \<Rightarrow> prog_flags) \<Rightarrow> string \<Rightarrow> queued_task \<Rightarrow> admission_candidate" where
  "candidate_of prog gid q =
     (let rt = cf_runtime (qt_cfg q); (downloaded, size_known) = cfgEffectiveProgress prog (qt_cfg q) in
      \<lparr>ac_Key = (gid, qt_token q), ac_RetryAt = qt_retryAt q, ac_Admitted = qt_admitted q, ac_InFlight = qt_inFlight q,
       ac_RuntimeReady = (case rt of None \<Rightarrow> False | Some r \<Rightarrow> Workers r > 0),
       ac_Workers = (case rt of None \<Rightarrow> 0 | Some r \<Rightarrow> Workers r),
       ac_MinChunkSize = (case rt of None \<Rightarrow> 0 | Some r \<Rightarrow> MinChunkSize r),
       ac_TotalSize = size_known, ac_Downloaded = downloaded, ac_hls = cf_hls (qt_cfg q),
       ac_RecordEligible = recordEligibleForConfig (qt_cfg q) size_known\<rparr>)"

text \<open>Of a busy slot only the key and the eligibility are read by the admission round.\<close>

definition slot_eligible :: "scheduler \<Rightarrow> busy_slot \<Rightarrow> bool" where
  "slot_eligible s b =
     (case bs_ad b of None \<Rightarrow> bs_eligible b
      | Some a \<Rightarrow> recordEligibleForConfig (ad_config (sc_ads s a)) (effectiveConfigTotalSize (sc_prog s) (ad_config (sc_ads s a))))"

definition AdmissionSnapshot :: "scheduler \<Rightarrow> admission_snapshot" where
  "AdmissionSnapshot s =
     \<lparr>sn_Candidates = concat (map (\<lambda>gid. case map_of (sc_queued s) gid of None \<Rightarrow> []
        | Some q \<Rightarrow> [candidate_of (sc_prog s) gid (sc_heap s q)]) (sc_order s)),
      sn_Busy = map (\<lambda>(k, b). (k, slot_eligible s b)) (sc_busy s),
      sn_Capacity = int (sc_max s), sn_CommittedSlots = int (committedSlotsLocked s),
      sn_Managed = sc_managed s, sn_Stopping = sc_stopping s\<rparr>"

section \<open>Adding, admitting, removing\<close>

definition AddWithPreparation :: "sched_cfg \<Rightarrow> bool \<Rightarrow> scheduler \<Rightarrow> bool \<times> scheduler" where
  "AddWithPreparation c prepared s =
     (if sc_stopping s then (False, s)
      else if map_of (sc_queued s) (cf_ID c) \<noteq> None then (False, s)
      else if sc_downloads s (cf_ID c) \<noteq> None then (False, s)
      else if \<not> prepared then (False, s)
      else case allocTokenLocked s of None \<Rightarrow> (False, s)
        | Some (token, s1) \<Rightarrow>
            let c1 = (if sc_managed s1 then c\<lparr>cf_runtime := Some (managedRuntimeCeiling c)\<rparr> else c);
                q = \<lparr>qt_cfg = c1, qt_retries = 0, qt_inFlight = False, qt_retryAt = zero_time, qt_token = token, qt_admitted = False\<rparr>;
                n = sc_objects s1
            in (True, s1\<lparr>sc_heap := (sc_heap s1)(n := q), sc_objects := n + 1, sc_queued := aput (cf_ID c) n (sc_queued s1),
                         sc_order := sc_order s1 @ [cf_ID c], sc_wg := sc_wg s1 + 1\<rparr>))"

datatype admit_result = AdmitStale | AdmitAccepted | AdmitAlreadyAdmitted | AdmitUnavailable

definition slot_answer :: "opportunity \<Rightarrow> busy_slot \<Rightarrow> bool \<Rightarrow> queued_task \<Rightarrow> scheduler \<Rightarrow> admit_result" where
  "slot_answer k b current q s =
     (if bs_ad b \<noteq> None \<and> sc_downloads s (fst k) = bs_ad b then AdmitAlreadyAdmitted
      else if bs_ad b = None \<and> current \<and> qt_inFlight q then AdmitAlreadyAdmitted
      else AdmitStale)"

definition patched_task :: "int \<Rightarrow> int \<Rightarrow> queued_task \<Rightarrow> queued_task" where
  "patched_task workers minChunk q =
     (case cf_runtime (qt_cfg q) of None \<Rightarrow> q
      | Some rt \<Rightarrow>
          let r1 = rt\<lparr>Workers := workers\<rparr>; r2 = (if MinChunkSize rt > 0 then r1\<lparr>MinChunkSize := minChunk\<rparr> else r1)
          in q\<lparr>qt_cfg := (qt_cfg q)\<lparr>cf_runtime := Some r2\<rparr>, qt_admitted := True\<rparr>)"

definition Admit :: "opportunity \<Rightarrow> int \<Rightarrow> int \<Rightarrow> int \<Rightarrow> scheduler \<Rightarrow> admit_result \<times> scheduler" where
  "Admit k workers minChunk now s =
     (if \<not> sc_managed s \<or> sc_stopping s then (AdmitUnavailable, s)
      else if fst k = [] \<or> snd k = 0 then (AdmitStale, s)
      else
        let found = map_of (sc_queued s) (fst k);
            q = (case found of None \<Rightarrow> sc_heap s 0 | Some n \<Rightarrow> sc_heap s n);
            current = (found \<noteq> None \<and> qt_token q = snd k)
        in case map_of (sc_busy s) k of
             Some b \<Rightarrow> (slot_answer k b current q s, s)
           | None \<Rightarrow>
               if \<not> current then (AdmitStale, s)
               else if qt_admitted q then (AdmitAlreadyAdmitted, s)
               else if qt_inFlight q then (AdmitUnavailable, s)
               else if qt_retryAt q \<noteq> zero_time \<and> now < qt_retryAt q then (AdmitUnavailable, s)
               else case cf_runtime (qt_cfg q) of None \<Rightarrow> (AdmitUnavailable, s)
                 | Some rt \<Rightarrow>
                     if Workers rt \<le> 0 then (AdmitUnavailable, s)
                     else if workers < 1 \<or> workers > Workers rt then (AdmitUnavailable, s)
                     else if MinChunkSize rt > 0 \<and> (minChunk \<le> 0 \<or> minChunk > MinChunkSize rt) then (AdmitUnavailable, s)
                     else if committedSlotsLocked s \<ge> sc_max s then (AdmitUnavailable, s)
                     else (AdmitAccepted, s\<lparr>sc_heap := (sc_heap s)(the found := patched_task workers minChunk q)\<rparr>))"

definition drop_queued :: "string \<Rightarrow> scheduler \<Rightarrow> scheduler" where
  "drop_queued gid s = s\<lparr>sc_queued := adel gid (sc_queued s), sc_order := remove1 gid (sc_order s)\<rparr>"

definition cancel_ad :: "nat \<Rightarrow> scheduler \<Rightarrow> scheduler" where
  "cancel_ad a s = s\<lparr>sc_ads := (sc_ads s)(a := (sc_ads s a)\<lparr>ad_cancelled := True\<rparr>)\<rparr>"

definition pause_active :: "nat \<Rightarrow> int \<Rightarrow> scheduler \<Rightarrow> scheduler" where
  "pause_active a configTotal s =
     (let c = ad_config (sc_ads s a) in
      case cf_prog c of None \<Rightarrow> cancel_ad a s
      | Some p \<Rightarrow>
          let f = sc_prog s p; len = (if pg_total f \<le> 0 then configTotal else pg_total f) in
          if pg_done f then s
          else if len > 0 \<and> pg_verified f \<ge> len \<and> \<not> pg_verifying f then s
          else if pg_paused f then s
          else if pg_pausing f then cancel_ad a s
          else cancel_ad a (s\<lparr>sc_prog := (sc_prog s)(p := f\<lparr>pg_pausing := True, pg_paused := True\<rparr>)\<rparr>))"

definition put_off :: "deferred list \<Rightarrow> scheduler \<Rightarrow> scheduler" where
  "put_off ds s = s\<lparr>sc_deferred := sc_deferred s @ ds\<rparr>"

text \<open>The locked section of \<open>Pause\<close>, and what it leaves for after the unlock.\<close>

definition Pause :: "string \<Rightarrow> scheduler \<Rightarrow> bool \<times> scheduler" where
  "Pause gid s =
     (case map_of (sc_queued s) gid of
        Some n \<Rightarrow> (True, put_off (if qt_inFlight (sc_heap s n) then [] else [DDone]) (drop_queued gid s))
      | None \<Rightarrow>
          (case sc_downloads s gid of None \<Rightarrow> (False, s)
           | Some a \<Rightarrow> (True, put_off [DPauseActive a (cf_TotalSize (ad_config (sc_ads s a)))] s)))"

definition hls_claims :: "string \<Rightarrow> scheduler \<Rightarrow> nat list" where
  "hls_claims gid s =
     filter (\<lambda>a. cf_hls (ad_config (sc_ads s a)))
       ((case sc_downloads s gid of None \<Rightarrow> [] | Some a \<Rightarrow> [a]) @
        filter (\<lambda>a. cf_ID (ad_config (sc_ads s a)) = gid)
          (concat (map (\<lambda>(k, b). case bs_ad b of None \<Rightarrow> [] | Some a \<Rightarrow> [a]) (sc_busy s))))"

definition remove_mark :: "nat \<Rightarrow> scheduler \<Rightarrow> scheduler" where
  "remove_mark a s = s\<lparr>sc_ads := (sc_ads s)(a := (sc_ads s a)\<lparr>ad_hlsRemoved := True\<rparr>)\<rparr>"

text \<open>
  The locked section of \<open>Cancel\<close>. After the unlock come the \<open>Done\<close> of a removed entry, the cancellation of the active
  download and then those of the other HLS claims; the waits between and after them only block.
\<close>

definition Cancel :: "string \<Rightarrow> scheduler \<Rightarrow> bool \<times> scheduler" where
  "Cancel gid s =
     (let claims = hls_claims gid s;
          active = sc_downloads s gid;
          s1 = fold remove_mark claims (s\<lparr>sc_downloads := (sc_downloads s)(gid := None)\<rparr>);
          s2 = (case map_of (sc_queued s) gid of None \<Rightarrow> s1
                | Some n \<Rightarrow> put_off (if qt_inFlight (sc_heap s n) then [] else [DDone]) (drop_queued gid s1));
          cancels = (case active of None \<Rightarrow> [] | Some a \<Rightarrow> [a]) @ filter (\<lambda>a. active \<noteq> Some a) claims
      in (active \<noteq> None \<or> map_of (sc_queued s) gid \<noteq> None, put_off (map DCancel cancels) s2))"

text \<open>One of the actions left over is carried out; they run in any order, between any other steps.\<close>

definition run_deferred :: "nat \<Rightarrow> scheduler \<Rightarrow> scheduler" where
  "run_deferred i s =
     (if i < length (sc_deferred s) then
        let t = s\<lparr>sc_deferred := take i (sc_deferred s) @ drop (Suc i) (sc_deferred s)\<rparr> in
        (case sc_deferred s ! i of
           DDone \<Rightarrow> t\<lparr>sc_wg := sc_wg t - 1\<rparr>
         | DCancel a \<Rightarrow> cancel_ad a t
         | DPauseActive a configTotal \<Rightarrow> pause_active a configTotal t)
      else s)"

definition ExtractPausedConfig :: "string \<Rightarrow> scheduler \<Rightarrow> sched_cfg option \<times> scheduler" where
  "ExtractPausedConfig gid s =
     (case sc_downloads s gid of None \<Rightarrow> (None, s)
      | Some a \<Rightarrow>
          let c = ad_config (sc_ads s a) in
          case cf_prog c of None \<Rightarrow> (None, s)
          | Some p \<Rightarrow>
              let f = sc_prog s p in
              if \<not> pg_paused f \<or> pg_pausing f then (None, s)
              else (Some c, s\<lparr>sc_downloads := (sc_downloads s)(gid := None), sc_prog := (sc_prog s)(p := f\<lparr>pg_paused := False\<rparr>)\<rparr>))"

text \<open>
  The part of \<open>GracefulShutdown\<close> that empties the queue, with its \<open>Done\<close> calls under the lock; the pauses before it are
  runs of \<open>Pause\<close>.
\<close>

definition drain_queue :: "scheduler \<Rightarrow> scheduler" where
  "drain_queue s =
     s\<lparr>sc_wakeAt := None,
       sc_wg := sc_wg s - int (length (filter (\<lambda>e. \<not> qt_inFlight (sc_heap s (snd e))) (sc_queued s))),
       sc_queued := [], sc_order := [], sc_stopping := True\<rparr>"

section \<open>The workers\<close>

definition set_worker :: "nat \<Rightarrow> pool_worker \<Rightarrow> scheduler \<Rightarrow> scheduler" where
  "set_worker w p s = s\<lparr>sc_pc := (sc_pc s)(w := p)\<rparr>"

text \<open>The callback of the timer only broadcasts; what stays of the timer is the instant it is armed for.\<close>

definition armRetryTimerLocked :: "int \<Rightarrow> scheduler \<Rightarrow> scheduler" where
  "armRetryTimerLocked earliest s = s\<lparr>sc_wakeAt := (if earliest = zero_time then None else Some earliest)\<rparr>"

definition sooner :: "int \<Rightarrow> int \<Rightarrow> int" where
  "sooner due earliest = (if earliest = zero_time \<or> due < earliest then due else earliest)"

text \<open>One scan of \<open>waitForTask\<close>: the first task in queue order a worker may take, or the earliest retry.\<close>

fun scan_queue :: "int \<Rightarrow> scheduler \<Rightarrow> string list \<Rightarrow> int \<Rightarrow> (string \<times> nat) option \<times> int" where
  "scan_queue now s [] earliest = (None, earliest)"
| "scan_queue now s (gid # rest) earliest =
     (case map_of (sc_queued s) gid of None \<Rightarrow> scan_queue now s rest earliest
      | Some n \<Rightarrow>
          let q = sc_heap s n in
          if qt_inFlight q then scan_queue now s rest earliest
          else if qt_retryAt q \<noteq> zero_time \<and> now < qt_retryAt q then scan_queue now s rest (sooner (qt_retryAt q) earliest)
          else if sc_managed s \<and> \<not> qt_admitted q then scan_queue now s rest earliest
          else (Some (gid, n), earliest))"

definition claim_task :: "nat \<Rightarrow> string \<Rightarrow> nat \<Rightarrow> scheduler \<Rightarrow> scheduler" where
  "claim_task w gid n s =
     (let q = sc_heap s n; k = (gid, qt_token q) in
      set_worker w (WClaimed n k)
        (s\<lparr>sc_heap := (sc_heap s)(n := q\<lparr>qt_inFlight := True\<rparr>),
           sc_busy := aput k \<lparr>bs_ad = None, bs_hls = cf_hls (qt_cfg q), bs_eligible = recordEligibleForConfig (qt_cfg q) (effectiveConfigTotalSize (sc_prog s) (qt_cfg q))\<rparr> (sc_busy s)\<rparr>))"

definition waitForTask :: "nat \<Rightarrow> int \<Rightarrow> scheduler \<Rightarrow> scheduler" where
  "waitForTask w now s =
     (if sc_stopping s then set_worker w WExited s
      else case scan_queue now s (sc_order s) zero_time of
          (Some (gid, n), _) \<Rightarrow> claim_task w gid n s
        | (None, earliest) \<Rightarrow> armRetryTimerLocked earliest s)"

text \<open>A claim is let go of: the slot is released under the lock and \<open>Done\<close> follows after the unlock.\<close>

definition release_first :: "nat \<Rightarrow> opportunity \<Rightarrow> scheduler \<Rightarrow> scheduler" where
  "release_first w k s = set_worker w WOwes (releaseBusyLocked k s)"

text \<open>A stale claim is settled with the release and \<open>Done\<close> in one locked section.\<close>

definition settle_claim :: "nat \<Rightarrow> opportunity \<Rightarrow> scheduler \<Rightarrow> scheduler" where
  "settle_claim w k s = set_worker w WIdle ((releaseBusyLocked k s)\<lparr>sc_wg := sc_wg s - 1\<rparr>)"

definition worker_register :: "nat \<Rightarrow> scheduler \<Rightarrow> scheduler" where
  "worker_register w s =
     (case sc_pc s w of
        WClaimed n k \<Rightarrow>
          let q = sc_heap s n; gid = cf_ID (qt_cfg q) in
          if map_of (sc_queued s) gid \<noteq> Some n then release_first w k s
          else if sc_downloads s gid \<noteq> None then release_first w k (drop_queued gid s)
          else
            let c = (if cf_runtime (qt_cfg q) = None then (qt_cfg q)\<lparr>cf_runtime := Some DefaultRuntimeConfig\<rparr> else qt_cfg q);
                a = snd k;
                s1 = drop_queued gid s
            in set_worker w (WRunning n k c)
                 (s1\<lparr>sc_heap := (sc_heap s1)(n := q\<lparr>qt_cfg := c\<rparr>),
                     sc_downloads := (sc_downloads s1)(gid \<mapsto> a),
                     sc_ads := (sc_ads s1)(a := \<lparr>ad_config = c, ad_running = True, ad_cancelled = False, ad_hlsRemoved = False\<rparr>),
                     sc_busy := map (\<lambda>(j, b). (j, if j = k then b\<lparr>bs_ad := Some a\<rparr> else b)) (sc_busy s1)\<rparr>)
      | _ \<Rightarrow> s)"

text \<open>\<open>RunDownload\<close> returned with an error and a changed local copy; it may have set the progress flags.\<close>

definition worker_return :: "nat \<Rightarrow> sched_cfg \<Rightarrow> dl_error option \<Rightarrow> prog_flags \<Rightarrow> scheduler \<Rightarrow> scheduler" where
  "worker_return w result err flags s =
     (case sc_pc s w of
        WRunning n k c \<Rightarrow>
          let local_cfg = result\<lparr>cf_ID := cf_ID c, cf_prog := cf_prog c\<rparr>;
              s1 = (case cf_prog c of None \<Rightarrow> s | Some p \<Rightarrow> s\<lparr>sc_prog := (sc_prog s)(p := flags)\<rparr>)
          in set_worker w (WReturned n k local_cfg err)
               (s1\<lparr>sc_ads := (sc_ads s1)(snd k := (sc_ads s1 (snd k))\<lparr>ad_running := False\<rparr>)\<rparr>)
      | _ \<Rightarrow> s)"

definition worker_sync :: "nat \<Rightarrow> scheduler \<Rightarrow> scheduler" where
  "worker_sync w s =
     (case sc_pc s w of
        WReturned n k local_cfg err \<Rightarrow>
          let a = snd k; ad = sc_ads s a; c = ad_config ad;
              c1 = c\<lparr>cf_TotalSize := cf_TotalSize local_cfg, cf_rangeUnsupported := cf_rangeUnsupported local_cfg,
                     cf_runtime := cf_runtime local_cfg, cf_hls := cf_hls local_cfg, cf_hlsEligible := cf_hlsEligible local_cfg,
                     cf_Downloaded := (if cf_hls local_cfg then cf_Downloaded local_cfg else cf_Downloaded c)\<rparr>
          in set_worker w (WSynced n k local_cfg err)
               (if sc_downloads s (cf_ID local_cfg) = Some a then s\<lparr>sc_ads := (sc_ads s)(a := ad\<lparr>ad_config := c1\<rparr>)\<rparr> else s)
      | _ \<Rightarrow> s)"

definition final_error :: "sched_cfg \<Rightarrow> bool \<Rightarrow> dl_error option \<Rightarrow> dl_error option" where
  "final_error c cancelled err = (if cf_hls c \<and> err \<noteq> None \<and> cancelled then Some (DCanceled # the err) else err)"

definition is_cancel_error :: "dl_error \<Rightarrow> bool" where
  "is_cancel_error e \<longleftrightarrow> DCanceled \<in> set e \<or> DDeadline \<in> set e"

definition settle_success :: "nat \<Rightarrow> nat \<Rightarrow> opportunity \<Rightarrow> sched_cfg \<Rightarrow> scheduler \<Rightarrow> scheduler" where
  "settle_success w n k c s =
     (let s1 = (case cf_prog c of None \<Rightarrow> s
                | Some p \<Rightarrow> s\<lparr>sc_prog := (sc_prog s)(p := (sc_prog s p)\<lparr>pg_pausing := False, pg_paused := False, pg_done := True\<rparr>)\<rparr>)
      in set_worker w (WTail n k)
           (if sc_downloads s1 (cf_ID c) = Some (snd k) then s1\<lparr>sc_downloads := (sc_downloads s1)(cf_ID c := None)\<rparr> else s1))"

definition settle_pause :: "nat \<Rightarrow> nat \<Rightarrow> opportunity \<Rightarrow> sched_cfg \<Rightarrow> dl_error \<Rightarrow> scheduler \<Rightarrow> scheduler" where
  "settle_pause w n k c e s =
     (let ad = sc_ads s (snd k);
          s1 = (case cf_prog c of None \<Rightarrow> s
                | Some p \<Rightarrow> s\<lparr>sc_prog := (sc_prog s)(p := (sc_prog s p)\<lparr>pg_pausing := False\<rparr>)\<rparr>);
          publish = (if cf_hls c then \<not> ad_hlsRemoved ad else DPaused \<notin> set e)
      in set_worker w (WTail n k) (if publish then s1\<lparr>sc_events := sc_events s1 @ [EvPaused k]\<rparr> else s1))"

definition requeue_task :: "nat \<Rightarrow> nat \<Rightarrow> opportunity \<Rightarrow> sched_cfg \<Rightarrow> int \<Rightarrow> nat \<Rightarrow> scheduler \<Rightarrow> scheduler" where
  "requeue_task w n k c now token s =
     (let q = sc_heap s n;
          c1 = (if cf_hls c then c\<lparr>cf_isResume := True\<rparr> else c);
          q1 = q\<lparr>qt_retries := qt_retries q + 1, qt_retryAt := now + second * int (qt_retries q + 1), qt_inFlight := True,
                 qt_cfg := c1, qt_token := token, qt_admitted := False\<rparr>
      in set_worker w (WPublishing n k c1)
           (s\<lparr>sc_heap := (sc_heap s)(n := q1), sc_queued := aput (cf_ID c) n (sc_queued s),
              sc_order := remove1 (cf_ID c) (sc_order s) @ [cf_ID c]\<rparr>))"

definition settle_failure :: "nat \<Rightarrow> nat \<Rightarrow> opportunity \<Rightarrow> sched_cfg \<Rightarrow> dl_error \<Rightarrow> int \<Rightarrow> scheduler \<Rightarrow> scheduler" where
  "settle_failure w n k c e now s0 =
     (let gid = cf_ID c; a = snd k; ad = sc_ads s0 a;
          s = (case cf_prog c of None \<Rightarrow> s0
               | Some p \<Rightarrow> s0\<lparr>sc_prog := (sc_prog s0)(p := (sc_prog s0 p)\<lparr>pg_pausing := False\<rparr>)\<rparr>);
          owned = (sc_downloads s gid = Some a);
          s1 = (if owned then s\<lparr>sc_downloads := (sc_downloads s)(gid := None)\<rparr> else s);
          slotTaken = (map_of (sc_queued s1) gid \<noteq> None);
          foreign = (sc_downloads s1 gid \<noteq> None);
          detached = (\<not> owned \<and> \<not> slotTaken \<and> \<not> foreign);
          claimed = (cf_hls c \<and> (ad_hlsRemoved ad \<or> ad_cancelled ad));
          retryable = (\<not> claimed \<and> \<not> detached \<and>
             shouldRetryFailedDownload e (sc_stopping s1) (qt_retries (sc_heap s1 n)) \<and> \<not> slotTaken \<and> \<not> foreign)
      in case (if retryable then allocTokenLocked s1 else None) of
           Some (token, s2) \<Rightarrow> requeue_task w n k c now token s2
         | None \<Rightarrow>
             if slotTaken \<or> foreign then settle_claim w k s1
             else set_worker w (WTail n k)
               (if is_cancel_error e \<or> detached \<or> claimed then s1 else s1\<lparr>sc_events := sc_events s1 @ [EvError k e]\<rparr>))"

definition worker_settle :: "nat \<Rightarrow> int \<Rightarrow> scheduler \<Rightarrow> scheduler" where
  "worker_settle w now s =
     (case sc_pc s w of
        WSynced n k c err0 \<Rightarrow>
          let err = final_error c (ad_cancelled (sc_ads s (snd k))) err0;
              paused = (case cf_prog c of None \<Rightarrow> False | Some p \<Rightarrow> pg_paused (sc_prog s p))
          in (case err of
                None \<Rightarrow> settle_success w n k c s
              | Some e \<Rightarrow>
                  if DPaused \<in> set e \<or> (paused \<and> is_cancel_error e) then settle_pause w n k c e s
                  else settle_failure w n k c e now s)
      | _ \<Rightarrow> s)"

definition worker_publish :: "nat \<Rightarrow> scheduler \<Rightarrow> scheduler" where
  "worker_publish w s =
     (case sc_pc s w of
        WPublishing n k c \<Rightarrow>
          let ad = sc_ads s (snd k) in
          set_worker w (WPublished n k)
            (if cf_hls c \<and> (ad_hlsRemoved ad \<or> ad_cancelled ad) then s else s\<lparr>sc_events := sc_events s @ [EvQueued k]\<rparr>)
      | _ \<Rightarrow> s)"

fun earliest_retry :: "int \<Rightarrow> scheduler \<Rightarrow> string list \<Rightarrow> int \<Rightarrow> int" where
  "earliest_retry now s [] earliest = earliest"
| "earliest_retry now s (gid # rest) earliest =
     earliest_retry now s rest
       (case map_of (sc_queued s) gid of None \<Rightarrow> earliest
        | Some n \<Rightarrow>
            let q = sc_heap s n in
            if \<not> qt_inFlight q \<and> qt_retryAt q \<noteq> zero_time \<and> qt_retryAt q > now then sooner (qt_retryAt q) earliest else earliest)"

text \<open>
  A retry that was removed while it was published is settled the other way round: \<open>Done\<close> first, the release after it.
  The lock is held over both; here other sections may come between them, which only adds interleavings.
\<close>

definition worker_requeue :: "nat \<Rightarrow> int \<Rightarrow> scheduler \<Rightarrow> scheduler" where
  "worker_requeue w now s =
     (case sc_pc s w of
        WPublished n k \<Rightarrow>
          if map_of (sc_queued s) (fst k) = Some n
          then let s1 = s\<lparr>sc_heap := (sc_heap s)(n := (sc_heap s n)\<lparr>qt_inFlight := False\<rparr>)\<rparr>;
                   s2 = armRetryTimerLocked (earliest_retry now s1 (sc_order s1) zero_time) s1
               in set_worker w WIdle (releaseBusyLocked k s2)
          else set_worker w (WRelease n k) (s\<lparr>sc_wg := sc_wg s - 1\<rparr>)
      | _ \<Rightarrow> s)"

definition worker_tail :: "nat \<Rightarrow> scheduler \<Rightarrow> scheduler" where
  "worker_tail w s = (case sc_pc s w of WTail n k \<Rightarrow> release_first w k s | _ \<Rightarrow> s)"

text \<open>The other half of letting go.\<close>

definition worker_finish :: "nat \<Rightarrow> scheduler \<Rightarrow> scheduler" where
  "worker_finish w s =
     (case sc_pc s w of
        WOwes \<Rightarrow> set_worker w WIdle (s\<lparr>sc_wg := sc_wg s - 1\<rparr>)
      | WRelease n k \<Rightarrow> set_worker w WIdle (releaseBusyLocked k s)
      | _ \<Rightarrow> s)"

section \<open>Runs\<close>

datatype sched_op =
    SAdd sched_cfg bool | SAdmit opportunity int int int | SPause string | SCancel string | SExtract string | SDrain
  | SWait nat int | SRegister nat | SReturn nat sched_cfg "dl_error option" prog_flags | SSync nat | SSettle nat int
  | SPublish nat | SRequeue nat int | STail nat | SFinish nat | SDeferred nat

text \<open>A trace keeps the state, the keys that were accepted and the keys that were claimed.\<close>

record sched_trace =
  st_sched :: scheduler
  st_accepted :: "opportunity list"
  st_claimed :: "opportunity list"

definition claim_key :: "pool_worker \<Rightarrow> opportunity list" where
  "claim_key p = (case p of WClaimed n k \<Rightarrow> [k] | _ \<Rightarrow> [])"

definition with_sched :: "scheduler \<Rightarrow> sched_trace \<Rightarrow> sched_trace" where
  "with_sched s x = x\<lparr>st_sched := s\<rparr>"

text \<open>Only the workers of the pool take steps, and only one that is between claims waits for a task.\<close>

fun sched_step :: "sched_op \<Rightarrow> sched_trace \<Rightarrow> sched_trace" where
  "sched_step (SAdd c prepared) x = with_sched (snd (AddWithPreparation c prepared (st_sched x))) x"
| "sched_step (SAdmit k workers minChunk now) x =
     (let (r, s) = Admit k workers minChunk now (st_sched x) in
      x\<lparr>st_sched := s, st_accepted := st_accepted x @ (if r = AdmitAccepted then [k] else [])\<rparr>)"
| "sched_step (SPause gid) x = with_sched (snd (Pause gid (st_sched x))) x"
| "sched_step (SCancel gid) x = with_sched (snd (Cancel gid (st_sched x))) x"
| "sched_step (SExtract gid) x = with_sched (snd (ExtractPausedConfig gid (st_sched x))) x"
| "sched_step SDrain x = with_sched (drain_queue (st_sched x)) x"
| "sched_step (SWait w now) x =
     (if w < sc_max (st_sched x) \<and> sc_pc (st_sched x) w = WIdle
      then let s = waitForTask w now (st_sched x) in x\<lparr>st_sched := s, st_claimed := st_claimed x @ claim_key (sc_pc s w)\<rparr>
      else x)"
| "sched_step (SRegister w) x = with_sched (worker_register w (st_sched x)) x"
| "sched_step (SReturn w c err flags) x = with_sched (worker_return w c err flags (st_sched x)) x"
| "sched_step (SSync w) x = with_sched (worker_sync w (st_sched x)) x"
| "sched_step (SSettle w now) x = with_sched (worker_settle w now (st_sched x)) x"
| "sched_step (SPublish w) x = with_sched (worker_publish w (st_sched x)) x"
| "sched_step (SRequeue w now) x = with_sched (worker_requeue w now (st_sched x)) x"
| "sched_step (STail w) x = with_sched (worker_tail w (st_sched x)) x"
| "sched_step (SFinish w) x = (if w < sc_max (st_sched x) then with_sched (worker_finish w (st_sched x)) x else x)"
| "sched_step (SDeferred i) x = with_sched (run_deferred i (st_sched x)) x"

definition sched_run :: "sched_op list \<Rightarrow> sched_trace \<Rightarrow> sched_trace" where
  "sched_run = fold sched_step"

definition new_sched :: "(nat \<Rightarrow> prog_flags) \<Rightarrow> nat \<Rightarrow> bool \<Rightarrow> sched_trace" where
  "new_sched prog n managed = \<lparr>st_sched = newScheduler prog n managed, st_accepted = [], st_claimed = []\<rparr>"

end
