(* ===== verification/SchedulerRuns.thy ===== *)
theory SchedulerRuns
  imports Scheduler
begin

text \<open>
Every interleaving of pool operations and worker sections keeps the invariant of the pool: objects and tokens, claims and admissions, slots and the wait group.
\<close>

section \<open>The invariant of the pool\<close>

definition held :: "pool_worker \<Rightarrow> (nat \<times> opportunity) option" where
  "held p = (case p of WIdle \<Rightarrow> None | WExited \<Rightarrow> None | WClaimed n k \<Rightarrow> Some (n, k) | WRunning n k _ \<Rightarrow> Some (n, k)
     | WReturned n k _ _ \<Rightarrow> Some (n, k) | WSynced n k _ _ \<Rightarrow> Some (n, k) | WPublishing n k _ \<Rightarrow> Some (n, k)
     | WPublished n k \<Rightarrow> Some (n, k) | WTail n k \<Rightarrow> Some (n, k) | WOwes \<Rightarrow> None | WRelease n k \<Rightarrow> Some (n, k))"

text \<open>The workers whose \<open>Done\<close> is still to come.\<close>

definition owes :: "pool_worker \<Rightarrow> bool" where
  "owes p = (case p of WIdle \<Rightarrow> False | WExited \<Rightarrow> False | WRelease _ _ \<Rightarrow> False | _ \<Rightarrow> True)"

definition loose :: "pool_worker \<Rightarrow> bool" where
  "loose p = (case p of WRunning _ _ _ \<Rightarrow> True | WReturned _ _ _ _ \<Rightarrow> True | WSynced _ _ _ _ \<Rightarrow> True | WTail _ _ \<Rightarrow> True | _ \<Rightarrow> False)"

definition publishing :: "pool_worker \<Rightarrow> bool" where
  "publishing p = (case p of WPublishing _ _ _ \<Rightarrow> True | WPublished _ _ \<Rightarrow> True | _ \<Rightarrow> False)"

definition carried :: "pool_worker \<Rightarrow> sched_cfg option" where
  "carried p = (case p of WRunning _ _ c \<Rightarrow> Some c | WReturned _ _ c _ \<Rightarrow> Some c | WSynced _ _ c _ \<Rightarrow> Some c
     | WPublishing _ _ c \<Rightarrow> Some c | _ \<Rightarrow> None)"

lemmas pc_defs = held_def loose_def publishing_def carried_def owes_def

abbreviation task_id :: "scheduler \<Rightarrow> nat \<Rightarrow> string" where
  "task_id s n \<equiv> cf_ID (qt_cfg (sc_heap s n))"

definition pool_queue_ok :: "scheduler \<Rightarrow> bool" where
  "pool_queue_ok s \<longleftrightarrow> distinct (map fst (sc_queued s)) \<and> distinct (sc_order s) \<and> set (sc_order s) = fst ` set (sc_queued s) \<and>
     (\<forall>e \<in> set (sc_queued s). snd e < sc_objects s \<and> task_id s (snd e) = fst e \<and> sc_downloads s (fst e) = None)"

definition obj_ok :: "scheduler \<Rightarrow> bool" where
  "obj_ok s \<longleftrightarrow> (\<forall>n < sc_objects s. 0 < qt_token (sc_heap s n) \<and> qt_token (sc_heap s n) \<le> sc_last s) \<and>
     inj_on (\<lambda>n. qt_token (sc_heap s n)) {..<sc_objects s}"

definition holder_ok :: "scheduler \<Rightarrow> nat \<Rightarrow> pool_worker \<Rightarrow> nat \<Rightarrow> opportunity \<Rightarrow> bool" where
  "holder_ok s w p n k \<longleftrightarrow> w < sc_max s \<and> n < sc_objects s \<and> qt_inFlight (sc_heap s n) \<and> task_id s n = fst k \<and>
     (\<forall>c. carried p = Some c \<longrightarrow> cf_ID c = fst k) \<and> (loose p \<longrightarrow> n \<notin> snd ` set (sc_queued s)) \<and>
     (publishing p \<longrightarrow> \<not> qt_admitted (sc_heap s n)) \<and> (p = WClaimed n k \<longrightarrow> snd k = qt_token (sc_heap s n))"

definition work_ok :: "scheduler \<Rightarrow> bool" where
  "work_ok s \<longleftrightarrow> (\<forall>w n k. held (sc_pc s w) = Some (n, k) \<longrightarrow> holder_ok s w (sc_pc s w) n k) \<and>
     (\<forall>w v n k j. held (sc_pc s w) = Some (n, k) \<longrightarrow> held (sc_pc s v) = Some (n, j) \<longrightarrow> w = v)"

definition busy_ok :: "scheduler \<Rightarrow> bool" where
  "busy_ok s \<longleftrightarrow> distinct (map fst (sc_busy s)) \<and>
     (\<forall>k. k \<in> fst ` set (sc_busy s) \<longleftrightarrow> (\<exists>w n. held (sc_pc s w) = Some (n, k))) \<and>
     (\<forall>w v n m k. held (sc_pc s w) = Some (n, k) \<longrightarrow> held (sc_pc s v) = Some (m, k) \<longrightarrow> w = v)"

definition claim_ok :: "opportunity list \<Rightarrow> opportunity list \<Rightarrow> scheduler \<Rightarrow> bool" where
  "claim_ok acc cl s \<longleftrightarrow> distinct cl \<and> (\<forall>k \<in> set cl. snd k \<le> sc_last s) \<and>
     (\<forall>n < sc_objects s. qt_token (sc_heap s n) \<in> snd ` set cl \<longrightarrow> qt_inFlight (sc_heap s n)) \<and>
     (\<forall>w n k. held (sc_pc s w) = Some (n, k) \<longrightarrow> k \<in> set cl) \<and>
     (\<forall>w n k. held (sc_pc s w) = Some (n, k) \<longrightarrow> publishing (sc_pc s w) \<longrightarrow> qt_token (sc_heap s n) \<notin> snd ` set cl) \<and>
     (sc_managed s \<longrightarrow> set cl \<subseteq> set acc)"

definition accept_ok :: "opportunity list \<Rightarrow> scheduler \<Rightarrow> bool" where
  "accept_ok acc s \<longleftrightarrow> distinct acc \<and> (\<forall>k \<in> set acc. snd k \<le> sc_last s) \<and>
     (\<forall>n < sc_objects s. qt_admitted (sc_heap s n) \<longrightarrow> (task_id s n, qt_token (sc_heap s n)) \<in> set acc) \<and>
     (\<forall>n < sc_objects s. qt_token (sc_heap s n) \<in> snd ` set acc \<longrightarrow> qt_admitted (sc_heap s n))"

definition unclaimed :: "scheduler \<Rightarrow> nat" where
  "unclaimed s = length (filter (\<lambda>e. \<not> qt_inFlight (sc_heap s (snd e))) (sc_queued s))"

text \<open>How many workers of the pool are at a place; how many \<open>Done\<close> calls \<open>Pause\<close> and \<open>Cancel\<close> have left.\<close>

definition workers_at :: "(pool_worker \<Rightarrow> bool) \<Rightarrow> scheduler \<Rightarrow> nat" where
  "workers_at P s = (\<Sum>w\<in>{..<sc_max s}. if P (sc_pc s w) then 1 else 0)"

definition dones_left :: "scheduler \<Rightarrow> nat" where
  "dones_left s = count_list (sc_deferred s) DDone"

definition count_ok :: "scheduler \<Rightarrow> bool" where
  "count_ok s \<longleftrightarrow> (sc_managed s \<longrightarrow> committedSlotsLocked s \<le> sc_max s) \<and>
     sc_wg s = int (unclaimed s) + int (workers_at owes s) + int (dones_left s)"

lemma workers_at_upd:
  "w < sc_max s \<Longrightarrow> sc_max t = sc_max s \<Longrightarrow> sc_pc t = (sc_pc s)(w := p) \<Longrightarrow>
    workers_at P t + (if P (sc_pc s w) then 1 else 0) = workers_at P s + (if P p then 1 else 0)"
proof -
  assume w: "w < sc_max s" and m: "sc_max t = sc_max s" and p: "sc_pc t = (sc_pc s)(w := p)"
  have "workers_at P s = (if P (sc_pc s w) then 1 else 0) + (\<Sum>v\<in>{..<sc_max s} - {w}. if P (sc_pc s v) then 1 else 0)"
    unfolding workers_at_def by (rule sum.remove) (use w in auto)
  moreover have "workers_at P t = (if P p then 1 else 0) + (\<Sum>v\<in>{..<sc_max s} - {w}. if P (sc_pc s v) then 1 else 0)"
  proof -
    have "workers_at P t = (if P (sc_pc t w) then 1 else 0) + (\<Sum>v\<in>{..<sc_max s} - {w}. if P (sc_pc t v) then 1 else 0)"
      unfolding workers_at_def m by (rule sum.remove) (use w in auto)
    also have "(\<Sum>v\<in>{..<sc_max s} - {w}. if P (sc_pc t v) then 1 else (0::nat)) = (\<Sum>v\<in>{..<sc_max s} - {w}. if P (sc_pc s v) then 1 else 0)"
      by (rule sum.cong) (simp_all add: p)
    finally show ?thesis by (simp add: p)
  qed
  ultimately show ?thesis by simp
qed

lemma workers_at_same: "sc_max t = sc_max s \<Longrightarrow> sc_pc t = sc_pc s \<Longrightarrow> workers_at P t = workers_at P s"
  by (simp add: workers_at_def)

lemma workers_at_move:
  "w < sc_max s \<Longrightarrow> sc_max t = sc_max s \<Longrightarrow> sc_pc t = (sc_pc s)(w := p) \<Longrightarrow> P p = P (sc_pc s w) \<Longrightarrow> workers_at P t = workers_at P s"
  using workers_at_upd[of w s t p P] by (simp split: if_splits)

lemma count_same:
  "committedSlotsLocked t = committedSlotsLocked s \<Longrightarrow> sc_managed t = sc_managed s \<Longrightarrow> sc_max t = sc_max s \<Longrightarrow> sc_wg t = sc_wg s \<Longrightarrow>
   unclaimed t = unclaimed s \<Longrightarrow> workers_at owes t = workers_at owes s \<Longrightarrow> sc_deferred t = sc_deferred s \<Longrightarrow> count_ok s \<Longrightarrow> count_ok t"
  by (simp add: count_ok_def dones_left_def)

definition sched_inv :: "sched_trace \<Rightarrow> bool" where
  "sched_inv x \<longleftrightarrow> pool_queue_ok (st_sched x) \<and> obj_ok (st_sched x) \<and> work_ok (st_sched x) \<and> busy_ok (st_sched x) \<and>
     claim_ok (st_accepted x) (st_claimed x) (st_sched x) \<and> accept_ok (st_accepted x) (st_sched x) \<and> count_ok (st_sched x)"

text \<open>The fields the invariant reads; busy slots only by key.\<close>

definition same_core :: "scheduler \<Rightarrow> scheduler \<Rightarrow> bool" where
  "same_core s t \<longleftrightarrow> sc_order t = sc_order s \<and> sc_queued t = sc_queued s \<and> sc_heap t = sc_heap s \<and> sc_objects t = sc_objects s \<and>
     sc_downloads t = sc_downloads s \<and> map fst (sc_busy t) = map fst (sc_busy s) \<and> sc_max t = sc_max s \<and>
     sc_managed t = sc_managed s \<and> sc_last t = sc_last s \<and> sc_wg t = sc_wg s \<and> sc_pc t = sc_pc s \<and>
     dones_left t = dones_left s"

definition pool_inv :: "opportunity list \<Rightarrow> opportunity list \<Rightarrow> scheduler \<Rightarrow> bool" where
  "pool_inv acc cl s \<longleftrightarrow> pool_queue_ok s \<and> obj_ok s \<and> work_ok s \<and> busy_ok s \<and> claim_ok acc cl s \<and> accept_ok acc s \<and> count_ok s"

lemma sched_inv_pool: "sched_inv x = pool_inv (st_accepted x) (st_claimed x) (st_sched x)"
  by (simp add: sched_inv_def pool_inv_def)

lemma pool_same: "same_core s t \<Longrightarrow> pool_inv acc cl s \<Longrightarrow> pool_inv acc cl t"
proof -
  assume c: "same_core s t" and i: "pool_inv acc cl s"
  note e = c[unfolded same_core_def]
  have b: "map fst (sc_busy t) = map fst (sc_busy s)" using e by blast
  have bs: "fst ` set (sc_busy t) = fst ` set (sc_busy s)" using b by (metis list.set_map)
  have bl: "length (sc_busy t) = length (sc_busy s)" using b by (metis length_map)
  have h: "holder_ok t = holder_ok s" using e by (simp add: holder_ok_def fun_eq_iff)
  show ?thesis using i e bs bl h
    by (simp add: pool_inv_def pool_queue_ok_def obj_ok_def work_ok_def busy_ok_def claim_ok_def accept_ok_def count_ok_def
        committedSlotsLocked_def unclaimed_def workers_at_def)
qed

lemma key_unique: "pool_queue_ok s \<Longrightarrow> (g, n) \<in> set (sc_queued s) \<longleftrightarrow> map_of (sc_queued s) g = Some n"
  by (auto simp: pool_queue_ok_def map_of_eq_Some_iff)

lemma object_unique: "pool_queue_ok s \<Longrightarrow> (g, n) \<in> set (sc_queued s) \<Longrightarrow> (h, n) \<in> set (sc_queued s) \<Longrightarrow> g = h"
  unfolding pool_queue_ok_def by (metis fst_conv snd_conv)

section \<open>Counting\<close>

lemma filter_drop:
  assumes "distinct (map fst q)" and "(g, n) \<in> set q"
  shows "length (filter P q) = length (filter P (adel g q)) + (if P (g, n) then 1 else 0)"
  using assms
proof (induction q)
  case (Cons e q)
  show ?case
  proof (cases "fst e = g")
    case True
    then have e: "e = (g, n)" using Cons.prems by (auto simp: image_iff)
    have "g \<notin> fst ` set q" using Cons.prems(1) True by auto
    then have "filter (\<lambda>p. fst p \<noteq> g) q = q" by (intro filter_True) auto
    then show ?thesis using e by (simp add: adel_def)
  next
    case False
    then have "(g, n) \<in> set q" using Cons.prems(2) by auto
    then show ?thesis using Cons False by (simp add: adel_def)
  qed
qed simp

lemma filter_put: "g \<notin> fst ` set q \<Longrightarrow> length (filter P (aput g n q)) = length (filter P q) + (if P (g, n) then 1 else 0)"
proof -
  assume "g \<notin> fst ` set q"
  then have "filter (\<lambda>p. fst p \<noteq> g) q = q" by (intro filter_True) auto
  then show ?thesis by (simp add: aput_def)
qed

text \<open>Changing one object changes the count only at its entry.\<close>

lemma filter_change:
  assumes "distinct (map fst q)" and "(g, n) \<in> set q" and "\<And>e. e \<in> set q \<Longrightarrow> e \<noteq> (g, n) \<Longrightarrow> P' e = P e"
  shows "length (filter P' q) + (if P (g, n) then 1 else 0) = length (filter P q) + (if P' (g, n) then 1 else 0)"
proof -
  have "filter P' (adel g q) = filter P (adel g q)"
    by (rule filter_cong[OF refl]) (use assms(3) in \<open>auto simp: adel_def\<close>)
  then show ?thesis using filter_drop[OF assms(1,2), of P] filter_drop[OF assms(1,2), of P'] by simp
qed

lemma adel_set [simp]: "set (adel g q) = {e \<in> set q. fst e \<noteq> g}"
  by (auto simp: adel_def)

lemma aput_set [simp]: "set (aput g n q) = insert (g, n) {e \<in> set q. fst e \<noteq> g}"
  by (auto simp: aput_def)

lemma adel_distinct: "distinct (map fst q) \<Longrightarrow> distinct (map fst (adel g q))"
  by (simp add: adel_def distinct_map inj_on_def)

lemma aput_distinct: "distinct (map fst q) \<Longrightarrow> distinct (map fst (aput g n q))"
  by (auto simp: aput_def distinct_map inj_on_def)

lemma adel_length: "distinct (map fst q) \<Longrightarrow> g \<in> fst ` set q \<Longrightarrow> length (adel g q) + 1 = length q"
proof -
  assume d: "distinct (map fst q)" and "g \<in> fst ` set q"
  then obtain n where "(g, n) \<in> set q" by force
  from filter_drop[OF d this, of "\<lambda>_. True"] show ?thesis by simp
qed

lemma aput_length: "g \<notin> fst ` set q \<Longrightarrow> length (aput g n q) = length q + 1"
  using filter_put[of g q "\<lambda>_. True" n] by simp

section \<open>Primitive changes\<close>

lemma pool_invI:
  "pool_queue_ok s \<Longrightarrow> obj_ok s \<Longrightarrow> work_ok s \<Longrightarrow> busy_ok s \<Longrightarrow> claim_ok acc cl s \<Longrightarrow> accept_ok acc s \<Longrightarrow> count_ok s \<Longrightarrow>
   pool_inv acc cl s"
  by (simp add: pool_inv_def)

lemma pool_invD:
  assumes "pool_inv acc cl s"
  shows "pool_queue_ok s" "obj_ok s" "work_ok s" "busy_ok s" "claim_ok acc cl s" "accept_ok acc s" "count_ok s"
  using assms by (simp_all add: pool_inv_def)

lemma holderD: "work_ok s \<Longrightarrow> held (sc_pc s w) = Some (n, k) \<Longrightarrow> holder_ok s w (sc_pc s w) n k"
  unfolding work_ok_def by blast

lemma holder_object: "work_ok s \<Longrightarrow> held (sc_pc s w) = Some (n, k) \<Longrightarrow> n < sc_objects s"
  using holderD[of s w n k] by (simp only: holder_ok_def)

lemma claimD:
  assumes "claim_ok acc cl s"
  shows "distinct cl" and "\<forall>k \<in> set cl. snd k \<le> sc_last s"
    and "\<forall>n < sc_objects s. qt_token (sc_heap s n) \<in> snd ` set cl \<longrightarrow> qt_inFlight (sc_heap s n)"
    and "held (sc_pc s w) = Some (n, k) \<Longrightarrow> k \<in> set cl"
    and "held (sc_pc s w) = Some (n, k) \<Longrightarrow> publishing (sc_pc s w) \<Longrightarrow> qt_token (sc_heap s n) \<notin> snd ` set cl"
    and "sc_managed s \<longrightarrow> set cl \<subseteq> set acc"
  using assms unfolding claim_ok_def by blast+

lemma claimI:
  assumes "distinct cl" and "\<forall>k \<in> set cl. snd k \<le> sc_last s"
    and "\<forall>n < sc_objects s. qt_token (sc_heap s n) \<in> snd ` set cl \<longrightarrow> qt_inFlight (sc_heap s n)"
    and "\<And>w n k. held (sc_pc s w) = Some (n, k) \<Longrightarrow> k \<in> set cl"
    and "\<And>w n k. held (sc_pc s w) = Some (n, k) \<Longrightarrow> publishing (sc_pc s w) \<Longrightarrow> qt_token (sc_heap s n) \<notin> snd ` set cl"
    and "sc_managed s \<longrightarrow> set cl \<subseteq> set acc"
  shows "claim_ok acc cl s"
  using assms unfolding claim_ok_def by blast

lemma queuedD: "pool_queue_ok s \<Longrightarrow> map_of (sc_queued s) g = Some n \<Longrightarrow>
    (g, n) \<in> set (sc_queued s) \<and> n < sc_objects s \<and> task_id s n = g \<and> sc_downloads s g = None"
  unfolding pool_queue_ok_def by (metis map_of_SomeD fst_conv snd_conv)

lemma not_queued: "map_of q g = None \<longleftrightarrow> g \<notin> fst ` set q"
  by (simp add: map_of_eq_None_iff)

text \<open>A queued entry is removed; its count goes with it unless a worker holds it.\<close>

lemma drop_inv:
  assumes i: "pool_inv acc cl s" and m: "map_of (sc_queued s) g = Some n"
  shows "pool_inv acc cl (put_off (if qt_inFlight (sc_heap s n) then [] else [DDone]) (drop_queued g s))" (is "pool_inv _ _ ?t")
proof (rule pool_invI)
  note d = pool_invD[OF i] and q = queuedD[OF pool_invD(1)[OF i] m]
  have dq: "distinct (map fst (sc_queued s))" using d(1) by (simp add: pool_queue_ok_def)
  have h: "holder_ok ?t w p a k" if "holder_ok s w p a k" for w p a k
    using that by (auto simp: holder_ok_def drop_queued_def put_off_def)
  show "pool_queue_ok ?t" using d(1) by (auto simp: pool_queue_ok_def drop_queued_def put_off_def adel_distinct)
  show "obj_ok ?t" using d(2) by (simp add: obj_ok_def drop_queued_def put_off_def)
  show "work_ok ?t" using d(3) h unfolding work_ok_def by (simp add: drop_queued_def put_off_def)
  show "busy_ok ?t" using d(4) by (simp add: busy_ok_def drop_queued_def put_off_def)
  show "claim_ok acc cl ?t" using d(5) by (simp add: claim_ok_def drop_queued_def put_off_def)
  show "accept_ok acc ?t" using d(6) by (simp add: accept_ok_def drop_queued_def put_off_def)
  show "count_ok ?t" using d(7) filter_drop[OF dq conjunct1[OF q], of "awaiting (sc_heap s)"]
      filter_drop[OF dq conjunct1[OF q], of "\<lambda>e. \<not> qt_inFlight (sc_heap s (snd e))"]
      workers_at_same[of ?t s owes]
    by (auto simp: count_ok_def drop_queued_def put_off_def committedSlotsLocked_def unclaimed_def dones_left_def split: if_splits)
qed

lemma downloads_inv:
  assumes i: "pool_inv acc cl s" and m: "v \<noteq> None \<longrightarrow> g \<notin> fst ` set (sc_queued s)"
  shows "pool_inv acc cl (s\<lparr>sc_downloads := (sc_downloads s)(g := v)\<rparr>)" (is "pool_inv _ _ ?t")
proof (rule pool_invI)
  note d = pool_invD[OF i]
  have h: "holder_ok ?t = holder_ok s" by (simp add: holder_ok_def fun_eq_iff)
  show "pool_queue_ok ?t" using d(1) m by (auto simp: pool_queue_ok_def)
  show "obj_ok ?t" "work_ok ?t" "busy_ok ?t" "claim_ok acc cl ?t" "accept_ok acc ?t" "count_ok ?t" using d h
    by (simp_all add: obj_ok_def work_ok_def busy_ok_def claim_ok_def accept_ok_def count_ok_def committedSlotsLocked_def unclaimed_def
        workers_at_def dones_left_def)
qed

lemma drain_queue_inv:
  assumes i: "pool_inv acc cl s"
  shows "pool_inv acc cl (drain_queue s)" (is "pool_inv _ _ ?t")
proof (rule pool_invI)
  note d = pool_invD[OF i]
  have h: "holder_ok ?t w p a k" if "holder_ok s w p a k" for w p a k
    using that by (auto simp: holder_ok_def drain_queue_def)
  show "work_ok ?t" using d(3) h unfolding work_ok_def by (simp add: drain_queue_def)
  show "pool_queue_ok ?t" "obj_ok ?t" "busy_ok ?t" "claim_ok acc cl ?t" "accept_ok acc ?t" using d
    by (simp_all add: drain_queue_def pool_queue_ok_def obj_ok_def busy_ok_def claim_ok_def accept_ok_def)
  show "count_ok ?t" using d(7)
    by (auto simp: count_ok_def drain_queue_def committedSlotsLocked_def unclaimed_def workers_at_def dones_left_def)
qed

text \<open>A configuration changes but not its identifier.\<close>

lemma cfg_inv:
  assumes i: "pool_inv acc cl s" and c: "cf_ID c = task_id s n"
  shows "pool_inv acc cl (s\<lparr>sc_heap := (sc_heap s)(n := (sc_heap s n)\<lparr>qt_cfg := c\<rparr>)\<rparr>)" (is "pool_inv _ _ ?t")
proof (rule pool_invI)
  note d = pool_invD[OF i]
  have f: "qt_token (sc_heap ?t a) = qt_token (sc_heap s a)" "qt_admitted (sc_heap ?t a) = qt_admitted (sc_heap s a)"
    "qt_inFlight (sc_heap ?t a) = qt_inFlight (sc_heap s a)" "task_id ?t a = task_id s a" for a using c by simp_all
  have h: "holder_ok ?t = holder_ok s" unfolding holder_ok_def f by (simp add: fun_eq_iff)
  have aw: "awaiting (sc_heap ?t) = awaiting (sc_heap s)" unfolding awaiting_def f by (simp add: fun_eq_iff)
  show "pool_queue_ok ?t" using d(1) unfolding pool_queue_ok_def f by simp
  show "obj_ok ?t" using d(2) unfolding obj_ok_def f by simp
  show "work_ok ?t" using d(3) unfolding work_ok_def h by simp
  show "busy_ok ?t" using d(4) by (simp add: busy_ok_def)
  show "claim_ok acc cl ?t" using d(5) unfolding claim_ok_def f by simp
  show "accept_ok acc ?t" using d(6) unfolding accept_ok_def f by simp
  show "count_ok ?t" using d(7) unfolding count_ok_def committedSlotsLocked_def unclaimed_def workers_at_def dones_left_def aw f by simp
qed

lemma add_inv:
  assumes i: "pool_inv acc cl s" and m: "map_of (sc_queued s) g = None" and dl: "sc_downloads s g = None"
    and q: "cf_ID (qt_cfg q) = g" "qt_token q = sc_last s + 1" "\<not> qt_inFlight q" "\<not> qt_admitted q"
  shows "pool_inv acc cl (s\<lparr>sc_last := sc_last s + 1, sc_heap := (sc_heap s)(sc_objects s := q), sc_objects := sc_objects s + 1,
      sc_queued := aput g (sc_objects s) (sc_queued s), sc_order := sc_order s @ [g], sc_wg := sc_wg s + 1\<rparr>)" (is "pool_inv _ _ ?t")
proof (rule pool_invI)
  note d = pool_invD[OF i]
  let ?o = "sc_objects s"
  have g: "g \<notin> fst ` set (sc_queued s)" using m by (simp add: not_queued)
  have lt: "e \<in> set (sc_queued s) \<Longrightarrow> snd e < ?o" for e using d(1) by (simp add: pool_queue_ok_def)
  have no: "(a, ?o) \<notin> set (sc_queued s)" for a using lt[of "(a, ?o)"] by auto
  have ne: "a < ?o \<Longrightarrow> sc_heap ?t a = sc_heap s a" for a by simp
  have rest: "{e \<in> set (sc_queued s). fst e \<noteq> g} = set (sc_queued s)" using g by force
  show "pool_queue_ok ?t" unfolding pool_queue_ok_def
  proof (intro conjI)
    show "distinct (map fst (sc_queued ?t))" using d(1) by (simp add: pool_queue_ok_def aput_distinct)
    show "distinct (sc_order ?t)" "set (sc_order ?t) = fst ` set (sc_queued ?t)"
      using d(1) g rest by (simp_all add: pool_queue_ok_def)
    show "\<forall>e \<in> set (sc_queued ?t). snd e < sc_objects ?t \<and> task_id ?t (snd e) = fst e \<and> sc_downloads ?t (fst e) = None"
      using d(1) q(1) dl lt no unfolding pool_queue_ok_def by (auto simp: less_Suc_eq)
  qed
  show "obj_ok ?t" unfolding obj_ok_def
  proof (intro conjI)
    show "\<forall>n < sc_objects ?t. 0 < qt_token (sc_heap ?t n) \<and> qt_token (sc_heap ?t n) \<le> sc_last ?t"
      using d(2) q(2) by (auto simp: obj_ok_def less_Suc_eq le_SucI)
    have j: "inj_on (\<lambda>n. qt_token (sc_heap s n)) {..<?o}" "\<And>n. n < ?o \<Longrightarrow> qt_token (sc_heap s n) \<le> sc_last s"
      using d(2) by (simp_all add: obj_ok_def)
    show "inj_on (\<lambda>n. qt_token (sc_heap ?t n)) {..<sc_objects ?t}"
    proof (rule inj_onI)
      fix a b assume ab: "a \<in> {..<sc_objects ?t}" "b \<in> {..<sc_objects ?t}" "qt_token (sc_heap ?t a) = qt_token (sc_heap ?t b)"
      have s: "n < ?o \<Longrightarrow> qt_token (sc_heap ?t n) \<noteq> qt_token (sc_heap ?t ?o)" for n using j(2)[of n] q(2) by simp
      show "a = b"
      proof (cases "a = ?o \<or> b = ?o")
        case True
        then show ?thesis using ab s[of a] s[of b] by (cases "a = ?o"; cases "b = ?o") auto
      next
        case False
        then show ?thesis using ab inj_onD[OF j(1), of a b] by simp
      qed
    qed
  qed
  have ho: "holder_ok ?t w p a k" if "holder_ok s w p a k" for w p a k
    using that ne[of a] lt rest by (auto simp: holder_ok_def)
  show "work_ok ?t" using d(3) ho unfolding work_ok_def by simp
  show "busy_ok ?t" using d(4) by (simp add: busy_ok_def)
  have ht: "held (sc_pc s w) = Some (a, k) \<Longrightarrow> a < ?o" for w a k using holder_object[OF d(3)] .
  have tk: "\<forall>k \<in> set ks. snd k \<le> sc_last s \<Longrightarrow> qt_token q \<notin> snd ` set ks" for ks using q(2) by fastforce
  note aD = d(6)[unfolded accept_ok_def]
  show "claim_ok acc cl ?t"
  proof (rule claimI)
    note cD = claimD[OF d(5)]
    show "distinct cl" "\<forall>k \<in> set cl. snd k \<le> sc_last ?t" "sc_managed ?t \<longrightarrow> set cl \<subseteq> set acc" using cD by auto
    show "\<forall>n < sc_objects ?t. qt_token (sc_heap ?t n) \<in> snd ` set cl \<longrightarrow> qt_inFlight (sc_heap ?t n)"
      using cD(3) tk[OF cD(2)] by (simp add: less_Suc_eq)
    fix w n k assume a: "held (sc_pc ?t w) = Some (n, k)"
    then have a1: "held (sc_pc s w) = Some (n, k)" by simp
    show "k \<in> set cl" by (rule cD(4)[OF a1])
    assume "publishing (sc_pc ?t w)"
    then show "qt_token (sc_heap ?t n) \<notin> snd ` set cl" using cD(5)[OF a1] ht[OF a1] by simp
  qed
  show "accept_ok acc ?t" unfolding accept_ok_def
  proof (intro conjI)
    show "distinct acc" "\<forall>k \<in> set acc. snd k \<le> sc_last ?t" using aD by auto
    show "\<forall>n < sc_objects ?t. qt_admitted (sc_heap ?t n) \<longrightarrow> (task_id ?t n, qt_token (sc_heap ?t n)) \<in> set acc"
      using aD q(4) by (simp add: less_Suc_eq)
    show "\<forall>n < sc_objects ?t. qt_token (sc_heap ?t n) \<in> snd ` set acc \<longrightarrow> qt_admitted (sc_heap ?t n)"
      using aD tk[of acc] by (simp add: less_Suc_eq)
  qed
  have c1: "length (filter P (aput g ?o (sc_queued s))) = length (filter P (sc_queued s)) + (if P (g, ?o) then 1 else 0)" for P
    by (rule filter_put[OF g])
  have c2: "filter (awaiting (sc_heap ?t)) (sc_queued s) = filter (awaiting (sc_heap s)) (sc_queued s)"
    by (rule filter_cong[OF refl]) (use no in \<open>auto simp: awaiting_def\<close>)
  have c3: "filter (\<lambda>e. \<not> qt_inFlight (sc_heap ?t (snd e))) (sc_queued s) = filter (\<lambda>e. \<not> qt_inFlight (sc_heap s (snd e))) (sc_queued s)"
    by (rule filter_cong[OF refl]) (use no in auto)
  have c4: "\<not> awaiting (sc_heap ?t) (g, ?o)" "\<not> qt_inFlight (sc_heap ?t (snd (g, ?o)))" using q(3,4) by (simp_all add: awaiting_def)
  have e1: "committedSlotsLocked ?t = committedSlotsLocked s"
    using c1[of "awaiting (sc_heap ?t)"] c2 c4(1) unfolding committedSlotsLocked_def by simp
  have e2: "unclaimed ?t = unclaimed s + 1"
    using c1[of "\<lambda>e. \<not> qt_inFlight (sc_heap ?t (snd e))"] c3 c4(2) unfolding unclaimed_def by simp
  have e3: "workers_at owes ?t = workers_at owes s" "dones_left ?t = dones_left s" by (simp_all add: workers_at_def dones_left_def)
  show "count_ok ?t" using d(7) unfolding count_ok_def e1 e2 e3 by simp
qed

lemma workI:
  assumes "\<And>w n k. held (sc_pc s w) = Some (n, k) \<Longrightarrow> holder_ok s w (sc_pc s w) n k"
    and "\<And>w v n k j. held (sc_pc s w) = Some (n, k) \<Longrightarrow> held (sc_pc s v) = Some (n, j) \<Longrightarrow> w = v"
  shows "work_ok s"
  using assms unfolding work_ok_def by blast

lemma sole_holder: "work_ok s \<Longrightarrow> held (sc_pc s w) = Some (n, k) \<Longrightarrow> held (sc_pc s v) = Some (n, j) \<Longrightarrow> w = v"
  unfolding work_ok_def by blast

lemma objD: "obj_ok s \<Longrightarrow> n < sc_objects s \<Longrightarrow> m < sc_objects s \<Longrightarrow> qt_token (sc_heap s n) = qt_token (sc_heap s m) \<Longrightarrow> n = m"
  unfolding obj_ok_def inj_on_def by blast

lemma busyD:
  assumes "busy_ok s"
  shows "distinct (map fst (sc_busy s))" and "k \<in> fst ` set (sc_busy s) \<longleftrightarrow> (\<exists>w n. held (sc_pc s w) = Some (n, k))"
    and "held (sc_pc s w) = Some (n, k) \<Longrightarrow> held (sc_pc s v) = Some (m, k) \<Longrightarrow> w = v"
  using assms unfolding busy_ok_def by blast+

text \<open>One object of the queue changes its admission or flight marks.\<close>

lemma mark_counts:
  assumes "pool_queue_ok s" and "(g, n) \<in> set (sc_queued s)" and t: "sc_queued t = sc_queued s" "sc_heap t = (sc_heap s)(n := q)"
  shows "length (filter (awaiting (sc_heap t)) (sc_queued t)) + (if awaiting (sc_heap s) (g, n) then 1 else 0) =
      length (filter (awaiting (sc_heap s)) (sc_queued s)) + (if awaiting (sc_heap t) (g, n) then 1 else 0)"
    and "unclaimed t + (if \<not> qt_inFlight (sc_heap s n) then 1 else 0) = unclaimed s + (if \<not> qt_inFlight q then 1 else 0)"
proof -
  have d: "distinct (map fst (sc_queued s))" using assms(1) by (simp add: pool_queue_ok_def)
  have o: "e \<in> set (sc_queued s) \<Longrightarrow> e \<noteq> (g, n) \<Longrightarrow> snd e \<noteq> n" for e
    using object_unique[OF assms(1,2)] by (metis prod.collapse)
  show "length (filter (awaiting (sc_heap t)) (sc_queued t)) + (if awaiting (sc_heap s) (g, n) then 1 else 0) =
      length (filter (awaiting (sc_heap s)) (sc_queued s)) + (if awaiting (sc_heap t) (g, n) then 1 else 0)"
    unfolding t(1) by (rule filter_change[OF d assms(2)]) (use o t(2) in \<open>simp add: awaiting_def\<close>)
  have "length (filter (\<lambda>e. \<not> qt_inFlight (sc_heap t (snd e))) (sc_queued s)) + (if \<not> qt_inFlight (sc_heap s (snd (g, n))) then 1 else 0) =
      length (filter (\<lambda>e. \<not> qt_inFlight (sc_heap s (snd e))) (sc_queued s)) + (if \<not> qt_inFlight (sc_heap t (snd (g, n))) then 1 else 0)"
    by (rule filter_change[OF d assms(2)]) (use o t(2) in simp)
  then show "unclaimed t + (if \<not> qt_inFlight (sc_heap s n) then 1 else 0) = unclaimed s + (if \<not> qt_inFlight q then 1 else 0)"
    using t(2) unfolding unclaimed_def t(1) by (simp only: snd_conv fun_upd_same)
qed

lemma admit_inv:
  assumes i: "pool_inv acc cl s" and m: "map_of (sc_queued s) g = Some n" and free: "\<not> qt_admitted (sc_heap s n)" "\<not> qt_inFlight (sc_heap s n)"
    and q: "cf_ID (qt_cfg q) = g" "qt_token q = qt_token (sc_heap s n)" "\<not> qt_inFlight q" "qt_admitted q"
    and c: "committedSlotsLocked s < sc_max s"
  shows "pool_inv (acc @ [(g, qt_token q)]) cl (s\<lparr>sc_heap := (sc_heap s)(n := q)\<rparr>)" (is "pool_inv _ _ ?t")
proof (rule pool_invI)
  note d = pool_invD[OF i] and qd = queuedD[OF pool_invD(1)[OF i] m]
  have f: "qt_token (sc_heap ?t a) = qt_token (sc_heap s a)" "qt_inFlight (sc_heap ?t a) = qt_inFlight (sc_heap s a)"
    "task_id ?t a = task_id s a" for a using q qd free by simp_all
  show "pool_queue_ok ?t" using d(1) unfolding pool_queue_ok_def f by simp
  show "obj_ok ?t" using d(2) unfolding obj_ok_def f by simp
  show "work_ok ?t"
  proof (rule workI)
    fix w a k assume "held (sc_pc ?t w) = Some (a, k)"
    then have h: "holder_ok s w (sc_pc s w) a k" using holderD[OF d(3)] by simp
    then have "a \<noteq> n" using free(2) by (auto simp: holder_ok_def)
    then show "holder_ok ?t w (sc_pc ?t w) a k" using h by (simp add: holder_ok_def)
  qed (use sole_holder[OF d(3)] in simp)
  show "busy_ok ?t" using d(4) by (simp add: busy_ok_def)
  show "claim_ok (acc @ [(g, qt_token q)]) cl ?t" using d(5) unfolding claim_ok_def f by auto
  have new: "qt_token q \<notin> snd ` set acc" using d(6) free qd q(2) unfolding accept_ok_def by auto
  have inj: "a < sc_objects s \<Longrightarrow> qt_token (sc_heap s a) = qt_token q \<Longrightarrow> a = n" for a
    using objD[OF d(2), of a n] qd q(2) by simp
  show "accept_ok (acc @ [(g, qt_token q)]) ?t" unfolding accept_ok_def f
  proof (intro conjI)
    show "distinct (acc @ [(g, qt_token q)])" using d(6) new by (force simp: accept_ok_def)
    show "\<forall>k \<in> set (acc @ [(g, qt_token q)]). snd k \<le> sc_last ?t"
      using d(2,6) qd q(2) by (auto simp: accept_ok_def obj_ok_def)
    show "\<forall>a < sc_objects ?t. qt_admitted (sc_heap ?t a) \<longrightarrow> (task_id s a, qt_token (sc_heap s a)) \<in> set (acc @ [(g, qt_token q)])"
      using d(6) qd q by (auto simp: accept_ok_def)
    show "\<forall>a < sc_objects ?t. qt_token (sc_heap s a) \<in> snd ` set (acc @ [(g, qt_token q)]) \<longrightarrow> qt_admitted (sc_heap ?t a)"
    proof (intro allI impI)
      fix a assume a: "a < sc_objects ?t" "qt_token (sc_heap s a) \<in> snd ` set (acc @ [(g, qt_token q)])"
      show "qt_admitted (sc_heap ?t a)"
      proof (cases "a = n")
        case False
        then have "qt_token (sc_heap s a) \<in> snd ` set acc" using a inj[of a] by auto
        then show ?thesis using d(6) a False by (simp add: accept_ok_def)
      qed (use q(4) in simp)
    qed
  qed
  have g: "(g, n) \<in> set (sc_queued s)" using qd by blast
  note k = mark_counts[OF d(1) g, of ?t q]
  have e3: "workers_at owes ?t = workers_at owes s" "dones_left ?t = dones_left s" by (simp_all add: workers_at_def dones_left_def)
  show "count_ok ?t" using d(7) c k free q(3,4)
    unfolding count_ok_def committedSlotsLocked_def e3 by (simp add: awaiting_def split: if_splits)
qed

lemma claim_inv:
  assumes i: "pool_inv acc cl s" and m: "map_of (sc_queued s) g = Some n" and fl: "\<not> qt_inFlight (sc_heap s n)"
    and ad: "sc_managed s \<longrightarrow> qt_admitted (sc_heap s n)" and wi: "w < sc_max s" "sc_pc s w = WIdle"
  shows "pool_inv acc (cl @ [(g, qt_token (sc_heap s n))]) (claim_task w g n s)"
proof (rule pool_invI)
  note d = pool_invD[OF i] and qd = queuedD[OF pool_invD(1)[OF i] m]
  have w: "w < sc_max s" "held (sc_pc s w) = None" using wi by (simp_all add: held_def)
  let ?t = "claim_task w g n s" and ?k = "(g, qt_token (sc_heap s n))"
  have h: "sc_heap ?t = (sc_heap s)(n := (sc_heap s n)\<lparr>qt_inFlight := True\<rparr>)" "sc_pc ?t = (sc_pc s)(w := WClaimed n ?k)"
    "sc_busy ?t = aput ?k \<lparr>bs_ad = None, bs_hls = cf_hls (qt_cfg (sc_heap s n)),
        bs_eligible = recordEligibleForConfig (qt_cfg (sc_heap s n)) (effectiveConfigTotalSize (sc_prog s) (qt_cfg (sc_heap s n)))\<rparr> (sc_busy s)"
    "sc_queued ?t = sc_queued s" "sc_order ?t = sc_order s" "sc_objects ?t = sc_objects s" "sc_downloads ?t = sc_downloads s"
    "sc_last ?t = sc_last s" "sc_max ?t = sc_max s" "sc_managed ?t = sc_managed s" "sc_wg ?t = sc_wg s"
    by (simp_all add: claim_task_def Let_def set_worker_def)
  have df: "sc_deferred ?t = sc_deferred s" by (simp add: claim_task_def Let_def set_worker_def)
  have f: "qt_token (sc_heap ?t a) = qt_token (sc_heap s a)" "task_id ?t a = task_id s a"
    "qt_admitted (sc_heap ?t a) = qt_admitted (sc_heap s a)" for a by (simp_all add: h)
  have hd: "held (sc_pc ?t w) = Some (n, ?k)" "\<And>v. v \<noteq> w \<Longrightarrow> sc_pc ?t v = sc_pc s v" by (simp_all add: h held_def)
  have fresh: "qt_token (sc_heap s n) \<notin> snd ` set cl" using claimD(3)[OF d(5)] qd fl by auto
  have nk: "?k \<notin> fst ` set (sc_busy s)"
  proof
    assume "?k \<in> fst ` set (sc_busy s)"
    then obtain v a where "held (sc_pc s v) = Some (a, ?k)" using busyD(2)[OF d(4)] by blast
    from claimD(4)[OF d(5) this] fresh show False by force
  qed
  have other: "a \<noteq> n" if "held (sc_pc s v) = Some (a, k)" for v a k
    using holderD[OF d(3) that] fl by (auto simp: holder_ok_def)
  show "pool_queue_ok ?t" using d(1) unfolding pool_queue_ok_def f by (simp add: h)
  show "obj_ok ?t" using d(2) unfolding obj_ok_def f by (simp add: h)
  show "work_ok ?t"
  proof (rule workI)
    fix v a k assume a: "held (sc_pc ?t v) = Some (a, k)"
    show "holder_ok ?t v (sc_pc ?t v) a k"
    proof (cases "v = w")
      case True
      then show ?thesis using a hd(1) w(1) qd by (simp add: holder_ok_def f h) (simp add: pc_defs)
    next
      case False
      then have a1: "held (sc_pc s v) = Some (a, k)" using a hd(2) by simp
      show ?thesis using holderD[OF d(3) a1] other[OF a1] hd(2)[OF False] by (simp add: holder_ok_def h)
    qed
  next
    fix v u a k j assume a: "held (sc_pc ?t v) = Some (a, k)" "held (sc_pc ?t u) = Some (a, j)"
    show "v = u"
    proof (cases "v = w \<or> u = w")
      case True
      then show ?thesis using a hd other by (metis option.inject prod.inject)
    next
      case False
      then show ?thesis using a hd(2) sole_holder[OF d(3)] by metis
    qed
  qed
  show "busy_ok ?t" unfolding busy_ok_def
  proof (intro conjI allI impI)
    show "distinct (map fst (sc_busy ?t))" using busyD(1)[OF d(4)] by (simp add: h aput_distinct)
  next
    fix k
    have s: "fst ` set (sc_busy ?t) = insert ?k (fst ` set (sc_busy s))" unfolding h(3) using nk by force
    have "(\<exists>v a. held (sc_pc ?t v) = Some (a, k)) \<longleftrightarrow> k = ?k \<or> (\<exists>v a. held (sc_pc s v) = Some (a, k))"
      using hd w(2) by (metis option.distinct(1) option.inject prod.inject)
    then show "k \<in> fst ` set (sc_busy ?t) \<longleftrightarrow> (\<exists>v a. held (sc_pc ?t v) = Some (a, k))" unfolding s using busyD(2)[OF d(4), of k] by blast
  next
    fix v u a b k assume a: "held (sc_pc ?t v) = Some (a, k)" "held (sc_pc ?t u) = Some (b, k)"
    have nk': "held (sc_pc s x) \<noteq> Some (y, ?k)" for x y using nk busyD(2)[OF d(4), of ?k] by blast
    show "v = u"
    proof (cases "v = w \<or> u = w")
      case True
      then show ?thesis using a hd nk' by (metis option.inject prod.inject)
    next
      case False
      then show ?thesis using a hd(2) busyD(3)[OF d(4)] by metis
    qed
  qed
  show "claim_ok acc (cl @ [?k]) ?t"
  proof (rule claimI)
    show "distinct (cl @ [?k])" using claimD(1)[OF d(5)] fresh by force
    show "\<forall>k \<in> set (cl @ [?k]). snd k \<le> sc_last ?t" using claimD(2)[OF d(5)] d(2) qd by (auto simp: h obj_ok_def)
    show "\<forall>a < sc_objects ?t. qt_token (sc_heap ?t a) \<in> snd ` set (cl @ [?k]) \<longrightarrow> qt_inFlight (sc_heap ?t a)"
    proof (intro allI impI)
      fix a assume a: "a < sc_objects ?t" "qt_token (sc_heap ?t a) \<in> snd ` set (cl @ [?k])"
      show "qt_inFlight (sc_heap ?t a)"
      proof (cases "a = n")
        case False
        then have "qt_token (sc_heap s a) \<noteq> qt_token (sc_heap s n)" using objD[OF d(2), of a n] a(1) qd by (auto simp: h)
        then have "qt_token (sc_heap s a) \<in> snd ` set cl" using a(2) unfolding f by auto
        then show ?thesis using claimD(3)[OF d(5)] a(1) False by (simp add: h)
      qed (simp add: h)
    qed
    have "set cl \<subseteq> set acc" "?k \<in> set acc" if "sc_managed s"
      using claimD(6)[OF d(5)] that ad d(6) qd by (auto simp: accept_ok_def)
    then show "sc_managed ?t \<longrightarrow> set (cl @ [?k]) \<subseteq> set acc" by (auto simp: h)
  next
    fix v a k assume a: "held (sc_pc ?t v) = Some (a, k)"
    show "k \<in> set (cl @ [?k])"
    proof (cases "v = w")
      case False
      then show ?thesis using a hd(2) claimD(4)[OF d(5), of v a k] by simp
    qed (use a hd(1) in auto)
    assume p: "publishing (sc_pc ?t v)"
    have v: "v \<noteq> w" using p by (auto simp: h publishing_def)
    then have a1: "held (sc_pc s v) = Some (a, k)" and p1: "publishing (sc_pc s v)" using a p hd(2) by simp_all
    have "a < sc_objects s" by (rule holder_object[OF d(3) a1])
    then have "qt_token (sc_heap s a) \<noteq> qt_token (sc_heap s n)" using objD[OF d(2), of a n] qd other[OF a1] by auto
    then show "qt_token (sc_heap ?t a) \<notin> snd ` set (cl @ [?k])" using claimD(5)[OF d(5) a1 p1] unfolding f by auto
  qed
  show "accept_ok acc ?t" using d(6) unfolding accept_ok_def f by (simp add: h)
  have g: "(g, n) \<in> set (sc_queued s)" using qd by blast
  note k = mark_counts[OF d(1) g h(4,1)]
  have l: "length (sc_busy ?t) = length (sc_busy s) + 1" unfolding h(3) by (rule aput_length[OF nk])
  have o: "workers_at owes ?t = workers_at owes s + 1"
    using workers_at_upd[OF w(1) h(9,2), of owes] wi(2) by (simp add: owes_def)
  show "count_ok ?t" using d(7) k l fl ad o
    unfolding count_ok_def committedSlotsLocked_def dones_left_def df by (auto simp: awaiting_def h split: if_splits)
qed

text \<open>A worker moves on with what it holds.\<close>

lemma relabel_inv:
  assumes i: "pool_inv acc cl s" and h: "held (sc_pc s w) = Some (n, k)" and h': "held p = Some (n, k)"
    and ho: "holder_ok s w p n k" and pu: "publishing p \<Longrightarrow> publishing (sc_pc s w)" and ow: "owes p = owes (sc_pc s w)"
  shows "pool_inv acc cl (set_worker w p s)" (is "pool_inv _ _ ?t")
proof (rule pool_invI)
  note d = pool_invD[OF i]
  have hd: "held (sc_pc ?t v) = held (sc_pc s v)" for v using h h' by (simp add: set_worker_def)
  have pb: "publishing (sc_pc ?t v) \<Longrightarrow> publishing (sc_pc s v)" for v using pu by (simp add: set_worker_def split: if_splits)
  have hs: "holder_ok ?t = holder_ok s" by (simp add: holder_ok_def set_worker_def fun_eq_iff)
  have wm: "w < sc_max s" using ho by (simp add: holder_ok_def)
  have o: "workers_at owes ?t = workers_at owes s" by (rule workers_at_move[OF wm _ _ ow]) (simp_all add: set_worker_def)
  show "count_ok ?t" by (rule count_same[OF _ _ _ _ _ o _ d(7)]) (simp_all add: set_worker_def committedSlotsLocked_def unclaimed_def)
  show "pool_queue_ok ?t" "obj_ok ?t" "accept_ok acc ?t" using d
    by (simp_all add: set_worker_def pool_queue_ok_def obj_ok_def accept_ok_def)
  show "work_ok ?t"
  proof (rule workI)
    fix v a j assume a: "held (sc_pc ?t v) = Some (a, j)"
    show "holder_ok ?t v (sc_pc ?t v) a j"
    proof (cases "v = w")
      case True
      then show ?thesis using a h ho unfolding hd hs by (simp add: set_worker_def)
    next
      case False
      then show ?thesis using a holderD[OF d(3), of v a j] unfolding hd hs by (simp add: set_worker_def)
    qed
  qed (use sole_holder[OF d(3)] in \<open>unfold hd\<close>)
  show "busy_ok ?t" using d(4) unfolding busy_ok_def hd by (simp add: set_worker_def)
  show "claim_ok acc cl ?t"
  proof (rule claimI)
    fix v a j assume a: "held (sc_pc ?t v) = Some (a, j)"
    then show "j \<in> set cl" using claimD(4)[OF d(5)] unfolding hd by blast
    assume "publishing (sc_pc ?t v)"
    then show "qt_token (sc_heap ?t a) \<notin> snd ` set cl" using a claimD(5)[OF d(5)] pb unfolding hd by (simp add: set_worker_def)
  qed (use claimD[OF d(5)] in \<open>simp_all add: set_worker_def\<close>)
qed

text \<open>An idle worker of a stopping pool leaves.\<close>

lemma exit_inv:
  assumes i: "pool_inv acc cl s" and wi: "w < sc_max s" "sc_pc s w = WIdle"
  shows "pool_inv acc cl (set_worker w WExited s)" (is "pool_inv _ _ ?t")
proof (rule pool_invI)
  note d = pool_invD[OF i]
  have h: "held (sc_pc s w) = None" using wi by (simp add: held_def)
  have hd: "held (sc_pc ?t v) = held (sc_pc s v)" for v using h by (simp add: set_worker_def pc_defs)
  have pv: "held (sc_pc s v) = Some x \<Longrightarrow> sc_pc ?t v = sc_pc s v" for v x using h by (auto simp: set_worker_def)
  have hs: "holder_ok ?t = holder_ok s" by (simp add: holder_ok_def set_worker_def fun_eq_iff)
  have o: "workers_at owes ?t = workers_at owes s"
    by (rule workers_at_move[OF wi(1), of _ WExited]) (simp_all add: set_worker_def wi owes_def)
  show "count_ok ?t" by (rule count_same[OF _ _ _ _ _ o _ d(7)]) (simp_all add: set_worker_def committedSlotsLocked_def unclaimed_def)
  show "pool_queue_ok ?t" "obj_ok ?t" "accept_ok acc ?t" using d
    by (simp_all add: set_worker_def pool_queue_ok_def obj_ok_def accept_ok_def)
  show "work_ok ?t"
  proof (rule workI)
    fix v a j assume a: "held (sc_pc ?t v) = Some (a, j)"
    then have a1: "held (sc_pc s v) = Some (a, j)" unfolding hd .
    show "holder_ok ?t v (sc_pc ?t v) a j" unfolding hs pv[OF a1] by (rule holderD[OF d(3) a1])
  qed (use sole_holder[OF d(3)] in \<open>unfold hd\<close>)
  show "busy_ok ?t" using d(4) unfolding busy_ok_def hd by (simp add: set_worker_def)
  show "claim_ok acc cl ?t"
  proof (rule claimI)
    fix v a j assume a: "held (sc_pc ?t v) = Some (a, j)"
    then have a1: "held (sc_pc s v) = Some (a, j)" unfolding hd .
    show "j \<in> set cl" by (rule claimD(4)[OF d(5) a1])
    assume "publishing (sc_pc ?t v)"
    then show "qt_token (sc_heap ?t a) \<notin> snd ` set cl" using claimD(5)[OF d(5) a1] unfolding pv[OF a1] by (simp add: set_worker_def)
  qed (use claimD[OF d(5)] in \<open>simp_all add: set_worker_def\<close>)
qed

text \<open>A worker lets go of its claim, whatever it does next; its task stays as it is.\<close>

lemma let_go:
  assumes i: "pool_inv acc cl s" and h: "held (sc_pc s w) = Some (n, k)"
    and p: "held p = None"
  defines "t \<equiv> set_worker w p (releaseBusyLocked k s)"
  shows "pool_queue_ok t" and "obj_ok t" and "work_ok t" and "busy_ok t" and "claim_ok acc cl t" and "accept_ok acc t"
    and "length (sc_busy t) + 1 = length (sc_busy s)" and "\<And>v. held (sc_pc t v) \<noteq> Some (n, j)"
proof -
  note d = pool_invD[OF i]
  have f: "sc_queued t = sc_queued s" "sc_order t = sc_order s" "sc_heap t = sc_heap s" "sc_objects t = sc_objects s"
    "sc_downloads t = sc_downloads s" "sc_last t = sc_last s" "sc_max t = sc_max s" "sc_managed t = sc_managed s"
    "sc_busy t = adel k (sc_busy s)" "sc_pc t = (sc_pc s)(w := p)"
    by (simp_all add: t_def set_worker_def releaseBusyLocked_def)
  have hd: "held (sc_pc t w) = None" "\<And>v. v \<noteq> w \<Longrightarrow> sc_pc t v = sc_pc s v" by (simp_all add: f p)
  have stays: "v \<noteq> w \<and> held (sc_pc s v) = Some x" if "held (sc_pc t v) = Some x" for v x
    using that hd by (cases "v = w") auto
  have hs: "holder_ok t = holder_ok s" by (simp add: holder_ok_def f fun_eq_iff)
  show "pool_queue_ok t" "obj_ok t" "accept_ok acc t" using d(1,2,6) by (simp_all add: pool_queue_ok_def obj_ok_def accept_ok_def f)
  show "work_ok t"
  proof (rule workI)
    fix v a j assume "held (sc_pc t v) = Some (a, j)"
    then show "holder_ok t v (sc_pc t v) a j" using stays holderD[OF d(3)] hd(2) unfolding hs by metis
  next
    fix v u a j l assume "held (sc_pc t v) = Some (a, j)" "held (sc_pc t u) = Some (a, l)"
    then show "v = u" using stays sole_holder[OF d(3)] by metis
  qed
  have kb: "k \<in> fst ` set (sc_busy s)" using busyD(2)[OF d(4)] h by blast
  show l: "length (sc_busy t) + 1 = length (sc_busy s)" unfolding f by (rule adel_length[OF busyD(1)[OF d(4)] kb])
  show "busy_ok t" unfolding busy_ok_def
  proof (intro conjI allI impI)
    show "distinct (map fst (sc_busy t))" unfolding f by (rule adel_distinct[OF busyD(1)[OF d(4)]])
  next
    fix j
    have "j \<in> fst ` set (sc_busy t) \<longleftrightarrow> j \<in> fst ` set (sc_busy s) \<and> j \<noteq> k" unfolding f by auto
    also have "\<dots> \<longleftrightarrow> (\<exists>v a. held (sc_pc t v) = Some (a, j))"
    proof
      assume "j \<in> fst ` set (sc_busy s) \<and> j \<noteq> k"
      then obtain v a where v: "held (sc_pc s v) = Some (a, j)" "j \<noteq> k" using busyD(2)[OF d(4), of j] by blast
      then have "v \<noteq> w" using h by auto
      then show "\<exists>v a. held (sc_pc t v) = Some (a, j)" using v hd(2) by metis
    next
      assume "\<exists>v a. held (sc_pc t v) = Some (a, j)"
      then obtain v a where v: "v \<noteq> w" "held (sc_pc s v) = Some (a, j)" using stays by blast
      then have "j \<noteq> k" using busyD(3)[OF d(4) _ h] by metis
      then show "j \<in> fst ` set (sc_busy s) \<and> j \<noteq> k" using v(2) busyD(2)[OF d(4), of j] by blast
    qed
    finally show "j \<in> fst ` set (sc_busy t) \<longleftrightarrow> (\<exists>v a. held (sc_pc t v) = Some (a, j))" .
  next
    fix v u a b j assume "held (sc_pc t v) = Some (a, j)" "held (sc_pc t u) = Some (b, j)"
    then show "v = u" using stays busyD(3)[OF d(4)] by metis
  qed
  show "claim_ok acc cl t"
  proof (rule claimI)
    fix v a j assume a: "held (sc_pc t v) = Some (a, j)"
    have a1: "v \<noteq> w" "held (sc_pc s v) = Some (a, j)" using stays[OF a] by blast+
    show "j \<in> set cl" by (rule claimD(4)[OF d(5) a1(2)])
    assume "publishing (sc_pc t v)"
    then show "qt_token (sc_heap t a) \<notin> snd ` set cl" using claimD(5)[OF d(5) a1(2)] hd(2)[OF a1(1)] by (simp add: f)
  qed (use claimD[OF d(5)] in \<open>simp_all add: f\<close>)
  show "held (sc_pc t v) \<noteq> Some (n, j)" for v
    using stays[of v "(n, j)"] sole_holder[OF d(3) _ h, of v j] by blast
qed

text \<open>What a \<open>Done\<close> of its own, or of a worker that moves on, does to the wait group.\<close>

lemma counted:
  assumes g: "pool_queue_ok u" "obj_ok u" "work_ok u" "busy_ok u" "claim_ok acc cl u" "accept_ok acc u"
    and c: "count_ok (u\<lparr>sc_wg := x\<rparr>)"
  shows "pool_inv acc cl (u\<lparr>sc_wg := x\<rparr>)"
proof -
  have hs: "holder_ok (u\<lparr>sc_wg := x\<rparr>) = holder_ok u" by (simp add: holder_ok_def fun_eq_iff)
  show ?thesis
    by (rule pool_invI) (use g c hs in \<open>simp_all add: pool_queue_ok_def obj_ok_def work_ok_def busy_ok_def claim_ok_def accept_ok_def\<close>)
qed

lemma holder_max: "pool_inv acc cl s \<Longrightarrow> held (sc_pc s w) = Some (n, k) \<Longrightarrow> w < sc_max s"
  using holderD[OF pool_invD(3), of acc cl s w n k] by (simp add: holder_ok_def)

lemma let_go_count:
  assumes i: "pool_inv acc cl s" and h: "held (sc_pc s w) = Some (n, k)" and p: "held p = None"
    and x: "x + (if owes (sc_pc s w) then 1 else 0) = sc_wg s + (if owes p then 1 else 0)"
  shows "pool_inv acc cl ((set_worker w p (releaseBusyLocked k s))\<lparr>sc_wg := x\<rparr>)"
proof (rule counted)
  let ?u = "set_worker w p (releaseBusyLocked k s)"
  note g = let_go[OF i h p]
  show "pool_queue_ok ?u" "obj_ok ?u" "work_ok ?u" "busy_ok ?u" "claim_ok acc cl ?u" "accept_ok acc ?u" by (fact g(1-6))+
  have o: "workers_at owes (?u\<lparr>sc_wg := x\<rparr>) + (if owes (sc_pc s w) then 1 else 0) = workers_at owes s + (if owes p then 1 else 0)"
    by (rule workers_at_upd[OF holder_max[OF i h]]) (simp_all add: set_worker_def releaseBusyLocked_def)
  have f: "unclaimed (?u\<lparr>sc_wg := x\<rparr>) = unclaimed s" "dones_left (?u\<lparr>sc_wg := x\<rparr>) = dones_left s"
    "sc_managed (?u\<lparr>sc_wg := x\<rparr>) = sc_managed s" "sc_max (?u\<lparr>sc_wg := x\<rparr>) = sc_max s" "sc_wg (?u\<lparr>sc_wg := x\<rparr>) = x"
    "committedSlotsLocked (?u\<lparr>sc_wg := x\<rparr>) + 1 = committedSlotsLocked s"
    using g(7) by (simp_all add: unclaimed_def dones_left_def set_worker_def releaseBusyLocked_def committedSlotsLocked_def)
  show "count_ok (?u\<lparr>sc_wg := x\<rparr>)" using pool_invD(7)[OF i] o x f unfolding count_ok_def by (auto split: if_splits)
qed

lemma settle_inv:
  assumes i: "pool_inv acc cl s" and h: "held (sc_pc s w) = Some (n, k)" and o: "owes (sc_pc s w)"
  shows "pool_inv acc cl (settle_claim w k s)"
proof -
  have "settle_claim w k s = (set_worker w WIdle (releaseBusyLocked k s))\<lparr>sc_wg := sc_wg s - 1\<rparr>"
    by (simp add: settle_claim_def set_worker_def)
  then show ?thesis using let_go_count[OF i h, of WIdle "sc_wg s - 1"] o by (simp add: held_def owes_def)
qed

lemma release_first_inv:
  assumes i: "pool_inv acc cl s" and h: "held (sc_pc s w) = Some (n, k)" and o: "owes (sc_pc s w)"
  shows "pool_inv acc cl (release_first w k s)"
proof -
  have "release_first w k s = (set_worker w WOwes (releaseBusyLocked k s))\<lparr>sc_wg := sc_wg s\<rparr>"
    by (simp add: release_first_def set_worker_def releaseBusyLocked_def)
  then show ?thesis using let_go_count[OF i h, of WOwes "sc_wg s"] o by (simp add: held_def owes_def)
qed

lemma other_keys: "g \<notin> fst ` set q \<Longrightarrow> {e \<in> set q. fst e \<noteq> g} = set q"
  by force

lemma requeue_put_inv:
  assumes i: "pool_inv acc cl s" and p: "sc_pc s w = WSynced n k c err" and g: "cf_ID c = fst k"
    and m: "map_of (sc_queued s) (fst k) = None" and dl: "sc_downloads s (fst k) = None"
  shows "pool_inv acc cl (requeue_task w n k c now (sc_last s + 1) (s\<lparr>sc_last := sc_last s + 1\<rparr>))" (is "pool_inv _ _ ?t")
proof (rule pool_invI)
  note d = pool_invD[OF i]
  have h: "held (sc_pc s w) = Some (n, k)" by (simp add: p held_def)
  note ho = holderD[OF d(3) h]
  have hn: "n < sc_objects s" "w < sc_max s" "qt_inFlight (sc_heap s n)" "n \<notin> snd ` set (sc_queued s)" "loose (sc_pc s w)"
    using ho by (auto simp: holder_ok_def p loose_def)
  obtain q where q: "sc_heap ?t = (sc_heap s)(n := q)" "qt_token q = sc_last s + 1" "qt_inFlight q" "\<not> qt_admitted q" "cf_ID (qt_cfg q) = fst k"
    by (simp add: requeue_task_def Let_def set_worker_def g)
  have gq: "fst k \<notin> fst ` set (sc_queued s)" using m by (simp add: not_queued)
  have f: "sc_queued ?t = aput (fst k) n (sc_queued s)" "sc_order ?t = remove1 (fst k) (sc_order s) @ [fst k]"
    "sc_objects ?t = sc_objects s" "sc_downloads ?t = sc_downloads s" "sc_last ?t = sc_last s + 1" "sc_max ?t = sc_max s"
    "sc_managed ?t = sc_managed s" "sc_busy ?t = sc_busy s" "sc_wg ?t = sc_wg s" "publishing (sc_pc ?t w)"
    "held (sc_pc ?t w) = Some (n, k)" "carried (sc_pc ?t w) = Some (if cf_hls c then c\<lparr>cf_isResume := True\<rparr> else c)"
    "\<not> loose (sc_pc ?t w)" "sc_pc ?t w \<noteq> WClaimed n k"
    by (simp_all add: requeue_task_def Let_def set_worker_def g pc_defs)
  have pv: "v \<noteq> w \<Longrightarrow> sc_pc ?t v = sc_pc s v" for v by (simp add: requeue_task_def Let_def set_worker_def)
  have hd: "held (sc_pc ?t v) = held (sc_pc s v)" for v using pv[of v] f(11) h by (cases "v = w") simp_all
  have rest: "{e \<in> set (sc_queued s). fst e \<noteq> fst k} = set (sc_queued s)" by (rule other_keys[OF gq])
  have other: "a \<noteq> n" if "held (sc_pc s v) = Some (a, j)" "v \<noteq> w" for v a j using sole_holder[OF d(3)] that h by blast
  have qn: "e \<in> set (sc_queued s) \<Longrightarrow> snd e \<noteq> n" for e using hn(4) by force
  have so: "set (sc_order s) = fst ` set (sc_queued s)" "distinct (sc_order s)" using d(1) by (simp_all add: pool_queue_ok_def)
  have ro: "remove1 (fst k) (sc_order s) = sc_order s" using gq so(1) by (simp add: remove1_idem)
  show "pool_queue_ok ?t" unfolding pool_queue_ok_def f ro
  proof (intro conjI)
    show "distinct (map fst (aput (fst k) n (sc_queued s)))" using d(1) by (simp add: pool_queue_ok_def aput_distinct)
    show "distinct (sc_order s @ [fst k])" using so gq by simp
    show "set (sc_order s @ [fst k]) = fst ` set (aput (fst k) n (sc_queued s))" using so(1) rest by simp
    show "\<forall>e \<in> set (aput (fst k) n (sc_queued s)). snd e < sc_objects s \<and> task_id ?t (snd e) = fst e \<and> sc_downloads s (fst e) = None"
    proof
      fix e assume "e \<in> set (aput (fst k) n (sc_queued s))"
      then consider "e = (fst k, n)" | "e \<in> set (sc_queued s)" by auto
      then show "snd e < sc_objects s \<and> task_id ?t (snd e) = fst e \<and> sc_downloads s (fst e) = None"
      proof cases
        case 1
        then show ?thesis using hn(1) q(1,5) dl by simp
      next
        case 2
        then show ?thesis using d(1) qn[OF 2] q(1) by (simp add: pool_queue_ok_def)
      qed
    qed
  qed
  have tl: "a < sc_objects s \<Longrightarrow> qt_token (sc_heap s a) \<le> sc_last s" for a using d(2) by (simp add: obj_ok_def)
  show "obj_ok ?t" unfolding obj_ok_def f
  proof (intro conjI)
    show "\<forall>a < sc_objects s. 0 < qt_token (sc_heap ?t a) \<and> qt_token (sc_heap ?t a) \<le> sc_last s + 1"
      using d(2) q(1,2) by (auto simp: obj_ok_def le_SucI)
    show "inj_on (\<lambda>a. qt_token (sc_heap ?t a)) {..<sc_objects s}"
    proof (rule inj_onI)
      fix a b assume ab: "a \<in> {..<sc_objects s}" "b \<in> {..<sc_objects s}" "qt_token (sc_heap ?t a) = qt_token (sc_heap ?t b)"
      show "a = b"
      proof (cases "a = n \<or> b = n")
        case True
        then show ?thesis using ab q(1,2) tl[of a] tl[of b] by (cases "a = n"; cases "b = n") auto
      next
        case False
        then show ?thesis using ab q(1) objD[OF d(2), of a b] by simp
      qed
    qed
  qed
  show "work_ok ?t"
  proof (rule workI)
    fix v a j assume a: "held (sc_pc ?t v) = Some (a, j)"
    then have a1: "held (sc_pc s v) = Some (a, j)" unfolding hd .
    show "holder_ok ?t v (sc_pc ?t v) a j"
    proof (cases "v = w")
      case True
      then have "a = n" "j = k" using a f(11) by auto
      then show ?thesis using True hn f q g unfolding holder_ok_def by (simp add: q(1))
    next
      case False
      have "holder_ok s v (sc_pc s v) a j" by (rule holderD[OF d(3) a1])
      then show ?thesis using other[OF a1 False] rest unfolding holder_ok_def pv[OF False] f q(1) by auto
    qed
  qed (use sole_holder[OF d(3)] in \<open>unfold hd\<close>)
  show "busy_ok ?t" using d(4) unfolding busy_ok_def hd f .
  have new: "\<forall>x \<in> set ks. snd x \<le> sc_last s \<Longrightarrow> qt_token q \<notin> snd ` set ks" for ks using q(2) by fastforce
  show "claim_ok acc cl ?t"
  proof (rule claimI)
    show "\<forall>x \<in> set cl. snd x \<le> sc_last ?t" using claimD(2)[OF d(5)] unfolding f by auto
    show "distinct cl" "sc_managed ?t \<longrightarrow> set cl \<subseteq> set acc" using claimD(1,6)[OF d(5)] unfolding f .
    show "\<forall>a < sc_objects ?t. qt_token (sc_heap ?t a) \<in> snd ` set cl \<longrightarrow> qt_inFlight (sc_heap ?t a)"
      using claimD(3)[OF d(5)] q(3) unfolding f q(1) by auto
  next
    fix v a j assume a: "held (sc_pc ?t v) = Some (a, j)"
    then have a1: "held (sc_pc s v) = Some (a, j)" unfolding hd .
    show "j \<in> set cl" by (rule claimD(4)[OF d(5) a1])
    assume pb: "publishing (sc_pc ?t v)"
    show "qt_token (sc_heap ?t a) \<notin> snd ` set cl"
    proof (cases "v = w")
      case True
      then show ?thesis using a1 h new[OF claimD(2)[OF d(5)]] unfolding q(1) by simp
    next
      case False
      then show ?thesis using claimD(5)[OF d(5) a1] pb other[OF a1 False] unfolding pv[OF False] q(1) by simp
    qed
  qed
  have aD: "distinct acc" "\<forall>x \<in> set acc. snd x \<le> sc_last s" using d(6) by (auto simp: accept_ok_def)
  show "accept_ok acc ?t" unfolding accept_ok_def f q(1)
    using aD new[OF aD(2)] d(6) q(4) by (auto simp: accept_ok_def le_SucI)
  have cf: "filter P (sc_queued s) = filter P' (sc_queued s)" if "\<And>e. snd e \<noteq> n \<Longrightarrow> P e = P' e" for P P'
    by (rule filter_cong[OF refl]) (use that qn in auto)
  have e1: "committedSlotsLocked ?t = committedSlotsLocked s"
    using filter_put[OF gq, of "awaiting (sc_heap ?t)" n] cf[of "awaiting (sc_heap ?t)" "awaiting (sc_heap s)"] q
    unfolding committedSlotsLocked_def f by (simp add: awaiting_def)
  have e2: "unclaimed ?t = unclaimed s"
    using filter_put[OF gq, of "\<lambda>e. \<not> qt_inFlight (sc_heap ?t (snd e))" n]
      cf[of "\<lambda>e. \<not> qt_inFlight (sc_heap ?t (snd e))" "\<lambda>e. \<not> qt_inFlight (sc_heap s (snd e))"] q
    unfolding unclaimed_def f by simp
  have wm: "w < sc_max s" by (rule holder_max[OF i h])
  have "sc_pc ?t = (sc_pc s)(w := sc_pc ?t w)"
  proof (rule ext)
    fix v show "sc_pc ?t v = ((sc_pc s)(w := sc_pc ?t w)) v" 
    proof (cases "v = w")
      case True
      then show ?thesis by (simp only: fun_upd_same)
    next
      case False
      show ?thesis unfolding fun_upd_other[OF False] by (rule pv[OF False])
    qed
  qed
  then have e3: "workers_at owes ?t = workers_at owes s"
    by (rule workers_at_move[OF wm f(6)]) (simp add: p requeue_task_def Let_def set_worker_def owes_def)
  have e4: "sc_deferred ?t = sc_deferred s" by (simp add: requeue_task_def Let_def set_worker_def)
  show "count_ok ?t" by (rule count_same[OF e1 f(7) f(6) f(9) e2 e3 e4 d(7)])
qed

lemma requeue_done_inv:
  assumes i: "pool_inv acc cl s" and p: "sc_pc s w = WPublished n k" and m: "map_of (sc_queued s) (fst k) = Some n"
  shows "pool_inv acc cl (set_worker w WIdle (releaseBusyLocked k (s\<lparr>sc_heap := (sc_heap s)(n := (sc_heap s n)\<lparr>qt_inFlight := False\<rparr>)\<rparr>)))"
    (is "pool_inv _ _ ?t")
proof (rule pool_invI)
  note d = pool_invD[OF i]
  have h: "held (sc_pc s w) = Some (n, k)" and pub: "publishing (sc_pc s w)" by (simp_all add: p pc_defs)
  let ?u = "set_worker w WIdle (releaseBusyLocked k s)"
  have hw: "held WIdle = None" by (simp add: held_def)
  note g = let_go[OF i h hw]
  have hn: "n < sc_objects s" "qt_inFlight (sc_heap s n)" "\<not> qt_admitted (sc_heap s n)"
    using holderD[OF d(3) h] pub by (simp_all only: holder_ok_def, simp_all)
  have f: "sc_queued ?t = sc_queued ?u" "sc_order ?t = sc_order ?u" "sc_objects ?t = sc_objects ?u" "sc_downloads ?t = sc_downloads ?u"
    "sc_last ?t = sc_last ?u" "sc_max ?t = sc_max ?u" "sc_managed ?t = sc_managed ?u" "sc_busy ?t = sc_busy ?u" "sc_pc ?t = sc_pc ?u"
    "sc_heap ?t = (sc_heap ?u)(n := (sc_heap ?u n)\<lparr>qt_inFlight := False\<rparr>)" "sc_wg ?t = sc_wg s" "sc_heap ?u = sc_heap s"
    "sc_queued ?u = sc_queued s" "sc_objects ?u = sc_objects s" "sc_max ?u = sc_max s" "sc_managed ?u = sc_managed s"
    by (simp_all add: set_worker_def releaseBusyLocked_def)
  have a: "qt_token (sc_heap ?t a) = qt_token (sc_heap ?u a)" "task_id ?t a = task_id ?u a"
    "qt_admitted (sc_heap ?t a) = qt_admitted (sc_heap ?u a)" for a by (simp_all add: f)
  show "pool_queue_ok ?t" using g(1) unfolding pool_queue_ok_def a f(1-9) .
  show "obj_ok ?t" using g(2) unfolding obj_ok_def a f(1-9) .
  show "work_ok ?t"
  proof (rule workI)
    fix v b j assume "held (sc_pc ?t v) = Some (b, j)"
    then have b: "held (sc_pc ?u v) = Some (b, j)" unfolding f .
    have "b \<noteq> n" using g(8) b by blast
    then show "holder_ok ?t v (sc_pc ?t v) b j" using holderD[OF g(3) b] unfolding holder_ok_def a f(1-9) by (simp add: f(10))
  qed (use sole_holder[OF g(3)] in \<open>unfold f(9)\<close>)
  show "busy_ok ?t" using g(4) unfolding busy_ok_def f(1-9) .
  have nt: "qt_token (sc_heap s n) \<notin> snd ` set cl" by (rule claimD(5)[OF d(5) h pub])
  show "claim_ok acc cl ?t"
  proof (rule claimI)
    note c = claimD[OF g(5)]
    show "distinct cl" "\<forall>x \<in> set cl. snd x \<le> sc_last ?t" "sc_managed ?t \<longrightarrow> set cl \<subseteq> set acc" using c(1,2,6) unfolding f(1-9) .
    show "\<forall>b < sc_objects ?t. qt_token (sc_heap ?t b) \<in> snd ` set cl \<longrightarrow> qt_inFlight (sc_heap ?t b)"
      using c(3) nt unfolding a f(1-9) by (auto simp: f(10,12))
    fix v b j assume "held (sc_pc ?t v) = Some (b, j)"
    then have b: "held (sc_pc ?u v) = Some (b, j)" unfolding f .
    show "j \<in> set cl" by (rule c(4)[OF b])
    assume "publishing (sc_pc ?t v)"
    then show "qt_token (sc_heap ?t b) \<notin> snd ` set cl" using c(5)[OF b] unfolding a f(9) by blast
  qed
  show "accept_ok acc ?t" using g(6) unfolding accept_ok_def a f(1-9) .
  have mem: "(fst k, n) \<in> set (sc_queued s)" using queuedD[OF d(1) m] by blast
  have t1: "sc_queued ?t = sc_queued s" "sc_heap ?t = (sc_heap s)(n := (sc_heap s n)\<lparr>qt_inFlight := False\<rparr>)" using f by simp_all
  note k = mark_counts[OF d(1) mem t1]
  have k1: "length (filter (awaiting (sc_heap ?t)) (sc_queued ?t)) = length (filter (awaiting (sc_heap s)) (sc_queued s))"
    using k(1) hn by (simp add: awaiting_def f(10,12))
  have k2: "unclaimed ?t = unclaimed s + 1" using k(2) hn by simp
  have k3: "workers_at owes ?t + 1 = workers_at owes s"
    using workers_at_upd[OF holder_max[OF i h], of ?t WIdle owes] p by (simp add: set_worker_def releaseBusyLocked_def owes_def)
  have k4: "dones_left ?t = dones_left s" by (simp add: dones_left_def set_worker_def releaseBusyLocked_def)
  show "count_ok ?t" using d(7) g(7) k1 k2 k3 unfolding count_ok_def committedSlotsLocked_def f(8,11) k4 by (auto simp: f)
qed

text \<open>\<open>Done\<close> for a retry that was removed; the slot is still held.\<close>

lemma done_first_inv:
  assumes i: "pool_inv acc cl s" and p: "sc_pc s w = WPublished n k"
  shows "pool_inv acc cl (set_worker w (WRelease n k) (s\<lparr>sc_wg := sc_wg s - 1\<rparr>))" (is "pool_inv _ _ ?t")
proof (rule pool_invI)
  note d = pool_invD[OF i]
  have h: "held (sc_pc s w) = Some (n, k)" by (simp add: p held_def)
  have hd: "held (sc_pc ?t v) = held (sc_pc s v)" for v using h by (simp add: set_worker_def held_def)
  have pb: "publishing (sc_pc ?t v) \<Longrightarrow> publishing (sc_pc s v)" for v by (simp add: set_worker_def publishing_def split: if_splits)
  have hs: "holder_ok ?t = holder_ok s" by (simp add: holder_ok_def set_worker_def fun_eq_iff)
  have o: "workers_at owes ?t + 1 = workers_at owes s"
    using workers_at_upd[OF holder_max[OF i h], of ?t "WRelease n k" owes] p by (simp add: set_worker_def owes_def)
  show "count_ok ?t" using d(7) o
    by (auto simp: count_ok_def set_worker_def committedSlotsLocked_def unclaimed_def dones_left_def)
  show "pool_queue_ok ?t" "obj_ok ?t" "accept_ok acc ?t" using d
    by (simp_all add: set_worker_def pool_queue_ok_def obj_ok_def accept_ok_def)
  show "work_ok ?t"
  proof (rule workI)
    fix v a j assume a: "held (sc_pc ?t v) = Some (a, j)"
    then have a1: "held (sc_pc s v) = Some (a, j)" unfolding hd .
    show "holder_ok ?t v (sc_pc ?t v) a j"
    proof (cases "v = w")
      case True
      then have "a = n" "j = k" using a1 h by auto
      then show ?thesis using True holderD[OF d(3) h] unfolding hs by (simp add: set_worker_def holder_ok_def pc_defs)
    next
      case False
      then show ?thesis using holderD[OF d(3) a1] unfolding hs by (simp add: set_worker_def)
    qed
  qed (use sole_holder[OF d(3)] in \<open>unfold hd\<close>)
  show "busy_ok ?t" using d(4) unfolding busy_ok_def hd by (simp add: set_worker_def)
  show "claim_ok acc cl ?t"
  proof (rule claimI)
    fix v a j assume a: "held (sc_pc ?t v) = Some (a, j)"
    then show "j \<in> set cl" using claimD(4)[OF d(5)] unfolding hd by blast
    assume "publishing (sc_pc ?t v)"
    then show "qt_token (sc_heap ?t a) \<notin> snd ` set cl" using a claimD(5)[OF d(5)] pb unfolding hd by (simp add: set_worker_def)
  qed (use claimD[OF d(5)] in \<open>simp_all add: set_worker_def\<close>)
qed

text \<open>The second half of letting go.\<close>

lemma owed_done_inv:
  assumes i: "pool_inv acc cl s" and p: "sc_pc s w = WOwes" and wm: "w < sc_max s"
  shows "pool_inv acc cl (set_worker w WIdle (s\<lparr>sc_wg := sc_wg s - 1\<rparr>))" (is "pool_inv _ _ ?t")
proof (rule pool_invI)
  note d = pool_invD[OF i]
  have h: "held (sc_pc s w) = None" by (simp add: p held_def)
  have hd: "held (sc_pc ?t v) = held (sc_pc s v)" for v using h by (simp add: set_worker_def held_def)
  have pv: "held (sc_pc s v) = Some x \<Longrightarrow> sc_pc ?t v = sc_pc s v" for v x using h by (auto simp: set_worker_def)
  have hs: "holder_ok ?t = holder_ok s" by (simp add: holder_ok_def set_worker_def fun_eq_iff)
  have o: "workers_at owes ?t + 1 = workers_at owes s"
    using workers_at_upd[OF wm, of ?t WIdle owes] p by (simp add: set_worker_def owes_def)
  show "count_ok ?t" using d(7) o
    by (auto simp: count_ok_def set_worker_def committedSlotsLocked_def unclaimed_def dones_left_def)
  show "pool_queue_ok ?t" "obj_ok ?t" "accept_ok acc ?t" using d
    by (simp_all add: set_worker_def pool_queue_ok_def obj_ok_def accept_ok_def)
  show "work_ok ?t"
  proof (rule workI)
    fix v a j assume a: "held (sc_pc ?t v) = Some (a, j)"
    then have a1: "held (sc_pc s v) = Some (a, j)" unfolding hd .
    show "holder_ok ?t v (sc_pc ?t v) a j" unfolding hs pv[OF a1] by (rule holderD[OF d(3) a1])
  qed (use sole_holder[OF d(3)] in \<open>unfold hd\<close>)
  show "busy_ok ?t" using d(4) unfolding busy_ok_def hd by (simp add: set_worker_def)
  show "claim_ok acc cl ?t"
  proof (rule claimI)
    fix v a j assume a: "held (sc_pc ?t v) = Some (a, j)"
    then have a1: "held (sc_pc s v) = Some (a, j)" unfolding hd .
    show "j \<in> set cl" by (rule claimD(4)[OF d(5) a1])
    assume "publishing (sc_pc ?t v)"
    then show "qt_token (sc_heap ?t a) \<notin> snd ` set cl" using claimD(5)[OF d(5) a1] unfolding pv[OF a1] by (simp add: set_worker_def)
  qed (use claimD[OF d(5)] in \<open>simp_all add: set_worker_def\<close>)
qed

section \<open>Every step keeps the invariant\<close>

lemma core_refl [simp]: "same_core s s"
  by (simp add: same_core_def)

lemma add_step:
  assumes i: "pool_inv acc cl s"
  shows "pool_inv acc cl (snd (AddWithPreparation c prepared s))"
proof (cases "sc_stopping s \<or> map_of (sc_queued s) (cf_ID c) \<noteq> None \<or> sc_downloads s (cf_ID c) \<noteq> None \<or> \<not> prepared \<or>
    int (sc_last s) = max_u64")
  case True
  then show ?thesis using i by (auto simp: AddWithPreparation_def allocTokenLocked_def)
next
  case False
  let ?q = "\<lparr>qt_cfg = (if sc_managed s then c\<lparr>cf_runtime := Some (managedRuntimeCeiling c)\<rparr> else c), qt_retries = 0,
      qt_inFlight = False, qt_retryAt = zero_time, qt_token = sc_last s + 1, qt_admitted = False\<rparr>"
  have "pool_inv acc cl (s\<lparr>sc_last := sc_last s + 1, sc_heap := (sc_heap s)(sc_objects s := ?q), sc_objects := sc_objects s + 1,
      sc_queued := aput (cf_ID c) (sc_objects s) (sc_queued s), sc_order := sc_order s @ [cf_ID c], sc_wg := sc_wg s + 1\<rparr>)"
    by (rule add_inv[OF i]) (use False in simp_all)
  then show ?thesis using False by (simp add: AddWithPreparation_def allocTokenLocked_def Let_def)
qed

lemma patched: "cf_runtime (qt_cfg q) = Some rt \<Longrightarrow> cf_ID (qt_cfg (patched_task a b q)) = cf_ID (qt_cfg q) \<and>
    qt_token (patched_task a b q) = qt_token q \<and> qt_inFlight (patched_task a b q) = qt_inFlight q \<and> qt_admitted (patched_task a b q)"
  by (simp add: patched_task_def Let_def)

lemma admit_cases:
  assumes "Admit k workers minChunk now s = (r, t)"
  shows "(r \<noteq> AdmitAccepted \<and> t = s) \<or>
    (r = AdmitAccepted \<and> (\<exists>n rt. map_of (sc_queued s) (fst k) = Some n \<and> qt_token (sc_heap s n) = snd k \<and>
       \<not> qt_admitted (sc_heap s n) \<and> \<not> qt_inFlight (sc_heap s n) \<and> cf_runtime (qt_cfg (sc_heap s n)) = Some rt \<and>
       committedSlotsLocked s < sc_max s \<and> sc_managed s \<and> map_of (sc_busy s) k = None \<and>
       t = s\<lparr>sc_heap := (sc_heap s)(n := patched_task workers minChunk (sc_heap s n))\<rparr>))"
proof (cases "map_of (sc_queued s) (fst k)")
  case None
  then show ?thesis using assms
    by (auto simp: Admit_def Let_def slot_answer_def split: if_splits option.splits)
next
  case (Some n)
  show ?thesis
  proof (cases "map_of (sc_busy s) k")
    case None
    show ?thesis using assms Some None unfolding Admit_def Let_def Some None option.case
      by (simp split: if_split_asm option.split_asm)
  next
    case busy: (Some b)
    show ?thesis using assms Some busy unfolding Admit_def Let_def Some busy option.case slot_answer_def
      by (simp split: if_split_asm)
  qed
qed

lemma admit_step:
  assumes i: "pool_inv acc cl s" and a: "Admit k workers minChunk now s = (r, t)"
  shows "pool_inv (acc @ (if r = AdmitAccepted then [k] else [])) cl t"
  using admit_cases[OF a]
proof
  assume "r \<noteq> AdmitAccepted \<and> t = s"
  then show ?thesis using i by simp
next
  assume "r = AdmitAccepted \<and> (\<exists>n rt. map_of (sc_queued s) (fst k) = Some n \<and> qt_token (sc_heap s n) = snd k \<and>
       \<not> qt_admitted (sc_heap s n) \<and> \<not> qt_inFlight (sc_heap s n) \<and> cf_runtime (qt_cfg (sc_heap s n)) = Some rt \<and>
       committedSlotsLocked s < sc_max s \<and> sc_managed s \<and> map_of (sc_busy s) k = None \<and>
       t = s\<lparr>sc_heap := (sc_heap s)(n := patched_task workers minChunk (sc_heap s n))\<rparr>)"
  then obtain n rt where r: "r = AdmitAccepted" and m: "map_of (sc_queued s) (fst k) = Some n" and tk: "qt_token (sc_heap s n) = snd k"
    and f: "\<not> qt_admitted (sc_heap s n)" "\<not> qt_inFlight (sc_heap s n)" and rt: "cf_runtime (qt_cfg (sc_heap s n)) = Some rt"
    and c: "committedSlotsLocked s < sc_max s" and t: "t = s\<lparr>sc_heap := (sc_heap s)(n := patched_task workers minChunk (sc_heap s n))\<rparr>"
    by blast
  note p = patched[OF rt, of workers minChunk]
  have "task_id s n = fst k" using queuedD[OF pool_invD(1)[OF i] m] by blast
  then have "pool_inv (acc @ [(fst k, qt_token (patched_task workers minChunk (sc_heap s n)))]) cl t"
    unfolding t by (intro admit_inv[OF i m f]) (use p f c in simp_all)
  then show ?thesis using r p tk by simp
qed

lemma pause_active_same: "same_core s (pause_active a c s)"
  by (simp add: pause_active_def cancel_ad_def same_core_def dones_left_def Let_def split: option.split)

lemma put_off_same: "count_list ds DDone = 0 \<Longrightarrow> same_core s (put_off ds s)"
  by (simp add: put_off_def same_core_def dones_left_def)

lemma pause_step:
  assumes i: "pool_inv acc cl s"
  shows "pool_inv acc cl (snd (Pause g s))"
proof (cases "map_of (sc_queued s) g")
  case None
  then show ?thesis using i pool_same[OF put_off_same i] by (auto simp: Pause_def split: option.split)
next
  case (Some n)
  then show ?thesis using drop_inv[OF i Some] by (simp add: Pause_def)
qed

lemma core_trans: "same_core s t \<Longrightarrow> same_core t u \<Longrightarrow> same_core s u"
  by (simp add: same_core_def)

lemma mark_same: "same_core s (fold remove_mark as s)"
proof (induction as arbitrary: s)
  case (Cons a as)
  have "same_core s (remove_mark a s)" by (simp add: same_core_def remove_mark_def dones_left_def)
  from core_trans[OF this Cons] show ?case by simp
qed simp

lemma cancel_step:
  assumes i: "pool_inv acc cl s"
  shows "pool_inv acc cl (snd (Cancel g s))"
proof -
  define s1 where "s1 = fold remove_mark (hls_claims g s) (s\<lparr>sc_downloads := (sc_downloads s)(g := None)\<rparr>)"
  have i0: "pool_inv acc cl (s\<lparr>sc_downloads := (sc_downloads s)(g := None)\<rparr>)" by (rule downloads_inv[OF i]) simp
  have c: "same_core (s\<lparr>sc_downloads := (sc_downloads s)(g := None)\<rparr>) s1" unfolding s1_def by (rule mark_same)
  have i1: "pool_inv acc cl s1" by (rule pool_same[OF c i0])
  have e: "sc_queued s1 = sc_queued s" "sc_heap s1 = sc_heap s" "sc_wg s1 = sc_wg s" using c by (simp_all add: same_core_def)
  define s2 where "s2 = (case map_of (sc_queued s) g of None \<Rightarrow> s1
      | Some n \<Rightarrow> put_off (if qt_inFlight (sc_heap s n) then [] else [DDone]) (drop_queued g s1))"
  have i2: "pool_inv acc cl s2" using i1 drop_inv[OF i1, of g] unfolding s2_def e by (simp split: option.split)
  have "count_list (map DCancel as) DDone = 0" for as by (induction as) simp_all
  from pool_same[OF put_off_same[OF this] i2] show ?thesis
    unfolding Cancel_def Let_def snd_conv s1_def[symmetric] s2_def[symmetric] .
qed

lemma deferred_step:
  assumes i: "pool_inv acc cl s"
  shows "pool_inv acc cl (run_deferred j s)"
proof (cases "j < length (sc_deferred s)")
  case True
  define t where "t = s\<lparr>sc_deferred := take j (sc_deferred s) @ drop (Suc j) (sc_deferred s)\<rparr>"
  have "sc_deferred s = take j (sc_deferred s) @ sc_deferred s ! j # drop (Suc j) (sc_deferred s)"
    by (rule id_take_nth_drop[OF True])
  then have "count_list (sc_deferred s) DDone =
      count_list (take j (sc_deferred s) @ sc_deferred s ! j # drop (Suc j) (sc_deferred s)) DDone" by simp
  then have c: "dones_left s = dones_left t + (if sc_deferred s ! j = DDone then 1 else 0)"
    by (simp add: dones_left_def t_def)
  have st: "same_core s t" if "sc_deferred s ! j \<noteq> DDone" using that c by (simp add: same_core_def t_def)
  have r: "run_deferred j s = (case sc_deferred s ! j of DDone \<Rightarrow> t\<lparr>sc_wg := sc_wg t - 1\<rparr>
      | DCancel a \<Rightarrow> cancel_ad a t | DPauseActive a x \<Rightarrow> pause_active a x t)"
    using True by (simp add: run_deferred_def t_def[symmetric] Let_def)
  show ?thesis
  proof (cases "sc_deferred s ! j")
    case DDone
    note d = pool_invD[OF i]
    let ?u = "t\<lparr>sc_wg := sc_wg t - 1\<rparr>"
    have u: "?u = t\<lparr>sc_wg := sc_wg s - 1\<rparr>" by (simp add: t_def)
    have hs: "holder_ok t = holder_ok s" by (simp add: holder_ok_def fun_eq_iff t_def)
    have "pool_inv acc cl (t\<lparr>sc_wg := sc_wg s - 1\<rparr>)"
    proof (rule counted)
      show "pool_queue_ok t" "obj_ok t" "work_ok t" "busy_ok t" "claim_ok acc cl t" "accept_ok acc t" using d hs
        by (simp_all add: pool_queue_ok_def obj_ok_def work_ok_def busy_ok_def claim_ok_def accept_ok_def t_def)
      show "count_ok (t\<lparr>sc_wg := sc_wg s - 1\<rparr>)" using d(7) c DDone
        by (simp add: count_ok_def committedSlotsLocked_def unclaimed_def workers_at_def dones_left_def t_def)
    qed
    then show ?thesis unfolding r DDone u[symmetric] by simp
  next
    case (DCancel a)
    have "same_core t (cancel_ad a t)" by (simp add: same_core_def cancel_ad_def dones_left_def)
    from pool_same[OF core_trans[OF st this] i] show ?thesis using DCancel by (simp add: r)
  next
    case (DPauseActive a x)
    from pool_same[OF core_trans[OF st pause_active_same] i] show ?thesis using DPauseActive by (simp add: r)
  qed
qed (use i in \<open>simp add: run_deferred_def\<close>)

lemma finish_step:
  assumes i: "pool_inv acc cl s" and w: "w < sc_max s"
  shows "pool_inv acc cl (worker_finish w s)"
proof (cases "sc_pc s w")
  case WOwes
  then show ?thesis using owed_done_inv[OF i WOwes w] by (simp add: worker_finish_def)
next
  case (WRelease n k)
  have "set_worker w WIdle (releaseBusyLocked k s) = (set_worker w WIdle (releaseBusyLocked k s))\<lparr>sc_wg := sc_wg s\<rparr>"
    by (simp add: set_worker_def releaseBusyLocked_def)
  moreover have "pool_inv acc cl ((set_worker w WIdle (releaseBusyLocked k s))\<lparr>sc_wg := sc_wg s\<rparr>)"
    by (rule let_go_count[OF i, of w n]) (simp_all add: WRelease pc_defs)
  ultimately show ?thesis using WRelease by (simp add: worker_finish_def)
qed (use i in \<open>simp_all add: worker_finish_def\<close>)

lemma extract_step:
  assumes i: "pool_inv acc cl s"
  shows "pool_inv acc cl (snd (ExtractPausedConfig g s))"
proof -
  have "pool_inv acc cl (s\<lparr>sc_downloads := (sc_downloads s)(g := None), sc_prog := f\<rparr>)" for f
  proof -
    have "same_core (s\<lparr>sc_downloads := (sc_downloads s)(g := None)\<rparr>) (s\<lparr>sc_downloads := (sc_downloads s)(g := None), sc_prog := f\<rparr>)"
      by (simp add: same_core_def dones_left_def)
    from pool_same[OF this downloads_inv[OF i]] show ?thesis by simp
  qed
  then show ?thesis using i by (auto simp: ExtractPausedConfig_def Let_def split: option.split)
qed

lemma scan_found:
  "scan_queue now s xs e = (Some (g, n), e') \<Longrightarrow>
   map_of (sc_queued s) g = Some n \<and> \<not> qt_inFlight (sc_heap s n) \<and> (sc_managed s \<longrightarrow> qt_admitted (sc_heap s n)) \<and>
   (qt_retryAt (sc_heap s n) = zero_time \<or> qt_retryAt (sc_heap s n) \<le> now)"
  by (induction xs arbitrary: e) (auto simp: Let_def split: option.splits if_splits)

lemma wait_step:
  assumes i: "pool_inv acc cl s" and w: "w < sc_max s" "sc_pc s w = WIdle"
  shows "pool_inv acc (cl @ claim_key (sc_pc (waitForTask w now s) w)) (waitForTask w now s)"
proof -
  show ?thesis
  proof (cases "sc_stopping s")
    case True
    then show ?thesis using exit_inv[OF i w] by (simp add: waitForTask_def claim_key_def set_worker_def)
  next
    case False
    show ?thesis
    proof (cases "fst (scan_queue now s (sc_order s) zero_time)")
      case None
      then obtain e where e: "scan_queue now s (sc_order s) zero_time = (None, e)" by (metis prod.collapse)
      have "same_core s (armRetryTimerLocked e s)" by (simp add: armRetryTimerLocked_def same_core_def dones_left_def)
      from pool_same[OF this i] show ?thesis using False e w(2)
        by (simp add: waitForTask_def claim_key_def armRetryTimerLocked_def)
    next
      case (Some gn)
      then obtain g n e where e: "scan_queue now s (sc_order s) zero_time = (Some (g, n), e)" by (metis prod.collapse)
      note f = scan_found[OF e]
      have "pool_inv acc (cl @ [(g, qt_token (sc_heap s n))]) (claim_task w g n s)"
        using f by (intro claim_inv[OF i _ _ _ w]) simp_all
      then show ?thesis using False e by (simp add: waitForTask_def claim_key_def claim_task_def Let_def set_worker_def)
    qed
  qed
qed

lemma drop_claimed_inv:
  assumes i: "pool_inv acc cl s" and m: "map_of (sc_queued s) g = Some n" and f: "qt_inFlight (sc_heap s n)"
  shows "pool_inv acc cl (drop_queued g s)"
proof -
  have "put_off (if qt_inFlight (sc_heap s n) then [] else [DDone]) (drop_queued g s) = drop_queued g s"
    using f by (simp add: drop_queued_def put_off_def)
  then show ?thesis using drop_inv[OF i m] by simp
qed

lemma register_step:
  assumes i: "pool_inv acc cl s"
  shows "pool_inv acc cl (worker_register w s)"
proof (cases "sc_pc s w")
  case (WClaimed n k)
  have h: "held (sc_pc s w) = Some (n, k)" by (simp add: WClaimed held_def)
  note d = pool_invD[OF i]
  have ho: "w < sc_max s" "n < sc_objects s" "qt_inFlight (sc_heap s n)" "task_id s n = fst k"
    using holderD[OF d(3) h] by (simp_all add: holder_ok_def)
  show ?thesis
  proof (cases "map_of (sc_queued s) (fst k) = Some n")
    case False
    have "owes (sc_pc s w)" by (simp add: WClaimed owes_def)
    then show ?thesis using release_first_inv[OF i h] False WClaimed ho(4) by (simp add: worker_register_def Let_def)
  next
    case m: True
    have dl: "sc_downloads s (fst k) = None" using queuedD[OF d(1) m] by blast
    let ?s1 = "drop_queued (fst k) s"
    define c where "c = (if cf_runtime (qt_cfg (sc_heap s n)) = None then (qt_cfg (sc_heap s n))\<lparr>cf_runtime := Some DefaultRuntimeConfig\<rparr>
        else qt_cfg (sc_heap s n))"
    have cid: "cf_ID c = fst k" using ho(4) by (simp add: c_def)
    have i1: "pool_inv acc cl ?s1" by (rule drop_claimed_inv[OF i m ho(3)])
    have e1: "sc_heap ?s1 = sc_heap s" "sc_pc ?s1 = sc_pc s" "sc_downloads ?s1 = sc_downloads s" "sc_busy ?s1 = sc_busy s"
      "sc_ads ?s1 = sc_ads s" "sc_max ?s1 = sc_max s" "sc_objects ?s1 = sc_objects s" by (simp_all add: drop_queued_def)
    let ?s2 = "?s1\<lparr>sc_heap := (sc_heap ?s1)(n := (sc_heap ?s1 n)\<lparr>qt_cfg := c\<rparr>)\<rparr>"
    have i2: "pool_inv acc cl ?s2" by (rule cfg_inv[OF i1]) (simp add: cid ho(4) e1)
    have nq: "fst k \<notin> fst ` set (sc_queued ?s1)" by (auto simp: drop_queued_def)
    let ?s3 = "?s2\<lparr>sc_downloads := (sc_downloads ?s2)(fst k := Some (snd k))\<rparr>"
    have i3: "pool_inv acc cl ?s3" by (rule downloads_inv[OF i2]) (use nq in simp)
    let ?s4 = "?s3\<lparr>sc_ads := (sc_ads s)(snd k := \<lparr>ad_config = c, ad_running = True, ad_cancelled = False, ad_hlsRemoved = False\<rparr>),
        sc_busy := map (\<lambda>(j, b). (j, if j = k then b\<lparr>bs_ad := Some (snd k)\<rparr> else b)) (sc_busy s)\<rparr>"
    have "same_core ?s3 ?s4" by (simp add: same_core_def e1 case_prod_beta comp_def dones_left_def)
    from pool_same[OF this i3] have i4: "pool_inv acc cl ?s4" .
    have h4: "held (sc_pc ?s4 w) = Some (n, k)" using h e1 by simp
    have "n \<notin> snd ` set (sc_queued ?s4)"
    proof
      assume "n \<in> snd ` set (sc_queued ?s4)"
      then obtain g where g: "(g, n) \<in> set (sc_queued s)" "g \<noteq> fst k" by (auto simp: drop_queued_def)
      have "(fst k, n) \<in> set (sc_queued s)" using m by (rule map_of_SomeD)
      with g show False using object_unique[OF d(1)] by blast
    qed
    then have "holder_ok ?s4 w (WRunning n k c) n k" using ho cid e1 by (simp add: holder_ok_def pc_defs)
    then have r: "pool_inv acc cl (set_worker w (WRunning n k c) ?s4)"
      by (rule relabel_inv[OF i4 h4, of "WRunning n k c", rotated]) (use WClaimed in \<open>simp_all add: pc_defs e1\<close>)
    have t1: "cf_ID (qt_cfg (sc_heap s n)) = fst k" using ho(4) .
    have "worker_register w s = set_worker w (WRunning n k c) ?s4"
      unfolding worker_register_def WClaimed pool_worker.case Let_def t1 c_def[symmetric] using m dl by (simp add: e1)
    then show ?thesis using r by simp
  qed
qed (use i in \<open>simp_all add: worker_register_def\<close>)

text \<open>The branch that refuses a claim because the identifier is already active is never taken.\<close>

lemma never_occupied:
  assumes "pool_inv acc cl s" and "map_of (sc_queued s) g = Some n"
  shows "sc_downloads s g = None"
  using queuedD[OF pool_invD(1)[OF assms(1)] assms(2)] by blast

lemma relabel_same:
  assumes i: "pool_inv acc cl s" and c: "same_core s t" and h: "held (sc_pc s w) = Some (n, k)" and h': "held p = Some (n, k)"
    and l: "loose p \<Longrightarrow> loose (sc_pc s w)" and pu: "publishing p = publishing (sc_pc s w)" and ow: "owes p = owes (sc_pc s w)" and nc: "p \<noteq> WClaimed n k"
    and cr: "\<And>x. carried p = Some x \<Longrightarrow> cf_ID x = fst k"
  shows "pool_inv acc cl (set_worker w p t)"
proof -
  have it: "pool_inv acc cl t" by (rule pool_same[OF c i])
  have pc: "sc_pc t = sc_pc s" using c by (simp add: same_core_def)
  have ht: "held (sc_pc t w) = Some (n, k)" using h pc by simp
  have "holder_ok t w (sc_pc s w) n k" using holderD[OF pool_invD(3)[OF it] ht] unfolding pc .
  note o = this[unfolded holder_ok_def]
  have "loose p \<longrightarrow> n \<notin> snd ` set (sc_queued t)" using o l by blast
  moreover have "publishing p \<longrightarrow> \<not> qt_admitted (sc_heap t n)" using o unfolding pu by blast
  ultimately have "holder_ok t w p n k" unfolding holder_ok_def using o nc cr by simp
  then show ?thesis by (rule relabel_inv[OF it ht h']) (use pu ow pc in simp_all)
qed

lemma carriedD: "pool_inv acc cl s \<Longrightarrow> held (sc_pc s w) = Some (n, k) \<Longrightarrow> carried (sc_pc s w) = Some c \<Longrightarrow> cf_ID c = fst k"
  using holderD[OF pool_invD(3), of acc cl s w n k] by (simp add: holder_ok_def)

lemma return_step:
  assumes i: "pool_inv acc cl s"
  shows "pool_inv acc cl (worker_return w r err fl s)"
proof (cases "sc_pc s w")
  case (WRunning n k c)
  let ?c = "r\<lparr>cf_ID := cf_ID c, cf_prog := cf_prog c\<rparr>"
  let ?s1 = "(case cf_prog c of None \<Rightarrow> s | Some p \<Rightarrow> s\<lparr>sc_prog := (sc_prog s)(p := fl)\<rparr>)"
  have cid: "cf_ID c = fst k" by (rule carriedD[OF i, of w n]) (simp_all add: WRunning pc_defs)
  have "same_core s (?s1\<lparr>sc_ads := (sc_ads ?s1)(snd k := (sc_ads ?s1 (snd k))\<lparr>ad_running := False\<rparr>)\<rparr>)"
    by (simp add: same_core_def dones_left_def split: option.split)
  from relabel_same[OF i this, of w n k "WReturned n k ?c err"] show ?thesis
    using cid WRunning by (simp add: worker_return_def Let_def pc_defs)
qed (use i in \<open>simp_all add: worker_return_def\<close>)

lemma sync_step:
  assumes i: "pool_inv acc cl s"
  shows "pool_inv acc cl (worker_sync w s)"
proof (cases "sc_pc s w")
  case (WReturned n k c err)
  have cid: "cf_ID c = fst k" by (rule carriedD[OF i, of w n]) (simp_all add: WReturned pc_defs)
  have "same_core s (if b then s\<lparr>sc_ads := f\<rparr> else s)" for b f by (simp add: same_core_def dones_left_def)
  from relabel_same[OF i this, of w n k "WSynced n k c err"] show ?thesis
    using cid WReturned by (simp add: worker_sync_def Let_def pc_defs)
qed (use i in \<open>simp_all add: worker_sync_def\<close>)

lemma publish_step:
  assumes i: "pool_inv acc cl s"
  shows "pool_inv acc cl (worker_publish w s)"
proof (cases "sc_pc s w")
  case (WPublishing n k c)
  have "same_core s (if b then s else s\<lparr>sc_events := f\<rparr>)" for b f by (simp add: same_core_def dones_left_def)
  from relabel_same[OF i this, of w n k "WPublished n k"] show ?thesis
    using WPublishing by (simp add: worker_publish_def Let_def pc_defs)
qed (use i in \<open>simp_all add: worker_publish_def\<close>)

lemma tail_step:
  assumes i: "pool_inv acc cl s"
  shows "pool_inv acc cl (worker_tail w s)"
proof (cases "sc_pc s w")
  case (WTail n k)
  then show ?thesis using release_first_inv[OF i, of w n k] by (simp add: worker_tail_def held_def owes_def)
qed (use i in \<open>simp_all add: worker_tail_def\<close>)

lemma requeue_step:
  assumes i: "pool_inv acc cl s"
  shows "pool_inv acc cl (worker_requeue w now s)"
proof (cases "sc_pc s w")
  case (WPublished n k)
  have h: "held (sc_pc s w) = Some (n, k)" by (simp add: WPublished held_def)
  show ?thesis
  proof (cases "map_of (sc_queued s) (fst k) = Some n")
    case False
    then show ?thesis using done_first_inv[OF i WPublished] WPublished by (simp add: worker_requeue_def)
  next
    case True
    let ?s1 = "s\<lparr>sc_heap := (sc_heap s)(n := (sc_heap s n)\<lparr>qt_inFlight := False\<rparr>)\<rparr>"
    have c: "same_core (set_worker w WIdle (releaseBusyLocked k ?s1)) (set_worker w WIdle (releaseBusyLocked k (armRetryTimerLocked e ?s1)))" for e
      by (simp add: same_core_def set_worker_def releaseBusyLocked_def armRetryTimerLocked_def dones_left_def)
    from pool_same[OF c requeue_done_inv[OF i WPublished True]] show ?thesis
      using WPublished True by (simp add: worker_requeue_def Let_def)
  qed
qed (use i in \<open>simp_all add: worker_requeue_def\<close>)

lemma worker_settle_step:
  assumes i: "pool_inv acc cl s"
  shows "pool_inv acc cl (worker_settle w now s)"
proof (cases "sc_pc s w")
  case (WSynced n k c err0)
  have h: "held (sc_pc s w) = Some (n, k)" by (simp add: WSynced held_def)
  have cid: "cf_ID c = fst k" by (rule carriedD[OF i h]) (simp add: WSynced carried_def)
  have rl: "pool_inv acc cl (set_worker w (WTail n k) t)" if "pool_inv acc cl t" "sc_pc t = sc_pc s" for t
    using relabel_same[OF that(1) core_refl, of w n k "WTail n k"] that(2) WSynced by (simp add: pc_defs)
  have flags: "same_core t (case cf_prog c of None \<Rightarrow> t | Some p \<Rightarrow> t\<lparr>sc_prog := f p\<rparr>)" for t f
    by (simp add: same_core_def dones_left_def split: option.split)
  have pcs: "sc_pc (case cf_prog c of None \<Rightarrow> t | Some p \<Rightarrow> t\<lparr>sc_prog := f p\<rparr>) = sc_pc t" for t f by (simp split: option.split)
  have dn: "pool_inv acc cl (t\<lparr>sc_downloads := (sc_downloads t)(g := None)\<rparr>)" if "pool_inv acc cl t" for t g
    by (rule downloads_inv[OF that]) simp
  have success: "pool_inv acc cl (settle_success w n k c s)"
  proof -
    let ?s1 = "case cf_prog c of None \<Rightarrow> s | Some p \<Rightarrow>
      s\<lparr>sc_prog := (sc_prog s)(p := (sc_prog s p)\<lparr>pg_pausing := False, pg_paused := False, pg_done := True\<rparr>)\<rparr>"
    have i1: "pool_inv acc cl ?s1" by (rule pool_same[OF flags i])
    have "pool_inv acc cl (if sc_downloads ?s1 (cf_ID c) = Some (snd k) then ?s1\<lparr>sc_downloads := (sc_downloads ?s1)(cf_ID c := None)\<rparr> else ?s1)"
      using i1 dn[OF i1] by simp
    then show ?thesis unfolding settle_success_def Let_def by (rule rl) (simp add: pcs)
  qed
  have pause: "pool_inv acc cl (settle_pause w n k c e s)" for e
  proof -
    let ?s1 = "case cf_prog c of None \<Rightarrow> s | Some p \<Rightarrow> s\<lparr>sc_prog := (sc_prog s)(p := (sc_prog s p)\<lparr>pg_pausing := False\<rparr>)\<rparr>"
    have i1: "pool_inv acc cl ?s1" by (rule pool_same[OF flags i])
    have "same_core ?s1 (if b then ?s1\<lparr>sc_events := f\<rparr> else ?s1)" for b f by (simp add: same_core_def dones_left_def)
    from pool_same[OF this i1] show ?thesis unfolding settle_pause_def Let_def by (rule rl) (simp add: pcs)
  qed
  have failure: "pool_inv acc cl (settle_failure w n k c e now s)" for e
  proof -
    define s0 where "s0 = (case cf_prog c of None \<Rightarrow> s | Some p \<Rightarrow> s\<lparr>sc_prog := (sc_prog s)(p := (sc_prog s p)\<lparr>pg_pausing := False\<rparr>)\<rparr>)"
    have i0: "pool_inv acc cl s0" unfolding s0_def by (rule pool_same[OF flags i])
    have p0: "sc_pc s0 = sc_pc s" unfolding s0_def by (rule pcs)
    define s1 where "s1 = (if sc_downloads s0 (fst k) = Some (snd k) then s0\<lparr>sc_downloads := (sc_downloads s0)(fst k := None)\<rparr> else s0)"
    have i1: "pool_inv acc cl s1" unfolding s1_def using i0 dn[OF i0] by simp
    have p1: "sc_pc s1 = sc_pc s" unfolding s1_def using p0 by simp
    have h1: "held (sc_pc s1 w) = Some (n, k)" using h p1 by simp
    have t1: "pool_inv acc cl (set_worker w (WTail n k) (if b then s1 else s1\<lparr>sc_events := f\<rparr>))" for b f
    proof -
      have "same_core s1 (if b then s1 else s1\<lparr>sc_events := f\<rparr>)" by (simp add: same_core_def dones_left_def)
      from pool_same[OF this i1] show ?thesis by (rule rl) (simp add: p1)
    qed
    have r1: "pool_inv acc cl (requeue_task w n k c now token s2)"
      if a: "allocTokenLocked s1 = Some (token, s2)" and q: "map_of (sc_queued s1) (fst k) = None" "sc_downloads s1 (fst k) = None" for token s2
    proof -
      have "token = sc_last s1 + 1" "s2 = s1\<lparr>sc_last := sc_last s1 + 1\<rparr>" using a by (auto simp: allocTokenLocked_def split: if_splits)
      moreover have "sc_pc s1 w = WSynced n k c err0" using WSynced p1 by simp
      ultimately show ?thesis using requeue_put_inv[OF i1 _ cid q] by simp
    qed
    have st: "pool_inv acc cl (settle_claim w k s1)" by (rule settle_inv[OF i1 h1]) (simp add: p1 WSynced owes_def)
    show ?thesis unfolding settle_failure_def Let_def cid s0_def[symmetric] s1_def[symmetric]
      using t1[of True] t1[of False] r1 st by (auto split: option.split)
  qed
  show ?thesis unfolding worker_settle_def WSynced pool_worker.case Let_def
    using success pause failure by (simp split: option.split)
qed (use i in \<open>simp_all add: worker_settle_def\<close>)

lemma sched_step_inv:
  assumes i: "sched_inv x"
  shows "sched_inv (sched_step op x)"
proof -
  note i = i[unfolded sched_inv_pool]
  show ?thesis
  proof (cases op)
    case (SAdmit k workers m now)
    obtain r t where a: "Admit k workers m now (st_sched x) = (r, t)" by fastforce
    show ?thesis using admit_step[OF i a] SAdmit a by (simp add: sched_inv_pool)
  next
    case (SWait w now)
    then show ?thesis using wait_step[OF i, of w now] i by (simp add: sched_inv_pool Let_def)
  next
    case (SFinish w)
    then show ?thesis using finish_step[OF i, of w] i by (simp add: sched_inv_pool with_sched_def)
  qed (use i add_step[OF i] pause_step[OF i] cancel_step[OF i] extract_step[OF i] drain_queue_inv[OF i] register_step[OF i] return_step[OF i]
      sync_step[OF i] worker_settle_step[OF i] publish_step[OF i] requeue_step[OF i] tail_step[OF i] deferred_step[OF i] in \<open>simp_all add: sched_inv_pool with_sched_def\<close>)
qed

lemma sched_run_inv: "sched_inv x \<Longrightarrow> sched_inv (sched_run ops x)"
  unfolding sched_run_def by (induction ops arbitrary: x) (simp_all add: sched_step_inv)

lemma new_sched_inv: "sched_inv (new_sched prog n managed)"
  by (auto simp: sched_inv_def new_sched_def newScheduler_def pool_queue_ok_def obj_ok_def work_ok_def busy_ok_def claim_ok_def
      accept_ok_def count_ok_def committedSlotsLocked_def unclaimed_def workers_at_def dones_left_def owes_def held_def inj_on_def)

section \<open>What the pool guarantees\<close>

lemma run_inv: "pool_inv (st_accepted (sched_run ops (new_sched prog n b))) (st_claimed (sched_run ops (new_sched prog n b)))
    (st_sched (sched_run ops (new_sched prog n b)))"
  using sched_run_inv[OF new_sched_inv[of prog n b], of ops] unfolding sched_inv_pool .

lemma max_step: "sc_max (snd (AddWithPreparation c p s)) = sc_max s" "sc_managed (snd (AddWithPreparation c p s)) = sc_managed s"
  by (simp_all add: AddWithPreparation_def allocTokenLocked_def Let_def)

text \<open>Sizes that no operation changes.\<close>

definition same_pool :: "scheduler \<Rightarrow> scheduler \<Rightarrow> bool" where
  "same_pool s t \<longleftrightarrow> sc_max t = sc_max s \<and> sc_managed t = sc_managed s"

lemma same_pool_if [simp]: "same_pool s (if b then t else u) = (if b then same_pool s t else same_pool s u)"
  by simp

lemma same_pool_refl [simp]: "same_pool s s"
  by (simp add: same_pool_def)

lemma same_core_pool: "same_core s t \<Longrightarrow> same_pool s t"
  by (simp add: same_core_def same_pool_def)

lemma same_pool_trans: "same_pool s t \<Longrightarrow> same_pool t u \<Longrightarrow> same_pool s u"
  by (simp add: same_pool_def)

lemma same_pool_parts:
  "same_pool s (set_worker w p t) = same_pool s t" "same_pool s (releaseBusyLocked k t) = same_pool s t"
  "same_pool s (drop_queued g t) = same_pool s t" "same_pool s (armRetryTimerLocked e t) = same_pool s t"
  "same_pool s (cancel_ad a t) = same_pool s t" "same_pool s (remove_mark a t) = same_pool s t"
  "same_pool s (settle_claim w k t) = same_pool s t" "same_pool s (pause_active a c t) = same_pool s t"
  "same_pool s (release_first w k t) = same_pool s t" "same_pool s (put_off ds t) = same_pool s t"
  by (simp_all add: same_pool_def set_worker_def releaseBusyLocked_def drop_queued_def armRetryTimerLocked_def cancel_ad_def
      remove_mark_def settle_claim_def pause_active_def release_first_def put_off_def Let_def split: option.split)

lemma same_pool_upd:
  "same_pool s (t\<lparr>sc_heap := a\<rparr>) = same_pool s t" "same_pool s (t\<lparr>sc_wg := b\<rparr>) = same_pool s t"
  "same_pool s (t\<lparr>sc_downloads := c\<rparr>) = same_pool s t" "same_pool s (t\<lparr>sc_prog := d\<rparr>) = same_pool s t"
  "same_pool s (t\<lparr>sc_ads := e\<rparr>) = same_pool s t" "same_pool s (t\<lparr>sc_busy := f\<rparr>) = same_pool s t"
  "same_pool s (t\<lparr>sc_events := g\<rparr>) = same_pool s t" "same_pool s (t\<lparr>sc_queued := h\<rparr>) = same_pool s t"
  "same_pool s (t\<lparr>sc_order := i\<rparr>) = same_pool s t" "same_pool s (t\<lparr>sc_last := j\<rparr>) = same_pool s t"
  "same_pool s (t\<lparr>sc_deferred := l\<rparr>) = same_pool s t"
  by (simp_all add: same_pool_def)

lemmas pool_parts = same_pool_parts same_pool_upd

lemma fold_remove_pool: "same_pool s (fold remove_mark as t) = same_pool s t"
  by (induction as arbitrary: t) (simp_all add: pool_parts)

lemma settle_pool: "same_pool s (worker_settle w now s)"
proof (cases "sc_pc s w")
  case (WSynced n k c e)
  have "same_pool s (settle_success w n k c s)" by (simp add: settle_success_def Let_def pool_parts split: option.split)
  moreover have "same_pool s (settle_pause w n k c e s)" for e
    by (simp add: settle_pause_def Let_def pool_parts split: option.split)
  moreover have "same_pool s (settle_failure w n k c e now s)" for e
    by (auto simp: settle_failure_def allocTokenLocked_def requeue_task_def Let_def pool_parts split: option.split)
  ultimately show ?thesis unfolding worker_settle_def WSynced pool_worker.case Let_def by (simp split: option.split)
qed (simp_all add: worker_settle_def)

lemma op_pool:
  "same_pool s (snd (Admit k a b now s))" "same_pool s (snd (Pause g s))" "same_pool s (snd (Cancel g s))"
  "same_pool s (snd (ExtractPausedConfig g s))" "same_pool s (drain_queue s)" "same_pool s (waitForTask w now s)"
  "same_pool s (worker_register w s)" "same_pool s (worker_return w r err fl s)" "same_pool s (worker_sync w s)"
  "same_pool s (worker_publish w s)" "same_pool s (worker_requeue w now s)" "same_pool s (worker_tail w s)"
  "same_pool s (worker_finish w s)" "same_pool s (run_deferred d s)"
proof -
  show "same_pool s (snd (Admit k a b now s))" by (simp add: Admit_def Let_def pool_parts split: option.split)
  show "same_pool s (snd (Pause g s))" by (simp add: Pause_def Let_def pool_parts split: option.split)
  show "same_pool s (snd (Cancel g s))" by (simp add: Cancel_def Let_def pool_parts fold_remove_pool split: option.split)
  show "same_pool s (snd (ExtractPausedConfig g s))" by (simp add: ExtractPausedConfig_def Let_def pool_parts split: option.split)
  show "same_pool s (drain_queue s)" by (simp add: drain_queue_def same_pool_def)
  show "same_pool s (waitForTask w now s)"
    by (simp add: waitForTask_def claim_task_def Let_def pool_parts split: prod.split option.split)
  show "same_pool s (worker_register w s)" by (simp add: worker_register_def Let_def pool_parts split: pool_worker.split)
  show "same_pool s (worker_return w r err fl s)" by (simp add: worker_return_def Let_def pool_parts split: pool_worker.split option.split)
  show "same_pool s (worker_sync w s)" by (simp add: worker_sync_def Let_def pool_parts split: pool_worker.split)
  show "same_pool s (worker_publish w s)" by (simp add: worker_publish_def Let_def pool_parts split: pool_worker.split)
  show "same_pool s (worker_requeue w now s)" by (simp add: worker_requeue_def Let_def pool_parts split: pool_worker.split)
  show "same_pool s (worker_tail w s)" by (simp add: worker_tail_def pool_parts split: pool_worker.split)
  show "same_pool s (worker_finish w s)" by (simp add: worker_finish_def pool_parts split: pool_worker.split)
  show "same_pool s (run_deferred d s)" by (simp add: run_deferred_def Let_def pool_parts split: deferred.split)
qed

lemma step_pool: "same_pool (st_sched x) (st_sched (sched_step op x))"
proof (cases op)
  case (SAdmit k a b now)
  then show ?thesis using op_pool(1)[of "st_sched x" k a b now] by (simp add: case_prod_beta)
next
  case (SAdd c p)
  then show ?thesis by (simp add: with_sched_def same_pool_def max_step)
qed (simp_all add: with_sched_def op_pool settle_pool Let_def)

lemma run_pool: "same_pool (st_sched x) (st_sched (sched_run ops x))"
  unfolding sched_run_def
proof (induction ops arbitrary: x)
  case (Cons op ops)
  show ?case using same_pool_trans[OF step_pool[of x op] Cons[of "sched_step op x"]] by simp
qed simp

lemma run_size: "sc_max (st_sched (sched_run ops (new_sched prog n b))) = n"
    "sc_managed (st_sched (sched_run ops (new_sched prog n b))) = b"
  using run_pool[of "new_sched prog n b" ops] by (simp_all add: same_pool_def new_sched_def newScheduler_def)

section \<open>Capacity\<close>

abbreviation run_sched :: "(nat \<Rightarrow> prog_flags) \<Rightarrow> nat \<Rightarrow> bool \<Rightarrow> sched_op list \<Rightarrow> scheduler" where
  "run_sched prog n b ops \<equiv> st_sched (sched_run ops (new_sched prog n b))"

lemma busy_bound:
  assumes i: "pool_inv acc cl s"
  shows "length (sc_busy s) \<le> sc_max s"
proof -
  note d = pool_invD[OF i]
  define own where "own k = (SOME w. \<exists>n. held (sc_pc s w) = Some (n, k))" for k
  have ex: "\<exists>n. held (sc_pc s (own k)) = Some (n, k)" if "k \<in> fst ` set (sc_busy s)" for k
  proof -
    have "\<exists>w n. held (sc_pc s w) = Some (n, k)" using d(4) that unfolding busy_ok_def by blast
    then show ?thesis unfolding own_def by (rule someI_ex)
  qed
  have "inj_on own (fst ` set (sc_busy s))"
  proof (rule inj_onI)
    fix j k assume a: "j \<in> fst ` set (sc_busy s)" "k \<in> fst ` set (sc_busy s)" "own j = own k"
    from ex[OF a(1)] ex[OF a(2)] show "j = k" unfolding a(3) by auto
  qed
  moreover have "own ` (fst ` set (sc_busy s)) \<subseteq> {..<sc_max s}"
  proof
    fix w assume "w \<in> own ` (fst ` set (sc_busy s))"
    then obtain k where k: "k \<in> fst ` set (sc_busy s)" and w: "w = own k" by blast
    obtain n where "held (sc_pc s w) = Some (n, k)" using ex[OF k] unfolding w by blast
    from holderD[OF d(3) this] show "w \<in> {..<sc_max s}" by (simp add: holder_ok_def)
  qed
  ultimately have "card (fst ` set (sc_busy s)) \<le> card {..<sc_max s}" by (rule card_inj_on_le) simp
  moreover have "card (fst ` set (sc_busy s)) = length (sc_busy s)"
    using d(4) distinct_card[of "map fst (sc_busy s)"] by (simp add: busy_ok_def)
  ultimately show ?thesis by simp
qed

text \<open>C38: A pool never holds more than it has room for. Whatever the interleaving of additions, admissions, pauses,
  cancellations, claims, retries and settlements, the slots a managed pool counts as committed (tasks being worked on and
  accepted tasks not yet claimed) stay within its capacity, and no pool works on more tasks than it has workers.\<close>

theorem slots_within_capacity:
  "length (sc_busy (run_sched prog n b ops)) \<le> n \<and> committedSlotsLocked (run_sched prog n True ops) \<le> n"
  using busy_bound[OF run_inv, of ops prog n b] pool_invD(7)[OF run_inv, of ops prog n True] unfolding count_ok_def run_size by blast

text \<open>The places where a release and the \<open>Done\<close> that belongs to it have come apart.\<close>

definition is_settling :: "pool_worker \<Rightarrow> bool" where
  "is_settling p \<longleftrightarrow> p = WOwes"

definition is_releasing :: "pool_worker \<Rightarrow> bool" where
  "is_releasing p = (case p of WRelease _ _ \<Rightarrow> True | _ \<Rightarrow> False)"

lemma workers_at_add:
  assumes "\<And>p. \<not> (P p \<and> Q p)"
  shows "workers_at (\<lambda>p. P p \<or> Q p) s = workers_at P s + workers_at Q s"
  unfolding workers_at_def sum.distrib[symmetric] by (rule sum.cong) (use assms in auto)

lemma workers_at_card: "workers_at P s = card {w. w < sc_max s \<and> P (sc_pc s w)}"
proof -
  have "workers_at P s = (\<Sum>w\<in>{w \<in> {..<sc_max s}. P (sc_pc s w)}. 1)"
    unfolding workers_at_def by (rule sum.inter_filter[symmetric]) simp
  then show ?thesis by (simp add: lessThan_def)
qed

text \<open>A busy slot for each worker that holds a claim, and for no one else.\<close>

lemma busy_held:
  assumes i: "pool_inv acc cl s"
  shows "length (sc_busy s) = workers_at (\<lambda>p. held p \<noteq> None) s"
proof -
  note d = pool_invD[OF i]
  let ?W = "{w. w < sc_max s \<and> held (sc_pc s w) \<noteq> None}" and ?f = "\<lambda>w. snd (the (held (sc_pc s w)))"
  have "?f ` ?W = fst ` set (sc_busy s)"
  proof (rule set_eqI)
    fix k
    show "k \<in> ?f ` ?W \<longleftrightarrow> k \<in> fst ` set (sc_busy s)"
    proof
      assume "k \<in> ?f ` ?W"
      then obtain w where w: "held (sc_pc s w) \<noteq> None" "k = snd (the (held (sc_pc s w)))" by blast
      then obtain n j where "held (sc_pc s w) = Some (n, j)" by (metis option.exhaust prod.exhaust)
      then have "held (sc_pc s w) = Some (n, k)" using w(2) by simp
      then show "k \<in> fst ` set (sc_busy s)" using busyD(2)[OF d(4)] by blast
    next
      assume "k \<in> fst ` set (sc_busy s)"
      then obtain w n where h: "held (sc_pc s w) = Some (n, k)" using busyD(2)[OF d(4)] by blast
      then show "k \<in> ?f ` ?W" using holder_max[OF i h] by (intro image_eqI[of _ _ w]) simp_all
    qed
  qed
  moreover have "inj_on ?f ?W"
  proof (rule inj_onI)
    fix w v assume a: "w \<in> ?W" "v \<in> ?W" "?f w = ?f v"
    obtain n k where x: "held (sc_pc s w) = Some (n, k)" using a(1) by (metis (mono_tags, lifting) mem_Collect_eq option.exhaust prod.exhaust)
    obtain m j where y: "held (sc_pc s v) = Some (m, j)" using a(2) by (metis (mono_tags, lifting) mem_Collect_eq option.exhaust prod.exhaust)
    have "j = k" using a(3) x y by simp
    note x y[unfolded this]
    then show "w = v" by (rule busyD(3)[OF d(4)])
  qed
  ultimately have "card (fst ` set (sc_busy s)) = card ?W" using card_image[of ?f ?W] by simp
  moreover have "card (fst ` set (sc_busy s)) = length (sc_busy s)"
    using d(4) distinct_card[of "map fst (sc_busy s)"] by (simp add: busy_ok_def)
  ultimately show ?thesis unfolding workers_at_card by simp
qed

lemma busy_split:
  assumes i: "pool_inv acc cl s"
  shows "length (sc_busy s) + workers_at is_settling s = workers_at owes s + workers_at is_releasing s"
proof -
  have "length (sc_busy s) + workers_at is_settling s = workers_at (\<lambda>p. held p \<noteq> None \<or> is_settling p) s"
    unfolding busy_held[OF i] by (rule workers_at_add[symmetric]) (auto simp: is_settling_def held_def)
  also have "(\<lambda>p. held p \<noteq> None \<or> is_settling p) = (\<lambda>p. owes p \<or> is_releasing p)"
    by (rule ext) (simp add: pc_defs is_settling_def is_releasing_def split: pool_worker.split)
  also have "workers_at (\<lambda>p. owes p \<or> is_releasing p) s = workers_at owes s + workers_at is_releasing s"
    by (rule workers_at_add) (simp add: owes_def is_releasing_def split: pool_worker.split)
  finally show ?thesis .
qed

text \<open>C39: The wait group of the pool is balanced at every point of every interleaving, with each release, each \<open>Done\<close> and what
  \<open>Pause\<close> and \<open>Cancel\<close> do after the unlock as steps of their own: it equals the queued tasks no worker has claimed, plus the
  workers whose \<open>Done\<close> is still to come, plus the \<open>Done\<close> calls that pauses and cancellations still owe. It is never
  negative (which would panic), and it is zero exactly when all three are. The busy claims are as many as the workers that owe
  a \<open>Done\<close>, less those that have released their claim before it, plus those that called it before the release: so at zero only
  claims of workers about to release are left, which the shutdown waits out.\<close>

theorem waitgroup_balanced:
  "let s = run_sched prog n b ops in
   sc_wg s = int (unclaimed s) + int (workers_at owes s) + int (dones_left s) \<and> 0 \<le> sc_wg s \<and>
   (sc_wg s = 0 \<longleftrightarrow> filter (\<lambda>e. \<not> qt_inFlight (sc_heap s (snd e))) (sc_queued s) = [] \<and>
      {w. w < n \<and> owes (sc_pc s w)} = {} \<and> DDone \<notin> set (sc_deferred s)) \<and>
   length (sc_busy s) + workers_at is_settling s = workers_at owes s + workers_at is_releasing s"
proof -
  define s where "s = run_sched prog n b ops"
  note i = run_inv[of ops prog n b, folded s_def]
  have w: "sc_wg s = int (unclaimed s) + int (workers_at owes s) + int (dones_left s)"
    using pool_invD(7)[OF i] unfolding count_ok_def by blast
  have n: "sc_max s = n" unfolding s_def by (rule run_size)
  have z: "int a + int c + int e = 0 \<longleftrightarrow> a = 0 \<and> c = 0 \<and> e = 0" for a c e :: nat by linarith
  have o: "workers_at owes s = 0 \<longleftrightarrow> {w. w < n \<and> owes (sc_pc s w)} = {}" unfolding workers_at_card n by simp
  have e: "dones_left s = 0 \<longleftrightarrow> DDone \<notin> set (sc_deferred s)" by (simp add: dones_left_def count_list_0_iff)
  have u: "unclaimed s = 0 \<longleftrightarrow> filter (\<lambda>e. \<not> qt_inFlight (sc_heap s (snd e))) (sc_queued s) = []" by (simp only: unclaimed_def length_0_conv)
  show ?thesis unfolding Let_def s_def[symmetric] using busy_split[OF i] unfolding w z o e u by simp
qed

text \<open>
  Both orders occur. At the end of a download the slot is free before \<open>Done\<close> is called; a retry that is paused while it is
  published has its \<open>Done\<close> called, and the wait group is zero, while its claim is still busy.
\<close>

definition one_download :: "sched_op list" where
  "one_download = [SAdd (zero_cfg\<lparr>cf_ID := ''a''\<rparr>) True, SWait 0 5, SRegister 0]"

definition some_flags :: prog_flags where
  "some_flags = \<lparr>pg_done = False, pg_paused = False, pg_pausing = False, pg_verifying = False, pg_total = 0, pg_verified = 0\<rparr>"

definition after_download :: "sched_op list \<Rightarrow> scheduler" where
  "after_download ops = run_sched (\<lambda>_. some_flags) 2 False (one_download @ ops)"

definition release_leads :: scheduler where
  "release_leads = after_download [SReturn 0 zero_cfg None some_flags, SSync 0, SSettle 0 9, STail 0]"

definition done_leads :: scheduler where
  "done_leads = after_download [SReturn 0 zero_cfg (Some [DOther]) some_flags, SSync 0, SSettle 0 9, SPublish 0, SPause ''a'', SRequeue 0 10]"

lemma release_and_done_apart:
  "sc_busy release_leads = [] \<and> sc_wg release_leads = 1 \<and> map fst (sc_busy done_leads) = [(''a'', 1)] \<and> sc_wg done_leads = 0"
proof (intro conjI)
  show "sc_busy release_leads = []" by code_simp
  show "sc_wg release_leads = 1" by code_simp
  show "map fst (sc_busy done_leads) = [(''a'', 1)]" by code_simp
  show "sc_wg done_leads = 0" by code_simp
qed

text \<open>C37: A managed pool starts only what was admitted, and each admission is spent once. Over any run the accepted keys are
  pairwise different, the claimed keys are pairwise different, and every claimed key was accepted: a worker never starts a task
  without an accepted opportunity, and no opportunity, a retry's new one included, is started twice.\<close>

theorem claims_are_admitted:
  "distinct (st_accepted (sched_run ops (new_sched prog n True))) \<and> distinct (st_claimed (sched_run ops (new_sched prog n True))) \<and>
   set (st_claimed (sched_run ops (new_sched prog n True))) \<subseteq> set (st_accepted (sched_run ops (new_sched prog n True)))"
  using pool_invD(5,6)[OF run_inv, of ops prog n True] run_size(2)[of ops prog n True]
  unfolding claim_ok_def accept_ok_def by blast

text \<open>C40: A download has one owner. In every reachable state the queue order lists exactly the queued identifiers, once each,
  and no queued identifier is also an active download, so the collision a worker guards against before it registers a claim never
  occurs; and no two workers hold the same task.\<close>

theorem one_owner:
  "distinct (sc_order (run_sched prog n b ops)) \<and>
   set (sc_order (run_sched prog n b ops)) = fst ` set (sc_queued (run_sched prog n b ops)) \<and>
   fst ` set (sc_queued (run_sched prog n b ops)) \<inter> dom (sc_downloads (run_sched prog n b ops)) = {} \<and>
   inj_on (\<lambda>w. map_option fst (held (sc_pc (run_sched prog n b ops) w))) {w. held (sc_pc (run_sched prog n b ops) w) \<noteq> None}"
proof -
  note d = pool_invD[OF run_inv, of ops prog n b]
  have q: "distinct (sc_order (run_sched prog n b ops))" "set (sc_order (run_sched prog n b ops)) = fst ` set (sc_queued (run_sched prog n b ops))"
    using d(1) unfolding pool_queue_ok_def by blast+
  have dn: "sc_downloads (run_sched prog n b ops) g = None" if "g \<in> fst ` set (sc_queued (run_sched prog n b ops))" for g
  proof -
    from that obtain e where "e \<in> set (sc_queued (run_sched prog n b ops))" "g = fst e" by blast
    then show ?thesis using d(1) unfolding pool_queue_ok_def by simp
  qed
  have "fst ` set (sc_queued (run_sched prog n b ops)) \<inter> dom (sc_downloads (run_sched prog n b ops)) = {}"
  proof (rule equals0I)
    fix g assume "g \<in> fst ` set (sc_queued (run_sched prog n b ops)) \<inter> dom (sc_downloads (run_sched prog n b ops))"
    then have "g \<in> fst ` set (sc_queued (run_sched prog n b ops))" "sc_downloads (run_sched prog n b ops) g \<noteq> None" by (simp_all add: domIff)
    with dn[of g] show False by simp
  qed
  moreover have "inj_on (\<lambda>w. map_option fst (held (sc_pc (run_sched prog n b ops) w))) {w. held (sc_pc (run_sched prog n b ops) w) \<noteq> None}"
  proof (rule inj_onI)
    fix w v
    assume "w \<in> {w. held (sc_pc (run_sched prog n b ops) w) \<noteq> None}" "v \<in> {w. held (sc_pc (run_sched prog n b ops) w) \<noteq> None}"
      and e: "map_option fst (held (sc_pc (run_sched prog n b ops) w)) = map_option fst (held (sc_pc (run_sched prog n b ops) v))"
    then obtain m k j where "held (sc_pc (run_sched prog n b ops) w) = Some (m, k)" "held (sc_pc (run_sched prog n b ops) v) = Some (m, j)" by auto
    then show "w = v" using d(3) unfolding work_ok_def by blast
  qed
  ultimately show ?thesis using q by blast
qed

text \<open>What a scan of the queue hands to a worker is the first eligible task in queue order: every task before it is held
  by a worker, waits for its retry instant or (in a managed pool) is not admitted, and the task itself is none of these.\<close>

theorem claim_is_first:
  assumes "scan_queue now s q e = (Some (g, n), t)"
  shows "\<exists>us vs. q = us @ g # vs \<and> map_of (sc_queued s) g = Some n \<and> scan_queue now s us e = (None, t) \<and>
    \<not> qt_inFlight (sc_heap s n) \<and> (qt_retryAt (sc_heap s n) = zero_time \<or> qt_retryAt (sc_heap s n) \<le> now) \<and>
    (\<not> sc_managed s \<or> qt_admitted (sc_heap s n))"
  using assms
proof (induction q arbitrary: e)
  case (Cons h q)
  have split: "(\<exists>e'. \<forall>us. scan_queue now s (h # us) e = scan_queue now s us e') \<or>
      (\<exists>m. map_of (sc_queued s) h = Some m \<and> \<not> qt_inFlight (sc_heap s m) \<and>
        (qt_retryAt (sc_heap s m) = zero_time \<or> qt_retryAt (sc_heap s m) \<le> now) \<and> (\<not> sc_managed s \<or> qt_admitted (sc_heap s m)) \<and>
        (\<forall>us. scan_queue now s (h # us) e = (Some (h, m), e)))"
  proof (cases "map_of (sc_queued s) h")
    case None
    then show ?thesis by (intro disjI1 exI[of _ e]) simp
  next
    case (Some m)
    consider "qt_inFlight (sc_heap s m)" | "\<not> qt_inFlight (sc_heap s m)" "qt_retryAt (sc_heap s m) \<noteq> zero_time \<and> now < qt_retryAt (sc_heap s m)"
      | "\<not> qt_inFlight (sc_heap s m)" "\<not> (qt_retryAt (sc_heap s m) \<noteq> zero_time \<and> now < qt_retryAt (sc_heap s m))" "sc_managed s \<and> \<not> qt_admitted (sc_heap s m)"
      | "\<not> qt_inFlight (sc_heap s m)" "\<not> (qt_retryAt (sc_heap s m) \<noteq> zero_time \<and> now < qt_retryAt (sc_heap s m))" "\<not> (sc_managed s \<and> \<not> qt_admitted (sc_heap s m))"
      by blast
    then show ?thesis
    proof cases
      case 1
      then show ?thesis by (intro disjI1 exI[of _ e]) (simp add: Some)
    next
      case 2
      then show ?thesis by (intro disjI1 exI[of _ "sooner (qt_retryAt (sc_heap s m)) e"]) (simp add: Some)
    next
      case 3
      then show ?thesis by (intro disjI1 exI[of _ e]) (simp add: Some del: de_Morgan_conj)
    next
      case 4
      have sq: "scan_queue now s (h # us) e = (Some (h, m), e)" for us by (simp add: Some 4 del: de_Morgan_conj)
      show ?thesis by (rule disjI2, rule exI[of _ m], intro conjI allI) (use 4 Some sq in \<open>simp_all add: not_less del: scan_queue.simps\<close>)
    qed
  qed
  show ?case
  proof (cases "\<exists>e'. \<forall>us. scan_queue now s (h # us) e = scan_queue now s us e'")
    case True
    then obtain e' where e: "\<And>us. scan_queue now s (h # us) e = scan_queue now s us e'" by blast
    from Cons.IH[of e'] Cons.prems show ?thesis unfolding e by (metis append_Cons e)
  next
    case False
    then obtain m where m: "map_of (sc_queued s) h = Some m" "\<not> qt_inFlight (sc_heap s m)"
      "qt_retryAt (sc_heap s m) = zero_time \<or> qt_retryAt (sc_heap s m) \<le> now" "\<not> sc_managed s \<or> qt_admitted (sc_heap s m)"
      "\<And>us. scan_queue now s (h # us) e = (Some (h, m), e)" using split by blast
    have "g = h" "n = m" "t = e" using Cons.prems unfolding m(5) by auto
    then show ?thesis using m by (intro exI[of _ "[]"] exI[of _ q]) simp
  qed
qed simp

definition two_tasks :: scheduler where
  "two_tasks = snd (AddWithPreparation (zero_cfg\<lparr>cf_ID := ''b''\<rparr>) True (waitForTask 0 5
     (snd (AddWithPreparation (zero_cfg\<lparr>cf_ID := ''a''\<rparr>) True (newScheduler (\<lambda>_. undefined) 2 False)))))"

lemma claim_is_first_witness:
  "\<exists>us vs. [''a'', ''b''] = us @ ''b'' # vs \<and> map_of (sc_queued two_tasks) ''b'' = Some 1 \<and> scan_queue 5 two_tasks us 0 = (None, 0) \<and>
    \<not> qt_inFlight (sc_heap two_tasks 1) \<and> (qt_retryAt (sc_heap two_tasks 1) = zero_time \<or> qt_retryAt (sc_heap two_tasks 1) \<le> 5) \<and>
    (\<not> sc_managed two_tasks \<or> qt_admitted (sc_heap two_tasks 1))"
  by (rule claim_is_first) (code_simp)

end
