(* ===== verification/Spec2Isabelle.thy ===== *)
theory Spec2Isabelle
  imports DownloadTask TaskQueue ChunkPlan RangeMerge BitmapTracker BitmapFacts BitmapPacking ActiveTasks
    Limiters ReorderMount HlsQueue HlsRetry HlsSession HlsCrypto HlsAttempt HlsEngine HlsManifestFacts HlsRefresh
    SmartAdmission TrackerRuns SchedulerRuns
begin

text \<open>
  GoAria is a desktop download manager in Go: a native HTTP engine (internal/surge) beside an aria2 process, an adaptive
  control of the number of connections (internal/smartthread), a task tracker (internal/monitor) and a user interface.
  This library models the parts that decide which bytes are fetched, counted and written, and which downloads may run.
  All paths below are under internal/.

  \<^bold>\<open>How the parts work together.\<close> The admission gate (smartthread/admission.go) decides from recorded speeds, the
  bandwidth ledger and server limits whether a queued task may start and with how many connections. The tracker
  (monitor/tracker.go) keeps one row per task, hands out opportunity tokens for admissions and one terminal copy per run for
  the history. The pool (surge/scheduler/scheduler.go) holds the queue and its workers; a worker claims a task, registers it
  as active and calls a strategy. The concurrent strategy (surge/strategy/concurrent) cuts the file into ranges, spreads
  them over workers through a work queue, splits and races slow ranges, and records progress in a chunk map. The HLS
  strategy (surge/strategy/hls) fetches a playlist, leases segments to workers, decrypts them and hands them to a reorder
  window that writes one output file in order, with overflow in a spill file and checkpoints for resumption. Both
  strategies use the limiters of surge/transport.

  \<^bold>\<open>Theories and the code they model.\<close>
  GoPrelude: Go's int64 arithmetic (wrap-around at every addition, multiplication and shift that the code leaves unguarded),
  clock values, checked slice access. DownloadTask: types.Task and its encoding (surge/types/models.go).
  TaskQueue: task_queue.go, against the locale \<open>fifo\<close>, which is interpreted on the code's slice with a head index.
  ChunkPlan, RangeMerge: createTasks, the runtime knobs, and the union of remaining ranges at a pause
  (concurrent/downloader.go). BitmapTracker, BitmapFacts, BitmapPacking: progress/bitmap.go and the tasks rebuilt from a
  packed map. ActiveTasks: task.go, StealWork, HedgeWork, residual requeues and the write accounting of worker.go.
  Limiters: rate_limiter.go, multi_limiter.go, ratelimit.go.
  ReorderWindow, ReorderFacts, ReorderInvariant, ReorderRuns: hls/reorder.go and spill.go; ReorderWindow has the locale
  \<open>bitset\<close>, interpreted on the packed byte list. ReorderSeed, ReorderMount: checkpoints, mount.go, init_segment.go.
  HlsQueue: segment_queue.go. HlsRetry: segment_retry.go with the error tree of types/errors.go. HlsSession:
  worker_session.go. HlsCrypto: decrypt.go and the key table of keycache.go. HlsAttempt: segment_worker.go. HlsEngine:
  engine.go. HlsText, HlsManifest, HlsManifestFacts: manifest.go. HlsPreflight: preflight.go, bootstrap.go and the check
  and application of a refreshed playlist. HlsRefresh: manifest_refresh.go.
  SpeedStats: speedstats.go. SmartLedger: bandwidth_ledger.go. SmartCalc, SmartAdmission: smartthread.go,
  physical_ceiling.go, server_limits.go, admission.go. TaskTracker, TrackerRuns: tracker.go, tracker_occupancy.go.
  Scheduler, SchedulerRuns: scheduler.go.
  Records and datatypes carry the fields and constructors of the Go types they stand for, and each operation has the name of
  its Go function or, for a part of a long one, a name that says which part; the texts in front of the definitions name it.

  \<^bold>\<open>State, errors and concurrency.\<close> State is passed explicitly. Errors are values of sums or options, run-time panics
  \<open>None\<close>. Pointers that the code compares are numbers into a heap (tasks, active downloads, shared counters, sessions).
  A section of the code that runs under a mutex is one step; what it does after the unlock, blocking waits (split at the
  condition variable or channel) and atomics outside the lock are steps of their own, and runs interleave steps in any
  order: so for the work queue and the segment queue, the session and its controllers, the engine, the refresh, the tracker
  and the pool. In the pool the release of a slot and the \<open>Done\<close> of the wait group are separate steps wherever the code
  leaves the lock between them or calls \<open>Done\<close> first, and \<open>Pause\<close> and \<open>Cancel\<close> leave their \<open>Done\<close> calls and cancellations for
  later steps; only the settlement of a stale claim, where the code keeps the lock over both in the order release, \<open>Done\<close>,
  is one step. An attempt at a segment is sequential code with the controllers' actions as inputs before it, before its
  commit and during each read.

  \<^bold>\<open>What comes from outside\<close> is an argument: the answers of the file system (a list of outcomes; writes may stop after any
  prefix), network responses and their bodies, clock values and random jitter, the block cipher, the URL parser, hashes and
  floating-point functions (a square root, comparisons of averages), and the result of RunDownload in the pool. Theorems hold
  for all of them, or name what they need, and then have a witness with a concrete instance.

  \<^bold>\<open>Fuel and termination.\<close> The loop of createTasks is a \<open>partial_function\<close>, as it may fail to end for arguments no caller
  gives; \<open>initial_tasks_tile\<close> proves that it ends. The drain of the reorder window takes fuel one above the number of
  retained entries; it returns, because each turn drops an entry or stops (\<open>drain_inv\<close>, and the runs in
  ReorderRuns). Everything else is structural or has its termination proof.

  \<^bold>\<open>What the lemmas show.\<close> Accounting of the bytes on the chunk map and by racing workers; exact tiling and conservation
  of ranges from the first plan to a pause; bounds of the limiters; order, completeness and resumption of the reorder
  window under storage faults; exact credit of an attempt and its mutual exclusion with a stop; no lost wake-up and no lost
  segment in the HLS engine, honest success; well-formed playlists, and refreshes that never mix two manifests in one
  attempt; budgets of the admission gate and exact books of the ledger; one terminal copy per run and the lineage of
  admissions; single ownership, capacity, admitted starts and the wait group of the pool. Component invariants
  (\<open>bm_ok\<close>, \<open>win_inv\<close>, \<open>pool_inv\<close> and the like) are proved preserved by each operation, runs follow by induction.

  \<^bold>\<open>Not modelled.\<close> The HTTP transport, file opening and renaming, persistence in the database and gob files, event
  delivery, logging and telemetry; the convergence controller of smartthread (a feedback loop on floating-point throughput
  averages); the single-connection strategy; the health monitors; the orchestrator and the service layers, which forward
  calls and translate events; aria2 and its RPC client; the extractor packs and their sandbox; the browser extension, the
  user interface and the platform code.
\<close>

end
